(* ===== verification/Prelude.thy ===== *)
theory Prelude
  imports Main "HOL-Library.Word" "HOL-Library.Sublist"
begin

text \<open>
  The shared vocabulary of the development: the C integer types as words of their width, byte
  strings, the status codes of \<^verbatim>\<open>src/src/util/status.h\<close>, the collections of
  rewrite rules the component theories fill, and the bit-level facts about words that the
  little-endian and variable-length encodings rest on.
\<close>

unbundle bit_operations_syntax

named_theorems codec_simps
named_theorems word_bit_simps

section \<open>Machine types\<close>

type_synonym u8 = "8 word"
type_synonym u32 = "32 word"
type_synonym u64 = "64 word"
type_synonym bytes = "u8 list"

text \<open>The return codes of \<^verbatim>\<open>status.h\<close>; \<^verbatim>\<open>LDB_OK\<close> is 0, the others are negative.\<close>

datatype status = LDB_OK | LDB_NOTFOUND | LDB_CORRUPTION | LDB_NOSUPPORT | LDB_INVALID | LDB_IOERR

section \<open>Bits of words\<close>

lemma word_and_127 [word_bit_simps]: "(x :: 'a::len word) AND 127 = take_bit 7 x"
  by (simp add: take_bit_eq_mask mask_eq_exp_minus_1)

lemma word_and_255 [word_bit_simps]: "(x :: 'a::len word) AND 255 = take_bit 8 x"
  by (simp add: take_bit_eq_mask mask_eq_exp_minus_1)

lemma word_or_128 [word_bit_simps]: "(x :: 'a::len word) OR 128 = set_bit 7 x"
  by (simp add: set_bit_eq_or)

lemma word_and_128_eq_0 [word_bit_simps]: "(x :: 'a::len word) AND 128 = 0 \<longleftrightarrow> \<not> bit x 7"
  using and_exp_eq_0_iff_not_bit [of x 7] by simp

lemma word_split7:
  fixes x :: "'a::len word"
  shows "push_bit s (take_bit 7 x) OR push_bit (s + 7) (drop_bit 7 x) = push_bit s x"
proof (rule bit_word_eqI)
  fix n assume n: "n < LENGTH('a)"
  show "bit (push_bit s (take_bit 7 x) OR push_bit (s + 7) (drop_bit 7 x)) n = bit (push_bit s x) n"
  proof (cases "s + 7 \<le> n")
    case True
    then have "7 + (n - (s + 7)) = n - s" by arith
    with True n show ?thesis by (auto simp: bit_simps)
  qed (use n in \<open>auto simp: bit_simps\<close>)
qed

lemma bit_ucast_8 [simp]: "bit (ucast (b :: u8) :: 'a::len word) n \<longleftrightarrow> n < LENGTH('a) \<and> bit b n"
  by (auto simp: bit_simps)

lemma bit_unat_le: "bit (x :: 'a::len word) n \<Longrightarrow> 2 ^ n \<le> unat x"
proof (rule ccontr)
  assume "bit x n" "\<not> 2 ^ n \<le> unat x"
  then have "bit (unat x) n" by (auto simp: bit_unsigned_iff dest: bit_imp_le_length)
  with \<open>\<not> 2 ^ n \<le> unat x\<close> show False by (simp add: bit_iff_odd)
qed

lemma unat_drop_bit_nat: "unat (drop_bit n x) = unat x div 2 ^ n" for x :: "'a::len word"
  by (simp add: unat_drop_bit_eq drop_bit_nat_def)

lemma unat_take_bit_nat: "unat (take_bit n x) = unat x mod 2 ^ n" for x :: "'a::len word"
  by (simp add: unsigned_take_bit_eq take_bit_nat_def)

lemma unat_u8_less: "unat (x :: u8) < 256"
  using unsigned_less [of x] by simp

lemma unat_u32_less: "unat (x :: u32) < 4294967296"
  using unsigned_less [of x] by simp

lemma unat_u64_less: "unat (x :: u64) < 18446744073709551616"
  using unsigned_less [of x] by simp

section \<open>Little-endian bytes\<close>

text \<open>
  The reference meaning of a little-endian integer: \<^term>\<open>le_encode n x\<close> lists the low
  \<^term>\<open>n\<close> bytes of \<^term>\<open>x\<close>, least significant first, and \<^term>\<open>le_decode\<close> reads such a list.
\<close>

fun le_decode :: "bytes \<Rightarrow> 'a::len word" where
  "le_decode [] = 0"
| "le_decode (b # bs) = ucast b OR push_bit 8 (le_decode bs)"

fun le_encode :: "nat \<Rightarrow> 'a::len word \<Rightarrow> bytes" where
  "le_encode 0 x = []"
| "le_encode (Suc n) x = ucast x # le_encode n (drop_bit 8 x)"

lemma length_le_encode [simp]: "length (le_encode n x) = n"
  by (induction n arbitrary: x) auto

lemma le_decode_encode: "le_decode (le_encode n x) = take_bit (8 * n) (x :: 'a::len word)"
proof (induction n arbitrary: x)
  case (Suc n)
  have "ucast (ucast x :: u8) OR push_bit 8 (take_bit (8 * n) (drop_bit 8 x)) = take_bit (8 * Suc n) x"
    by (rule bit_word_eqI) (auto simp: bit_simps not_less)
  then show ?case by (simp add: Suc)
qed simp

lemma bit_le_decode: "bit (le_decode bs :: 'a::len word) n \<Longrightarrow> n < 8 * length bs"
proof (induction bs arbitrary: n)
  case (Cons b bs)
  show ?case
  proof (cases "n < 8")
    case False
    with Cons.prems have "bit (le_decode bs :: 'a word) (n - 8)"
      by (auto simp: bit_simps dest: bit_imp_le_length)
    from Cons.IH [OF this] False show ?thesis by simp
  qed simp
qed simp

lemma le_encode_decode:
  "8 * length bs \<le> LENGTH('a) \<Longrightarrow> le_encode (length bs) (le_decode bs :: 'a::len word) = bs"
proof (induction bs)
  case (Cons b bs)
  have "ucast (ucast b OR push_bit 8 (le_decode bs :: 'a word)) = b"
    using Cons.prems by (intro bit_word_eqI) (auto simp: bit_simps)
  moreover have "drop_bit 8 (ucast b OR push_bit 8 (le_decode bs :: 'a word)) = le_decode bs"
    using Cons.prems
    by (intro bit_word_eqI) (auto simp: bit_simps dest: bit_imp_le_length bit_le_decode)
  ultimately show ?case using Cons by simp
qed simp

section \<open>Lists\<close>

lemma take_append_length [simp]: "length xs = n \<Longrightarrow> take n (xs @ ys) = xs"
  by simp

lemma drop_append_length [simp]: "length xs = n \<Longrightarrow> drop n (xs @ ys) = ys"
  by simp

end
