(* ===== verification/Codec.thy ===== *)
theory Codec
  imports Prelude
begin

text \<open>
  The contract every on-disk encoding of the database meets: what was encoded is decoded again
  whatever follows it, and a decoder takes at least one byte off its input. The clients (length
  prefixed slices, write batches, version edits, blocks) use only these two laws.
\<close>

lemma strict_suffix_Cons1: "strict_suffix xs ys \<Longrightarrow> strict_suffix xs (y # ys)"
  by (auto simp: strict_suffix_def suffix_def)

lemma strict_suffix_Cons2 [simp]: "strict_suffix xs (y # xs)"
  by (auto simp: strict_suffix_def suffix_def)

lemma strict_suffix_drop: "0 < n \<Longrightarrow> n \<le> length xs \<Longrightarrow> strict_suffix (drop n xs) xs"
  by (metis drop_eq_Nil diff_less le_neq_implies_less length_drop less_le_trans linorder_not_less
      nless_le strict_suffix_def suffix_drop)

lemma strict_suffix_length: "strict_suffix xs ys \<Longrightarrow> length xs < length ys"
  by (auto simp: strict_suffix_def suffix_def)

lemma strict_suffix_trans1: "strict_suffix xs ys \<Longrightarrow> suffix ys zs \<Longrightarrow> strict_suffix xs zs"
  by (auto simp: strict_suffix_def suffix_def)

locale codec =
  fixes enc :: "'a \<Rightarrow> bytes"
    and dec :: "bytes \<Rightarrow> ('a \<times> bytes) option"
    and valid :: "'a \<Rightarrow> bool"
  assumes dec_enc: "valid x \<Longrightarrow> dec (enc x @ rest) = Some (x, rest)"
    and dec_suffix: "dec bs = Some (x, rest) \<Longrightarrow> strict_suffix rest bs"
begin

lemma dec_length: "dec bs = Some (x, rest) \<Longrightarrow> length rest < length bs"
  by (rule strict_suffix_length) (rule dec_suffix)

lemma dec_Nil: "dec [] = None"
  using dec_length [of "[]"] by (cases "dec []") auto

lemma enc_nonempty: "valid x \<Longrightarrow> enc x \<noteq> []"
  using dec_enc [of x "[]"] dec_Nil by auto

lemma enc_append_inj: "valid x \<Longrightarrow> valid y \<Longrightarrow> enc x @ r = enc y @ s \<Longrightarrow> x = y \<and> r = s"
  by (metis dec_enc option.inject prod.inject)

lemma enc_concat_inj:
  "list_all valid xs \<Longrightarrow> list_all valid ys \<Longrightarrow>
     concat (map enc xs) = concat (map enc ys) \<Longrightarrow> xs = ys"
proof (induction xs arbitrary: ys)
  case Nil
  then show ?case by (cases ys) (auto simp: enc_nonempty)
next
  case (Cons x xs)
  then obtain y ys' where ys: "ys = y # ys'"
    by (cases ys) (auto simp: enc_nonempty)
  with Cons.prems have "x = y \<and> concat (map enc xs) = concat (map enc ys')"
    by (intro enc_append_inj) auto
  with Cons ys show ?case by auto
qed

end

end
