(* ===== verification/Coding.thy ===== *)
theory Coding
  imports Codec
begin

text \<open>
  The integer encodings of \<^verbatim>\<open>src/src/util/coding.h\<close>.

  A writer \<^verbatim>\<open>uint8_t *f(uint8_t *zp, T x)\<close> stores bytes at \<^verbatim>\<open>zp\<close> and returns the advanced
  pointer: its model is the list of the bytes it stores. A reader
  \<^verbatim>\<open>int f(T *z, const uint8_t **xp, size_t *xn)\<close> takes bytes off the front of the cursor
  \<^verbatim>\<open>(xp, xn)\<close>: its model maps the bytes under the cursor to \<^term>\<open>Some\<close> of the value and the
  remaining bytes, or to \<^term>\<open>None\<close> where the function returns 0 (no caller uses the cursor after
  a failure). The \<^verbatim>\<open>decode\<close> functions read a fixed number of bytes and, as in the source, need them
  to be there.
\<close>

section \<open>Fixed-width integers\<close>

definition ldb_fixed32_encode :: "u32 \<Rightarrow> bytes" where
  "ldb_fixed32_encode x =
     [ucast (drop_bit 0 x), ucast (drop_bit 8 x), ucast (drop_bit 16 x), ucast (drop_bit 24 x)]"

definition ldb_fixed32_decode :: "bytes \<Rightarrow> u32" where
  "ldb_fixed32_decode xp =
     (push_bit 0 (ucast (xp ! 0))
      OR push_bit 8 (ucast (xp ! 1))
      OR push_bit 16 (ucast (xp ! 2))
      OR push_bit 24 (ucast (xp ! 3)))"

definition ldb_fixed64_encode :: "u64 \<Rightarrow> bytes" where
  "ldb_fixed64_encode x =
     [ucast (drop_bit 0 x), ucast (drop_bit 8 x), ucast (drop_bit 16 x), ucast (drop_bit 24 x),
      ucast (drop_bit 32 x), ucast (drop_bit 40 x), ucast (drop_bit 48 x), ucast (drop_bit 56 x)]"

definition ldb_fixed64_decode :: "bytes \<Rightarrow> u64" where
  "ldb_fixed64_decode xp =
     (push_bit 0 (ucast (xp ! 0))
      OR push_bit 8 (ucast (xp ! 1))
      OR push_bit 16 (ucast (xp ! 2))
      OR push_bit 24 (ucast (xp ! 3))
      OR push_bit 32 (ucast (xp ! 4))
      OR push_bit 40 (ucast (xp ! 5))
      OR push_bit 48 (ucast (xp ! 6))
      OR push_bit 56 (ucast (xp ! 7)))"

definition ldb_fixed32_write :: "u32 \<Rightarrow> bytes" where
  "ldb_fixed32_write x =
     [ucast (drop_bit 0 x), ucast (drop_bit 8 x), ucast (drop_bit 16 x), ucast (drop_bit 24 x)]"

definition ldb_fixed32_read :: "bytes \<Rightarrow> (u32 \<times> bytes) option" where
  "ldb_fixed32_read xp =
     (if length xp < 4 then None else Some (ldb_fixed32_decode xp, drop 4 xp))"

definition ldb_fixed32_slurp :: "bytes \<Rightarrow> (u32 \<times> bytes) option" where
  "ldb_fixed32_slurp x = ldb_fixed32_read x"

definition ldb_fixed64_write :: "u64 \<Rightarrow> bytes" where
  "ldb_fixed64_write x =
     [ucast (drop_bit 0 x), ucast (drop_bit 8 x), ucast (drop_bit 16 x), ucast (drop_bit 24 x),
      ucast (drop_bit 32 x), ucast (drop_bit 40 x), ucast (drop_bit 48 x), ucast (drop_bit 56 x)]"

definition ldb_fixed64_read :: "bytes \<Rightarrow> (u64 \<times> bytes) option" where
  "ldb_fixed64_read xp =
     (if length xp < 8 then None else Some (ldb_fixed64_decode xp, drop 8 xp))"

definition ldb_fixed64_slurp :: "bytes \<Rightarrow> (u64 \<times> bytes) option" where
  "ldb_fixed64_slurp x = ldb_fixed64_read x"

section \<open>Variable-length integers\<close>

definition ldb_varint32_size :: "u32 \<Rightarrow> nat" where
  "ldb_varint32_size x =
     (if x < push_bit 7 1 then 1
      else if x < push_bit 14 1 then 2
      else if x < push_bit 21 1 then 3
      else if x < push_bit 28 1 then 4
      else 5)"

definition ldb_varint32_write :: "u32 \<Rightarrow> bytes" where
  "ldb_varint32_write x =
     (let B = 128 in
      if x < push_bit 7 1 then [ucast x]
      else if x < push_bit 14 1 then [ucast (x OR B), ucast (drop_bit 7 x)]
      else if x < push_bit 21 1 then
        [ucast (x OR B), ucast (drop_bit 7 x OR B), ucast (drop_bit 14 x)]
      else if x < push_bit 28 1 then
        [ucast (x OR B), ucast (drop_bit 7 x OR B), ucast (drop_bit 14 x OR B), ucast (drop_bit 21 x)]
      else
        [ucast (x OR B), ucast (drop_bit 7 x OR B), ucast (drop_bit 14 x OR B),
         ucast (drop_bit 21 x OR B), ucast (drop_bit 28 x)])"

text \<open>The loop of \<^verbatim>\<open>ldb_varint32_read\<close>, from a given \<^verbatim>\<open>shift\<close> and \<^verbatim>\<open>result\<close>.\<close>

function ldb_varint32_read_loop :: "nat \<Rightarrow> u32 \<Rightarrow> bytes \<Rightarrow> (u32 \<times> bytes) option" where
  "ldb_varint32_read_loop shift result xp =
     (if shift \<le> 28 then
        (case xp of
           [] \<Rightarrow> None
         | b # xs \<Rightarrow>
             let byte = ucast b :: u32 in
             if byte AND 128 \<noteq> 0
             then ldb_varint32_read_loop (shift + 7) (result OR push_bit shift (byte AND 127)) xs
             else Some (result OR push_bit shift byte, xs))
      else None)"
  by pat_completeness auto
termination
  by (relation "measure (\<lambda>(shift, result, xp). length xp)") auto

definition ldb_varint32_read :: "bytes \<Rightarrow> (u32 \<times> bytes) option" where
  "ldb_varint32_read xp = ldb_varint32_read_loop 0 0 xp"

definition ldb_varint32_slurp :: "bytes \<Rightarrow> (u32 \<times> bytes) option" where
  "ldb_varint32_slurp x = ldb_varint32_read x"

function ldb_varint64_size :: "u64 \<Rightarrow> nat" where
  "ldb_varint64_size x = (if x \<ge> 128 then ldb_varint64_size (drop_bit 7 x) + 1 else 1)"
  by pat_completeness auto
termination
  by (relation "measure unat")
    (auto simp: word_le_nat_alt unat_drop_bit_eq drop_bit_nat_def)

function ldb_varint64_write :: "u64 \<Rightarrow> bytes" where
  "ldb_varint64_write x =
     (let B = 128 in
      if x \<ge> B then ucast (x OR B) # ldb_varint64_write (drop_bit 7 x) else [ucast x])"
  by pat_completeness auto
termination
  by (relation "measure unat")
    (auto simp: word_le_nat_alt unat_drop_bit_eq drop_bit_nat_def)

text \<open>The loop of \<^verbatim>\<open>ldb_varint64_read\<close>, from a given \<^verbatim>\<open>shift\<close> and \<^verbatim>\<open>result\<close>.\<close>

function ldb_varint64_read_loop :: "nat \<Rightarrow> u64 \<Rightarrow> bytes \<Rightarrow> (u64 \<times> bytes) option" where
  "ldb_varint64_read_loop shift result xp =
     (if shift \<le> 63 then
        (case xp of
           [] \<Rightarrow> None
         | b # xs \<Rightarrow>
             let byte = ucast b :: u64 in
             if byte AND 128 \<noteq> 0
             then ldb_varint64_read_loop (shift + 7) (result OR push_bit shift (byte AND 127)) xs
             else Some (result OR push_bit shift byte, xs))
      else None)"
  by pat_completeness auto
termination
  by (relation "measure (\<lambda>(shift, result, xp). length xp)") auto

definition ldb_varint64_read :: "bytes \<Rightarrow> (u64 \<times> bytes) option" where
  "ldb_varint64_read xp = ldb_varint64_read_loop 0 0 xp"

definition ldb_varint64_slurp :: "bytes \<Rightarrow> (u64 \<times> bytes) option" where
  "ldb_varint64_slurp x = ldb_varint64_read x"

section \<open>Raw bytes\<close>

definition ldb_raw_write :: "bytes \<Rightarrow> bytes" where
  "ldb_raw_write xp = xp"

definition ldb_raw_read :: "nat \<Rightarrow> bytes \<Rightarrow> (bytes \<times> bytes) option" where
  "ldb_raw_read zn xp =
     (if length xp < zn then None
      else if zn > 0 then Some (take zn xp, drop zn xp)
      else Some ([], xp))"

definition ldb_zraw_read :: "nat \<Rightarrow> bytes \<Rightarrow> (bytes \<times> bytes) option" where
  "ldb_zraw_read zn xp = (if length xp < zn then None else Some (take zn xp, drop zn xp))"

definition ldb_padding_write :: "nat \<Rightarrow> bytes" where
  "ldb_padding_write zn = replicate zn 0"

declare ldb_varint32_read_loop.simps [simp del]
declare ldb_varint64_size.simps [simp del]
declare ldb_varint64_write.simps [simp del]
declare ldb_varint64_read_loop.simps [simp del]

section \<open>Fixed-width integers are little-endian\<close>

lemma ldb_fixed32_write_le: "ldb_fixed32_write x = le_encode 4 x"
  by (simp add: ldb_fixed32_write_def numeral_eq_Suc drop_bit_drop_bit)

lemma ldb_fixed64_write_le: "ldb_fixed64_write x = le_encode 8 x"
  by (simp add: ldb_fixed64_write_def numeral_eq_Suc drop_bit_drop_bit)

lemma ldb_fixed32_decode_le: "4 \<le> length xs \<Longrightarrow> ldb_fixed32_decode xs = le_decode (take 4 xs)"
  by (auto simp: ldb_fixed32_decode_def numeral_eq_Suc Suc_le_length_iff push_bit_or or.assoc)

lemma ldb_fixed64_decode_le: "8 \<le> length xs \<Longrightarrow> ldb_fixed64_decode xs = le_decode (take 8 xs)"
  by (auto simp: ldb_fixed64_decode_def numeral_eq_Suc Suc_le_length_iff push_bit_or or.assoc)

lemma ldb_fixed32_decode_write [codec_simps, simp]: "ldb_fixed32_decode (ldb_fixed32_write x @ r) = x"
  by (simp add: ldb_fixed32_decode_le ldb_fixed32_write_le le_decode_encode take_bit_word_eq_self)

lemma ldb_fixed64_decode_write [codec_simps, simp]: "ldb_fixed64_decode (ldb_fixed64_write x @ r) = x"
  by (simp add: ldb_fixed64_decode_le ldb_fixed64_write_le le_decode_encode take_bit_word_eq_self)

lemma ldb_fixed32_write_decode: "4 \<le> length xs \<Longrightarrow> ldb_fixed32_write (ldb_fixed32_decode xs) = take 4 xs"
  using le_encode_decode[of "take 4 xs", where ?'a=32] by (simp add: ldb_fixed32_decode_le ldb_fixed32_write_le min_absorb2)

lemma ldb_fixed64_write_decode: "8 \<le> length xs \<Longrightarrow> ldb_fixed64_write (ldb_fixed64_decode xs) = take 8 xs"
  using le_encode_decode[of "take 8 xs", where ?'a=64] by (simp add: ldb_fixed64_decode_le ldb_fixed64_write_le min_absorb2)

text \<open>
  The reference encoding both widths share: seven bits a byte, least significant first, the top
  bit set on every byte but the last.
\<close>

function varint :: "'a::len word \<Rightarrow> bytes" where
  "varint x = (if 128 \<le> unat x then ucast (x OR 128) # varint (drop_bit 7 x) else [ucast x])"
  by pat_completeness auto
termination
  by (relation "measure unat")
    (auto simp: word_le_nat_alt unat_drop_bit_eq drop_bit_nat_def)

declare varint.simps [simp del]

lemma ldb_varint64_write_varint: "ldb_varint64_write x = varint x"
proof (induction x rule: ldb_varint64_write.induct)
  case (1 x)
  then show ?case
    by (subst ldb_varint64_write.simps, subst varint.simps) (simp add: word_le_nat_alt)
qed

lemma ldb_varint64_size_varint: "ldb_varint64_size x = length (varint x)"
proof (induction x rule: ldb_varint64_size.induct)
  case (1 x)
  then show ?case
    by (subst ldb_varint64_size.simps, subst varint.simps) (simp add: word_le_nat_alt)
qed

lemma varint_step: "128 \<le> unat x \<Longrightarrow> varint x = ucast (x OR 128) # varint (drop_bit 7 x)"
  by (subst varint.simps) simp
lemma varint_last: "unat x < 128 \<Longrightarrow> varint x = [ucast x]"
  by (subst varint.simps) simp

lemma ldb_varint32_write_varint: "ldb_varint32_write x = varint x"
proof -
  have bound: "unat x < 2 ^ 32" using unat_u32_less [of x] by simp
  note defs = ldb_varint32_write_def Let_def word_less_nat_alt drop_bit_drop_bit unat_drop_bit_nat varint_step varint_last
  show ?thesis
   using bound
    by (auto simp: defs not_less div_le_mono)
qed

lemma ldb_varint32_size_varint: "ldb_varint32_size x = length (varint x)"
proof -
  have bound: "unat x < 2 ^ 32" using unat_u32_less [of x] by simp
  then show ?thesis
    by (auto simp: ldb_varint32_size_def word_less_nat_alt drop_bit_drop_bit unat_drop_bit_nat varint_step varint_last)
qed


lemma varint_bit7:
  fixes x :: "'a::len word"
  assumes "7 < LENGTH('a)"
  shows "bit (ucast (x OR 128) :: u8) 7"
  using assms by (auto simp: word_or_128 bit_simps)

lemma varint_low:
  fixes x :: "'a::len word"
  shows "take_bit 7 (ucast (ucast (x OR 128) :: u8)) = take_bit 7 x"
  by (rule bit_word_eqI) (auto simp: word_or_128 bit_simps)

lemma ucast_small:
  fixes x :: "'a::len word"
  assumes "unat x < 256"
  shows "ucast (ucast x :: u8) = x"
proof -
  have "unat (take_bit 8 x) = unat x"
    using assms by (simp add: unsigned_take_bit_eq take_bit_nat_def)
  then have "take_bit 8 x = x" by (simp only: word_unat_eq_iff)
  then show ?thesis by (simp add: unsigned_ucast_eq word_eq_iff_unsigned)
qed

lemma not_bit_7: "unat x < 128 \<Longrightarrow> \<not> bit (x :: 'a::len word) 7"
  using bit_unat_le [of x 7] by auto

lemma div_128_less: "7 \<le> n \<Longrightarrow> (a::nat) < 2 ^ n \<Longrightarrow> a div 128 < 2 ^ (n - 7)"
proof -
  assume "7 \<le> n" "a < 2 ^ n"
  moreover have "(2::nat) ^ n = 2 ^ (n - 7) * 128"
    using \<open>7 \<le> n\<close> power_add [of "2::nat" "n - 7" 7] by simp
  ultimately show ?thesis by (simp add: less_mult_imp_div_less)
qed

lemma ldb_varint64_read_loop_varint:
  "shift \<le> 63 \<Longrightarrow> unat x < 2 ^ (64 - shift) \<Longrightarrow>
     ldb_varint64_read_loop shift result (varint x @ rest) = Some (result OR push_bit shift x, rest)"
proof (induction x arbitrary: shift result rule: varint.induct)
  case (1 x)
  show ?case
  proof (cases "128 \<le> unat x")
    case True
    have "shift + 7 \<le> 63"
    proof (rule ccontr)
      assume "\<not> ?thesis"
      then have "64 - shift \<le> 7" by simp
      then have "(2::nat) ^ (64 - shift) \<le> 2 ^ 7" by (intro power_increasing) auto
      with "1.prems" True show False by simp
    qed
    moreover from this "1.prems" have "unat (drop_bit 7 x) < 2 ^ (64 - (shift + 7))"
      using div_128_less [of "64 - shift" "unat x"] by (simp add: unat_drop_bit_nat)
    ultimately have "ldb_varint64_read_loop (shift + 7) (result OR push_bit shift (take_bit 7 x)) (varint (drop_bit 7 x) @ rest)
        = Some ((result OR push_bit shift (take_bit 7 x)) OR push_bit (shift + 7) (drop_bit 7 x), rest)"
      using True by (intro "1.IH") auto
    then show ?thesis using True "1.prems" varint_bit7 [of x]
      by (subst ldb_varint64_read_loop.simps)
         (simp add: varint_step varint_low word_and_127 word_and_128_eq_0 or.assoc word_split7)
  next
    case False
    then have "\<not> bit x 7" "ucast (ucast x :: u8) = x"
     by (auto simp: not_bit_7 ucast_small)
    with False "1.prems" show ?thesis
      by (subst ldb_varint64_read_loop.simps) (simp add: varint_last word_and_128_eq_0)
  qed
qed


lemma ldb_varint32_read_loop_varint:
  "shift \<le> 28 \<Longrightarrow> 7 dvd shift \<Longrightarrow> unat x < 2 ^ (32 - shift) \<Longrightarrow>
     ldb_varint32_read_loop shift result (varint x @ rest) = Some (result OR push_bit shift x, rest)"
proof (induction x arbitrary: shift result rule: varint.induct)
  case (1 x)
  show ?case
  proof (cases "128 \<le> unat x")
    case True
    have "shift + 7 \<le> 28"
    proof (rule ccontr)
      assume "\<not> ?thesis"
      with "1.prems" have "shift = 28" by presburger
      with "1.prems" True show False by simp
    qed
    moreover from this "1.prems" have "unat (drop_bit 7 x) < 2 ^ (32 - (shift + 7))"
      using div_128_less [of "32 - shift" "unat x"] by (simp add: unat_drop_bit_nat)
    ultimately have "ldb_varint32_read_loop (shift + 7) (result OR push_bit shift (take_bit 7 x)) (varint (drop_bit 7 x) @ rest)
        = Some ((result OR push_bit shift (take_bit 7 x)) OR push_bit (shift + 7) (drop_bit 7 x), rest)"
      using True "1.prems" by (intro "1.IH") auto
    then show ?thesis using True "1.prems" varint_bit7 [of x]
      by (subst ldb_varint32_read_loop.simps)
         (simp add: varint_step varint_low word_and_127 word_and_128_eq_0 or.assoc word_split7)
  next
    case False
    then have "\<not> bit x 7" "ucast (ucast x :: u8) = x"
     by (auto simp: not_bit_7 ucast_small)
    with False "1.prems" show ?thesis
      by (subst ldb_varint32_read_loop.simps) (simp add: varint_last word_and_128_eq_0)
  qed
qed


lemma ldb_varint32_read_loop_suffix:
  "ldb_varint32_read_loop shift result bs = Some (x, rest) \<Longrightarrow> strict_suffix rest bs"
proof (induction shift result bs rule: ldb_varint32_read_loop.induct)
  case (1 shift result bs)
  then show ?case
    unfolding ldb_varint32_read_loop.simps [of shift result bs]
    by (auto simp: Let_def strict_suffix_Cons1 strict_suffix_Cons2 split: if_splits list.splits)
qed

lemma ldb_varint64_read_loop_suffix:
  "ldb_varint64_read_loop shift result bs = Some (x, rest) \<Longrightarrow> strict_suffix rest bs"
proof (induction shift result bs rule: ldb_varint64_read_loop.induct)
  case (1 shift result bs)
  then show ?case
    unfolding ldb_varint64_read_loop.simps [of shift result bs]
    by (auto simp: Let_def strict_suffix_Cons1 strict_suffix_Cons2 split: if_splits list.splits)
qed

section \<open>The encodings meet the codec contract\<close>

lemma length_fixed_write [simp]:
  "length (ldb_fixed32_write x) = 4" "length (ldb_fixed64_write y) = 8"
  by (simp_all add: ldb_fixed32_write_def ldb_fixed64_write_def)

lemma length_fixed_encode [simp]:
  "length (ldb_fixed32_encode x) = 4" "length (ldb_fixed64_encode y) = 8"
  by (simp_all add: ldb_fixed32_encode_def ldb_fixed64_encode_def)

interpretation fixed32: codec ldb_fixed32_write ldb_fixed32_read "\<lambda>_. True"
  by unfold_locales (auto simp: ldb_fixed32_read_def intro: strict_suffix_drop split: if_splits)

interpretation fixed64: codec ldb_fixed64_write ldb_fixed64_read "\<lambda>_. True"
  by unfold_locales (auto simp: ldb_fixed64_read_def intro: strict_suffix_drop split: if_splits)

interpretation varint32: codec ldb_varint32_write ldb_varint32_read "\<lambda>_. True"
proof
  fix x :: u32 and rest :: bytes
  show "ldb_varint32_read (ldb_varint32_write x @ rest) = Some (x, rest)"
    using unat_u32_less [of x] ldb_varint32_read_loop_varint [of 0 x 0 rest]
    by (simp add: ldb_varint32_read_def ldb_varint32_write_varint)
qed (simp add: ldb_varint32_read_def ldb_varint32_read_loop_suffix)

interpretation varint64: codec ldb_varint64_write ldb_varint64_read "\<lambda>_. True"
proof
  fix x :: u64 and rest :: bytes
  show "ldb_varint64_read (ldb_varint64_write x @ rest) = Some (x, rest)"
    using unat_u64_less [of x] ldb_varint64_read_loop_varint [of 0 x 0 rest]
    by (simp add: ldb_varint64_read_def ldb_varint64_write_varint)
qed (simp add: ldb_varint64_read_def ldb_varint64_read_loop_suffix)

lemmas codec_roundtrips [codec_simps, simp] =
  fixed32.dec_enc [simplified] fixed64.dec_enc [simplified]
  varint32.dec_enc [simplified] varint64.dec_enc [simplified]

lemma ldb_varint32_size_write: "ldb_varint32_size x = length (ldb_varint32_write x)"
  by (simp add: ldb_varint32_size_varint ldb_varint32_write_varint)

lemma ldb_varint64_size_write: "ldb_varint64_size x = length (ldb_varint64_write x)"
  by (simp add: ldb_varint64_size_varint ldb_varint64_write_varint)

lemma length_varint_bound: "unat x < 2 ^ (7 * n) \<Longrightarrow> 0 < n \<Longrightarrow> length (varint x) \<le> n"
proof (induction n arbitrary: x)
  case (Suc n)
  show ?case
  proof (cases "unat x < 128")
    case False
    then have "0 < n" using Suc.prems by (cases n) auto
    moreover have "unat (drop_bit 7 x) < 2 ^ (7 * n)"
      using Suc.prems div_128_less [of "7 * Suc n" "unat x"] by (simp add: unat_drop_bit_nat)
    ultimately show ?thesis using Suc.IH [of "drop_bit 7 x"] False
      by (simp add: varint_step)
  qed (simp add: varint_last)
qed simp

lemma length_ldb_varint32_write: "0 < length (ldb_varint32_write x) \<and> length (ldb_varint32_write x) \<le> 5"
  using varint32.enc_nonempty [of x] by (auto simp: ldb_varint32_size_def simp flip: ldb_varint32_size_write)

lemma length_ldb_varint64_write: "0 < length (ldb_varint64_write x) \<and> length (ldb_varint64_write x) \<le> 10"
proof -
  have "unat x < 2 ^ 64" using unat_u64_less [of x] by simp
  then have "unat x < 2 ^ (7 * 10)" by (rule less_trans) simp
  then show ?thesis
    using varint64.enc_nonempty [of x] length_varint_bound [of x 10]
    by (auto simp: ldb_varint64_write_varint)
qed

section \<open>Arrays of fixed-width integers\<close>

definition fixed32_array :: "nat list \<Rightarrow> bytes" where
  "fixed32_array xs = concat (map (\<lambda>x. ldb_fixed32_write (word_of_nat x)) xs)"

lemma length_fixed32_array [simp]: "length (fixed32_array xs) = length xs * 4"
  by (induction xs) (simp_all add: fixed32_array_def)

lemma foldl_fixed32_array:
  "foldl (\<lambda>buf x. buf @ ldb_fixed32_write (word_of_nat x)) buf xs = buf @ fixed32_array xs"
  by (induction xs arbitrary: buf) (simp_all add: fixed32_array_def)

lemma drop_fixed32_array:
  "i < length xs \<Longrightarrow> \<exists>t. drop (i * 4) (fixed32_array xs @ r) = ldb_fixed32_write (word_of_nat (xs ! i)) @ t"
proof (induction xs arbitrary: i)
  case (Cons x xs)
  then show ?case by (cases i) (auto simp: fixed32_array_def)
qed simp

lemma decode_fixed32_array:
  "i < length xs \<Longrightarrow> xs ! i < 2 ^ 32 \<Longrightarrow> unat (ldb_fixed32_decode (drop (i * 4) (fixed32_array xs @ r))) = xs ! i"
  using drop_fixed32_array [of i xs r] by (auto simp: unat_of_nat take_bit_nat_eq_self)

section \<open>Properties\<close>

text \<open>
  C40. Variable-length integers of both widths round trip in front of any following bytes, take the
  number of bytes that the size functions announce, and never more than 5 and 10 bytes.
\<close>

theorem varint_roundtrip:
  "ldb_varint32_read (ldb_varint32_write x @ rest) = Some (x, rest)
   \<and> ldb_varint32_size x = length (ldb_varint32_write x) \<and> ldb_varint32_size x \<le> 5
   \<and> ldb_varint64_read (ldb_varint64_write y @ rest) = Some (y, rest)
   \<and> ldb_varint64_size y = length (ldb_varint64_write y) \<and> ldb_varint64_size y \<le> 10"
  using length_ldb_varint32_write [of x] length_ldb_varint64_write [of y]
  by (simp add: ldb_varint32_size_write ldb_varint64_size_write)

end
