(* ===== verification/Crc32c.thy ===== *)
theory Crc32c
  imports Coding
begin

text \<open>
  CRC32C (\<^verbatim>\<open>src/src/util/crc32c.c\<close>). The file has two implementations of \<^verbatim>\<open>ldb_crc32c_extend\<close>: the
  byte-at-a-time one of the \<^verbatim>\<open>LDB_CRC32C_SIMPLE\<close> build (\<^verbatim>\<open>ldb_crc32c_extend\<close> below) and the
  default one, which reads four-byte words in four interleaved strides
  (\<^verbatim>\<open>ldb_crc32c_extend_strided\<close> below). Both are translated, with their tables, and shown equal, so
  the theories that compute checksums use the first.

  The strided version looks at the alignment of its pointer, so its model takes the address of
  the data as an argument.
\<close>

section \<open>Tables\<close>

definition byte_ext_table :: "u32 list" where
  "byte_ext_table =
     [
      0x00000000, 0xf26b8303, 0xe13b70f7, 0x1350f3f4, 0xc79a971f, 0x35f1141c,
      0x26a1e7e8, 0xd4ca64eb, 0x8ad958cf, 0x78b2dbcc, 0x6be22838, 0x9989ab3b,
      0x4d43cfd0, 0xbf284cd3, 0xac78bf27, 0x5e133c24, 0x105ec76f, 0xe235446c,
      0xf165b798, 0x030e349b, 0xd7c45070, 0x25afd373, 0x36ff2087, 0xc494a384,
      0x9a879fa0, 0x68ec1ca3, 0x7bbcef57, 0x89d76c54, 0x5d1d08bf, 0xaf768bbc,
      0xbc267848, 0x4e4dfb4b, 0x20bd8ede, 0xd2d60ddd, 0xc186fe29, 0x33ed7d2a,
      0xe72719c1, 0x154c9ac2, 0x061c6936, 0xf477ea35, 0xaa64d611, 0x580f5512,
      0x4b5fa6e6, 0xb93425e5, 0x6dfe410e, 0x9f95c20d, 0x8cc531f9, 0x7eaeb2fa,
      0x30e349b1, 0xc288cab2, 0xd1d83946, 0x23b3ba45, 0xf779deae, 0x05125dad,
      0x1642ae59, 0xe4292d5a, 0xba3a117e, 0x4851927d, 0x5b016189, 0xa96ae28a,
      0x7da08661, 0x8fcb0562, 0x9c9bf696, 0x6ef07595, 0x417b1dbc, 0xb3109ebf,
      0xa0406d4b, 0x522bee48, 0x86e18aa3, 0x748a09a0, 0x67dafa54, 0x95b17957,
      0xcba24573, 0x39c9c670, 0x2a993584, 0xd8f2b687, 0x0c38d26c, 0xfe53516f,
      0xed03a29b, 0x1f682198, 0x5125dad3, 0xa34e59d0, 0xb01eaa24, 0x42752927,
      0x96bf4dcc, 0x64d4cecf, 0x77843d3b, 0x85efbe38, 0xdbfc821c, 0x2997011f,
      0x3ac7f2eb, 0xc8ac71e8, 0x1c661503, 0xee0d9600, 0xfd5d65f4, 0x0f36e6f7,
      0x61c69362, 0x93ad1061, 0x80fde395, 0x72966096, 0xa65c047d, 0x5437877e,
      0x4767748a, 0xb50cf789, 0xeb1fcbad, 0x197448ae, 0x0a24bb5a, 0xf84f3859,
      0x2c855cb2, 0xdeeedfb1, 0xcdbe2c45, 0x3fd5af46, 0x7198540d, 0x83f3d70e,
      0x90a324fa, 0x62c8a7f9, 0xb602c312, 0x44694011, 0x5739b3e5, 0xa55230e6,
      0xfb410cc2, 0x092a8fc1, 0x1a7a7c35, 0xe811ff36, 0x3cdb9bdd, 0xceb018de,
      0xdde0eb2a, 0x2f8b6829, 0x82f63b78, 0x709db87b, 0x63cd4b8f, 0x91a6c88c,
      0x456cac67, 0xb7072f64, 0xa457dc90, 0x563c5f93, 0x082f63b7, 0xfa44e0b4,
      0xe9141340, 0x1b7f9043, 0xcfb5f4a8, 0x3dde77ab, 0x2e8e845f, 0xdce5075c,
      0x92a8fc17, 0x60c37f14, 0x73938ce0, 0x81f80fe3, 0x55326b08, 0xa759e80b,
      0xb4091bff, 0x466298fc, 0x1871a4d8, 0xea1a27db, 0xf94ad42f, 0x0b21572c,
      0xdfeb33c7, 0x2d80b0c4, 0x3ed04330, 0xccbbc033, 0xa24bb5a6, 0x502036a5,
      0x4370c551, 0xb11b4652, 0x65d122b9, 0x97baa1ba, 0x84ea524e, 0x7681d14d,
      0x2892ed69, 0xdaf96e6a, 0xc9a99d9e, 0x3bc21e9d, 0xef087a76, 0x1d63f975,
      0x0e330a81, 0xfc588982, 0xb21572c9, 0x407ef1ca, 0x532e023e, 0xa145813d,
      0x758fe5d6, 0x87e466d5, 0x94b49521, 0x66df1622, 0x38cc2a06, 0xcaa7a905,
      0xd9f75af1, 0x2b9cd9f2, 0xff56bd19, 0x0d3d3e1a, 0x1e6dcdee, 0xec064eed,
      0xc38d26c4, 0x31e6a5c7, 0x22b65633, 0xd0ddd530, 0x0417b1db, 0xf67c32d8,
      0xe52cc12c, 0x1747422f, 0x49547e0b, 0xbb3ffd08, 0xa86f0efc, 0x5a048dff,
      0x8ecee914, 0x7ca56a17, 0x6ff599e3, 0x9d9e1ae0, 0xd3d3e1ab, 0x21b862a8,
      0x32e8915c, 0xc083125f, 0x144976b4, 0xe622f5b7, 0xf5720643, 0x07198540,
      0x590ab964, 0xab613a67, 0xb831c993, 0x4a5a4a90, 0x9e902e7b, 0x6cfbad78,
      0x7fab5e8c, 0x8dc0dd8f, 0xe330a81a, 0x115b2b19, 0x020bd8ed, 0xf0605bee,
      0x24aa3f05, 0xd6c1bc06, 0xc5914ff2, 0x37faccf1, 0x69e9f0d5, 0x9b8273d6,
      0x88d28022, 0x7ab90321, 0xae7367ca, 0x5c18e4c9, 0x4f48173d, 0xbd23943e,
      0xf36e6f75, 0x0105ec76, 0x12551f82, 0xe03e9c81, 0x34f4f86a, 0xc69f7b69,
      0xd5cf889d, 0x27a40b9e, 0x79b737ba, 0x8bdcb4b9, 0x988c474d, 0x6ae7c44e,
      0xbe2da0a5, 0x4c4623a6, 0x5f16d052, 0xad7d5351]"

definition stride_ext_table_0 :: "u32 list" where
  "stride_ext_table_0 =
     [
      0x00000000, 0x30d23865, 0x61a470ca, 0x517648af, 0xc348e194, 0xf39ad9f1,
      0xa2ec915e, 0x923ea93b, 0x837db5d9, 0xb3af8dbc, 0xe2d9c513, 0xd20bfd76,
      0x4035544d, 0x70e76c28, 0x21912487, 0x11431ce2, 0x03171d43, 0x33c52526,
      0x62b36d89, 0x526155ec, 0xc05ffcd7, 0xf08dc4b2, 0xa1fb8c1d, 0x9129b478,
      0x806aa89a, 0xb0b890ff, 0xe1ced850, 0xd11ce035, 0x4322490e, 0x73f0716b,
      0x228639c4, 0x125401a1, 0x062e3a86, 0x36fc02e3, 0x678a4a4c, 0x57587229,
      0xc566db12, 0xf5b4e377, 0xa4c2abd8, 0x941093bd, 0x85538f5f, 0xb581b73a,
      0xe4f7ff95, 0xd425c7f0, 0x461b6ecb, 0x76c956ae, 0x27bf1e01, 0x176d2664,
      0x053927c5, 0x35eb1fa0, 0x649d570f, 0x544f6f6a, 0xc671c651, 0xf6a3fe34,
      0xa7d5b69b, 0x97078efe, 0x8644921c, 0xb696aa79, 0xe7e0e2d6, 0xd732dab3,
      0x450c7388, 0x75de4bed, 0x24a80342, 0x147a3b27, 0x0c5c750c, 0x3c8e4d69,
      0x6df805c6, 0x5d2a3da3, 0xcf149498, 0xffc6acfd, 0xaeb0e452, 0x9e62dc37,
      0x8f21c0d5, 0xbff3f8b0, 0xee85b01f, 0xde57887a, 0x4c692141, 0x7cbb1924,
      0x2dcd518b, 0x1d1f69ee, 0x0f4b684f, 0x3f99502a, 0x6eef1885, 0x5e3d20e0,
      0xcc0389db, 0xfcd1b1be, 0xada7f911, 0x9d75c174, 0x8c36dd96, 0xbce4e5f3,
      0xed92ad5c, 0xdd409539, 0x4f7e3c02, 0x7fac0467, 0x2eda4cc8, 0x1e0874ad,
      0x0a724f8a, 0x3aa077ef, 0x6bd63f40, 0x5b040725, 0xc93aae1e, 0xf9e8967b,
      0xa89eded4, 0x984ce6b1, 0x890ffa53, 0xb9ddc236, 0xe8ab8a99, 0xd879b2fc,
      0x4a471bc7, 0x7a9523a2, 0x2be36b0d, 0x1b315368, 0x096552c9, 0x39b76aac,
      0x68c12203, 0x58131a66, 0xca2db35d, 0xfaff8b38, 0xab89c397, 0x9b5bfbf2,
      0x8a18e710, 0xbacadf75, 0xebbc97da, 0xdb6eafbf, 0x49500684, 0x79823ee1,
      0x28f4764e, 0x18264e2b, 0x18b8ea18, 0x286ad27d, 0x791c9ad2, 0x49cea2b7,
      0xdbf00b8c, 0xeb2233e9, 0xba547b46, 0x8a864323, 0x9bc55fc1, 0xab1767a4,
      0xfa612f0b, 0xcab3176e, 0x588dbe55, 0x685f8630, 0x3929ce9f, 0x09fbf6fa,
      0x1baff75b, 0x2b7dcf3e, 0x7a0b8791, 0x4ad9bff4, 0xd8e716cf, 0xe8352eaa,
      0xb9436605, 0x89915e60, 0x98d24282, 0xa8007ae7, 0xf9763248, 0xc9a40a2d,
      0x5b9aa316, 0x6b489b73, 0x3a3ed3dc, 0x0aecebb9, 0x1e96d09e, 0x2e44e8fb,
      0x7f32a054, 0x4fe09831, 0xddde310a, 0xed0c096f, 0xbc7a41c0, 0x8ca879a5,
      0x9deb6547, 0xad395d22, 0xfc4f158d, 0xcc9d2de8, 0x5ea384d3, 0x6e71bcb6,
      0x3f07f419, 0x0fd5cc7c, 0x1d81cddd, 0x2d53f5b8, 0x7c25bd17, 0x4cf78572,
      0xdec92c49, 0xee1b142c, 0xbf6d5c83, 0x8fbf64e6, 0x9efc7804, 0xae2e4061,
      0xff5808ce, 0xcf8a30ab, 0x5db49990, 0x6d66a1f5, 0x3c10e95a, 0x0cc2d13f,
      0x14e49f14, 0x2436a771, 0x7540efde, 0x4592d7bb, 0xd7ac7e80, 0xe77e46e5,
      0xb6080e4a, 0x86da362f, 0x97992acd, 0xa74b12a8, 0xf63d5a07, 0xc6ef6262,
      0x54d1cb59, 0x6403f33c, 0x3575bb93, 0x05a783f6, 0x17f38257, 0x2721ba32,
      0x7657f29d, 0x4685caf8, 0xd4bb63c3, 0xe4695ba6, 0xb51f1309, 0x85cd2b6c,
      0x948e378e, 0xa45c0feb, 0xf52a4744, 0xc5f87f21, 0x57c6d61a, 0x6714ee7f,
      0x3662a6d0, 0x06b09eb5, 0x12caa592, 0x22189df7, 0x736ed558, 0x43bced3d,
      0xd1824406, 0xe1507c63, 0xb02634cc, 0x80f40ca9, 0x91b7104b, 0xa165282e,
      0xf0136081, 0xc0c158e4, 0x52fff1df, 0x622dc9ba, 0x335b8115, 0x0389b970,
      0x11ddb8d1, 0x210f80b4, 0x7079c81b, 0x40abf07e, 0xd2955945, 0xe2476120,
      0xb331298f, 0x83e311ea, 0x92a00d08, 0xa272356d, 0xf3047dc2, 0xc3d645a7,
      0x51e8ec9c, 0x613ad4f9, 0x304c9c56, 0x009ea433]"

definition stride_ext_table_1 :: "u32 list" where
  "stride_ext_table_1 =
     [
      0x00000000, 0x54075546, 0xa80eaa8c, 0xfc09ffca, 0x55f123e9, 0x01f676af,
      0xfdff8965, 0xa9f8dc23, 0xabe247d2, 0xffe51294, 0x03eced5e, 0x57ebb818,
      0xfe13643b, 0xaa14317d, 0x561dceb7, 0x021a9bf1, 0x5228f955, 0x062fac13,
      0xfa2653d9, 0xae21069f, 0x07d9dabc, 0x53de8ffa, 0xafd77030, 0xfbd02576,
      0xf9cabe87, 0xadcdebc1, 0x51c4140b, 0x05c3414d, 0xac3b9d6e, 0xf83cc828,
      0x043537e2, 0x503262a4, 0xa451f2aa, 0xf056a7ec, 0x0c5f5826, 0x58580d60,
      0xf1a0d143, 0xa5a78405, 0x59ae7bcf, 0x0da92e89, 0x0fb3b578, 0x5bb4e03e,
      0xa7bd1ff4, 0xf3ba4ab2, 0x5a429691, 0x0e45c3d7, 0xf24c3c1d, 0xa64b695b,
      0xf6790bff, 0xa27e5eb9, 0x5e77a173, 0x0a70f435, 0xa3882816, 0xf78f7d50,
      0x0b86829a, 0x5f81d7dc, 0x5d9b4c2d, 0x099c196b, 0xf595e6a1, 0xa192b3e7,
      0x086a6fc4, 0x5c6d3a82, 0xa064c548, 0xf463900e, 0x4d4f93a5, 0x1948c6e3,
      0xe5413929, 0xb1466c6f, 0x18beb04c, 0x4cb9e50a, 0xb0b01ac0, 0xe4b74f86,
      0xe6add477, 0xb2aa8131, 0x4ea37efb, 0x1aa42bbd, 0xb35cf79e, 0xe75ba2d8,
      0x1b525d12, 0x4f550854, 0x1f676af0, 0x4b603fb6, 0xb769c07c, 0xe36e953a,
      0x4a964919, 0x1e911c5f, 0xe298e395, 0xb69fb6d3, 0xb4852d22, 0xe0827864,
      0x1c8b87ae, 0x488cd2e8, 0xe1740ecb, 0xb5735b8d, 0x497aa447, 0x1d7df101,
      0xe91e610f, 0xbd193449, 0x4110cb83, 0x15179ec5, 0xbcef42e6, 0xe8e817a0,
      0x14e1e86a, 0x40e6bd2c, 0x42fc26dd, 0x16fb739b, 0xeaf28c51, 0xbef5d917,
      0x170d0534, 0x430a5072, 0xbf03afb8, 0xeb04fafe, 0xbb36985a, 0xef31cd1c,
      0x133832d6, 0x473f6790, 0xeec7bbb3, 0xbac0eef5, 0x46c9113f, 0x12ce4479,
      0x10d4df88, 0x44d38ace, 0xb8da7504, 0xecdd2042, 0x4525fc61, 0x1122a927,
      0xed2b56ed, 0xb92c03ab, 0x9a9f274a, 0xce98720c, 0x32918dc6, 0x6696d880,
      0xcf6e04a3, 0x9b6951e5, 0x6760ae2f, 0x3367fb69, 0x317d6098, 0x657a35de,
      0x9973ca14, 0xcd749f52, 0x648c4371, 0x308b1637, 0xcc82e9fd, 0x9885bcbb,
      0xc8b7de1f, 0x9cb08b59, 0x60b97493, 0x34be21d5, 0x9d46fdf6, 0xc941a8b0,
      0x3548577a, 0x614f023c, 0x635599cd, 0x3752cc8b, 0xcb5b3341, 0x9f5c6607,
      0x36a4ba24, 0x62a3ef62, 0x9eaa10a8, 0xcaad45ee, 0x3eced5e0, 0x6ac980a6,
      0x96c07f6c, 0xc2c72a2a, 0x6b3ff609, 0x3f38a34f, 0xc3315c85, 0x973609c3,
      0x952c9232, 0xc12bc774, 0x3d2238be, 0x69256df8, 0xc0ddb1db, 0x94dae49d,
      0x68d31b57, 0x3cd44e11, 0x6ce62cb5, 0x38e179f3, 0xc4e88639, 0x90efd37f,
      0x39170f5c, 0x6d105a1a, 0x9119a5d0, 0xc51ef096, 0xc7046b67, 0x93033e21,
      0x6f0ac1eb, 0x3b0d94ad, 0x92f5488e, 0xc6f21dc8, 0x3afbe202, 0x6efcb744,
      0xd7d0b4ef, 0x83d7e1a9, 0x7fde1e63, 0x2bd94b25, 0x82219706, 0xd626c240,
      0x2a2f3d8a, 0x7e2868cc, 0x7c32f33d, 0x2835a67b, 0xd43c59b1, 0x803b0cf7,
      0x29c3d0d4, 0x7dc48592, 0x81cd7a58, 0xd5ca2f1e, 0x85f84dba, 0xd1ff18fc,
      0x2df6e736, 0x79f1b270, 0xd0096e53, 0x840e3b15, 0x7807c4df, 0x2c009199,
      0x2e1a0a68, 0x7a1d5f2e, 0x8614a0e4, 0xd213f5a2, 0x7beb2981, 0x2fec7cc7,
      0xd3e5830d, 0x87e2d64b, 0x73814645, 0x27861303, 0xdb8fecc9, 0x8f88b98f,
      0x267065ac, 0x727730ea, 0x8e7ecf20, 0xda799a66, 0xd8630197, 0x8c6454d1,
      0x706dab1b, 0x246afe5d, 0x8d92227e, 0xd9957738, 0x259c88f2, 0x719bddb4,
      0x21a9bf10, 0x75aeea56, 0x89a7159c, 0xdda040da, 0x74589cf9, 0x205fc9bf,
      0xdc563675, 0x88516333, 0x8a4bf8c2, 0xde4cad84, 0x2245524e, 0x76420708,
      0xdfbadb2b, 0x8bbd8e6d, 0x77b471a7, 0x23b324e1]"

definition stride_ext_table_2 :: "u32 list" where
  "stride_ext_table_2 =
     [
      0x00000000, 0x678efd01, 0xcf1dfa02, 0xa8930703, 0x9bd782f5, 0xfc597ff4,
      0x54ca78f7, 0x334485f6, 0x3243731b, 0x55cd8e1a, 0xfd5e8919, 0x9ad07418,
      0xa994f1ee, 0xce1a0cef, 0x66890bec, 0x0107f6ed, 0x6486e636, 0x03081b37,
      0xab9b1c34, 0xcc15e135, 0xff5164c3, 0x98df99c2, 0x304c9ec1, 0x57c263c0,
      0x56c5952d, 0x314b682c, 0x99d86f2f, 0xfe56922e, 0xcd1217d8, 0xaa9cead9,
      0x020fedda, 0x658110db, 0xc90dcc6c, 0xae83316d, 0x0610366e, 0x619ecb6f,
      0x52da4e99, 0x3554b398, 0x9dc7b49b, 0xfa49499a, 0xfb4ebf77, 0x9cc04276,
      0x34534575, 0x53ddb874, 0x60993d82, 0x0717c083, 0xaf84c780, 0xc80a3a81,
      0xad8b2a5a, 0xca05d75b, 0x6296d058, 0x05182d59, 0x365ca8af, 0x51d255ae,
      0xf94152ad, 0x9ecfafac, 0x9fc85941, 0xf846a440, 0x50d5a343, 0x375b5e42,
      0x041fdbb4, 0x639126b5, 0xcb0221b6, 0xac8cdcb7, 0x97f7ee29, 0xf0791328,
      0x58ea142b, 0x3f64e92a, 0x0c206cdc, 0x6bae91dd, 0xc33d96de, 0xa4b36bdf,
      0xa5b49d32, 0xc23a6033, 0x6aa96730, 0x0d279a31, 0x3e631fc7, 0x59ede2c6,
      0xf17ee5c5, 0x96f018c4, 0xf371081f, 0x94fff51e, 0x3c6cf21d, 0x5be20f1c,
      0x68a68aea, 0x0f2877eb, 0xa7bb70e8, 0xc0358de9, 0xc1327b04, 0xa6bc8605,
      0x0e2f8106, 0x69a17c07, 0x5ae5f9f1, 0x3d6b04f0, 0x95f803f3, 0xf276fef2,
      0x5efa2245, 0x3974df44, 0x91e7d847, 0xf6692546, 0xc52da0b0, 0xa2a35db1,
      0x0a305ab2, 0x6dbea7b3, 0x6cb9515e, 0x0b37ac5f, 0xa3a4ab5c, 0xc42a565d,
      0xf76ed3ab, 0x90e02eaa, 0x387329a9, 0x5ffdd4a8, 0x3a7cc473, 0x5df23972,
      0xf5613e71, 0x92efc370, 0xa1ab4686, 0xc625bb87, 0x6eb6bc84, 0x09384185,
      0x083fb768, 0x6fb14a69, 0xc7224d6a, 0xa0acb06b, 0x93e8359d, 0xf466c89c,
      0x5cf5cf9f, 0x3b7b329e, 0x2a03aaa3, 0x4d8d57a2, 0xe51e50a1, 0x8290ada0,
      0xb1d42856, 0xd65ad557, 0x7ec9d254, 0x19472f55, 0x1840d9b8, 0x7fce24b9,
      0xd75d23ba, 0xb0d3debb, 0x83975b4d, 0xe419a64c, 0x4c8aa14f, 0x2b045c4e,
      0x4e854c95, 0x290bb194, 0x8198b697, 0xe6164b96, 0xd552ce60, 0xb2dc3361,
      0x1a4f3462, 0x7dc1c963, 0x7cc63f8e, 0x1b48c28f, 0xb3dbc58c, 0xd455388d,
      0xe711bd7b, 0x809f407a, 0x280c4779, 0x4f82ba78, 0xe30e66cf, 0x84809bce,
      0x2c139ccd, 0x4b9d61cc, 0x78d9e43a, 0x1f57193b, 0xb7c41e38, 0xd04ae339,
      0xd14d15d4, 0xb6c3e8d5, 0x1e50efd6, 0x79de12d7, 0x4a9a9721, 0x2d146a20,
      0x85876d23, 0xe2099022, 0x878880f9, 0xe0067df8, 0x48957afb, 0x2f1b87fa,
      0x1c5f020c, 0x7bd1ff0d, 0xd342f80e, 0xb4cc050f, 0xb5cbf3e2, 0xd2450ee3,
      0x7ad609e0, 0x1d58f4e1, 0x2e1c7117, 0x49928c16, 0xe1018b15, 0x868f7614,
      0xbdf4448a, 0xda7ab98b, 0x72e9be88, 0x15674389, 0x2623c67f, 0x41ad3b7e,
      0xe93e3c7d, 0x8eb0c17c, 0x8fb73791, 0xe839ca90, 0x40aacd93, 0x27243092,
      0x1460b564, 0x73ee4865, 0xdb7d4f66, 0xbcf3b267, 0xd972a2bc, 0xbefc5fbd,
      0x166f58be, 0x71e1a5bf, 0x42a52049, 0x252bdd48, 0x8db8da4b, 0xea36274a,
      0xeb31d1a7, 0x8cbf2ca6, 0x242c2ba5, 0x43a2d6a4, 0x70e65352, 0x1768ae53,
      0xbffba950, 0xd8755451, 0x74f988e6, 0x137775e7, 0xbbe472e4, 0xdc6a8fe5,
      0xef2e0a13, 0x88a0f712, 0x2033f011, 0x47bd0d10, 0x46bafbfd, 0x213406fc,
      0x89a701ff, 0xee29fcfe, 0xdd6d7908, 0xbae38409, 0x1270830a, 0x75fe7e0b,
      0x107f6ed0, 0x77f193d1, 0xdf6294d2, 0xb8ec69d3, 0x8ba8ec25, 0xec261124,
      0x44b51627, 0x233beb26, 0x223c1dcb, 0x45b2e0ca, 0xed21e7c9, 0x8aaf1ac8,
      0xb9eb9f3e, 0xde65623f, 0x76f6653c, 0x1178983d]"

definition stride_ext_table_3 :: "u32 list" where
  "stride_ext_table_3 =
     [
      0x00000000, 0xf20c0dfe, 0xe1f46d0d, 0x13f860f3, 0xc604aceb, 0x3408a115,
      0x27f0c1e6, 0xd5fccc18, 0x89e52f27, 0x7be922d9, 0x6811422a, 0x9a1d4fd4,
      0x4fe183cc, 0xbded8e32, 0xae15eec1, 0x5c19e33f, 0x162628bf, 0xe42a2541,
      0xf7d245b2, 0x05de484c, 0xd0228454, 0x222e89aa, 0x31d6e959, 0xc3dae4a7,
      0x9fc30798, 0x6dcf0a66, 0x7e376a95, 0x8c3b676b, 0x59c7ab73, 0xabcba68d,
      0xb833c67e, 0x4a3fcb80, 0x2c4c517e, 0xde405c80, 0xcdb83c73, 0x3fb4318d,
      0xea48fd95, 0x1844f06b, 0x0bbc9098, 0xf9b09d66, 0xa5a97e59, 0x57a573a7,
      0x445d1354, 0xb6511eaa, 0x63add2b2, 0x91a1df4c, 0x8259bfbf, 0x7055b241,
      0x3a6a79c1, 0xc866743f, 0xdb9e14cc, 0x29921932, 0xfc6ed52a, 0x0e62d8d4,
      0x1d9ab827, 0xef96b5d9, 0xb38f56e6, 0x41835b18, 0x527b3beb, 0xa0773615,
      0x758bfa0d, 0x8787f7f3, 0x947f9700, 0x66739afe, 0x5898a2fc, 0xaa94af02,
      0xb96ccff1, 0x4b60c20f, 0x9e9c0e17, 0x6c9003e9, 0x7f68631a, 0x8d646ee4,
      0xd17d8ddb, 0x23718025, 0x3089e0d6, 0xc285ed28, 0x17792130, 0xe5752cce,
      0xf68d4c3d, 0x048141c3, 0x4ebe8a43, 0xbcb287bd, 0xaf4ae74e, 0x5d46eab0,
      0x88ba26a8, 0x7ab62b56, 0x694e4ba5, 0x9b42465b, 0xc75ba564, 0x3557a89a,
      0x26afc869, 0xd4a3c597, 0x015f098f, 0xf3530471, 0xe0ab6482, 0x12a7697c,
      0x74d4f382, 0x86d8fe7c, 0x95209e8f, 0x672c9371, 0xb2d05f69, 0x40dc5297,
      0x53243264, 0xa1283f9a, 0xfd31dca5, 0x0f3dd15b, 0x1cc5b1a8, 0xeec9bc56,
      0x3b35704e, 0xc9397db0, 0xdac11d43, 0x28cd10bd, 0x62f2db3d, 0x90fed6c3,
      0x8306b630, 0x710abbce, 0xa4f677d6, 0x56fa7a28, 0x45021adb, 0xb70e1725,
      0xeb17f41a, 0x191bf9e4, 0x0ae39917, 0xf8ef94e9, 0x2d1358f1, 0xdf1f550f,
      0xcce735fc, 0x3eeb3802, 0xb13145f8, 0x433d4806, 0x50c528f5, 0xa2c9250b,
      0x7735e913, 0x8539e4ed, 0x96c1841e, 0x64cd89e0, 0x38d46adf, 0xcad86721,
      0xd92007d2, 0x2b2c0a2c, 0xfed0c634, 0x0cdccbca, 0x1f24ab39, 0xed28a6c7,
      0xa7176d47, 0x551b60b9, 0x46e3004a, 0xb4ef0db4, 0x6113c1ac, 0x931fcc52,
      0x80e7aca1, 0x72eba15f, 0x2ef24260, 0xdcfe4f9e, 0xcf062f6d, 0x3d0a2293,
      0xe8f6ee8b, 0x1afae375, 0x09028386, 0xfb0e8e78, 0x9d7d1486, 0x6f711978,
      0x7c89798b, 0x8e857475, 0x5b79b86d, 0xa975b593, 0xba8dd560, 0x4881d89e,
      0x14983ba1, 0xe694365f, 0xf56c56ac, 0x07605b52, 0xd29c974a, 0x20909ab4,
      0x3368fa47, 0xc164f7b9, 0x8b5b3c39, 0x795731c7, 0x6aaf5134, 0x98a35cca,
      0x4d5f90d2, 0xbf539d2c, 0xacabfddf, 0x5ea7f021, 0x02be131e, 0xf0b21ee0,
      0xe34a7e13, 0x114673ed, 0xc4babff5, 0x36b6b20b, 0x254ed2f8, 0xd742df06,
      0xe9a9e704, 0x1ba5eafa, 0x085d8a09, 0xfa5187f7, 0x2fad4bef, 0xdda14611,
      0xce5926e2, 0x3c552b1c, 0x604cc823, 0x9240c5dd, 0x81b8a52e, 0x73b4a8d0,
      0xa64864c8, 0x54446936, 0x47bc09c5, 0xb5b0043b, 0xff8fcfbb, 0x0d83c245,
      0x1e7ba2b6, 0xec77af48, 0x398b6350, 0xcb876eae, 0xd87f0e5d, 0x2a7303a3,
      0x766ae09c, 0x8466ed62, 0x979e8d91, 0x6592806f, 0xb06e4c77, 0x42624189,
      0x519a217a, 0xa3962c84, 0xc5e5b67a, 0x37e9bb84, 0x2411db77, 0xd61dd689,
      0x03e11a91, 0xf1ed176f, 0xe215779c, 0x10197a62, 0x4c00995d, 0xbe0c94a3,
      0xadf4f450, 0x5ff8f9ae, 0x8a0435b6, 0x78083848, 0x6bf058bb, 0x99fc5545,
      0xd3c39ec5, 0x21cf933b, 0x3237f3c8, 0xc03bfe36, 0x15c7322e, 0xe7cb3fd0,
      0xf4335f23, 0x063f52dd, 0x5a26b1e2, 0xa82abc1c, 0xbbd2dcef, 0x49ded111,
      0x9c221d09, 0x6e2e10f7, 0x7dd67004, 0x8fda7dfa]"

definition crc32c_table :: "u32 list" where
  "crc32c_table =
     [
      0x00000000, 0xf26b8303, 0xe13b70f7, 0x1350f3f4, 0xc79a971f, 0x35f1141c,
      0x26a1e7e8, 0xd4ca64eb, 0x8ad958cf, 0x78b2dbcc, 0x6be22838, 0x9989ab3b,
      0x4d43cfd0, 0xbf284cd3, 0xac78bf27, 0x5e133c24, 0x105ec76f, 0xe235446c,
      0xf165b798, 0x030e349b, 0xd7c45070, 0x25afd373, 0x36ff2087, 0xc494a384,
      0x9a879fa0, 0x68ec1ca3, 0x7bbcef57, 0x89d76c54, 0x5d1d08bf, 0xaf768bbc,
      0xbc267848, 0x4e4dfb4b, 0x20bd8ede, 0xd2d60ddd, 0xc186fe29, 0x33ed7d2a,
      0xe72719c1, 0x154c9ac2, 0x061c6936, 0xf477ea35, 0xaa64d611, 0x580f5512,
      0x4b5fa6e6, 0xb93425e5, 0x6dfe410e, 0x9f95c20d, 0x8cc531f9, 0x7eaeb2fa,
      0x30e349b1, 0xc288cab2, 0xd1d83946, 0x23b3ba45, 0xf779deae, 0x05125dad,
      0x1642ae59, 0xe4292d5a, 0xba3a117e, 0x4851927d, 0x5b016189, 0xa96ae28a,
      0x7da08661, 0x8fcb0562, 0x9c9bf696, 0x6ef07595, 0x417b1dbc, 0xb3109ebf,
      0xa0406d4b, 0x522bee48, 0x86e18aa3, 0x748a09a0, 0x67dafa54, 0x95b17957,
      0xcba24573, 0x39c9c670, 0x2a993584, 0xd8f2b687, 0x0c38d26c, 0xfe53516f,
      0xed03a29b, 0x1f682198, 0x5125dad3, 0xa34e59d0, 0xb01eaa24, 0x42752927,
      0x96bf4dcc, 0x64d4cecf, 0x77843d3b, 0x85efbe38, 0xdbfc821c, 0x2997011f,
      0x3ac7f2eb, 0xc8ac71e8, 0x1c661503, 0xee0d9600, 0xfd5d65f4, 0x0f36e6f7,
      0x61c69362, 0x93ad1061, 0x80fde395, 0x72966096, 0xa65c047d, 0x5437877e,
      0x4767748a, 0xb50cf789, 0xeb1fcbad, 0x197448ae, 0x0a24bb5a, 0xf84f3859,
      0x2c855cb2, 0xdeeedfb1, 0xcdbe2c45, 0x3fd5af46, 0x7198540d, 0x83f3d70e,
      0x90a324fa, 0x62c8a7f9, 0xb602c312, 0x44694011, 0x5739b3e5, 0xa55230e6,
      0xfb410cc2, 0x092a8fc1, 0x1a7a7c35, 0xe811ff36, 0x3cdb9bdd, 0xceb018de,
      0xdde0eb2a, 0x2f8b6829, 0x82f63b78, 0x709db87b, 0x63cd4b8f, 0x91a6c88c,
      0x456cac67, 0xb7072f64, 0xa457dc90, 0x563c5f93, 0x082f63b7, 0xfa44e0b4,
      0xe9141340, 0x1b7f9043, 0xcfb5f4a8, 0x3dde77ab, 0x2e8e845f, 0xdce5075c,
      0x92a8fc17, 0x60c37f14, 0x73938ce0, 0x81f80fe3, 0x55326b08, 0xa759e80b,
      0xb4091bff, 0x466298fc, 0x1871a4d8, 0xea1a27db, 0xf94ad42f, 0x0b21572c,
      0xdfeb33c7, 0x2d80b0c4, 0x3ed04330, 0xccbbc033, 0xa24bb5a6, 0x502036a5,
      0x4370c551, 0xb11b4652, 0x65d122b9, 0x97baa1ba, 0x84ea524e, 0x7681d14d,
      0x2892ed69, 0xdaf96e6a, 0xc9a99d9e, 0x3bc21e9d, 0xef087a76, 0x1d63f975,
      0x0e330a81, 0xfc588982, 0xb21572c9, 0x407ef1ca, 0x532e023e, 0xa145813d,
      0x758fe5d6, 0x87e466d5, 0x94b49521, 0x66df1622, 0x38cc2a06, 0xcaa7a905,
      0xd9f75af1, 0x2b9cd9f2, 0xff56bd19, 0x0d3d3e1a, 0x1e6dcdee, 0xec064eed,
      0xc38d26c4, 0x31e6a5c7, 0x22b65633, 0xd0ddd530, 0x0417b1db, 0xf67c32d8,
      0xe52cc12c, 0x1747422f, 0x49547e0b, 0xbb3ffd08, 0xa86f0efc, 0x5a048dff,
      0x8ecee914, 0x7ca56a17, 0x6ff599e3, 0x9d9e1ae0, 0xd3d3e1ab, 0x21b862a8,
      0x32e8915c, 0xc083125f, 0x144976b4, 0xe622f5b7, 0xf5720643, 0x07198540,
      0x590ab964, 0xab613a67, 0xb831c993, 0x4a5a4a90, 0x9e902e7b, 0x6cfbad78,
      0x7fab5e8c, 0x8dc0dd8f, 0xe330a81a, 0x115b2b19, 0x020bd8ed, 0xf0605bee,
      0x24aa3f05, 0xd6c1bc06, 0xc5914ff2, 0x37faccf1, 0x69e9f0d5, 0x9b8273d6,
      0x88d28022, 0x7ab90321, 0xae7367ca, 0x5c18e4c9, 0x4f48173d, 0xbd23943e,
      0xf36e6f75, 0x0105ec76, 0x12551f82, 0xe03e9c81, 0x34f4f86a, 0xc69f7b69,
      0xd5cf889d, 0x27a40b9e, 0x79b737ba, 0x8bdcb4b9, 0x988c474d, 0x6ae7c44e,
      0xbe2da0a5, 0x4c4623a6, 0x5f16d052, 0xad7d5351]"

section \<open>Byte at a time\<close>

definition crc32c_xor :: u32 where
  "crc32c_xor = 0xffffffff"

definition crc32c_mask_delta :: u32 where
  "crc32c_mask_delta = 0xa282ead8"

fun crc32c_simple_loop :: "u32 \<Rightarrow> bytes \<Rightarrow> u32" where
  "crc32c_simple_loop z [] = z"
| "crc32c_simple_loop z (x # xs) =
     crc32c_simple_loop (crc32c_table ! unat ((z XOR ucast x) AND 0xff) XOR drop_bit 8 z) xs"

definition ldb_crc32c_extend :: "u32 \<Rightarrow> bytes \<Rightarrow> u32" where
  "ldb_crc32c_extend z xp = crc32c_simple_loop (z XOR 0xffffffff) xp XOR 0xffffffff"

section \<open>Four strides at a time\<close>

definition crc_step1 :: "u32 \<Rightarrow> u8 \<Rightarrow> u32" where
  "crc_step1 l b =
     (let c = (l AND 0xff) XOR ucast b in byte_ext_table ! unat c XOR drop_bit 8 l)"

fun crc_step1_loop :: "u32 \<Rightarrow> bytes \<Rightarrow> u32" where
  "crc_step1_loop l [] = l"
| "crc_step1_loop l (b # p) = crc_step1_loop (crc_step1 l b) p"

definition crc_step4 :: "u32 \<Rightarrow> bytes \<Rightarrow> u32" where
  "crc_step4 crc p =
     ldb_fixed32_decode p
     XOR stride_ext_table_3 ! unat (crc AND 0xff)
     XOR stride_ext_table_2 ! unat (drop_bit 8 crc AND 0xff)
     XOR stride_ext_table_1 ! unat (drop_bit 16 crc AND 0xff)
     XOR stride_ext_table_0 ! unat (drop_bit 24 crc)"

fun crc_step16_loop ::
  "u32 \<Rightarrow> u32 \<Rightarrow> u32 \<Rightarrow> u32 \<Rightarrow> bytes \<Rightarrow> u32 \<times> u32 \<times> u32 \<times> u32 \<times> bytes" where
  "crc_step16_loop crc0 crc1 crc2 crc3 p =
     (if length p \<ge> 16
      then crc_step16_loop (crc_step4 crc0 p) (crc_step4 crc1 (drop 4 p))
             (crc_step4 crc2 (drop 8 p)) (crc_step4 crc3 (drop 12 p)) (drop 16 p)
      else (crc0, crc1, crc2, crc3, p))"

fun crc_word_loop ::
  "u32 \<Rightarrow> u32 \<Rightarrow> u32 \<Rightarrow> u32 \<Rightarrow> bytes \<Rightarrow> u32 \<times> u32 \<times> u32 \<times> u32 \<times> bytes" where
  "crc_word_loop crc0 crc1 crc2 crc3 p =
     (if length p \<ge> 4
      then crc_word_loop crc1 crc2 crc3 (crc_step4 crc0 p) (drop 4 p)
      else (crc0, crc1, crc2, crc3, p))"

declare crc_step16_loop.simps [simp del]
declare crc_word_loop.simps [simp del]

fun crc_step4w_loop :: "nat \<Rightarrow> u32 \<Rightarrow> u32" where
  "crc_step4w_loop 0 w = w"
| "crc_step4w_loop (Suc n) w = crc_step4w_loop n (drop_bit 8 w XOR byte_ext_table ! unat (w AND 0xff))"

definition crc_step4w :: "u32 \<Rightarrow> u32 \<Rightarrow> u32" where
  "crc_step4w l w = crc_step4w_loop 4 (w XOR l)"

definition round_up :: "nat \<Rightarrow> nat" where
  "round_up ptr = (ptr + (4 - 1)) div 4 * 4"

definition ldb_crc32c_extend_strided :: "nat \<Rightarrow> u32 \<Rightarrow> bytes \<Rightarrow> u32" where
  "ldb_crc32c_extend_strided addr z xp =
     (let l = z XOR crc32c_xor;
          n = round_up addr - addr;
          (l, p) = (if n \<le> length xp then (crc_step1_loop l (take n xp), drop n xp) else (l, xp));
          (l, p) =
            (if length p \<ge> 16
             then (let crc0 = ldb_fixed32_decode p XOR l;
                       crc1 = ldb_fixed32_decode (drop 4 p);
                       crc2 = ldb_fixed32_decode (drop 8 p);
                       crc3 = ldb_fixed32_decode (drop 12 p);
                       (crc0, crc1, crc2, crc3, p) = crc_step16_loop crc0 crc1 crc2 crc3 (drop 16 p);
                       (crc0, crc1, crc2, crc3, p) = crc_word_loop crc0 crc1 crc2 crc3 p;
                       l = crc_step4w 0 crc0;
                       l = crc_step4w l crc1;
                       l = crc_step4w l crc2;
                       l = crc_step4w l crc3
                   in (l, p))
             else (l, p));
          l = crc_step1_loop l p
      in l XOR crc32c_xor)"

section \<open>Values and masking\<close>

definition ldb_crc32c_value :: "bytes \<Rightarrow> u32" where
  "ldb_crc32c_value xp = ldb_crc32c_extend 0 xp"

definition ldb_crc32c_mask :: "u32 \<Rightarrow> u32" where
  "ldb_crc32c_mask crc = (drop_bit 15 crc OR push_bit 17 crc) + crc32c_mask_delta"

definition ldb_crc32c_unmask :: "u32 \<Rightarrow> u32" where
  "ldb_crc32c_unmask masked_crc =
     (let rot = masked_crc - crc32c_mask_delta in drop_bit 17 rot OR push_bit 15 rot)"

section \<open>Masking is invertible\<close>

lemma ldb_crc32c_unmask_mask [simp]: "ldb_crc32c_unmask (ldb_crc32c_mask crc) = crc"
  unfolding ldb_crc32c_unmask_def ldb_crc32c_mask_def Let_def add_diff_cancel_right'
proof (rule bit_word_eqI)
  fix n assume "n < LENGTH(32)"
  then show "bit (drop_bit 17 (drop_bit 15 crc OR push_bit 17 crc)
      OR push_bit 15 (drop_bit 15 crc OR push_bit 17 crc)) n = bit crc n"
    by (cases "n < 15") (auto simp: bit_simps)
qed

section \<open>Linear tables\<close>

text \<open>
  Every table is the span of its eight entries at powers of two: entry \<^term>\<open>n\<close> is the exclusive or
  of the entries that stand for the bits of \<^term>\<open>n\<close>. The five tables are checked by building the span.
\<close>

fun xor_span :: "'a::len word list \<Rightarrow> 'a word list \<Rightarrow> 'a word list" where
  "xor_span [] t = t"
| "xor_span (b # bs) t = xor_span bs (t @ map (\<lambda>x. x XOR b) t)"

definition linear_table :: "nat \<Rightarrow> 'a::len word list \<Rightarrow> bool" where
  "linear_table k t \<longleftrightarrow> length t = 2 ^ k
     \<and> (\<forall>a < 2 ^ k. \<forall>b < 2 ^ k. t ! (a XOR b) = t ! a XOR t ! b)"

lemma nat_xor_less: "a < 2 ^ k \<Longrightarrow> b < 2 ^ k \<Longrightarrow> a XOR b < (2::nat) ^ k"
  by (metis take_bit_nat_eq_self_iff take_bit_xor)

lemma nth_doubled:
  assumes "length t = 2 ^ k" "a < 2 ^ Suc k"
  shows "(t @ map (\<lambda>x. x XOR b) t) ! a = t ! take_bit k a XOR (if bit a k then b else 0)"
proof (cases "a < 2 ^ k")
  case True
  then have "\<not> bit a k" by (simp add: bit_iff_odd)
  with True assms show ?thesis by (simp add: nth_append take_bit_nat_eq_self)
next
  case False
  then have "a div 2 ^ k = 1" using assms by (simp add: div_nat_eqI)
  then have "bit a k" and "take_bit k a = a - 2 ^ k"
    using False by (auto simp: bit_iff_odd take_bit_nat_def) (metis assms(2) False le_mod_geq less_diff_conv2 mod_less mult_2 not_less power_Suc add.commute)
  with False assms show ?thesis by (simp add: nth_append)
qed

lemma linear_table_double:
  assumes "linear_table k t"
  shows "linear_table (Suc k) (t @ map (\<lambda>x. x XOR b) t)"
proof -
  have len: "length t = 2 ^ k" using assms by (simp add: linear_table_def)
  show ?thesis unfolding linear_table_def
  proof (intro conjI allI impI)
    fix x y :: nat assume "x < 2 ^ Suc k" "y < 2 ^ Suc k"
    moreover from this have "x XOR y < 2 ^ Suc k" by (rule nat_xor_less)
    moreover have "t ! (take_bit k x XOR take_bit k y) = t ! take_bit k x XOR t ! take_bit k y"
      using assms by (simp add: linear_table_def)
    ultimately show "(t @ map (\<lambda>x. x XOR b) t) ! (x XOR y)
      = (t @ map (\<lambda>x. x XOR b) t) ! x XOR (t @ map (\<lambda>x. x XOR b) t) ! y"
      by (simp only: nth_doubled [OF len] take_bit_xor bit_xor_iff)
        (auto simp: xor.assoc xor.left_commute)
  qed (simp add: len)
qed

lemma linear_table_span: "linear_table k t \<Longrightarrow> linear_table (k + length bs) (xor_span bs t)"
proof (induction bs arbitrary: k t)
  case (Cons b bs)
  from Cons.IH [OF linear_table_double [OF Cons.prems, of b]] show ?case by simp
qed simp

lemma linear_table_0: "linear_table 0 [0]"
  by (simp add: linear_table_def)

lemma linear_table_spanI: "t = xor_span bs [0] \<Longrightarrow> length bs = k \<Longrightarrow> linear_table k t"
  using linear_table_span [OF linear_table_0, of bs] by simp

lemma byte_ext_table_linear: "linear_table 8 byte_ext_table"
  by (rule linear_table_spanI [of _ "[0xf26b8303, 0xe13b70f7, 0xc79a971f, 0x8ad958cf, 0x105ec76f, 0x20bd8ede, 0x417b1dbc, 0x82f63b78]"])
    (simp_all add: byte_ext_table_def)

lemma stride_ext_table_0_linear: "linear_table 8 stride_ext_table_0"
  by (rule linear_table_spanI [of _ "[0x30d23865, 0x61a470ca, 0xc348e194, 0x837db5d9, 0x03171d43, 0x062e3a86, 0x0c5c750c, 0x18b8ea18]"])
    (simp_all add: stride_ext_table_0_def)

lemma stride_ext_table_1_linear: "linear_table 8 stride_ext_table_1"
  by (rule linear_table_spanI [of _ "[0x54075546, 0xa80eaa8c, 0x55f123e9, 0xabe247d2, 0x5228f955, 0xa451f2aa, 0x4d4f93a5, 0x9a9f274a]"])
    (simp_all add: stride_ext_table_1_def)

lemma stride_ext_table_2_linear: "linear_table 8 stride_ext_table_2"
  by (rule linear_table_spanI [of _ "[0x678efd01, 0xcf1dfa02, 0x9bd782f5, 0x3243731b, 0x6486e636, 0xc90dcc6c, 0x97f7ee29, 0x2a03aaa3]"])
    (simp_all add: stride_ext_table_2_def)

lemma stride_ext_table_3_linear: "linear_table 8 stride_ext_table_3"
  by (rule linear_table_spanI [of _ "[0xf20c0dfe, 0xe1f46d0d, 0xc604aceb, 0x89e52f27, 0x162628bf, 0x2c4c517e, 0x5898a2fc, 0xb13145f8]"])
    (simp_all add: stride_ext_table_3_def)


lemma crc32c_table_eq: "crc32c_table = byte_ext_table"
  by (simp add: crc32c_table_def byte_ext_table_def)

section \<open>Advancing by one byte and by sixteen\<close>

text \<open>
  \<^term>\<open>crc_shift\<close> advances the register over a zero byte. It is linear, a data byte is added to the
  register before it, and sixteen of them are what the stride tables compute.
\<close>

definition crc_shift :: "u32 \<Rightarrow> u32" where
  "crc_shift l = byte_ext_table ! unat (take_bit 8 l) XOR drop_bit 8 l"

definition crc_stride :: "u32 \<Rightarrow> u32" where
  "crc_stride crc =
     stride_ext_table_3 ! unat (take_bit 8 crc)
     XOR stride_ext_table_2 ! unat (take_bit 8 (drop_bit 8 crc))
     XOR stride_ext_table_1 ! unat (take_bit 8 (drop_bit 16 crc))
     XOR stride_ext_table_0 ! unat (take_bit 8 (drop_bit 24 crc))"

definition xor_linear :: "('a::len word \<Rightarrow> 'b::len word) \<Rightarrow> bool" where
  "xor_linear f \<longleftrightarrow> (\<forall>x y. f (x XOR y) = f x XOR f y)"

lemma linear_table_lookup:
  "linear_table 8 t \<Longrightarrow> xor_linear (\<lambda>x :: u32. t ! unat (take_bit 8 x))"
  using take_bit_nat_less_exp [of 8]
  by (auto simp: linear_table_def xor_linear_def take_bit_xor unsigned_xor_eq unsigned_take_bit_eq)

lemma xor_linear_xor: "xor_linear f \<Longrightarrow> xor_linear g \<Longrightarrow> xor_linear (\<lambda>x. f x XOR g x)"
  by (simp add: xor_linear_def xor.assoc xor.left_commute)

lemma xor_linear_comp: "xor_linear f \<Longrightarrow> xor_linear g \<Longrightarrow> xor_linear (\<lambda>x. f (g x))"
  by (simp add: xor_linear_def)

lemma xor_linear_drop_bit: "xor_linear (drop_bit n)"
  by (simp add: xor_linear_def drop_bit_xor)

lemma xor_linear_funpow: "xor_linear f \<Longrightarrow> xor_linear (f ^^ n)" for f :: "'a::len word \<Rightarrow> 'a word"
  by (induction n) (auto simp: xor_linear_def)

lemma crc_shift_linear: "xor_linear crc_shift"
  unfolding crc_shift_def [abs_def]
  by (intro xor_linear_xor xor_linear_drop_bit linear_table_lookup byte_ext_table_linear)

lemma crc_stride_linear: "xor_linear crc_stride"
  unfolding crc_stride_def [abs_def]
  by (intro xor_linear_xor xor_linear_comp [OF _ xor_linear_drop_bit] linear_table_lookup
      stride_ext_table_0_linear stride_ext_table_1_linear stride_ext_table_2_linear
      stride_ext_table_3_linear)

lemma xor_linear_eqI:
  fixes f g :: "'a::len word \<Rightarrow> 'b::len word"
  assumes "xor_linear f" "xor_linear g" "\<And>i. i < LENGTH('a) \<Longrightarrow> f (2 ^ i) = g (2 ^ i)"
  shows "f x = g x"
proof -
  have "f 0 = 0" "g 0 = 0"
    using assms(1,2) unfolding xor_linear_def by (metis xor_self_eq)+
  have "n \<le> LENGTH('a) \<Longrightarrow> f (take_bit n x) = g (take_bit n x)" for n
  proof (induction n)
    case (Suc n)
    have "take_bit (Suc n) x = take_bit n x XOR (if bit x n then 2 ^ n else 0)"
      by (rule bit_word_eqI) (auto simp: bit_simps less_Suc_eq)
    then show ?case using Suc assms \<open>f 0 = 0\<close> \<open>g 0 = 0\<close> by (simp add: xor_linear_def)
  qed (simp add: \<open>f 0 = 0\<close> \<open>g 0 = 0\<close>)
  from this [of "LENGTH('a)"] show ?thesis by simp
qed


fun xor_basis :: "'a::len word list \<Rightarrow> 'a word \<Rightarrow> 'a word" where
  "xor_basis [] w = 0"
| "xor_basis (b # bs) w = (if bit w 0 then b else 0) XOR xor_basis bs (drop_bit 1 w)"


lemma xor_basis_linear: "xor_linear (xor_basis bs)"
proof (induction bs)
  case (Cons b bs)
  then show ?case
    by (auto simp: xor_linear_def bit_xor_iff drop_bit_xor xor.assoc xor.left_commute)
qed (simp add: xor_linear_def)

lemma byte_ext_table_entries:
  "byte_ext_table ! 0 = 0"
  "byte_ext_table ! Suc 0 = 0xf26b8303"
  "byte_ext_table ! 2 = 0xe13b70f7"
  "byte_ext_table ! 4 = 0xc79a971f"
  "byte_ext_table ! 8 = 0x8ad958cf"
  "byte_ext_table ! 16 = 0x105ec76f"
  "byte_ext_table ! 32 = 0x20bd8ede"
  "byte_ext_table ! 64 = 0x417b1dbc"
  "byte_ext_table ! 128 = 0x82f63b78"
  by (simp_all add: byte_ext_table_def)

lemma stride_ext_table_0_entries:
  "stride_ext_table_0 ! 0 = 0"
  "stride_ext_table_0 ! Suc 0 = 0x30d23865"
  "stride_ext_table_0 ! 2 = 0x61a470ca"
  "stride_ext_table_0 ! 4 = 0xc348e194"
  "stride_ext_table_0 ! 8 = 0x837db5d9"
  "stride_ext_table_0 ! 16 = 0x03171d43"
  "stride_ext_table_0 ! 32 = 0x062e3a86"
  "stride_ext_table_0 ! 64 = 0x0c5c750c"
  "stride_ext_table_0 ! 128 = 0x18b8ea18"
  by (simp_all add: stride_ext_table_0_def)

lemma stride_ext_table_1_entries:
  "stride_ext_table_1 ! 0 = 0"
  "stride_ext_table_1 ! Suc 0 = 0x54075546"
  "stride_ext_table_1 ! 2 = 0xa80eaa8c"
  "stride_ext_table_1 ! 4 = 0x55f123e9"
  "stride_ext_table_1 ! 8 = 0xabe247d2"
  "stride_ext_table_1 ! 16 = 0x5228f955"
  "stride_ext_table_1 ! 32 = 0xa451f2aa"
  "stride_ext_table_1 ! 64 = 0x4d4f93a5"
  "stride_ext_table_1 ! 128 = 0x9a9f274a"
  by (simp_all add: stride_ext_table_1_def)

lemma stride_ext_table_2_entries:
  "stride_ext_table_2 ! 0 = 0"
  "stride_ext_table_2 ! Suc 0 = 0x678efd01"
  "stride_ext_table_2 ! 2 = 0xcf1dfa02"
  "stride_ext_table_2 ! 4 = 0x9bd782f5"
  "stride_ext_table_2 ! 8 = 0x3243731b"
  "stride_ext_table_2 ! 16 = 0x6486e636"
  "stride_ext_table_2 ! 32 = 0xc90dcc6c"
  "stride_ext_table_2 ! 64 = 0x97f7ee29"
  "stride_ext_table_2 ! 128 = 0x2a03aaa3"
  by (simp_all add: stride_ext_table_2_def)

lemma stride_ext_table_3_entries:
  "stride_ext_table_3 ! 0 = 0"
  "stride_ext_table_3 ! Suc 0 = 0xf20c0dfe"
  "stride_ext_table_3 ! 2 = 0xe1f46d0d"
  "stride_ext_table_3 ! 4 = 0xc604aceb"
  "stride_ext_table_3 ! 8 = 0x89e52f27"
  "stride_ext_table_3 ! 16 = 0x162628bf"
  "stride_ext_table_3 ! 32 = 0x2c4c517e"
  "stride_ext_table_3 ! 64 = 0x5898a2fc"
  "stride_ext_table_3 ! 128 = 0xb13145f8"
  by (simp_all add: stride_ext_table_3_def)


lemma less_32_cases:
  "i < (32::nat) \<Longrightarrow> i \<in> {0, 1, 2, 3, 4, 5, 6, 7, 8, 9, 10, 11, 12, 13, 14, 15, 16, 17, 18, 19, 20,
    21, 22, 23, 24, 25, 26, 27, 28, 29, 30, 31}"
  by (simp, presburger)

lemma crc_shift_eval:
  "crc_shift w = xor_basis [0xf26b8303, 0xe13b70f7, 0xc79a971f, 0x8ad958cf, 0x105ec76f, 0x20bd8ede, 0x417b1dbc, 0x82f63b78] (take_bit 8 w) XOR drop_bit 8 w"
proof (rule xor_linear_eqI [OF crc_shift_linear])
  show "xor_linear (\<lambda>w. xor_basis [0xf26b8303, 0xe13b70f7, 0xc79a971f, 0x8ad958cf, 0x105ec76f, 0x20bd8ede, 0x417b1dbc, 0x82f63b78] (take_bit 8 w) XOR drop_bit 8 w :: u32)"
    by (intro xor_linear_xor xor_linear_comp [OF xor_basis_linear] xor_linear_drop_bit)
      (simp add: xor_linear_def take_bit_xor)
next
  fix i assume "i < LENGTH(32)"
  then have "i < 32" by simp
  from less_32_cases [OF this]
  show "crc_shift (2 ^ i) = xor_basis [0xf26b8303, 0xe13b70f7, 0xc79a971f, 0x8ad958cf, 0x105ec76f, 0x20bd8ede, 0x417b1dbc, 0x82f63b78] (take_bit 8 (2 ^ i)) XOR drop_bit 8 (2 ^ i)"
    by (elim insertE emptyE) (simp_all add: crc_shift_def byte_ext_table_entries)
qed

lemma funpow_16: "(f ^^ 16) x = f (f (f (f (f (f (f (f (f (f (f (f (f (f (f (f x)))))))))))))))"
  by (simp add: numeral_eq_Suc)

lemmas stride_entries = stride_ext_table_0_entries stride_ext_table_1_entries
  stride_ext_table_2_entries stride_ext_table_3_entries

lemma crc_stride_shift: "crc_stride x = (crc_shift ^^ 16) x"
proof (rule xor_linear_eqI [OF crc_stride_linear xor_linear_funpow [OF crc_shift_linear]])
  fix i assume "i < LENGTH(32)"
  then have "i < 32" by simp
  from less_32_cases [OF this]
  show "crc_stride (2 ^ i) = (crc_shift ^^ 16) (2 ^ i)"
    by (elim insertE emptyE) (simp_all add: crc_stride_def stride_entries crc_shift_eval funpow_16)
qed


section \<open>The strided loop computes the byte-at-a-time CRC\<close>

lemma crc_step1_shift: "crc_step1 l b = crc_shift (l XOR ucast b)"
proof -
  have "(l AND 0xff) XOR ucast b = take_bit 8 (l XOR ucast b)"
    by (rule bit_word_eqI) (auto simp: word_and_255 bit_simps dest: bit_imp_le_length)
  moreover have "drop_bit 8 (l XOR ucast b) = drop_bit 8 l"
    by (rule bit_word_eqI) (auto simp: bit_simps dest: bit_imp_le_length)
  ultimately show ?thesis by (simp add: crc_step1_def crc_shift_def Let_def)
qed

lemma crc32c_simple_loop_step1: "crc32c_simple_loop l xs = crc_step1_loop l xs"
proof (induction xs arbitrary: l)
  case (Cons x xs)
  have "drop_bit 8 (l XOR ucast x) = drop_bit 8 l"
    by (rule bit_word_eqI) (auto simp: bit_simps dest: bit_imp_le_length)
  then show ?case
    using Cons by (simp add: crc_step1_shift crc_shift_def crc32c_table_eq word_and_255)
qed simp

lemma crc_step1_loop_append: "crc_step1_loop l (xs @ ys) = crc_step1_loop (crc_step1_loop l xs) ys"
  by (induction xs arbitrary: l) auto

lemma crc_step4w_loop_funpow: "crc_step4w_loop n w = (crc_shift ^^ n) w"
  by (induction n arbitrary: w)
    (auto simp: crc_shift_def word_and_255 xor.commute funpow_swap1)

lemma crc_shift_push_bit: "take_bit 24 x = x \<Longrightarrow> crc_shift (push_bit 8 x) = x"
proof -
  assume x: "take_bit 24 x = x"
  have "take_bit 8 (push_bit 8 x) = 0" by (rule bit_word_eqI) (auto simp: bit_simps)
  moreover have "drop_bit 8 (push_bit 8 x) = take_bit 24 x"
    by (rule bit_word_eqI) (auto simp: bit_simps)
  ultimately show ?thesis using x by (simp add: crc_shift_def byte_ext_table_entries)
qed

lemma crc_shift_xor: "crc_shift (x XOR y) = crc_shift x XOR crc_shift y"
  using crc_shift_linear by (simp add: xor_linear_def)

lemma crc_step1_loop_word:
  "length bs \<le> 4 \<Longrightarrow> crc_step1_loop l bs = (crc_shift ^^ length bs) (l XOR le_decode bs)"
proof (induction bs arbitrary: l)
  case (Cons b bs)
  have "take_bit 24 (le_decode bs :: u32) = le_decode bs"
    using Cons.prems by (intro bit_word_eqI) (auto simp: bit_simps dest: bit_le_decode)
  then have tl: "crc_shift (push_bit 8 (le_decode bs)) = le_decode bs"
    by (rule crc_shift_push_bit)
  have "ucast b OR push_bit 8 (le_decode bs) = (ucast b XOR push_bit 8 (le_decode bs) :: u32)"
    by (rule bit_word_eqI) (auto simp: bit_simps dest: bit_imp_le_length)
  then have "crc_shift (l XOR le_decode (b # bs)) = crc_shift (l XOR ucast b) XOR le_decode bs"
    by (simp add: crc_shift_xor tl flip: xor.assoc)
  then show ?case using Cons by (simp add: crc_step1_shift funpow_swap1)
qed simp

lemma crc_step4w_loop4: "4 \<le> length p \<Longrightarrow> crc_step1_loop l (take 4 p) = crc_step4w l (ldb_fixed32_decode p)"
  using crc_step1_loop_word [of "take 4 p" l]
  by (simp add: crc_step4w_def crc_step4w_loop_funpow ldb_fixed32_decode_le xor.commute)

definition crc_combine :: "u32 \<Rightarrow> u32 \<Rightarrow> u32 \<Rightarrow> u32 \<Rightarrow> u32" where
  "crc_combine c0 c1 c2 c3 = crc_step4w (crc_step4w (crc_step4w (crc_step4w 0 c0) c1) c2) c3"

lemma crc_step4_stride: "crc_step4 crc p = ldb_fixed32_decode p XOR crc_stride crc"
proof -
  have "take_bit 8 (drop_bit 24 crc) = drop_bit 24 crc"
    by (rule bit_word_eqI) (auto simp: bit_simps dest: bit_imp_le_length)
  then show ?thesis by (simp add: crc_step4_def crc_stride_def word_and_255 xor.assoc)
qed

lemma crc_combine_rotate:
  "crc_combine c1 c2 c3 (w XOR crc_stride c0) = crc_step4w (crc_combine c0 c1 c2 c3) w"
proof -
  define G where "G = crc_shift ^^ 4"
  have G: "G (x XOR y) = G x XOR G y" for x y
    using xor_linear_funpow [OF crc_shift_linear, of 4] by (simp add: xor_linear_def G_def)
  have "crc_stride c0 = G (G (G (G c0)))"
    by (simp add: crc_stride_shift G_def numeral_eq_Suc)
  then show ?thesis
    by (simp add: crc_combine_def crc_step4w_def crc_step4w_loop_funpow G ac_simps flip: G_def)
qed

lemma crc_combine_step:
  "4 \<le> length p \<Longrightarrow>
     crc_step1_loop (crc_combine c1 c2 c3 (crc_step4 c0 p)) (drop 4 p)
       = crc_step1_loop (crc_combine c0 c1 c2 c3) p"
  using crc_step1_loop_append [of "crc_combine c0 c1 c2 c3" "take 4 p" "drop 4 p"]
  by (simp add: crc_step4_stride crc_combine_rotate crc_step4w_loop4)

lemma crc_word_loop_step1:
  "crc_word_loop c0 c1 c2 c3 p = (d0, d1, d2, d3, q) \<Longrightarrow>
     crc_step1_loop (crc_combine d0 d1 d2 d3) q = crc_step1_loop (crc_combine c0 c1 c2 c3) p"
proof (induction c0 c1 c2 c3 p rule: crc_word_loop.induct)
  case (1 c0 c1 c2 c3 p)
  then show ?case
    by (cases "4 \<le> length p") (auto simp: crc_word_loop.simps [of c0] crc_combine_step)
qed

lemma crc_step16_loop_step1:
  "crc_step16_loop c0 c1 c2 c3 p = (d0, d1, d2, d3, q) \<Longrightarrow>
     crc_step1_loop (crc_combine d0 d1 d2 d3) q = crc_step1_loop (crc_combine c0 c1 c2 c3) p"
proof (induction c0 c1 c2 c3 p rule: crc_step16_loop.induct)
  case (1 c0 c1 c2 c3 p)
  show ?case
  proof (cases "16 \<le> length p")
    case True
    with 1 have "crc_step1_loop (crc_combine d0 d1 d2 d3) q =
        crc_step1_loop (crc_combine (crc_step4 c0 p) (crc_step4 c1 (drop 4 p))
          (crc_step4 c2 (drop 8 p)) (crc_step4 c3 (drop 12 p))) (drop 16 p)"
      by (simp add: crc_step16_loop.simps [of c0])
    also have "\<dots> = crc_step1_loop (crc_combine c0 c1 c2 c3) p"
      using True crc_combine_step [of "drop 12 p" "crc_step4 c0 p" "crc_step4 c1 (drop 4 p)" "crc_step4 c2 (drop 8 p)" c3]
        crc_combine_step [of "drop 8 p" c3 "crc_step4 c0 p" "crc_step4 c1 (drop 4 p)" c2]
        crc_combine_step [of "drop 4 p" c2 c3 "crc_step4 c0 p" c1]
        crc_combine_step [of p c1 c2 c3 c0]
      by simp
    finally show ?thesis .
  qed (use 1 in \<open>auto simp: crc_step16_loop.simps [of c0]\<close>)
qed

lemma crc_combine_load:
  assumes "16 \<le> length p"
  shows "crc_combine (ldb_fixed32_decode p XOR l) (ldb_fixed32_decode (drop 4 p))
      (ldb_fixed32_decode (drop 8 p)) (ldb_fixed32_decode (drop 12 p))
    = crc_step1_loop l (take 16 p)"
proof -
  have "take 16 p = take 4 p @ take 4 (drop 4 p) @ take 4 (drop 8 p) @ take 4 (drop 12 p)"
    using take_add [of 4 12 p] take_add [of 4 8 "drop 4 p"] take_add [of 4 4 "drop 8 p"] by simp
  moreover have "crc_step4w 0 (ldb_fixed32_decode p XOR l) = crc_step4w l (ldb_fixed32_decode p)"
    by (simp add: crc_step4w_def)
  ultimately show ?thesis using assms
    by (simp add: crc_combine_def crc_step1_loop_append crc_step4w_loop4)
qed

lemma ldb_crc32c_extend_strided_eq: "ldb_crc32c_extend_strided addr z xp = ldb_crc32c_extend z xp"
proof -
  define n where "n = round_up addr - addr"
  define l where "l = z XOR crc32c_xor"
  define s where "s = (if n \<le> length xp then (crc_step1_loop l (take n xp), drop n xp) else (l, xp))"
  obtain l1 p1 where s1: "s = (l1, p1)" by (cases s)
  then have pre: "crc_step1_loop l1 p1 = crc_step1_loop l xp"
    using crc_step1_loop_append [of l "take n xp" "drop n xp"] by (auto simp: s_def split: if_splits)
  have simple: "ldb_crc32c_extend z xp = crc_step1_loop l xp XOR crc32c_xor"
    by (simp add: ldb_crc32c_extend_def crc32c_simple_loop_step1 l_def crc32c_xor_def)
  note unfold = ldb_crc32c_extend_strided_def Let_def l_def [symmetric] n_def [symmetric] s_def [symmetric] s1
  show ?thesis
  proof (cases "16 \<le> length p1")
    case True
    let ?c0 = "ldb_fixed32_decode p1 XOR l1" and ?c1 = "ldb_fixed32_decode (drop 4 p1)"
    let ?c2 = "ldb_fixed32_decode (drop 8 p1)" and ?c3 = "ldb_fixed32_decode (drop 12 p1)"
    obtain d0 d1 d2 d3 q where d: "crc_step16_loop ?c0 ?c1 ?c2 ?c3 (drop 16 p1) = (d0, d1, d2, d3, q)"
      by (metis prod_cases5)
    obtain e0 e1 e2 e3 r where e: "crc_word_loop d0 d1 d2 d3 q = (e0, e1, e2, e3, r)"
      by (metis prod_cases5)
    have "crc_step1_loop (crc_combine e0 e1 e2 e3) r = crc_step1_loop l1 p1"
      using crc_word_loop_step1 [OF e] crc_step16_loop_step1 [OF d] crc_combine_load [OF True, of l1]
        crc_step1_loop_append [of l1 "take 16 p1" "drop 16 p1"] by simp
    then show ?thesis using True pre d e simple
      unfolding unfold by (simp add: crc_combine_def)
  next
    case False
    then show ?thesis using pre simple unfolding unfold by simp
  qed
qed

lemma ldb_crc32c_extend_append:
  "ldb_crc32c_extend (ldb_crc32c_extend z xs) ys = ldb_crc32c_extend z (xs @ ys)"
  by (simp add: ldb_crc32c_extend_def crc32c_simple_loop_step1 crc_step1_loop_append xor.assoc)

section \<open>Properties\<close>

text \<open>
  C36. The default, table-driven checksum that works on four interleaved strides computes the same
  value as the byte-at-a-time loop of the simple build, whatever the alignment of the data, its
  length and the value it extends.
\<close>

theorem crc_implementations_agree: "ldb_crc32c_extend_strided addr z xp = ldb_crc32c_extend z xp"
  by (rule ldb_crc32c_extend_strided_eq)

end
