(* ===== verification/LogFormat.thy ===== *)
theory LogFormat
  imports Crc32c
begin

text \<open>
  The log format (\<^verbatim>\<open>src/src/log_format.h\<close>): blocks of 32768 bytes, each a sequence of physical
  records with a header of seven bytes, and a reference description of how a sequence of physical
  records is laid out, which the writer is shown to produce and the reader to take apart.
\<close>

section \<open>Constants\<close>

datatype rectype = LDB_TYPE_ZERO | LDB_TYPE_FULL | LDB_TYPE_FIRST | LDB_TYPE_MIDDLE | LDB_TYPE_LAST

primrec rectype_code :: "rectype \<Rightarrow> nat" where
  "rectype_code LDB_TYPE_ZERO = 0"
| "rectype_code LDB_TYPE_FULL = 1"
| "rectype_code LDB_TYPE_FIRST = 2"
| "rectype_code LDB_TYPE_MIDDLE = 3"
| "rectype_code LDB_TYPE_LAST = 4"

abbreviation LDB_MAX_RECTYPE :: nat where
  "LDB_MAX_RECTYPE \<equiv> 4"

abbreviation LDB_BLOCK_SIZE :: nat where
  "LDB_BLOCK_SIZE \<equiv> 32768"

abbreviation LDB_HEADER_SIZE :: nat where
  "LDB_HEADER_SIZE \<equiv> 4 + 2 + 1"

section \<open>The layout of physical records\<close>

text \<open>A physical record is a type and a payload.\<close>

type_synonym phys = "rectype \<times> bytes"

definition phys_bytes :: "phys \<Rightarrow> bytes" where
  "phys_bytes p = (case p of (t, d) \<Rightarrow>
     ldb_fixed32_write (ldb_crc32c_mask (ldb_crc32c_value (word_of_nat (rectype_code t) # d)))
     @ [word_of_nat (length d), word_of_nat (length d div 256), word_of_nat (rectype_code t)] @ d)"

text \<open>
  Where a record goes when the current block is used up to offset \<^term>\<open>c\<close>: fewer bytes than a
  header needs are filled with zeroes.
\<close>

definition block_trailer :: "nat \<Rightarrow> nat" where
  "block_trailer c = (if LDB_BLOCK_SIZE - c < LDB_HEADER_SIZE then LDB_BLOCK_SIZE - c else 0)"

definition record_start :: "nat \<Rightarrow> nat" where
  "record_start c = (if LDB_BLOCK_SIZE - c < LDB_HEADER_SIZE then 0 else c)"

definition phys_end :: "nat \<Rightarrow> phys \<Rightarrow> nat" where
  "phys_end c p = record_start c + LDB_HEADER_SIZE + length (snd p)"

fun layout :: "nat \<Rightarrow> phys list \<Rightarrow> bytes" where
  "layout c [] = []"
| "layout c (p # ps) = replicate (block_trailer c) 0 @ phys_bytes p @ layout (phys_end c p) ps"

fun layout_end :: "nat \<Rightarrow> phys list \<Rightarrow> nat" where
  "layout_end c [] = c"
| "layout_end c (p # ps) = layout_end (phys_end c p) ps"

text \<open>No record crosses the end of its block, and none looks like preallocated space.\<close>

definition phys_fits :: "nat \<Rightarrow> phys \<Rightarrow> bool" where
  "phys_fits c p \<longleftrightarrow> phys_end c p \<le> LDB_BLOCK_SIZE \<and> fst p \<noteq> LDB_TYPE_ZERO"

fun layout_ok :: "nat \<Rightarrow> phys list \<Rightarrow> bool" where
  "layout_ok c [] = True"
| "layout_ok c (p # ps) = (phys_fits c p \<and> layout_ok (phys_end c p) ps)"

lemma layout_append:
  "layout c (ps @ qs) = layout c ps @ layout (layout_end c ps) qs"
  "layout_end c (ps @ qs) = layout_end (layout_end c ps) qs"
  "layout_ok c (ps @ qs) \<longleftrightarrow> layout_ok c ps \<and> layout_ok (layout_end c ps) qs"
  by (induction ps arbitrary: c) auto

lemma length_phys_bytes [simp]: "length (phys_bytes (t, d)) = LDB_HEADER_SIZE + length d"
  by (simp add: phys_bytes_def)

lemma record_start_le: "c \<le> LDB_BLOCK_SIZE \<Longrightarrow> record_start c + LDB_HEADER_SIZE \<le> LDB_BLOCK_SIZE"
  by (auto simp: record_start_def)

section \<open>How a logical record is cut into physical ones\<close>

text \<open>The fragments of a record \<^term>\<open>xs\<close> written from offset \<^term>\<open>c\<close> of a block.\<close>

function fragments :: "nat \<Rightarrow> bool \<Rightarrow> bytes \<Rightarrow> phys list" where
  "fragments c beg xs =
     (let avail = LDB_BLOCK_SIZE - record_start c - LDB_HEADER_SIZE
      in if length xs \<le> avail
         then [(if beg then LDB_TYPE_FULL else LDB_TYPE_LAST, xs)]
         else (if beg then LDB_TYPE_FIRST else LDB_TYPE_MIDDLE, take avail xs)
              # fragments LDB_BLOCK_SIZE False (drop avail xs))"
  by pat_completeness auto
termination
  by (relation "measure (\<lambda>(c, b, xs). 2 * length xs + (if record_start c + LDB_HEADER_SIZE < LDB_BLOCK_SIZE then 0 else 1))")
    (auto simp: record_start_def Let_def)

declare fragments.simps [simp del]

text \<open>The physical records of a sequence of logical ones.\<close>

fun records_phys :: "nat \<Rightarrow> bytes list \<Rightarrow> phys list" where
  "records_phys c [] = []"
| "records_phys c (r # rs) =
     fragments c True r @ records_phys (layout_end c (fragments c True r)) rs"


lemma fragments_layout_ok:
  "c \<le> LDB_BLOCK_SIZE \<Longrightarrow>
     layout_ok c (fragments c beg xs) \<and> layout_end c (fragments c beg xs) \<le> LDB_BLOCK_SIZE"
proof (induction c beg xs rule: fragments.induct)
  case (1 c beg xs)
  define avail where "avail = LDB_BLOCK_SIZE - record_start c - LDB_HEADER_SIZE"
  have start: "record_start c + LDB_HEADER_SIZE \<le> LDB_BLOCK_SIZE" using "1.prems" by (rule record_start_le)
  show ?case
  proof (cases "length xs \<le> avail")
    case True
    then show ?thesis using start
      by (auto simp: fragments.simps [of c beg xs] avail_def Let_def phys_fits_def phys_end_def)
  next
    case False
    have "phys_end c (t, take avail xs) = LDB_BLOCK_SIZE" for t
      using False start by (simp add: phys_end_def avail_def)
    moreover have "fragments c beg xs = (if beg then LDB_TYPE_FIRST else LDB_TYPE_MIDDLE, take avail xs)
        # fragments LDB_BLOCK_SIZE False (drop avail xs)"
      using False by (simp add: fragments.simps [of c beg xs] avail_def Let_def)
    ultimately show ?thesis using "1.IH" [OF avail_def False order_refl]
      by (auto simp: phys_fits_def)
  qed
qed

lemma records_phys_ok:
  "c \<le> LDB_BLOCK_SIZE \<Longrightarrow> layout_ok c (records_phys c rs)"
  using fragments_layout_ok by (induction rs arbitrary: c) (auto simp: layout_append)

end
