(* ===== verification/FileState.thy ===== *)
theory FileState
  imports Codec
begin

text \<open>
  The contents of one file of the in-memory environment (\<^verbatim>\<open>src/src/util/env_mem_impl.h\<close>, file
  state): a vector of blocks of 8192 bytes and the number of bytes in use. A block comes from
  \<^verbatim>\<open>malloc\<close> and holds arbitrary bytes at first; \<^term>\<open>junk n i\<close> is byte \<^term>\<open>i\<close> of the block that is
  allocated when the file has \<^term>\<open>n\<close> bytes. Sizes and offsets are bounded by the memory of the
  process and are natural numbers here. The two mutexes make each operation atomic, so an operation
  is a function on the state.
\<close>

section \<open>The state and its operations\<close>

abbreviation k_block_size :: nat where
  "k_block_size \<equiv> 8192"

record fstate =
  fs_path :: string
  fs_blocks :: "bytes list"
  fs_size :: nat
  fs_refs :: int

definition ldb_fstate_create :: "string \<Rightarrow> fstate" where
  "ldb_fstate_create path = \<lparr>fs_path = path, fs_blocks = [], fs_size = 0, fs_refs = 0\<rparr>"

definition ldb_fstate_truncate :: "fstate \<Rightarrow> fstate" where
  "ldb_fstate_truncate state = state\<lparr>fs_blocks := [], fs_size := 0\<rparr>"

definition ldb_fstate_size :: "fstate \<Rightarrow> nat" where
  "ldb_fstate_size state = fs_size state"

text \<open>The copying loop of \<^verbatim>\<open>ldb_fstate_pread\<close>; its result is what it stores in the buffer.\<close>

function fstate_pread_loop :: "bytes list \<Rightarrow> nat \<Rightarrow> nat \<Rightarrow> nat \<Rightarrow> bytes" where
  "fstate_pread_loop blocks block block_offset bytes_to_copy =
     (if bytes_to_copy > 0 then
        (let avail = k_block_size - block_offset;
             avail = (if avail > bytes_to_copy then bytes_to_copy else avail)
         in take avail (drop block_offset (blocks ! block))
            @ fstate_pread_loop blocks (block + 1) 0 (bytes_to_copy - avail))
      else [])"
  by pat_completeness auto
termination
  by (relation "measure (\<lambda>(blocks, b, off, n). 2 * n + (if k_block_size \<le> off then 1 else 0))")
    (auto simp: Let_def)

declare fstate_pread_loop.simps [simp del]

definition ldb_fstate_pread :: "fstate \<Rightarrow> nat \<Rightarrow> nat \<Rightarrow> status \<times> bytes" where
  "ldb_fstate_pread state count offset =
     (if offset > fs_size state then (LDB_IOERR, [])
      else
        (let available = fs_size state - offset;
             count = (if count > available then available else count)
         in if count = 0 then (LDB_OK, [])
            else (LDB_OK, fstate_pread_loop (fs_blocks state) (offset div k_block_size)
                            (offset mod k_block_size) count)))"

text \<open>\<^verbatim>\<open>memcpy(dst + offset, src, n)\<close> inside one block.\<close>

definition block_store :: "bytes \<Rightarrow> nat \<Rightarrow> bytes \<Rightarrow> bytes" where
  "block_store block offset src = take offset block @ src @ drop (offset + length src) block"

function fstate_append_loop :: "(nat \<Rightarrow> nat \<Rightarrow> u8) \<Rightarrow> fstate \<Rightarrow> bytes \<Rightarrow> fstate" where
  "fstate_append_loop junk state src =
     (if length src > 0 then
        (let offset = fs_size state mod k_block_size;
             (blocks, avail) =
               (if offset \<noteq> 0 then (fs_blocks state, k_block_size - offset)
                else (fs_blocks state @ [map (junk (fs_size state)) [0..<k_block_size]], k_block_size));
             avail = (if avail > length src then length src else avail);
             blocks = butlast blocks @ [block_store (last blocks) offset (take avail src)]
         in fstate_append_loop junk
              (state\<lparr>fs_blocks := blocks, fs_size := fs_size state + avail\<rparr>) (drop avail src))
      else state)"
  by pat_completeness auto
termination
  by (relation "measure (\<lambda>(junk, state, src). length src)")
    (auto simp: Let_def split: if_splits)

declare fstate_append_loop.simps [simp del]

definition ldb_fstate_append :: "(nat \<Rightarrow> nat \<Rightarrow> u8) \<Rightarrow> fstate \<Rightarrow> bytes \<Rightarrow> status \<times> fstate" where
  "ldb_fstate_append junk state data = (LDB_OK, fstate_append_loop junk state data)"

section \<open>Abstraction to a byte string\<close>

definition fs_contents :: "fstate \<Rightarrow> bytes" where
  "fs_contents state = take (fs_size state) (concat (fs_blocks state))"

definition fstate_inv :: "fstate \<Rightarrow> bool" where
  "fstate_inv state \<longleftrightarrow>
     list_all (\<lambda>b. length b = k_block_size) (fs_blocks state)
     \<and> fs_size state \<le> k_block_size * length (fs_blocks state)
     \<and> k_block_size * length (fs_blocks state) < fs_size state + k_block_size"

lemma length_concat_blocks:
  "list_all (\<lambda>b. length b = n) bs \<Longrightarrow> length (concat bs) = n * length bs"
  by (induction bs) auto

lemma drop_concat_blocks:
  "list_all (\<lambda>b. length b = n) bs \<Longrightarrow> k \<le> length bs \<Longrightarrow> drop (n * k) (concat bs) = concat (drop k bs)"
proof (induction bs arbitrary: k)
  case (Cons b bs)
  then show ?case by (cases k) auto
qed simp

lemma length_fs_contents [simp]: "fstate_inv state \<Longrightarrow> length (fs_contents state) = fs_size state"
  by (auto simp: fs_contents_def fstate_inv_def length_concat_blocks)

lemma ldb_fstate_create_inv [simp]:
  "fstate_inv (ldb_fstate_create p)" "fs_contents (ldb_fstate_create p) = []"
  by (simp_all add: ldb_fstate_create_def fstate_inv_def fs_contents_def)

lemma ldb_fstate_truncate_inv [simp]:
  "fstate_inv (ldb_fstate_truncate s)" "fs_contents (ldb_fstate_truncate s) = []"
  by (simp_all add: ldb_fstate_truncate_def fstate_inv_def fs_contents_def)

lemma fs_update_inv [simp]:
  "fstate_inv (s\<lparr>fs_refs := r\<rparr>) = fstate_inv s" "fs_contents (s\<lparr>fs_refs := r\<rparr>) = fs_contents s"
  "fstate_inv (s\<lparr>fs_path := p\<rparr>) = fstate_inv s" "fs_contents (s\<lparr>fs_path := p\<rparr>) = fs_contents s"
  by (simp_all add: fstate_inv_def fs_contents_def)

section \<open>Reading\<close>

lemma fstate_pread_loop_eq:
  "list_all (\<lambda>b. length b = k_block_size) bs \<Longrightarrow> off < k_block_size \<Longrightarrow>
     k_block_size * b + off + n \<le> k_block_size * length bs \<Longrightarrow>
     fstate_pread_loop bs b off n = take n (drop (k_block_size * b + off) (concat bs))"
proof (induction bs b off n rule: fstate_pread_loop.induct)
  case (1 bs b off n)
  show ?case
  proof (cases "n > 0")
    case True
    define a where "a = (if k_block_size - off > n then n else k_block_size - off)"
    have "b < length bs" using "1.prems" True by auto
    then have len: "length (bs ! b) = k_block_size" and "drop b bs = bs ! b # drop (Suc b) bs"
      using "1.prems" by (auto simp: list_all_length Cons_nth_drop_Suc)
    then have d: "drop (k_block_size * b + off) (concat bs)
        = drop off (bs ! b) @ concat (drop (Suc b) bs)"
      using "1.prems" \<open>b < length bs\<close> drop_concat_blocks [OF "1.prems"(1), of b]
      by (simp flip: drop_drop add: add.commute)
    have rec: "fstate_pread_loop bs (b + 1) 0 (n - a) = take (n - a) (concat (drop (Suc b) bs))"
    proof (cases "n = a")
      case False
      then have "a = k_block_size - off" "a < n" by (auto simp: a_def split: if_splits)
      then have le: "k_block_size * (b + 1) + 0 + (n - a) \<le> k_block_size * length bs"
        using "1.prems" by auto
      have "k_block_size * (b + 1) + 0 \<le> k_block_size * length bs" using le by linarith
      then have "b + 1 \<le> length bs" by simp
      then show ?thesis using "1.IH" [OF True refl refl] "1.prems" le drop_concat_blocks [OF "1.prems"(1), of "b + 1"]
        by (simp add: a_def [symmetric])
    qed (simp add: fstate_pread_loop.simps)
    have "fstate_pread_loop bs b off n = take a (drop off (bs ! b)) @ fstate_pread_loop bs (b + 1) 0 (n - a)"
      using True by (simp add: fstate_pread_loop.simps [of bs b off n] Let_def a_def)
    also have "\<dots> = take n (drop (k_block_size * b + off) (concat bs))"
      using d rec len by (auto simp: a_def)
    finally show ?thesis .
  qed (simp add: fstate_pread_loop.simps)
qed

lemma ldb_fstate_pread_eq:
  assumes "fstate_inv state"
  shows "ldb_fstate_pread state count offset =
    (if offset > length (fs_contents state) then (LDB_IOERR, [])
     else (LDB_OK, take count (drop offset (fs_contents state))))"
proof (cases "offset > fs_size state")
  case False
  define n where "n = (if count > fs_size state - offset then fs_size state - offset else count)"
  have "k_block_size * (offset div k_block_size) + offset mod k_block_size = offset" by simp
  moreover have "offset + n \<le> k_block_size * length (fs_blocks state)"
    using assms False by (auto simp: n_def fstate_inv_def)
  ultimately have "fstate_pread_loop (fs_blocks state) (offset div k_block_size) (offset mod k_block_size) n
      = take n (drop offset (concat (fs_blocks state)))"
    using assms fstate_pread_loop_eq [of "fs_blocks state" "offset mod k_block_size" "offset div k_block_size" n]
    by (simp add: fstate_inv_def)
  moreover have "take n (drop offset (concat (fs_blocks state))) = take count (drop offset (fs_contents state))"
    using False by (auto simp: n_def fs_contents_def drop_take min_def)
  ultimately show ?thesis using False assms
    by (auto simp: ldb_fstate_pread_def Let_def n_def [symmetric] split: if_splits)
qed (simp add: ldb_fstate_pread_def assms)

section \<open>Appending\<close>

lemma length_block_store [simp]:
  "off + length src \<le> length b \<Longrightarrow> length (block_store b off src) = length b"
  by (auto simp: block_store_def)

text \<open>One iteration that stores into the last block.\<close>

lemma fstate_append_step:
  assumes "list_all (\<lambda>b. length b = k_block_size) bs" "bs \<noteq> []"
    and "off = fs_size s - k_block_size * (length bs - 1)" "k_block_size * (length bs - 1) \<le> fs_size s"
    and "0 < length d" "off + length d \<le> k_block_size"
  shows "fstate_inv (s\<lparr>fs_blocks := butlast bs @ [block_store (last bs) off d], fs_size := fs_size s + length d\<rparr>)"
    and "fs_contents (s\<lparr>fs_blocks := butlast bs @ [block_store (last bs) off d], fs_size := fs_size s + length d\<rparr>)
      = take (fs_size s) (concat bs) @ d"
proof -
  obtain cs b where bs: "bs = cs @ [b]" using assms(2) by (metis append_butlast_last_id)
  then have len: "length b = k_block_size" "list_all (\<lambda>b. length b = k_block_size) cs"
    using assms by auto
  then have c: "length (concat cs) = k_block_size * length cs" by (simp add: length_concat_blocks)
  have size: "fs_size s = k_block_size * length cs + off" using assms bs by auto
  show "fstate_inv (s\<lparr>fs_blocks := butlast bs @ [block_store (last bs) off d], fs_size := fs_size s + length d\<rparr>)"
    using bs len size assms by (auto simp: fstate_inv_def simp del: length_greater_0_conv)
  show "fs_contents (s\<lparr>fs_blocks := butlast bs @ [block_store (last bs) off d], fs_size := fs_size s + length d\<rparr>)
      = take (fs_size s) (concat bs) @ d"
    using bs len size c assms by (auto simp: fs_contents_def block_store_def)
qed

lemma fstate_append_loop_eq:
  "fstate_inv s \<Longrightarrow>
     fstate_inv (fstate_append_loop junk s src)
     \<and> fs_contents (fstate_append_loop junk s src) = fs_contents s @ src
     \<and> fs_path (fstate_append_loop junk s src) = fs_path s
     \<and> fs_refs (fstate_append_loop junk s src) = fs_refs s"
proof (induction src arbitrary: s rule: length_induct)
  case (1 src s)
  show ?case
  proof (cases "length src > 0")
    case True
    define off where "off = fs_size s mod k_block_size"
    define bs where "bs = (if off \<noteq> 0 then fs_blocks s else fs_blocks s @ [map (junk (fs_size s)) [0..<k_block_size]])"
    define a where "a = (if k_block_size - off > length src then length src else k_block_size - off)"
    define s' where "s' = s\<lparr>fs_blocks := butlast bs @ [block_store (last bs) off (take a src)],
      fs_size := fs_size s + a\<rparr>"
    have step: "fstate_append_loop junk s src = fstate_append_loop junk s' (drop a src)"
      using True
      by (subst fstate_append_loop.simps)
        (simp add: Let_def s'_def a_def bs_def off_def split: if_splits prod.splits)
    have nb: "k_block_size * (length bs - 1) \<le> fs_size s \<and> off = fs_size s - k_block_size * (length bs - 1)
      \<and> bs \<noteq> []"
    proof (cases "off = 0")
      case True
      then obtain q where "fs_size s = k_block_size * q" by (auto simp: off_def)
      with 1 have "q = length (fs_blocks s)" by (auto simp: fstate_inv_def)
      then show ?thesis using True \<open>fs_size s = k_block_size * q\<close> by (auto simp: bs_def)
    next
      case False
      define q where "q = fs_size s div k_block_size"
      have "fs_size s = k_block_size * q + off" by (simp add: q_def off_def)
      moreover have "off < k_block_size" by (simp add: off_def)
      ultimately have "length (fs_blocks s) = q + 1" using 1 False by (auto simp: fstate_inv_def)
      then show ?thesis using False \<open>fs_size s = k_block_size * q + off\<close> by (auto simp: bs_def)
    qed
    have a: "0 < a" "a \<le> length src" "off + a \<le> k_block_size" using True by (auto simp: a_def off_def)
    have alls: "list_all (\<lambda>b. length b = k_block_size) bs" using "1.prems" by (auto simp: bs_def fstate_inv_def)
    have contents: "take (fs_size s) (concat bs) = fs_contents s"
      using "1.prems" by (auto simp: bs_def fs_contents_def fstate_inv_def length_concat_blocks)
    have len_a: "length (take a src) = a" using a by simp
    have "fstate_inv s'" "fs_contents s' = fs_contents s @ take a src"
      using fstate_append_step [where s = s and bs = bs and off = off and d = "take a src"] nb alls a
      unfolding s'_def len_a contents by blast+
    moreover have "fs_path s' = fs_path s" "fs_refs s' = fs_refs s" by (simp_all add: s'_def)
    ultimately show ?thesis
      using "1.IH" a step by (auto simp: less_le_trans)
  qed (use "1.prems" in \<open>simp add: fstate_append_loop.simps\<close>)
qed

end
