(* ===== verification/EnvMem.thy ===== *)
theory EnvMem
  imports FileState
begin

text \<open>
  The in-memory environment (\<^verbatim>\<open>src/src/util/env_mem_impl.h\<close>) and the file helpers of
  \<^verbatim>\<open>src/src/util/env.c\<close>, and the contracts of a file that is appended to and of a file that is read
  in sequence as locales, which the log reader and writer are clients of.

  File states live in a heap, since a name in the file map and any number of open handles share one
  and count their references to it: \<^term>\<open>me_states\<close> maps the addresses in use to them. The file map
  and the lock set, red-black trees in the source, are a map and a set. Following a dangling pointer
  is \<^term>\<open>the None\<close>; the invariant at the end of the theory shows that it does not happen.
\<close>

section \<open>Contracts of files\<close>

locale append_file =
  fixes app :: "'f \<Rightarrow> bytes \<Rightarrow> status \<times> 'f"
    and flush :: "'f \<Rightarrow> status \<times> 'f"
    and contents :: "'f \<Rightarrow> bytes"
    and live :: "'f \<Rightarrow> bool"
  assumes app_law: "live f \<Longrightarrow> \<exists>f'. app f d = (LDB_OK, f') \<and> live f' \<and> contents f' = contents f @ d"
    and flush_law: "live f \<Longrightarrow> \<exists>f'. flush f = (LDB_OK, f') \<and> live f' \<and> contents f' = contents f"

locale seq_file =
  fixes rd :: "'f \<Rightarrow> nat \<Rightarrow> status \<times> bytes \<times> 'f"
    and skip :: "'f \<Rightarrow> nat \<Rightarrow> status \<times> 'f"
    and remaining :: "'f \<Rightarrow> bytes"
    and live :: "'f \<Rightarrow> bool"
  assumes rd_law: "live f \<Longrightarrow> \<exists>f'. rd f n = (LDB_OK, take n (remaining f), f')
      \<and> live f' \<and> remaining f' = drop n (remaining f)"
    and skip_law: "live f \<Longrightarrow> \<exists>f'. skip f n = (LDB_OK, f') \<and> live f' \<and> remaining f' = drop n (remaining f)"

section \<open>The environment\<close>

record memenv =
  me_states :: "nat \<rightharpoonup> fstate"
  me_next :: nat
  me_files :: "string \<rightharpoonup> nat"
  me_locks :: "string set"

record rfile =
  rf_state :: nat
  rf_pos :: nat

record wfile =
  wf_state :: nat

definition LDB_PATH_MAX :: nat where
  "LDB_PATH_MAX = 1024"

definition memenv_init :: memenv where
  "memenv_init = \<lparr>me_states = Map.empty, me_next = 0, me_files = Map.empty, me_locks = {}\<rparr>"

definition fstate_at :: "memenv \<Rightarrow> nat \<Rightarrow> fstate" where
  "fstate_at env i = the (me_states env i)"

definition fstate_put :: "memenv \<Rightarrow> nat \<Rightarrow> fstate \<Rightarrow> memenv" where
  "fstate_put env i s = env\<lparr>me_states := (me_states env)(i \<mapsto> s)\<rparr>"

definition ldb_fstate_ref :: "memenv \<Rightarrow> nat \<Rightarrow> memenv" where
  "ldb_fstate_ref env i = (let s = fstate_at env i in fstate_put env i (s\<lparr>fs_refs := fs_refs s + 1\<rparr>))"

definition ldb_fstate_unref_assert :: "memenv \<Rightarrow> nat \<Rightarrow> bool" where
  "ldb_fstate_unref_assert env i \<longleftrightarrow> fs_refs (fstate_at env i) - 1 \<ge> 0"

definition ldb_fstate_unref :: "memenv \<Rightarrow> nat \<Rightarrow> memenv" where
  "ldb_fstate_unref env i =
     (let s = fstate_at env i; refs = fs_refs s - 1
      in if refs \<le> 0 then env\<lparr>me_states := (me_states env)(i := None)\<rparr>
         else fstate_put env i (s\<lparr>fs_refs := refs\<rparr>))"

section \<open>Filesystem\<close>

definition ldb_path_absolute :: "nat \<Rightarrow> string \<Rightarrow> string option" where
  "ldb_path_absolute n name =
     (if length name = 0 \<or> length name + 1 > n then None else Some name)"

definition ldb_file_exists :: "memenv \<Rightarrow> string \<Rightarrow> bool" where
  "ldb_file_exists env filename \<longleftrightarrow> me_files env filename \<noteq> None"

text \<open>\<^verbatim>\<open>ldb_get_children\<close> strips trailing slashes and collects the names below the directory.\<close>

definition strip_slashes :: "string \<Rightarrow> string" where
  "strip_slashes path = rev (dropWhile (\<lambda>c. c = CHR ''/'') (rev path))"

definition ldb_get_children :: "memenv \<Rightarrow> string \<Rightarrow> string set" where
  "ldb_get_children env path =
     (let dir = strip_slashes path; plen = length dir
      in (\<lambda>name. drop (plen + 1) name) `
           {name \<in> dom (me_files env).
              length name > plen + 1 \<and> name ! plen = CHR ''/'' \<and> take plen name = dir})"

definition ldb_delete_file :: "memenv \<Rightarrow> string \<Rightarrow> bool \<times> memenv" where
  "ldb_delete_file env filename =
     (case me_files env filename of
        Some i \<Rightarrow> (True, ldb_fstate_unref (env\<lparr>me_files := (me_files env)(filename := None)\<rparr>) i)
      | None \<Rightarrow> (False, env))"

definition ldb_remove_file :: "memenv \<Rightarrow> string \<Rightarrow> status \<times> memenv" where
  "ldb_remove_file env filename =
     (let (result, env) = ldb_delete_file env filename
      in (if result then LDB_OK else LDB_NOTFOUND, env))"

definition ldb_get_file_size :: "memenv \<Rightarrow> string \<Rightarrow> nat option" where
  "ldb_get_file_size env filename =
     (case me_files env filename of
        Some i \<Rightarrow> Some (ldb_fstate_size (fstate_at env i))
      | None \<Rightarrow> None)"

definition ldb_rename_file :: "memenv \<Rightarrow> string \<Rightarrow> string \<Rightarrow> status \<times> memenv" where
  "ldb_rename_file env src dst =
     (if length dst + 1 > LDB_PATH_MAX then (LDB_INVALID, env)
      else
        (case me_files env src of
           Some i \<Rightarrow>
             (let env = env\<lparr>me_files := (me_files env)(src := None)\<rparr>;
                  env = fstate_put env i ((fstate_at env i)\<lparr>fs_path := dst\<rparr>);
                  (_, env) = ldb_delete_file env dst;
                  env = env\<lparr>me_files := (me_files env)(dst \<mapsto> i)\<rparr>
              in (LDB_OK, env))
         | None \<Rightarrow> (LDB_NOTFOUND, env)))"

definition ldb_lock_file :: "memenv \<Rightarrow> string \<Rightarrow> status \<times> memenv" where
  "ldb_lock_file env filename =
     (if length filename + 1 > LDB_PATH_MAX then (LDB_INVALID, env)
      else if filename \<in> me_locks env then (LDB_IOERR, env)
      else (LDB_OK, env\<lparr>me_locks := insert filename (me_locks env)\<rparr>))"

definition ldb_unlock_file :: "memenv \<Rightarrow> string \<Rightarrow> status \<times> memenv" where
  "ldb_unlock_file env lock =
     (if lock \<in> me_locks env then (LDB_OK, env\<lparr>me_locks := me_locks env - {lock}\<rparr>)
      else (LDB_IOERR, env))"

section \<open>Readable files\<close>

definition ldb_rfile_init :: "memenv \<Rightarrow> nat \<Rightarrow> rfile \<times> memenv" where
  "ldb_rfile_init env i = (\<lparr>rf_state = i, rf_pos = 0\<rparr>, ldb_fstate_ref env i)"

definition ldb_rfile_read :: "memenv \<Rightarrow> rfile \<Rightarrow> nat \<Rightarrow> status \<times> bytes \<times> rfile" where
  "ldb_rfile_read env file count =
     (let (rc, result) = ldb_fstate_pread (fstate_at env (rf_state file)) count (rf_pos file)
      in (rc, result, if rc = LDB_OK then file\<lparr>rf_pos := rf_pos file + length result\<rparr> else file))"

definition ldb_rfile_skip :: "memenv \<Rightarrow> rfile \<Rightarrow> nat \<Rightarrow> status \<times> rfile" where
  "ldb_rfile_skip env file offset =
     (let fsize = ldb_fstate_size (fstate_at env (rf_state file))
      in if rf_pos file > fsize then (LDB_IOERR, file)
         else (let available = fsize - rf_pos file;
                   offset = (if offset > available then available else offset)
               in (LDB_OK, file\<lparr>rf_pos := rf_pos file + offset\<rparr>)))"

definition ldb_rfile_pread :: "memenv \<Rightarrow> rfile \<Rightarrow> nat \<Rightarrow> nat \<Rightarrow> status \<times> bytes" where
  "ldb_rfile_pread env file count offset =
     ldb_fstate_pread (fstate_at env (rf_state file)) count offset"

definition ldb_seqfile_create :: "memenv \<Rightarrow> string \<Rightarrow> (rfile \<times> memenv) option" where
  "ldb_seqfile_create env filename =
     (case me_files env filename of
        Some i \<Rightarrow> Some (ldb_rfile_init env i)
      | None \<Rightarrow> None)"

definition ldb_randfile_create :: "memenv \<Rightarrow> string \<Rightarrow> bool \<Rightarrow> (rfile \<times> memenv) option" where
  "ldb_randfile_create env filename use_mmap = ldb_seqfile_create env filename"

definition ldb_rfile_destroy :: "memenv \<Rightarrow> rfile \<Rightarrow> memenv" where
  "ldb_rfile_destroy env file = ldb_fstate_unref env (rf_state file)"

section \<open>Writable files\<close>

definition ldb_wfile_init :: "memenv \<Rightarrow> nat \<Rightarrow> wfile \<times> memenv" where
  "ldb_wfile_init env i = (\<lparr>wf_state = i\<rparr>, ldb_fstate_ref env i)"

definition ldb_wfile_append ::
  "(nat \<Rightarrow> nat \<Rightarrow> u8) \<Rightarrow> memenv \<Rightarrow> wfile \<Rightarrow> bytes \<Rightarrow> status \<times> memenv" where
  "ldb_wfile_append junk env file data =
     (let (rc, s) = ldb_fstate_append junk (fstate_at env (wf_state file)) data
      in (rc, fstate_put env (wf_state file) s))"

definition ldb_wfile_flush :: "memenv \<Rightarrow> wfile \<Rightarrow> status" where
  "ldb_wfile_flush env file = LDB_OK"

definition ldb_wfile_sync :: "memenv \<Rightarrow> wfile \<Rightarrow> status" where
  "ldb_wfile_sync env file = LDB_OK"

definition ldb_wfile_close :: "memenv \<Rightarrow> wfile \<Rightarrow> status" where
  "ldb_wfile_close env file = LDB_OK"

text \<open>The branch both constructors share: a new file state, with the file map's reference.\<close>

definition memenv_create_file :: "memenv \<Rightarrow> string \<Rightarrow> nat \<times> memenv" where
  "memenv_create_file env filename =
     (let i = me_next env;
          env = (fstate_put env i (ldb_fstate_create filename))\<lparr>me_next := i + 1\<rparr>;
          env = ldb_fstate_ref env i
      in (i, env\<lparr>me_files := (me_files env)(filename \<mapsto> i)\<rparr>))"

definition ldb_truncfile_create :: "memenv \<Rightarrow> string \<Rightarrow> status + (wfile \<times> memenv)" where
  "ldb_truncfile_create env filename =
     (if length filename + 1 > LDB_PATH_MAX then Inl LDB_INVALID
      else
        (let (i, env) =
           (case me_files env filename of
              None \<Rightarrow> memenv_create_file env filename
            | Some i \<Rightarrow> (i, fstate_put env i (ldb_fstate_truncate (fstate_at env i))))
         in Inr (ldb_wfile_init env i)))"

definition ldb_appendfile_create :: "memenv \<Rightarrow> string \<Rightarrow> status + (wfile \<times> memenv)" where
  "ldb_appendfile_create env filename =
     (if length filename + 1 > LDB_PATH_MAX then Inl LDB_INVALID
      else
        (let (i, env) =
           (case me_files env filename of
              None \<Rightarrow> memenv_create_file env filename
            | Some i \<Rightarrow> (i, env))
         in Inr (ldb_wfile_init env i)))"

definition ldb_wfile_destroy :: "memenv \<Rightarrow> wfile \<Rightarrow> memenv" where
  "ldb_wfile_destroy env file = ldb_fstate_unref env (wf_state file)"

section \<open>Whole files\<close>

definition ldb_write_file ::
  "(nat \<Rightarrow> nat \<Rightarrow> u8) \<Rightarrow> memenv \<Rightarrow> string \<Rightarrow> bytes \<Rightarrow> bool \<Rightarrow> status \<times> memenv" where
  "ldb_write_file junk env fname data should_sync =
     (case ldb_truncfile_create env fname of
        Inl rc \<Rightarrow> (rc, env)
      | Inr (file, env) \<Rightarrow>
          (let (rc, env) = ldb_wfile_append junk env file data;
               rc = (if rc = LDB_OK \<and> should_sync then ldb_wfile_sync env file else rc);
               rc = (if rc = LDB_OK then ldb_wfile_close env file else rc);
               env = ldb_wfile_destroy env file;
               env = (if rc \<noteq> LDB_OK then snd (ldb_remove_file env fname) else env)
           in (rc, env)))"

text \<open>
  The loop of \<^verbatim>\<open>ldb_read_file\<close> ends when a read returns nothing; the environment's reads move the
  position forward otherwise, but only up to the size of the file, which bounds the loop.
\<close>

partial_function (option) read_file_loop ::
  "memenv \<Rightarrow> rfile \<Rightarrow> bytes \<Rightarrow> (status \<times> bytes) option" where
  "read_file_loop env file data =
     (case ldb_rfile_read env file 8192 of
        (rc, chunk, file) \<Rightarrow>
          if rc \<noteq> LDB_OK then Some (rc, data)
          else if length chunk = 0 then Some (rc, data)
          else read_file_loop env file (data @ chunk))"

definition ldb_read_file :: "memenv \<Rightarrow> string \<Rightarrow> bytes \<Rightarrow> ((status \<times> bytes) \<times> memenv) option" where
  "ldb_read_file env fname data =
     (case ldb_seqfile_create env fname of
        None \<Rightarrow> Some ((LDB_NOTFOUND, data), env)
      | Some (file, env) \<Rightarrow>
          (case read_file_loop env file [] of
             None \<Rightarrow> None
           | Some r \<Rightarrow> Some (r, ldb_rfile_destroy env file)))"

section \<open>Reference counts\<close>

text \<open>
  \<^term>\<open>H i\<close> is the number of open handles on file state \<^term>\<open>i\<close>. A state is in use as long as the
  file map or a handle refers to it, and its count is the number of these references.
\<close>

definition state_ok :: "memenv \<Rightarrow> (nat \<Rightarrow> nat) \<Rightarrow> nat \<Rightarrow> fstate \<Rightarrow> bool" where
  "state_ok e H i s \<longleftrightarrow> i < me_next e \<and> fstate_inv s \<and> fs_refs s > 0
     \<and> fs_refs s = int (H i) + (if me_files e (fs_path s) = Some i then 1 else 0)"

definition env_inv :: "memenv \<Rightarrow> (nat \<Rightarrow> nat) \<Rightarrow> bool" where
  "env_inv e H \<longleftrightarrow>
     (\<forall>i s. me_states e i = Some s \<longrightarrow> state_ok e H i s)
     \<and> (\<forall>p i. me_files e p = Some i \<longrightarrow> (\<exists>s. me_states e i = Some s \<and> fs_path s = p))
     \<and> (\<forall>i. H i > 0 \<longrightarrow> me_states e i \<noteq> None)"

abbreviation opened :: "nat \<Rightarrow> (nat \<Rightarrow> nat) \<Rightarrow> nat \<Rightarrow> nat" where
  "opened i H \<equiv> H(i := H i + 1)"

lemma env_invI:
  assumes "\<And>i s. me_states e i = Some s \<Longrightarrow> state_ok e H i s"
    and "\<And>p i. me_files e p = Some i \<Longrightarrow> \<exists>s. me_states e i = Some s \<and> fs_path s = p"
    and "\<And>i. H i > 0 \<Longrightarrow> me_states e i \<noteq> None"
  shows "env_inv e H"
  using assms by (simp add: env_inv_def)

lemma env_invD:
  assumes "env_inv e H"
  shows "me_states e i = Some s \<Longrightarrow> state_ok e H i s"
    and "me_files e p = Some i \<Longrightarrow> \<exists>s. me_states e i = Some s \<and> fs_path s = p"
    and "H i > 0 \<Longrightarrow> \<exists>s. me_states e i = Some s"
  using assms unfolding env_inv_def by auto

lemma env_inv_init: "env_inv memenv_init (\<lambda>_. 0)"
  by (simp add: env_inv_def memenv_init_def)

lemma fstate_at_Some [simp]: "me_states e i = Some s \<Longrightarrow> fstate_at e i = s"
  by (simp add: fstate_at_def)

lemma fstate_put_simps [simp]:
  "me_states (fstate_put e i s) = (me_states e)(i \<mapsto> s)" "me_files (fstate_put e i s) = me_files e"
  "me_next (fstate_put e i s) = me_next e" "me_locks (fstate_put e i s) = me_locks e"
  by (simp_all add: fstate_put_def)

lemma env_inv_ref:
  assumes inv: "env_inv e H" and s: "me_states e i = Some s"
  shows "env_inv (ldb_fstate_ref e i) (opened i H)"
proof (rule env_invI)
  fix j t assume "me_states (ldb_fstate_ref e i) j = Some t"
  then show "state_ok (ldb_fstate_ref e i) (opened i H) j t"
    using s env_invD(1) [OF inv, of j] 
    by (auto simp: ldb_fstate_ref_def state_ok_def split: if_splits)
next
  fix p j assume "me_files (ldb_fstate_ref e i) p = Some j"
  then show "\<exists>t. me_states (ldb_fstate_ref e i) j = Some t \<and> fs_path t = p"
    using s env_invD(2) [OF inv, of p j] by (auto simp: ldb_fstate_ref_def Let_def)
next
  fix j assume "opened i H j > 0"
  then show "me_states (ldb_fstate_ref e i) j \<noteq> None"
    using s env_invD(3) [OF inv, of j] by (auto simp: ldb_fstate_ref_def Let_def)
qed

lemma env_inv_unref:
  assumes inv: "env_inv e (opened i H)"
  shows "env_inv (ldb_fstate_unref e i) H" "ldb_fstate_unref_assert e i"
proof -
  obtain s where s: "me_states e i = Some s" using env_invD(3) [OF inv, of i] by auto
  note ok = env_invD(1) [OF inv s]
  show "ldb_fstate_unref_assert e i" using s ok by (simp add: ldb_fstate_unref_assert_def state_ok_def)
  show "env_inv (ldb_fstate_unref e i) H"
  proof (cases "fs_refs s - 1 \<le> 0")
    case True
    then have *: "H i = 0" "me_files e p \<noteq> Some i" for p
      using ok env_invD(2) [OF inv, of p i] s by (auto simp: state_ok_def split: if_splits)
    have e: "ldb_fstate_unref e i = e\<lparr>me_states := (me_states e)(i := None)\<rparr>"
      using True s by (simp add: ldb_fstate_unref_def Let_def)
    show ?thesis
    proof (rule env_invI)
      fix j t assume "me_states (ldb_fstate_unref e i) j = Some t"
      then show "state_ok (ldb_fstate_unref e i) H j t"
        using env_invD(1) [OF inv, of j] by (auto simp: e state_ok_def split: if_splits)
    next
      fix p j assume "me_files (ldb_fstate_unref e i) p = Some j"
      then show "\<exists>t. me_states (ldb_fstate_unref e i) j = Some t \<and> fs_path t = p"
        using env_invD(2) [OF inv, of p j] *(2) [of p] by (auto simp: e)
    next
      fix j assume "0 < H j"
      then show "me_states (ldb_fstate_unref e i) j \<noteq> None"
        using env_invD(3) [OF inv, of j] * by (auto simp: e split: if_splits)
    qed
  next
    case False
    have e: "ldb_fstate_unref e i = fstate_put e i (s\<lparr>fs_refs := fs_refs s - 1\<rparr>)"
      using False s by (simp add: ldb_fstate_unref_def Let_def)
    show ?thesis
    proof (rule env_invI)
      fix j t assume "me_states (ldb_fstate_unref e i) j = Some t"
      then show "state_ok (ldb_fstate_unref e i) H j t"
        using env_invD(1) [OF inv, of j] False s by (auto simp: e state_ok_def split: if_splits)
    next
      fix p j assume "me_files (ldb_fstate_unref e i) p = Some j"
      then show "\<exists>t. me_states (ldb_fstate_unref e i) j = Some t \<and> fs_path t = p"
        using env_invD(2) [OF inv, of p j] s by (auto simp: e)
    next
      fix j assume "0 < H j"
      then show "me_states (ldb_fstate_unref e i) j \<noteq> None"
        using env_invD(3) [OF inv, of j] s by (auto simp: e split: if_splits)
    qed
  qed
qed

lemma env_inv_unmap:
  assumes inv: "env_inv e H" and p: "me_files e p = Some i"
  shows "env_inv (e\<lparr>me_files := (me_files e)(p := None)\<rparr>) (opened i H)"
proof -
  obtain s where s: "me_states e i = Some s" "fs_path s = p" using env_invD(2) [OF inv p] by auto
  show ?thesis
  proof (rule env_invI, goal_cases)
    case (1 j t)
    then show ?case using env_invD(1) [OF inv, of j t] s p by (auto simp: state_ok_def split: if_splits)
  qed (use s env_invD [OF inv] in \<open>auto split: if_splits\<close>)
qed

lemma env_inv_map:
  assumes inv: "env_inv e (opened i H)" and p: "me_files e p = None" and path: "fs_path (fstate_at e i) = p"
  shows "env_inv (e\<lparr>me_files := (me_files e)(p \<mapsto> i)\<rparr>) H"
proof -
  obtain s where s: "me_states e i = Some s" using env_invD(3) [OF inv, of i] by auto
  show ?thesis
  proof (rule env_invI, goal_cases)
    case (1 j t)
    then show ?case using env_invD(1) [OF inv, of j t] s p path by (auto simp: state_ok_def split: if_splits)
  next
    case (3 j)
    then show ?case using env_invD(3) [OF inv, of j] by auto
  qed (use s path env_invD(2) [OF inv] in \<open>auto split: if_splits\<close>)
qed

lemma env_inv_put:
  assumes inv: "env_inv e H" and s: "me_states e i = Some s"
    and "fstate_inv s'" "fs_refs s' = fs_refs s" "fs_path s' = fs_path s \<or> (\<forall>p. me_files e p \<noteq> Some i)"
  shows "env_inv (fstate_put e i s') H"
proof (rule env_invI, goal_cases)
  case (1 j t)
  then show ?case using env_invD(1) [OF inv, of j] assms by (auto simp: state_ok_def split: if_splits)
next
  case (2 p j)
  then show ?case using env_invD(2) [OF inv, of p j] assms by auto
qed (use env_invD(3) [OF inv] in auto)

lemma env_inv_create:
  assumes inv: "env_inv e H" and fn: "me_files e fn = None" and c: "memenv_create_file e fn = (i, e')"
  shows "env_inv e' H" "\<exists>s. me_states e' i = Some s \<and> fs_contents s = []" "me_files e' fn = Some i"
proof -
  let ?s = "(ldb_fstate_create fn)\<lparr>fs_refs := 1\<rparr>"
  let ?e = "e\<lparr>me_states := (me_states e)(me_next e \<mapsto> ?s), me_next := me_next e + 1\<rparr>"
  have e': "i = me_next e" "e' = ?e\<lparr>me_files := (me_files e)(fn \<mapsto> i)\<rparr>"
    using c by (auto simp: memenv_create_file_def Let_def ldb_fstate_ref_def fstate_put_def fstate_at_def
        ldb_fstate_create_def)
  have fresh: "me_states e (me_next e) = None"
    using env_invD(1) [OF inv, of "me_next e"]
    by (cases "me_states e (me_next e)") (auto simp: state_ok_def)
  then have *: "H (me_next e) = 0" "me_files e p \<noteq> Some (me_next e)" for p
    using env_invD [OF inv] by fastforce+
  have "env_inv ?e (opened (me_next e) H)"
  proof (rule env_invI, goal_cases)
    case (1 j t)
    then show ?case using env_invD(1) [OF inv, of j] *
      by (auto simp: state_ok_def fs_update_inv(1) split: if_splits)
  next
    case (2 p j)
    then show ?case using env_invD(2) [OF inv, of p j] * by auto
  qed (use env_invD(3) [OF inv] in \<open>auto split: if_splits\<close>)
  from env_inv_map [OF this, of fn] show "env_inv e' H"
    using e' fn by (simp add: ldb_fstate_create_def fstate_at_def)
  show "\<exists>s. me_states e' i = Some s \<and> fs_contents s = []" "me_files e' fn = Some i"
    using e' by auto
qed

section \<open>Every operation keeps the invariant\<close>

lemma env_inv_delete:
  assumes "env_inv e H"
  shows "env_inv (snd (ldb_delete_file e fn)) H"
    and "me_files (snd (ldb_delete_file e fn)) = (me_files e)(fn := None)"
  using assms env_inv_unref(1) [OF env_inv_unmap [OF assms]]
  by (auto simp: ldb_delete_file_def ldb_fstate_unref_def Let_def split: option.splits)

lemma env_inv_remove:
  assumes "env_inv e H"
  shows "env_inv (snd (ldb_remove_file e fn)) H"
  using env_inv_delete(1) [OF assms, of fn] by (simp add: ldb_remove_file_def case_prod_beta)

lemma delete_other_state:
  assumes "env_inv e H" "H i > 0" "me_states e i = Some s" "me_files e fn \<noteq> Some i"
  shows "me_states (snd (ldb_delete_file e fn)) i = Some s"
  using assms by (auto simp: ldb_delete_file_def ldb_fstate_unref_def Let_def split: option.splits)

lemma env_inv_rename:
  assumes inv: "env_inv e H"
  shows "env_inv (snd (ldb_rename_file e src dst)) H"
proof (cases "length dst + 1 > LDB_PATH_MAX \<or> me_files e src = None")
  case False
  then obtain i where i: "me_files e src = Some i" and len: "\<not> length dst + 1 > LDB_PATH_MAX" by auto
  obtain s where s: "me_states e i = Some s" "fs_path s = src" using env_invD(2) [OF inv i] by auto
  define e1 where "e1 = e\<lparr>me_files := (me_files e)(src := None)\<rparr>"
  define e2 where "e2 = fstate_put e1 i (s\<lparr>fs_path := dst\<rparr>)"
  define e3 where "e3 = snd (ldb_delete_file e2 dst)"
  have unmapped: "me_files e1 p \<noteq> Some i" for p
    using env_invD(2) [OF inv, of p i] s by (auto simp: e1_def)
  have inv1: "env_inv e1 (opened i H)" unfolding e1_def by (rule env_inv_unmap [OF inv i])
  have inv2: "env_inv e2 (opened i H)"
    using env_invD(1) [OF inv s(1)] s unmapped unfolding e2_def
    by (intro env_inv_put [OF inv1]) (auto simp: e1_def state_ok_def)
  have inv3: "env_inv e3 (opened i H)" and "me_files e3 dst = None"
    unfolding e3_def using env_inv_delete [OF inv2] by auto
  moreover have "me_states e3 i = Some (s\<lparr>fs_path := dst\<rparr>)"
    unfolding e3_def using inv2 unmapped by (intro delete_other_state [OF inv2]) (auto simp: e2_def)
  ultimately have "env_inv (e3\<lparr>me_files := (me_files e3)(dst \<mapsto> i)\<rparr>) H"
    by (intro env_inv_map) auto
  moreover have "snd (ldb_rename_file e src dst) = e3\<lparr>me_files := (me_files e3)(dst \<mapsto> i)\<rparr>"
    using i len s(1)
    by (simp add: ldb_rename_file_def Let_def fstate_at_def e3_def e2_def e1_def split: prod.splits)
  ultimately show ?thesis by simp
qed (auto simp: ldb_rename_file_def inv)

lemma env_inv_me_locks: "env_inv (e\<lparr>me_locks := L\<rparr>) H = env_inv e H"
  unfolding env_inv_def state_ok_def by simp

lemma env_inv_locks:
  assumes "env_inv e H"
  shows "env_inv (snd (ldb_lock_file e fn)) H" "env_inv (snd (ldb_unlock_file e fn)) H"
  using assms by (auto simp: ldb_lock_file_def ldb_unlock_file_def env_inv_me_locks)

lemma env_inv_seqfile:
  assumes "env_inv e H" "ldb_seqfile_create e fn = Some (f, e')"
  shows "env_inv e' (opened (rf_state f) H)" "me_files e fn = Some (rf_state f)" "rf_pos f = 0"
    "fs_contents (fstate_at e' (rf_state f)) = fs_contents (fstate_at e (rf_state f))"
proof -
  obtain i where i: "me_files e fn = Some i" and f: "f = \<lparr>rf_state = i, rf_pos = 0\<rparr>" "e' = ldb_fstate_ref e i"
    using assms(2) by (auto simp: ldb_seqfile_create_def ldb_rfile_init_def split: option.splits)
  moreover obtain s where "me_states e i = Some s" using env_invD(2) [OF assms(1) i] by auto
  ultimately show "env_inv e' (opened (rf_state f) H)" "me_files e fn = Some (rf_state f)" "rf_pos f = 0"
    "fs_contents (fstate_at e' (rf_state f)) = fs_contents (fstate_at e (rf_state f))"
    using env_inv_ref [OF assms(1)] by (auto simp: ldb_fstate_ref_def Let_def fstate_at_def)
qed

lemma env_inv_open:
  assumes inv: "env_inv e H" and i: "me_files e fn = Some i"
  shows "env_inv (snd (ldb_wfile_init e i)) (opened i H)"
    and "fs_contents (fstate_at (snd (ldb_wfile_init e i)) i) = fs_contents (fstate_at e i)"
    and "me_files (snd (ldb_wfile_init e i)) = me_files e"
proof -
  obtain s where "me_states e i = Some s" using env_invD(2) [OF inv i] by auto
  then show "env_inv (snd (ldb_wfile_init e i)) (opened i H)"
    "fs_contents (fstate_at (snd (ldb_wfile_init e i)) i) = fs_contents (fstate_at e i)"
    "me_files (snd (ldb_wfile_init e i)) = me_files e"
    using env_inv_ref [OF inv]
    by (auto simp: ldb_wfile_init_def ldb_fstate_ref_def Let_def fstate_at_def)
qed

lemma wfile_init_iff:
  "ldb_wfile_init e i = (f, e') \<longleftrightarrow> f = \<lparr>wf_state = i\<rparr> \<and> e' = snd (ldb_wfile_init e i)"
  by (auto simp: ldb_wfile_init_def)

lemma env_inv_truncfile:
  assumes inv: "env_inv e H" and tr: "ldb_truncfile_create e fn = Inr (f, e')"
  shows "env_inv e' (opened (wf_state f) H)" "me_files e' fn = Some (wf_state f)"
    "fs_contents (fstate_at e' (wf_state f)) = []"
proof -
  obtain i e1 where e1: "(case me_files e fn of None \<Rightarrow> memenv_create_file e fn
      | Some i \<Rightarrow> (i, fstate_put e i (ldb_fstate_truncate (fstate_at e i)))) = (i, e1)"
    by fastforce
  then have f: "f = \<lparr>wf_state = i\<rparr>" "e' = snd (ldb_wfile_init e1 i)"
    using tr by (auto simp: ldb_truncfile_create_def wfile_init_iff split: if_splits)
  have "env_inv e1 H \<and> me_files e1 fn = Some i \<and> fs_contents (fstate_at e1 i) = []"
  proof (cases "me_files e fn")
    case None
    then show ?thesis using e1 env_inv_create [OF inv None, of i e1] by auto
  next
    case (Some j)
    then obtain s where "me_states e j = Some s" using env_invD(2) [OF inv] by blast
    with Some e1 show ?thesis
      using env_inv_put [OF inv, of j s "ldb_fstate_truncate s"]
      by (auto simp: fstate_at_def) (simp add: ldb_fstate_truncate_def)+
  qed
  then show "env_inv e' (opened (wf_state f) H)" "me_files e' fn = Some (wf_state f)"
    "fs_contents (fstate_at e' (wf_state f)) = []"
    using env_inv_open [of e1 H fn i] f by auto
qed

lemma env_inv_appendfile:
  assumes inv: "env_inv e H" and tr: "ldb_appendfile_create e fn = Inr (f, e')"
  shows "env_inv e' (opened (wf_state f) H)" "me_files e' fn = Some (wf_state f)"
proof -
  obtain i e1 where e1: "(case me_files e fn of None \<Rightarrow> memenv_create_file e fn | Some i \<Rightarrow> (i, e)) = (i, e1)"
    by fastforce
  then have f: "f = \<lparr>wf_state = i\<rparr>" "e' = snd (ldb_wfile_init e1 i)"
    using tr by (auto simp: ldb_appendfile_create_def wfile_init_iff split: if_splits)
  have "env_inv e1 H \<and> me_files e1 fn = Some i"
    using e1 inv env_inv_create [OF inv, of fn i e1] by (auto split: option.splits)
  then show "env_inv e' (opened (wf_state f) H)" "me_files e' fn = Some (wf_state f)"
    using env_inv_open [of e1 H fn i] f by auto
qed

lemma env_inv_append:
  assumes inv: "env_inv e H" and h: "H (wf_state f) > 0"
  shows "fst (ldb_wfile_append junk e f d) = LDB_OK" "env_inv (snd (ldb_wfile_append junk e f d)) H"
    "fs_contents (fstate_at (snd (ldb_wfile_append junk e f d)) (wf_state f))
       = fs_contents (fstate_at e (wf_state f)) @ d"
    "me_files (snd (ldb_wfile_append junk e f d)) = me_files e"
proof -
  obtain s where s: "me_states e (wf_state f) = Some s" using env_invD(3) [OF inv h] by auto
  have "fstate_inv s" using env_invD(1) [OF inv s] by (simp add: state_ok_def)
  note * = fstate_append_loop_eq [OF this, of junk d]
  show "fst (ldb_wfile_append junk e f d) = LDB_OK" "env_inv (snd (ldb_wfile_append junk e f d)) H"
    "fs_contents (fstate_at (snd (ldb_wfile_append junk e f d)) (wf_state f))
       = fs_contents (fstate_at e (wf_state f)) @ d"
    "me_files (snd (ldb_wfile_append junk e f d)) = me_files e"
    using env_inv_put [OF inv s, of "fstate_append_loop junk s d"] s *
    by (auto simp: ldb_wfile_append_def ldb_fstate_append_def Let_def fstate_at_def)
qed

section \<open>The environment meets the file contracts\<close>

text \<open>A handle together with the environment it refers to.\<close>

definition mem_wapp :: "(nat \<Rightarrow> nat \<Rightarrow> u8) \<Rightarrow> memenv \<times> wfile \<Rightarrow> bytes \<Rightarrow> status \<times> memenv \<times> wfile" where
  "mem_wapp junk ef d = (case ef of (e, f) \<Rightarrow> let (rc, e') = ldb_wfile_append junk e f d in (rc, e', f))"

definition mem_wflush :: "memenv \<times> wfile \<Rightarrow> status \<times> memenv \<times> wfile" where
  "mem_wflush ef = (case ef of (e, f) \<Rightarrow> (ldb_wfile_flush e f, e, f))"

definition mem_wcontents :: "memenv \<times> wfile \<Rightarrow> bytes" where
  "mem_wcontents ef = fs_contents (fstate_at (fst ef) (wf_state (snd ef)))"

definition mem_wlive :: "memenv \<times> wfile \<Rightarrow> bool" where
  "mem_wlive ef \<longleftrightarrow> (\<exists>H. env_inv (fst ef) H \<and> H (wf_state (snd ef)) > 0)"

definition mem_rread :: "memenv \<times> rfile \<Rightarrow> nat \<Rightarrow> status \<times> bytes \<times> memenv \<times> rfile" where
  "mem_rread ef n = (case ef of (e, f) \<Rightarrow> let (rc, d, f') = ldb_rfile_read e f n in (rc, d, e, f'))"

definition mem_rskip :: "memenv \<times> rfile \<Rightarrow> nat \<Rightarrow> status \<times> memenv \<times> rfile" where
  "mem_rskip ef n = (case ef of (e, f) \<Rightarrow> let (rc, f') = ldb_rfile_skip e f n in (rc, e, f'))"

definition mem_rremaining :: "memenv \<times> rfile \<Rightarrow> bytes" where
  "mem_rremaining ef = drop (rf_pos (snd ef)) (fs_contents (fstate_at (fst ef) (rf_state (snd ef))))"

definition mem_rlive :: "memenv \<times> rfile \<Rightarrow> bool" where
  "mem_rlive ef \<longleftrightarrow> (\<exists>H. env_inv (fst ef) H \<and> H (rf_state (snd ef)) > 0)
     \<and> rf_pos (snd ef) \<le> length (fs_contents (fstate_at (fst ef) (rf_state (snd ef))))"

interpretation mem_wfile: append_file "mem_wapp junk" mem_wflush mem_wcontents mem_wlive for junk
proof
  fix f :: "memenv \<times> wfile" and d
  assume "mem_wlive f"
  then obtain e w H where "f = (e, w)" "env_inv e H" "H (wf_state w) > 0"
    by (cases f) (auto simp: mem_wlive_def)
  then show "\<exists>f'. mem_wapp junk f d = (LDB_OK, f') \<and> mem_wlive f' \<and> mem_wcontents f' = mem_wcontents f @ d"
    using env_inv_append [of e H w junk d]
    by (auto simp: mem_wapp_def mem_wlive_def mem_wcontents_def Let_def case_prod_beta)
qed (auto simp: mem_wflush_def ldb_wfile_flush_def)

lemma fstate_inv_at: "env_inv e H \<Longrightarrow> H i > 0 \<Longrightarrow> fstate_inv (fstate_at e i)"
  using env_invD(3) [of e H i] env_invD(1) [of e H i] by (auto simp: state_ok_def)

interpretation mem_rfile: seq_file mem_rread mem_rskip mem_rremaining mem_rlive
proof
  fix ef :: "memenv \<times> rfile" and n
  assume live: "mem_rlive ef"
  then obtain e f H where ef: "ef = (e, f)" "env_inv e H" "H (rf_state f) > 0"
    by (cases ef) (auto simp: mem_rlive_def)
  note inv = fstate_inv_at [OF ef(2,3)]
  show "\<exists>f'. mem_rread ef n = (LDB_OK, take n (mem_rremaining ef), f')
      \<and> mem_rlive f' \<and> mem_rremaining f' = drop n (mem_rremaining ef)"
    using live ef ldb_fstate_pread_eq [OF inv, of n "rf_pos f"]
    by (auto simp: mem_rread_def mem_rremaining_def mem_rlive_def ldb_rfile_read_def Let_def add.commute min_def)
  show "\<exists>f'. mem_rskip ef n = (LDB_OK, f') \<and> mem_rlive f' \<and> mem_rremaining f' = drop n (mem_rremaining ef)"
    using live ef length_fs_contents [OF inv]
    by (auto simp: mem_rskip_def mem_rremaining_def mem_rlive_def ldb_rfile_skip_def ldb_fstate_size_def
        Let_def add.commute)
qed

section \<open>Reading a whole file\<close>

lemma read_file_loop_eq:
  "mem_rlive (e, f) \<Longrightarrow> read_file_loop e f data = Some (LDB_OK, data @ mem_rremaining (e, f))"
proof (induction "length (mem_rremaining (e, f))" arbitrary: f data rule: less_induct)
  case less
  obtain f' where f': "ldb_rfile_read e f 8192 = (LDB_OK, take 8192 (mem_rremaining (e, f)), f')"
    "mem_rlive (e, f')" "mem_rremaining (e, f') = drop 8192 (mem_rremaining (e, f))"
    using mem_rfile.rd_law [OF less.prems, of 8192] by (auto simp: mem_rread_def Let_def split: prod.splits)
  show ?case
  proof (cases "mem_rremaining (e, f) = []")
    case False
    then have "length (mem_rremaining (e, f')) < length (mem_rremaining (e, f))" using f' by simp
    from less.hyps [OF this f'(2)] show ?thesis
      using False f' by (subst read_file_loop.simps) simp
  qed (use f' in \<open>simp add: read_file_loop.simps\<close>)
qed

lemma ldb_read_file_eq:
  assumes inv: "env_inv e H" and i: "me_files e fn = Some i"
  shows "\<exists>e'. ldb_read_file e fn data = Some ((LDB_OK, fs_contents (fstate_at e i)), e') \<and> env_inv e' H"
proof -
  obtain f e1 where f: "ldb_seqfile_create e fn = Some (f, e1)"
    using i by (auto simp: ldb_seqfile_create_def ldb_rfile_init_def)
  note open1 = env_inv_seqfile [OF inv f]
  have "mem_rlive (e1, f)" unfolding mem_rlive_def using open1
    by (auto intro!: exI [of _ "opened (rf_state f) H"])
  from read_file_loop_eq [OF this, of "[]"] show ?thesis
    using f i open1 env_inv_unref(1) [OF open1(1)]
    by (auto simp: ldb_read_file_def mem_rremaining_def ldb_rfile_destroy_def)
qed

lemma ldb_write_file_eq:
  assumes inv: "env_inv e H" and len: "length fn + 1 \<le> LDB_PATH_MAX"
  shows "\<exists>e' i. ldb_write_file junk e fn d sync = (LDB_OK, e') \<and> env_inv e' H
    \<and> me_files e' fn = Some i \<and> fs_contents (fstate_at e' i) = d"
proof -
  obtain f e1 where f: "ldb_truncfile_create e fn = Inr (f, e1)"
    using len by (cases "ldb_truncfile_create e fn") (auto simp: ldb_truncfile_create_def split: prod.splits)
  note open1 = env_inv_truncfile [OF inv f]
  note app = env_inv_append [OF open1(1), of f junk d]
  define e2 where "e2 = snd (ldb_wfile_append junk e1 f d)"
  have ap: "ldb_wfile_append junk e1 f d = (LDB_OK, e2)" using app by (simp add: e2_def prod_eq_iff)
  have inv2: "env_inv e2 (opened (wf_state f) H)" and files: "me_files e2 fn = Some (wf_state f)"
    and cont: "fs_contents (fstate_at e2 (wf_state f)) = d"
    using app open1 by (auto simp: e2_def)
  obtain s where s: "me_states e2 (wf_state f) = Some s" "fs_path s = fn" using env_invD(2) [OF inv2 files] by auto
  have "fs_refs s > 1" using env_invD(1) [OF inv2 s(1)] s files by (simp add: state_ok_def)
  then have "me_files (ldb_wfile_destroy e2 f) fn = Some (wf_state f)"
    "fs_contents (fstate_at (ldb_wfile_destroy e2 f) (wf_state f)) = d"
    using s files cont by (auto simp: ldb_wfile_destroy_def ldb_fstate_unref_def Let_def fstate_at_def)
  moreover have "env_inv (ldb_wfile_destroy e2 f) H"
    unfolding ldb_wfile_destroy_def by (rule env_inv_unref(1) [OF inv2])
  ultimately show ?thesis using f ap
    by (auto simp: ldb_write_file_def ldb_wfile_sync_def ldb_wfile_close_def)
qed

section \<open>Reachable environments\<close>

text \<open>The states that any sequence of operations by clients holding handles \<^term>\<open>H\<close> can reach.\<close>

inductive mem_reach :: "memenv \<Rightarrow> (nat \<Rightarrow> nat) \<Rightarrow> bool" where
  init: "mem_reach memenv_init (\<lambda>_. 0)"
| remove: "mem_reach e H \<Longrightarrow> mem_reach (snd (ldb_remove_file e fn)) H"
| rename: "mem_reach e H \<Longrightarrow> mem_reach (snd (ldb_rename_file e src dst)) H"
| lock: "mem_reach e H \<Longrightarrow> mem_reach (snd (ldb_lock_file e fn)) H"
| unlock: "mem_reach e H \<Longrightarrow> mem_reach (snd (ldb_unlock_file e fn)) H"
| open_read: "mem_reach e H \<Longrightarrow> ldb_seqfile_create e fn = Some (rf, e') \<Longrightarrow> mem_reach e' (opened (rf_state rf) H)"
| open_trunc: "mem_reach e H \<Longrightarrow> ldb_truncfile_create e fn = Inr (w, e') \<Longrightarrow> mem_reach e' (opened (wf_state w) H)"
| open_append: "mem_reach e H \<Longrightarrow> ldb_appendfile_create e fn = Inr (w, e') \<Longrightarrow> mem_reach e' (opened (wf_state w) H)"
| append: "mem_reach e H \<Longrightarrow> H (wf_state w) > 0 \<Longrightarrow> mem_reach (snd (ldb_wfile_append junk e w d)) H"
| close_read: "mem_reach e (opened (rf_state rf) H) \<Longrightarrow> mem_reach (ldb_rfile_destroy e rf) H"
| close_write: "mem_reach e (opened (wf_state w) H) \<Longrightarrow> mem_reach (ldb_wfile_destroy e w) H"

lemmas env_inv_keep = env_inv_init env_inv_remove env_inv_rename env_inv_locks env_inv_seqfile(1)
  env_inv_truncfile(1) env_inv_appendfile(1) env_inv_append(2) env_inv_unref(1)

lemma mem_reach_inv: "mem_reach e H \<Longrightarrow> env_inv e H"
  by (induction rule: mem_reach.induct; (unfold ldb_rfile_destroy_def ldb_wfile_destroy_def)?;
    blast intro: env_inv_keep)

section \<open>A concrete environment\<close>

text \<open>One file, created and written through a handle, and a second handle that reads it.\<close>

definition sample_created :: "string \<Rightarrow> memenv" where
  "sample_created fn = snd (ldb_wfile_init (snd (memenv_create_file memenv_init fn)) 0)"

definition sample_written :: "string \<Rightarrow> bytes \<Rightarrow> memenv" where
  "sample_written fn d = snd (ldb_wfile_append (\<lambda>_ _. 0) (sample_created fn) \<lparr>wf_state = 0\<rparr> d)"

definition sample_opened :: "string \<Rightarrow> bytes \<Rightarrow> memenv" where
  "sample_opened fn d = ldb_fstate_ref (sample_written fn d) 0"

lemma sample_created:
  "length fn + 1 \<le> LDB_PATH_MAX \<Longrightarrow>
     ldb_truncfile_create memenv_init fn = Inr (\<lparr>wf_state = 0\<rparr>, sample_created fn)"
  by (simp add: ldb_truncfile_create_def sample_created_def memenv_init_def memenv_create_file_def
      ldb_wfile_init_def Let_def)

lemma sample_written:
  assumes "length fn + 1 \<le> LDB_PATH_MAX"
  shows "mem_reach (sample_written fn d) (opened 0 (\<lambda>_. 0))"
    "mem_wlive (sample_written fn d, \<lparr>wf_state = 0\<rparr>)" "mem_wcontents (sample_written fn d, \<lparr>wf_state = 0\<rparr>) = d"
    "me_files (sample_written fn d) fn = Some 0"
proof -
  have r: "mem_reach (sample_created fn) (opened 0 (\<lambda>_. 0))"
    using mem_reach.open_trunc [OF mem_reach.init sample_created [OF assms]] by simp
  show w: "mem_reach (sample_written fn d) (opened 0 (\<lambda>_. 0))"
    using mem_reach.append [OF r, of "\<lparr>wf_state = 0\<rparr>"] by (simp add: sample_written_def)
  note c = env_inv_truncfile [OF env_inv_init sample_created [OF assms]]
  have "opened 0 (\<lambda>_. 0) (wf_state \<lparr>wf_state = 0\<rparr>) > 0" by simp
  note app = env_inv_append [OF mem_reach_inv [OF r] this, of "\<lambda>_ _. 0" d]
  show "mem_wlive (sample_written fn d, \<lparr>wf_state = 0\<rparr>)" "mem_wcontents (sample_written fn d, \<lparr>wf_state = 0\<rparr>) = d"
    "me_files (sample_written fn d) fn = Some 0"
    using mem_reach_inv [OF w] app c unfolding mem_wlive_def mem_wcontents_def sample_written_def
    by (auto intro!: exI [of _ "opened 0 (\<lambda>_. 0)"])
qed

lemma sample_opened:
  assumes "length fn + 1 \<le> LDB_PATH_MAX"
  shows "mem_rlive (sample_opened fn d, \<lparr>rf_state = 0, rf_pos = 0\<rparr>)"
    "mem_rremaining (sample_opened fn d, \<lparr>rf_state = 0, rf_pos = 0\<rparr>) = d"
proof -
  note w = sample_written [OF assms, of d]
  have sq: "ldb_seqfile_create (sample_written fn d) fn = Some (\<lparr>rf_state = 0, rf_pos = 0\<rparr>, sample_opened fn d)"
    using w(4) by (simp add: ldb_seqfile_create_def ldb_rfile_init_def sample_opened_def)
  note s = env_inv_seqfile [OF mem_reach_inv [OF w(1)] sq]
  show "mem_rlive (sample_opened fn d, \<lparr>rf_state = 0, rf_pos = 0\<rparr>)"
    unfolding mem_rlive_def using s(1) by (auto intro!: exI [of _ "opened 0 (opened 0 (\<lambda>_. 0))"])
  show "mem_rremaining (sample_opened fn d, \<lparr>rf_state = 0, rf_pos = 0\<rparr>) = d"
    using s(4) w(3) by (simp add: mem_rremaining_def mem_wcontents_def)
qed

section \<open>Properties\<close>

text \<open>
  C20. In every state that clients of the in-memory environment can reach, a file state exists as
  long as a name or an open handle refers to it and its reference count is the number of these
  references: a handle stays usable after its file is removed or renamed, nothing is freed twice,
  and the assertion in \<^verbatim>\<open>ldb_fstate_unref\<close> holds whenever a handle is closed.
\<close>

theorem memenv_reference_counts:
  assumes "mem_reach e H"
  shows "(\<forall>i s. me_states e i = Some s \<longrightarrow>
        fs_refs s = int (H i) + (if me_files e (fs_path s) = Some i then 1 else 0) \<and> fs_refs s > 0)
    \<and> (\<forall>i. H i > 0 \<longrightarrow> me_states e i \<noteq> None \<and> ldb_fstate_unref_assert e i)
    \<and> (\<forall>p i. me_files e p = Some i \<longrightarrow> (\<exists>s. me_states e i = Some s \<and> fs_path s = p))"
proof (intro conjI allI impI)
  note inv = mem_reach_inv [OF assms]
  fix i s
  {
    assume "me_states e i = Some s"
    from env_invD(1) [OF inv this] show "fs_refs s > 0"
      "fs_refs s = int (H i) + (if me_files e (fs_path s) = Some i then 1 else 0)"
      unfolding state_ok_def by blast+
  }
  assume "H i > 0"
  with env_invD(3) [OF inv this] show "me_states e i \<noteq> None" by auto
  have "H = opened i (H(i := H i - 1))" using \<open>H i > 0\<close> by auto
  with inv show "ldb_fstate_unref_assert e i" by (metis env_inv_unref(2))
qed (rule env_invD(2) [OF mem_reach_inv [OF assms]])

theorem memenv_reference_counts_witness:
  "me_states (snd (ldb_remove_file (sample_written ''a'' [1, 2]) ''a'')) 0 \<noteq> None
   \<and> ldb_fstate_unref_assert (snd (ldb_remove_file (sample_written ''a'' [1, 2]) ''a'')) 0"
proof -
  have "mem_reach (snd (ldb_remove_file (sample_written ''a'' [1, 2]) ''a'')) (opened 0 (\<lambda>_. 0))"
    by (intro mem_reach.remove sample_written(1)) (simp add: LDB_PATH_MAX_def)
  from memenv_reference_counts [OF this, THEN conjunct2, THEN conjunct1, rule_format, of 0]
  show ?thesis by simp
qed

text \<open>
  C21. A file written as a whole is read back as a whole, through the blocks of the file state and
  the chunks of the reader: in any reachable environment and for any name within the path limit,
  \<^verbatim>\<open>ldb_write_file\<close> succeeds, and \<^verbatim>\<open>ldb_read_file\<close> then terminates and returns the same bytes.
\<close>

theorem write_file_read_file:
  assumes "mem_reach e H" "length fname + 1 \<le> LDB_PATH_MAX"
  shows "\<exists>e' e''. ldb_write_file junk e fname data should_sync = (LDB_OK, e')
    \<and> ldb_read_file e' fname buf = Some ((LDB_OK, data), e'')"
  using ldb_write_file_eq [OF mem_reach_inv [OF assms(1)] assms(2), of junk data should_sync]
    ldb_read_file_eq [of _ H fname]
  by blast

theorem write_file_read_file_witness:
  "\<exists>e' e''. ldb_write_file (\<lambda>_ _. 0) memenv_init ''f'' [1, 2] True = (LDB_OK, e')
    \<and> ldb_read_file e' ''f'' [] = Some ((LDB_OK, [1, 2]), e'')"
  using write_file_read_file [OF mem_reach.init, of "''f''"] by (simp add: LDB_PATH_MAX_def)

end
