(* ===== verification/LogWriter.thy ===== *)
theory LogWriter
  imports LogFormat EnvMem
begin

text \<open>
  The log writer (\<^verbatim>\<open>src/src/log_writer.c\<close>), over any file: the operations \<^verbatim>\<open>ldb_wfile_append\<close> and
  \<^verbatim>\<open>ldb_wfile_flush\<close> of the environment are its arguments. An \<^term>\<open>int\<close> holds the block offset, as in
  the source; \<^term>\<open>None\<close> is a failed assertion.
\<close>

section \<open>The writer\<close>

record 'f logwriter =
  lw_file :: 'f
  lw_dst :: "bytes option"
  lw_block_offset :: int
  lw_type_crc :: "u32 list"

definition init_type_crc :: "u32 list" where
  "init_type_crc = map (\<lambda>i. ldb_crc32c_value [word_of_nat i]) [0..<LDB_MAX_RECTYPE + 1]"

definition ldb_logwriter_init :: "'f \<Rightarrow> u64 \<Rightarrow> 'f logwriter" where
  "ldb_logwriter_init file len =
     \<lparr>lw_file = file, lw_dst = None, lw_block_offset = uint (len mod word_of_nat LDB_BLOCK_SIZE),
      lw_type_crc = init_type_crc\<rparr>"

text \<open>\<^verbatim>\<open>emit_physical_record\<close> writes the header and the payload to the file, or to \<^verbatim>\<open>dst\<close>.\<close>

definition emit_physical_record ::
  "('f \<Rightarrow> bytes \<Rightarrow> status \<times> 'f) \<Rightarrow> ('f \<Rightarrow> status \<times> 'f) \<Rightarrow> 'f logwriter \<Rightarrow> rectype \<Rightarrow> bytes
     \<Rightarrow> (status \<times> 'f logwriter) option" where
  "emit_physical_record wappend wflush lw type ptr =
     (if \<not> length ptr \<le> 0xffff then None
      else if \<not> lw_block_offset lw + int LDB_HEADER_SIZE + int (length ptr) \<le> int LDB_BLOCK_SIZE then None
      else
        (let crc = ldb_crc32c_extend (lw_type_crc lw ! rectype_code type) ptr;
             crc = ldb_crc32c_mask crc;
             buf = ldb_fixed32_write crc
                   @ [word_of_nat (length ptr mod 256), word_of_nat (length ptr div 256),
                      word_of_nat (rectype_code type)];
             (rc, lw) =
               (case lw_dst lw of
                  Some dst \<Rightarrow> (LDB_OK, lw\<lparr>lw_dst := Some (dst @ buf @ ptr)\<rparr>)
                | None \<Rightarrow>
                    (let (rc, file) = wappend (lw_file lw) buf
                     in if rc = LDB_OK then
                          (let (rc, file) = wappend file ptr
                           in if rc = LDB_OK then
                                (let (rc, file) = wflush file in (rc, lw\<lparr>lw_file := file\<rparr>))
                              else (rc, lw\<lparr>lw_file := file\<rparr>))
                        else (rc, lw\<lparr>lw_file := file\<rparr>)))
         in Some (rc, lw\<lparr>lw_block_offset := lw_block_offset lw + int (LDB_HEADER_SIZE + length ptr)\<rparr>)))"

text \<open>
  The start of an iteration of \<^verbatim>\<open>ldb_logwriter_add_record\<close>: switch to a new block when a header
  does not fit. A failure to write the trailer is ignored, as in the source.
\<close>

definition switch_block :: "('f \<Rightarrow> bytes \<Rightarrow> status \<times> 'f) \<Rightarrow> 'f logwriter \<Rightarrow> 'f logwriter" where
  "switch_block wappend lw =
     (let leftover = int LDB_BLOCK_SIZE - lw_block_offset lw
      in if leftover < int LDB_HEADER_SIZE then
           (let lw =
              (if leftover > 0 then
                 (let padding = replicate (nat leftover) 0
                  in case lw_dst lw of
                       Some dst \<Rightarrow> lw\<lparr>lw_dst := Some (dst @ padding)\<rparr>
                     | None \<Rightarrow> lw\<lparr>lw_file := snd (wappend (lw_file lw) padding)\<rparr>)
               else lw)
            in lw\<lparr>lw_block_offset := 0\<rparr>)
         else lw)"

lemma emit_block_offset:
  "emit_physical_record wa fl lw t p = Some (rc, lw') \<Longrightarrow>
     lw_block_offset lw' = lw_block_offset lw + int (LDB_HEADER_SIZE + length p)"
  by (auto simp: emit_physical_record_def Let_def split: if_splits option.splits prod.splits)

function add_record_loop ::
  "('f \<Rightarrow> bytes \<Rightarrow> status \<times> 'f) \<Rightarrow> ('f \<Rightarrow> status \<times> 'f) \<Rightarrow> 'f logwriter \<Rightarrow> bool \<Rightarrow> bytes
     \<Rightarrow> (status \<times> 'f logwriter) option" where
  "add_record_loop wappend wflush lw begin ptr =
     (let left = length ptr
      in if \<not> int LDB_BLOCK_SIZE - lw_block_offset lw \<ge> 0 then None
         else
           (let lw = switch_block wappend lw
            in if \<not> int LDB_BLOCK_SIZE - lw_block_offset lw - int LDB_HEADER_SIZE \<ge> 0 then None
               else
                 (let avail = nat (int LDB_BLOCK_SIZE - lw_block_offset lw - int LDB_HEADER_SIZE);
                      fragment_length = (if left < avail then left else avail);
                      finish = (left = fragment_length);
                      type = (if begin \<and> finish then LDB_TYPE_FULL
                              else if begin then LDB_TYPE_FIRST
                              else if finish then LDB_TYPE_LAST
                              else LDB_TYPE_MIDDLE)
                  in case emit_physical_record wappend wflush lw type (take fragment_length ptr) of
                       None \<Rightarrow> None
                     | Some (rc, lw) \<Rightarrow>
                         (let ptr = drop fragment_length ptr
                          in if rc = LDB_OK \<and> length ptr > 0
                             then add_record_loop wappend wflush lw False ptr
                             else Some (rc, lw)))))"
  by pat_completeness auto
termination
proof (relation "measure (\<lambda>(wa, fl, lw, b, p). 2 * length p
    + (if lw_block_offset lw = int LDB_BLOCK_SIZE - int LDB_HEADER_SIZE then 1 else 0))", goal_cases)
  case (2 wa fl lw b ptr)
  then show ?case
    by (auto dest!: emit_block_offset simp: switch_block_def Let_def split: if_splits option.splits)
qed simp

declare add_record_loop.simps [simp del]

definition ldb_logwriter_add_record ::
  "('f \<Rightarrow> bytes \<Rightarrow> status \<times> 'f) \<Rightarrow> ('f \<Rightarrow> status \<times> 'f) \<Rightarrow> 'f logwriter \<Rightarrow> bytes
     \<Rightarrow> (status \<times> 'f logwriter) option" where
  "ldb_logwriter_add_record wappend wflush lw data = add_record_loop wappend wflush lw True data"

text \<open>A client that adds records one after the other until one fails.\<close>

fun add_records ::
  "('f \<Rightarrow> bytes \<Rightarrow> status \<times> 'f) \<Rightarrow> ('f \<Rightarrow> status \<times> 'f) \<Rightarrow> 'f logwriter \<Rightarrow> bytes list
     \<Rightarrow> (status \<times> 'f logwriter) option" where
  "add_records wappend wflush lw [] = Some (LDB_OK, lw)"
| "add_records wappend wflush lw (r # rs) =
     (case ldb_logwriter_add_record wappend wflush lw r of
        None \<Rightarrow> None
      | Some (rc, lw) \<Rightarrow> if rc = LDB_OK then add_records wappend wflush lw rs else Some (rc, lw))"

section \<open>What the writer stores\<close>

lemma word_of_nat_mod_256: "(word_of_nat (n mod 256) :: u8) = word_of_nat n"
  by (simp add: word_unat_eq_iff unat_of_nat take_bit_nat_def)

lemma type_crc_extend:
  "ldb_crc32c_extend (init_type_crc ! rectype_code t) d = ldb_crc32c_value (word_of_nat (rectype_code t) # d)"
proof -
  have "init_type_crc ! rectype_code t = ldb_crc32c_value [word_of_nat (rectype_code t)]"
    by (cases t) (simp_all add: init_type_crc_def upt_conv_Cons)
  then show ?thesis by (simp add: ldb_crc32c_value_def ldb_crc32c_extend_append)
qed

context append_file
begin

definition writer_ok :: "'f logwriter \<Rightarrow> bool" where
  "writer_ok lw \<longleftrightarrow> live (lw_file lw) \<and> lw_dst lw = None \<and> lw_type_crc lw = init_type_crc
     \<and> 0 \<le> lw_block_offset lw \<and> lw_block_offset lw \<le> int LDB_BLOCK_SIZE"

lemma emit_ok:
  assumes "writer_ok lw" "lw_block_offset lw + int (LDB_HEADER_SIZE + length d) \<le> int LDB_BLOCK_SIZE"
  shows "\<exists>lw'. emit_physical_record app flush lw t d = Some (LDB_OK, lw') \<and> writer_ok lw'
    \<and> contents (lw_file lw') = contents (lw_file lw) @ phys_bytes (t, d)
    \<and> lw_block_offset lw' = lw_block_offset lw + int (LDB_HEADER_SIZE + length d)"
proof -
  define buf where "buf = ldb_fixed32_write (ldb_crc32c_mask (ldb_crc32c_value (word_of_nat (rectype_code t) # d)))
     @ [word_of_nat (length d), word_of_nat (length d div 256), word_of_nat (rectype_code t)]"
  obtain f1 where f1: "app (lw_file lw) buf = (LDB_OK, f1)" "live f1" "contents f1 = contents (lw_file lw) @ buf"
    using app_law [of "lw_file lw" buf] assms by (auto simp: writer_ok_def)
  obtain f2 where f2: "app f1 d = (LDB_OK, f2)" "live f2" "contents f2 = contents f1 @ d"
    using app_law [of f1 d] f1 by auto
  obtain f3 where f3: "flush f2 = (LDB_OK, f3)" "live f3" "contents f3 = contents f2"
    using flush_law [of f2] f2 by auto
  have "emit_physical_record app flush lw t d = Some (LDB_OK, lw\<lparr>lw_file := f3,
      lw_block_offset := lw_block_offset lw + int (LDB_HEADER_SIZE + length d)\<rparr>)"
    using assms f1 f2 f3
    by (simp add: emit_physical_record_def writer_ok_def type_crc_extend word_of_nat_mod_256 buf_def [symmetric] Let_def)
  then show ?thesis using assms f1 f2 f3
    by (auto simp: writer_ok_def phys_bytes_def buf_def)
qed

lemma switch_ok:
  assumes "writer_ok lw"
  shows "writer_ok (switch_block app lw)"
    "lw_block_offset (switch_block app lw) = int (record_start (nat (lw_block_offset lw)))"
    "contents (lw_file (switch_block app lw))
       = contents (lw_file lw) @ replicate (block_trailer (nat (lw_block_offset lw))) 0"
proof -
  define n where "n = block_trailer (nat (lw_block_offset lw))"
  obtain f1 where "app (lw_file lw) (replicate n 0) = (LDB_OK, f1)" "live f1"
    "contents f1 = contents (lw_file lw) @ replicate n 0"
    using app_law [of "lw_file lw" "replicate n 0"] assms by (auto simp: writer_ok_def)
  moreover have "nat (int LDB_BLOCK_SIZE - lw_block_offset lw) = n"
    if "int LDB_BLOCK_SIZE - lw_block_offset lw < int LDB_HEADER_SIZE"
    using that assms by (auto simp: n_def block_trailer_def writer_ok_def)
  ultimately show "writer_ok (switch_block app lw)"
    "lw_block_offset (switch_block app lw) = int (record_start (nat (lw_block_offset lw)))"
    "contents (lw_file (switch_block app lw))
       = contents (lw_file lw) @ replicate (block_trailer (nat (lw_block_offset lw))) 0"
    using assms
    by (auto simp: switch_block_def Let_def writer_ok_def record_start_def block_trailer_def n_def split: if_splits)
qed

lemma add_record_loop_ok:
  "writer_ok lw \<Longrightarrow> c = nat (lw_block_offset lw) \<Longrightarrow>
     \<exists>lw'. add_record_loop app flush lw beg xs = Some (LDB_OK, lw') \<and> writer_ok lw'
       \<and> contents (lw_file lw') = contents (lw_file lw) @ layout c (fragments c beg xs)
       \<and> nat (lw_block_offset lw') = layout_end c (fragments c beg xs)"
proof (induction c beg xs arbitrary: lw rule: fragments.induct)
  case (1 c beg xs)
  define lw1 where "lw1 = switch_block app lw"
  define avail where "avail = LDB_BLOCK_SIZE - record_start c - LDB_HEADER_SIZE"
  have c: "c \<le> LDB_BLOCK_SIZE" using "1.prems" by (auto simp: writer_ok_def)
  have lw1: "writer_ok lw1" "lw_block_offset lw1 = int (record_start c)"
    "contents (lw_file lw1) = contents (lw_file lw) @ replicate (block_trailer c) 0"
    using switch_ok "1.prems" by (auto simp: lw1_def)
  have start: "record_start c + LDB_HEADER_SIZE \<le> LDB_BLOCK_SIZE" using c by (rule record_start_le)
  then have avail': "nat (32761 - int (record_start c)) = avail"
    by (simp add: avail_def)
  have pre: "lw_block_offset lw \<le> int LDB_BLOCK_SIZE" using "1.prems" by (simp add: writer_ok_def)
  note unfold = add_record_loop.simps [of app flush lw beg xs] Let_def
  show ?case
  proof (cases "length xs \<le> avail")
    case True
    let ?t = "if beg then LDB_TYPE_FULL else LDB_TYPE_LAST"
    have fits: "lw_block_offset lw1 + int (LDB_HEADER_SIZE + length xs) \<le> int LDB_BLOCK_SIZE"
      using True start lw1(2) unfolding avail_def by linarith
    obtain lw2 where "emit_physical_record app flush lw1 ?t xs = Some (LDB_OK, lw2)" "writer_ok lw2"
      "contents (lw_file lw2) = contents (lw_file lw1) @ phys_bytes (?t, xs)"
      "lw_block_offset lw2 = lw_block_offset lw1 + int (LDB_HEADER_SIZE + length xs)"
      using emit_ok [OF lw1(1) fits, of ?t] by auto
    moreover have "fragments c beg xs = [(?t, xs)]"
      using True by (simp add: fragments.simps [of c beg xs] avail_def Let_def)
    ultimately show ?thesis using True lw1 start pre
      unfolding unfold
      by (cases beg; cases "length xs = avail") (auto simp: lw1_def [symmetric] avail' phys_end_def)
  next
    case False
    let ?t = "if beg then LDB_TYPE_FIRST else LDB_TYPE_MIDDLE"
    have len: "length (take avail xs) = avail" using False by simp
    obtain lw2 where lw2: "emit_physical_record app flush lw1 ?t (take avail xs) = Some (LDB_OK, lw2)" "writer_ok lw2"
      "contents (lw_file lw2) = contents (lw_file lw1) @ phys_bytes (?t, take avail xs)"
      "lw_block_offset lw2 = lw_block_offset lw1 + int (LDB_HEADER_SIZE + avail)"
      using emit_ok [OF lw1(1), of "take avail xs" ?t] lw1 start unfolding len by (auto simp: avail_def)
    then have off2: "LDB_BLOCK_SIZE = nat (lw_block_offset lw2)" using lw1 start by (simp add: avail_def)
    have frag: "fragments c beg xs = (?t, take avail xs) # fragments LDB_BLOCK_SIZE False (drop avail xs)"
      using False by (simp add: fragments.simps [of c beg xs] avail_def Let_def)
    have "\<not> length xs \<le> LDB_BLOCK_SIZE - record_start c - LDB_HEADER_SIZE" using False by (simp add: avail_def)
    from "1.IH" [OF avail_def False lw2(2) off2] obtain lw3 where
      "add_record_loop app flush lw2 False (drop avail xs) = Some (LDB_OK, lw3)" "writer_ok lw3"
      "contents (lw_file lw3) = contents (lw_file lw2) @ layout LDB_BLOCK_SIZE (fragments LDB_BLOCK_SIZE False (drop avail xs))"
      "nat (lw_block_offset lw3) = layout_end LDB_BLOCK_SIZE (fragments LDB_BLOCK_SIZE False (drop avail xs))"
      by auto
    moreover have "phys_end c (?t, take avail xs) = LDB_BLOCK_SIZE"
      using len start by (simp add: phys_end_def avail_def)
    ultimately show ?thesis using False lw1 lw2 start pre unfolding unfold frag
      by (cases beg) (auto simp: lw1_def [symmetric] avail' len)
  qed
qed

lemma add_records_ok:
  "writer_ok lw \<Longrightarrow> c = nat (lw_block_offset lw) \<Longrightarrow>
     \<exists>lw'. add_records app flush lw rs = Some (LDB_OK, lw') \<and> writer_ok lw'
       \<and> contents (lw_file lw') = contents (lw_file lw) @ layout c (records_phys c rs)
       \<and> nat (lw_block_offset lw') = layout_end c (records_phys c rs)"
proof (induction rs arbitrary: lw c)
  case (Cons r rs)
  from add_record_loop_ok [OF Cons.prems, of True r] obtain lw1 where
    lw1: "add_record_loop app flush lw True r = Some (LDB_OK, lw1)" "writer_ok lw1"
    "contents (lw_file lw1) = contents (lw_file lw) @ layout c (fragments c True r)"
    "layout_end c (fragments c True r) = nat (lw_block_offset lw1)" by auto
  from Cons.IH [OF this(2,4)] show ?case using lw1
    by (auto simp: ldb_logwriter_add_record_def layout_append)
qed auto

lemma writer_ok_init: "live f \<Longrightarrow> writer_ok (ldb_logwriter_init f len)"
proof -
  have "uint (len mod 32768) < 32768" by (simp add: uint_mod)
  then show "live f \<Longrightarrow> ?thesis" by (simp add: writer_ok_def ldb_logwriter_init_def)
qed

end

end
