(* ===== verification/LogReader.thy ===== *)
theory LogReader
  imports LogFormat EnvMem
begin

text \<open>
  The log reader (\<^verbatim>\<open>src/src/log_reader.c\<close>), over any file: \<^verbatim>\<open>ldb_rfile_read\<close> and
  \<^verbatim>\<open>ldb_rfile_skip\<close> are its arguments. The reporter is a callback of the client: the model keeps the
  list of the calls it receives, and \<^term>\<open>None\<close> is a null reporter. Offsets are 64-bit words and wrap
  as in the source. The main loop is a partial function, since nothing bounds it for an arbitrary
  file; that it ends on every file that meets the contract of a sequential file is proved below.
\<close>

section \<open>The reader\<close>

record 'f logreader =
  lr_file :: 'f
  lr_src :: "bytes option"
  lr_error :: status
  lr_reporter :: "(u64 \<times> status) list option"
  lr_checksum :: bool
  lr_buffer :: bytes
  lr_eof :: bool
  lr_last_offset :: u64
  lr_end_offset :: u64
  lr_initial_offset :: u64
  lr_resyncing :: bool

abbreviation LDB_EOF :: nat where
  "LDB_EOF \<equiv> LDB_MAX_RECTYPE + 1"

abbreviation LDB_BAD_RECORD :: nat where
  "LDB_BAD_RECORD \<equiv> LDB_MAX_RECTYPE + 2"

definition ldb_logreader_init ::
  "'f \<Rightarrow> (u64 \<times> status) list option \<Rightarrow> bool \<Rightarrow> u64 \<Rightarrow> 'f logreader" where
  "ldb_logreader_init file reporter checksum initial_offset =
     \<lparr>lr_file = file, lr_src = None, lr_error = LDB_OK, lr_reporter = reporter,
      lr_checksum = checksum, lr_buffer = [], lr_eof = False, lr_last_offset = 0,
      lr_end_offset = 0, lr_initial_offset = initial_offset, lr_resyncing = (initial_offset > 0)\<rparr>"

definition report_drop :: "'f logreader \<Rightarrow> u64 \<Rightarrow> status \<Rightarrow> 'f logreader" where
  "report_drop lr bytes reason =
     (case lr_reporter lr of
        None \<Rightarrow> lr
      | Some calls \<Rightarrow>
          if lr_end_offset lr - word_of_nat (length (lr_buffer lr)) - bytes \<ge> lr_initial_offset lr
          then lr\<lparr>lr_reporter := Some (calls @ [(bytes, reason)])\<rparr>
          else lr)"

definition report_corruption :: "'f logreader \<Rightarrow> nat \<Rightarrow> 'f logreader" where
  "report_corruption lr bytes = report_drop lr (word_of_nat bytes) LDB_CORRUPTION"

text \<open>The read of the next block inside \<^verbatim>\<open>read_physical_record\<close>.\<close>

definition read_block :: "('f \<Rightarrow> nat \<Rightarrow> status \<times> bytes \<times> 'f) \<Rightarrow> 'f logreader \<Rightarrow> status \<times> 'f logreader" where
  "read_block rread lr =
     (let lr = lr\<lparr>lr_buffer := []\<rparr>;
          (rc, lr) =
            (if lr_error lr \<noteq> LDB_OK then (lr_error lr, lr)
             else case lr_src lr of
                    Some src \<Rightarrow>
                      (let nread = min LDB_BLOCK_SIZE (length src)
                       in (LDB_OK, lr\<lparr>lr_buffer := take nread src, lr_src := Some (drop nread src)\<rparr>))
                  | None \<Rightarrow>
                      (let (rc, buffer, file) = rread (lr_file lr) LDB_BLOCK_SIZE
                       in (rc, lr\<lparr>lr_buffer := buffer, lr_file := file\<rparr>)))
      in (rc, lr\<lparr>lr_end_offset := lr_end_offset lr + word_of_nat (length (lr_buffer lr))\<rparr>))"

text \<open>
  The second half of \<^verbatim>\<open>read_physical_record\<close>, when the buffer holds a header. The result is the
  record type or special value, and \<^verbatim>\<open>*result\<close> where the function sets it.
\<close>

definition parse_physical_record :: "'f logreader \<Rightarrow> nat \<times> bytes option \<times> 'f logreader" where
  "parse_physical_record lr =
     (let header = lr_buffer lr;
          a = ucast (header ! 4) AND 0xff :: u32;
          b = ucast (header ! 5) AND 0xff :: u32;
          type = unat (header ! 6);
          len = unat (a OR push_bit 8 b)
      in if LDB_HEADER_SIZE + len > length (lr_buffer lr) then
           (let drop_size = length (lr_buffer lr);
                lr = lr\<lparr>lr_buffer := []\<rparr>
            in if \<not> lr_eof lr then (LDB_BAD_RECORD, None, report_corruption lr drop_size)
               else (LDB_EOF, None, lr))
         else if type = rectype_code LDB_TYPE_ZERO \<and> len = 0 then
           (LDB_BAD_RECORD, None, lr\<lparr>lr_buffer := []\<rparr>)
         else if lr_checksum lr
             \<and> ldb_crc32c_value (take (1 + len) (drop 6 header))
               \<noteq> ldb_crc32c_unmask (ldb_fixed32_decode header) then
           (let drop_size = length (lr_buffer lr);
                lr = lr\<lparr>lr_buffer := []\<rparr>
            in (LDB_BAD_RECORD, None, report_corruption lr drop_size))
         else
           (let lr = lr\<lparr>lr_buffer := drop (LDB_HEADER_SIZE + len) (lr_buffer lr)\<rparr>
            in if lr_end_offset lr - word_of_nat (length (lr_buffer lr)) - word_of_nat LDB_HEADER_SIZE
                    - word_of_nat len < lr_initial_offset lr
               then (LDB_BAD_RECORD, Some [], lr)
               else (type, Some (take len (drop LDB_HEADER_SIZE header)), lr)))"

text \<open>The source's loop runs its first branch at most once: a block that is not full sets \<^verbatim>\<open>eof\<close>.\<close>

function read_physical_record ::
  "('f \<Rightarrow> nat \<Rightarrow> status \<times> bytes \<times> 'f) \<Rightarrow> 'f logreader \<Rightarrow> nat \<times> bytes option \<times> 'f logreader" where
  "read_physical_record rread lr =
     (if length (lr_buffer lr) < LDB_HEADER_SIZE then
        (if \<not> lr_eof lr then
           (case read_block rread lr of
              (rc, lr) \<Rightarrow>
                if rc \<noteq> LDB_OK then
                  (let lr = report_drop (lr\<lparr>lr_buffer := []\<rparr>) (word_of_nat LDB_BLOCK_SIZE) rc
                   in (LDB_EOF, None, lr\<lparr>lr_eof := True\<rparr>))
                else
                  (let lr = (if length (lr_buffer lr) < LDB_BLOCK_SIZE then lr\<lparr>lr_eof := True\<rparr> else lr)
                   in read_physical_record rread lr))
         else (LDB_EOF, None, lr\<lparr>lr_buffer := []\<rparr>))
      else parse_physical_record lr)"
  by pat_completeness auto
termination
  by (relation "measure (\<lambda>(rread, lr). if length (lr_buffer lr) < LDB_HEADER_SIZE \<and> \<not> lr_eof lr then 1 else 0)")
    (auto simp: Let_def)

declare read_physical_record.simps [simp del]

definition skip_to_initial_block ::
  "('f \<Rightarrow> nat \<Rightarrow> status \<times> 'f) \<Rightarrow> 'f logreader \<Rightarrow> bool \<times> 'f logreader" where
  "skip_to_initial_block rskip lr =
     (let offset_in_block = lr_initial_offset lr mod word_of_nat LDB_BLOCK_SIZE;
          block_start = lr_initial_offset lr - offset_in_block;
          block_start = (if offset_in_block > word_of_nat (LDB_BLOCK_SIZE - 6)
                         then block_start + word_of_nat LDB_BLOCK_SIZE else block_start);
          lr = lr\<lparr>lr_end_offset := block_start\<rparr>
      in if block_start > 0 then
           (let (rc, lr) =
              (case lr_src lr of
                 Some src \<Rightarrow>
                   (let nskip = min (unat block_start) (length src)
                    in (LDB_OK, lr\<lparr>lr_src := Some (drop nskip src)\<rparr>))
               | None \<Rightarrow>
                   (let (rc, file) = rskip (lr_file lr) (unat block_start)
                    in (rc, lr\<lparr>lr_file := file\<rparr>)))
            in if rc \<noteq> LDB_OK then (False, report_drop lr block_start rc) else (True, lr))
         else (True, lr))"

text \<open>
  One iteration of the loop of \<^verbatim>\<open>ldb_logreader_read_record\<close>: it returns 1 with a record or 0
  (\<^term>\<open>Return None\<close>), or goes on with new values of \<^verbatim>\<open>in_fragmented_record\<close>,
  \<^verbatim>\<open>prospective_offset\<close> and \<^verbatim>\<open>scratch\<close>. A fragment that was not set has no use in the branches that
  are then taken; it is the empty list there.
\<close>

datatype 'f read_step = Return "bytes option" "'f logreader" | Continue "'f logreader" bool u64 bytes

definition read_record_step ::
  "('f \<Rightarrow> nat \<Rightarrow> status \<times> bytes \<times> 'f) \<Rightarrow> 'f logreader \<Rightarrow> bool \<Rightarrow> u64 \<Rightarrow> bytes \<Rightarrow> 'f read_step" where
  "read_record_step rread lr in_fragmented_record prospective_offset scratch =
     (let (record_type, result, lr) = read_physical_record rread lr;
          fragment = (case result of None \<Rightarrow> [] | Some d \<Rightarrow> d);
          physical_offset = lr_end_offset lr - word_of_nat (length (lr_buffer lr))
            - word_of_nat LDB_HEADER_SIZE - word_of_nat (length fragment)
      in
      if lr_resyncing lr \<and> record_type = rectype_code LDB_TYPE_MIDDLE then
        Continue lr in_fragmented_record prospective_offset scratch
      else if lr_resyncing lr \<and> record_type = rectype_code LDB_TYPE_LAST then
        Continue (lr\<lparr>lr_resyncing := False\<rparr>) in_fragmented_record prospective_offset scratch
      else
        (let lr = lr\<lparr>lr_resyncing := False\<rparr>
         in
         if record_type = rectype_code LDB_TYPE_FULL then
           (let lr = (if in_fragmented_record \<and> length scratch > 0
                      then report_corruption lr (length scratch) else lr)
            in Return (Some fragment) (lr\<lparr>lr_last_offset := physical_offset\<rparr>))
         else if record_type = rectype_code LDB_TYPE_FIRST then
           (let lr = (if in_fragmented_record \<and> length scratch > 0
                      then report_corruption lr (length scratch) else lr)
            in Continue lr True physical_offset fragment)
         else if record_type = rectype_code LDB_TYPE_MIDDLE then
           (if \<not> in_fragmented_record
            then Continue (report_corruption lr (length fragment))
                   in_fragmented_record prospective_offset scratch
            else Continue lr in_fragmented_record prospective_offset (scratch @ fragment))
         else if record_type = rectype_code LDB_TYPE_LAST then
           (if \<not> in_fragmented_record
            then Continue (report_corruption lr (length fragment))
                   in_fragmented_record prospective_offset scratch
            else Return (Some (scratch @ fragment)) (lr\<lparr>lr_last_offset := prospective_offset\<rparr>))
         else if record_type = LDB_EOF then Return None lr
         else if record_type = LDB_BAD_RECORD then
           (if in_fragmented_record
            then Continue (report_corruption lr (length scratch)) False prospective_offset []
            else Continue lr in_fragmented_record prospective_offset scratch)
         else
           Continue (report_corruption lr
                       (length fragment + (if in_fragmented_record then length scratch else 0)))
             False prospective_offset []))"

partial_function (option) read_record_loop ::
  "('f \<Rightarrow> nat \<Rightarrow> status \<times> bytes \<times> 'f) \<Rightarrow> 'f logreader \<Rightarrow> bool \<Rightarrow> u64 \<Rightarrow> bytes
     \<Rightarrow> (bytes option \<times> 'f logreader) option" where
  "read_record_loop rread lr in_fragmented_record prospective_offset scratch =
     (case read_record_step rread lr in_fragmented_record prospective_offset scratch of
        Return r lr \<Rightarrow> Some (r, lr)
      | Continue lr in_fragmented_record prospective_offset scratch \<Rightarrow>
          read_record_loop rread lr in_fragmented_record prospective_offset scratch)"

definition ldb_logreader_read_record ::
  "('f \<Rightarrow> nat \<Rightarrow> status \<times> bytes \<times> 'f) \<Rightarrow> ('f \<Rightarrow> nat \<Rightarrow> status \<times> 'f) \<Rightarrow> 'f logreader
     \<Rightarrow> (bytes option \<times> 'f logreader) option" where
  "ldb_logreader_read_record rread rskip lr =
     (let (ok, lr) = (if lr_last_offset lr < lr_initial_offset lr
                      then skip_to_initial_block rskip lr else (True, lr))
      in if \<not> ok then Some (None, lr) else read_record_loop rread lr False 0 [])"

definition ldb_logreader_last_offset :: "'f logreader \<Rightarrow> u64" where
  "ldb_logreader_last_offset lr = lr_last_offset lr"

text \<open>
  The loop of every client (recovery, repair, dumps): read records until the reader returns 0.
\<close>

partial_function (option) read_all ::
  "('f \<Rightarrow> nat \<Rightarrow> status \<times> bytes \<times> 'f) \<Rightarrow> ('f \<Rightarrow> nat \<Rightarrow> status \<times> 'f) \<Rightarrow> 'f logreader
     \<Rightarrow> bytes list \<Rightarrow> (bytes list \<times> 'f logreader) option" where
  "read_all rread rskip lr acc =
     (case ldb_logreader_read_record rread rskip lr of
        None \<Rightarrow> None
      | Some res \<Rightarrow>
          (case fst res of
             None \<Rightarrow> Some (acc, snd res)
           | Some r \<Rightarrow> read_all rread rskip (snd res) (acc @ [r])))"

section \<open>Parsing one physical record\<close>

lemma length_field:
  assumes "n < 65536"
  shows "unat ((ucast (word_of_nat n :: u8) AND 0xff) OR push_bit 8 (ucast (word_of_nat (n div 256) :: u8) AND 0xff) :: u32) = n"
proof -
  let ?w = "word_of_nat n :: u32"
  have bits: "ucast (word_of_nat n :: u8) = take_bit 8 ?w"
    "ucast (word_of_nat (n div 256) :: u8) = take_bit 8 (drop_bit 8 ?w)"
    using assms by (simp_all add: word_unat_eq_iff unsigned_ucast_eq unat_take_bit_nat unat_drop_bit_nat
        unat_of_nat take_bit_nat_def)
  have "take_bit 8 ?w OR push_bit 8 (take_bit 8 (drop_bit 8 ?w)) = take_bit 16 ?w"
    by (rule bit_word_eqI) (auto simp: bit_simps)
  then show ?thesis using assms
    by (simp add: bits word_and_255 unat_take_bit_nat unat_of_nat take_bit_nat_def)
qed

lemma phys_bytes_nth:
  "(phys_bytes (t, d) @ b) ! 4 = word_of_nat (length d)"
  "(phys_bytes (t, d) @ b) ! 5 = word_of_nat (length d div 256)"
  "(phys_bytes (t, d) @ b) ! 6 = word_of_nat (rectype_code t)"
  "ldb_fixed32_decode (phys_bytes (t, d) @ b)
     = ldb_crc32c_mask (ldb_crc32c_value (word_of_nat (rectype_code t) # d))"
  "drop 6 (phys_bytes (t, d) @ b) = word_of_nat (rectype_code t) # d @ b"
  by (simp_all add: phys_bytes_def nth_append)

lemma unat_rectype: "unat (word_of_nat (rectype_code t) :: u8) = rectype_code t"
  by (cases t) auto

lemma rectype_code_0: "rectype_code t = 0 \<longleftrightarrow> t = LDB_TYPE_ZERO"
  by (cases t) auto

lemma parse_ok:
  assumes "lr_buffer lr = phys_bytes (t, d) @ b" "length d < 65536" "t \<noteq> LDB_TYPE_ZERO"
    and "lr_initial_offset lr = 0"
  shows "parse_physical_record lr = (rectype_code t, Some d, lr\<lparr>lr_buffer := b\<rparr>)"
  using assms length_field [of "length d"]
  by (simp add: parse_physical_record_def Let_def phys_bytes_nth unat_rectype rectype_code_0
      length_phys_bytes) (simp add: phys_bytes_def)

text \<open>A record that is cut short at the end of the file is not an error.\<close>

lemma parse_cut:
  assumes "prefix (lr_buffer lr) (phys_bytes (t, d))" "lr_buffer lr \<noteq> phys_bytes (t, d)"
    and "LDB_HEADER_SIZE \<le> length (lr_buffer lr)" "length d < 65536" "lr_eof lr"
  shows "parse_physical_record lr = (LDB_EOF, None, lr\<lparr>lr_buffer := []\<rparr>)"
proof -
  obtain z where z: "phys_bytes (t, d) = lr_buffer lr @ z" "z \<noteq> []"
    using assms(1,2) by (auto simp: prefix_def)
  have nth: "lr_buffer lr ! k = phys_bytes (t, d) ! k" if "k < 7" for k
    using that assms(3) z by (simp add: nth_append)
  have "length (lr_buffer lr) < LDB_HEADER_SIZE + length d"
    using z length_phys_bytes [of t d] by (cases z) (simp_all add: z(1))
  moreover have "lr_buffer lr ! 4 = word_of_nat (length d)" "lr_buffer lr ! 5 = word_of_nat (length d div 256)"
    using nth phys_bytes_nth(1,2) [of t d "[]"] by simp_all
  ultimately show ?thesis using assms(4,5) length_field [of "length d"]
    by (simp add: parse_physical_record_def Let_def)
qed

section \<open>Reading what was laid out\<close>

text \<open>What a read may not change: everything but the file, the buffer and the offsets.\<close>

definition same_reports :: "'f logreader \<Rightarrow> 'f logreader \<Rightarrow> bool" where
  "same_reports lr lr' \<longleftrightarrow> lr_reporter lr' = lr_reporter lr \<and> lr_checksum lr' = lr_checksum lr
     \<and> lr_resyncing lr' = lr_resyncing lr \<and> lr_initial_offset lr' = lr_initial_offset lr"

lemma same_reports_trans: "same_reports a b \<Longrightarrow> same_reports b c \<Longrightarrow> same_reports a c"
  by (simp add: same_reports_def)

context seq_file
begin

text \<open>The bytes the reader has not consumed yet.\<close>

definition stream :: "'f logreader \<Rightarrow> bytes" where
  "stream lr = lr_buffer lr @ remaining (lr_file lr)"

text \<open>
  The reader stands at offset \<^term>\<open>c\<close> of a block: until the end of the file the buffer reaches to
  the end of the block. (At the start the reader stands at the end of an empty block.)
\<close>

definition reader_at :: "nat \<Rightarrow> 'f logreader \<Rightarrow> bool" where
  "reader_at c lr \<longleftrightarrow> live (lr_file lr) \<and> lr_src lr = None \<and> lr_error lr = LDB_OK
     \<and> lr_initial_offset lr = 0 \<and> c \<le> LDB_BLOCK_SIZE
     \<and> (if lr_eof lr then remaining (lr_file lr) = [] \<and> length (lr_buffer lr) \<le> LDB_BLOCK_SIZE - c
        else length (lr_buffer lr) = LDB_BLOCK_SIZE - c)"

lemma reader_at_init:
  "live f \<Longrightarrow> reader_at LDB_BLOCK_SIZE (ldb_logreader_init f rep ck 0)"
  "stream (ldb_logreader_init f rep ck 0) = remaining f"
  by (simp_all add: reader_at_def ldb_logreader_init_def stream_def)

lemma reader_update [simp]:
  "reader_at c (lr\<lparr>lr_last_offset := o1\<rparr>) = reader_at c lr" "stream (lr\<lparr>lr_last_offset := o1\<rparr>) = stream lr"
  "reader_at c (lr\<lparr>lr_resyncing := b\<rparr>) = reader_at c lr" "stream (lr\<lparr>lr_resyncing := b\<rparr>) = stream lr"
  "same_reports lr' (lr\<lparr>lr_last_offset := o1\<rparr>) = same_reports lr' lr"
  by (simp_all add: reader_at_def stream_def same_reports_def)

lemma read_block_ok:
  assumes "live (lr_file lr)" "lr_src lr = None" "lr_error lr = LDB_OK"
  shows "\<exists>f'. read_block rd lr = (LDB_OK, lr\<lparr>lr_buffer := take LDB_BLOCK_SIZE (remaining (lr_file lr)),
      lr_file := f', lr_end_offset := lr_end_offset lr
        + word_of_nat (length (take LDB_BLOCK_SIZE (remaining (lr_file lr))))\<rparr>)
    \<and> live f' \<and> remaining f' = drop LDB_BLOCK_SIZE (remaining (lr_file lr))"
proof -
  obtain f' where "rd (lr_file lr) LDB_BLOCK_SIZE = (LDB_OK, take LDB_BLOCK_SIZE (remaining (lr_file lr)), f')"
    "live f'" "remaining f' = drop LDB_BLOCK_SIZE (remaining (lr_file lr))"
    using rd_law [OF assms(1), of LDB_BLOCK_SIZE] by blast
  then show ?thesis using assms by (intro exI [of _ f']) (simp add: read_block_def Let_def)
qed

text \<open>A buffer too short for a header is a trailer: the next block is read in its place.\<close>

lemma refill:
  assumes "reader_at c lr" "\<not> lr_eof lr" "LDB_BLOCK_SIZE - c < LDB_HEADER_SIZE"
  shows "\<exists>lr'. read_physical_record rd lr = read_physical_record rd lr' \<and> reader_at 0 lr'
    \<and> stream lr' = remaining (lr_file lr) \<and> same_reports lr lr'
    \<and> (length (remaining (lr_file lr)) < LDB_BLOCK_SIZE \<longrightarrow> lr_eof lr')"
proof -
  let ?r = "remaining (lr_file lr)"
  obtain f' where f': "read_block rd lr = (LDB_OK, lr\<lparr>lr_buffer := take LDB_BLOCK_SIZE ?r,
      lr_file := f', lr_end_offset := lr_end_offset lr + word_of_nat (length (take LDB_BLOCK_SIZE ?r))\<rparr>)"
    "live f'" "remaining f' = drop LDB_BLOCK_SIZE ?r"
    using read_block_ok [of lr] assms by (auto simp: reader_at_def)
  let ?lr = "lr\<lparr>lr_buffer := take LDB_BLOCK_SIZE ?r, lr_file := f',
      lr_end_offset := lr_end_offset lr + word_of_nat (length (take LDB_BLOCK_SIZE ?r)),
      lr_eof := length ?r < LDB_BLOCK_SIZE\<rparr>"
  have eof: "lr1\<lparr>lr_eof := False\<rparr> = lr1" if "\<not> lr_eof lr1" for lr1 :: "'f logreader"
    using that by simp
  have "read_physical_record rd lr = read_physical_record rd ?lr"
  proof (cases "length ?r < LDB_BLOCK_SIZE")
    case True
    then show ?thesis using assms f'
      by (subst read_physical_record.simps) (simp add: reader_at_def Let_def)
  next
    case False
    then have "length (take LDB_BLOCK_SIZE ?r) = LDB_BLOCK_SIZE" by simp
    then show ?thesis using assms f' False
      by (subst read_physical_record.simps) (simp add: reader_at_def Let_def eof)
  qed
  moreover have "reader_at 0 ?lr" "stream ?lr = ?r" "same_reports lr ?lr"
    using assms f' by (auto simp: reader_at_def stream_def same_reports_def)
  ultimately show ?thesis by auto
qed

lemma replicate_append_drop: "replicate n x @ ys = b @ zs \<Longrightarrow> length b = n \<Longrightarrow> zs = ys"
  by (metis append_eq_append_conv length_replicate)

lemma phys_step:
  assumes at: "reader_at c lr" and fits: "phys_fits c (t, d)"
    and s: "stream lr = replicate (block_trailer c) 0 @ phys_bytes (t, d) @ rest"
  shows "\<exists>lr'. read_physical_record rd lr = (rectype_code t, Some d, lr')
    \<and> reader_at (phys_end c (t, d)) lr' \<and> stream lr' = rest \<and> same_reports lr lr'"
proof -
  have noskip: ?thesis
    if as: "reader_at k lr1" "same_reports lr lr1" "read_physical_record rd lr = read_physical_record rd lr1"
      "stream lr1 = phys_bytes (t, d) @ rest" "k + LDB_HEADER_SIZE + length d \<le> LDB_BLOCK_SIZE"
      "phys_end c (t, d) = k + LDB_HEADER_SIZE + length d" for k lr1
  proof -
    have "length (phys_bytes (t, d)) \<le> length (lr_buffer lr1)"
      using as by (cases "lr_eof lr1") (auto simp: reader_at_def stream_def)
    then obtain b where b: "lr_buffer lr1 = phys_bytes (t, d) @ b" "rest = b @ remaining (lr_file lr1)"
      using as(4) by (metis (no_types, lifting) append_assoc append_eq_append_conv_if append_take_drop_id
          same_append_eq stream_def)
    then have "read_physical_record rd lr1 = (rectype_code t, Some d, lr1\<lparr>lr_buffer := b\<rparr>)"
      using as fits parse_ok [OF b(1)]
      by (subst read_physical_record.simps) (auto simp: phys_fits_def reader_at_def)
    moreover have "reader_at (phys_end c (t, d)) (lr1\<lparr>lr_buffer := b\<rparr>)"
      using as b by (auto simp: reader_at_def split: if_splits)
    ultimately show ?thesis using as b by (auto simp: stream_def same_reports_def)
  qed
  have end_le: "phys_end c (t, d) \<le> LDB_BLOCK_SIZE" using fits by (simp add: phys_fits_def)
  show ?thesis
  proof (cases "LDB_BLOCK_SIZE - c < LDB_HEADER_SIZE")
    case False
    then show ?thesis using at s end_le
      by (intro noskip [of c lr]) (auto simp: same_reports_def block_trailer_def phys_end_def record_start_def)
  next
    case True
    have "\<not> lr_eof lr"
    proof
      assume "lr_eof lr"
      with at have "length (stream lr) \<le> LDB_BLOCK_SIZE - c" by (simp add: stream_def reader_at_def)
      with s True show False by simp
    qed
    then obtain lr1 where lr1: "read_physical_record rd lr = read_physical_record rd lr1" "reader_at 0 lr1"
      "stream lr1 = remaining (lr_file lr)" "same_reports lr lr1"
      using refill [OF at _ True] by blast
    have "length (lr_buffer lr) = block_trailer c"
      using at True \<open>\<not> lr_eof lr\<close> by (simp add: block_trailer_def reader_at_def)
    then have "stream lr1 = phys_bytes (t, d) @ rest"
      using s lr1(3) replicate_append_drop [of "block_trailer c" 0 "phys_bytes (t, d) @ rest" "lr_buffer lr"]
      by (simp add: stream_def)
    then show ?thesis using lr1 end_le True
      by (intro noskip [of 0 lr1]) (auto simp: phys_end_def record_start_def)
  qed
qed

lemma phys_eof:
  assumes at: "reader_at c lr" and fits: "phys_fits c (t, d)"
    and s: "prefix (stream lr) (replicate (block_trailer c) 0 @ phys_bytes (t, d))"
    and cut: "length (stream lr) < block_trailer c + length (phys_bytes (t, d))"
  shows "\<exists>lr'. read_physical_record rd lr = (LDB_EOF, None, lr') \<and> same_reports lr lr'"
proof -
  have short: "length d < 65536" using fits by (simp add: phys_fits_def phys_end_def)
  have at_end: ?thesis
    if as: "same_reports lr lr1" "read_physical_record rd lr = read_physical_record rd lr1"
      "lr_eof lr1" "prefix (lr_buffer lr1) (phys_bytes (t, d))" "lr_buffer lr1 \<noteq> phys_bytes (t, d)" for lr1
  proof (cases "length (lr_buffer lr1) < LDB_HEADER_SIZE")
    case True
    then show ?thesis using as by (subst as(2), subst read_physical_record.simps) (auto simp: same_reports_def)
  next
    case False
    then show ?thesis using as short parse_cut [OF as(4,5)]
      by (subst as(2), subst read_physical_record.simps) (auto simp: same_reports_def)
  qed
  have end_le: "phys_end c (t, d) \<le> LDB_BLOCK_SIZE" using fits by (simp add: phys_fits_def)
  show ?thesis
  proof (cases "LDB_BLOCK_SIZE - c < LDB_HEADER_SIZE")
    case False
    have "lr_eof lr"
    proof (rule ccontr)
      assume "\<not> lr_eof lr"
      with at have "LDB_BLOCK_SIZE - c \<le> length (stream lr)" by (simp add: stream_def reader_at_def)
      with cut end_le False show False by (simp add: block_trailer_def phys_end_def record_start_def)
    qed
    then have "stream lr = lr_buffer lr" using at by (simp add: stream_def reader_at_def)
    then show ?thesis using s cut False \<open>lr_eof lr\<close>
      by (intro at_end [of lr]) (auto simp: same_reports_def block_trailer_def)
  next
    case True
    show ?thesis
    proof (cases "lr_eof lr")
      case eof: True
      then have "length (lr_buffer lr) < LDB_HEADER_SIZE" using at True by (auto simp: reader_at_def)
      then show ?thesis using eof by (subst read_physical_record.simps) (simp add: same_reports_def)
    next
      case eof: False
      then obtain lr1 where lr1: "read_physical_record rd lr = read_physical_record rd lr1" "reader_at 0 lr1"
        "stream lr1 = remaining (lr_file lr)" "same_reports lr lr1"
        "length (remaining (lr_file lr)) < LDB_BLOCK_SIZE \<longrightarrow> lr_eof lr1"
        using refill [OF at _ True] by blast
      have lb: "length (lr_buffer lr) = block_trailer c"
        using at True eof by (simp add: block_trailer_def reader_at_def)
      obtain z where "replicate (block_trailer c) 0 @ phys_bytes (t, d) = lr_buffer lr @ stream lr1 @ z"
        using s by (auto simp: prefix_def stream_def [of lr] lr1(3))
      from replicate_append_drop [OF this lb] have p: "prefix (stream lr1) (phys_bytes (t, d))"
        by (metis prefixI)
      have len: "length (stream lr1) < length (phys_bytes (t, d))"
        using cut lb lr1(3) by (simp add: stream_def)
      have "length (phys_bytes (t, d)) \<le> LDB_BLOCK_SIZE" using end_le by (simp add: phys_end_def)
      then have "lr_eof lr1" using len lr1 by simp
      then have "stream lr1 = lr_buffer lr1" using lr1(2) by (simp add: stream_def reader_at_def)
      then show ?thesis using lr1 p len \<open>lr_eof lr1\<close> by (intro at_end [of lr1]) auto
    qed
  qed
qed

lemma phys_end_of_stream:
  assumes "reader_at c lr" "stream lr = []"
  shows "\<exists>lr'. read_physical_record rd lr = (LDB_EOF, None, lr') \<and> same_reports lr lr'"
  using assms record_start_le [of c]
  by (intro phys_eof [of c lr LDB_TYPE_FULL "[]"]) (auto simp: phys_fits_def phys_end_def reader_at_def)

section \<open>Reading logical records\<close>

lemma record_eof:
  assumes "read_physical_record rd lr = (LDB_EOF, None, lr')" "same_reports lr lr'" "\<not> lr_resyncing lr"
  shows "\<exists>lr'. read_record_loop rd lr fr off scr = Some (None, lr') \<and> same_reports lr lr'"
  using assms
  by (subst read_record_loop.simps) (auto simp: read_record_step_def Let_def same_reports_def)

lemma resyncing_off: "\<not> lr_resyncing lr \<Longrightarrow> lr\<lparr>lr_resyncing := False\<rparr> = lr"
  by simp

lemma loop_full:
  "read_physical_record rd lr = (rectype_code LDB_TYPE_FULL, Some d, lr1) \<Longrightarrow> \<not> lr_resyncing lr1 \<Longrightarrow>
     \<exists>off'. read_record_loop rd lr False off scr = Some (Some d, lr1\<lparr>lr_last_offset := off'\<rparr>)"
  by (subst read_record_loop.simps) (auto simp add: read_record_step_def Let_def resyncing_off)

lemma loop_first:
  "read_physical_record rd lr = (rectype_code LDB_TYPE_FIRST, Some d, lr1) \<Longrightarrow> \<not> lr_resyncing lr1 \<Longrightarrow>
     \<exists>off'. read_record_loop rd lr False off scr = read_record_loop rd lr1 True off' d"
  by (subst read_record_loop.simps) (auto simp add: read_record_step_def Let_def resyncing_off)

lemma loop_middle:
  "read_physical_record rd lr = (rectype_code LDB_TYPE_MIDDLE, Some d, lr1) \<Longrightarrow> \<not> lr_resyncing lr1 \<Longrightarrow>
     read_record_loop rd lr True off scr = read_record_loop rd lr1 True off (scr @ d)"
  by (subst read_record_loop.simps) (simp add: read_record_step_def Let_def resyncing_off)

lemma loop_last:
  "read_physical_record rd lr = (rectype_code LDB_TYPE_LAST, Some d, lr1) \<Longrightarrow> \<not> lr_resyncing lr1 \<Longrightarrow>
     read_record_loop rd lr True off scr = Some (Some (scr @ d), lr1\<lparr>lr_last_offset := off\<rparr>)"
  by (subst read_record_loop.simps) (simp add: read_record_step_def Let_def resyncing_off)

lemma record_ok:
  "reader_at c lr \<Longrightarrow> \<not> lr_resyncing lr \<Longrightarrow> stream lr = layout c (fragments c beg xs) @ rest \<Longrightarrow>
     (beg \<Longrightarrow> scr = []) \<Longrightarrow>
     \<exists>lr'. read_record_loop rd lr (\<not> beg) off scr = Some (Some (scr @ xs), lr')
       \<and> reader_at (layout_end c (fragments c beg xs)) lr' \<and> stream lr' = rest \<and> same_reports lr lr'"
proof (induction c beg xs arbitrary: lr off scr rule: fragments.induct)
  case (1 c beg xs)
  define avail where "avail = LDB_BLOCK_SIZE - record_start c - LDB_HEADER_SIZE"
  have ok: "layout_ok c (fragments c beg xs)"
    using fragments_layout_ok "1.prems"(1) by (auto simp: reader_at_def)
  show ?case
  proof (cases "length xs \<le> avail")
    case True
    let ?p = "(if beg then LDB_TYPE_FULL else LDB_TYPE_LAST, xs)"
    have frag: "fragments c beg xs = [?p]"
      using True by (simp add: fragments.simps [of c beg xs] avail_def Let_def)
    obtain lr' where "read_physical_record rd lr = (rectype_code (fst ?p), Some xs, lr')"
      "reader_at (phys_end c ?p) lr'" "stream lr' = rest" "same_reports lr lr'"
      using phys_step [of c lr "fst ?p" xs rest] "1.prems" ok by (auto simp: frag)
    moreover have "\<not> lr_resyncing lr'"
      using \<open>same_reports lr lr'\<close> "1.prems"(2) by (simp add: same_reports_def)
    ultimately have "\<exists>off'. read_record_loop rd lr (\<not> beg) off scr = Some (Some (scr @ xs), lr'\<lparr>lr_last_offset := off'\<rparr>)"
      using "1.prems"(4) loop_full [of lr xs lr' off scr] loop_last [of lr xs lr' off scr] by (cases beg) auto
    then show ?thesis using \<open>reader_at (phys_end c ?p) lr'\<close> \<open>stream lr' = rest\<close> \<open>same_reports lr lr'\<close>
      unfolding frag by auto
  next
    case False
    let ?p = "(if beg then LDB_TYPE_FIRST else LDB_TYPE_MIDDLE, take avail xs)"
    have frag: "fragments c beg xs = ?p # fragments LDB_BLOCK_SIZE False (drop avail xs)"
      using False by (simp add: fragments.simps [of c beg xs] avail_def Let_def)
    have pe: "phys_end c ?p = LDB_BLOCK_SIZE"
      using False record_start_le [of c] "1.prems"(1) by (simp add: phys_end_def avail_def reader_at_def)
    let ?rest = "layout LDB_BLOCK_SIZE (fragments LDB_BLOCK_SIZE False (drop avail xs)) @ rest"
    obtain lr1 where lr1: "read_physical_record rd lr = (rectype_code (fst ?p), Some (take avail xs), lr1)"
      "reader_at LDB_BLOCK_SIZE lr1" "stream lr1 = ?rest" "same_reports lr lr1"
      using phys_step [of c lr "fst ?p" "take avail xs" ?rest] "1.prems" ok pe by (auto simp: frag)
    have sync: "\<not> lr_resyncing lr1" using lr1(4) "1.prems"(2) by (simp add: same_reports_def)
    have "\<exists>off'. read_record_loop rd lr (\<not> beg) off scr
        = read_record_loop rd lr1 True off' (scr @ take avail xs)"
      using lr1(1) "1.prems"(4) sync loop_first [of lr "take avail xs" lr1 off scr]
        loop_middle [of lr "take avail xs" lr1 off scr] by (cases beg) auto
    then obtain off' where "read_record_loop rd lr (\<not> beg) off scr
        = read_record_loop rd lr1 True off' (scr @ take avail xs)" ..
    moreover from "1.IH" [OF avail_def False lr1(2) sync lr1(3), of "scr @ take avail xs" off'] obtain lr' where
      "read_record_loop rd lr1 True off' (scr @ take avail xs) = Some (Some (scr @ xs), lr')"
      "reader_at (layout_end LDB_BLOCK_SIZE (fragments LDB_BLOCK_SIZE False (drop avail xs))) lr'"
      "stream lr' = rest" "same_reports lr1 lr'" by auto
    ultimately show ?thesis using lr1(4) pe same_reports_trans unfolding frag by auto
  qed
qed

lemma strict_prefix_split:
  assumes "strict_prefix s (a @ b)"
  obtains (inside) "prefix s a" "length s < length a" | (past) s' where "s = a @ s'" "strict_prefix s' b"
proof (cases "length s < length a")
  case True
  then have "prefix s a" using assms
    by (metis prefix_length_prefix prefix_order.less_imp_le prefixI less_imp_le)
  with True show ?thesis by (intro inside)
next
  case False
  then have "prefix a s" using assms
    by (metis linorder_not_less prefix_length_prefix prefix_order.less_imp_le prefixI)
  then obtain s' where "s = a @ s'" by (auto simp: prefix_def)
  with assms show ?thesis by (auto intro: past simp: strict_prefix_def)
qed

lemma record_cut:
  "reader_at c lr \<Longrightarrow> \<not> lr_resyncing lr \<Longrightarrow> strict_prefix (stream lr) (layout c (fragments c beg xs)) \<Longrightarrow>
     \<exists>lr'. read_record_loop rd lr (\<not> beg) off scr = Some (None, lr') \<and> same_reports lr lr'"
proof (induction c beg xs arbitrary: lr off scr rule: fragments.induct)
  case (1 c beg xs)
  define avail where "avail = LDB_BLOCK_SIZE - record_start c - LDB_HEADER_SIZE"
  have ok: "layout_ok c (fragments c beg xs)"
    using fragments_layout_ok "1.prems"(1) by (auto simp: reader_at_def)
  have cut: ?case if "phys_fits c (t, d)" "prefix (stream lr) (replicate (block_trailer c) 0 @ phys_bytes (t, d))"
    "length (stream lr) < length (replicate (block_trailer c) (0::u8) @ phys_bytes (t, d))" for t d
    using phys_eof [OF "1.prems"(1) that(1,2)] that(3) record_eof "1.prems"(2) by fastforce
  show ?case
  proof (cases "length xs \<le> avail")
    case True
    let ?t = "if beg then LDB_TYPE_FULL else LDB_TYPE_LAST"
    have frag: "fragments c beg xs = [(?t, xs)]"
      using True by (simp add: fragments.simps [of c beg xs] avail_def Let_def)
    have p: "strict_prefix (stream lr) (replicate (block_trailer c) 0 @ phys_bytes (?t, xs))"
      using "1.prems"(3) by (simp add: frag)
    then show ?thesis using ok prefix_length_less [OF p]
      by (intro cut [of ?t xs]) (auto simp: frag strict_prefix_def)
  next
    case False
    let ?t = "if beg then LDB_TYPE_FIRST else LDB_TYPE_MIDDLE"
    let ?d = "take avail xs"
    have frag: "fragments c beg xs = (?t, ?d) # fragments LDB_BLOCK_SIZE False (drop avail xs)"
      using False by (simp add: fragments.simps [of c beg xs] avail_def Let_def)
    have fits: "phys_fits c (?t, ?d)" using ok by (simp add: frag)
    have pe: "phys_end c (?t, ?d) = LDB_BLOCK_SIZE"
      using False record_start_le [of c] "1.prems"(1) by (simp add: phys_end_def avail_def reader_at_def)
    let ?rest = "layout LDB_BLOCK_SIZE (fragments LDB_BLOCK_SIZE False (drop avail xs))"
    have "strict_prefix (stream lr) ((replicate (block_trailer c) 0 @ phys_bytes (?t, ?d)) @ ?rest)"
      using "1.prems"(3) pe unfolding frag by simp
    then show ?thesis
    proof (cases rule: strict_prefix_split)
      case inside
      then show ?thesis using fits by (intro cut [of ?t ?d]) auto
    next
      case (past s')
      then obtain lr1 where lr1: "read_physical_record rd lr = (rectype_code ?t, Some ?d, lr1)"
        "reader_at LDB_BLOCK_SIZE lr1" "stream lr1 = s'" "same_reports lr lr1"
        using phys_step [of c lr ?t ?d s'] "1.prems" fits pe by auto
      have sync: "\<not> lr_resyncing lr1" using lr1(4) "1.prems"(2) by (simp add: same_reports_def)
      have "\<exists>off' scr'. read_record_loop rd lr (\<not> beg) off scr = read_record_loop rd lr1 True off' scr'"
        using lr1(1) sync loop_first [of lr ?d lr1 off scr] loop_middle [of lr ?d lr1 off scr]
        by (cases beg) auto
      then obtain off' scr' where
        "read_record_loop rd lr (\<not> beg) off scr = read_record_loop rd lr1 (\<not> False) off' scr'" by auto
      moreover obtain lr' where "read_record_loop rd lr1 (\<not> False) off' scr' = Some (None, lr')" "same_reports lr1 lr'"
        using "1.IH" [OF avail_def False lr1(2) sync] lr1(3) past(2) by blast
      ultimately show ?thesis using lr1(4) same_reports_trans by auto
    qed
  qed
qed

lemma no_skip: "lr_initial_offset lr = 0 \<Longrightarrow>
    ldb_logreader_read_record rd skip lr = read_record_loop rd lr False 0 []"
  by (simp add: ldb_logreader_read_record_def)

text \<open>
  Reading a log that was cut after any number of bytes returns the records that were written
  completely, in order, and reports nothing.
\<close>

lemma read_all_prefix:
  "reader_at c lr \<Longrightarrow> \<not> lr_resyncing lr \<Longrightarrow> stream lr = take n (layout c (records_phys c rs)) \<Longrightarrow>
     \<exists>k lr'. read_all rd skip lr acc = Some (acc @ take k rs, lr') \<and> same_reports lr lr'
       \<and> k \<le> length rs
       \<and> (k \<noteq> 0 \<longrightarrow> length (layout c (records_phys c (take k rs))) \<le> n)
       \<and> (k < length rs \<longrightarrow> n < length (layout c (records_phys c (take (Suc k) rs))))"
proof (induction rs arbitrary: c lr n acc)
  case Nil
  then obtain lr' where "read_record_loop rd lr False 0 [] = Some (None, lr')" "same_reports lr lr'"
    using phys_end_of_stream [of c lr] record_eof by fastforce
  then show ?case using Nil
    by (subst read_all.simps) (auto simp: no_skip reader_at_def)
next
  case (Cons r rs)
  let ?f = "fragments c True r" and ?c = "layout_end c (fragments c True r)"
  have init: "lr_initial_offset lr = 0" using Cons.prems(1) by (simp add: reader_at_def)
  have s: "stream lr = take n (layout c ?f @ layout ?c (records_phys ?c rs))"
    using Cons.prems(3) by (simp add: layout_append)
  show ?case
  proof (cases "n < length (layout c ?f)")
    case True
    then have "strict_prefix (stream lr) (layout c ?f)"
      using s by (auto simp: strict_prefix_def take_is_prefix)
    then obtain lr' where "read_record_loop rd lr False 0 [] = Some (None, lr')" "same_reports lr lr'"
      using record_cut [OF Cons.prems(1,2), of True r 0 "[]"] by auto
    then show ?thesis using True
      by (subst read_all.simps) (auto simp: no_skip [OF init] intro!: exI [of _ 0])
  next
    case False
    let ?n = "n - length (layout c ?f)"
    obtain lr' where lr': "read_record_loop rd lr False 0 [] = Some (Some r, lr')" "reader_at ?c lr'"
      "stream lr' = take ?n (layout ?c (records_phys ?c rs))" "same_reports lr lr'"
      using record_ok [OF Cons.prems(1,2), of True r "take ?n (layout ?c (records_phys ?c rs))" "[]" 0] s False
      by auto
    then have "\<not> lr_resyncing lr'" using Cons.prems(2) by (simp add: same_reports_def)
    from Cons.IH [OF lr'(2) this lr'(3), of "acc @ [r]"] obtain k lr2 where
      k: "read_all rd skip lr' (acc @ [r]) = Some ((acc @ [r]) @ take k rs, lr2)" "same_reports lr' lr2"
        "k \<le> length rs" "k \<noteq> 0 \<longrightarrow> length (layout ?c (records_phys ?c (take k rs))) \<le> ?n"
        "k < length rs \<longrightarrow> ?n < length (layout ?c (records_phys ?c (take (Suc k) rs)))"
      by blast
    have "read_all rd skip lr acc = Some (acc @ take (Suc k) (r # rs), lr2)"
      using lr' k by (subst read_all.simps) (simp add: no_skip [OF init])
    moreover have "length (layout c (records_phys c (take (Suc k) (r # rs)))) \<le> n"
      using k(4) False by (cases k) (auto simp: layout_append)
    moreover have "Suc k < length (r # rs) \<longrightarrow> n < length (layout c (records_phys c (take (Suc (Suc k)) (r # rs))))"
      using k(5) False by (auto simp: layout_append)
    ultimately show ?thesis using k(2,3) lr'(4) same_reports_trans
      by (intro exI [of _ "Suc k"] exI [of _ lr2]) auto
  qed
qed

section \<open>The reader ends on every input\<close>

definition usable :: "'f logreader \<Rightarrow> bool" where
  "usable lr \<longleftrightarrow> live (lr_file lr) \<and> lr_src lr = None \<and> lr_error lr = LDB_OK"

lemma report_frame [simp]:
  "lr_file (report_drop lr n s) = lr_file lr" "lr_src (report_drop lr n s) = lr_src lr"
  "lr_error (report_drop lr n s) = lr_error lr" "lr_buffer (report_drop lr n s) = lr_buffer lr"
  "lr_file (report_corruption lr k) = lr_file lr" "lr_src (report_corruption lr k) = lr_src lr"
  "lr_error (report_corruption lr k) = lr_error lr" "lr_buffer (report_corruption lr k) = lr_buffer lr"
  by (simp_all add: report_drop_def report_corruption_def split: option.splits)

lemma parse_decreases:
  assumes "LDB_HEADER_SIZE \<le> length (lr_buffer lr)" "parse_physical_record lr = (ty, res, lr')"
  shows "length (lr_buffer lr') < length (lr_buffer lr)" "lr_file lr' = lr_file lr"
    "lr_src lr' = lr_src lr" "lr_error lr' = lr_error lr"
  using assms by (auto simp: parse_physical_record_def Let_def split: if_splits)

lemma phys_decreases:
  assumes "usable lr" "read_physical_record rd lr = (ty, res, lr')"
  shows "usable lr' \<and> length (stream lr') \<le> length (stream lr)
    \<and> (ty = LDB_EOF \<or> length (stream lr') < length (stream lr))"
proof -
  have parse: "usable lr' \<and> length (stream lr') < length (stream lr1)"
    if "usable lr1" "LDB_HEADER_SIZE \<le> length (lr_buffer lr1)" "parse_physical_record lr1 = (ty, res, lr')" for lr1
    using that parse_decreases [OF that(2,3)] by (auto simp: usable_def stream_def)
  have final: "usable lr' \<and> length (stream lr') \<le> length (stream lr1)
      \<and> (ty = LDB_EOF \<or> length (stream lr') < length (stream lr1))"
    if "usable lr1" "lr_eof lr1 \<or> LDB_HEADER_SIZE \<le> length (lr_buffer lr1)"
      "read_physical_record rd lr1 = (ty, res, lr')" for lr1
  proof (cases "length (lr_buffer lr1) < LDB_HEADER_SIZE")
    case True
    then show ?thesis using that
      by (simp add: read_physical_record.simps [of rd lr1]) (auto simp: usable_def stream_def)
  next
    case False
    then show ?thesis using that parse [of lr1]
      by (simp add: read_physical_record.simps [of rd lr1])
  qed
  show ?thesis
  proof (cases "lr_eof lr \<or> LDB_HEADER_SIZE \<le> length (lr_buffer lr)")
    case True
    then show ?thesis using final assms by blast
  next
    case False
    let ?r = "remaining (lr_file lr)"
    obtain f' where f': "read_block rd lr = (LDB_OK, lr\<lparr>lr_buffer := take LDB_BLOCK_SIZE ?r,
      lr_file := f', lr_end_offset := lr_end_offset lr + word_of_nat (length (take LDB_BLOCK_SIZE ?r))\<rparr>)"
      "live f'" "remaining f' = drop LDB_BLOCK_SIZE ?r"
      using read_block_ok [of lr] assms by (auto simp: usable_def)
    define lr0 where "lr0 = lr\<lparr>lr_buffer := take LDB_BLOCK_SIZE ?r,
      lr_file := f', lr_end_offset := lr_end_offset lr + word_of_nat (length (take LDB_BLOCK_SIZE ?r))\<rparr>"
    define lr1 where "lr1 = (if length (lr_buffer lr0) < LDB_BLOCK_SIZE then lr0\<lparr>lr_eof := True\<rparr> else lr0)"
    have "read_physical_record rd lr = read_physical_record rd lr1"
      using False f'(1) [folded lr0_def] by (subst read_physical_record.simps) (simp add: lr1_def Let_def)
    moreover have "usable lr1" "length (stream lr1) \<le> length (stream lr)"
      "lr_eof lr1 \<or> LDB_HEADER_SIZE \<le> length (lr_buffer lr1)"
      using assms f' by (auto simp: lr1_def lr0_def usable_def stream_def)
    ultimately show ?thesis using final [of lr1] assms(2) by auto
  qed
qed

lemma usable_update [simp]:
  "usable (lr\<lparr>lr_last_offset := o1\<rparr>) = usable lr" "usable (lr\<lparr>lr_resyncing := b\<rparr>) = usable lr"
  "usable (report_corruption lr k) = usable lr" "stream (report_corruption lr k) = stream lr"
  by (simp_all add: usable_def stream_def)

lemma step_decreases:
  assumes "usable lr"
  shows "read_record_step rd lr fr off scr = Continue lr' fr' off' scr' \<Longrightarrow>
      usable lr' \<and> length (stream lr') < length (stream lr)"
    and "read_record_step rd lr fr off scr = Return r lr' \<Longrightarrow>
      usable lr' \<and> (r \<noteq> None \<longrightarrow> length (stream lr') < length (stream lr))"
proof -
  obtain ty res lr1 where p: "read_physical_record rd lr = (ty, res, lr1)" by (metis prod_cases3)
  note d = phys_decreases [OF assms p]
  show "read_record_step rd lr fr off scr = Continue lr' fr' off' scr' \<Longrightarrow>
      usable lr' \<and> length (stream lr') < length (stream lr)"
    using d by (auto simp: read_record_step_def p Let_def split: if_splits)
  show "read_record_step rd lr fr off scr = Return r lr' \<Longrightarrow>
      usable lr' \<and> (r \<noteq> None \<longrightarrow> length (stream lr') < length (stream lr))"
    using d by (auto simp: read_record_step_def p Let_def split: if_splits)
qed

lemma loop_ends:
  "usable lr \<Longrightarrow> \<exists>r lr'. read_record_loop rd lr fr off scr = Some (r, lr') \<and> usable lr'
     \<and> (r \<noteq> None \<longrightarrow> length (stream lr') < length (stream lr))"
proof (induction "length (stream lr)" arbitrary: lr fr off scr rule: less_induct)
  case less
  show ?case
  proof (cases "read_record_step rd lr fr off scr")
    case (Return r lr')
    then show ?thesis using step_decreases(2) [OF less.prems Return]
      by (subst read_record_loop.simps) simp
  next
    case (Continue lr1 fr1 off1 scr1)
    note d = step_decreases(1) [OF less.prems Continue]
    from less.hyps [of lr1 fr1 off1 scr1] d obtain r lr' where
      "read_record_loop rd lr1 fr1 off1 scr1 = Some (r, lr')" "usable lr'"
      "r \<noteq> None \<longrightarrow> length (stream lr') < length (stream lr1)" by blast
    then show ?thesis using Continue d by (subst read_record_loop.simps) auto
  qed
qed

lemma read_record_ends:
  assumes "usable lr"
  shows "\<exists>r lr'. ldb_logreader_read_record rd skip lr = Some (r, lr') \<and> usable lr'
    \<and> (r \<noteq> None \<longrightarrow> length (stream lr') < length (stream lr))"
proof -
  have skip: "\<exists>lr1. skip_to_initial_block skip lr = (True, lr1) \<and> usable lr1
      \<and> length (stream lr1) \<le> length (stream lr)"
  proof -
    define n where "n = (let offset_in_block = lr_initial_offset lr mod word_of_nat LDB_BLOCK_SIZE;
          block_start = lr_initial_offset lr - offset_in_block
      in if offset_in_block > word_of_nat (LDB_BLOCK_SIZE - 6)
         then block_start + word_of_nat LDB_BLOCK_SIZE else block_start)"
    obtain f' where "skip (lr_file lr) (unat n) = (LDB_OK, f')" "live f'"
      "remaining f' = drop (unat n) (remaining (lr_file lr))"
      using skip_law [of "lr_file lr" "unat n"] assms by (auto simp: usable_def)
    then show ?thesis using assms
      by (simp add: skip_to_initial_block_def usable_def n_def Let_def) (auto simp: stream_def)
  qed
  then obtain lr1 where "skip_to_initial_block skip lr = (True, lr1)" "usable lr1"
    "length (stream lr1) \<le> length (stream lr)" by blast
  then show ?thesis using assms loop_ends [of lr1 False 0 "[]"] loop_ends [of lr False 0 "[]"]
    by (auto simp: ldb_logreader_read_record_def)
qed

lemma read_all_ends: "usable lr \<Longrightarrow> \<exists>rs lr'. read_all rd skip lr acc = Some (rs, lr')"
proof (induction "length (stream lr)" arbitrary: lr acc rule: less_induct)
  case less
  from read_record_ends [OF less.prems] obtain r lr' where
    r: "ldb_logreader_read_record rd skip lr = Some (r, lr')" "usable lr'"
      "r \<noteq> None \<longrightarrow> length (stream lr') < length (stream lr)" by blast
  then show ?case using less.hyps [of lr']
    by (subst read_all.simps) (cases r; auto)
qed

lemma usable_init: "live f \<Longrightarrow> usable (ldb_logreader_init f rep ck off)"
  by (simp add: usable_def ldb_logreader_init_def)

end

end
