(* ===== verification/Log.thy ===== *)
theory Log
  imports LogWriter LogReader
begin

text \<open>
  The log as a whole: what the writer stores in a file of the in-memory environment, and what the
  reader returns from such a file, complete or cut short by a crash.
\<close>

section \<open>The bytes of a log\<close>

definition log_bytes :: "bytes list \<Rightarrow> bytes" where
  "log_bytes rs = layout 0 (records_phys 0 rs)"

lemma fragments_block_end: "fragments LDB_BLOCK_SIZE beg xs = fragments 0 beg xs"
  by (subst fragments.simps, subst (2) fragments.simps) (simp add: record_start_def)

lemma layout_block_end: "layout LDB_BLOCK_SIZE ps = layout 0 ps"
  "ps \<noteq> [] \<Longrightarrow> layout_end LDB_BLOCK_SIZE ps = layout_end 0 ps"
  by (cases ps; simp add: block_trailer_def phys_end_def record_start_def)+

lemma fragments_nonempty: "fragments c beg xs \<noteq> []"
  by (simp add: fragments.simps [of c beg xs] Let_def)

lemma records_block_end: "records_phys LDB_BLOCK_SIZE rs = records_phys 0 rs"
  by (cases rs) (simp_all add: fragments_block_end layout_block_end(2) fragments_nonempty)

lemma records_phys_append:
  "records_phys c (rs @ ss) = records_phys c rs @ records_phys (layout_end c (records_phys c rs)) ss"
  by (induction rs arbitrary: c) (simp_all add: layout_append)

lemma block_trailer_start:
  "c \<le> LDB_BLOCK_SIZE \<Longrightarrow> (c + block_trailer c) mod LDB_BLOCK_SIZE = record_start c mod LDB_BLOCK_SIZE"
  by (auto simp: block_trailer_def record_start_def)

lemma layout_length_mod:
  "layout_ok c ps \<Longrightarrow> c \<le> LDB_BLOCK_SIZE \<Longrightarrow>
     (c + length (layout c ps)) mod LDB_BLOCK_SIZE = layout_end c ps mod LDB_BLOCK_SIZE
     \<and> layout_end c ps \<le> LDB_BLOCK_SIZE"
proof (induction ps arbitrary: c)
  case (Cons p ps)
  obtain t d where p: "p = (t, d)" by (cases p)
  have "(c + length (layout c (p # ps))) mod LDB_BLOCK_SIZE
      = ((c + block_trailer c) + (LDB_HEADER_SIZE + length d + length (layout (phys_end c p) ps))) mod LDB_BLOCK_SIZE"
    by (simp add: p ac_simps)
  also have "\<dots> = (record_start c + (LDB_HEADER_SIZE + length d + length (layout (phys_end c p) ps))) mod LDB_BLOCK_SIZE"
    using block_trailer_start [OF Cons.prems(2)] by (rule mod_add_cong) simp
  also have "\<dots> = (phys_end c p + length (layout (phys_end c p) ps)) mod LDB_BLOCK_SIZE"
    by (simp add: p phys_end_def ac_simps)
  finally show ?case using Cons by (simp add: phys_fits_def)
qed simp

text \<open>
  A log that is reopened for appending: the writer starts from the length of the file modulo the
  block size, which continues the layout.
\<close>

lemma log_bytes_append:
  "log_bytes (rs @ ss) = log_bytes rs @ layout (length (log_bytes rs) mod LDB_BLOCK_SIZE)
     (records_phys (length (log_bytes rs) mod LDB_BLOCK_SIZE) ss)"
proof -
  define c where "c = layout_end 0 (records_phys 0 rs)"
  have "length (log_bytes rs) mod LDB_BLOCK_SIZE = c mod LDB_BLOCK_SIZE" and "c \<le> LDB_BLOCK_SIZE"
    using layout_length_mod [OF records_phys_ok, of 0 rs] by (simp_all add: log_bytes_def c_def)
  moreover have "layout (c mod LDB_BLOCK_SIZE) (records_phys (c mod LDB_BLOCK_SIZE) ss) = layout c (records_phys c ss)"
  proof (cases "c = LDB_BLOCK_SIZE")
    case True
    then show ?thesis using layout_block_end(1) records_block_end by (simp only: mod_self)
  next
    case False
    with \<open>c \<le> LDB_BLOCK_SIZE\<close> show ?thesis by simp
  qed
  ultimately show ?thesis
    by (simp add: log_bytes_def records_phys_append layout_append c_def [symmetric])
qed

section \<open>Writing\<close>

lemma logwriter_init_offset:
  "n < 2 ^ 64 \<Longrightarrow> nat (lw_block_offset (ldb_logwriter_init f (word_of_nat n))) = n mod LDB_BLOCK_SIZE"
  by (simp add: ldb_logwriter_init_def uint_mod nat_mod_distrib unsigned_of_nat take_bit_nat_eq_self
      of_nat_mod flip: unat_eq_nat_uint)

context append_file
begin

lemma log_append:
  assumes "live f" "contents f = log_bytes rs" "length (log_bytes rs) < 2 ^ 64"
  shows "\<exists>lw. add_records app flush (ldb_logwriter_init f (word_of_nat (length (contents f)))) ss = Some (LDB_OK, lw)
    \<and> live (lw_file lw) \<and> contents (lw_file lw) = log_bytes (rs @ ss)"
  using add_records_ok [OF writer_ok_init refl, of f "word_of_nat (length (contents f))" ss] assms
    logwriter_init_offset [OF assms(3), of f]
  by (auto simp: log_bytes_append writer_ok_def) (auto simp: ldb_logwriter_init_def)

end

section \<open>Reading\<close>

context seq_file
begin

lemma log_read_prefix:
  assumes "live f" "remaining f = take n (log_bytes rs)"
  shows "\<exists>k lr. read_all rd skip (ldb_logreader_init f rep ck 0) [] = Some (take k rs, lr)
    \<and> lr_reporter lr = rep \<and> k \<le> length rs \<and> length (log_bytes (take k rs)) \<le> n
    \<and> (k < length rs \<longrightarrow> n < length (log_bytes (take (Suc k) rs)))"
proof -
  let ?lr = "ldb_logreader_init f rep ck 0"
  have "log_bytes xs = layout LDB_BLOCK_SIZE (records_phys LDB_BLOCK_SIZE xs)" for xs
    by (simp add: log_bytes_def layout_block_end records_block_end)
  moreover have "log_bytes [] = []" by (simp add: log_bytes_def)
  ultimately obtain k lr where
    "read_all rd skip ?lr [] = Some ([] @ take k rs, lr)" "same_reports ?lr lr" "k \<le> length rs"
    "k \<noteq> 0 \<longrightarrow> length (log_bytes (take k rs)) \<le> n"
    "k < length rs \<longrightarrow> n < length (log_bytes (take (Suc k) rs))"
    using read_all_prefix [OF reader_at_init(1) [OF assms(1)], of rep ck n rs "[]"] assms(2) reader_at_init(2)
    by (auto simp: ldb_logreader_init_def)
  moreover have "length (log_bytes (take k rs)) \<le> n" if "k = 0"
    using that \<open>log_bytes [] = []\<close> by simp
  ultimately show ?thesis
    by (intro exI [of _ k] exI [of _ lr]) (auto simp: same_reports_def ldb_logreader_init_def)
qed

lemma log_read_all:
  assumes "live f" "remaining f = log_bytes rs"
  shows "\<exists>lr. read_all rd skip (ldb_logreader_init f rep ck 0) [] = Some (rs, lr) \<and> lr_reporter lr = rep"
proof -
  obtain k lr where k: "read_all rd skip (ldb_logreader_init f rep ck 0) [] = Some (take k rs, lr)"
    "lr_reporter lr = rep" "k \<le> length rs"
    "k < length rs \<longrightarrow> length (log_bytes rs) < length (log_bytes (take (Suc k) rs))"
    using log_read_prefix [OF assms(1), of "length (log_bytes rs)" rs rep ck] assms(2) by auto
  have "length (log_bytes (take (Suc k) rs)) \<le> length (log_bytes rs)"
    using log_bytes_append [of "take (Suc k) rs" "drop (Suc k) rs"] by (metis append_take_drop_id length_append le_add1)
  with k have "k = length rs" by simp
  with k show ?thesis by simp
qed

end

section \<open>Logs in the in-memory environment\<close>

text \<open>A file that is open for writing under the name \<^term>\<open>fn\<close>, with handles \<^term>\<open>H\<close> open.\<close>

definition mem_wnamed :: "string \<Rightarrow> (nat \<Rightarrow> nat) \<Rightarrow> wfile \<Rightarrow> memenv \<times> wfile \<Rightarrow> bool" where
  "mem_wnamed fn H w ef \<longleftrightarrow> snd ef = w \<and> env_inv (fst ef) H \<and> H (wf_state w) > 0
     \<and> me_files (fst ef) fn = Some (wf_state w)"

interpretation named: append_file "mem_wapp junk" mem_wflush mem_wcontents "mem_wnamed fn H w" for junk fn H w
proof
  fix f :: "memenv \<times> wfile" and d
  assume "mem_wnamed fn H w f"
  then show "\<exists>f'. mem_wapp junk f d = (LDB_OK, f') \<and> mem_wnamed fn H w f' \<and> mem_wcontents f' = mem_wcontents f @ d"
    using env_inv_append [of "fst f" H w junk d]
    by (cases f) (auto simp: mem_wapp_def mem_wnamed_def mem_wcontents_def Let_def case_prod_beta)
qed (auto simp: mem_wflush_def ldb_wfile_flush_def split: prod.splits)

section \<open>Properties\<close>

text \<open>
  C18. A log writer that is opened on a file holding a log appends to it: whatever the records, no
  assertion of the writer fails, every write succeeds, and the file then holds the log of all
  records, old and new. (The length of the file is passed as a 64-bit number.)
\<close>

theorem log_writer_appends:
  assumes "mem_wlive f" "mem_wcontents f = log_bytes rs" "length (log_bytes rs) < 2 ^ 64"
  shows "\<exists>lw. add_records (mem_wapp junk) mem_wflush
      (ldb_logwriter_init f (word_of_nat (length (mem_wcontents f)))) ss = Some (LDB_OK, lw)
    \<and> mem_wcontents (lw_file lw) = log_bytes (rs @ ss)"
  using mem_wfile.log_append [OF assms] by blast

theorem log_writer_appends_witness:
  "\<exists>lw. add_records (mem_wapp (\<lambda>_ _. 0)) mem_wflush
      (ldb_logwriter_init (sample_written ''log'' (log_bytes []), \<lparr>wf_state = 0\<rparr>)
         (word_of_nat (length (mem_wcontents (sample_written ''log'' (log_bytes []), \<lparr>wf_state = 0\<rparr>)))))
      [[1, 2, 3]] = Some (LDB_OK, lw)
    \<and> mem_wcontents (lw_file lw) = log_bytes ([] @ [[1, 2, 3]])"
  by (rule log_writer_appends) (simp_all add: sample_written LDB_PATH_MAX_def log_bytes_def)

text \<open>
  C1. What is written to a log is read back from it. In any reachable environment, a log is created
  under a name, records are added, and the file is opened for reading: the reader returns exactly the
  records that were added, in order, then reports the end of the file, and reports no corruption,
  with and without checksum verification.
\<close>

theorem log_write_read:
  assumes "mem_reach e H" "ldb_truncfile_create e fn = Inr (w, e1)"
  shows "\<exists>lw e2 r e3 lr. add_records (mem_wapp junk) mem_wflush (ldb_logwriter_init (e1, w) 0) rs = Some (LDB_OK, lw)
    \<and> lw_file lw = (e2, w) \<and> ldb_seqfile_create e2 fn = Some (r, e3)
    \<and> read_all mem_rread mem_rskip (ldb_logreader_init (e3, r) (Some []) checksum 0) [] = Some (rs, lr)
    \<and> lr_reporter lr = Some []"
proof -
  let ?H = "opened (wf_state w) H"
  note op = env_inv_truncfile [OF mem_reach_inv [OF assms(1)] assms(2)]
  have live: "mem_wnamed fn ?H w (e1, w)" and empty: "mem_wcontents (e1, w) = log_bytes []"
    using op by (auto simp: mem_wnamed_def mem_wcontents_def log_bytes_def)
  obtain lw where lw: "add_records (mem_wapp junk) mem_wflush (ldb_logwriter_init (e1, w) 0) rs = Some (LDB_OK, lw)"
    "mem_wnamed fn ?H w (lw_file lw)" "mem_wcontents (lw_file lw) = log_bytes rs"
    using named.log_append [OF live empty, of junk rs] empty by (auto simp: log_bytes_def)
  obtain e2 where e2: "lw_file lw = (e2, w)" using lw(2) by (cases "lw_file lw") (auto simp: mem_wnamed_def)
  have inv2: "env_inv e2 ?H" and fn2: "me_files e2 fn = Some (wf_state w)" using lw(2) e2 by (auto simp: mem_wnamed_def)
  then obtain r e3 where r: "ldb_seqfile_create e2 fn = Some (r, e3)"
    by (auto simp: ldb_seqfile_create_def ldb_rfile_init_def)
  note sq = env_inv_seqfile [OF inv2 r]
  have "mem_rlive (e3, r)" "mem_rremaining (e3, r) = log_bytes rs"
    using sq fn2 lw(3) e2
    by (auto simp: mem_rlive_def mem_rremaining_def mem_wcontents_def intro!: exI [of _ "opened (rf_state r) ?H"])
  then obtain lr where "read_all mem_rread mem_rskip (ldb_logreader_init (e3, r) (Some []) checksum 0) [] = Some (rs, lr)"
    "lr_reporter lr = Some []"
    using mem_rfile.log_read_all by blast
  with lw e2 r show ?thesis by blast
qed

theorem log_write_read_witness:
  "\<exists>lw e2 r e3 lr.
     add_records (mem_wapp (\<lambda>_ _. 7)) mem_wflush
       (ldb_logwriter_init (sample_created ''log'', \<lparr>wf_state = 0\<rparr>) 0) [[1, 2], [], replicate 40000 9] = Some (LDB_OK, lw)
    \<and> lw_file lw = (e2, \<lparr>wf_state = 0\<rparr>) \<and> ldb_seqfile_create e2 ''log'' = Some (r, e3)
    \<and> read_all mem_rread mem_rskip (ldb_logreader_init (e3, r) (Some []) True 0) []
        = Some ([[1, 2], [], replicate 40000 9], lr)
    \<and> lr_reporter lr = Some []"
  by (rule log_write_read [OF mem_reach.init sample_created]) (simp add: LDB_PATH_MAX_def)

text \<open>
  C2. A crash loses only records that were not completely written. When a file holds the first
  \<^term>\<open>n\<close> bytes of a log, for any \<^term>\<open>n\<close>, the reader returns the longest prefix of the records
  whose bytes are all there, treats the cut record as the end of the file, and reports no
  corruption.
\<close>

theorem log_crash_prefix:
  assumes "mem_rlive f" "mem_rremaining f = take n (log_bytes rs)"
  shows "\<exists>k lr. read_all mem_rread mem_rskip (ldb_logreader_init f (Some []) checksum 0) [] = Some (take k rs, lr)
    \<and> lr_reporter lr = Some [] \<and> k \<le> length rs \<and> length (log_bytes (take k rs)) \<le> n
    \<and> (k < length rs \<longrightarrow> n < length (log_bytes (take (Suc k) rs)))"
  using mem_rfile.log_read_prefix [OF assms] .

theorem log_crash_prefix_witness:
  "\<exists>k lr. read_all mem_rread mem_rskip
      (ldb_logreader_init (sample_opened ''log'' (take 12 (log_bytes [[1, 2], [3]])), \<lparr>rf_state = 0, rf_pos = 0\<rparr>)
         (Some []) True 0) [] = Some (take k [[1, 2], [3]], lr)
    \<and> lr_reporter lr = Some [] \<and> k \<le> length [[1, 2], [3 :: u8]] \<and> length (log_bytes (take k [[1, 2], [3]])) \<le> 12
    \<and> (k < length [[1, 2], [3 :: u8]] \<longrightarrow> 12 < length (log_bytes (take (Suc k) [[1, 2], [3]])))"
  by (rule log_crash_prefix) (simp_all add: sample_opened LDB_PATH_MAX_def)

text \<open>
  C19. The reader ends on every file. Whatever bytes a file holds, and whatever initial offset,
  checksum setting and reporter the reader is given, reading records until the reader returns 0
  comes to an end.
\<close>

theorem log_reader_terminates:
  assumes "mem_rlive f"
  shows "\<exists>rs lr. read_all mem_rread mem_rskip (ldb_logreader_init f reporter checksum initial_offset) [] = Some (rs, lr)"
  using mem_rfile.read_all_ends [OF mem_rfile.usable_init [OF assms]] .

theorem log_reader_terminates_witness:
  "\<exists>rs lr. read_all mem_rread mem_rskip
      (ldb_logreader_init (sample_opened ''log'' (replicate 100 255), \<lparr>rf_state = 0, rf_pos = 0\<rparr>) (Some []) True 40000) []
      = Some (rs, lr)"
  by (rule log_reader_terminates) (simp add: sample_opened LDB_PATH_MAX_def)

end
