(* ===== verification/Slice.thy ===== *)
theory Slice
  imports Coding
begin

text \<open>
  Slices (\<^verbatim>\<open>src/src/util/slice.c\<close>) and the byte-string order of
  \<^verbatim>\<open>src/src/util/memcmp.h\<close>. A slice is the list of the bytes it spans; of the C library's
  \<^verbatim>\<open>memcmp\<close> only the sign is used, so the model returns \<^term>\<open>-1\<close>, \<^term>\<open>0\<close> or \<^term>\<open>1\<close>.
\<close>

section \<open>Comparing byte strings\<close>

fun memcmp :: "bytes \<Rightarrow> bytes \<Rightarrow> nat \<Rightarrow> int" where
  "memcmp (x # xs) (y # ys) (Suc n) =
     (if x = y then memcmp xs ys n else if x < y then -1 else 1)"
| "memcmp _ _ _ = 0"

definition ldb_memcmp4 :: "bytes \<Rightarrow> bytes \<Rightarrow> int" where
  "ldb_memcmp4 x y =
     (let xn = length x; yn = length y;
          n = (if xn < yn then xn else yn);
          r = (if n \<noteq> 0 then memcmp x y n else 0)
      in if r = 0
         then (if xn < yn then -1 else if xn > yn then 1 else r)
         else r)"

definition ldb_slice_equal :: "bytes \<Rightarrow> bytes \<Rightarrow> bool" where
  "ldb_slice_equal x y =
     (if length x \<noteq> length y then False
      else if length x = 0 then True
      else memcmp x y (length y) = 0)"

definition ldb_slice_compare :: "bytes \<Rightarrow> bytes \<Rightarrow> int" where
  "ldb_slice_compare x y = ldb_memcmp4 x y"

section \<open>Length-prefixed slices\<close>

text \<open>\<^verbatim>\<open>ldb_slice_eat\<close> asserts that the slice is long enough: \<^term>\<open>None\<close> is the failed assertion.\<close>

definition ldb_slice_eat :: "bytes \<Rightarrow> nat \<Rightarrow> bytes option" where
  "ldb_slice_eat z xn = (if length z \<ge> xn then Some (drop xn z) else None)"

text \<open>Sizes are passed to the 32-bit coders by conversion, so a longer slice is truncated there.\<close>

definition ldb_slice_size :: "bytes \<Rightarrow> nat" where
  "ldb_slice_size x = ldb_varint32_size (word_of_nat (length x)) + length x"

definition ldb_slice_write :: "bytes \<Rightarrow> bytes" where
  "ldb_slice_write x = ldb_varint32_write (word_of_nat (length x)) @ ldb_raw_write x"

definition ldb_slice_export :: "bytes \<Rightarrow> bytes \<Rightarrow> bytes" where
  "ldb_slice_export z x = z @ ldb_slice_write x"

definition ldb_slice_read :: "bytes \<Rightarrow> (bytes \<times> bytes) option" where
  "ldb_slice_read xp =
     (case ldb_varint32_read xp of
        None \<Rightarrow> None
      | Some (zn, xp') \<Rightarrow>
          (case ldb_zraw_read (unat zn) xp' of
             None \<Rightarrow> None
           | Some (zp, xp'') \<Rightarrow> Some (zp, xp'')))"

definition ldb_slice_slurp :: "bytes \<Rightarrow> (bytes \<times> bytes) option" where
  "ldb_slice_slurp x = ldb_slice_read x"

definition ldb_slice_import :: "bytes \<Rightarrow> bytes option" where
  "ldb_slice_import x = map_option fst (ldb_slice_slurp x)"

text \<open>
  \<^verbatim>\<open>ldb_slice_decode\<close> reads a length prefix from raw memory (here: the bytes from the pointer on)
  with a cursor of five bytes and returns the slice that starts after it; \<^term>\<open>None\<close> is the call of
  \<^verbatim>\<open>abort\<close>. The result is paired with the memory after the slice.
\<close>

definition ldb_slice_decode :: "bytes \<Rightarrow> (bytes \<times> bytes) option" where
  "ldb_slice_decode xp =
     (case ldb_varint32_read (take 5 xp) of
        None \<Rightarrow> None
      | Some (zn, rest) \<Rightarrow>
          (let mem = drop (length (take 5 xp) - length rest) xp
           in Some (take (unat zn) mem, drop (unat zn) mem)))"

section \<open>The byte-string order\<close>

lemma ldb_memcmp4_Nil [simp]:
  "ldb_memcmp4 [] [] = 0" "ldb_memcmp4 [] (y # ys) = -1" "ldb_memcmp4 (x # xs) [] = 1"
  by (simp_all add: ldb_memcmp4_def)

lemma ldb_memcmp4_Cons [simp]:
  "ldb_memcmp4 (x # xs) (y # ys) = (if x = y then ldb_memcmp4 xs ys else if x < y then -1 else 1)"
  by (cases "length xs < length ys"; cases xs; cases ys) (auto simp: ldb_memcmp4_def Let_def)

lemma ldb_memcmp4_cases: "ldb_memcmp4 x y \<in> {-1, 0, 1}"
  by (induction x y rule: list_induct2') auto

lemma ldb_memcmp4_swap: "ldb_memcmp4 y x = - ldb_memcmp4 x y"
  by (induction x y rule: list_induct2') auto

lemma ldb_memcmp4_eq_0 [simp]: "ldb_memcmp4 x y = 0 \<longleftrightarrow> x = y"
  by (induction x y rule: list_induct2') auto

lemma ldb_memcmp4_self [simp]: "ldb_memcmp4 x x = 0"
  by simp

lemma ldb_memcmp4_le_trans: "ldb_memcmp4 x y \<le> 0 \<Longrightarrow> ldb_memcmp4 y z \<le> 0 \<Longrightarrow> ldb_memcmp4 x z \<le> 0"
proof (induction x arbitrary: y z)
  case Nil
  then show ?case by (cases z) auto
next
  case (Cons a x)
  then obtain b y' c z' where "y = b # y'" "z = c # z'"
    by (cases y; cases z) auto
  with Cons show ?case
    by (fastforce split: if_splits)
qed

lemma ldb_memcmp4_append_same [simp]: "ldb_memcmp4 (p @ x) (p @ y) = ldb_memcmp4 x y"
  by (induction p) auto

lemma ldb_slice_equal_iff: "ldb_slice_equal x y \<longleftrightarrow> x = y"
proof -
  have "length x = length y \<Longrightarrow> memcmp x y (length y) = 0 \<longleftrightarrow> x = y"
    by (induction x y rule: list_induct2) auto
  then show ?thesis by (auto simp: ldb_slice_equal_def)
qed

section \<open>Length-prefixed slices meet the codec contract\<close>

abbreviation slice_ok :: "bytes \<Rightarrow> bool" where
  "slice_ok x \<equiv> length x < 2 ^ 32"

lemma unat_of_length: "slice_ok x \<Longrightarrow> unat (word_of_nat (length x) :: u32) = length x"
  by (simp add: unat_of_nat take_bit_nat_eq_self)

interpretation slice: codec ldb_slice_write ldb_slice_read slice_ok
proof
  fix x rest :: bytes assume "slice_ok x"
  then show "ldb_slice_read (ldb_slice_write x @ rest) = Some (x, rest)"
    using unat_of_length [of x]
    by (simp add: ldb_slice_read_def ldb_slice_write_def ldb_raw_write_def ldb_zraw_read_def)
next
  fix bs x rest assume "ldb_slice_read bs = Some (x, rest)"
  then obtain n r where "ldb_varint32_read bs = Some (n, r)" and "rest = drop (unat n) r"
    by (auto simp: ldb_slice_read_def ldb_zraw_read_def split: option.splits if_splits)
  then show "strict_suffix rest bs"
    by (metis strict_suffix_def suffix_drop suffix_order.le_less_trans varint32.dec_suffix)
qed

lemma ldb_slice_slurp_write [codec_simps, simp]:
  "slice_ok x \<Longrightarrow> ldb_slice_slurp (ldb_slice_write x @ rest) = Some (x, rest)"
  by (simp add: ldb_slice_slurp_def slice.dec_enc)

lemma ldb_slice_size_write: "ldb_slice_size x = length (ldb_slice_write x)"
  by (simp add: ldb_slice_size_def ldb_slice_write_def ldb_raw_write_def ldb_varint32_size_write)

lemma ldb_slice_decode_write [codec_simps, simp]:
  assumes "slice_ok x"
  shows "ldb_slice_decode (ldb_slice_write x @ rest) = Some (x, rest)"
proof -
  let ?v = "ldb_varint32_write (word_of_nat (length x))"
  have len: "length ?v \<le> 5" using length_ldb_varint32_write by blast
  then have "take 5 (?v @ x @ rest) = ?v @ take (5 - length ?v) (x @ rest)" by simp
  with len assms show ?thesis
    using unat_of_length [of x]
    by (auto simp: ldb_slice_decode_def ldb_slice_write_def ldb_raw_write_def Let_def)
qed

end
