(* ===== verification/Comparator.thy ===== *)
theory Comparator
  imports Slice
begin

text \<open>
  Comparators (\<^verbatim>\<open>src/src/util/comparator.h\<close> and \<^verbatim>\<open>comparator.c\<close>): the record of callbacks the
  database orders its keys with, the bytewise comparator, and the contract the header states for
  every comparator as a locale.
\<close>

section \<open>The comparator object\<close>

text \<open>The callbacks receive the object itself only to reach its state, which these two lack.\<close>

record comparator =
  cmp_name :: string
  compare :: "bytes \<Rightarrow> bytes \<Rightarrow> int"
  cmp_shortest_separator :: "bytes \<Rightarrow> bytes \<Rightarrow> bytes"
  cmp_short_successor :: "bytes \<Rightarrow> bytes"

text \<open>
  \<^verbatim>\<open>while (i < n && x[i] == y[i]) i++\<close>, the loop that \<^verbatim>\<open>shortest_separator\<close> and the block
  builder use to find the length of a common prefix.
\<close>

function common_prefix_loop :: "bytes \<Rightarrow> bytes \<Rightarrow> nat \<Rightarrow> nat \<Rightarrow> nat" where
  "common_prefix_loop x y n i =
     (if i < n \<and> x ! i = y ! i then common_prefix_loop x y n (i + 1) else i)"
  by pat_completeness auto
termination
  by (relation "measure (\<lambda>(x, y, n, i). n - i)") auto

declare common_prefix_loop.simps [simp del]

section \<open>The bytewise comparator\<close>

definition slice_compare :: "bytes \<Rightarrow> bytes \<Rightarrow> int" where
  "slice_compare x y = ldb_memcmp4 x y"

definition shortest_separator :: "bytes \<Rightarrow> bytes \<Rightarrow> bytes" where
  "shortest_separator start limit =
     (let min_length = min (length start) (length limit);
          diff_index = common_prefix_loop start limit min_length 0
      in if diff_index \<ge> min_length
         then start
         else (let diff_byte = start ! diff_index
               in if diff_byte < 0xff \<and> unat diff_byte + 1 < unat (limit ! diff_index)
                  then take (diff_index + 1) (start[diff_index := diff_byte + 1])
                  else start))"

function short_successor_loop :: "bytes \<Rightarrow> nat \<Rightarrow> bytes" where
  "short_successor_loop key i =
     (if i < length key then
        (if key ! i \<noteq> 0xff then take (i + 1) (key[i := key ! i + 1])
         else short_successor_loop key (i + 1))
      else key)"
  by pat_completeness auto
termination
  by (relation "measure (\<lambda>(key, i). length key - i)") auto

declare short_successor_loop.simps [simp del]

definition short_successor :: "bytes \<Rightarrow> bytes" where
  "short_successor key = short_successor_loop key 0"

definition bytewise_comparator :: comparator where
  "bytewise_comparator =
     \<lparr>cmp_name = ''leveldb.BytewiseComparator'',
      compare = slice_compare,
      cmp_shortest_separator = shortest_separator,
      cmp_short_successor = short_successor\<rparr>"

section \<open>The comparator contract\<close>

text \<open>
  A three-way comparison that is a total preorder on the keys in its domain. All of the ordered
  structures (skip list, blocks, merging) are clients of these two laws.
\<close>

locale key_order =
  fixes cmp :: "'k \<Rightarrow> 'k \<Rightarrow> int"
    and ok :: "'k \<Rightarrow> bool"
  assumes cmp_swap: "ok x \<Longrightarrow> ok y \<Longrightarrow> cmp x y < 0 \<longleftrightarrow> cmp y x > 0"
    and cmp_le_trans: "ok x \<Longrightarrow> ok y \<Longrightarrow> ok z \<Longrightarrow> cmp x y \<le> 0 \<Longrightarrow> cmp y z \<le> 0 \<Longrightarrow> cmp x z \<le> 0"
begin

lemma cmp_refl: "ok x \<Longrightarrow> cmp x x = 0"
  using cmp_swap [of x x] by linarith

lemma cmp_eq_swap: "ok x \<Longrightarrow> ok y \<Longrightarrow> cmp x y = 0 \<longleftrightarrow> cmp y x = 0"
  using cmp_swap [of x y] cmp_swap [of y x] by linarith

lemma cmp_ge_swap: "ok x \<Longrightarrow> ok y \<Longrightarrow> cmp x y \<ge> 0 \<longleftrightarrow> cmp y x \<le> 0"
  using cmp_swap [of x y] by linarith

lemma cmp_less_le_trans:
  "ok x \<Longrightarrow> ok y \<Longrightarrow> ok z \<Longrightarrow> cmp x y < 0 \<Longrightarrow> cmp y z \<le> 0 \<Longrightarrow> cmp x z < 0"
  using cmp_swap [of x y] cmp_swap [of x z] cmp_le_trans [of y z x] by linarith

lemma cmp_le_less_trans:
  "ok x \<Longrightarrow> ok y \<Longrightarrow> ok z \<Longrightarrow> cmp x y \<le> 0 \<Longrightarrow> cmp y z < 0 \<Longrightarrow> cmp x z < 0"
  using cmp_swap [of y z] cmp_swap [of x z] cmp_le_trans [of z x y] by linarith

lemma cmp_less_trans:
  "ok x \<Longrightarrow> ok y \<Longrightarrow> ok z \<Longrightarrow> cmp x y < 0 \<Longrightarrow> cmp y z < 0 \<Longrightarrow> cmp x z < 0"
  by (rule cmp_less_le_trans) auto

lemma cmp_eq_trans:
  "ok x \<Longrightarrow> ok y \<Longrightarrow> ok z \<Longrightarrow> cmp x y = 0 \<Longrightarrow> cmp y z = 0 \<Longrightarrow> cmp x z = 0"
  using cmp_le_trans [of x y z] cmp_le_trans [of z y x] cmp_eq_swap [of x y] cmp_eq_swap [of y z]
    cmp_swap [of x z]
  by linarith

end

text \<open>
  The contract of \<^verbatim>\<open>comparator.h\<close>: an order, a separator that stays in \<open>[start, limit)\<close>, and a
  successor that is not below its key. The law \<^verbatim>\<open>sep_equal\<close> is one the header does not state and
  the internal key comparator relies on: it separates keys that share their user key too, and
  so calls the user comparator's separator on two equal keys, where it must not grow the first.
\<close>

locale comparator_contract = key_order "compare C" ok
  for C :: comparator and ok :: "bytes \<Rightarrow> bool" +
  assumes sep_ok: "ok start \<Longrightarrow> ok limit \<Longrightarrow> ok (cmp_shortest_separator C start limit)"
    and sep_range: "ok start \<Longrightarrow> ok limit \<Longrightarrow> compare C start limit < 0 \<Longrightarrow>
      compare C start (cmp_shortest_separator C start limit) \<le> 0
      \<and> compare C (cmp_shortest_separator C start limit) limit < 0"
    and sep_equal: "ok start \<Longrightarrow> ok limit \<Longrightarrow> compare C start limit = 0 \<Longrightarrow>
      compare C start (cmp_shortest_separator C start limit) \<ge> 0"
    and succ_ok: "ok key \<Longrightarrow> ok (cmp_short_successor C key)"
    and succ_range: "ok key \<Longrightarrow> compare C key (cmp_short_successor C key) \<le> 0"

section \<open>The bytewise comparator meets the contract\<close>

lemma common_prefix_loop_props:
  "i \<le> n \<Longrightarrow> n \<le> length x \<Longrightarrow> n \<le> length y \<Longrightarrow> take i x = take i y \<Longrightarrow>
     (let j = common_prefix_loop x y n i
      in j \<le> n \<and> take j x = take j y \<and> (j < n \<longrightarrow> x ! j \<noteq> y ! j))"
proof (induction x y n i rule: common_prefix_loop.induct)
  case (1 x y n i)
  show ?case
  proof (cases "i < n \<and> x ! i = y ! i")
    case True
    with "1.prems" have "take (Suc i) x = take (Suc i) y"
      by (simp add: take_Suc_conv_app_nth)
    with True "1.prems" "1.IH" show ?thesis
      by (simp add: common_prefix_loop.simps [of x y n i])
  qed (use "1.prems" in \<open>auto simp: common_prefix_loop.simps [of x y n i]\<close>)
qed

lemma shortest_separator_cases:
  obtains (same) "shortest_separator start limit = start"
  | (short) p a b s l where "start = p @ a # s" "limit = p @ b # l" "unat a + 1 < unat b"
      "shortest_separator start limit = p @ [a + 1]"
proof -
  define n where "n = min (length start) (length limit)"
  define j where "j = common_prefix_loop start limit n 0"
  have j: "j \<le> n" "take j start = take j limit"
    using common_prefix_loop_props [of 0 n start limit] by (auto simp: Let_def j_def n_def)
  show ?thesis
  proof (cases "j < n \<and> start ! j < 0xff \<and> unat (start ! j) + 1 < unat (limit ! j)")
    case True
    then have "j < length start" "j < length limit" by (auto simp: n_def)
    then have "start = take j start @ start ! j # drop (Suc j) start"
      and "limit = take j start @ limit ! j # drop (Suc j) limit"
      using id_take_nth_drop [of j start] id_take_nth_drop [of j limit] j(2) by metis+
    moreover have "shortest_separator start limit = take j start @ [start ! j + 1]"
      using True \<open>j < length start\<close>
      by (simp add: shortest_separator_def Let_def take_Suc_conv_app_nth flip: n_def j_def)
    ultimately show ?thesis using True short by blast
  next
    case False
    with j have "shortest_separator start limit = start"
      by (auto simp: shortest_separator_def Let_def simp flip: n_def j_def)
    then show ?thesis by (rule same)
  qed
qed

lemma word_plus_1_less:
  fixes a b :: u8
  assumes "unat a + 1 < unat b"
  shows "a < a + 1" "a + 1 < b" "a \<noteq> b" "a < b"
proof -
  have "unat (a + 1) = unat a + 1"
    using assms unat_u8_less [of b] by (simp add: unat_word_ariths)
  with assms show "a < a + 1" "a + 1 < b" "a \<noteq> b" "a < b"
    by (auto simp: word_less_nat_alt)
qed

lemma shortest_separator_range:
  "ldb_memcmp4 start limit < 0 \<Longrightarrow>
     ldb_memcmp4 start (shortest_separator start limit) \<le> 0
     \<and> ldb_memcmp4 (shortest_separator start limit) limit < 0"
proof (cases rule: shortest_separator_cases [of start limit])
  case (short p a b s l)
  then show ?thesis using word_plus_1_less [of a b] by auto
qed simp_all

lemma shortest_separator_length: "length (shortest_separator start limit) \<le> length start"
  by (cases rule: shortest_separator_cases [of start limit]) auto

lemma shortest_separator_same: "shortest_separator x x = x"
  by (cases rule: shortest_separator_cases [of x x]) auto

lemma short_successor_loop_range:
  "i \<le> length key \<Longrightarrow> ldb_memcmp4 key (short_successor_loop key i) \<le> 0
     \<and> length (short_successor_loop key i) \<le> length key"
proof (induction key i rule: short_successor_loop.induct)
  case (1 key i)
  show ?case
  proof (cases "i < length key \<and> key ! i \<noteq> 0xff")
    case True
    have "unat (key ! i) \<noteq> unat (0xff :: u8)" using True by (simp only: word_unat_eq_iff) auto
    then have "unat (key ! i) + 1 < 256" using unat_u8_less [of "key ! i"] by simp
    then have less: "key ! i < key ! i + 1"
      by (simp add: word_less_nat_alt unat_word_ariths)
    have key: "key = take i key @ key ! i # drop (Suc i) key"
      using True by (simp add: id_take_nth_drop)
    have "short_successor_loop key i = take i key @ [key ! i + 1]"
      using True by (simp add: short_successor_loop.simps [of key i] take_Suc_conv_app_nth)
    with less show ?thesis using True
      by (subst key) auto
  qed (use 1 in \<open>auto simp: short_successor_loop.simps [of key i]\<close>)
qed

lemma short_successor_range: "ldb_memcmp4 key (short_successor key) \<le> 0"
  using short_successor_loop_range [of 0 key] by (simp add: short_successor_def)

interpretation bytewise: comparator_contract bytewise_comparator "\<lambda>_. True"
proof
  fix x y :: bytes
  show "compare bytewise_comparator x y < 0 \<longleftrightarrow> compare bytewise_comparator y x > 0"
    using ldb_memcmp4_swap [of y x] by (simp add: bytewise_comparator_def slice_compare_def)
qed (auto simp: bytewise_comparator_def slice_compare_def shortest_separator_range
       shortest_separator_same short_successor_range intro: ldb_memcmp4_le_trans)

lemma bytewise_eq_iff: "compare bytewise_comparator x y = 0 \<longleftrightarrow> x = y"
  by (simp add: bytewise_comparator_def slice_compare_def)

end
