(* ===== verification/DbFormat.thy ===== *)
theory DbFormat
  imports Comparator
begin

text \<open>
  Internal keys (\<^verbatim>\<open>src/src/dbformat.h\<close>, \<^verbatim>\<open>src/src/dbformat.c\<close>): a user key followed by an
  eight-byte tag that packs the sequence number and the value type, the comparator that orders
  them, and the lookup key that a read at a given sequence number seeks with.

  An \<^verbatim>\<open>assert\<close> of the source is a predicate next to the operation (\<^verbatim>\<open>..._assert\<close>); the operation
  itself is what the code computes when the assertion holds.
\<close>

section \<open>Constants and types\<close>

definition LDB_NUM_LEVELS :: nat where
  "LDB_NUM_LEVELS = 7"

datatype valtype = LDB_TYPE_DELETION | LDB_TYPE_VALUE

primrec valtype_code :: "valtype \<Rightarrow> u64" where
  "valtype_code LDB_TYPE_DELETION = 0"
| "valtype_code LDB_TYPE_VALUE = 1"

definition LDB_VALTYPE_SEEK :: valtype where
  "LDB_VALTYPE_SEEK = LDB_TYPE_VALUE"

definition LDB_MAX_SEQUENCE :: u64 where
  "LDB_MAX_SEQUENCE = push_bit 56 1 - 1"

record pkey =
  user_key :: bytes
  sequence :: u64
  vtype :: valtype

section \<open>Helpers\<close>

definition pack_seqtype_assert :: "u64 \<Rightarrow> bool" where
  "pack_seqtype_assert seq \<longleftrightarrow> seq \<le> LDB_MAX_SEQUENCE"

definition pack_seqtype :: "u64 \<Rightarrow> valtype \<Rightarrow> u64" where
  "pack_seqtype seq type = push_bit 8 seq OR valtype_code type"

definition ldb_extract_user_key_assert :: "bytes \<Rightarrow> bool" where
  "ldb_extract_user_key_assert key \<longleftrightarrow> length key \<ge> 8"

definition ldb_extract_user_key :: "bytes \<Rightarrow> bytes" where
  "ldb_extract_user_key key = take (length key - 8) key"

section \<open>Parsed internal keys\<close>

definition ldb_pkey_init :: "bytes \<Rightarrow> u64 \<Rightarrow> valtype \<Rightarrow> pkey" where
  "ldb_pkey_init ukey seq type = \<lparr>user_key = ukey, sequence = seq, vtype = type\<rparr>"

definition ldb_pkey_size :: "pkey \<Rightarrow> nat" where
  "ldb_pkey_size x = length (user_key x) + 8"

definition ldb_pkey_write :: "pkey \<Rightarrow> bytes" where
  "ldb_pkey_write x =
     ldb_raw_write (user_key x) @ ldb_fixed64_write (pack_seqtype (sequence x) (vtype x))"

definition ldb_pkey_export :: "bytes \<Rightarrow> pkey \<Rightarrow> bytes" where
  "ldb_pkey_export z x = z @ ldb_pkey_write x"

definition ldb_pkey_import :: "bytes \<Rightarrow> pkey option" where
  "ldb_pkey_import x =
     (if length x < 8 then None
      else (let num = ldb_fixed64_decode (drop (length x - 8) x);
                type = num AND 0xff
            in if type > valtype_code LDB_TYPE_VALUE then None
               else Some \<lparr>user_key = take (length x - 8) x,
                          sequence = drop_bit 8 num,
                          vtype = (if type = 0 then LDB_TYPE_DELETION else LDB_TYPE_VALUE)\<rparr>))"

section \<open>Internal keys\<close>

definition ldb_ikey_set :: "bytes \<Rightarrow> u64 \<Rightarrow> valtype \<Rightarrow> bytes" where
  "ldb_ikey_set ukey seq type = ldb_pkey_export [] (ldb_pkey_init ukey seq type)"

definition ldb_ikey_user_key :: "bytes \<Rightarrow> bytes" where
  "ldb_ikey_user_key ikey = ldb_extract_user_key ikey"

definition ldb_ikey_export :: "bytes \<Rightarrow> bytes \<Rightarrow> bytes" where
  "ldb_ikey_export z x = ldb_slice_export z x"

section \<open>Lookup keys\<close>

text \<open>
  The pointers \<^verbatim>\<open>start\<close>, \<^verbatim>\<open>kstart\<close> and \<^verbatim>\<open>end\<close> are the array from \<^verbatim>\<open>start\<close> to \<^verbatim>\<open>end\<close> and the
  offset of \<^verbatim>\<open>kstart\<close> in it; \<^term>\<open>lk_capacity\<close> is the size of the memory that holds the array
  (the 200 bytes of \<^verbatim>\<open>space\<close>, or what was allocated).
\<close>

record lkey =
  lk_array :: bytes
  lk_kstart :: nat
  lk_capacity :: nat

definition ldb_lkey_init :: "bytes \<Rightarrow> u64 \<Rightarrow> lkey" where
  "ldb_lkey_init ukey seq =
     (let usize = length ukey;
          needed = usize + 13;
          capacity = (if needed > 200 then needed else 200);
          prefix = ldb_varint32_write (word_of_nat (usize + 8))
      in \<lparr>lk_array = prefix @ ldb_raw_write ukey
                       @ ldb_fixed64_write (pack_seqtype seq LDB_VALTYPE_SEEK),
          lk_kstart = length prefix,
          lk_capacity = capacity\<rparr>)"

definition ldb_lkey_memtable_key :: "lkey \<Rightarrow> bytes" where
  "ldb_lkey_memtable_key lkey = lk_array lkey"

definition ldb_lkey_internal_key :: "lkey \<Rightarrow> bytes" where
  "ldb_lkey_internal_key lkey = drop (lk_kstart lkey) (lk_array lkey)"

definition ldb_lkey_user_key :: "lkey \<Rightarrow> bytes" where
  "ldb_lkey_user_key lkey =
     take (length (lk_array lkey) - lk_kstart lkey - 8) (drop (lk_kstart lkey) (lk_array lkey))"

section \<open>The internal key comparator\<close>

definition ldb_ikc_compare :: "comparator \<Rightarrow> bytes \<Rightarrow> bytes \<Rightarrow> int" where
  "ldb_ikc_compare uc x y =
     (let xk = ldb_extract_user_key x;
          yk = ldb_extract_user_key y;
          r = compare uc xk yk
      in if r = 0
         then (let xn = ldb_fixed64_decode (drop (length x - 8) x);
                   yn = ldb_fixed64_decode (drop (length y - 8) y)
               in if xn > yn then -1 else if xn < yn then 1 else r)
         else r)"

definition ldb_ikc_shortest_separator :: "comparator \<Rightarrow> bytes \<Rightarrow> bytes \<Rightarrow> bytes" where
  "ldb_ikc_shortest_separator uc start limit =
     (let user_start = ldb_extract_user_key start;
          user_limit = ldb_extract_user_key limit;
          tmp = cmp_shortest_separator uc user_start user_limit
      in if length tmp < length user_start \<and> compare uc user_start tmp < 0
         then tmp @ ldb_fixed64_write (pack_seqtype LDB_MAX_SEQUENCE LDB_VALTYPE_SEEK)
         else start)"

definition ldb_ikc_short_successor :: "comparator \<Rightarrow> bytes \<Rightarrow> bytes" where
  "ldb_ikc_short_successor uc key =
     (let ukey = ldb_extract_user_key key;
          tmp = cmp_short_successor uc ukey
      in if length tmp < length ukey \<and> compare uc ukey tmp < 0
         then tmp @ ldb_fixed64_write (pack_seqtype LDB_MAX_SEQUENCE LDB_VALTYPE_SEEK)
         else key)"

definition ldb_ikc_init :: "comparator \<Rightarrow> comparator" where
  "ldb_ikc_init uc =
     \<lparr>cmp_name = ''leveldb.InternalKeyComparator'',
      compare = ldb_ikc_compare uc,
      cmp_shortest_separator = ldb_ikc_shortest_separator uc,
      cmp_short_successor = ldb_ikc_short_successor uc\<rparr>"

section \<open>The packed tag\<close>

abbreviation seq_ok :: "u64 \<Rightarrow> bool" where
  "seq_ok s \<equiv> s \<le> LDB_MAX_SEQUENCE"

lemma seq_ok_unat: "seq_ok s \<longleftrightarrow> unat s < 2 ^ 56"
  by (auto simp: LDB_MAX_SEQUENCE_def word_le_nat_alt)

lemma unat_valtype_code: "unat (valtype_code t) < 2"
  by (cases t) auto

lemma valtype_code_inj [simp]: "valtype_code t = valtype_code t' \<longleftrightarrow> t = t'"
  by (cases t; cases t') auto

lemma bit_valtype_code: "bit (valtype_code t) n \<Longrightarrow> n = 0"
  by (cases t) (auto simp: bit_1_iff)

lemma take_bit_pack_seqtype: "take_bit 8 (pack_seqtype s t) = valtype_code t"
  by (rule bit_word_eqI)
    (auto simp: pack_seqtype_def bit_simps dest: bit_valtype_code)

lemma drop_bit_pack_seqtype: "seq_ok s \<Longrightarrow> drop_bit 8 (pack_seqtype s t) = s"
proof (rule bit_word_eqI)
  fix n assume "seq_ok s" "n < LENGTH(64)"
  have "bit s n \<Longrightarrow> n < 56"
  proof (rule ccontr)
    assume "bit s n" "\<not> n < 56"
    then have "2 ^ 56 \<le> unat s"
      using bit_unat_le [of s n] power_increasing [of 56 n "2::nat"] by simp
    then show False using \<open>seq_ok s\<close> by (simp add: seq_ok_unat)
  qed
  then show "bit (drop_bit 8 (pack_seqtype s t)) n = bit s n"
    by (auto simp: pack_seqtype_def bit_simps dest: bit_valtype_code)
qed

lemma unat_pack_seqtype: "seq_ok s \<Longrightarrow> unat (pack_seqtype s t) = unat s * 256 + unat (valtype_code t)"
  using arg_cong [OF drop_bit_pack_seqtype [of s t], of unat]
    arg_cong [OF take_bit_pack_seqtype [of s t], of unat]
  by (simp add: unat_drop_bit_nat unat_take_bit_nat) (metis div_mult_mod_eq)

lemma pack_seqtype_less_iff:
  "seq_ok s \<Longrightarrow> seq_ok s' \<Longrightarrow>
     pack_seqtype s t < pack_seqtype s' t'
       \<longleftrightarrow> s < s' \<or> s = s' \<and> valtype_code t < valtype_code t'"
  using unat_valtype_code [of t] unat_valtype_code [of t']
  by (auto simp: word_less_nat_alt unat_pack_seqtype word_unat_eq_iff)

lemma pack_seqtype_inj:
  "seq_ok s \<Longrightarrow> seq_ok s' \<Longrightarrow> pack_seqtype s t = pack_seqtype s' t' \<longleftrightarrow> s = s' \<and> t = t'"
  using drop_bit_pack_seqtype [of s t] drop_bit_pack_seqtype [of s' t']
    take_bit_pack_seqtype [of s t] take_bit_pack_seqtype [of s' t']
  by (metis valtype_code_inj)

lemma pack_seqtype_le_max: "seq_ok s \<Longrightarrow> pack_seqtype s t \<le> pack_seqtype LDB_MAX_SEQUENCE LDB_VALTYPE_SEEK"
  using unat_valtype_code [of t]
  by (auto simp: word_le_nat_alt unat_pack_seqtype LDB_VALTYPE_SEEK_def seq_ok_unat)

section \<open>Parsing what was exported\<close>

abbreviation pkey_ok :: "pkey \<Rightarrow> bool" where
  "pkey_ok k \<equiv> seq_ok (sequence k)"

lemma length_ldb_pkey_write [simp]: "length (ldb_pkey_write x) = ldb_pkey_size x"
  by (simp add: ldb_pkey_write_def ldb_pkey_size_def ldb_raw_write_def)

lemma ldb_extract_user_key_write [simp]: "ldb_extract_user_key (ldb_pkey_write x) = user_key x"
  by (simp add: ldb_extract_user_key_def ldb_pkey_write_def ldb_raw_write_def)

lemma ldb_fixed64_decode_write0 [simp]: "ldb_fixed64_decode (ldb_fixed64_write x) = x"
  using ldb_fixed64_decode_write [of x "[]"] by simp

lemma ldb_pkey_import_append:
  "ldb_pkey_import (u @ ldb_fixed64_write p) =
     (if take_bit 8 p > 1 then None
      else Some \<lparr>user_key = u, sequence = drop_bit 8 p,
                 vtype = (if take_bit 8 p = 0 then LDB_TYPE_DELETION else LDB_TYPE_VALUE)\<rparr>)"
  by (simp add: ldb_pkey_import_def word_and_255)

lemma ldb_pkey_import_write: "pkey_ok k \<Longrightarrow> ldb_pkey_import (ldb_pkey_write k) = Some k"
  by (cases k; cases "vtype k")
    (auto simp: ldb_pkey_write_def ldb_raw_write_def ldb_pkey_import_append take_bit_pack_seqtype
      drop_bit_pack_seqtype)

lemma ikey_split:
  "8 \<le> length x \<Longrightarrow>
     x = ldb_extract_user_key x @ ldb_fixed64_write (ldb_fixed64_decode (drop (length x - 8) x))"
  by (simp add: ldb_extract_user_key_def ldb_fixed64_write_decode)

lemma pack_drop_take:
  assumes "take_bit 8 p \<le> 1"
  shows "pack_seqtype (drop_bit 8 p) (if take_bit 8 p = 0 then LDB_TYPE_DELETION else LDB_TYPE_VALUE) = p"
proof -
  have "take_bit 8 p = 0 \<or> take_bit 8 p = 1"
    using assms by (auto simp: word_le_nat_alt word_unat_eq_iff)
  then have "valtype_code (if take_bit 8 p = 0 then LDB_TYPE_DELETION else LDB_TYPE_VALUE) = take_bit 8 p"
    by auto
  moreover have "push_bit 8 (drop_bit 8 p) OR take_bit 8 p = p"
    by (rule bit_word_eqI) (auto simp: bit_simps not_less)
  ultimately show ?thesis by (simp add: pack_seqtype_def)
qed

lemma seq_ok_drop_bit: "seq_ok (drop_bit 8 p)"
proof -
  have "unat p div 2 ^ 8 < 2 ^ 56" using unat_u64_less [of p] by (simp add: less_mult_imp_div_less)
  then show ?thesis by (simp add: seq_ok_unat unat_drop_bit_nat)
qed

lemma ldb_pkey_import_Some:
  assumes "ldb_pkey_import x = Some k"
  shows "x = ldb_pkey_write k" "pkey_ok k"
proof -
  define p where "p = ldb_fixed64_decode (drop (length x - 8) x)"
  from assms have len: "8 \<le> length x" by (auto simp: ldb_pkey_import_def split: if_splits)
  then have x: "x = ldb_extract_user_key x @ ldb_fixed64_write p"
    unfolding p_def by (rule ikey_split)
  with assms have "take_bit 8 p \<le> 1" and k: "k = \<lparr>user_key = ldb_extract_user_key x, sequence = drop_bit 8 p,
      vtype = (if take_bit 8 p = 0 then LDB_TYPE_DELETION else LDB_TYPE_VALUE)\<rparr>"
    using ldb_pkey_import_append [of "ldb_extract_user_key x" p] by (auto split: if_splits)
  then show "x = ldb_pkey_write k" "pkey_ok k"
    using x pack_drop_take [of p] seq_ok_drop_bit [of p]
    by (auto simp: ldb_pkey_write_def ldb_raw_write_def)
qed

section \<open>The internal key order\<close>

text \<open>An internal key is one that is long enough to hold its tag.\<close>

abbreviation ikey_ok :: "bytes \<Rightarrow> bool" where
  "ikey_ok k \<equiv> 8 \<le> length k"

abbreviation ikey_tag :: "bytes \<Rightarrow> u64" where
  "ikey_tag k \<equiv> ldb_fixed64_decode (drop (length k - 8) k)"

lemma ldb_extract_user_key_append [simp]: "ldb_extract_user_key (u @ ldb_fixed64_write p) = u"
  by (simp add: ldb_extract_user_key_def)

text \<open>The role a comparator plays when the internal key comparator is built on top of it.\<close>

locale user_order = comparator_contract
begin

lemma ikc_less_iff:
  assumes "ok (ldb_extract_user_key x)" "ok (ldb_extract_user_key y)"
  shows "ldb_ikc_compare C x y < 0 \<longleftrightarrow>
    compare C (ldb_extract_user_key x) (ldb_extract_user_key y) < 0
    \<or> compare C (ldb_extract_user_key x) (ldb_extract_user_key y) = 0 \<and> ikey_tag x > ikey_tag y"
  by (auto simp: ldb_ikc_compare_def Let_def)

lemma ikc_le_iff:
  assumes "ok (ldb_extract_user_key x)" "ok (ldb_extract_user_key y)"
  shows "ldb_ikc_compare C x y \<le> 0 \<longleftrightarrow>
    compare C (ldb_extract_user_key x) (ldb_extract_user_key y) < 0
    \<or> compare C (ldb_extract_user_key x) (ldb_extract_user_key y) = 0 \<and> ikey_tag x \<ge> ikey_tag y"
  by (auto simp: ldb_ikc_compare_def Let_def)

end

text \<open>
  Whatever user comparator meets the contract, the internal key comparator built from it does:
  the assertions in \<^verbatim>\<open>ldb_ikc_shortest_separator\<close> and \<^verbatim>\<open>ldb_ikc_short_successor\<close> never fail.
\<close>

sublocale user_order \<subseteq> ikc: comparator_contract "ldb_ikc_init C"
  "\<lambda>k. ikey_ok k \<and> ok (ldb_extract_user_key k)"
proof
  fix x y assume "ikey_ok x \<and> ok (ldb_extract_user_key x)" "ikey_ok y \<and> ok (ldb_extract_user_key y)"
  then show "compare (ldb_ikc_init C) x y < 0 \<longleftrightarrow> compare (ldb_ikc_init C) y x > 0"
    using cmp_swap [of "ldb_extract_user_key x" "ldb_extract_user_key y"]
      cmp_eq_swap [of "ldb_extract_user_key x" "ldb_extract_user_key y"]
    by (auto simp: ldb_ikc_init_def ldb_ikc_compare_def Let_def)
next
  fix x y z
  assume "ikey_ok x \<and> ok (ldb_extract_user_key x)" "ikey_ok y \<and> ok (ldb_extract_user_key y)"
    "ikey_ok z \<and> ok (ldb_extract_user_key z)"
    "compare (ldb_ikc_init C) x y \<le> 0" "compare (ldb_ikc_init C) y z \<le> 0"
  then show "compare (ldb_ikc_init C) x z \<le> 0"
    using cmp_less_le_trans [of "ldb_extract_user_key x" "ldb_extract_user_key y" "ldb_extract_user_key z"]
      cmp_le_less_trans [of "ldb_extract_user_key x" "ldb_extract_user_key y" "ldb_extract_user_key z"]
      cmp_eq_trans [of "ldb_extract_user_key x" "ldb_extract_user_key y" "ldb_extract_user_key z"]
    by (auto simp: ldb_ikc_init_def ikc_le_iff)
next
  fix start limit
  assume "ikey_ok start \<and> ok (ldb_extract_user_key start)" "ikey_ok limit \<and> ok (ldb_extract_user_key limit)"
  then show "ikey_ok (cmp_shortest_separator (ldb_ikc_init C) start limit)
    \<and> ok (ldb_extract_user_key (cmp_shortest_separator (ldb_ikc_init C) start limit))"
    by (auto simp: ldb_ikc_init_def ldb_ikc_shortest_separator_def Let_def intro: sep_ok)
next
  fix start limit
  assume "ikey_ok start \<and> ok (ldb_extract_user_key start)" "ikey_ok limit \<and> ok (ldb_extract_user_key limit)"
    "compare (ldb_ikc_init C) start limit < 0"
  then show "compare (ldb_ikc_init C) start (cmp_shortest_separator (ldb_ikc_init C) start limit) \<le> 0
    \<and> compare (ldb_ikc_init C) (cmp_shortest_separator (ldb_ikc_init C) start limit) limit < 0"
    using sep_range [of "ldb_extract_user_key start" "ldb_extract_user_key limit"]
      sep_equal [of "ldb_extract_user_key start" "ldb_extract_user_key limit"]
      sep_ok [of "ldb_extract_user_key start" "ldb_extract_user_key limit"]
      cmp_refl [of "ldb_extract_user_key start"]
    by (auto simp: ldb_ikc_init_def ldb_ikc_shortest_separator_def Let_def ikc_le_iff ikc_less_iff)
next
  fix start limit
  assume "ikey_ok start \<and> ok (ldb_extract_user_key start)" "ikey_ok limit \<and> ok (ldb_extract_user_key limit)"
    "compare (ldb_ikc_init C) start limit = 0"
  then show "compare (ldb_ikc_init C) start (cmp_shortest_separator (ldb_ikc_init C) start limit) \<ge> 0"
    using sep_equal [of "ldb_extract_user_key start" "ldb_extract_user_key limit"]
      cmp_refl [of "ldb_extract_user_key start"]
    by (auto simp: ldb_ikc_init_def ldb_ikc_shortest_separator_def ldb_ikc_compare_def Let_def
      split: if_splits)
next
  fix key assume "ikey_ok key \<and> ok (ldb_extract_user_key key)"
  then show "ikey_ok (cmp_short_successor (ldb_ikc_init C) key)
    \<and> ok (ldb_extract_user_key (cmp_short_successor (ldb_ikc_init C) key))"
    by (auto simp: ldb_ikc_init_def ldb_ikc_short_successor_def Let_def intro: succ_ok)
next
  fix key assume "ikey_ok key \<and> ok (ldb_extract_user_key key)"
  then show "compare (ldb_ikc_init C) key (cmp_short_successor (ldb_ikc_init C) key) \<le> 0"
    by (auto simp: ldb_ikc_init_def ldb_ikc_short_successor_def Let_def ikc_le_iff succ_ok cmp_refl)
qed

interpretation bytewise_user: user_order bytewise_comparator "\<lambda>_. True"
  by unfold_locales

section \<open>Seeking with a lookup key\<close>

lemma ldb_ikey_set_eq: "ldb_ikey_set k q t = k @ ldb_fixed64_write (pack_seqtype q t)"
  by (simp add: ldb_ikey_set_def ldb_pkey_export_def ldb_pkey_init_def ldb_pkey_write_def ldb_raw_write_def)

lemma pack_le_seek: "seq_ok q \<Longrightarrow> seq_ok s \<Longrightarrow> pack_seqtype q t \<le> pack_seqtype s LDB_VALTYPE_SEEK \<longleftrightarrow> q \<le> s"
  using pack_seqtype_less_iff [of s q LDB_VALTYPE_SEEK t]
  by (cases t) (auto simp: LDB_VALTYPE_SEEK_def not_less [symmetric])

lemma ldb_lkey_init_keys:
  "ldb_lkey_user_key (ldb_lkey_init u s) = u"
  "ldb_lkey_internal_key (ldb_lkey_init u s) = ldb_ikey_set u s LDB_VALTYPE_SEEK"
  "length u + 8 < 2 ^ 32 \<Longrightarrow>
     ldb_lkey_memtable_key (ldb_lkey_init u s) = ldb_slice_write (ldb_ikey_set u s LDB_VALTYPE_SEEK)"
  by (simp_all add: ldb_lkey_init_def Let_def ldb_lkey_user_key_def ldb_lkey_internal_key_def
      ldb_lkey_memtable_key_def ldb_raw_write_def ldb_ikey_set_def ldb_pkey_export_def
      ldb_pkey_init_def ldb_pkey_write_def ldb_slice_write_def)

lemma ldb_lkey_init_fits: "length (lk_array (ldb_lkey_init u s)) \<le> lk_capacity (ldb_lkey_init u s)"
  using length_ldb_varint32_write [of "word_of_nat (length u + 8)"]
  by (auto simp: ldb_lkey_init_def Let_def ldb_raw_write_def)

section \<open>Properties\<close>

text \<open>
  C39. Parsing an internal key succeeds exactly on the encodings of parsed keys whose sequence
  number fits 56 bits, and returns the key that was encoded: no other byte string is accepted.
\<close>

theorem pkey_import_exact:
  "ldb_pkey_import x = Some k \<longleftrightarrow> x = ldb_pkey_write k \<and> sequence k \<le> LDB_MAX_SEQUENCE"
  using ldb_pkey_import_write ldb_pkey_import_Some by blast

text \<open>
  C37. The internal key comparator orders entries by increasing user key, then by decreasing
  sequence number, then by decreasing value type: the newest entry of a user key comes first.
\<close>

theorem internal_key_order:
  assumes "s \<le> LDB_MAX_SEQUENCE" "s' \<le> LDB_MAX_SEQUENCE"
  shows "compare (ldb_ikc_init bytewise_comparator) (ldb_ikey_set u s t) (ldb_ikey_set u' s' t') < 0
    \<longleftrightarrow> compare bytewise_comparator u u' < 0
      \<or> u = u' \<and> (s > s' \<or> s = s' \<and> valtype_code t > valtype_code t')"
  using assms bytewise_eq_iff [of u u']
  by (auto simp: ldb_ikc_init_def bytewise_user.ikc_less_iff ldb_ikey_set_def ldb_pkey_export_def
      ldb_pkey_init_def ldb_pkey_write_def ldb_raw_write_def pack_seqtype_less_iff)

theorem internal_key_order_witness:
  "compare (ldb_ikc_init bytewise_comparator) (ldb_ikey_set [5] 9 LDB_TYPE_DELETION)
     (ldb_ikey_set [5] 3 LDB_TYPE_VALUE) < 0"
  using internal_key_order [of 9 3 "[5]" LDB_TYPE_DELETION "[5]" LDB_TYPE_VALUE]
  by (simp add: seq_ok_unat)

text \<open>
  C38. The separator of two internal keys in order lies between them (at or above the first, below
  the second), and the successor of an internal key is not below it: the index keys that tables
  store separate the blocks they index.
\<close>

theorem internal_separator_successor:
  assumes "8 \<le> length start" "8 \<le> length limit"
    and "compare (ldb_ikc_init bytewise_comparator) start limit < 0"
  shows "compare (ldb_ikc_init bytewise_comparator) start
      (cmp_shortest_separator (ldb_ikc_init bytewise_comparator) start limit) \<le> 0
    \<and> compare (ldb_ikc_init bytewise_comparator)
      (cmp_shortest_separator (ldb_ikc_init bytewise_comparator) start limit) limit < 0
    \<and> compare (ldb_ikc_init bytewise_comparator) start
      (cmp_short_successor (ldb_ikc_init bytewise_comparator) start) \<le> 0"
  using assms bytewise_user.ikc.sep_range [of start limit] bytewise_user.ikc.succ_range [of start]
  by simp

theorem internal_separator_successor_witness:
  "compare (ldb_ikc_init bytewise_comparator) [1, 4, 4, 1, 0, 0, 0, 0, 0, 0, 0]
     (cmp_shortest_separator (ldb_ikc_init bytewise_comparator)
        [1, 4, 4, 1, 0, 0, 0, 0, 0, 0, 0] [9, 1, 0, 0, 0, 0, 0, 0, 0]) \<le> 0"
  using internal_separator_successor
    [of "[1, 4, 4, 1, 0, 0, 0, 0, 0, 0, 0]" "[9, 1, 0, 0, 0, 0, 0, 0, 0]"]
  by (simp add: ldb_ikc_init_def ldb_ikc_compare_def bytewise_comparator_def slice_compare_def
      ldb_extract_user_key_def)

end
