(* ===== verification/Rand.thy ===== *)
theory Rand
  imports Prelude
begin

text \<open>
  The pseudo-random generator (\<^verbatim>\<open>src/src/util/random.c\<close>) that chooses the heights of skip list
  nodes. The state is the seed.
\<close>

definition ldb_rand_init :: "u32 \<Rightarrow> u32" where
  "ldb_rand_init seed =
     (let s = seed AND 0x7fffffff in if s = 0 \<or> s = 2147483647 then 1 else s)"

definition ldb_rand_next :: "u32 \<Rightarrow> u32" where
  "ldb_rand_next seed =
     (let M = 2147483647 :: u64;
          A = 16807 :: u64;
          product = ucast seed * A;
          s = ucast (drop_bit 31 product + (product AND M)) :: u32
      in if s > 2147483647 then s - 2147483647 else s)"

text \<open>Functions that draw a number return it with the new seed.\<close>

definition ldb_rand_uniform :: "u32 \<Rightarrow> u32 \<Rightarrow> u32 \<times> u32" where
  "ldb_rand_uniform seed n =
     (if n = 0 then (0, seed) else (let s = ldb_rand_next seed in (s mod n, s)))"

definition ldb_rand_one_in :: "u32 \<Rightarrow> u32 \<Rightarrow> bool \<times> u32" where
  "ldb_rand_one_in seed n = (let (x, s) = ldb_rand_uniform seed n in (x = 0, s))"

definition ldb_rand_skewed :: "u32 \<Rightarrow> nat \<Rightarrow> u32 \<times> u32" where
  "ldb_rand_skewed seed max_log =
     (let (shift, s) = ldb_rand_uniform seed (word_of_nat (max_log + 1))
      in ldb_rand_uniform s (push_bit (unat shift) 1))"

section \<open>The generator is multiplication modulo a prime\<close>

text \<open>Seeds that the generator never leaves.\<close>

definition seed_ok :: "u32 \<Rightarrow> bool" where
  "seed_ok s \<longleftrightarrow> 0 < unat s \<and> unat s < 2147483647"

lemma seed_ok_init: "seed_ok (ldb_rand_init seed)"
proof -
  let ?s = "seed AND 0x7fffffff"
  have "(0x7fffffff :: u32) = mask 31" by (simp add: mask_eq_exp_minus_1)
  then have "?s = take_bit 31 seed" by (simp only: take_bit_eq_mask)
  then have "unat ?s < 2 ^ 31" by (simp only: unat_take_bit_nat) simp
  moreover have "unat ?s \<noteq> 0" "unat ?s \<noteq> 2147483647" if "?s \<noteq> 0" "?s \<noteq> 2147483647"
    using that by (simp_all only: word_unat_eq_iff) auto
  ultimately show ?thesis by (auto simp: ldb_rand_init_def seed_ok_def Let_def)
qed

lemma mod_mersenne:
  fixes p :: nat
  assumes "p mod 2147483647 \<noteq> 0" "p < 2147483648 * 2147483647"
  shows "(let s = p div 2147483648 + p mod 2147483648 in if s > 2147483647 then s - 2147483647 else s)
    = p mod 2147483647"
proof -
  define q r where "q = p div 2147483648" and "r = p mod 2147483648"
  have p: "p = 2147483647 * q + (q + r)" by (simp add: q_def r_def)
  have "q < 2147483647" "r < 2147483648" using assms(2) by (auto simp: q_def r_def)
  moreover have m: "p mod 2147483647 = (q + r) mod 2147483647" unfolding p by (rule mod_mult_self4)
  ultimately show ?thesis using assms(1)
    by (auto simp: Let_def q_def [symmetric] r_def [symmetric] mod_if [of "q + r"])
qed

lemma coprime_step: "0 < s \<Longrightarrow> s < 2147483647 \<Longrightarrow> (s * 16807) mod 2147483647 \<noteq> (0::nat)"
proof
  assume s: "0 < s" "s < 2147483647" and z: "(s * 16807) mod 2147483647 = 0"
  from z have "2147483647 dvd s * 16807" by (rule mod_0_imp_dvd)
  then have "2147483647 dvd s * 16807 * 1407677000" by (rule dvd_mult2)
  also have "s * 16807 * 1407677000 = s + 2147483647 * (s * 11017)" by simp
  finally have "2147483647 dvd s" by (simp only: dvd_add_left_iff dvd_triv_left)
  with s show False by (auto dest: dvd_imp_le)
qed

lemma unat_ldb_rand_next:
  assumes "seed_ok s"
  shows "unat (ldb_rand_next s) = (unat s * 16807) mod 2147483647"
proof -
  define p where "p = unat s * 16807"
  have s: "0 < unat s" "unat s < 2147483647" using assms by (auto simp: seed_ok_def)
  have p: "p < 2147483647 * 16807" using s by (simp add: p_def)
  have prod: "unat (ucast s * 16807 :: u64) = p"
    using s by (simp add: unat_word_ariths p_def unsigned_ucast_eq unat_take_bit_nat take_bit_nat_def)
  have "(2147483647 :: u64) = mask 31" by (simp add: mask_eq_exp_minus_1)
  then have "(ucast s * 16807 :: u64) AND 2147483647 = take_bit 31 (ucast s * 16807)"
    by (simp only: take_bit_eq_mask)
  then have low: "unat ((ucast s * 16807 :: u64) AND 2147483647) = p mod 2147483648"
    by (simp add: unat_take_bit_nat prod)
  have high: "unat (drop_bit 31 (ucast s * 16807 :: u64)) = p div 2147483648"
    by (simp add: unat_drop_bit_nat prod)
  have sum: "p div 2147483648 + p mod 2147483648 < 4294967296"
    using p by (simp add: div_less_iff_less_mult)
  have "unat (drop_bit 31 (ucast s * 16807) + ((ucast s * 16807 :: u64) AND 2147483647))
      = p div 2147483648 + p mod 2147483648"
    using sum by (simp add: unat_word_ariths low high)
  then have "unat (ucast (drop_bit 31 (ucast s * 16807) + ((ucast s * 16807 :: u64) AND 2147483647)) :: u32)
      = p div 2147483648 + p mod 2147483648"
    using sum by (simp add: unsigned_ucast_eq take_bit_nat_def)
  note 32 = this
  have "p mod 2147483647 \<noteq> 0" using coprime_step s by (simp add: p_def)
  from mod_mersenne [OF this] p show ?thesis
    by (simp add: ldb_rand_next_def Let_def word_less_nat_alt 32 unat_sub word_le_nat_alt p_def split: if_splits)
qed

lemma seed_ok_next: "seed_ok s \<Longrightarrow> seed_ok (ldb_rand_next s)"
  using coprime_step [of "unat s"] by (simp add: seed_ok_def unat_ldb_rand_next)

end
