(* ===== verification/SkipList.thy ===== *)
theory SkipList
  imports DbFormat Rand
begin

text \<open>
  The skip list (\<^verbatim>\<open>src/src/skiplist.c\<close>). Nodes live in a heap, the list \<^term>\<open>sl_nodes\<close>, and a
  pointer to a node is its index there; \<^term>\<open>None\<close> is a null pointer. A node's key is the memory its
  key pointer points to: a length-prefixed internal key and whatever follows it. Nodes are never
  freed before the list is, so allocation appends to the heap.

  The search loops follow pointers, and nothing bounds them on an arbitrary heap: they are partial
  functions, shown to end on every well-formed list.
\<close>

section \<open>Nodes\<close>

abbreviation LDB_MAX_HEIGHT :: nat where
  "LDB_MAX_HEIGHT \<equiv> 12"

record skipnode =
  sn_key :: bytes
  sn_next :: "nat option list"

record skiplist =
  sl_comparator :: comparator
  sl_nodes :: "skipnode list"
  sl_head :: nat
  sl_max_height :: nat
  sl_rnd :: u32

definition ldb_skipnode_key :: "skiplist \<Rightarrow> nat \<Rightarrow> bytes" where
  "ldb_skipnode_key sl x = sn_key (sl_nodes sl ! x)"

definition ldb_skipnode_next :: "skiplist \<Rightarrow> nat \<Rightarrow> nat \<Rightarrow> nat option" where
  "ldb_skipnode_next sl x n = sn_next (sl_nodes sl ! x) ! n"

definition ldb_skipnode_setnext :: "skiplist \<Rightarrow> nat \<Rightarrow> nat \<Rightarrow> nat option \<Rightarrow> skiplist" where
  "ldb_skipnode_setnext sl x n y =
     sl\<lparr>sl_nodes := (sl_nodes sl)[x := (sl_nodes sl ! x)\<lparr>sn_next := (sn_next (sl_nodes sl ! x))[n := y]\<rparr>]\<rparr>"

definition ldb_skipnode_create :: "skiplist \<Rightarrow> bytes \<Rightarrow> nat \<Rightarrow> nat \<times> skiplist" where
  "ldb_skipnode_create sl key height =
     (length (sl_nodes sl),
      sl\<lparr>sl_nodes := sl_nodes sl @ [\<lparr>sn_key = key, sn_next = replicate height None\<rparr>]\<rparr>)"

section \<open>The list\<close>

definition ldb_skiplist_init :: "comparator \<Rightarrow> skiplist" where
  "ldb_skiplist_init cmp =
     (let sl = \<lparr>sl_comparator = cmp, sl_nodes = [], sl_head = 0, sl_max_height = 1,
                sl_rnd = ldb_rand_init 0xdeadbeef\<rparr>;
          (head, sl) = ldb_skipnode_create sl [] LDB_MAX_HEIGHT;
          sl = sl\<lparr>sl_head := head\<rparr>
      in fold (\<lambda>i sl. ldb_skipnode_setnext sl (sl_head sl) i None) [0..<LDB_MAX_HEIGHT] sl)"

text \<open>Decoding a key aborts when the memory does not start with a length; entries always do.\<close>

definition ldb_skiplist_compare :: "comparator \<Rightarrow> bytes \<Rightarrow> bytes \<Rightarrow> int" where
  "ldb_skiplist_compare cmp xp yp =
     compare cmp (fst (the (ldb_slice_decode xp))) (fst (the (ldb_slice_decode yp)))"

definition ldb_skiplist_equal :: "comparator \<Rightarrow> bytes \<Rightarrow> bytes \<Rightarrow> bool" where
  "ldb_skiplist_equal cmp xp yp \<longleftrightarrow> ldb_skiplist_compare cmp xp yp = 0"

function randheight_loop :: "u32 \<Rightarrow> nat \<Rightarrow> nat \<times> u32" where
  "randheight_loop rnd height =
     (if height < LDB_MAX_HEIGHT then
        (let (one, rnd) = ldb_rand_one_in rnd 4
         in if one then randheight_loop rnd (height + 1) else (height, rnd))
      else (height, rnd))"
  by pat_completeness auto
termination
  by (relation "measure (\<lambda>(rnd, height). LDB_MAX_HEIGHT - height)") auto

declare randheight_loop.simps [simp del]

definition ldb_skiplist_randheight :: "skiplist \<Rightarrow> nat \<times> skiplist" where
  "ldb_skiplist_randheight sl =
     (let (height, rnd) = randheight_loop (sl_rnd sl) 1 in (height, sl\<lparr>sl_rnd := rnd\<rparr>))"

definition ldb_skiplist_key_after_node :: "skiplist \<Rightarrow> bytes \<Rightarrow> nat option \<Rightarrow> bool" where
  "ldb_skiplist_key_after_node sl key node \<longleftrightarrow>
     (case node of
        None \<Rightarrow> False
      | Some n \<Rightarrow> ldb_skiplist_compare (sl_comparator sl) (ldb_skipnode_key sl n) key < 0)"

text \<open>
  The array \<^verbatim>\<open>prev\<close> that the caller may pass starts uninitialised: an element is \<^term>\<open>None\<close> until it
  is assigned.
\<close>

partial_function (option) find_gte_loop ::
  "skiplist \<Rightarrow> bytes \<Rightarrow> nat \<Rightarrow> nat \<Rightarrow> nat option list option \<Rightarrow> (nat option \<times> nat option list option) option" where
  "find_gte_loop sl key x level prev =
     (if ldb_skiplist_key_after_node sl key (ldb_skipnode_next sl x level)
      then find_gte_loop sl key (the (ldb_skipnode_next sl x level)) level prev
      else if level = 0
      then Some (ldb_skipnode_next sl x level, map_option (\<lambda>p. p[level := Some x]) prev)
      else find_gte_loop sl key x (level - 1) (map_option (\<lambda>p. p[level := Some x]) prev))"

definition ldb_skiplist_find_gte ::
  "skiplist \<Rightarrow> bytes \<Rightarrow> nat option list option \<Rightarrow> (nat option \<times> nat option list option) option" where
  "ldb_skiplist_find_gte sl key prev = find_gte_loop sl key (sl_head sl) (sl_max_height sl - 1) prev"

text \<open>\<^verbatim>\<open>find_lt\<close> asserts at every node it visits; a failed assertion ends the run with \<^term>\<open>None\<close>.\<close>

partial_function (option) find_lt_loop :: "skiplist \<Rightarrow> bytes \<Rightarrow> nat \<Rightarrow> nat \<Rightarrow> nat option" where
  "find_lt_loop sl key x level =
     (if \<not> (x = sl_head sl \<or> ldb_skiplist_compare (sl_comparator sl) (ldb_skipnode_key sl x) key < 0) then None
      else if ldb_skipnode_next sl x level = None
          \<or> ldb_skiplist_compare (sl_comparator sl)
               (ldb_skipnode_key sl (the (ldb_skipnode_next sl x level))) key \<ge> 0
      then (if level = 0 then Some x else find_lt_loop sl key x (level - 1))
      else find_lt_loop sl key (the (ldb_skipnode_next sl x level)) level)"

definition ldb_skiplist_find_lt :: "skiplist \<Rightarrow> bytes \<Rightarrow> nat option" where
  "ldb_skiplist_find_lt sl key = find_lt_loop sl key (sl_head sl) (sl_max_height sl - 1)"

partial_function (option) find_last_loop :: "skiplist \<Rightarrow> nat \<Rightarrow> nat \<Rightarrow> nat option" where
  "find_last_loop sl x level =
     (case ldb_skipnode_next sl x level of
        None \<Rightarrow> (if level = 0 then Some x else find_last_loop sl x (level - 1))
      | Some nxt \<Rightarrow> find_last_loop sl nxt level)"

definition ldb_skiplist_find_last :: "skiplist \<Rightarrow> nat option" where
  "ldb_skiplist_find_last sl = find_last_loop sl (sl_head sl) (sl_max_height sl - 1)"

text \<open>The two stores that link the new node \<^term>\<open>x\<close> at level \<^term>\<open>i\<close>.\<close>

definition link_level :: "nat option list \<Rightarrow> nat \<Rightarrow> nat \<Rightarrow> skiplist \<Rightarrow> skiplist" where
  "link_level prev x i sl =
     (let p = the (prev ! i);
          sl = ldb_skipnode_setnext sl x i (ldb_skipnode_next sl p i)
      in ldb_skipnode_setnext sl p i (Some x))"

text \<open>\<^term>\<open>None\<close> is a failed assertion (a key that is already there) or a search that does not end.\<close>

definition insert_prepare :: "skiplist \<Rightarrow> bytes \<Rightarrow> (nat option list \<times> nat \<times> nat \<times> skiplist) option" where
  "insert_prepare sl key =
     (case ldb_skiplist_find_gte sl key (Some (replicate LDB_MAX_HEIGHT None)) of
        None \<Rightarrow> None
      | Some (x, prev) \<Rightarrow>
          (if \<not> (x = None \<or> \<not> ldb_skiplist_equal (sl_comparator sl) key (ldb_skipnode_key sl (the x)))
           then None
           else
             (let prev = the prev;
                  (height, sl) = ldb_skiplist_randheight sl;
                  (prev, sl) =
                    (if height > sl_max_height sl
                     then (fold (\<lambda>i p. p[i := Some (sl_head sl)]) [sl_max_height sl..<height] prev,
                           sl\<lparr>sl_max_height := height\<rparr>)
                     else (prev, sl));
                  (x, sl) = ldb_skipnode_create sl key height
              in Some (prev, x, height, sl))))"

text \<open>The insertion, up to its last loop and with it, which links one level after the other.\<close>

definition ldb_skiplist_insert :: "skiplist \<Rightarrow> bytes \<Rightarrow> skiplist option" where
  "ldb_skiplist_insert sl key =
     (case insert_prepare sl key of
        None \<Rightarrow> None
      | Some (prev, x, height, sl) \<Rightarrow> Some (fold (link_level prev x) [0..<height] sl))"

definition ldb_skiplist_contains :: "skiplist \<Rightarrow> bytes \<Rightarrow> bool option" where
  "ldb_skiplist_contains sl key =
     map_option (\<lambda>(x, _). x \<noteq> None \<and> ldb_skiplist_equal (sl_comparator sl) key (ldb_skipnode_key sl (the x)))
       (ldb_skiplist_find_gte sl key None)"

section \<open>Iterators\<close>

text \<open>An iterator is its list and the node it is at; moves that search may not end, as above.\<close>

record skipiter =
  si_list :: skiplist
  si_node :: "nat option"

definition ldb_skipiter_init :: "skiplist \<Rightarrow> skipiter" where
  "ldb_skipiter_init sl = \<lparr>si_list = sl, si_node = None\<rparr>"

definition ldb_skipiter_valid :: "skipiter \<Rightarrow> bool" where
  "ldb_skipiter_valid iter \<longleftrightarrow> si_node iter \<noteq> None"

definition ldb_skipiter_key :: "skipiter \<Rightarrow> bytes" where
  "ldb_skipiter_key iter = ldb_skipnode_key (si_list iter) (the (si_node iter))"

definition ldb_skipiter_next :: "skipiter \<Rightarrow> skipiter" where
  "ldb_skipiter_next iter = iter\<lparr>si_node := ldb_skipnode_next (si_list iter) (the (si_node iter)) 0\<rparr>"

definition ldb_skipiter_prev :: "skipiter \<Rightarrow> skipiter option" where
  "ldb_skipiter_prev iter =
     map_option (\<lambda>x. iter\<lparr>si_node := (if x = sl_head (si_list iter) then None else Some x)\<rparr>)
       (ldb_skiplist_find_lt (si_list iter) (ldb_skipiter_key iter))"

definition ldb_skipiter_seek :: "skipiter \<Rightarrow> bytes \<Rightarrow> skipiter option" where
  "ldb_skipiter_seek iter target =
     map_option (\<lambda>(x, _). iter\<lparr>si_node := x\<rparr>) (ldb_skiplist_find_gte (si_list iter) target None)"

definition ldb_skipiter_seek_first :: "skipiter \<Rightarrow> skipiter" where
  "ldb_skipiter_seek_first iter =
     iter\<lparr>si_node := ldb_skipnode_next (si_list iter) (sl_head (si_list iter)) 0\<rparr>"

definition ldb_skipiter_seek_last :: "skipiter \<Rightarrow> skipiter option" where
  "ldb_skipiter_seek_last iter =
     map_option (\<lambda>x. iter\<lparr>si_node := (if x = sl_head (si_list iter) then None else Some x)\<rparr>)
       (ldb_skiplist_find_last (si_list iter))"

section \<open>Linked levels\<close>

text \<open>\<^term>\<open>chain f x ns\<close>: following \<^term>\<open>f\<close> from \<^term>\<open>x\<close> visits exactly \<^term>\<open>ns\<close>, then ends.\<close>

fun chain :: "(nat \<Rightarrow> nat option) \<Rightarrow> nat \<Rightarrow> nat list \<Rightarrow> bool" where
  "chain f x [] \<longleftrightarrow> f x = None"
| "chain f x (n # ns) \<longleftrightarrow> f x = Some n \<and> chain f n ns"

abbreviation linked :: "skiplist \<Rightarrow> nat \<Rightarrow> nat list \<Rightarrow> bool" where
  "linked sl i ns \<equiv> chain (\<lambda>x. ldb_skipnode_next sl x i) 0 ns"

definition first :: "'a list \<Rightarrow> 'a option" where
  "first xs = (case xs of [] \<Rightarrow> None | x # _ \<Rightarrow> Some x)"

lemma first_simps [simp]: "first [] = None" "first (x # xs) = Some x"
  by (simp_all add: first_def)

lemma last_or: "last (x # xs) = x \<or> last (x # xs) \<in> set xs"
  by (cases xs rule: rev_cases) auto

lemma chain_append: "chain f x (p @ s) \<Longrightarrow> chain f (last (x # p)) s"
  by (induction p arbitrary: x) auto

lemma chain_next: "chain f x ns \<Longrightarrow> f x = first ns"
  by (cases ns) auto

lemma chain_cong: "(\<And>y. y \<in> set (x # ns) \<Longrightarrow> f y = g y) \<Longrightarrow> chain f x ns = chain g x ns"
  by (induction ns arbitrary: x) auto

lemma chain_insert:
  "chain f x (p @ s) \<Longrightarrow> distinct (x # p @ s) \<Longrightarrow> n \<notin> set (x # p @ s) \<Longrightarrow> q = last (x # p) \<Longrightarrow>
     chain (f(n := f q, q := Some n)) x (p @ n # s)"
proof (induction p arbitrary: x)
  case Nil
  then have "chain (f(n := f x, x := Some n)) n s = chain (f(n := f x)) n s"
    by (intro chain_cong) auto
  also have "\<dots>" using Nil
    by (cases s) (auto intro: chain_cong [THEN iffD1, rotated])
  finally show ?case using Nil by (simp add: fun_upd_def)
next
  case (Cons a p)
  have "last (a # p) \<noteq> x" using Cons.prems by (metis append_Cons distinct.simps(2) in_set_conv_decomp last_in_set list.distinct(1) set_append Un_iff)
  with Cons show ?case by auto
qed

text \<open>The nodes of a list that are linked at level \<^term>\<open>i\<close>, when node \<^term>\<open>n\<close> is linked at \<^term>\<open>h n\<close> levels.\<close>

definition level :: "(nat \<Rightarrow> nat) \<Rightarrow> nat \<Rightarrow> nat list \<Rightarrow> nat list" where
  "level h i L = filter (\<lambda>n. i < h n) L"

lemma level_append [simp]: "level h i (xs @ ys) = level h i xs @ level h i ys"
  by (simp add: level_def)

lemma level_simps [simp]: "level h i [] = []" "level h i (n # ns) = (if i < h n then n # level h i ns else level h i ns)"
  by (simp_all add: level_def)

lemma set_level [simp]: "set (level h i L) = {n \<in> set L. i < h n}"
  by (auto simp: level_def)

lemma level_upd: "n \<notin> set L \<Longrightarrow> level (h(n := k)) i L = level h i L"
  by (auto simp: level_def intro!: filter_cong)

lemma last_level_Suc:
  "\<exists>p s. level h i A = p @ s \<and> last (0 # level h (Suc i) A) = last (0 # p)"
proof (cases "level h (Suc i) A = []")
  case True
  then show ?thesis by (intro exI [of _ "[]"] exI [of _ "level h i A"]) auto
next
  case False
  define x where "x = last (level h (Suc i) A)"
  have "x \<in> set (level h (Suc i) A)" using False unfolding x_def by (rule last_in_set)
  then have "x \<in> set (level h i A)" by auto
  then obtain p s where "level h i A = (p @ [x]) @ s" by (metis append.assoc append_Cons append_Nil in_set_conv_decomp)
  then show ?thesis using False by (intro exI [of _ "p @ [x]"] exI [of _ s]) (simp add: x_def)
qed

section \<open>Well-formed lists\<close>

locale skip_order = key_order "ldb_skiplist_compare C" kok for C :: comparator and kok :: "bytes \<Rightarrow> bool"
begin

abbreviation cmp :: "bytes \<Rightarrow> bytes \<Rightarrow> int" where
  "cmp \<equiv> ldb_skiplist_compare C"

definition core :: "skiplist \<Rightarrow> (nat \<Rightarrow> nat) \<Rightarrow> nat list \<Rightarrow> bool" where
  "core sl h L \<longleftrightarrow>
     sl_comparator sl = C \<and> sl_head sl = 0 \<and> sl_nodes sl \<noteq> []
     \<and> length (sn_next (sl_nodes sl ! 0)) = LDB_MAX_HEIGHT
     \<and> distinct L \<and> 1 \<le> sl_max_height sl \<and> sl_max_height sl \<le> LDB_MAX_HEIGHT
     \<and> (\<forall>n \<in> set L. 0 < n \<and> n < length (sl_nodes sl) \<and> kok (ldb_skipnode_key sl n)
          \<and> h n \<le> length (sn_next (sl_nodes sl ! n)) \<and> h n \<le> sl_max_height sl)
     \<and> sorted_wrt (\<lambda>a b. cmp (ldb_skipnode_key sl a) (ldb_skipnode_key sl b) < 0) L
     \<and> (\<forall>i < LDB_MAX_HEIGHT. linked sl i (level h i L))"

lemma core_node:
  "core sl h L \<Longrightarrow> n \<in> set L \<Longrightarrow> 0 < n \<and> n < length (sl_nodes sl) \<and> kok (ldb_skipnode_key sl n)
     \<and> h n \<le> length (sn_next (sl_nodes sl ! n)) \<and> h n \<le> sl_max_height sl"
  by (simp add: core_def)

text \<open>The nodes before a key, and those at or after it.\<close>

definition below :: "skiplist \<Rightarrow> bytes \<Rightarrow> nat list \<Rightarrow> nat list" where
  "below sl k L = filter (\<lambda>n. cmp (ldb_skipnode_key sl n) k < 0) L"

definition above :: "skiplist \<Rightarrow> bytes \<Rightarrow> nat list \<Rightarrow> nat list" where
  "above sl k L = filter (\<lambda>n. cmp (ldb_skipnode_key sl n) k \<ge> 0) L"

lemma sorted_split:
  "sorted_wrt (\<lambda>a b. cmp (f a) (f b) < 0) L \<Longrightarrow> kok k \<Longrightarrow> \<forall>n \<in> set L. kok (f n) \<Longrightarrow>
     L = filter (\<lambda>n. cmp (f n) k < 0) L @ filter (\<lambda>n. cmp (f n) k \<ge> 0) L"
proof (induction L)
  case (Cons a L)
  show ?case
  proof (cases "cmp (f a) k < 0")
    case False
    then have "cmp (f n) k \<ge> 0" if "n \<in> set L" for n
      using that Cons.prems cmp_less_trans [of "f a" "f n" k] by force
    then have "filter (\<lambda>n. cmp (f n) k < 0) L = []" "filter (\<lambda>n. cmp (f n) k \<ge> 0) L = L"
      by (force simp: filter_empty_conv filter_id_conv)+
    with False show ?thesis by simp
  qed (use Cons in simp)
qed simp

lemma core_split: "core sl h L \<Longrightarrow> kok k \<Longrightarrow> L = below sl k L @ above sl k L"
  unfolding below_def above_def by (intro sorted_split) (auto simp: core_def)

lemma core_linked:
  assumes "core sl h L" "kok k" "i < LDB_MAX_HEIGHT"
  shows "linked sl i (level h i (below sl k L) @ level h i (above sl k L))"
  using assms core_split [OF assms(1,2)] by (metis core_def level_append)

lemma key_after_next:
  assumes "core sl h L" "kok k" "i < LDB_MAX_HEIGHT" "level h i (below sl k L) = p @ s"
  shows "ldb_skipnode_next sl (last (0 # p)) i = first (s @ level h i (above sl k L))"
    and "ldb_skiplist_key_after_node sl k (first (s @ level h i (above sl k L))) \<longleftrightarrow> s \<noteq> []"
proof -
  have C: "sl_comparator sl = C" using assms(1) by (simp add: core_def)
  have "linked sl i (p @ s @ level h i (above sl k L))"
    using core_linked [OF assms(1-3)] assms(4) by simp
  from chain_append [OF this] show "ldb_skipnode_next sl (last (0 # p)) i = first (s @ level h i (above sl k L))"
    by (rule chain_next)
  show "ldb_skiplist_key_after_node sl k (first (s @ level h i (above sl k L))) \<longleftrightarrow> s \<noteq> []"
  proof (cases s)
    case (Cons n s')
    then have "n \<in> set (level h i (below sl k L))" using assms(4) by simp
    then show ?thesis using Cons C by (simp add: ldb_skiplist_key_after_node_def below_def)
  next
    case Nil
    then show ?thesis
    proof (cases "level h i (above sl k L)")
      case (Cons n ns)
      then have "n \<in> set (level h i (above sl k L))" by simp
      then show ?thesis using Cons Nil C by (simp add: ldb_skiplist_key_after_node_def above_def)
    qed (simp add: ldb_skiplist_key_after_node_def)
  qed
qed

section \<open>Searching\<close>

text \<open>What the search leaves in \<^verbatim>\<open>prev\<close>: at every level the last node before the key.\<close>

fun prev_fill :: "(nat \<Rightarrow> nat) \<Rightarrow> nat list \<Rightarrow> nat \<Rightarrow> nat option list \<Rightarrow> nat option list" where
  "prev_fill h A 0 p = p[0 := Some (last (0 # level h 0 A))]"
| "prev_fill h A (Suc i) p = prev_fill h A i (p[Suc i := Some (last (0 # level h (Suc i) A))])"

lemma length_prev_fill [simp]: "length (prev_fill h A i p) = length p"
  by (induction i arbitrary: p) auto

lemma prev_fill_nth:
  "j < length p \<Longrightarrow> prev_fill h A i p ! j = (if j \<le> i then Some (last (0 # level h j A)) else p ! j)"
  by (induction i arbitrary: p) (auto simp: nth_list_update le_Suc_eq)

lemma find_gte_walk:
  assumes "core sl h L" "kok k" "i < LDB_MAX_HEIGHT"
  shows "level h i (below sl k L) = p @ s \<Longrightarrow>
    find_gte_loop sl k (last (0 # p)) i prev = find_gte_loop sl k (last (0 # level h i (below sl k L))) i prev"
proof (induction s arbitrary: p)
  case (Cons n s)
  note * = key_after_next [OF assms Cons.prems]
  have "find_gte_loop sl k (last (0 # p)) i prev = find_gte_loop sl k n i prev"
    using * by (subst find_gte_loop.simps) simp
  with Cons.IH [of "p @ [n]"] Cons.prems show ?case by simp
qed simp

lemma find_gte_level:
  assumes "core sl h L" "kok k"
  shows "i < LDB_MAX_HEIGHT \<Longrightarrow>
    find_gte_loop sl k (last (0 # level h i (below sl k L))) i prev
      = Some (first (level h 0 (above sl k L)), map_option (prev_fill h (below sl k L) i) prev)"
proof (induction i arbitrary: prev)
  case 0
  note * = key_after_next [OF assms 0, of "level h 0 (below sl k L)" "[]", simplified]
  show ?case using * by (subst find_gte_loop.simps) (cases prev; simp)
next
  case (Suc i)
  let ?x = "last (0 # level h (Suc i) (below sl k L))"
  note * = key_after_next [OF assms Suc.prems, of "level h (Suc i) (below sl k L)" "[]", simplified]
  have "find_gte_loop sl k ?x (Suc i) prev = find_gte_loop sl k ?x i (map_option (\<lambda>p. p[Suc i := Some ?x]) prev)"
    using * by (subst find_gte_loop.simps) simp
  moreover obtain p s where "level h i (below sl k L) = p @ s" "?x = last (0 # p)"
    using last_level_Suc by blast
  ultimately show ?case
    using Suc find_gte_walk [OF assms(1,2), of i p s] by (simp add: option.map_comp comp_def)
qed

lemma find_gte_eq:
  assumes "core sl h L" "kok k"
  shows "ldb_skiplist_find_gte sl k prev
    = Some (first (level h 0 (above sl k L)), map_option (prev_fill h (below sl k L) (sl_max_height sl - 1)) prev)"
proof -
  let ?i = "sl_max_height sl - 1"
  have "?i < LDB_MAX_HEIGHT" "sl_head sl = 0" using assms(1) by (auto simp: core_def)
  then show ?thesis
    using find_gte_walk [OF assms, of ?i "[]"] find_gte_level [OF assms, of ?i prev]
    by (simp add: ldb_skiplist_find_gte_def)
qed

section \<open>Inserting\<close>

lemma next_setnext:
  assumes "x < length (sl_nodes sl)" "n < length (sn_next (sl_nodes sl ! x))"
  shows "ldb_skipnode_next (ldb_skipnode_setnext sl x n v) y m = (if y = x \<and> m = n then v else ldb_skipnode_next sl y m)"
  using assms by (auto simp: ldb_skipnode_next_def ldb_skipnode_setnext_def nth_list_update)

lemma setnext_node:
  "sl_nodes (ldb_skipnode_setnext sl x n v) ! y
     = (if y = x \<and> x < length (sl_nodes sl) then (sl_nodes sl ! x)\<lparr>sn_next := (sn_next (sl_nodes sl ! x))[n := v]\<rparr>
        else sl_nodes sl ! y)"
  by (cases "x < length (sl_nodes sl)") (auto simp: ldb_skipnode_setnext_def nth_list_update list_update_beyond not_less)

lemma setnext_frame [simp]:
  "length (sl_nodes (ldb_skipnode_setnext sl x n v)) = length (sl_nodes sl)"
  "ldb_skipnode_key (ldb_skipnode_setnext sl x n v) y = ldb_skipnode_key sl y"
  "length (sn_next (sl_nodes (ldb_skipnode_setnext sl x n v) ! y)) = length (sn_next (sl_nodes sl ! y))"
  "sl_comparator (ldb_skipnode_setnext sl x n v) = sl_comparator sl"
  "sl_head (ldb_skipnode_setnext sl x n v) = sl_head sl"
  "sl_max_height (ldb_skipnode_setnext sl x n v) = sl_max_height sl"
  "sl_nodes (ldb_skipnode_setnext sl x n v) = [] \<longleftrightarrow> sl_nodes sl = []"
  by (simp_all add: setnext_node ldb_skipnode_key_def) (simp_all add: ldb_skipnode_setnext_def)

lemma link_level_frame [simp]:
  "length (sl_nodes (link_level pv x n sl)) = length (sl_nodes sl)"
  "ldb_skipnode_key (link_level pv x n sl) y = ldb_skipnode_key sl y"
  "length (sn_next (sl_nodes (link_level pv x n sl) ! y)) = length (sn_next (sl_nodes sl ! y))"
  "sl_comparator (link_level pv x n sl) = sl_comparator sl"
  "sl_head (link_level pv x n sl) = sl_head sl"
  "sl_max_height (link_level pv x n sl) = sl_max_height sl"
  "sl_nodes (link_level pv x n sl) = [] \<longleftrightarrow> sl_nodes sl = []"
  by (simp_all add: link_level_def Let_def)

text \<open>
  Linking the new node \<^term>\<open>n\<close> at level \<^term>\<open>k\<close>, when it is linked at the levels below: the list is
  well formed before and after, so a reader between two levels finds it in order.
\<close>

lemma core_link:
  assumes core: "core sl (h(n := k)) (A @ n # B)" and k: "k < LDB_MAX_HEIGHT" "k < length (sn_next (sl_nodes sl ! n))"
    and prev: "pv ! k = Some (last (0 # level h k A))" and hk: "Suc k \<le> sl_max_height sl"
    and hA: "\<And>a i. a \<in> set A \<Longrightarrow> i < h a \<Longrightarrow> i < length (sn_next (sl_nodes sl ! a))"
  shows "core (link_level pv n k sl) (h(n := Suc k)) (A @ n # B)"
proof -
  let ?p = "last (0 # level h k A)"
  have n: "n \<notin> set A" "n \<notin> set B" "0 < n" "n < length (sl_nodes sl)" "0 \<notin> set A" "0 \<notin> set B"
    using core by (auto simp: core_def)
  have p: "?p = 0 \<or> ?p \<in> set A \<and> k < h ?p"
    using last_in_set [of "level h k A"] by (auto simp del: last_in_set)
  then have pv: "?p < length (sl_nodes sl)" "k < length (sn_next (sl_nodes sl ! ?p))" "?p \<noteq> n"
    using core k n hA by (auto simp: core_def)
  have nx: "ldb_skipnode_next (link_level pv n k sl) y i =
    (if i = k then ((\<lambda>x. ldb_skipnode_next sl x k)(n := ldb_skipnode_next sl ?p k, ?p := Some n)) y
     else ldb_skipnode_next sl y i)" for y i
    using pv k n prev by (auto simp: link_level_def Let_def next_setnext)
  have lk: "linked (link_level pv n k sl) i (level (h(n := Suc k)) i (A @ n # B))" if i: "i < LDB_MAX_HEIGHT" for i
  proof (cases "i = k")
    case False
    then have "level (h(n := Suc k)) i (A @ n # B) = level (h(n := k)) i (A @ n # B)"
      using n by (simp add: level_upd)
    with core i False show ?thesis by (simp add: core_def nx)
  next
    case True
    have "linked sl k (level h k A @ level h k B)"
      using core k n by (auto simp: core_def level_upd dest!: spec [of _ k])
    moreover have "distinct (0 # level h k A @ level h k B)" using core n by (auto simp: core_def level_def)
    ultimately have "chain ((\<lambda>x. ldb_skipnode_next sl x k)(n := ldb_skipnode_next sl ?p k, ?p := Some n)) 0
        (level h k A @ n # level h k B)"
      using n by (intro chain_insert) auto
    moreover have "(\<lambda>x. ldb_skipnode_next (link_level pv n k sl) x k)
        = (\<lambda>x. ldb_skipnode_next sl x k)(n := ldb_skipnode_next sl ?p k, ?p := Some n)"
      by (rule ext) (simp only: nx simp_thms if_True)
    moreover have "level (h(n := Suc k)) k (A @ n # B) = level h k A @ n # level h k B"
      using n by (simp add: level_upd)
    ultimately show ?thesis unfolding True by (simp only:)
  qed
  have "(h(n := Suc k)) m \<le> length (sn_next (sl_nodes sl ! m)) \<and> (h(n := Suc k)) m \<le> sl_max_height sl"
    if "m \<in> set (A @ n # B)" for m
    using core_node [OF core that] hk k(2) by (cases "m = n") auto
  then show ?thesis using core lk unfolding core_def by simp
qed

lemma randheight_bounds:
  "1 \<le> ht \<Longrightarrow> ht \<le> LDB_MAX_HEIGHT \<Longrightarrow> 1 \<le> fst (randheight_loop rnd ht) \<and> fst (randheight_loop rnd ht) \<le> LDB_MAX_HEIGHT"
proof (induction rnd ht rule: randheight_loop.induct)
  case (1 rnd ht)
  then show ?case by (subst (1 2) randheight_loop.simps) (auto split: prod.splits)
qed

lemma core_update:
  "core (sl\<lparr>sl_rnd := r\<rparr>) h L = core sl h L"
  "core sl h L \<Longrightarrow> sl_max_height sl \<le> m \<Longrightarrow> m \<le> LDB_MAX_HEIGHT \<Longrightarrow> core (sl\<lparr>sl_max_height := m\<rparr>) h L"
  unfolding core_def ldb_skipnode_next_def ldb_skipnode_key_def by (auto intro: order_trans)

lemma create_frame:
  assumes "ldb_skipnode_create sl key ht = (x, sl')"
  shows "x = length (sl_nodes sl)" "length (sl_nodes sl') = Suc (length (sl_nodes sl))"
    "ldb_skipnode_key sl' x = key" "length (sn_next (sl_nodes sl' ! x)) = ht"
    "sl_comparator sl' = sl_comparator sl" "sl_head sl' = sl_head sl" "sl_max_height sl' = sl_max_height sl"
    "y < length (sl_nodes sl) \<Longrightarrow> sl_nodes sl' ! y = sl_nodes sl ! y"
  using assms by (auto simp: ldb_skipnode_create_def ldb_skipnode_key_def nth_append)

lemma core_create:
  assumes core: "core sl h (A @ B)" and c: "ldb_skipnode_create sl k ht = (x, sl')" and k: "kok k"
    and A: "\<forall>a \<in> set A. cmp (ldb_skipnode_key sl a) k < 0" and B: "\<forall>b \<in> set B. cmp k (ldb_skipnode_key sl b) < 0"
  shows "core sl' (h(x := 0)) (A @ x # B)"
proof -
  note f = create_frame [OF c]
  have lt: "n < length (sl_nodes sl)" "0 < n" if "n \<in> set (A @ B)" for n
    using core_node [OF core that] by auto
  then have x: "x \<notin> set A" "x \<notin> set B" using f(1) by fastforce+
  have pos: "0 < length (sl_nodes sl)" using core by (simp add: core_def)
  have key: "ldb_skipnode_key sl' n = ldb_skipnode_key sl n" if "n < length (sl_nodes sl)" for n
    using f(8) [OF that] by (simp add: ldb_skipnode_key_def)
  have srt: "sorted_wrt (\<lambda>a b. cmp (ldb_skipnode_key sl' a) (ldb_skipnode_key sl' b) < 0) (A @ x # B)"
  proof -
    have "sorted_wrt (\<lambda>a b. cmp (ldb_skipnode_key sl a) (ldb_skipnode_key sl b) < 0) (A @ B)"
      using core by (simp add: core_def)
    then have "sorted_wrt (\<lambda>a b. cmp (ldb_skipnode_key sl' a) (ldb_skipnode_key sl' b) < 0) (A @ B)"
      by (rule sorted_wrt_mono_rel [rotated]) (use key lt in auto)
    then show ?thesis using A B f(3) key lt by (auto simp: sorted_wrt_append)
  qed
  have lk: "linked sl' i (level (h(x := 0)) i (A @ x # B))" if "i < LDB_MAX_HEIGHT" for i
  proof -
    have "linked sl i (level h i (A @ B))" using core that by (simp add: core_def)
    moreover have "level (h(x := 0)) i (A @ x # B) = level h i (A @ B)" using x by (simp add: level_upd)
    moreover have "linked sl' i (level h i (A @ B)) = linked sl i (level h i (A @ B))"
      using lt pos f(8) by (intro chain_cong) (auto simp: ldb_skipnode_next_def)
    ultimately show ?thesis by simp
  qed
  have "\<forall>n \<in> set (A @ x # B). 0 < n \<and> n < length (sl_nodes sl') \<and> kok (ldb_skipnode_key sl' n)
      \<and> (h(x := 0)) n \<le> length (sn_next (sl_nodes sl' ! n)) \<and> (h(x := 0)) n \<le> sl_max_height sl'"
  proof
    fix n assume "n \<in> set (A @ x # B)"
    then show "0 < n \<and> n < length (sl_nodes sl') \<and> kok (ldb_skipnode_key sl' n)
      \<and> (h(x := 0)) n \<le> length (sn_next (sl_nodes sl' ! n)) \<and> (h(x := 0)) n \<le> sl_max_height sl'"
      using core_node [OF core, of n] f key [of n] k pos by (cases "n = x") auto
  qed
  moreover have "distinct (A @ x # B)" using core x by (auto simp: core_def)
  moreover have "sl_nodes sl' \<noteq> []" using f(2) by auto
  ultimately show ?thesis using core srt lk f pos unfolding core_def by simp
qed

text \<open>A complete list: every node is linked at the lowest level at least.\<close>

definition skip_list :: "skiplist \<Rightarrow> nat list \<Rightarrow> bool" where
  "skip_list sl L \<longleftrightarrow> (\<exists>h. core sl h L \<and> (\<forall>n \<in> set L. 0 < h n))"

lemma level_0: "\<forall>n \<in> set L. 0 < h n \<Longrightarrow> level h 0 L = L"
  by (simp add: level_def)

lemma skip_list_find_gte:
  assumes "skip_list sl L" "kok k"
  shows "ldb_skiplist_find_gte sl k None = Some (first (above sl k L), None)"
proof -
  obtain h where h: "core sl h L" "\<forall>n \<in> set L. 0 < h n" using assms(1) by (auto simp: skip_list_def)
  then have "level h 0 (above sl k L) = above sl k L" by (intro level_0) (auto simp: above_def)
  then show ?thesis using find_gte_eq [OF h(1) assms(2), of None] by simp
qed

lemma prev_fold_nth:
  "b \<le> length p \<Longrightarrow> j < length p \<Longrightarrow> fold (\<lambda>i p. p[i := Some z]) [a..<b] p ! j = (if a \<le> j \<and> j < b then Some z else p ! j)"
proof (induction b)
  case (Suc b)
  have "length (fold (\<lambda>i p. p[i := Some z]) [a..<b] p) = length p"
    by (induction b) auto
  with Suc show ?case by (auto simp: nth_list_update less_Suc_eq)
qed simp

lemma link_levels:
  assumes core: "core sl (h(x := 0)) (A @ x # B)" and ht: "ht \<le> sl_max_height sl" "ht = length (sn_next (sl_nodes sl ! x))"
    and prev: "\<forall>i < ht. pv ! i = Some (last (0 # level h i A))"
    and hA: "\<And>a i. a \<in> set A \<Longrightarrow> i < h a \<Longrightarrow> i < length (sn_next (sl_nodes sl ! a))"
  shows "k \<le> ht \<Longrightarrow> core (fold (link_level pv x) [0..<k] sl) (h(x := k)) (A @ x # B)
    \<and> sl_max_height (fold (link_level pv x) [0..<k] sl) = sl_max_height sl
    \<and> (\<forall>y. length (sn_next (sl_nodes (fold (link_level pv x) [0..<k] sl) ! y)) = length (sn_next (sl_nodes sl ! y)))
    \<and> (\<forall>y. ldb_skipnode_key (fold (link_level pv x) [0..<k] sl) y = ldb_skipnode_key sl y)"
proof (induction k)
  case (Suc k)
  let ?sl = "fold (link_level pv x) [0..<k] sl"
  have "core ?sl (h(x := k)) (A @ x # B)" and f: "sl_max_height ?sl = sl_max_height sl"
    "\<And>y. length (sn_next (sl_nodes ?sl ! y)) = length (sn_next (sl_nodes sl ! y))"
    "\<And>y. ldb_skipnode_key ?sl y = ldb_skipnode_key sl y"
    using Suc.IH [OF Suc_leD [OF Suc.prems]] by blast+
  moreover have "k < LDB_MAX_HEIGHT" using core Suc.prems ht by (simp add: core_def)
  ultimately have "core (link_level pv x k ?sl) (h(x := Suc k)) (A @ x # B)"
    using Suc.prems ht prev hA by (intro core_link) auto
  then show ?case using f by (simp del: fun_upd_apply)
qed (use core in \<open>simp del: fun_upd_apply\<close>)

lemma prepare_ok:
  assumes sl: "skip_list sl L" and k: "kok k" and new: "\<forall>n \<in> set L. cmp (ldb_skipnode_key sl n) k \<noteq> 0"
  shows "\<exists>pv x ht sl2 h. insert_prepare sl k = Some (pv, x, ht, sl2) \<and> 1 \<le> ht \<and> (\<forall>n \<in> set L. 0 < h n)
    \<and> x \<notin> set L \<and> (\<forall>m \<le> ht. core (fold (link_level pv x) [0..<m] sl2) (h(x := m)) (below sl k L @ x # above sl k L)
      \<and> ldb_skipnode_key (fold (link_level pv x) [0..<m] sl2) x = k
      \<and> (\<forall>n \<in> set L. ldb_skipnode_key (fold (link_level pv x) [0..<m] sl2) n = ldb_skipnode_key sl n))"
proof -
  define A B where "A = below sl k L" and "B = above sl k L"
  obtain h where h: "core sl h L" "\<forall>n \<in> set L. 0 < h n" using sl by (auto simp: skip_list_def)
  have L: "L = A @ B" unfolding A_def B_def by (rule core_split [OF h(1) k])
  note nodes = core_node [OF h(1)]
  have C: "sl_comparator sl = C" "sl_head sl = 0" "1 \<le> sl_max_height sl" "sl_max_height sl \<le> LDB_MAX_HEIGHT"
    using h(1) by (simp_all add: core_def)
  have A: "\<forall>a \<in> set A. cmp (ldb_skipnode_key sl a) k < 0" by (simp add: A_def below_def)
  have B: "\<forall>b \<in> set B. cmp k (ldb_skipnode_key sl b) < 0"
  proof
    fix b assume "b \<in> set B"
    then have b: "b \<in> set L" "cmp (ldb_skipnode_key sl b) k \<ge> 0" by (auto simp: B_def above_def)
    then have "cmp (ldb_skipnode_key sl b) k > 0" using new by fastforce
    then show "cmp k (ldb_skipnode_key sl b) < 0"
      using cmp_swap [of k "ldb_skipnode_key sl b"] nodes [OF b(1)] k by simp
  qed
  define pv where "pv = prev_fill h A (sl_max_height sl - 1) (replicate LDB_MAX_HEIGHT None)"
  have "level h 0 B = B" using h(2) L by (intro level_0) auto
  then have find: "ldb_skiplist_find_gte sl k (Some (replicate LDB_MAX_HEIGHT None)) = Some (first B, Some pv)"
    using find_gte_eq [OF h(1) k] by (simp add: pv_def A_def B_def)
  have check: "first B = None \<or> \<not> ldb_skiplist_equal C k (ldb_skipnode_key sl (the (first B)))"
    using B by (cases B) (auto simp: ldb_skiplist_equal_def)
  obtain ht rnd where ht: "randheight_loop (sl_rnd sl) 1 = (ht, rnd)" by (cases "randheight_loop (sl_rnd sl) 1")
  have ht_le: "1 \<le> ht" "ht \<le> LDB_MAX_HEIGHT" using randheight_bounds [of 1 "sl_rnd sl"] ht by auto
  define m where "m = max ht (sl_max_height sl)"
  define pv' where "pv' = (if ht > sl_max_height sl then fold (\<lambda>i p. p[i := Some 0]) [sl_max_height sl..<ht] pv else pv)"
  define sl1 where "sl1 = sl\<lparr>sl_rnd := rnd, sl_max_height := m\<rparr>"
  obtain x sl2 where c: "ldb_skipnode_create sl1 k ht = (x, sl2)" by (cases "ldb_skipnode_create sl1 k ht")
  note f = create_frame [OF c]
  have ins: "insert_prepare sl k = Some (pv', x, ht, sl2)"
  proof (cases "ht > sl_max_height sl")
    case True
    then show ?thesis using find check ht c C
      by (simp add: insert_prepare_def ldb_skiplist_randheight_def Let_def pv'_def sl1_def m_def max_def)
  next
    case False
    moreover from this have "sl1 = sl\<lparr>sl_rnd := rnd\<rparr>" by (simp add: sl1_def m_def)
    ultimately show ?thesis using find check ht c C
      by (simp add: insert_prepare_def ldb_skiplist_randheight_def Let_def pv'_def)
  qed
  have same: "sl_nodes sl1 = sl_nodes sl" by (simp add: sl1_def)
  then have key1: "ldb_skipnode_key sl1 n = ldb_skipnode_key sl n" for n by (simp add: ldb_skipnode_key_def)
  have core1: "core sl1 h (A @ B)"
    using core_update(1) [where sl = sl and r = rnd] core_update(2) [where sl = "sl\<lparr>sl_rnd := rnd\<rparr>" and m = m]
      h(1) ht_le C L [symmetric]
    by (simp add: sl1_def m_def)
  have core2: "core sl2 (h(x := 0)) (A @ x # B)"
    using A B key1 by (intro core_create [OF core1 c k]) auto
  have lvl_empty: "level h i A = []" if "sl_max_height sl \<le> i" for i
    using that nodes L by (fastforce simp: level_def filter_empty_conv)
  have prev: "\<forall>i < ht. pv' ! i = Some (last (0 # level h i A))"
  proof (intro allI impI)
    fix i assume i: "i < ht"
    have len: "length pv = LDB_MAX_HEIGHT" by (simp add: pv_def)
    show "pv' ! i = Some (last (0 # level h i A))"
    proof (cases "i < sl_max_height sl")
      case True
      then have "pv ! i = Some (last (0 # level h i A))"
        using i ht_le by (simp add: pv_def prev_fill_nth)
      then show ?thesis using True i ht_le len by (simp add: pv'_def prev_fold_nth)
    next
      case False
      then show ?thesis using i ht_le len lvl_empty [of i] by (simp add: pv'_def prev_fold_nth)
    qed
  qed
  have hA: "i < length (sn_next (sl_nodes sl2 ! a))" if "a \<in> set A" "i < h a" for a i
    using that nodes [of a] L f(8) [of a] same by auto
  have "ht \<le> sl_max_height sl2" using f(7) by (simp add: sl1_def m_def)
  note links = link_levels [OF core2 this f(4) [symmetric] prev hA]
  have "\<forall>n \<in> set L. ldb_skipnode_key sl2 n = ldb_skipnode_key sl n"
    using nodes f(8) same by (auto simp: ldb_skipnode_key_def)
  moreover have "x \<notin> set L" using nodes f(1) same by fastforce
  ultimately show ?thesis using ins ht_le h(2) links f(3) unfolding A_def B_def by metis
qed

text \<open>The keys that a list holds, in order; a list that is being modified shows what is linked.\<close>

definition represents :: "skiplist \<Rightarrow> bytes list \<Rightarrow> bool" where
  "represents sl K \<longleftrightarrow> (\<exists>L. skip_list sl L \<and> K = map (ldb_skipnode_key sl) L)"

definition insert_key :: "bytes \<Rightarrow> bytes list \<Rightarrow> bytes list" where
  "insert_key k K = filter (\<lambda>x. cmp x k < 0) K @ k # filter (\<lambda>x. cmp x k \<ge> 0) K"

lemma core_visible: "core sl h L \<Longrightarrow> skip_list sl (level h 0 L)"
proof -
  assume core: "core sl h L"
  have "level h i (level h 0 L) = level h i L" for i
    by (auto simp: level_def intro!: filter_cong)
  then have "core sl h (level h 0 L)"
    using core unfolding core_def by (auto simp: level_def sorted_wrt_filter)
  then show ?thesis unfolding skip_list_def by auto
qed

lemma map_below: "map (ldb_skipnode_key sl) (below sl k L) = filter (\<lambda>x. cmp x k < 0) (map (ldb_skipnode_key sl) L)"
  by (simp add: below_def filter_map comp_def)

lemma map_above: "map (ldb_skipnode_key sl) (above sl k L) = filter (\<lambda>x. cmp x k \<ge> 0) (map (ldb_skipnode_key sl) L)"
  by (simp add: above_def filter_map comp_def)

lemma prepare_represents:
  assumes rep: "represents sl K" and k: "kok k" and new: "\<forall>x \<in> set K. cmp x k \<noteq> 0"
  shows "\<exists>pv x ht sl2. insert_prepare sl k = Some (pv, x, ht, sl2) \<and> 1 \<le> ht
    \<and> (\<forall>m \<le> ht. represents (fold (link_level pv x) [0..<m] sl2) (if m = 0 then K else insert_key k K))"
proof -
  obtain L where L: "skip_list sl L" "K = map (ldb_skipnode_key sl) L" using rep by (auto simp: represents_def)
  let ?A = "below sl k L" and ?B = "above sl k L"
  obtain pv x ht sl2 h where p: "insert_prepare sl k = Some (pv, x, ht, sl2)" "1 \<le> ht"
    and h: "\<forall>n \<in> set L. 0 < h n" and x: "x \<notin> set L"
    and core: "\<And>m. m \<le> ht \<Longrightarrow> core (fold (link_level pv x) [0..<m] sl2) (h(x := m)) (?A @ x # ?B)"
    and key: "\<And>m. m \<le> ht \<Longrightarrow> ldb_skipnode_key (fold (link_level pv x) [0..<m] sl2) x = k"
      "\<And>m n. m \<le> ht \<Longrightarrow> n \<in> set L \<Longrightarrow> ldb_skipnode_key (fold (link_level pv x) [0..<m] sl2) n = ldb_skipnode_key sl n"
    using prepare_ok [OF L(1) k] new L(2) by auto
  have sub: "x \<notin> set ?A" "x \<notin> set ?B" "\<forall>n \<in> set ?A. 0 < h n" "\<forall>n \<in> set ?B. 0 < h n"
    "set ?A \<subseteq> set L" "set ?B \<subseteq> set L" using x h by (auto simp: below_def above_def)
  have "represents (fold (link_level pv x) [0..<m] sl2) (if m = 0 then K else insert_key k K)" if m: "m \<le> ht" for m
  proof -
    let ?sl = "fold (link_level pv x) [0..<m] sl2"
    have keys: "map (ldb_skipnode_key ?sl) ?A = map (ldb_skipnode_key sl) ?A"
      "map (ldb_skipnode_key ?sl) ?B = map (ldb_skipnode_key sl) ?B"
      using key(2) [OF m] sub by (auto intro!: map_cong)
    have "level (h(x := m)) 0 (?A @ x # ?B) = (if m = 0 then ?A @ ?B else ?A @ x # ?B)"
      using sub by (simp add: level_upd level_0)
    moreover have "map (ldb_skipnode_key ?sl) (if m = 0 then ?A @ ?B else ?A @ x # ?B)
        = (if m = 0 then map (ldb_skipnode_key sl) (?A @ ?B) else insert_key k K)"
      using keys key(1) [OF m] by (cases "m = 0") (simp_all add: insert_key_def L(2) map_below map_above)
    moreover have "?A @ ?B = L" using core_split [OF _ k] L(1) by (auto simp: skip_list_def)
    ultimately have "K = map (ldb_skipnode_key ?sl) (level (h(x := m)) 0 (?A @ x # ?B))" if "m = 0"
      using that L(2) by simp
    moreover have "insert_key k K = map (ldb_skipnode_key ?sl) (level (h(x := m)) 0 (?A @ x # ?B))" if "m \<noteq> 0"
      using that \<open>level _ 0 (?A @ x # ?B) = _\<close> \<open>map _ (if m = 0 then ?A @ ?B else ?A @ x # ?B) = _\<close> by simp
    ultimately show ?thesis
      using core_visible [OF core [OF m]] unfolding represents_def by (cases "m = 0") auto
  qed
  with p show ?thesis by blast
qed

lemma insert_represents:
  assumes "represents sl K" "kok k" "\<forall>x \<in> set K. cmp x k \<noteq> 0"
  shows "\<exists>sl'. ldb_skiplist_insert sl k = Some sl' \<and> represents sl' (insert_key k K)"
  using prepare_represents [OF assms] by (fastforce simp: ldb_skiplist_insert_def)

lemma represents_sorted:
  "represents sl K \<Longrightarrow> sorted_wrt (\<lambda>a b. cmp a b < 0) K \<and> (\<forall>x \<in> set K. kok x) \<and> distinct K"
proof -
  assume "represents sl K"
  then obtain h L where h: "core sl h L" and K: "K = map (ldb_skipnode_key sl) L"
    by (auto simp: represents_def skip_list_def)
  have ok: "\<forall>x \<in> set K. kok x" using core_node [OF h] K by auto
  moreover have srt: "sorted_wrt (\<lambda>a b. cmp a b < 0) K" using h K by (simp add: core_def sorted_wrt_map)
  moreover have "distinct K" using srt ok
    by (induction K) (auto dest!: cmp_refl)
  ultimately show ?thesis by blast
qed

lemma first_map: "first (map f xs) = map_option f (first xs)"
  by (cases xs) auto

lemma find_represents:
  assumes "represents sl K" "kok k"
  shows "\<exists>x. ldb_skiplist_find_gte sl k None = Some (x, None)
    \<and> map_option (ldb_skipnode_key sl) x = first (filter (\<lambda>y. cmp y k \<ge> 0) K)"
  using assms skip_list_find_gte by (fastforce simp: represents_def simp flip: map_above first_map)

lemma insert_duplicate:
  assumes "represents sl K" "kok k" "y \<in> set K" "cmp y k = 0"
  shows "ldb_skiplist_insert sl k = None"
proof -
  obtain L where L: "skip_list sl L" "K = map (ldb_skipnode_key sl) L" using assms(1) by (auto simp: represents_def)
  obtain h where h: "core sl h L" "\<forall>n \<in> set L. 0 < h n" using L(1) by (auto simp: skip_list_def)
  have K: "sorted_wrt (\<lambda>a b. cmp a b < 0) K" "\<forall>x \<in> set K. kok x" using represents_sorted [OF assms(1)] by auto
  have "y \<in> set (filter (\<lambda>y. cmp y k \<ge> 0) K)" using assms by simp
  then obtain z zs where z: "filter (\<lambda>y. cmp y k \<ge> 0) K = z # zs" by (cases "filter (\<lambda>y. cmp y k \<ge> 0) K") auto
  have "z = y"
  proof (rule ccontr)
    assume "z \<noteq> y"
    have "z \<in> set (filter (\<lambda>y. cmp y k \<ge> 0) K)" by (simp add: z)
    then have zK: "z \<in> set K" "cmp z k \<ge> 0" by auto
    have "sorted_wrt (\<lambda>a b. cmp a b < 0) (z # zs)" using K(1) z sorted_wrt_filter by metis
    then have "cmp z y < 0" using \<open>z \<noteq> y\<close> \<open>y \<in> set (filter _ K)\<close> z by auto
    then show False using cmp_less_le_trans [of z y k] zK K(2) assms by auto
  qed
  then have "cmp k z = 0" using cmp_eq_swap [of k y] K(2) assms by auto
  moreover obtain n where "first (above sl k L) = Some n" "ldb_skipnode_key sl n = z"
    using z L(2) by (cases "above sl k L") (auto simp flip: map_above)
  moreover have "level h 0 (above sl k L) = above sl k L" using h(2) by (intro level_0) (auto simp: above_def)
  moreover have "sl_comparator sl = C" using h(1) by (simp add: core_def)
  ultimately show ?thesis
    using find_gte_eq [OF h(1) assms(2)]
    by (simp add: ldb_skiplist_insert_def insert_prepare_def ldb_skiplist_equal_def)
qed

lemma contains_represents:
  assumes "represents sl K" "kok k"
  shows "ldb_skiplist_contains sl k = Some (\<exists>y \<in> set K. cmp y k = 0)"
proof -
  have K: "sorted_wrt (\<lambda>a b. cmp a b < 0) K" "\<forall>x \<in> set K. kok x" using represents_sorted [OF assms(1)] by auto
  have C: "sl_comparator sl = C" using assms(1) by (auto simp: represents_def skip_list_def core_def)
  obtain x where x: "ldb_skiplist_find_gte sl k None = Some (x, None)"
    "map_option (ldb_skipnode_key sl) x = first (filter (\<lambda>y. cmp y k \<ge> 0) K)"
    using find_represents [OF assms] by blast
  let ?F = "filter (\<lambda>y. cmp y k \<ge> 0) K"
  show ?thesis
  proof (cases ?F)
    case Nil
    then have "\<forall>y \<in> set K. \<not> cmp y k \<ge> 0" by (simp add: filter_empty_conv)
    then show ?thesis using x Nil by (auto simp: ldb_skiplist_contains_def)
  next
    case (Cons z zs)
    then obtain n where n: "x = Some n" "ldb_skipnode_key sl n = z" using x by auto
    have "z \<in> set ?F" "sorted_wrt (\<lambda>a b. cmp a b < 0) (z # zs)"
      using Cons K(1) sorted_wrt_filter [of _ K] by (simp, metis)
    then have z: "z \<in> set K" "cmp z k \<ge> 0" by auto
    have "cmp z k = 0" if y: "y \<in> set K" "cmp y k = 0" for y
    proof (rule ccontr)
      assume "cmp z k \<noteq> 0"
      then have "y \<noteq> z" using y by auto
      moreover have "y \<in> set ?F" using y by simp
      then have "y \<in> set (z # zs)" by (simp only: Cons)
      ultimately have "cmp z y < 0" using \<open>sorted_wrt _ (z # zs)\<close> by auto
      then show False using cmp_less_le_trans [of z y k] z K(2) y assms(2) by auto
    qed
    then show ?thesis using x(1) n C z K(2) assms(2) cmp_eq_swap [of k z]
      by (auto simp: ldb_skiplist_contains_def ldb_skiplist_equal_def)
  qed
qed

section \<open>Backward searches\<close>

lemma find_lt_walk:
  assumes "core sl h L" "kok k" "i < LDB_MAX_HEIGHT"
  shows "level h i (below sl k L) = p @ s \<Longrightarrow>
    find_lt_loop sl k (last (0 # p)) i = find_lt_loop sl k (last (0 # level h i (below sl k L))) i"
proof (induction s arbitrary: p)
  case (Cons n s)
  note * = key_after_next [OF assms Cons.prems]
  have C: "sl_comparator sl = C" "sl_head sl = 0" using assms(1) by (simp_all add: core_def)
  have "last (0 # p) = 0 \<or> last (0 # p) \<in> set (level h i (below sl k L))" using Cons.prems by auto
  then have "find_lt_loop sl k (last (0 # p)) i = find_lt_loop sl k n i"
    using * C by (subst find_lt_loop.simps) (auto simp: ldb_skiplist_key_after_node_def below_def)
  with Cons.IH [of "p @ [n]"] Cons.prems show ?case by simp
qed simp

lemma find_lt_level:
  assumes "core sl h L" "kok k"
  shows "i < LDB_MAX_HEIGHT \<Longrightarrow>
    find_lt_loop sl k (last (0 # level h i (below sl k L))) i = Some (last (0 # level h 0 (below sl k L)))"
proof (induction i)
  case (Suc i)
  let ?x = "last (0 # level h (Suc i) (below sl k L))"
  have C: "sl_comparator sl = C" "sl_head sl = 0" using assms(1) by (simp_all add: core_def)
  note * = key_after_next [OF assms Suc.prems, of "level h (Suc i) (below sl k L)" "[]", simplified append_Nil2 append_Nil]
  have x: "?x = 0 \<or> ?x \<in> set (level h (Suc i) (below sl k L))" by (rule last_or)
  have "find_lt_loop sl k ?x (Suc i) = find_lt_loop sl k ?x i"
    using * C x by (subst find_lt_loop.simps) (auto simp: ldb_skiplist_key_after_node_def below_def split: option.splits)
  moreover obtain p s where "level h i (below sl k L) = p @ s" "?x = last (0 # p)"
    using last_level_Suc by blast
  ultimately show ?case using Suc find_lt_walk [OF assms, of i p s] by simp
next
  case 0
  let ?x = "last (0 # level h 0 (below sl k L))"
  have C: "sl_comparator sl = C" "sl_head sl = 0" using assms(1) by (simp_all add: core_def)
  note * = key_after_next [OF assms 0, of "level h 0 (below sl k L)" "[]", simplified append_Nil2 append_Nil]
  have x: "?x = 0 \<or> ?x \<in> set (level h 0 (below sl k L))" by (rule last_or)
  then show ?case
    using * C by (subst find_lt_loop.simps) (auto simp: ldb_skiplist_key_after_node_def below_def split: option.splits)
qed

lemma find_lt_eq:
  assumes "skip_list sl L" "kok k"
  shows "ldb_skiplist_find_lt sl k = Some (last (0 # below sl k L))"
proof -
  obtain h where h: "core sl h L" "\<forall>n \<in> set L. 0 < h n" using assms(1) by (auto simp: skip_list_def)
  let ?i = "sl_max_height sl - 1"
  have "?i < LDB_MAX_HEIGHT" "sl_head sl = 0" using h(1) by (auto simp: core_def)
  moreover have "level h 0 (below sl k L) = below sl k L" using h(2) by (intro level_0) (auto simp: below_def)
  ultimately show ?thesis
    using find_lt_walk [OF h(1) assms(2), of ?i "[]"] find_lt_level [OF h(1) assms(2), of ?i]
    by (simp add: ldb_skiplist_find_lt_def)
qed

lemma find_last_walk:
  assumes "core sl h L" "i < LDB_MAX_HEIGHT"
  shows "level h i L = p @ s \<Longrightarrow>
    find_last_loop sl (last (0 # p)) i = find_last_loop sl (last (0 # level h i L)) i"
proof (induction s arbitrary: p)
  case (Cons n s)
  have "linked sl i (p @ n # s)" using assms Cons.prems by (metis core_def)
  from chain_next [OF chain_append [OF this]]
  have "find_last_loop sl (last (0 # p)) i = find_last_loop sl n i"
    by (subst find_last_loop.simps) simp
  with Cons.IH [of "p @ [n]"] Cons.prems show ?case by simp
qed simp

lemma find_last_level:
  assumes "core sl h L"
  shows "i < LDB_MAX_HEIGHT \<Longrightarrow> find_last_loop sl (last (0 # level h i L)) i = Some (last (0 # level h 0 L))"
proof (induction i)
  case (Suc i)
  have "linked sl (Suc i) (level h (Suc i) L @ [])" using assms Suc.prems by (simp add: core_def)
  from chain_next [OF chain_append [OF this]]
  have "find_last_loop sl (last (0 # level h (Suc i) L)) (Suc i) = find_last_loop sl (last (0 # level h (Suc i) L)) i"
    by (subst find_last_loop.simps) simp
  moreover obtain p s where "level h i L = p @ s" "last (0 # level h (Suc i) L) = last (0 # p)"
    using last_level_Suc by blast
  ultimately show ?case using Suc find_last_walk [OF assms, of i p s] by simp
next
  case 0
  have "linked sl 0 (level h 0 L @ [])" using assms by (simp add: core_def)
  from chain_next [OF chain_append [OF this]] show ?case
    by (subst find_last_loop.simps) simp
qed

lemma find_last_eq:
  assumes "skip_list sl L"
  shows "ldb_skiplist_find_last sl = Some (last (0 # L))"
proof -
  obtain h where h: "core sl h L" "\<forall>n \<in> set L. 0 < h n" using assms(1) by (auto simp: skip_list_def)
  let ?i = "sl_max_height sl - 1"
  have "?i < LDB_MAX_HEIGHT" "sl_head sl = 0" using h(1) by (auto simp: core_def)
  then show ?thesis
    using find_last_walk [OF h(1), of ?i "[]"] find_last_level [OF h(1), of ?i] level_0 [OF h(2)]
    by (simp add: ldb_skiplist_find_last_def)
qed

section \<open>Iterators move along the sorted list\<close>

definition iter_pos :: "skipiter \<Rightarrow> nat list \<Rightarrow> nat option \<Rightarrow> bool" where
  "iter_pos it L p \<longleftrightarrow> skip_list (si_list it) L
     \<and> (case p of None \<Rightarrow> si_node it = None | Some j \<Rightarrow> j < length L \<and> si_node it = Some (L ! j))"

lemma last_take: "0 < j \<Longrightarrow> j \<le> length L \<Longrightarrow> last (0 # take j L) = L ! (j - 1)" for L :: "nat list"
  by (auto simp: last_conv_nth)

lemma iter_next:
  assumes "iter_pos it L (Some j)"
  shows "iter_pos (ldb_skipiter_next it) L (if Suc j < length L then Some (Suc j) else None)"
proof -
  obtain h where h: "core (si_list it) h L" "\<forall>n \<in> set L. 0 < h n"
    using assms by (auto simp: skip_list_def iter_pos_def)
  have "linked (si_list it) 0 (take (Suc j) L @ drop (Suc j) L)"
    using h(1) level_0 [OF h(2)] by (auto simp: core_def dest: spec [of _ 0])
  from chain_next [OF chain_append [OF this]]
  have "ldb_skipnode_next (si_list it) (L ! j) 0 = first (drop (Suc j) L)"
    using assms last_take [of "Suc j" L] by (simp add: iter_pos_def)
  then show ?thesis using assms
    by (auto simp: iter_pos_def ldb_skipiter_next_def Cons_nth_drop_Suc [symmetric])
qed

lemma below_nth:
  assumes "skip_list sl L" "j < length L"
  shows "below sl (ldb_skipnode_key sl (L ! j)) L = take j L"
proof -
  obtain h where h: "core sl h L" using assms(1) by (auto simp: skip_list_def)
  let ?k = "\<lambda>i. ldb_skipnode_key sl (L ! i)"
  have srt: "cmp (?k a) (?k b) < 0" if "a < b" "b < length L" for a b
    using h that by (auto simp: core_def sorted_wrt_iff_nth_less)
  have ok: "kok (?k i)" if "i < length L" for i using core_node [OF h, of "L ! i"] that by simp
  have "\<not> cmp (?k i) (?k j) < 0" if "j \<le> i" "i < length L" for i
    using srt [of j i] cmp_swap [of "?k j" "?k i"] cmp_refl [of "?k j"] ok that assms(2) by (cases "i = j") auto
  then have "below sl (?k j) (drop j L) = []"
    using assms(2) by (force simp: below_def filter_empty_conv in_set_conv_nth)
  moreover have "below sl (?k j) (take j L) = take j L"
    using srt assms(2) by (force simp: below_def filter_id_conv in_set_conv_nth)
  moreover have "below sl (?k j) L = below sl (?k j) (take j L) @ below sl (?k j) (drop j L)"
    unfolding below_def by (simp flip: filter_append)
  ultimately show ?thesis by simp
qed

lemma skip_list_pos: "skip_list sl L \<Longrightarrow> n \<in> set L \<Longrightarrow> 0 < n \<and> kok (ldb_skipnode_key sl n)"
  using core_node by (auto simp: skip_list_def)

lemma skip_list_head: "skip_list sl L \<Longrightarrow> sl_head sl = 0"
  by (auto simp: skip_list_def core_def)

lemma iter_prev:
  assumes "iter_pos it L (Some j)"
  shows "\<exists>it'. ldb_skipiter_prev it = Some it' \<and> si_list it' = si_list it
    \<and> iter_pos it' L (if j = 0 then None else Some (j - 1))"
proof -
  have sl: "skip_list (si_list it) L" "j < length L" "si_node it = Some (L ! j)"
    using assms by (auto simp: iter_pos_def)
  have "ldb_skiplist_find_lt (si_list it) (ldb_skipiter_key it) = Some (last (0 # take j L))"
    using find_lt_eq [OF sl(1)] skip_list_pos [OF sl(1)] below_nth [OF sl(1,2)] sl
    by (simp add: ldb_skipiter_key_def)
  then show ?thesis
    using sl last_take [of j L] skip_list_pos [OF sl(1), of "L ! (j - 1)"] skip_list_head [OF sl(1)]
    by (cases "j = 0") (auto simp: ldb_skipiter_prev_def iter_pos_def)
qed

lemma iter_seek:
  assumes "skip_list (si_list it) L" "kok k"
  shows "\<exists>it'. ldb_skipiter_seek it k = Some it' \<and> si_list it' = si_list it
    \<and> iter_pos it' L (if length (below (si_list it) k L) < length L then Some (length (below (si_list it) k L)) else None)"
proof -
  obtain h where h: "core (si_list it) h L" using assms(1) by (auto simp: skip_list_def)
  define A B where "A = below (si_list it) k L" and "B = above (si_list it) k L"
  have L: "L = A @ B" unfolding A_def B_def by (rule core_split [OF h assms(2)])
  have "ldb_skipiter_seek it k = Some (it\<lparr>si_node := first B\<rparr>)"
    using skip_list_find_gte [OF assms] by (simp add: ldb_skipiter_seek_def B_def)
  then show ?thesis using assms(1) L unfolding A_def [symmetric]
    by (cases B) (auto simp: iter_pos_def nth_append)
qed

lemma iter_seek_first:
  assumes "skip_list (si_list it) L"
  shows "iter_pos (ldb_skipiter_seek_first it) L (if L = [] then None else Some 0)"
proof -
  obtain h where h: "core (si_list it) h L" "\<forall>n \<in> set L. 0 < h n" using assms by (auto simp: skip_list_def)
  then have "linked (si_list it) 0 L" using level_0 [OF h(2)] by (auto simp: core_def dest: spec [of _ 0])
  from chain_next [OF this] show ?thesis using assms skip_list_head [OF assms]
    by (cases L) (auto simp: ldb_skipiter_seek_first_def iter_pos_def)
qed

lemma iter_seek_last:
  assumes "skip_list (si_list it) L"
  shows "\<exists>it'. ldb_skipiter_seek_last it = Some it' \<and> si_list it' = si_list it
    \<and> iter_pos it' L (if L = [] then None else Some (length L - 1))"
  using assms find_last_eq [OF assms] skip_list_head [OF assms] skip_list_pos [OF assms, of "last L"]
  by (cases "L = []") (auto simp: ldb_skipiter_seek_last_def iter_pos_def last_conv_nth)

section \<open>The empty list\<close>

lemma fold_fixpoint: "(\<And>i. f i s = s) \<Longrightarrow> fold f xs s = s"
  by (induction xs) auto

lemma replicate_update: "(replicate n x)[i := x] = replicate n x"
  by (cases "i < n") (auto intro: nth_equalityI simp: nth_list_update)

lemma init_eq:
  "ldb_skiplist_init C = \<lparr>sl_comparator = C, sl_nodes = [\<lparr>sn_key = [], sn_next = replicate LDB_MAX_HEIGHT None\<rparr>],
     sl_head = 0, sl_max_height = 1, sl_rnd = ldb_rand_init 0xdeadbeef\<rparr>" (is "_ = ?sl")
proof -
  have "fold (\<lambda>i sl. ldb_skipnode_setnext sl (sl_head sl) i None) [0..<LDB_MAX_HEIGHT] ?sl = ?sl"
    by (rule fold_fixpoint) (simp add: ldb_skipnode_setnext_def replicate_update)
  then show ?thesis by (simp add: ldb_skiplist_init_def ldb_skipnode_create_def Let_def)
qed

lemma skip_list_init: "skip_list (ldb_skiplist_init C) []"
proof -
  have "core (ldb_skiplist_init C) (\<lambda>_. 0) []"
    unfolding core_def init_eq by (simp add: ldb_skipnode_next_def)
  then show ?thesis unfolding skip_list_def by auto
qed

lemma represents_init: "represents (ldb_skiplist_init C) []"
  using skip_list_init by (auto simp: represents_def)

end

section \<open>Skip lists of internal keys\<close>

text \<open>An entry that a memtable stores: memory that starts with a length-prefixed internal key.\<close>

definition entry_key :: "bytes \<Rightarrow> bytes" where
  "entry_key e = fst (the (ldb_slice_decode e))"

definition entry_ok :: "bytes \<Rightarrow> bool" where
  "entry_ok e \<longleftrightarrow> ldb_slice_decode e \<noteq> None \<and> 8 \<le> length (entry_key e)"

lemma skiplist_compare_entry: "ldb_skiplist_compare cmp x y = compare cmp (entry_key x) (entry_key y)"
  by (simp add: ldb_skiplist_compare_def entry_key_def)

text \<open>Whatever the user comparator, the entries of a memtable are ordered.\<close>

sublocale user_order \<subseteq> skip: skip_order "ldb_ikc_init C" "\<lambda>e. entry_ok e \<and> ok (ldb_extract_user_key (entry_key e))"
  by unfold_locales
    (auto simp: skiplist_compare_entry entry_ok_def ikc.cmp_swap intro: ikc.cmp_le_trans)

text \<open>A client that inserts several entries.\<close>

fun insert_all :: "skiplist \<Rightarrow> bytes list \<Rightarrow> skiplist option" where
  "insert_all sl [] = Some sl"
| "insert_all sl (k # ks) = (case ldb_skiplist_insert sl k of None \<Rightarrow> None | Some sl \<Rightarrow> insert_all sl ks)"

text \<open>A client that reads at most \<^term>\<open>n\<close> keys forward from where an iterator is.\<close>

fun collect :: "nat \<Rightarrow> skipiter \<Rightarrow> bytes list" where
  "collect 0 it = []"
| "collect (Suc n) it = (if ldb_skipiter_valid it then ldb_skipiter_key it # collect n (ldb_skipiter_next it) else [])"

context skip_order
begin

lemma collect_eq:
  "iter_pos it L (Some j) \<Longrightarrow> length L - j \<le> n \<Longrightarrow> collect n it = map (ldb_skipnode_key (si_list it)) (drop j L)"
proof (induction n arbitrary: it j)
  case 0
  then show ?case by (auto simp: iter_pos_def)
next
  case (Suc n)
  then have it: "j < length L" "si_node it = Some (L ! j)" by (auto simp: iter_pos_def)
  have list: "si_list (ldb_skipiter_next it) = si_list it" by (simp add: ldb_skipiter_next_def)
  have "collect n (ldb_skipiter_next it) = map (ldb_skipnode_key (si_list it)) (drop (Suc j) L)"
  proof (cases "Suc j < length L")
    case True
    then show ?thesis using Suc.IH [of "ldb_skipiter_next it" "Suc j"] iter_next [OF Suc.prems(1)] Suc.prems(2) list by simp
  next
    case False
    then have "si_node (ldb_skipiter_next it) = None" using iter_next [OF Suc.prems(1)] by (simp add: iter_pos_def)
    then show ?thesis using False by (cases n) (auto simp: ldb_skipiter_valid_def)
  qed
  then show ?case using it
    by (simp add: ldb_skipiter_valid_def ldb_skipiter_key_def flip: Cons_nth_drop_Suc)
qed

lemma collect_represents:
  assumes "represents sl K" "length K \<le> n"
  shows "collect n (ldb_skipiter_seek_first (ldb_skipiter_init sl)) = K"
proof -
  obtain L where L: "skip_list sl L" "K = map (ldb_skipnode_key sl) L" using assms(1) by (auto simp: represents_def)
  let ?it = "ldb_skipiter_seek_first (ldb_skipiter_init sl)"
  have list: "si_list ?it = sl" by (simp add: ldb_skipiter_seek_first_def ldb_skipiter_init_def)
  have pos: "iter_pos ?it L (if L = [] then None else Some 0)"
    using iter_seek_first [of "ldb_skipiter_init sl" L] L(1) by (simp add: ldb_skipiter_init_def)
  show ?thesis
  proof (cases "L = []")
    case True
    then show ?thesis using pos L(2) by (cases n) (auto simp: iter_pos_def ldb_skipiter_valid_def)
  next
    case False
    then show ?thesis using collect_eq [of ?it L 0 n] pos L(2) assms(2) list by simp
  qed
qed

lemma insert_key_props:
  assumes "represents sl K" "kok k"
  shows "set (insert_key k K) = insert k (set K)" "length (insert_key k K) = Suc (length K)"
proof -
  have "filter (\<lambda>x. cmp x k \<ge> 0) K = filter (\<lambda>x. \<not> cmp x k < 0) K" by (rule filter_cong) auto
  then show "length (insert_key k K) = Suc (length K)"
    using sum_length_filter_compl [of "\<lambda>x. cmp x k < 0" K] by (simp add: insert_key_def)
qed (auto simp: insert_key_def)

lemma insert_all_represents:
  "represents sl K \<Longrightarrow> \<forall>k \<in> set ks. kok k \<Longrightarrow>
     pairwise (\<lambda>x y. cmp x y \<noteq> 0) (set K \<union> set ks) \<Longrightarrow> distinct ks \<Longrightarrow> set K \<inter> set ks = {} \<Longrightarrow>
     \<exists>sl' K'. insert_all sl ks = Some sl' \<and> represents sl' K' \<and> set K' = set K \<union> set ks
       \<and> length K' = length K + length ks"
proof (induction ks arbitrary: sl K)
  case (Cons k ks)
  have new: "\<forall>x \<in> set K. cmp x k \<noteq> 0"
    using Cons.prems(3,5) unfolding pairwise_def by (metis IntI UnCI emptyE list.set_intros(1))
  obtain sl1 where sl1: "ldb_skiplist_insert sl k = Some sl1" "represents sl1 (insert_key k K)"
    using insert_represents [OF Cons.prems(1) _ new] Cons.prems(2) by auto
  note props = insert_key_props [OF Cons.prems(1), of k]
  have "\<exists>sl' K'. insert_all sl1 ks = Some sl' \<and> represents sl' K' \<and> set K' = set (insert_key k K) \<union> set ks
       \<and> length K' = length (insert_key k K) + length ks"
    using Cons.prems props by (intro Cons.IH [OF sl1(2)]) (auto elim: pairwise_subset)
  then show ?case using sl1 props Cons.prems(2) by auto
qed auto

end

interpretation bytewise_skip: skip_order "ldb_ikc_init bytewise_comparator" entry_ok
  using bytewise_user.skip.skip_order_axioms by simp

section \<open>Properties\<close>

text \<open>
  C8. A skip list of memtable entries is a sorted set. Inserting entries in any order, no two of which
  compare equal, into an empty list succeeds: the searches end, no assertion fails, and whatever node
  heights the generator draws, walking the list forward yields exactly the inserted entries in strictly
  increasing order, and an entry is contained exactly when an equal one was inserted.
\<close>

theorem skiplist_sorted_set:
  assumes "\<forall>k \<in> set ks. entry_ok k" "distinct ks"
    and "pairwise (\<lambda>x y. ldb_skiplist_compare (ldb_ikc_init bytewise_comparator) x y \<noteq> 0) (set ks)"
  shows "\<exists>sl. insert_all (ldb_skiplist_init (ldb_ikc_init bytewise_comparator)) ks = Some sl
    \<and> (\<forall>K. K = collect (length ks) (ldb_skipiter_seek_first (ldb_skipiter_init sl)) \<longrightarrow>
        set K = set ks \<and> length K = length ks
        \<and> sorted_wrt (\<lambda>x y. ldb_skiplist_compare (ldb_ikc_init bytewise_comparator) x y < 0) K)
    \<and> (\<forall>k. entry_ok k \<longrightarrow> ldb_skiplist_contains sl k
        = Some (\<exists>x \<in> set ks. ldb_skiplist_compare (ldb_ikc_init bytewise_comparator) x k = 0))"
proof -
  obtain sl K where sl: "insert_all (ldb_skiplist_init (ldb_ikc_init bytewise_comparator)) ks = Some sl"
    "bytewise_skip.represents sl K" "set K = set ks" "length K = length ks"
    using bytewise_skip.insert_all_represents [OF bytewise_skip.represents_init assms(1) _ assms(2)] assms(3) by auto
  then show ?thesis
    using bytewise_skip.collect_represents [OF sl(2)] bytewise_skip.represents_sorted [OF sl(2)]
      bytewise_skip.contains_represents [OF sl(2)]
    by (intro exI [of _ sl]) simp
qed

lemma sample_entries:
  defines "a \<equiv> ldb_slice_write [5, 1, 2, 0, 0, 0, 0, 0, 0]" and "b \<equiv> ldb_slice_write [3, 1, 1, 0, 0, 0, 0, 0, 0]"
  shows "\<forall>k \<in> set [a, b]. entry_ok k" "distinct [a, b]"
    "pairwise (\<lambda>x y. ldb_skiplist_compare (ldb_ikc_init bytewise_comparator) x y \<noteq> 0) (set [a, b])"
proof -
  have k: "entry_key a = [5, 1, 2, 0, 0, 0, 0, 0, 0]" "entry_key b = [3, 1, 1, 0, 0, 0, 0, 0, 0]"
    and d: "ldb_slice_decode a \<noteq> None" "ldb_slice_decode b \<noteq> None"
    using ldb_slice_decode_write [of "[5, 1, 2, 0, 0, 0, 0, 0, 0]" "[]"]
      ldb_slice_decode_write [of "[3, 1, 1, 0, 0, 0, 0, 0, 0]" "[]"]
    by (simp_all add: entry_key_def a_def b_def)
  show "\<forall>k \<in> set [a, b]. entry_ok k" using k d by (simp add: entry_ok_def)
  show "distinct [a, b]" using k by auto
  have "ldb_skiplist_compare (ldb_ikc_init bytewise_comparator) a b \<noteq> 0"
    "ldb_skiplist_compare (ldb_ikc_init bytewise_comparator) b a \<noteq> 0"
    by (simp_all add: skiplist_compare_entry k ldb_ikc_init_def ldb_ikc_compare_def
      bytewise_comparator_def slice_compare_def ldb_extract_user_key_def)
  then show "pairwise (\<lambda>x y. ldb_skiplist_compare (ldb_ikc_init bytewise_comparator) x y \<noteq> 0) (set [a, b])"
    by (auto simp: pairwise_def)
qed

theorem skiplist_sorted_set_witness:
  "\<exists>sl. insert_all (ldb_skiplist_init (ldb_ikc_init bytewise_comparator))
      [ldb_slice_write [5, 1, 2, 0, 0, 0, 0, 0, 0], ldb_slice_write [3, 1, 1, 0, 0, 0, 0, 0, 0]] = Some sl"
  using skiplist_sorted_set [OF sample_entries] by blast

text \<open>
  C9. Readers need no lock while an entry is inserted. After the new node is linked at any number of
  levels, the list is well formed: a lookup ends, and answers from the old entries when no level is linked
  yet and from the old entries and the new one afterwards.
\<close>

theorem skiplist_reader_during_insert:
  assumes "\<forall>k \<in> set (new # ks). entry_ok k" "distinct (new # ks)"
    and "pairwise (\<lambda>x y. ldb_skiplist_compare (ldb_ikc_init bytewise_comparator) x y \<noteq> 0) (set (new # ks))"
    and "insert_all (ldb_skiplist_init (ldb_ikc_init bytewise_comparator)) ks = Some sl"
  shows "\<exists>prev x height sl1. insert_prepare sl new = Some (prev, x, height, sl1)
    \<and> (\<forall>m \<le> height. \<forall>k. entry_ok k \<longrightarrow>
        ldb_skiplist_contains (fold (link_level prev x) [0..<m] sl1) k
        = Some (\<exists>y \<in> set (if m = 0 then ks else new # ks).
                  ldb_skiplist_compare (ldb_ikc_init bytewise_comparator) y k = 0))"
proof -
  have "pairwise (\<lambda>x y. ldb_skiplist_compare (ldb_ikc_init bytewise_comparator) x y \<noteq> 0) (set ks)"
    using assms(3) by (rule pairwise_subset) auto
  then obtain K where K: "bytewise_skip.represents sl K" "set K = set ks"
    using bytewise_skip.insert_all_represents [OF bytewise_skip.represents_init, of ks] assms by auto
  have ne: "\<forall>x \<in> set K. ldb_skiplist_compare (ldb_ikc_init bytewise_comparator) x new \<noteq> 0"
    using assms(2,3) K(2) by (auto simp: pairwise_def)
  obtain prev x height sl1 where p: "insert_prepare sl new = Some (prev, x, height, sl1)"
    and r: "\<And>m. m \<le> height \<Longrightarrow> bytewise_skip.represents (fold (link_level prev x) [0..<m] sl1)
      (if m = 0 then K else bytewise_skip.insert_key new K)"
    using bytewise_skip.prepare_represents [OF K(1) _ ne] assms(1) by auto
  have sets: "set (if m = 0 then K else bytewise_skip.insert_key new K) = set (if m = 0 then ks else new # ks)" for m :: nat
    using bytewise_skip.insert_key_props(1) [OF K(1), of new] assms(1) K(2) by simp
  have "ldb_skiplist_contains (fold (link_level prev x) [0..<m] sl1) k
      = Some (\<exists>y \<in> set (if m = 0 then ks else new # ks). ldb_skiplist_compare (ldb_ikc_init bytewise_comparator) y k = 0)"
    if "m \<le> height" "entry_ok k" for m k
    using bytewise_skip.contains_represents [OF r [OF that(1)] that(2)] unfolding sets .
  with p show ?thesis by blast
qed

theorem skiplist_reader_during_insert_witness:
  "\<exists>prev x height sl1.
     insert_prepare (ldb_skiplist_init (ldb_ikc_init bytewise_comparator)) (ldb_slice_write [5, 1, 2, 0, 0, 0, 0, 0, 0])
       = Some (prev, x, height, sl1)"
proof -
  have "\<forall>k \<in> set [ldb_slice_write [5, 1, 2, 0, 0, 0, 0, 0, 0]]. entry_ok k" using sample_entries(1) by simp
  from skiplist_reader_during_insert [OF this, of "ldb_skiplist_init (ldb_ikc_init bytewise_comparator)"]
  show ?thesis by (auto simp: pairwise_def)
qed

end
