(* ===== verification/MemTable.thy ===== *)
theory MemTable
  imports SkipList
begin

text \<open>
  The memtable (\<^verbatim>\<open>src/src/memtable.c\<close>): a skip list of entries, each the length-prefixed internal key
  followed by the length-prefixed value. The arena only provides memory and is left out. A memtable is
  created with an internal key comparator, of which it also uses the user comparator; the model is
  created with the user comparator and builds the other from it.
\<close>

section \<open>The memtable\<close>

record memtable =
  mt_user_comparator :: comparator
  mt_refs :: int
  mt_table :: skiplist

definition ldb_memtable_init :: "comparator \<Rightarrow> memtable" where
  "ldb_memtable_init uc =
     \<lparr>mt_user_comparator = uc, mt_refs = 0, mt_table = ldb_skiplist_init (ldb_ikc_init uc)\<rparr>"

definition ldb_memtable_create :: "comparator \<Rightarrow> memtable" where
  "ldb_memtable_create uc = ldb_memtable_init uc"

definition ldb_memtable_ref :: "memtable \<Rightarrow> memtable" where
  "ldb_memtable_ref mt = mt\<lparr>mt_refs := mt_refs mt + 1\<rparr>"

text \<open>
  \<^term>\<open>None\<close>: the last reference is gone and the memtable is destroyed. The source asserts that there was a reference.
\<close>

definition ldb_memtable_unref_assert :: "memtable \<Rightarrow> bool" where
  "ldb_memtable_unref_assert mt \<longleftrightarrow> mt_refs mt - 1 \<ge> 0"

definition ldb_memtable_unref :: "memtable \<Rightarrow> memtable option" where
  "ldb_memtable_unref mt =
     (let refs = mt_refs mt - 1 in if refs \<le> 0 then None else Some (mt\<lparr>mt_refs := refs\<rparr>))"

text \<open>The bytes \<^verbatim>\<open>ldb_memtable_add\<close> stores, and the size it allocates for them.\<close>

definition memtable_entry :: "u64 \<Rightarrow> valtype \<Rightarrow> bytes \<Rightarrow> bytes \<Rightarrow> bytes" where
  "memtable_entry seq type key value =
     (let ikey_size = length key + 8; val_size = length value
      in ldb_varint32_write (word_of_nat ikey_size)
         @ ldb_raw_write key
         @ ldb_fixed64_write (push_bit 8 seq OR valtype_code type)
         @ ldb_varint32_write (word_of_nat val_size)
         @ ldb_raw_write value)"

definition memtable_entry_size :: "bytes \<Rightarrow> bytes \<Rightarrow> nat" where
  "memtable_entry_size key value =
     (let ikey_size = length key + 8; val_size = length value
      in ldb_varint32_size (word_of_nat ikey_size) + ikey_size
         + (ldb_varint32_size (word_of_nat val_size) + val_size))"

text \<open>\<^term>\<open>None\<close> is a failed assertion, here or in the skip list.\<close>

definition ldb_memtable_add ::
  "memtable \<Rightarrow> u64 \<Rightarrow> valtype \<Rightarrow> bytes \<Rightarrow> bytes \<Rightarrow> memtable option" where
  "ldb_memtable_add mt seq type key value =
     (let tp = memtable_entry seq type key value
      in if length tp \<noteq> memtable_entry_size key value then None
         else map_option (\<lambda>table. mt\<lparr>mt_table := table\<rparr>) (ldb_skiplist_insert (mt_table mt) tp))"

text \<open>
  The outcomes of \<^verbatim>\<open>ldb_memtable_get\<close>: it returns 1 with a value, 1 with the status
  \<^verbatim>\<open>LDB_NOTFOUND\<close>, or 0.
\<close>

datatype memget = MemValue bytes | MemDeleted | MemAbsent

definition ldb_memtable_get :: "memtable \<Rightarrow> lkey \<Rightarrow> memget option" where
  "ldb_memtable_get mt key =
     (case ldb_skipiter_seek (ldb_skipiter_init (mt_table mt)) (ldb_lkey_memtable_key key) of
        None \<Rightarrow> None
      | Some iter \<Rightarrow>
          Some (if ldb_skipiter_valid iter then
                  (let cmp = mt_user_comparator mt;
                       (okey, rest) = the (ldb_slice_decode (ldb_skipiter_key iter));
                       ukey = ldb_lkey_user_key key;
                       okey_user = take (length okey - 8) okey
                   in if compare cmp okey_user ukey = 0 then
                        (let tag = ldb_fixed64_decode (drop (length okey - 8) okey)
                         in if tag AND 0xff = valtype_code LDB_TYPE_VALUE
                            then MemValue (fst (the (ldb_slice_decode rest)))
                            else if tag AND 0xff = valtype_code LDB_TYPE_DELETION then MemDeleted
                            else MemAbsent)
                      else MemAbsent)
                else MemAbsent))"

section \<open>The memtable iterator\<close>

record memiter =
  mi_iter :: skipiter
  mi_tmp :: bytes

definition ldb_memiter_create :: "memtable \<Rightarrow> memiter" where
  "ldb_memiter_create mt = \<lparr>mi_iter = ldb_skipiter_init (mt_table mt), mi_tmp = []\<rparr>"

definition ldb_memiter_valid :: "memiter \<Rightarrow> bool" where
  "ldb_memiter_valid iter = ldb_skipiter_valid (mi_iter iter)"

definition ldb_memiter_seek :: "memiter \<Rightarrow> bytes \<Rightarrow> memiter option" where
  "ldb_memiter_seek iter key =
     (let tmp = ldb_slice_export [] key
      in map_option (\<lambda>it. iter\<lparr>mi_iter := it, mi_tmp := tmp\<rparr>) (ldb_skipiter_seek (mi_iter iter) tmp))"

definition ldb_memiter_seek_first :: "memiter \<Rightarrow> memiter" where
  "ldb_memiter_seek_first iter = iter\<lparr>mi_iter := ldb_skipiter_seek_first (mi_iter iter)\<rparr>"

definition ldb_memiter_seek_last :: "memiter \<Rightarrow> memiter option" where
  "ldb_memiter_seek_last iter =
     map_option (\<lambda>it. iter\<lparr>mi_iter := it\<rparr>) (ldb_skipiter_seek_last (mi_iter iter))"

definition ldb_memiter_next :: "memiter \<Rightarrow> memiter" where
  "ldb_memiter_next iter = iter\<lparr>mi_iter := ldb_skipiter_next (mi_iter iter)\<rparr>"

definition ldb_memiter_prev :: "memiter \<Rightarrow> memiter option" where
  "ldb_memiter_prev iter = map_option (\<lambda>it. iter\<lparr>mi_iter := it\<rparr>) (ldb_skipiter_prev (mi_iter iter))"

definition ldb_memiter_key :: "memiter \<Rightarrow> bytes" where
  "ldb_memiter_key iter = fst (the (ldb_slice_decode (ldb_skipiter_key (mi_iter iter))))"

definition ldb_memiter_value :: "memiter \<Rightarrow> bytes" where
  "ldb_memiter_value iter =
     fst (the (ldb_slice_decode (snd (the (ldb_slice_decode (ldb_skipiter_key (mi_iter iter)))))))"

section \<open>Entries\<close>

type_synonym mentry = "u64 \<times> valtype \<times> bytes \<times> bytes"

text \<open>An update that fits the entry format.\<close>

fun mentry_ok :: "mentry \<Rightarrow> bool" where
  "mentry_ok (q, t, k, v) \<longleftrightarrow> seq_ok q \<and> length k + 8 < 2 ^ 32 \<and> length v < 2 ^ 32"

fun mentry_bytes :: "mentry \<Rightarrow> bytes" where
  "mentry_bytes (q, t, k, v) = memtable_entry q t k v"

fun mentry_ikey :: "mentry \<Rightarrow> bytes" where
  "mentry_ikey (q, t, k, v) = ldb_ikey_set k q t"

lemma memtable_entry_eq: "memtable_entry q t k v = ldb_slice_write (ldb_ikey_set k q t) @ ldb_slice_write v"
  by (simp add: memtable_entry_def ldb_slice_write_def ldb_ikey_set_eq ldb_raw_write_def pack_seqtype_def)

lemma length_memtable_entry: "length (memtable_entry q t k v) = memtable_entry_size k v"
  by (simp add: memtable_entry_def memtable_entry_size_def ldb_raw_write_def ldb_varint32_size_write Let_def)

lemma mentry_decode:
  "mentry_ok e \<Longrightarrow> ldb_slice_decode (mentry_bytes e) = Some (mentry_ikey e, ldb_slice_write (snd (snd (snd e))))"
  by (cases e rule: mentry_ok.cases) (auto simp: memtable_entry_eq ldb_ikey_set_eq)

lemma mentry_entry: "mentry_ok e \<Longrightarrow> entry_key (mentry_bytes e) = mentry_ikey e \<and> entry_ok (mentry_bytes e)"
  by (cases e rule: mentry_ok.cases) (auto simp: entry_ok_def entry_key_def mentry_decode ldb_ikey_set_eq simp del: mentry_bytes.simps)

abbreviation ikc :: comparator where
  "ikc \<equiv> ldb_ikc_init bytewise_comparator"

lemma compare_ikey:
  "compare ikc (ldb_ikey_set k q t) (ldb_ikey_set k' q' t') =
     (let r = compare bytewise_comparator k k'
      in if r = 0 then (if pack_seqtype q t > pack_seqtype q' t' then -1
                        else if pack_seqtype q t < pack_seqtype q' t' then 1 else 0) else r)"
  by (simp add: ldb_ikc_init_def ldb_ikc_compare_def ldb_ikey_set_eq Let_def)

section \<open>What a lookup returns\<close>

text \<open>
  The specification: of the updates to the key that the snapshot sees, the one with the largest
  sequence number decides.
\<close>

definition visible :: "mentry list \<Rightarrow> bytes \<Rightarrow> u64 \<Rightarrow> mentry list" where
  "visible es u s = filter (\<lambda>(q, t, k, v). k = u \<and> q \<le> s) es"

definition newest :: "mentry list \<Rightarrow> bytes \<Rightarrow> u64 \<Rightarrow> mentry \<Rightarrow> bool" where
  "newest es u s e \<longleftrightarrow> e \<in> set (visible es u s) \<and> (\<forall>e' \<in> set (visible es u s). fst e' \<le> fst e)"

fun outcome :: "mentry \<Rightarrow> memget" where
  "outcome (q, LDB_TYPE_VALUE, k, v) = MemValue v"
| "outcome (q, LDB_TYPE_DELETION, k, v) = MemDeleted"

text \<open>A client that applies several updates.\<close>

fun add_all :: "memtable \<Rightarrow> mentry list \<Rightarrow> memtable option" where
  "add_all mt [] = Some mt"
| "add_all mt ((q, t, k, v) # es) =
     (case ldb_memtable_add mt q t k v of None \<Rightarrow> None | Some mt \<Rightarrow> add_all mt es)"

text \<open>The memtable holds exactly the updates \<^term>\<open>es\<close>.\<close>

definition holds :: "memtable \<Rightarrow> mentry list \<Rightarrow> bool" where
  "holds mt es \<longleftrightarrow> mt_user_comparator mt = bytewise_comparator
     \<and> (\<exists>K. bytewise_skip.represents (mt_table mt) K \<and> set K = mentry_bytes ` set es)
     \<and> (\<forall>e \<in> set es. mentry_ok e) \<and> distinct (map fst es)"

lemma holds_init: "holds (ldb_memtable_create bytewise_comparator) []"
  using bytewise_skip.represents_init
  by (auto simp: holds_def ldb_memtable_create_def ldb_memtable_init_def)

lemma entry_compare:
  "mentry_ok e \<Longrightarrow> mentry_ok e' \<Longrightarrow>
     ldb_skiplist_compare ikc (mentry_bytes e) (mentry_bytes e') = compare ikc (mentry_ikey e) (mentry_ikey e')"
  by (simp add: skiplist_compare_entry mentry_entry)

lemma entry_compare_ne:
  assumes "mentry_ok e" "mentry_ok e'" "fst e \<noteq> fst e'"
  shows "ldb_skiplist_compare ikc (mentry_bytes e) (mentry_bytes e') \<noteq> 0"
proof -
  obtain q t k v q' t' k' v' where e: "e = (q, t, k, v)" "e' = (q', t', k', v')"
    by (cases e; cases e') auto
  have "pack_seqtype q t \<noteq> pack_seqtype q' t'" using assms e by (simp add: pack_seqtype_inj)
  then show ?thesis using assms e entry_compare [OF assms(1,2)] by (auto simp: compare_ikey Let_def)
qed

lemma holds_add:
  assumes h: "holds mt es" and e: "mentry_ok (q, t, k, v)" and new: "q \<notin> fst ` set es"
  shows "\<exists>mt'. ldb_memtable_add mt q t k v = Some mt' \<and> holds mt' ((q, t, k, v) # es) \<and> mt_refs mt' = mt_refs mt"
proof -
  obtain K where K: "bytewise_skip.represents (mt_table mt) K" "set K = mentry_bytes ` set es"
    using h by (auto simp: holds_def)
  let ?b = "memtable_entry q t k v"
  have ok: "entry_ok ?b" using mentry_entry [OF e] by simp
  have ne: "\<forall>x \<in> set K. ldb_skiplist_compare ikc x ?b \<noteq> 0"
  proof
    fix x assume "x \<in> set K"
    then obtain e' where e': "e' \<in> set es" "x = mentry_bytes e'" using K(2) by auto
    then have "mentry_ok e'" "fst e' \<noteq> q" using h new by (auto simp: holds_def)
    then show "ldb_skiplist_compare ikc x ?b \<noteq> 0" using entry_compare_ne [of e' "(q, t, k, v)"] e e' by simp
  qed
  from bytewise_skip.insert_represents [OF K(1) ok ne] obtain sl where
    sl: "ldb_skiplist_insert (mt_table mt) ?b = Some sl" "bytewise_skip.represents sl (bytewise_skip.insert_key ?b K)"
    by blast
  have "set (bytewise_skip.insert_key ?b K) = insert ?b (set K)"
    by (rule bytewise_skip.insert_key_props(1) [OF K(1) ok])
  then show ?thesis using sl K(2) h e new
    by (auto simp: ldb_memtable_add_def Let_def length_memtable_entry holds_def)
qed

lemma holds_add_all:
  "holds mt es \<Longrightarrow> \<forall>e \<in> set fs. mentry_ok e \<Longrightarrow> distinct (map fst (es @ fs)) \<Longrightarrow>
     \<exists>mt'. add_all mt fs = Some mt' \<and> holds mt' (rev fs @ es)"
proof (induction fs arbitrary: mt es)
  case (Cons f fs)
  obtain q t k v where f: "f = (q, t, k, v)" by (cases f)
  obtain mt1 where mt1: "ldb_memtable_add mt q t k v = Some mt1" "holds mt1 (f # es)"
    using holds_add [OF Cons.prems(1), of q t k v] Cons.prems(2,3) f by auto
  have "\<exists>mt'. add_all mt1 fs = Some mt' \<and> holds mt' (rev fs @ f # es)"
    using Cons.prems by (intro Cons.IH [OF mt1(2)]) auto
  then show ?case using mt1(1) f by simp
qed simp

text \<open>The seek of a lookup, and what the lookup makes of the entry it finds.\<close>

lemma seek_key:
  assumes "length u + 8 < 2 ^ 32"
  shows "entry_ok (ldb_lkey_memtable_key (ldb_lkey_init u s))"
    "entry_key (ldb_lkey_memtable_key (ldb_lkey_init u s)) = ldb_ikey_set u s LDB_VALTYPE_SEEK"
proof -
  have "length (ldb_ikey_set u s LDB_VALTYPE_SEEK) < 2 ^ 32" using assms by (simp add: ldb_ikey_set_eq)
  from ldb_slice_decode_write [OF this, of "[]"]
  show "entry_key (ldb_lkey_memtable_key (ldb_lkey_init u s)) = ldb_ikey_set u s LDB_VALTYPE_SEEK"
    "entry_ok (ldb_lkey_memtable_key (ldb_lkey_init u s))"
    using ldb_lkey_init_keys(3) [OF assms, of s]
    by (simp_all add: entry_ok_def entry_key_def) (simp add: ldb_ikey_set_eq)
qed

lemma bytewise_gt: "compare bytewise_comparator x y > 0 \<Longrightarrow> x \<noteq> y"
  using bytewise_eq_iff [of x y] by auto

lemma seek_compare:
  assumes "mentry_ok (q, t, k, v)" "seq_ok s" "length u + 8 < 2 ^ 32"
  shows "ldb_skiplist_compare ikc (memtable_entry q t k v) (ldb_lkey_memtable_key (ldb_lkey_init u s)) \<ge> 0
    \<longleftrightarrow> compare bytewise_comparator k u > 0 \<or> k = u \<and> q \<le> s"
proof -
  have "ldb_skiplist_compare ikc (memtable_entry q t k v) (ldb_lkey_memtable_key (ldb_lkey_init u s))
      = compare ikc (ldb_ikey_set k q t) (ldb_ikey_set u s LDB_VALTYPE_SEEK)"
    using mentry_entry [OF assms(1)] seek_key [OF assms(3), of s] by (simp add: skiplist_compare_entry)
  then show ?thesis
    using pack_le_seek [of q s t] assms(1,2) bytewise_eq_iff [of k u]
    by (auto simp: compare_ikey Let_def not_less)
qed

lemma seek_compare_entry:
  assumes "mentry_ok e" "seq_ok s" "length u + 8 < 2 ^ 32"
  shows "ldb_skiplist_compare ikc (mentry_bytes e) (ldb_lkey_memtable_key (ldb_lkey_init u s)) \<ge> 0
    \<longleftrightarrow> compare bytewise_comparator (fst (snd (snd e))) u > 0 \<or> fst (snd (snd e)) = u \<and> fst e \<le> s"
  using assms seek_compare [of "fst e" "fst (snd e)" "fst (snd (snd e))" "snd (snd (snd e))" s u]
  by (cases e) simp

lemma get_entry:
  assumes "ldb_skipiter_seek (ldb_skipiter_init (mt_table mt)) (ldb_lkey_memtable_key (ldb_lkey_init u s)) = Some it"
    and "ldb_skipiter_valid it" "ldb_skipiter_key it = mentry_bytes e" "mentry_ok e"
    and "mt_user_comparator mt = bytewise_comparator"
  shows "ldb_memtable_get mt (ldb_lkey_init u s) = Some (if fst (snd (snd e)) = u then outcome e else MemAbsent)"
proof -
  obtain q t k v where e: "e = (q, t, k, v)" by (cases e)
  have "take (length (ldb_ikey_set k q t) - 8) (ldb_ikey_set k q t) = k"
    "ldb_fixed64_decode (drop (length (ldb_ikey_set k q t) - 8) (ldb_ikey_set k q t)) = pack_seqtype q t"
    by (simp_all add: ldb_ikey_set_eq)
  moreover have "ldb_slice_decode (memtable_entry q t k v) = Some (ldb_ikey_set k q t, ldb_slice_write v)"
    using mentry_decode [OF assms(4)] e by simp
  moreover have "fst (the (ldb_slice_decode (ldb_slice_write v))) = v"
    using ldb_slice_decode_write [of v "[]"] assms(4) e by simp
  ultimately show ?thesis
    using assms e bytewise_eq_iff [of k u] take_bit_pack_seqtype [of q t]
    by (cases t; cases "k = u") (simp_all add: ldb_memtable_get_def ldb_lkey_init_keys(1) word_and_255 Let_def)
qed

lemma holds_get:
  assumes h: "holds mt es" and s: "seq_ok s" and u: "length u + 8 < 2 ^ 32"
  shows "visible es u s = [] \<Longrightarrow> ldb_memtable_get mt (ldb_lkey_init u s) = Some MemAbsent"
    and "newest es u s e \<Longrightarrow> ldb_memtable_get mt (ldb_lkey_init u s) = Some (outcome e)"
proof -
  let ?T = "ldb_lkey_memtable_key (ldb_lkey_init u s)" and ?cmp = "ldb_skiplist_compare ikc"
  obtain K where K: "bytewise_skip.represents (mt_table mt) K" "set K = mentry_bytes ` set es"
    and uc: "mt_user_comparator mt = bytewise_comparator" and ok: "\<And>e. e \<in> set es \<Longrightarrow> mentry_ok e"
    and dist: "distinct (map fst es)" using h by (auto simp: holds_def)
  let ?F = "filter (\<lambda>y. ?cmp y ?T \<ge> 0) K"
  obtain x where x: "ldb_skiplist_find_gte (mt_table mt) ?T None = Some (x, None)"
    "map_option (ldb_skipnode_key (mt_table mt)) x = first ?F"
    using bytewise_skip.find_represents [OF K(1) seek_key(1) [OF u]] by blast
  define it where "it = \<lparr>si_list = mt_table mt, si_node = x\<rparr>"
  have seek: "ldb_skipiter_seek (ldb_skipiter_init (mt_table mt)) ?T = Some it"
    using x(1) by (simp add: ldb_skipiter_seek_def ldb_skipiter_init_def it_def)
  have F: "\<exists>e \<in> set es. y = mentry_bytes e \<and> (compare bytewise_comparator (fst (snd (snd e))) u > 0
      \<or> fst (snd (snd e)) = u \<and> fst e \<le> s)" if y: "y \<in> set ?F" for y
  proof -
    obtain e where e: "e \<in> set es" "y = mentry_bytes e" using y K(2) by auto
    with y seek_compare_entry [OF ok [OF e(1)] s u] show ?thesis by (intro bexI [of _ e]) auto
  qed
  have found: "ldb_memtable_get mt (ldb_lkey_init u s) = Some (if fst (snd (snd e)) = u then outcome e else MemAbsent)"
    if "?F = mentry_bytes e # zs" "e \<in> set es" for e zs
    using that x(2) ok [OF that(2)] uc by (intro get_entry [OF seek]) (auto simp: it_def ldb_skipiter_valid_def ldb_skipiter_key_def)
  {
    assume vis: "visible es u s = []"
    show "ldb_memtable_get mt (ldb_lkey_init u s) = Some MemAbsent"
    proof (cases ?F)
      case Nil
      then show ?thesis using x(2) seek by (simp add: ldb_memtable_get_def ldb_skipiter_valid_def it_def)
    next
      case (Cons z zs)
      then have "z \<in> set ?F" by simp
      from F [OF this] obtain e where "e \<in> set es" "z = mentry_bytes e"
        "compare bytewise_comparator (fst (snd (snd e))) u > 0 \<or> fst (snd (snd e)) = u \<and> fst e \<le> s" by blast
      moreover have "\<not> (fst (snd (snd e)) = u \<and> fst e \<le> s)"
        using vis \<open>e \<in> set es\<close> by (auto simp: visible_def filter_empty_conv)
      ultimately show ?thesis using found [of e zs] Cons bytewise_gt by auto
    qed
  next
    assume new: "newest es u s e"
    then have e: "e \<in> set es" "fst (snd (snd e)) = u" "fst e \<le> s" by (auto simp: newest_def visible_def)
    have eF: "mentry_bytes e \<in> set ?F"
      using e K(2) seek_compare_entry [OF ok [OF e(1)] s u] by simp
    then obtain z zs where zs: "?F = z # zs" by (cases ?F) auto
    have "z = mentry_bytes e"
    proof (rule ccontr)
      assume ne: "z \<noteq> mentry_bytes e"
      have zF: "z \<in> set ?F" by (simp add: zs)
      from F [OF zF] obtain e1 where e1: "e1 \<in> set es" "z = mentry_bytes e1"
        "compare bytewise_comparator (fst (snd (snd e1))) u > 0 \<or> fst (snd (snd e1)) = u \<and> fst e1 \<le> s" by blast
      have "sorted_wrt (\<lambda>a b. ?cmp a b < 0) (z # zs)"
        using bytewise_skip.represents_sorted [OF K(1)] sorted_wrt_filter zs by metis
      moreover have "mentry_bytes e \<in> set (z # zs)" using eF by (simp only: zs)
      ultimately have less: "?cmp z (mentry_bytes e) < 0" using ne by auto
      obtain q1 t1 k1 v1 where e1': "e1 = (q1, t1, k1, v1)" by (cases e1)
      obtain q t v where "e = (q, t, u, v)" using e(2) by (metis prod.collapse)
      note ee = this e1'
      have "k1 = u \<and> pack_seqtype q1 t1 > pack_seqtype q t"
        using less e1 ee entry_compare [OF ok [OF e1(1)] ok [OF e(1)]] bytewise_eq_iff [of k1 u]
        by (auto simp: compare_ikey Let_def split: if_splits)
      moreover from this have "q1 \<le> q"
        using new e1 ee bytewise_eq_iff [of k1 u] by (auto simp: newest_def visible_def)
      moreover have "q1 \<noteq> q"
      proof
        assume "q1 = q"
        then have "e1 = e" using dist e1(1) e(1) ee by (metis distinct_map fst_conv inj_onD)
        then show False using ne e1(2) by simp
      qed
      ultimately show False using ok [OF e(1)] ok [OF e1(1)] ee
        by (auto simp: pack_seqtype_less_iff)
    qed
    then show "ldb_memtable_get mt (ldb_lkey_init u s) = Some (outcome e)" using found [of e zs] zs e by simp
  }
qed

section \<open>Properties\<close>

text \<open>
  C5. A memtable is a multi-version map. After any sequence of updates with distinct sequence numbers is
  applied to a new memtable (all of which succeed), a lookup of a user key at a snapshot terminates and
  returns what the newest update of that key with a sequence number not above the snapshot says: its value,
  or that the key was deleted; and when there is no such update it reports that the memtable knows
  nothing of the key.
\<close>

theorem memtable_lookup:
  assumes "\<forall>e \<in> set es. mentry_ok e" "distinct (map fst es)"
    and "s \<le> LDB_MAX_SEQUENCE" "length u + 8 < 2 ^ 32"
  shows "\<exists>mt. add_all (ldb_memtable_create bytewise_comparator) es = Some mt
    \<and> (visible es u s = [] \<longrightarrow> ldb_memtable_get mt (ldb_lkey_init u s) = Some MemAbsent)
    \<and> (\<forall>e. newest es u s e \<longrightarrow> ldb_memtable_get mt (ldb_lkey_init u s) = Some (outcome e))"
proof -
  obtain mt where mt: "add_all (ldb_memtable_create bytewise_comparator) es = Some mt" "holds mt (rev es)"
    using holds_add_all [OF holds_init, of es] assms(1,2) by auto
  have "visible (rev es) u s = rev (visible es u s)" by (simp add: visible_def rev_filter)
  then have "newest (rev es) u s e = newest es u s e" for e by (simp add: newest_def)
  with mt show ?thesis using holds_get [OF mt(2) assms(3,4)] \<open>visible (rev es) u s = rev (visible es u s)\<close> by auto
qed

theorem memtable_lookup_witness:
  "\<exists>mt. add_all (ldb_memtable_create bytewise_comparator)
      [(1, LDB_TYPE_VALUE, [7], [1]), (3, LDB_TYPE_DELETION, [7], []), (2, LDB_TYPE_VALUE, [7], [2])] = Some mt
    \<and> ldb_memtable_get mt (ldb_lkey_init [7] 2) = Some (MemValue [2])"
proof -
  let ?es = "[(1, LDB_TYPE_VALUE, [7], [1]), (3, LDB_TYPE_DELETION, [7], []), (2, LDB_TYPE_VALUE, [7], [2])] :: mentry list"
  have new: "newest ?es [7] 2 (2, LDB_TYPE_VALUE, [7], [2])" by (simp add: newest_def visible_def)
  have "\<forall>e \<in> set ?es. mentry_ok e" "distinct (map fst ?es)" by (simp_all add: seq_ok_unat)
  from memtable_lookup [OF this, of 2 "[7]"] new show ?thesis by (fastforce simp: seq_ok_unat)
qed

end
