(* ===== verification/WriteBatch.thy ===== *)
theory WriteBatch
  imports MemTable
begin

text \<open>
  Write batches (\<^verbatim>\<open>src/src/write_batch.c\<close>): a byte string with a header of twelve bytes (sequence
  number and count) and a record for every update, the iteration over one with a handler, and its
  insertion into a memtable. A handler's state is threaded through its callbacks.
\<close>

section \<open>The batch\<close>

abbreviation LDB_HEADER :: nat where
  "LDB_HEADER \<equiv> 12"

record batch =
  rep :: bytes

definition ldb_batch_reset :: "batch \<Rightarrow> batch" where
  "ldb_batch_reset batch = batch\<lparr>rep := replicate LDB_HEADER 0\<rparr>"

definition ldb_batch_init :: batch where
  "ldb_batch_init = ldb_batch_reset \<lparr>rep = []\<rparr>"

definition ldb_batch_approximate_size :: "batch \<Rightarrow> nat" where
  "ldb_batch_approximate_size batch = length (rep batch)"

definition ldb_batch_count :: "batch \<Rightarrow> int" where
  "ldb_batch_count batch = sint (ldb_fixed32_decode (drop 8 (rep batch)))"

definition ldb_batch_set_count :: "batch \<Rightarrow> int \<Rightarrow> batch" where
  "ldb_batch_set_count batch count =
     batch\<lparr>rep := take 8 (rep batch) @ ldb_fixed32_write (word_of_int count) @ drop 12 (rep batch)\<rparr>"

definition ldb_batch_sequence :: "batch \<Rightarrow> u64" where
  "ldb_batch_sequence batch = ldb_fixed64_decode (rep batch)"

definition ldb_batch_set_sequence :: "batch \<Rightarrow> u64 \<Rightarrow> batch" where
  "ldb_batch_set_sequence batch seq = batch\<lparr>rep := ldb_fixed64_write seq @ drop 8 (rep batch)\<rparr>"

definition ldb_batch_put :: "batch \<Rightarrow> bytes \<Rightarrow> bytes \<Rightarrow> batch" where
  "ldb_batch_put batch key value =
     (let batch = ldb_batch_set_count batch (ldb_batch_count batch + 1);
          z = rep batch @ [ucast (valtype_code LDB_TYPE_VALUE)];
          z = ldb_slice_export z key;
          z = ldb_slice_export z value
      in batch\<lparr>rep := z\<rparr>)"

definition ldb_batch_del :: "batch \<Rightarrow> bytes \<Rightarrow> batch" where
  "ldb_batch_del batch key =
     (let batch = ldb_batch_set_count batch (ldb_batch_count batch + 1);
          z = rep batch @ [ucast (valtype_code LDB_TYPE_DELETION)];
          z = ldb_slice_export z key
      in batch\<lparr>rep := z\<rparr>)"

definition ldb_batch_append_assert :: "batch \<Rightarrow> bool" where
  "ldb_batch_append_assert src \<longleftrightarrow> length (rep src) \<ge> LDB_HEADER"

definition ldb_batch_append :: "batch \<Rightarrow> batch \<Rightarrow> batch" where
  "ldb_batch_append dst src =
     (let dst = ldb_batch_set_count dst (ldb_batch_count dst + ldb_batch_count src)
      in dst\<lparr>rep := rep dst @ drop LDB_HEADER (rep src)\<rparr>)"

definition ldb_batch_set_contents :: "batch \<Rightarrow> bytes \<Rightarrow> batch" where
  "ldb_batch_set_contents batch contents = batch\<lparr>rep := contents\<rparr>"

definition ldb_batch_contents :: "batch \<Rightarrow> bytes" where
  "ldb_batch_contents batch = rep batch"

definition ldb_batch_size :: "batch \<Rightarrow> nat" where
  "ldb_batch_size batch = length (rep batch)"

section \<open>Iterating\<close>

text \<open>
  The loop of \<^verbatim>\<open>ldb_batch_iterate\<close> with the callbacks \<^term>\<open>put\<close> and \<^term>\<open>del\<close> of the handler; it returns
  the number of records found, or \<^term>\<open>None\<close> where the source returns \<^verbatim>\<open>LDB_CORRUPTION\<close>, and the state
  of the handler, which the records before a bad one have changed.
\<close>

function batch_iterate_loop ::
  "('s \<Rightarrow> bytes \<Rightarrow> bytes \<Rightarrow> 's) \<Rightarrow> ('s \<Rightarrow> bytes \<Rightarrow> 's) \<Rightarrow> 's \<Rightarrow> bytes \<Rightarrow> int \<Rightarrow> int option \<times> 's" where
  "batch_iterate_loop put del s input found =
     (case input of
        [] \<Rightarrow> (Some found, s)
      | tag # input' \<Rightarrow>
          (if ucast tag = valtype_code LDB_TYPE_VALUE then
             (case ldb_slice_slurp input' of
                None \<Rightarrow> (None, s)
              | Some (key, input'') \<Rightarrow>
                  (case ldb_slice_slurp input'' of
                     None \<Rightarrow> (None, s)
                   | Some (value, input''') \<Rightarrow>
                       batch_iterate_loop put del (put s key value) input''' (found + 1)))
           else if ucast tag = valtype_code LDB_TYPE_DELETION then
             (case ldb_slice_slurp input' of
                None \<Rightarrow> (None, s)
              | Some (key, input'') \<Rightarrow> batch_iterate_loop put del (del s key) input'' (found + 1))
           else (None, s)))"
  by pat_completeness auto
termination
  by (relation "measure (\<lambda>(put, del, s, input, found). length input)")
    (auto simp: ldb_slice_slurp_def dest!: slice.dec_length)

declare batch_iterate_loop.simps [simp del]

definition ldb_batch_iterate ::
  "('s \<Rightarrow> bytes \<Rightarrow> bytes \<Rightarrow> 's) \<Rightarrow> ('s \<Rightarrow> bytes \<Rightarrow> 's) \<Rightarrow> 's \<Rightarrow> batch \<Rightarrow> status \<times> 's" where
  "ldb_batch_iterate put del s batch =
     (if length (rep batch) < LDB_HEADER then (LDB_CORRUPTION, s)
      else
        (case batch_iterate_loop put del s (drop LDB_HEADER (rep batch)) 0 of
           (None, s) \<Rightarrow> (LDB_CORRUPTION, s)
         | (Some found, s) \<Rightarrow>
             if found \<noteq> ldb_batch_count batch then (LDB_CORRUPTION, s) else (LDB_OK, s)))"

section \<open>Inserting into a memtable\<close>

text \<open>The handler's state: the next sequence number and the table; \<^term>\<open>None\<close> after a failed assertion.\<close>

definition memtable_put :: "(u64 \<times> memtable option) \<Rightarrow> bytes \<Rightarrow> bytes \<Rightarrow> u64 \<times> memtable option" where
  "memtable_put handler key value =
     (case handler of
        (seq, None) \<Rightarrow> (seq, None)
      | (seq, Some table) \<Rightarrow> (seq + 1, ldb_memtable_add table seq LDB_TYPE_VALUE key value))"

definition memtable_del :: "(u64 \<times> memtable option) \<Rightarrow> bytes \<Rightarrow> u64 \<times> memtable option" where
  "memtable_del handler key =
     (case handler of
        (seq, None) \<Rightarrow> (seq, None)
      | (seq, Some table) \<Rightarrow> (seq + 1, ldb_memtable_add table seq LDB_TYPE_DELETION key []))"

definition ldb_batch_insert_into :: "batch \<Rightarrow> memtable \<Rightarrow> status \<times> memtable option" where
  "ldb_batch_insert_into batch table =
     (let (rc, handler) = ldb_batch_iterate memtable_put memtable_del (ldb_batch_sequence batch, Some table) batch
      in (rc, snd handler))"

section \<open>The updates of a batch\<close>

datatype batch_op = Put bytes bytes | Del bytes

primrec op_ok :: "batch_op \<Rightarrow> bool" where
  "op_ok (Put k v) \<longleftrightarrow> length k < 2 ^ 32 \<and> length v < 2 ^ 32"
| "op_ok (Del k) \<longleftrightarrow> length k < 2 ^ 32"

primrec op_bytes :: "batch_op \<Rightarrow> bytes" where
  "op_bytes (Put k v) = 1 # ldb_slice_write k @ ldb_slice_write v"
| "op_bytes (Del k) = 0 # ldb_slice_write k"

primrec apply_op :: "batch \<Rightarrow> batch_op \<Rightarrow> batch" where
  "apply_op b (Put k v) = ldb_batch_put b k v"
| "apply_op b (Del k) = ldb_batch_del b k"

primrec handle_op :: "('s \<Rightarrow> bytes \<Rightarrow> bytes \<Rightarrow> 's) \<Rightarrow> ('s \<Rightarrow> bytes \<Rightarrow> 's) \<Rightarrow> 's \<Rightarrow> batch_op \<Rightarrow> 's" where
  "handle_op put del s (Put k v) = put s k v"
| "handle_op put del s (Del k) = del s k"

text \<open>A batch is what the header and the updates make it.\<close>

definition batch_of :: "u64 \<Rightarrow> batch_op list \<Rightarrow> batch" where
  "batch_of seq ops = \<lparr>rep = ldb_fixed64_write seq @ ldb_fixed32_write (word_of_nat (length ops)) @ concat (map op_bytes ops)\<rparr>"

lemma ldb_fixed_write_0: "ldb_fixed64_write 0 @ ldb_fixed32_write 0 = replicate LDB_HEADER 0"
  by (simp add: ldb_fixed64_write_def ldb_fixed32_write_def numeral_eq_Suc)

lemma batch_of_init: "ldb_batch_init = batch_of 0 []"
  using ldb_fixed_write_0 by (simp add: ldb_batch_init_def ldb_batch_reset_def batch_of_def)

lemma batch_of_rep:
  "take 8 (rep (batch_of s ops)) = ldb_fixed64_write s"
  "drop 8 (rep (batch_of s ops)) = ldb_fixed32_write (word_of_nat (length ops)) @ concat (map op_bytes ops)"
  "drop 12 (rep (batch_of s ops)) = concat (map op_bytes ops)"
  by (simp_all add: batch_of_def)

lemma batch_of_header:
  "ldb_batch_sequence (batch_of s ops) = s"
  "ldb_batch_count (batch_of s ops) = sint (word_of_nat (length ops) :: u32)"
  "ldb_batch_set_sequence (batch_of s ops) s' = batch_of s' ops"
  by (simp_all add: ldb_batch_sequence_def ldb_batch_count_def ldb_batch_set_sequence_def batch_of_rep)
    (simp_all add: batch_of_def)

lemma word_of_int_sint_Suc: "word_of_int (sint (w :: u32) + 1) = w + 1"
  by simp

lemma apply_op_batch_of: "apply_op (batch_of s ops) op = batch_of s (ops @ [op])"
proof -
  have count: "ldb_batch_set_count (batch_of s ops) (ldb_batch_count (batch_of s ops) + 1)
      = \<lparr>rep = ldb_fixed64_write s @ ldb_fixed32_write (word_of_nat (Suc (length ops))) @ concat (map op_bytes ops)\<rparr>"
    by (simp add: ldb_batch_set_count_def batch_of_rep batch_of_header word_of_int_sint_Suc add.commute)
  show ?thesis
    by (cases op; simp add: ldb_batch_put_def ldb_batch_del_def count Let_def ldb_slice_export_def)
      (simp_all add: batch_of_def)
qed

lemma apply_ops_batch_of: "fold (\<lambda>op b. apply_op b op) ops' (batch_of s ops) = batch_of s (ops @ ops')"
  by (induction ops' arbitrary: ops) (simp_all add: apply_op_batch_of)

lemma append_batch_of: "ldb_batch_append (batch_of s ops) (batch_of s' ops') = batch_of s (ops @ ops')"
proof -
  have "word_of_int (sint (word_of_nat (length ops) :: u32) + sint (word_of_nat (length ops') :: u32))
      = (word_of_nat (length (ops @ ops')) :: u32)"
    by simp
  then show ?thesis
    by (simp add: ldb_batch_append_def ldb_batch_set_count_def batch_of_rep batch_of_header Let_def)
      (simp add: batch_of_def)
qed

lemma iterate_loop_ops:
  "\<forall>op \<in> set ops. op_ok op \<Longrightarrow>
     batch_iterate_loop put del s (concat (map op_bytes ops)) found
       = (Some (found + int (length ops)), fold (\<lambda>op s. handle_op put del s op) ops s)"
proof (induction ops arbitrary: s found)
  case Nil
  then show ?case by (simp add: batch_iterate_loop.simps)
next
  case (Cons op ops)
  then show ?case by (cases op) (simp_all add: batch_iterate_loop.simps [where input = "_ # _"])
qed

lemma iterate_batch_of:
  assumes "\<forall>op \<in> set ops. op_ok op" "length ops < 2 ^ 31"
  shows "ldb_batch_iterate put del s (batch_of seq ops) = (LDB_OK, fold (\<lambda>op s. handle_op put del s op) ops s)"
proof -
  have "sint (word_of_nat (length ops) :: u32) = int (length ops)"
    using assms(2) by (simp add: signed_of_nat signed_take_bit_int_eq_self)
  then show ?thesis using iterate_loop_ops [OF assms(1), of put del s 0]
    by (simp add: ldb_batch_iterate_def batch_of_rep batch_of_header) (simp add: batch_of_def)
qed

section \<open>The entries a batch adds\<close>

primrec op_key :: "batch_op \<Rightarrow> bytes" where
  "op_key (Put k v) = k"
| "op_key (Del k) = k"

primrec op_entry :: "u64 \<Rightarrow> batch_op \<Rightarrow> mentry" where
  "op_entry s (Put k v) = (s, LDB_TYPE_VALUE, k, v)"
| "op_entry s (Del k) = (s, LDB_TYPE_DELETION, k, [])"

fun op_entries :: "u64 \<Rightarrow> batch_op list \<Rightarrow> mentry list" where
  "op_entries s [] = []"
| "op_entries s (op # ops) = op_entry s op # op_entries (s + 1) ops"

text \<open>An update whose key leaves room for the tag.\<close>

definition op_fits :: "batch_op \<Rightarrow> bool" where
  "op_fits op \<longleftrightarrow> length (op_key op) + 8 < 2 ^ 32 \<and> op_ok op"

lemma op_entry_simps [simp]: "fst (op_entry s op) = s" "fst (snd (snd (op_entry s op))) = op_key op"
  by (cases op; simp)+

lemma op_entries_append: "op_entries s (ops @ ops') = op_entries s ops @ op_entries (s + word_of_nat (length ops)) ops'"
  by (induction ops arbitrary: s) (simp_all add: add.assoc)

lemma op_entries_seq:
  "unat s + length ops \<le> 2 ^ 56 \<Longrightarrow> map (unat \<circ> fst) (op_entries s ops) = [unat s..<unat s + length ops]"
proof (induction ops arbitrary: s)
  case (Cons op ops)
  then have "unat (s + 1) = unat s + 1" by (simp add: unat_word_ariths)
  with Cons show ?case by (simp add: upt_conv_Cons del: upt_Suc)
qed simp

lemma op_entries_mem:
  assumes "unat s + length ops \<le> 2 ^ 56" "e \<in> set (op_entries s ops)"
  shows "unat s \<le> unat (fst e)" "unat (fst e) < unat s + length ops"
proof -
  have "unat (fst e) \<in> set (map (unat \<circ> fst) (op_entries s ops))" using assms(2) by force
  then show "unat s \<le> unat (fst e)" "unat (fst e) < unat s + length ops"
    using op_entries_seq [OF assms(1)] by auto
qed

lemma op_entries_distinct: "unat s + length ops \<le> 2 ^ 56 \<Longrightarrow> distinct (map fst (op_entries s ops))"
  using op_entries_seq [of s ops] distinct_map [of unat "map fst (op_entries s ops)"] by simp

lemma op_entries_ok:
  "unat s + length ops \<le> 2 ^ 56 \<Longrightarrow> \<forall>op \<in> set ops. op_fits op \<Longrightarrow> \<forall>e \<in> set (op_entries s ops). mentry_ok e"
proof (induction ops arbitrary: s)
  case (Cons op ops)
  then have "unat (s + 1) = unat s + 1" by (simp add: unat_word_ariths)
  then have "\<forall>e \<in> set (op_entries (s + 1) ops). mentry_ok e"
    using Cons.prems by (intro Cons.IH) auto
  moreover have "mentry_ok (op_entry s op)" using Cons.prems by (cases op) (auto simp: op_fits_def seq_ok_unat)
  ultimately show ?case by simp
qed simp

lemma handler_add_all:
  "add_all mt (op_entries s ops) = Some mt' \<Longrightarrow>
     fold (\<lambda>op h. handle_op memtable_put memtable_del h op) ops (s, Some mt) = (s + word_of_nat (length ops), Some mt')"
proof (induction ops arbitrary: s mt)
  case (Cons op ops)
  then show ?case
    by (cases op) (auto simp: memtable_put_def memtable_del_def add.assoc split: option.splits)
qed simp

text \<open>What a batch says of a key: its last update, if any.\<close>

definition batch_result :: "batch_op list \<Rightarrow> bytes \<Rightarrow> memget" where
  "batch_result ops u =
     (case filter (\<lambda>op. op_key op = u) (rev ops) of
        [] \<Rightarrow> MemAbsent
      | Put k v # _ \<Rightarrow> MemValue v
      | Del k # _ \<Rightarrow> MemDeleted)"

lemma batch_result_newest:
  assumes "unat s + length ops \<le> 2 ^ 56" "unat s + length ops \<le> unat snap + 1"
  shows "(visible (op_entries s ops) u snap = [] \<and> batch_result ops u = MemAbsent)
    \<or> (\<exists>e. newest (op_entries s ops) u snap e \<and> outcome e = batch_result ops u)"
  using assms
proof (induction ops rule: rev_induct)
  case (snoc op ops)
  let ?e = "op_entry (s + word_of_nat (length ops)) op"
  have n: "unat (s + word_of_nat (length ops)) = unat s + length ops"
    using snoc.prems by (simp add: unat_word_ariths unat_of_nat take_bit_nat_eq_self)
  have le: "s + word_of_nat (length ops) \<le> snap" using n snoc.prems by (simp add: word_le_nat_alt)
  have lt: "fst e \<le> s + word_of_nat (length ops)" if "e \<in> set (op_entries s ops)" for e
    using op_entries_mem(2) [OF _ that] snoc.prems n by (simp add: word_le_nat_alt)
  have vis: "visible (op_entries s (ops @ [op])) u snap = visible (op_entries s ops) u snap @ (if op_key op = u then [?e] else [])"
    using le by (cases op) (auto simp: op_entries_append visible_def)
  show ?case
  proof (cases "op_key op = u")
    case True
    have "newest (op_entries s (ops @ [op])) u snap ?e"
      using True lt by (auto simp: newest_def vis) (auto simp: visible_def)
    moreover have "outcome ?e = batch_result (ops @ [op]) u" using True by (cases op) (auto simp: batch_result_def)
    ultimately show ?thesis by blast
  next
    case False
    then have "batch_result (ops @ [op]) u = batch_result ops u" by (simp add: batch_result_def)
    with snoc False vis show ?thesis by (auto simp: newest_def)
  qed
qed (simp add: visible_def batch_result_def)

section \<open>Properties\<close>

text \<open>
  C22. A batch is read as it was built. Iterating over a batch that was built by puts and deletes, to which
  another batch may have been appended and whose sequence number may have been set, calls the handler with
  exactly these updates in order and succeeds, whatever the handler does; the header then holds the number
  of updates and the sequence number.
\<close>

theorem batch_iterate_built:
  assumes "\<forall>op \<in> set (ops @ ops'). op_ok op" "length (ops @ ops') < 2 ^ 31"
  shows "ldb_batch_iterate put del s
      (ldb_batch_set_sequence
        (ldb_batch_append (fold (\<lambda>op b. apply_op b op) ops ldb_batch_init) (fold (\<lambda>op b. apply_op b op) ops' ldb_batch_init)) seq)
      = (LDB_OK, fold (\<lambda>op s. handle_op put del s op) (ops @ ops') s)
    \<and> ldb_batch_sequence
      (ldb_batch_set_sequence
        (ldb_batch_append (fold (\<lambda>op b. apply_op b op) ops ldb_batch_init) (fold (\<lambda>op b. apply_op b op) ops' ldb_batch_init)) seq) = seq"
  using iterate_batch_of [OF assms, of put del s seq]
  by (simp add: batch_of_init apply_ops_batch_of append_batch_of batch_of_header)

theorem batch_iterate_built_witness:
  "ldb_batch_iterate (\<lambda>s k v. s @ [Put k v]) (\<lambda>s k. s @ [Del k]) []
      (ldb_batch_set_sequence
        (ldb_batch_append (fold (\<lambda>op b. apply_op b op) [Put [1] [2, 3], Del [1]] ldb_batch_init)
          (fold (\<lambda>op b. apply_op b op) [Put [] []] ldb_batch_init)) 9)
      = (LDB_OK, [Put [1] [2, 3], Del [1], Put [] []])"
  using batch_iterate_built [of "[Put [1] [2, 3], Del [1]]" "[Put [] []]" "\<lambda>s k v. s @ [Put k v]" "\<lambda>s k. s @ [Del k]" "[]" 9]
  by simp

text \<open>
  C4. The updates of a batch are applied in order and the last one of a key wins, as the comment in
  \<^verbatim>\<open>write_batch.h\<close> promises. Inserting a batch into a new memtable succeeds, and a lookup at a snapshot that
  sees all of it returns what the last update of the key in the batch says.
\<close>

theorem batch_last_update_wins:
  assumes "\<forall>op \<in> set ops. op_fits op" "length ops < 2 ^ 31"
    and "unat seq + length ops \<le> 2 ^ 56" "unat seq + length ops \<le> unat snapshot + 1" "snapshot \<le> LDB_MAX_SEQUENCE"
    and "length u + 8 < 2 ^ 32"
  shows "\<exists>mt. ldb_batch_insert_into (ldb_batch_set_sequence (fold (\<lambda>op b. apply_op b op) ops ldb_batch_init) seq)
      (ldb_memtable_create bytewise_comparator) = (LDB_OK, Some mt)
    \<and> ldb_memtable_get mt (ldb_lkey_init u snapshot) = Some (batch_result ops u)"
proof -
  let ?es = "op_entries seq ops" and ?mt = "ldb_memtable_create bytewise_comparator"
  have "\<forall>op \<in> set ops. op_ok op" using assms(1) by (simp add: op_fits_def)
  note it = iterate_batch_of [OF this assms(2), of memtable_put memtable_del "(seq, Some ?mt)" seq]
  obtain mt where mt: "add_all ?mt ?es = Some mt" "holds mt (rev ?es)"
    using holds_add_all [OF holds_init op_entries_ok [OF assms(3,1)]] op_entries_distinct [OF assms(3)] by auto
  have "ldb_batch_insert_into (ldb_batch_set_sequence (fold (\<lambda>op b. apply_op b op) ops ldb_batch_init) seq) ?mt = (LDB_OK, Some mt)"
    using it handler_add_all [OF mt(1)]
    by (simp add: ldb_batch_insert_into_def batch_of_init apply_ops_batch_of batch_of_header)
  moreover have "visible (rev ?es) u snapshot = rev (visible ?es u snapshot)" by (simp add: visible_def rev_filter)
  then have "ldb_memtable_get mt (ldb_lkey_init u snapshot) = Some (batch_result ops u)"
    using batch_result_newest [OF assms(3,4), of u] holds_get [OF mt(2) assms(5,6)]
    by (auto simp: newest_def)
  ultimately show ?thesis by blast
qed

theorem batch_last_update_wins_witness:
  "\<exists>mt. ldb_batch_insert_into
      (ldb_batch_set_sequence (fold (\<lambda>op b. apply_op b op) [Put [7] [1], Del [7], Put [7] [2], Put [7] [3]] ldb_batch_init) 100)
      (ldb_memtable_create bytewise_comparator) = (LDB_OK, Some mt)
    \<and> ldb_memtable_get mt (ldb_lkey_init [7] 103) = Some (MemValue [3])"
  using batch_last_update_wins [of "[Put [7] [1], Del [7], Put [7] [2], Put [7] [3]]" 100 103 "[7]"]
  by (simp add: op_fits_def seq_ok_unat batch_result_def)

end
