(* ===== verification/EnvFiles.thy ===== *)
theory EnvFiles
  imports EnvMem
begin

text \<open>
  What the in-memory environment promises to its clients: a finite map from file names to contents.
  \<^term>\<open>file_bytes\<close> reads that map off an environment; the operations on whole files are functions of it.
\<close>

definition file_bytes :: "memenv \<Rightarrow> string \<rightharpoonup> bytes" where
  "file_bytes e p = map_option (\<lambda>i. fs_contents (fstate_at e i)) (me_files e p)"

lemma file_bytes_frame:
  assumes "me_files e' p = me_files e p"
    and "\<And>i. me_files e p = Some i \<Longrightarrow> fs_contents (fstate_at e' i) = fs_contents (fstate_at e i)"
  shows "file_bytes e' p = file_bytes e p"
  using assms by (cases "me_files e p") (auto simp: file_bytes_def)

lemma me_files_inj: "env_inv e H \<Longrightarrow> me_files e p = Some i \<Longrightarrow> me_files e q = Some i \<Longrightarrow> p = q"
  using env_invD(2) [of e H p i] env_invD(2) [of e H q i] by auto

lemma contents_put [simp]:
  "fs_contents (fstate_at (fstate_put e i s) j) = (if j = i then fs_contents s else fs_contents (fstate_at e j))"
  by (simp add: fstate_at_def)

lemma contents_ref [simp]: "fs_contents (fstate_at (ldb_fstate_ref e i) j) = fs_contents (fstate_at e j)"
  by (simp add: ldb_fstate_ref_def Let_def)

lemma contents_update_other [simp]:
  "fstate_at (e\<lparr>me_files := m\<rparr>) j = fstate_at e j" "fstate_at (e\<lparr>me_next := n\<rparr>) j = fstate_at e j"
  by (simp_all add: fstate_at_def)

lemma me_files_ref_unref [simp]:
  "me_files (ldb_fstate_ref e i) = me_files e" "me_files (ldb_fstate_unref e i) = me_files e"
  by (simp_all add: ldb_fstate_ref_def ldb_fstate_unref_def Let_def)

lemma contents_unref:
  assumes inv: "env_inv e (opened i H)" and p: "me_files e p = Some j"
  shows "fs_contents (fstate_at (ldb_fstate_unref e i) j) = fs_contents (fstate_at e j)"
proof (cases "j = i")
  case True
  obtain s where s: "me_states e i = Some s" "fs_path s = p"
    using env_invD(2) [OF inv p] True by auto
  have "fs_refs s > 1" using env_invD(1) [OF inv s(1)] s p True by (simp add: state_ok_def)
  with s True show ?thesis by (simp add: ldb_fstate_unref_def Let_def)
next
  case False
  then show ?thesis by (simp add: ldb_fstate_unref_def Let_def fstate_at_def)
qed

lemma file_bytes_unref: "env_inv e (opened i H) \<Longrightarrow> file_bytes (ldb_fstate_unref e i) = file_bytes e"
  by (rule ext, rule file_bytes_frame) (auto simp: contents_unref)

lemma file_bytes_delete:
  assumes "env_inv e H"
  shows "file_bytes (snd (ldb_delete_file e fn)) = (file_bytes e)(fn := None)"
proof (cases "me_files e fn")
  case (Some i)
  let ?e = "e\<lparr>me_files := (me_files e)(fn := None)\<rparr>"
  have "file_bytes (ldb_fstate_unref ?e i) = file_bytes ?e"
    by (rule file_bytes_unref [OF env_inv_unmap [OF assms Some]])
  moreover have "file_bytes ?e = (file_bytes e)(fn := None)"
    by (auto simp: file_bytes_def fun_eq_iff)
  ultimately show ?thesis using Some by (simp add: ldb_delete_file_def)
qed (simp add: ldb_delete_file_def file_bytes_def fun_upd_idem)

lemma ldb_remove_file_bytes:
  assumes "env_inv e H"
  shows "fst (ldb_remove_file e fn) = (if file_bytes e fn = None then LDB_NOTFOUND else LDB_OK)"
    and "file_bytes (snd (ldb_remove_file e fn)) = (file_bytes e)(fn := None)"
proof -
  show "file_bytes (snd (ldb_remove_file e fn)) = (file_bytes e)(fn := None)"
    using file_bytes_delete [OF assms, of fn] by (simp add: ldb_remove_file_def case_prod_beta)
qed (auto simp: ldb_remove_file_def ldb_delete_file_def file_bytes_def split: option.splits)

lemma ldb_rename_file_bytes:
  assumes inv: "env_inv e H" and c: "file_bytes e src = Some c" and len: "length dst + 1 \<le> LDB_PATH_MAX"
  shows "fst (ldb_rename_file e src dst) = LDB_OK"
    and "file_bytes (snd (ldb_rename_file e src dst)) = (file_bytes e)(src := None, dst \<mapsto> c)"
proof -
  obtain i where i: "me_files e src = Some i" and ci: "fs_contents (fstate_at e i) = c"
    using c by (auto simp: file_bytes_def)
  obtain s where s: "me_states e i = Some s" "fs_path s = src" using env_invD(2) [OF inv i] by auto
  define e1 where "e1 = e\<lparr>me_files := (me_files e)(src := None)\<rparr>"
  define e2 where "e2 = fstate_put e1 i (s\<lparr>fs_path := dst\<rparr>)"
  define e3 where "e3 = snd (ldb_delete_file e2 dst)"
  have unmapped: "me_files e1 p \<noteq> Some i" for p
    using env_invD(2) [OF inv, of p i] s by (auto simp: e1_def)
  have inv1: "env_inv e1 (opened i H)" unfolding e1_def by (rule env_inv_unmap [OF inv i])
  have inv2: "env_inv e2 (opened i H)"
    using env_invD(1) [OF inv s(1)] s unmapped unfolding e2_def
    by (intro env_inv_put [OF inv1]) (auto simp: e1_def state_ok_def)
  have s3: "me_states e3 i = Some (s\<lparr>fs_path := dst\<rparr>)"
    unfolding e3_def using inv2 unmapped by (intro delete_other_state [OF inv2]) (auto simp: e2_def)
  have eq: "ldb_rename_file e src dst = (LDB_OK, e3\<lparr>me_files := (me_files e3)(dst \<mapsto> i)\<rparr>)"
    using i len s(1)
    by (simp add: ldb_rename_file_def Let_def fstate_at_def e3_def e2_def e1_def split: prod.splits)
  then show "fst (ldb_rename_file e src dst) = LDB_OK" by simp
  have "file_bytes e2 = (file_bytes e)(src := None)"
  proof
    fix p
    have "me_files e p \<noteq> Some i" if "p \<noteq> src" using that unmapped [of p] by (auto simp: e1_def)
    then show "file_bytes e2 p = ((file_bytes e)(src := None)) p"
      by (cases "me_files e p") (auto simp: file_bytes_def e2_def e1_def)
  qed
  then have "file_bytes e3 = (file_bytes e)(src := None, dst := None)"
    unfolding e3_def using file_bytes_delete [OF inv2, of dst] by (simp add: fun_upd_twist)
  moreover have "file_bytes (e3\<lparr>me_files := (me_files e3)(dst \<mapsto> i)\<rparr>) = (file_bytes e3)(dst \<mapsto> c)"
    using s3 s(1) ci by (auto simp: file_bytes_def fun_eq_iff)
  ultimately show "file_bytes (snd (ldb_rename_file e src dst)) = (file_bytes e)(src := None, dst \<mapsto> c)"
    using eq by simp
qed

lemma truncfile_bytes:
  assumes inv: "env_inv e H" and tr: "ldb_truncfile_create e fn = Inr (f, e')"
  shows "file_bytes e' = (file_bytes e)(fn \<mapsto> [])"
proof
  fix p
  show "file_bytes e' p = ((file_bytes e)(fn \<mapsto> [])) p"
  proof (cases "p = fn")
    case True
    then show ?thesis using env_inv_truncfile [OF inv tr] by (simp add: file_bytes_def)
  next
    case False
    have "file_bytes e' p = file_bytes e p"
    proof (cases "me_files e fn")
      case None
      with tr have e': "e' = snd (ldb_wfile_init (snd (memenv_create_file e fn)) (me_next e))"
        by (auto simp: ldb_truncfile_create_def memenv_create_file_def Let_def ldb_wfile_init_def split: if_splits)
      have "me_files e p = Some j \<Longrightarrow> j \<noteq> me_next e" for j
        using env_invD(2) [OF inv, of p j] env_invD(1) [OF inv, of j] by (auto simp: state_ok_def)
      with False show ?thesis unfolding e'
        by (intro file_bytes_frame) (auto simp: ldb_wfile_init_def memenv_create_file_def Let_def)
    next
      case (Some i)
      with tr have e': "e' = ldb_fstate_ref (fstate_put e i (ldb_fstate_truncate (fstate_at e i))) i"
        by (auto simp: ldb_truncfile_create_def ldb_wfile_init_def split: if_splits)
      have "me_files e p = Some j \<Longrightarrow> j \<noteq> i" for j
        using me_files_inj [OF inv _ Some] False by auto
      then show ?thesis unfolding e' by (intro file_bytes_frame) auto
    qed
    with False show ?thesis by simp
  qed
qed

lemma wfile_append_bytes:
  assumes inv: "env_inv e H" and h: "H (wf_state f) > 0" and p: "me_files e fn = Some (wf_state f)"
    and c: "file_bytes e fn = Some c"
  shows "file_bytes (snd (ldb_wfile_append junk e f d)) = (file_bytes e)(fn \<mapsto> c @ d)"
proof
  fix q
  note app = env_inv_append [OF inv h, of junk d]
  show "file_bytes (snd (ldb_wfile_append junk e f d)) q = ((file_bytes e)(fn \<mapsto> c @ d)) q"
  proof (cases "q = fn")
    case True
    then show ?thesis using app p c by (simp add: file_bytes_def)
  next
    case False
    then have "me_files e q = Some j \<Longrightarrow> j \<noteq> wf_state f" for j
      using me_files_inj [OF inv _ p] by auto
    then have "file_bytes (snd (ldb_wfile_append junk e f d)) q = file_bytes e q"
      using app(4) by (intro file_bytes_frame) (auto simp: ldb_wfile_append_def split: prod.splits)
    with False show ?thesis by simp
  qed
qed

lemma ldb_write_file_bytes:
  assumes inv: "env_inv e H" and len: "length fn + 1 \<le> LDB_PATH_MAX"
  shows "fst (ldb_write_file junk e fn d sync) = LDB_OK"
    and "env_inv (snd (ldb_write_file junk e fn d sync)) H"
    and "file_bytes (snd (ldb_write_file junk e fn d sync)) = (file_bytes e)(fn \<mapsto> d)"
proof -
  from ldb_write_file_eq [OF inv len, of junk d sync]
  show "fst (ldb_write_file junk e fn d sync) = LDB_OK" "env_inv (snd (ldb_write_file junk e fn d sync)) H"
    by auto
  obtain f e1 where f: "ldb_truncfile_create e fn = Inr (f, e1)"
    using len by (cases "ldb_truncfile_create e fn") (auto simp: ldb_truncfile_create_def split: prod.splits)
  note open1 = env_inv_truncfile [OF inv f]
  define e2 where "e2 = snd (ldb_wfile_append junk e1 f d)"
  note app = env_inv_append [OF open1(1), of f junk d]
  have "file_bytes e2 = (file_bytes e1)(fn \<mapsto> [] @ d)"
    unfolding e2_def using truncfile_bytes [OF inv f] by (intro wfile_append_bytes [OF open1(1) _ open1(2)]) auto
  with truncfile_bytes [OF inv f] have "file_bytes e2 = (file_bytes e)(fn \<mapsto> d)" by simp
  moreover have "file_bytes (ldb_wfile_destroy e2 f) = file_bytes e2"
    unfolding ldb_wfile_destroy_def e2_def by (rule file_bytes_unref) (use app(2) in simp)
  moreover have "snd (ldb_write_file junk e fn d sync) = ldb_wfile_destroy e2 f"
    using f app(1) by (auto simp: ldb_write_file_def ldb_wfile_sync_def ldb_wfile_close_def e2_def split: prod.splits)
  ultimately show "file_bytes (snd (ldb_write_file junk e fn d sync)) = (file_bytes e)(fn \<mapsto> d)" by simp
qed

lemma ldb_read_file_bytes:
  assumes "env_inv e H" "file_bytes e fn = Some c"
  shows "\<exists>e'. ldb_read_file e fn data = Some ((LDB_OK, c), e') \<and> env_inv e' H"
  using assms ldb_read_file_eq [OF assms(1)] by (auto simp: file_bytes_def)

section \<open>Properties\<close>

text \<open>
  C24. The in-memory environment is a map from names to contents: writing a file whole sets its
  contents, renaming moves them (replacing what the new name held), removing forgets them, reading
  returns them, and no operation changes the contents under any other name.
\<close>

theorem memenv_refines_map:
  assumes "mem_reach e H" "length fn + 1 \<le> LDB_PATH_MAX" "length dst + 1 \<le> LDB_PATH_MAX"
  shows "fst (ldb_write_file junk e fn d sync) = LDB_OK
    \<and> file_bytes (snd (ldb_write_file junk e fn d sync)) = (file_bytes e)(fn \<mapsto> d)
    \<and> file_bytes (snd (ldb_remove_file e fn)) = (file_bytes e)(fn := None)
    \<and> (case file_bytes e fn of
         None \<Rightarrow> fst (ldb_remove_file e fn) = LDB_NOTFOUND \<and> ldb_rename_file e fn dst = (LDB_NOTFOUND, e)
           \<and> ldb_read_file e fn buf = Some ((LDB_NOTFOUND, buf), e)
       | Some c \<Rightarrow> fst (ldb_remove_file e fn) = LDB_OK \<and> fst (ldb_rename_file e fn dst) = LDB_OK
           \<and> file_bytes (snd (ldb_rename_file e fn dst)) = (file_bytes e)(fn := None, dst \<mapsto> c)
           \<and> (\<exists>e'. ldb_read_file e fn buf = Some ((LDB_OK, c), e')))"
proof -
  note inv = mem_reach_inv [OF assms(1)]
  have "file_bytes e fn = None \<Longrightarrow> me_files e fn = None" by (simp add: file_bytes_def)
  then show ?thesis
    using ldb_write_file_bytes [OF inv assms(2), of junk d sync] ldb_remove_file_bytes [OF inv, of fn]
      ldb_rename_file_bytes [OF inv _ assms(3), of fn] ldb_read_file_bytes [OF inv, of fn _ buf] assms(3)
    by (cases "file_bytes e fn")
      (fastforce simp: ldb_rename_file_def ldb_read_file_def ldb_seqfile_create_def)+
qed

theorem memenv_refines_map_witness:
  "file_bytes (snd (ldb_write_file (\<lambda>_ _. 0) memenv_init ''a'' [7] True)) = (file_bytes memenv_init)(''a'' \<mapsto> [7])"
  using memenv_refines_map [OF mem_reach.init, of "''a''" "''b''" "\<lambda>_ _. 0" "[7]" True "[]"]
  by (simp add: LDB_PATH_MAX_def)

end
