(* ===== verification/Strutil.thy ===== *)
theory Strutil
  imports Prelude
begin

text \<open>
  String helpers (\<^verbatim>\<open>src/src/util/strutil.c\<close>). A C string is the list of its characters up to the
  terminator, so a string of the model holds no character of code 0; a function that fills a buffer
  returns the string it leaves there.
\<close>

section \<open>Decimal numbers\<close>

lemma word_div_10_less [simp]: "x div 10 \<noteq> 0 \<Longrightarrow> unat (x div 10) < unat (x :: u64)"
  by (cases "unat x = 0") (auto simp: unat_div unat_eq_zero intro!: div_less_dividend unat_gt_0 [THEN iffD2])

function size_int_loop :: "nat \<Rightarrow> u64 \<Rightarrow> nat" where
  "size_int_loop n x = (let n = n + 1; x = x div 10 in if x \<noteq> 0 then size_int_loop n x else n)"
  by pat_completeness auto
termination by (relation "measure (\<lambda>(n, x). unat x)") auto

declare size_int_loop.simps [simp del]

definition ldb_size_int :: "u64 \<Rightarrow> nat" where
  "ldb_size_int x = size_int_loop 0 x"

fun encode_int_fill :: "nat \<Rightarrow> u64 \<Rightarrow> string \<Rightarrow> string" where
  "encode_int_fill 0 x zp = zp"
| "encode_int_fill (Suc i) x zp = encode_int_fill i (x div 10) (char_of (48 + unat (x mod 10)) # zp)"

definition ldb_encode_int :: "u64 \<Rightarrow> nat \<Rightarrow> string" where
  "ldb_encode_int x pad =
     (let n = ldb_size_int x; n = (if n < pad then pad else n) in encode_int_fill n x [])"

definition UINT64_MAX :: u64 where
  "UINT64_MAX = 18446744073709551615"

fun decode_int_loop :: "u64 \<Rightarrow> nat \<Rightarrow> string \<Rightarrow> (u64 \<times> nat \<times> string) option" where
  "decode_int_loop x n [] = Some (x, n, [])"
| "decode_int_loop x n (c # sp) =
     (let last = 48 + unat (UINT64_MAX mod 10); limit = UINT64_MAX div 10; ch = of_char c in
      if ch < 48 \<or> ch > 57 then Some (x, n, c # sp)
      else if n + 1 > 20 then None
      else if x > limit \<or> x = limit \<and> ch > last then None
      else decode_int_loop (x * 10 + of_nat (ch - 48)) (n + 1) sp)"

definition ldb_decode_int :: "string \<Rightarrow> (u64 \<times> string) option" where
  "ldb_decode_int xp =
     (case decode_int_loop 0 0 xp of
        None \<Rightarrow> None
      | Some (x, n, sp) \<Rightarrow> if n = 0 then None else Some (x, sp))"

section \<open>Paths\<close>

fun ldb_starts_with :: "string \<Rightarrow> string \<Rightarrow> bool" where
  "ldb_starts_with (x # xp) (y # yp) = (if x = y then ldb_starts_with xp yp else False)"
| "ldb_starts_with [] yp = (yp = [])"
| "ldb_starts_with xp [] = True"

text \<open>\<^verbatim>\<open>strrchr\<close> for a slash: what follows the last one, if there is one.\<close>

definition strrchr_slash :: "string \<Rightarrow> string option" where
  "strrchr_slash s =
     (if CHR ''/'' \<in> set s then Some (rev (takeWhile (\<lambda>c. c \<noteq> CHR ''/'') (rev s))) else None)"

definition ldb_basename :: "string \<Rightarrow> string" where
  "ldb_basename fname = (case strrchr_slash fname of None \<Rightarrow> fname | Some base \<Rightarrow> base)"

fun dirname_trim :: "string \<Rightarrow> nat \<Rightarrow> nat" where
  "dirname_trim buf pos = (if pos > 1 \<and> buf ! (pos - 1) = CHR ''/'' then dirname_trim buf (pos - 1) else pos)"

declare dirname_trim.simps [simp del]

definition ldb_dirname :: "nat \<Rightarrow> string \<Rightarrow> string option" where
  "ldb_dirname bufsize fname =
     (let base = ldb_basename fname in
      if length base = length fname then (if bufsize < 2 then None else Some ''.'')
      else
        (let pos = length fname - length base - 1; pos = (if pos = 0 then 1 else pos) in
         if pos + 1 > bufsize then None else Some (take (dirname_trim fname pos) fname)))"

definition ldb_join :: "nat \<Rightarrow> string \<Rightarrow> string \<Rightarrow> string option" where
  "ldb_join zn xp yp =
     (if length xp + length yp + 2 > zn then None else Some (xp @ ''/'' @ yp))"

section \<open>Reference meaning of decimal strings\<close>

definition digit :: "char \<Rightarrow> bool" where
  "digit c \<longleftrightarrow> 48 \<le> (of_char c :: nat) \<and> (of_char c :: nat) \<le> 57"

definition digit_val :: "char \<Rightarrow> nat" where
  "digit_val c = of_char c - 48"

fun decimal :: "nat \<Rightarrow> string \<Rightarrow> nat" where
  "decimal v [] = v"
| "decimal v (c # cs) = decimal (10 * v + digit_val c) cs"

lemma decimal_mono: "v \<le> decimal v cs"
proof (induction cs arbitrary: v)
  case (Cons c cs)
  from Cons [of "10 * v + digit_val c"] show ?case by simp
qed simp

lemma decimal_append: "decimal v (cs @ ds) = decimal (decimal v cs) ds"
  by (induction cs arbitrary: v) auto

lemma char_of_digit [simp]:
  "d < 10 \<Longrightarrow> digit (char_of (48 + d))" "d < 10 \<Longrightarrow> digit_val (char_of (48 + d)) = d"
  by (simp_all add: digit_def digit_val_def)

lemma digit_val_less: "digit c \<Longrightarrow> digit_val c < 10"
  unfolding digit_def digit_val_def by auto

text \<open>The guard of the loop is exactly the overflow check of the next multiplication and addition.\<close>

lemma decode_guard:
  assumes "digit c"
  shows "(x > UINT64_MAX div 10 \<or> x = UINT64_MAX div 10 \<and> (of_char c :: nat) > 48 + unat (UINT64_MAX mod 10))
    \<longleftrightarrow> 10 * unat x + digit_val c \<ge> 2 ^ 64"
proof -
  have lim: "unat (UINT64_MAX div 10) = 1844674407370955161" "unat (UINT64_MAX mod 10) = 5"
    by (simp_all add: UINT64_MAX_def unat_div unat_mod)
  have "x > UINT64_MAX div 10 \<longleftrightarrow> unat x > 1844674407370955161"
    using lim by (simp add: word_less_nat_alt)
  moreover have "x = UINT64_MAX div 10 \<longleftrightarrow> unat x = 1844674407370955161"
    using lim by (metis word_unat_eq_iff)
  ultimately show ?thesis
    using assms unfolding digit_def digit_val_def lim by auto
qed

lemma unat_decimal_step:
  assumes "10 * unat x + d < 2 ^ 64" "d < 10"
  shows "unat (x * 10 + of_nat d :: u64) = 10 * unat x + d"
proof -
  have "x * 10 + of_nat d = (of_nat (10 * unat x + d) :: u64)" by simp
  then show ?thesis using assms(1) by (simp only: unat_of_nat) (simp add: take_bit_nat_eq_self)
qed

lemma decode_int_loop_spec:
  "decode_int_loop x n cs =
     (let ds = takeWhile digit cs in
      if n + length ds \<le> 20 \<or> ds = [] then
        if decimal (unat x) ds < 2 ^ 64 then Some (of_nat (decimal (unat x) ds), n + length ds, dropWhile digit cs)
        else None
      else None)"
proof (induction x n cs rule: decode_int_loop.induct)
  case (1 x n)
  then show ?case using unat_u64_less [of x] by simp
next
  case (2 x n c sp)
  show ?case
  proof (cases "digit c")
    case False
    then show ?thesis using unat_u64_less [of x] by (auto simp: digit_def Let_def)
  next
    case dig: True
    then have range: "\<not> ((of_char c :: nat) < 48 \<or> (of_char c :: nat) > 57)" by (auto simp: digit_def)
    note guard = decode_guard [OF dig, of x]
    show ?thesis
    proof (cases "n + 1 > 20 \<or> 10 * unat x + digit_val c \<ge> 2 ^ 64")
      case True
      have "10 * unat x + digit_val c \<ge> 2 ^ 64 \<Longrightarrow> decimal (10 * unat x + digit_val c) ds \<ge> 2 ^ 64" for ds
        using decimal_mono [of "10 * unat x + digit_val c" ds] by linarith
      from this [of "takeWhile digit sp"] True range guard dig show ?thesis
        by (auto simp: Let_def not_less)
    next
      case False
      then have step: "unat (x * 10 + of_nat (digit_val c)) = 10 * unat x + digit_val c"
        using unat_decimal_step digit_val_less [OF dig] by auto
      have "decode_int_loop x n (c # sp) = decode_int_loop (x * 10 + of_nat (digit_val c)) (n + 1) sp"
        using False range guard by (auto simp: Let_def digit_val_def)
      also have "\<dots> = (let ds = takeWhile digit sp in if n + 1 + length ds \<le> 20 \<or> ds = [] then if decimal (10 * unat x + digit_val c) ds < 2 ^ 64 then Some (of_nat (decimal (10 * unat x + digit_val c) ds), n + 1 + length ds, dropWhile digit sp) else None else None)"
        using "2.IH" [OF refl refl refl range, folded digit_val_def] False guard by (simp add: step Let_def)
      finally show ?thesis
        using False dig step by (auto simp: Let_def digit_val_def)
    qed
  qed
qed

lemma ldb_decode_int_iff:
  "ldb_decode_int s = Some (x, rest) \<longleftrightarrow>
     (let ds = takeWhile digit s in
      ds \<noteq> [] \<and> length ds \<le> 20 \<and> decimal 0 ds < 2 ^ 64 \<and> x = of_nat (decimal 0 ds)
      \<and> rest = dropWhile digit s)"
  by (auto simp: ldb_decode_int_def decode_int_loop_spec Let_def)

section \<open>Printing\<close>

fun ndigits :: "nat \<Rightarrow> nat" where
  "ndigits y = (if y < 10 then 1 else Suc (ndigits (y div 10)))"

declare ndigits.simps [simp del]

lemma size_int_loop_ndigits: "size_int_loop n x = n + ndigits (unat x)"
proof (induction n x rule: size_int_loop.induct)
  case (1 n x)
  have "x div 10 = 0 \<longleftrightarrow> unat x < 10"
    by (simp add: unat_eq_zero [symmetric] unat_div div_eq_0_iff)
  with 1 show ?case
    by (subst size_int_loop.simps, subst ndigits.simps) (auto simp: Let_def unat_div)
qed

lemma ndigits_bound: "y < 10 ^ ndigits y"
proof (induction y rule: ndigits.induct)
  case (1 y)
  show ?case
  proof (cases "y < 10")
    case False
    with 1 have "y div 10 < 10 ^ ndigits (y div 10)" by simp
    then have "y < 10 * 10 ^ ndigits (y div 10)" by linarith
    with False show ?thesis by (subst ndigits.simps) simp
  qed (simp add: ndigits.simps)
qed

lemma ndigits_least: "y < 10 ^ k \<Longrightarrow> 0 < k \<Longrightarrow> ndigits y \<le> k"
proof (induction y arbitrary: k rule: ndigits.induct)
  case (1 y)
  show ?case
  proof (cases "y < 10")
    case False
    with 1(2,3) obtain k' where k: "k = Suc k'" "0 < k'"
      by (cases k; cases "k - 1") auto
    with 1(2) have "y div 10 < 10 ^ k'" by simp
    from 1(1) [OF False this k(2)] False k show ?thesis by (subst ndigits.simps) simp
  qed (use 1 in \<open>simp add: ndigits.simps\<close>)
qed

lemma ndigits_pos: "0 < ndigits y"
  by (subst ndigits.simps) simp

lemma length_encode_int_fill: "length (encode_int_fill n x zp) = n + length zp"
  by (induction n x zp rule: encode_int_fill.induct) auto

lemma encode_int_fill_digits: "list_all digit zp \<Longrightarrow> list_all digit (encode_int_fill n x zp)"
  by (induction n x zp rule: encode_int_fill.induct) (auto simp: unat_mod)

lemma mod_power_step: "10 * (y div 10 mod 10 ^ i) + y mod 10 = y mod (10 * 10 ^ i)" for y :: nat
  by (simp add: mod_mult2_eq)

lemma decimal_encode_int_fill:
  "decimal v (encode_int_fill n x zp) = decimal (v * 10 ^ n + unat x mod 10 ^ n) zp"
proof (induction n x zp arbitrary: v rule: encode_int_fill.induct)
  case (2 i x zp)
  have "10 * (v * 10 ^ i + unat x div 10 mod 10 ^ i) + unat x mod 10
      = v * 10 ^ Suc i + unat x mod 10 ^ Suc i"
    using mod_power_step [of "unat x" i] by (simp add: algebra_simps)
  then have "decimal (10 * (v * 10 ^ i + unat x div 10 mod 10 ^ i) + unat x mod 10) zp
      = decimal (v * 10 ^ Suc i + unat x mod 10 ^ Suc i) zp"
    by (rule arg_cong)
  moreover have "unat (x div 10) = unat x div 10" "unat (x mod 10) = unat x mod 10"
    by (simp_all add: unat_div unat_mod)
  ultimately show ?case using 2 [of v] by (simp del: power_Suc distrib_left_numeral)
qed simp

lemma ldb_size_int_bounds: "1 \<le> ldb_size_int x" "ldb_size_int x \<le> 20"
  using ndigits_pos [of "unat x"] ndigits_least [of "unat x" 20] unat_u64_less [of x]
  by (auto simp: ldb_size_int_def size_int_loop_ndigits)

lemma ldb_encode_int_props:
  "list_all digit (ldb_encode_int x pad)" "decimal 0 (ldb_encode_int x pad) = unat x"
  "length (ldb_encode_int x pad) = max (ldb_size_int x) pad"
proof -
  have "unat x < 10 ^ ldb_size_int x"
    by (simp add: ldb_size_int_def size_int_loop_ndigits ndigits_bound)
  then have "unat x < 10 ^ max (ldb_size_int x) pad"
    by (rule less_le_trans) simp
  then show "decimal 0 (ldb_encode_int x pad) = unat x"
    by (auto simp: ldb_encode_int_def Let_def decimal_encode_int_fill max_def split: if_splits)
qed (auto simp: ldb_encode_int_def Let_def encode_int_fill_digits length_encode_int_fill)

lemma ldb_decode_int_encode:
  assumes "pad \<le> 20" "rest = [] \<or> \<not> digit (hd rest)"
  shows "ldb_decode_int (ldb_encode_int x pad @ rest) = Some (x, rest)"
proof -
  let ?e = "ldb_encode_int x pad"
  have all: "\<forall>c\<in>set ?e. digit c" using ldb_encode_int_props(1) by (simp add: list_all_iff)
  have "takeWhile digit rest = []" "dropWhile digit rest = rest"
    using assms(2) by (cases rest; auto)+
  with all have "takeWhile digit (?e @ rest) = ?e" "dropWhile digit (?e @ rest) = rest"
    by (auto simp: takeWhile_append2 dropWhile_append2)
  moreover have "?e \<noteq> []" "length ?e \<le> 20"
    using assms(1) ldb_size_int_bounds [of x] by (auto simp: ldb_encode_int_props simp flip: length_greater_0_conv)
  ultimately show ?thesis
    using unat_u64_less [of x] by (auto simp: ldb_decode_int_iff Let_def ldb_encode_int_props)
qed

section \<open>Properties\<close>

text \<open>
  C28. Decimal numbers: the parser accepts a run of one to twenty digits whose value fits 64 bits,
  with no wrap-around in between, and nothing else; it stops at the first character that is no digit.
\<close>

theorem decode_int_exact:
  "ldb_decode_int s = Some (x, rest) \<longleftrightarrow>
     takeWhile digit s \<noteq> [] \<and> length (takeWhile digit s) \<le> 20 \<and> decimal 0 (takeWhile digit s) < 2 ^ 64
     \<and> x = of_nat (decimal 0 (takeWhile digit s)) \<and> rest = dropWhile digit s"
  by (simp add: ldb_decode_int_iff Let_def)

end
