(* ===== verification/Hash.thy ===== *)
theory Hash
  imports Coding
begin

text \<open>
  The hash function of \<^verbatim>\<open>src/src/util/hash.c\<close>, used by the bloom filter and by the cache. The size
  enters the initial value by a conversion to 32 bits; all arithmetic wraps there.
\<close>

abbreviation hash_m :: u32 where
  "hash_m \<equiv> 0xc6a4a793"

text \<open>The loop over the whole words; it returns the hash so far and the remaining bytes.\<close>

fun hash_words :: "u32 \<Rightarrow> bytes \<Rightarrow> u32 \<times> bytes" where
  "hash_words h xs =
     (if length xs \<ge> 4 then
        (let w = ldb_fixed32_decode xs;
             h = h + w;
             h = h * hash_m;
             h = h XOR drop_bit 16 h
         in hash_words h (drop 4 xs))
      else (h, xs))"

declare hash_words.simps [simp del]

text \<open>The switch over the rest: its cases fall through.\<close>

definition hash_tail :: "u32 \<Rightarrow> bytes \<Rightarrow> u32" where
  "hash_tail h xs =
     (let h = (if length xs = 3 then h + push_bit 16 (ucast (xs ! 2)) else h);
          h = (if length xs \<in> {2, 3} then h + push_bit 8 (ucast (xs ! 1)) else h)
      in if length xs \<in> {1, 2, 3}
         then (let h = h + ucast (xs ! 0); h = h * hash_m in h XOR drop_bit 24 h)
         else h)"

definition ldb_hash :: "bytes \<Rightarrow> u32 \<Rightarrow> u32" where
  "ldb_hash xs seed =
     (let h = seed XOR (of_nat (length xs) * hash_m) in case hash_words h xs of (h, r) \<Rightarrow> hash_tail h r)"

text \<open>Test vectors of \<^verbatim>\<open>src/src/util/hash_test.c\<close>.\<close>

lemma ldb_hash_vectors:
  "ldb_hash [] 0xbc9f1d34 = 0xbc9f1d34"
  "ldb_hash [0x62] 0xbc9f1d34 = 0xef1345c4"
  "ldb_hash [0xc3, 0x97] 0xbc9f1d34 = 0x5b663814"
  "ldb_hash [0xe2, 0x99, 0xa5] 0xbc9f1d34 = 0x323c078f"
  "ldb_hash [0xe1, 0x80, 0xb9, 0x32] 0xbc9f1d34 = 0xed21633a"
  by code_simp+

end
