(* ===== verification/Buffer.thy ===== *)
theory Buffer
  imports Slice Strutil Hash "HOL-Library.Monad_Syntax"
begin

text \<open>
  Growing byte buffers (\<^verbatim>\<open>src/src/util/buffer.c\<close>). A buffer points to a block of memory whose cells
  may be uninitialised; the block is either absent, a heap block of its own, or memory of somebody
  else (\<^verbatim>\<open>ldb_buffer_roset\<close>, \<^verbatim>\<open>ldb_buffer_rwset\<close>). The operations return \<^term>\<open>None\<close> where the C code
  would run into undefined behaviour: storing outside the block, reading a cell that was never
  written, or resizing a block that the heap does not own. Sizes are natural numbers: a block is
  smaller than the address space, so no sum of sizes wraps.
\<close>

section \<open>Memory\<close>

type_synonym block = "u8 option list"

datatype memory = Null | Heap block | Borrowed block

primrec mem_block :: "memory \<Rightarrow> block" where
  "mem_block Null = []"
| "mem_block (Heap b) = b"
| "mem_block (Borrowed b) = b"

primrec ldb_realloc :: "memory \<Rightarrow> nat \<Rightarrow> memory option" where
  "ldb_realloc Null n = Some (Heap (replicate n None))"
| "ldb_realloc (Heap b) n = Some (Heap (take n b @ replicate (n - length b) None))"
| "ldb_realloc (Borrowed b) n = None"

definition cells_store :: "block \<Rightarrow> nat \<Rightarrow> bytes \<Rightarrow> block" where
  "cells_store b off bs = take off b @ map Some bs @ drop (off + length bs) b"

definition mem_store :: "memory \<Rightarrow> nat \<Rightarrow> bytes \<Rightarrow> memory option" where
  "mem_store m off bs =
     (if bs = [] then Some m
      else if off + length bs \<le> length (mem_block m) then
        (case m of
           Null \<Rightarrow> None
         | Heap b \<Rightarrow> Some (Heap (cells_store b off bs))
         | Borrowed b \<Rightarrow> Some (Borrowed (cells_store b off bs)))
      else None)"

definition mem_load :: "memory \<Rightarrow> nat \<Rightarrow> bytes option" where
  "mem_load m n =
     (let b = take n (mem_block m) in if length b = n \<and> None \<notin> set b then Some (map the b) else None)"

section \<open>Buffers\<close>

record buffer =
  buf_data :: memory
  buf_size :: nat
  buf_alloc :: nat

definition ldb_buffer_init :: buffer where
  "ldb_buffer_init = \<lparr>buf_data = Null, buf_size = 0, buf_alloc = 0\<rparr>"

definition ldb_buffer_clear :: "buffer \<Rightarrow> buffer" where
  "ldb_buffer_clear z = \<lparr>buf_data = Null, buf_size = 0, buf_alloc = 0\<rparr>"

definition ldb_buffer_reset :: "buffer \<Rightarrow> buffer" where
  "ldb_buffer_reset z = z\<lparr>buf_size := 0\<rparr>"

definition ldb_buffer_grow :: "buffer \<Rightarrow> nat \<Rightarrow> buffer option" where
  "ldb_buffer_grow z zn =
     (if zn > buf_alloc z then
        do { p \<leftarrow> ldb_realloc (buf_data z) zn; Some (z\<lparr>buf_data := p, buf_alloc := zn\<rparr>) }
      else Some z)"

definition ldb_buffer_expand :: "buffer \<Rightarrow> nat \<Rightarrow> buffer option" where
  "ldb_buffer_expand z xn =
     (let zn = buf_size z + xn in
      if zn > buf_alloc z then
        (let alloc = (buf_alloc z * 3) div 2; alloc = (if alloc < zn then zn else alloc)
         in do { p \<leftarrow> ldb_realloc (buf_data z) alloc; Some (z\<lparr>buf_data := p, buf_alloc := alloc\<rparr>) })
      else Some z)"

definition ldb_buffer_resize :: "buffer \<Rightarrow> nat \<Rightarrow> buffer option" where
  "ldb_buffer_resize z zn = do { z \<leftarrow> ldb_buffer_grow z zn; Some (z\<lparr>buf_size := zn\<rparr>) }"

definition ldb_buffer_set :: "buffer \<Rightarrow> bytes \<Rightarrow> buffer option" where
  "ldb_buffer_set z xs =
     do { z \<leftarrow> ldb_buffer_grow z (length xs);
          p \<leftarrow> mem_store (buf_data z) 0 xs;
          Some (z\<lparr>buf_data := p, buf_size := length xs\<rparr>) }"

definition string_bytes :: "string \<Rightarrow> bytes" where
  "string_bytes s = map of_char s"

definition ldb_buffer_set_str :: "buffer \<Rightarrow> string \<Rightarrow> buffer option" where
  "ldb_buffer_set_str z xs = ldb_buffer_set z (string_bytes xs)"

definition ldb_buffer_copy :: "buffer \<Rightarrow> buffer \<Rightarrow> buffer option" where
  "ldb_buffer_copy z x = do { xs \<leftarrow> mem_load (buf_data x) (buf_size x); ldb_buffer_set z xs }"

definition ldb_buffer_swap :: "buffer \<times> buffer \<Rightarrow> buffer \<times> buffer" where
  "ldb_buffer_swap xy = (case xy of (x, y) \<Rightarrow> (y, x))"

definition ldb_buffer_roset :: "buffer \<Rightarrow> bytes \<Rightarrow> buffer" where
  "ldb_buffer_roset z xs = z\<lparr>buf_data := Borrowed (map Some xs), buf_size := length xs, buf_alloc := 0\<rparr>"

definition ldb_buffer_rocopy :: "buffer \<Rightarrow> buffer \<Rightarrow> buffer option" where
  "ldb_buffer_rocopy z x =
     do { xs \<leftarrow> mem_load (buf_data x) (buf_size x); Some (ldb_buffer_roset z xs) }"

definition ldb_buffer_rwset :: "buffer \<Rightarrow> block \<Rightarrow> buffer" where
  "ldb_buffer_rwset z zp = z\<lparr>buf_data := Borrowed zp, buf_size := 0, buf_alloc := length zp\<rparr>"

definition ldb_buffer_hash :: "buffer \<Rightarrow> u32 option" where
  "ldb_buffer_hash x = do { xs \<leftarrow> mem_load (buf_data x) (buf_size x); Some (ldb_hash xs 0) }"

definition ldb_buffer_equal :: "buffer \<Rightarrow> buffer \<Rightarrow> bool option" where
  "ldb_buffer_equal x y =
     (if buf_size x \<noteq> buf_size y then Some False
      else if buf_size x = 0 then Some True
      else do { xs \<leftarrow> mem_load (buf_data x) (buf_size x);
                ys \<leftarrow> mem_load (buf_data y) (buf_size y);
                Some (memcmp xs ys (buf_size y) = 0) })"

definition ldb_buffer_compare :: "buffer \<Rightarrow> buffer \<Rightarrow> int option" where
  "ldb_buffer_compare x y =
     do { xs \<leftarrow> mem_load (buf_data x) (buf_size x);
          ys \<leftarrow> mem_load (buf_data y) (buf_size y);
          Some (ldb_memcmp4 xs ys) }"

section \<open>Appending\<close>

definition ldb_buffer_push :: "buffer \<Rightarrow> int \<Rightarrow> buffer option" where
  "ldb_buffer_push z x =
     do { z \<leftarrow> (if buf_size z = buf_alloc z
                then ldb_buffer_grow z ((buf_alloc z * 3) div 2 + (if buf_alloc z \<le> 1 then 1 else 0))
                else Some z);
          p \<leftarrow> mem_store (buf_data z) (buf_size z) [word_of_int x];
          Some (z\<lparr>buf_data := p, buf_size := buf_size z + 1\<rparr>) }"

text \<open>
  The pattern the writers share: make room for \<^term>\<open>cap\<close> bytes, store some bytes at the end of the
  contents, and take the first \<^term>\<open>n\<close> of them in.
\<close>

definition buffer_emit :: "buffer \<Rightarrow> nat \<Rightarrow> bytes \<Rightarrow> nat \<Rightarrow> buffer option" where
  "buffer_emit z cap bs n =
     do { z \<leftarrow> ldb_buffer_expand z cap;
          p \<leftarrow> mem_store (buf_data z) (buf_size z) bs;
          Some (z\<lparr>buf_data := p, buf_size := buf_size z + n\<rparr>) }"

definition ldb_buffer_append :: "buffer \<Rightarrow> bytes \<Rightarrow> buffer option" where
  "ldb_buffer_append z xs = buffer_emit z (length xs) xs (length xs)"

definition ldb_buffer_concat :: "buffer \<Rightarrow> bytes \<Rightarrow> buffer option" where
  "ldb_buffer_concat z x = ldb_buffer_append z x"

definition ldb_buffer_string :: "buffer \<Rightarrow> string \<Rightarrow> buffer option" where
  "ldb_buffer_string z xp = ldb_buffer_append z (string_bytes xp)"

text \<open>\<^verbatim>\<open>ldb_encode_int\<close> also stores a terminator behind the digits.\<close>

definition ldb_buffer_number :: "buffer \<Rightarrow> u64 \<Rightarrow> buffer option" where
  "ldb_buffer_number z x =
     (let s = ldb_encode_int x 0 in buffer_emit z 21 (string_bytes s @ [0]) (length s))"

definition nibble :: "u8 \<Rightarrow> u8" where
  "nibble x = (if x < 10 then x + 48 else x - 10 + 97)"

definition escape_byte :: "u8 \<Rightarrow> bytes" where
  "escape_byte ch = (if ch \<ge> 32 \<and> ch \<le> 126 then [ch] else [92, 120, nibble (drop_bit 4 ch), nibble (ch AND 15)])"

definition ldb_buffer_escape :: "buffer \<Rightarrow> bytes \<Rightarrow> buffer option" where
  "ldb_buffer_escape z x =
     (let bs = concat (map escape_byte x) in buffer_emit z (length x * 4 + 1) bs (length bs))"

definition ldb_buffer_pad :: "buffer \<Rightarrow> nat \<Rightarrow> buffer option" where
  "ldb_buffer_pad z xn = buffer_emit z xn (replicate xn 0) xn"

definition ldb_buffer_fixed32 :: "buffer \<Rightarrow> u32 \<Rightarrow> buffer option" where
  "ldb_buffer_fixed32 z x = buffer_emit z 4 (ldb_fixed32_write x) 4"

definition ldb_buffer_fixed64 :: "buffer \<Rightarrow> u64 \<Rightarrow> buffer option" where
  "ldb_buffer_fixed64 z x = buffer_emit z 8 (ldb_fixed64_write x) 8"

definition ldb_buffer_varint32 :: "buffer \<Rightarrow> u32 \<Rightarrow> buffer option" where
  "ldb_buffer_varint32 z x = (let bs = ldb_varint32_write x in buffer_emit z 5 bs (length bs))"

definition ldb_buffer_varint64 :: "buffer \<Rightarrow> u64 \<Rightarrow> buffer option" where
  "ldb_buffer_varint64 z x = (let bs = ldb_varint64_write x in buffer_emit z 10 bs (length bs))"

definition ldb_buffer_size :: "buffer \<Rightarrow> nat" where
  "ldb_buffer_size x = ldb_varint32_size (of_nat (buf_size x)) + buf_size x"

definition ldb_buffer_write :: "buffer \<Rightarrow> bytes option" where
  "ldb_buffer_write x =
     do { xs \<leftarrow> mem_load (buf_data x) (buf_size x);
          Some (ldb_varint32_write (of_nat (buf_size x)) @ ldb_raw_write xs) }"

definition ldb_buffer_export :: "buffer \<Rightarrow> buffer \<Rightarrow> buffer option" where
  "ldb_buffer_export z x =
     do { bs \<leftarrow> ldb_buffer_write x; buffer_emit z (5 + buf_size x) bs (length bs) }"

text \<open>The readers return the flag of the C function with the buffer and the rest of the input.\<close>

definition ldb_buffer_read :: "buffer \<Rightarrow> bytes \<Rightarrow> (bool \<times> buffer \<times> bytes) option" where
  "ldb_buffer_read z xp =
     (case ldb_varint32_read xp of
        None \<Rightarrow> Some (False, z, xp)
      | Some (zn, xp) \<Rightarrow>
          (case ldb_zraw_read (unat zn) xp of
             None \<Rightarrow> Some (False, z, xp)
           | Some (zp, xp) \<Rightarrow> do { z \<leftarrow> ldb_buffer_set z zp; Some (True, z, xp) }))"

definition ldb_buffer_slurp :: "buffer \<Rightarrow> bytes \<Rightarrow> (bool \<times> buffer \<times> bytes) option" where
  "ldb_buffer_slurp z x = ldb_buffer_read z x"

definition ldb_buffer_import :: "buffer \<Rightarrow> bytes \<Rightarrow> (bool \<times> buffer) option" where
  "ldb_buffer_import z x = map_option (\<lambda>(ok, z, _). (ok, z)) (ldb_buffer_slurp z x)"

section \<open>Invariant and contents\<close>

definition buffer_shape :: "buffer \<Rightarrow> bool" where
  "buffer_shape z \<longleftrightarrow> (case buf_data z of Borrowed b \<Rightarrow> False | m \<Rightarrow> length (mem_block m) = buf_alloc z)
     \<and> buf_size z \<le> buf_alloc z"

definition buffer_holds :: "buffer \<Rightarrow> bytes \<Rightarrow> bool" where
  "buffer_holds z xs \<longleftrightarrow> buffer_shape z \<and> buf_size z = length xs
     \<and> take (length xs) (mem_block (buf_data z)) = map Some xs"

lemma mem_load_holds: "buffer_holds z xs \<Longrightarrow> mem_load (buf_data z) (buf_size z) = Some xs"
  by (auto simp: buffer_holds_def mem_load_def Let_def)

lemma buffer_holds_init: "buffer_holds ldb_buffer_init []"
  by (simp add: buffer_holds_def buffer_shape_def ldb_buffer_init_def)

lemma realloc_shape:
  assumes "buffer_shape z" "buf_alloc z < n"
  obtains b where "ldb_realloc (buf_data z) n = Some (Heap b)" "length b = n"
    "take (buf_alloc z) b = mem_block (buf_data z)"
  using assms by (cases "buf_data z") (auto simp: buffer_shape_def)

lemma take_take_le: "m \<le> n \<Longrightarrow> take n b = c \<Longrightarrow> take m b = take m c"
  by (auto simp: min_def)

text \<open>Making room keeps the contents and gives a block of at least the requested size.\<close>

lemma buffer_expand_holds:
  assumes "buffer_holds z xs"
  obtains z' where "ldb_buffer_expand z n = Some z'" "buffer_holds z' xs" "length xs + n \<le> buf_alloc z'"
proof (cases "buf_alloc z < buf_size z + n")
  case True
  let ?a = "max (buf_alloc z * 3 div 2) (buf_size z + n)"
  from True have "buf_alloc z < ?a" by simp
  from realloc_shape [OF _ this] assms obtain b where b:
      "ldb_realloc (buf_data z) ?a = Some (Heap b)" "length b = ?a" "take (buf_alloc z) b = mem_block (buf_data z)"
    by (auto simp: buffer_holds_def)
  from b(3) assms have "take (length xs) b = map Some xs"
    using take_take_le [of "length xs" "buf_alloc z" b] by (auto simp: buffer_holds_def buffer_shape_def)
  then have "buffer_holds (z\<lparr>buf_data := Heap b, buf_alloc := ?a\<rparr>) xs"
    using b(2) assms by (simp add: buffer_holds_def buffer_shape_def le_max_iff_disj)
  moreover have "(if buf_alloc z * 3 div 2 < buf_size z + n then buf_size z + n else buf_alloc z * 3 div 2) = ?a"
    by simp
  with True b(1) have "ldb_buffer_expand z n = Some (z\<lparr>buf_data := Heap b, buf_alloc := ?a\<rparr>)"
    by (simp add: ldb_buffer_expand_def Let_def)
  ultimately show ?thesis using assms that by (auto simp: buffer_holds_def)
next
  case False
  with assms that [of z] show ?thesis
    by (auto simp: ldb_buffer_expand_def buffer_holds_def)
qed

lemma buffer_grow_holds:
  assumes "buffer_holds z xs"
  obtains z' where "ldb_buffer_grow z n = Some z'" "buffer_holds z' xs" "n \<le> buf_alloc z'"
    "buf_alloc z \<le> buf_alloc z'"
proof (cases "buf_alloc z < n")
  case True
  from realloc_shape [OF _ True] assms obtain b where b:
      "ldb_realloc (buf_data z) n = Some (Heap b)" "length b = n" "take (buf_alloc z) b = mem_block (buf_data z)"
    by (auto simp: buffer_holds_def)
  from b(3) assms have "take (length xs) b = map Some xs"
    using take_take_le [of "length xs" "buf_alloc z" b] by (auto simp: buffer_holds_def buffer_shape_def)
  with True b assms that [of "z\<lparr>buf_data := Heap b, buf_alloc := n\<rparr>"] show ?thesis
    by (auto simp: ldb_buffer_grow_def buffer_holds_def buffer_shape_def)
next
  case False
  with assms that [of z] show ?thesis by (auto simp: ldb_buffer_grow_def)
qed

lemma length_cells_store [simp]: "off + length bs \<le> length b \<Longrightarrow> length (cells_store b off bs) = length b"
  by (simp add: cells_store_def)

lemma mem_store_holds:
  assumes "buffer_holds z xs" "length xs + length bs \<le> buf_alloc z" "n \<le> length bs"
  obtains p where "mem_store (buf_data z) (buf_size z) bs = Some p"
    "buffer_holds (z\<lparr>buf_data := p, buf_size := buf_size z + n\<rparr>) (xs @ take n bs)"
proof (cases "buf_data z")
  case (Heap b)
  let ?b = "cells_store b (length xs) bs"
  from Heap assms have "take (length xs) b = map Some xs" "length b = buf_alloc z"
    by (auto simp: buffer_holds_def buffer_shape_def)
  with assms(2,3) have "take (length xs + n) ?b = map Some (xs @ take n bs)"
    by (auto simp: cells_store_def take_map)
  then have "buffer_holds (z\<lparr>buf_data := Heap ?b, buf_size := buf_size z + n\<rparr>) (xs @ take n bs)"
    using Heap assms by (auto simp: buffer_holds_def buffer_shape_def)
  moreover have "bs = [] \<Longrightarrow> ?b = b" by (simp add: cells_store_def)
  then have "mem_store (buf_data z) (buf_size z) bs = Some (Heap ?b)"
    using Heap assms by (auto simp: mem_store_def buffer_holds_def buffer_shape_def)
  ultimately show ?thesis by (rule that [rotated])
qed (use assms that in \<open>auto simp: buffer_holds_def buffer_shape_def mem_store_def\<close>)

lemma buffer_emit_holds:
  assumes "buffer_holds z xs" "length bs \<le> cap" "n \<le> length bs"
  shows "\<exists>z'. buffer_emit z cap bs n = Some z' \<and> buffer_holds z' (xs @ take n bs)"
proof -
  obtain z' where z': "ldb_buffer_expand z cap = Some z'" "buffer_holds z' xs" "length xs + cap \<le> buf_alloc z'"
    using buffer_expand_holds [OF assms(1)] .
  obtain p where "mem_store (buf_data z') (buf_size z') bs = Some p"
    "buffer_holds (z'\<lparr>buf_data := p, buf_size := buf_size z' + n\<rparr>) (xs @ take n bs)"
    using mem_store_holds [OF z'(2) _ assms(3)] z'(3) assms(2) by auto
  with z' show ?thesis by (auto simp: buffer_emit_def)
qed

lemma escape_byte_length: "length (escape_byte ch) \<le> 4"
  by (simp add: escape_byte_def)

lemma escape_length: "length (concat (map escape_byte x)) \<le> length x * 4 + 1"
proof (induction x)
  case (Cons a x)
  then show ?case using escape_byte_length [of a] by simp
qed simp

lemma length_string_bytes [simp]: "length (string_bytes s) = length s"
  by (simp add: string_bytes_def)

lemma length_encode_int_0: "length (ldb_encode_int x 0) \<le> 20"
  using ldb_size_int_bounds [of x] by (simp add: ldb_encode_int_props)

lemma buffer_push_holds:
  assumes "buffer_holds z xs"
  shows "\<exists>z'. ldb_buffer_push z x = Some z' \<and> buffer_holds z' (xs @ [word_of_int x])"
proof -
  let ?n = "buf_alloc z * 3 div 2 + (if buf_alloc z \<le> 1 then 1 else 0)"
  obtain z' where z': "ldb_buffer_grow z ?n = Some z'" "buffer_holds z' xs" "?n \<le> buf_alloc z'"
    using buffer_grow_holds [OF assms] by metis
  let ?z = "if buf_size z = buf_alloc z then z' else z"
  have "buffer_holds ?z xs" "length xs + 1 \<le> buf_alloc ?z"
    using assms z' by (auto simp: buffer_holds_def buffer_shape_def split: if_splits)
  from mem_store_holds [OF this(1), of "[word_of_int x]" 1] this(2)
  obtain p where "mem_store (buf_data ?z) (buf_size ?z) [word_of_int x] = Some p"
    "buffer_holds (?z\<lparr>buf_data := p, buf_size := buf_size ?z + 1\<rparr>) (xs @ [word_of_int x])" by auto
  with z'(1) show ?thesis by (auto simp: ldb_buffer_push_def split: if_splits)
qed

lemma buffer_set_holds:
  assumes "buffer_holds z xs"
  shows "\<exists>z'. ldb_buffer_set z ys = Some z' \<and> buffer_holds z' ys"
proof -
  obtain z' where z': "ldb_buffer_grow z (length ys) = Some z'" "buffer_holds z' xs" "length ys \<le> buf_alloc z'"
    using buffer_grow_holds [OF assms] .
  then have "buffer_holds (ldb_buffer_reset z') []"
    by (auto simp: buffer_holds_def buffer_shape_def ldb_buffer_reset_def split: memory.splits)
  from mem_store_holds [OF this, of ys "length ys"] z'(3)
  obtain p where "mem_store (buf_data z') 0 ys = Some p"
      "buffer_holds (z'\<lparr>buf_data := p, buf_size := length ys\<rparr>) ys"
    by (auto simp: ldb_buffer_reset_def)
  with z'(1) show ?thesis by (auto simp: ldb_buffer_set_def)
qed

section \<open>Properties\<close>

text \<open>
  C26. A buffer is a byte string that grows: on a well-formed buffer every writer succeeds (it never
  stores outside the block and never resizes memory it does not own) and leaves a well-formed buffer
  with exactly the encoded bytes appended.
\<close>

theorem buffer_appends:
  assumes "buffer_holds z xs" "buffer_holds y ys"
  shows "(\<exists>z'. ldb_buffer_push z c = Some z' \<and> buffer_holds z' (xs @ [word_of_int c]))
    \<and> (\<exists>z'. ldb_buffer_append z bs = Some z' \<and> buffer_holds z' (xs @ bs))
    \<and> (\<exists>z'. ldb_buffer_string z s = Some z' \<and> buffer_holds z' (xs @ string_bytes s))
    \<and> (\<exists>z'. ldb_buffer_number z n = Some z' \<and> buffer_holds z' (xs @ string_bytes (ldb_encode_int n 0)))
    \<and> (\<exists>z'. ldb_buffer_escape z bs = Some z' \<and> buffer_holds z' (xs @ concat (map escape_byte bs)))
    \<and> (\<exists>z'. ldb_buffer_pad z k = Some z' \<and> buffer_holds z' (xs @ replicate k 0))
    \<and> (\<exists>z'. ldb_buffer_fixed32 z v = Some z' \<and> buffer_holds z' (xs @ ldb_fixed32_write v))
    \<and> (\<exists>z'. ldb_buffer_fixed64 z n = Some z' \<and> buffer_holds z' (xs @ ldb_fixed64_write n))
    \<and> (\<exists>z'. ldb_buffer_varint32 z v = Some z' \<and> buffer_holds z' (xs @ ldb_varint32_write v))
    \<and> (\<exists>z'. ldb_buffer_varint64 z n = Some z' \<and> buffer_holds z' (xs @ ldb_varint64_write n))
    \<and> (\<exists>z'. ldb_buffer_export z y = Some z' \<and> buffer_holds z' (xs @ ldb_slice_write ys))
    \<and> (\<exists>z'. ldb_buffer_copy z y = Some z' \<and> buffer_holds z' ys)"
  using buffer_push_holds [OF assms(1), of c]
    buffer_emit_holds [OF assms(1), of bs "length bs" "length bs"]
    buffer_emit_holds [OF assms(1), of "string_bytes s" "length s" "length s"]
    buffer_emit_holds [OF assms(1), of "string_bytes (ldb_encode_int n 0) @ [0]" 21 "length (ldb_encode_int n 0)"]
    buffer_emit_holds [OF assms(1), of "concat (map escape_byte bs)" "length bs * 4 + 1" "length (concat (map escape_byte bs))"]
    buffer_emit_holds [OF assms(1), of "replicate k 0" k k]
    buffer_emit_holds [OF assms(1), of "ldb_fixed32_write v" 4 4]
    buffer_emit_holds [OF assms(1), of "ldb_fixed64_write n" 8 8]
    buffer_emit_holds [OF assms(1), of "ldb_varint32_write v" 5 "length (ldb_varint32_write v)"]
    buffer_emit_holds [OF assms(1), of "ldb_varint64_write n" 10 "length (ldb_varint64_write n)"]
    buffer_emit_holds [OF assms(1), of "ldb_slice_write ys" "5 + length ys" "length (ldb_slice_write ys)"]
    buffer_set_holds [OF assms(1), of ys]
    length_ldb_varint32_write [of v] length_ldb_varint64_write [of n] escape_length [of bs]
    length_encode_int_0 [of n] length_ldb_varint32_write [of "of_nat (length ys)"]
    mem_load_holds [OF assms(2)] assms(2)
  by (simp add: ldb_buffer_append_def ldb_buffer_string_def ldb_buffer_number_def Let_def
      ldb_buffer_escape_def ldb_buffer_pad_def ldb_buffer_fixed32_def ldb_buffer_fixed64_def
      ldb_buffer_varint32_def ldb_buffer_varint64_def ldb_buffer_export_def ldb_buffer_copy_def
      ldb_buffer_write_def buffer_holds_def [of y] ldb_slice_write_def ldb_raw_write_def)

theorem buffer_appends_witness:
  "\<exists>z'. ldb_buffer_append ldb_buffer_init [1, 2] = Some z' \<and> buffer_holds z' [1, 2]"
  using buffer_appends [OF buffer_holds_init buffer_holds_init, where bs = "[1, 2]"] by simp

end
