(* ===== verification/Filename.thy ===== *)
theory Filename
  imports EnvFiles Buffer
begin

text \<open>
  File names (\<^verbatim>\<open>src/src/filename.c\<close>): the names of the files of a database, their parser, and the
  switch of the \<^verbatim>\<open>CURRENT\<close> file to a new manifest. A generator returns \<^term>\<open>None\<close> where the source returns
  0 because the path does not fit the buffer of size \<^term>\<open>n\<close>. The numbered generators assert that the number is positive:
  an \<^verbatim>\<open>assert\<close> of the source is a predicate next to the operation (\<^verbatim>\<open>..._assert\<close>), and the operation is what the
  code computes when the assertion holds.
\<close>

datatype filetype =
  LDB_FILE_LOG | LDB_FILE_LOCK | LDB_FILE_TABLE | LDB_FILE_DESC | LDB_FILE_CURRENT | LDB_FILE_TEMP | LDB_FILE_INFO

definition make_filename :: "nat \<Rightarrow> string \<Rightarrow> u64 \<Rightarrow> string \<Rightarrow> string option" where
  "make_filename n pre num ext = (let id = ldb_encode_int num 6 in ldb_join n pre (id @ ''.'' @ ext))"

definition ldb_log_filename_assert :: "u64 \<Rightarrow> bool" where
  "ldb_log_filename_assert num \<longleftrightarrow> num > 0"

definition ldb_log_filename :: "nat \<Rightarrow> string \<Rightarrow> u64 \<Rightarrow> string option" where
  "ldb_log_filename n pre num = make_filename n pre num ''log''"

definition ldb_table_filename_assert :: "u64 \<Rightarrow> bool" where
  "ldb_table_filename_assert num \<longleftrightarrow> num > 0"

definition ldb_table_filename :: "nat \<Rightarrow> string \<Rightarrow> u64 \<Rightarrow> string option" where
  "ldb_table_filename n pre num = make_filename n pre num ''ldb''"

definition ldb_sstable_filename_assert :: "u64 \<Rightarrow> bool" where
  "ldb_sstable_filename_assert num \<longleftrightarrow> num > 0"

definition ldb_sstable_filename :: "nat \<Rightarrow> string \<Rightarrow> u64 \<Rightarrow> string option" where
  "ldb_sstable_filename n pre num = make_filename n pre num ''sst''"

definition ldb_desc_filename_assert :: "u64 \<Rightarrow> bool" where
  "ldb_desc_filename_assert num \<longleftrightarrow> num > 0"

definition ldb_desc_filename :: "nat \<Rightarrow> string \<Rightarrow> u64 \<Rightarrow> string option" where
  "ldb_desc_filename n pre num = (let id = ldb_encode_int num 6 in ldb_join n pre (''MANIFEST-'' @ id))"

definition ldb_current_filename :: "nat \<Rightarrow> string \<Rightarrow> string option" where
  "ldb_current_filename n pre = ldb_join n pre ''CURRENT''"

definition ldb_lock_filename :: "nat \<Rightarrow> string \<Rightarrow> string option" where
  "ldb_lock_filename n pre = ldb_join n pre ''LOCK''"

definition ldb_temp_filename_assert :: "u64 \<Rightarrow> bool" where
  "ldb_temp_filename_assert num \<longleftrightarrow> num > 0"

definition ldb_temp_filename :: "nat \<Rightarrow> string \<Rightarrow> u64 \<Rightarrow> string option" where
  "ldb_temp_filename n pre num = make_filename n pre num ''dbtmp''"

definition ldb_info_filename :: "nat \<Rightarrow> string \<Rightarrow> string option" where
  "ldb_info_filename n pre = ldb_join n pre ''LOG''"

definition ldb_oldinfo_filename :: "nat \<Rightarrow> string \<Rightarrow> string option" where
  "ldb_oldinfo_filename n pre = ldb_join n pre ''LOG.old''"

definition ldb_parse_filename :: "string \<Rightarrow> (filetype \<times> u64) option" where
  "ldb_parse_filename name =
     (if name = ''CURRENT'' then Some (LDB_FILE_CURRENT, 0)
      else if name = ''LOCK'' then Some (LDB_FILE_LOCK, 0)
      else if name = ''LOG'' \<or> name = ''LOG.old'' then Some (LDB_FILE_INFO, 0)
      else if ldb_starts_with name ''MANIFEST-'' then
        (case ldb_decode_int (drop 9 name) of
           None \<Rightarrow> None
         | Some (x, name) \<Rightarrow> if name \<noteq> '''' then None else Some (LDB_FILE_DESC, x))
      else
        (case ldb_decode_int name of
           None \<Rightarrow> None
         | Some (x, name) \<Rightarrow>
             if name = ''.log'' then Some (LDB_FILE_LOG, x)
             else if name = ''.sst'' \<or> name = ''.ldb'' then Some (LDB_FILE_TABLE, x)
             else if name = ''.dbtmp'' then Some (LDB_FILE_TEMP, x)
             else None))"

text \<open>The assertion of the function itself and that of the generator it calls.\<close>

definition ldb_set_current_file_assert :: "u64 \<Rightarrow> bool" where
  "ldb_set_current_file_assert desc_number \<longleftrightarrow> desc_number > 0 \<and> ldb_temp_filename_assert desc_number"

definition ldb_set_current_file :: "(nat \<Rightarrow> nat \<Rightarrow> u8) \<Rightarrow> memenv \<Rightarrow> string \<Rightarrow> u64 \<Rightarrow> status \<times> memenv" where
  "ldb_set_current_file junk env pre desc_number =
     (case ldb_temp_filename LDB_PATH_MAX pre desc_number of
        None \<Rightarrow> (LDB_INVALID, env)
      | Some tmp \<Rightarrow>
          (case ldb_current_filename LDB_PATH_MAX pre of
             None \<Rightarrow> (LDB_INVALID, env)
           | Some cur \<Rightarrow>
               (let id = ldb_encode_int desc_number 6;
                    data = string_bytes (''MANIFEST-'' @ id @ [CHR 0x0A]);
                    (rc, env) = ldb_write_file junk env tmp data True;
                    (rc, env) = (if rc = LDB_OK then ldb_rename_file env tmp cur else (rc, env));
                    env = (if rc \<noteq> LDB_OK then snd (ldb_remove_file env tmp) else env)
                in (rc, env))))"

section \<open>Names parse back\<close>

lemma digit_simps [simp]: "\<not> digit (CHR ''.'')" "\<not> digit (CHR ''M'')" "\<not> digit (CHR ''L'')" "\<not> digit (CHR ''C'')"
  "\<not> digit (CHR ''/'')"
  by (simp_all add: digit_def)

lemma encode_int_Cons:
  obtains c cs where "ldb_encode_int x pad = c # cs" "digit c"
  using ldb_encode_int_props(1,3) [of x pad] ldb_size_int_bounds(1) [of x]
  by (cases "ldb_encode_int x pad") auto

lemma parse_numbered:
  assumes "ext \<noteq> ''''" "\<not> digit (hd ext)"
  shows "ldb_parse_filename (ldb_encode_int num 6 @ ext) =
     (if ext = ''.log'' then Some (LDB_FILE_LOG, num)
      else if ext = ''.sst'' \<or> ext = ''.ldb'' then Some (LDB_FILE_TABLE, num)
      else if ext = ''.dbtmp'' then Some (LDB_FILE_TEMP, num) else None)"
proof -
  obtain c cs where c: "ldb_encode_int num 6 = c # cs" "digit c" by (rule encode_int_Cons)
  then have "c \<noteq> CHR ''M''" "c \<noteq> CHR ''L''" "c \<noteq> CHR ''C''" by auto
  with c ldb_decode_int_encode [of 6 ext num] assms show ?thesis
    by (auto simp: ldb_parse_filename_def)
qed

lemma ldb_starts_with_Nil [simp]: "ldb_starts_with s []"
  by (cases s) simp_all

lemma parse_desc: "ldb_parse_filename (''MANIFEST-'' @ ldb_encode_int num 6) = Some (LDB_FILE_DESC, num)"
  using ldb_decode_int_encode [of 6 "[]" num] by (simp add: ldb_parse_filename_def)

lemma no_slash_encode: "CHR ''/'' \<notin> set (ldb_encode_int num pad)"
  using ldb_encode_int_props(1) [of num pad] by (auto simp: list_all_iff)

lemma ldb_basename_join: "CHR ''/'' \<notin> set b \<Longrightarrow> ldb_basename (p @ CHR ''/'' # b) = b"
  by (auto simp: ldb_basename_def strrchr_slash_def takeWhile_append)

lemmas filename_defs = ldb_log_filename_def ldb_table_filename_def ldb_sstable_filename_def
  ldb_desc_filename_def ldb_temp_filename_def ldb_current_filename_def ldb_lock_filename_def
  ldb_info_filename_def ldb_oldinfo_filename_def make_filename_def Let_def ldb_join_def

lemmas filename_asserts = ldb_set_current_file_assert_def ldb_temp_filename_assert_def

section \<open>Properties\<close>

text \<open>
  C27. The parser inverts the generators: the last component of every generated path parses to the type
  and the number it was generated for, with any 64-bit number, positive or not.
\<close>

theorem filename_roundtrip:
  "(ldb_log_filename n pre num = Some path \<longrightarrow> ldb_parse_filename (ldb_basename path) = Some (LDB_FILE_LOG, num))
   \<and> (ldb_table_filename n pre num = Some path \<longrightarrow> ldb_parse_filename (ldb_basename path) = Some (LDB_FILE_TABLE, num))
   \<and> (ldb_sstable_filename n pre num = Some path \<longrightarrow> ldb_parse_filename (ldb_basename path) = Some (LDB_FILE_TABLE, num))
   \<and> (ldb_temp_filename n pre num = Some path \<longrightarrow> ldb_parse_filename (ldb_basename path) = Some (LDB_FILE_TEMP, num))
   \<and> (ldb_desc_filename n pre num = Some path \<longrightarrow> ldb_parse_filename (ldb_basename path) = Some (LDB_FILE_DESC, num))
   \<and> (ldb_current_filename n pre = Some path \<longrightarrow> ldb_parse_filename (ldb_basename path) = Some (LDB_FILE_CURRENT, 0))
   \<and> (ldb_lock_filename n pre = Some path \<longrightarrow> ldb_parse_filename (ldb_basename path) = Some (LDB_FILE_LOCK, 0))
   \<and> (ldb_info_filename n pre = Some path \<longrightarrow> ldb_parse_filename (ldb_basename path) = Some (LDB_FILE_INFO, 0))
   \<and> (ldb_oldinfo_filename n pre = Some path \<longrightarrow> ldb_parse_filename (ldb_basename path) = Some (LDB_FILE_INFO, 0))"
  using no_slash_encode [of num 6]
  by (auto simp: filename_defs ldb_basename_join parse_numbered parse_desc [simplified] split: if_splits)
    (simp_all add: ldb_parse_filename_def)

theorem filename_roundtrip_witness:
  "ldb_parse_filename (ldb_basename ''db/000007.log'') = Some (LDB_FILE_LOG, 7)"
proof -
  have "ldb_log_filename 64 ''db'' 7 = Some ''db/000007.log''" by code_simp
  then show ?thesis using filename_roundtrip [of 64 "''db''" 7 "''db/000007.log''"] by blast
qed

text \<open>
  C25. Switching the current manifest to one with a positive number: when the paths fit, \<^verbatim>\<open>ldb_set_current_file\<close> succeeds, afterwards the
  \<^verbatim>\<open>CURRENT\<close> file holds the manifest's name and a newline, the temporary file is gone and every other file
  is as before; when a path does not fit it reports \<^verbatim>\<open>LDB_INVALID\<close> and changes nothing. No assertion fails, in the function
  or in the generator of the temporary name.
\<close>

theorem set_current_file_effect:
  assumes "mem_reach e H" "num > 0"
  shows "ldb_set_current_file_assert num \<and> (if length pre + length (ldb_encode_int num 6) + 8 > LDB_PATH_MAX \<or> length pre + 9 > LDB_PATH_MAX
    then ldb_set_current_file junk e pre num = (LDB_INVALID, e)
    else fst (ldb_set_current_file junk e pre num) = LDB_OK
      \<and> env_inv (snd (ldb_set_current_file junk e pre num)) H
      \<and> file_bytes (snd (ldb_set_current_file junk e pre num)) =
          (file_bytes e)(pre @ ''/'' @ ldb_encode_int num 6 @ ''.dbtmp'' := None,
            pre @ ''/CURRENT'' \<mapsto> string_bytes (''MANIFEST-'' @ ldb_encode_int num 6 @ [CHR 0x0A])))"
proof (cases "length pre + length (ldb_encode_int num 6) + 8 > LDB_PATH_MAX \<or> length pre + 9 > LDB_PATH_MAX")
  case True
  then show ?thesis using assms(2) by (auto simp: ldb_set_current_file_def filename_defs filename_asserts)
next
  case False
  let ?tmp = "pre @ ''/'' @ ldb_encode_int num 6 @ ''.dbtmp''" and ?cur = "pre @ ''/CURRENT''"
  let ?d = "string_bytes (''MANIFEST-'' @ ldb_encode_int num 6 @ [CHR 0x0A])"
  let ?e = "snd (ldb_write_file junk e ?tmp ?d True)"
  have len: "length ?tmp + 1 \<le> LDB_PATH_MAX" "length ?cur + 1 \<le> LDB_PATH_MAX" using False by auto
  note w = ldb_write_file_bytes [OF mem_reach_inv [OF assms(1)] len(1), of junk ?d True]
  have "file_bytes ?e ?tmp = Some ?d" using w(3) by simp
  note r = ldb_rename_file_bytes [OF w(2) this len(2)] env_inv_rename [OF w(2), of ?tmp ?cur]
  have names: "ldb_temp_filename LDB_PATH_MAX pre num = Some ?tmp" "ldb_current_filename LDB_PATH_MAX pre = Some ?cur"
    using False by (auto simp: filename_defs)
  have "ldb_set_current_file junk e pre num = ldb_rename_file ?e ?tmp ?cur"
    using w(1) r(1) unfolding ldb_set_current_file_def names option.case Let_def
    by (simp add: case_prod_beta del: append_Cons append.simps) (metis prod.collapse)
  with False r w(3) assms(2) show ?thesis by (simp add: filename_asserts)
qed

theorem set_current_file_effect_witness:
  "fst (ldb_set_current_file (\<lambda>_ _. 0) memenv_init ''db'' 5) = LDB_OK"
proof -
  have "ldb_encode_int 5 6 = ''000005''" by code_simp
  then show ?thesis
    using set_current_file_effect [OF mem_reach.init, of 5 "''db''" "\<lambda>_ _. 0"] by (simp add: LDB_PATH_MAX_def)
qed

end
