(* ===== verification/Iter.thy ===== *)
theory Iter
  imports Comparator "HOL-Library.Monad_Syntax" "HOL-Library.Multiset"
begin

text \<open>
  The iterator interface (\<^verbatim>\<open>src/src/table/iterator.h\<close> and \<^verbatim>\<open>iterator.c\<close>): the function table of an
  iterator, the contract its comments state, cleanup functions, and the empty iterator. An operation
  of a table returns \<^term>\<open>None\<close> where an assertion fails, memory outside an object is read, or a loop
  does not end.
\<close>

type_synonym kv = "bytes \<times> bytes"

section \<open>The function table\<close>

record 's itertbl =
  tbl_valid :: "'s \<Rightarrow> bool"
  tbl_seek_first :: "'s \<Rightarrow> 's option"
  tbl_seek_last :: "'s \<Rightarrow> 's option"
  tbl_seek :: "'s \<Rightarrow> bytes \<Rightarrow> 's option"
  tbl_next :: "'s \<Rightarrow> 's option"
  tbl_prev :: "'s \<Rightarrow> 's option"
  tbl_key :: "'s \<Rightarrow> bytes option"
  tbl_value :: "'s \<Rightarrow> bytes option"
  tbl_status :: "'s \<Rightarrow> status option"

section \<open>Cleanup functions\<close>

text \<open>
  The head node of the list of cleanup functions is inlined in the iterator and may be unused; a
  cleanup function with its arguments is a value of type \<^typ>\<open>'c\<close>, and \<^verbatim>\<open>ldb_iter_clear\<close> returns the ones it
  runs, in order.
\<close>

record ('p, 'c) ldb_iter =
  it_ptr :: 'p
  it_cleanup_head :: "'c option"
  it_cleanup_next :: "'c list"

definition ldb_iter_create :: "'p \<Rightarrow> ('p, 'c) ldb_iter" where
  "ldb_iter_create ptr = \<lparr>it_ptr = ptr, it_cleanup_head = None, it_cleanup_next = []\<rparr>"

definition ldb_iter_register_cleanup :: "('p, 'c) ldb_iter \<Rightarrow> 'c \<Rightarrow> ('p, 'c) ldb_iter" where
  "ldb_iter_register_cleanup iter func =
     (case it_cleanup_head iter of
        None \<Rightarrow> iter\<lparr>it_cleanup_head := Some func\<rparr>
      | Some _ \<Rightarrow> iter\<lparr>it_cleanup_next := func # it_cleanup_next iter\<rparr>)"

definition ldb_iter_clear :: "('p, 'c) ldb_iter \<Rightarrow> 'c list" where
  "ldb_iter_clear iter =
     (case it_cleanup_head iter of None \<Rightarrow> [] | Some func \<Rightarrow> func # it_cleanup_next iter)"

lemma register_cleanups_run:
  "it_cleanup_head iter = None \<longrightarrow> it_cleanup_next iter = [] \<Longrightarrow>
     mset (ldb_iter_clear (foldl ldb_iter_register_cleanup iter fs)) = mset (ldb_iter_clear iter) + mset fs"
proof (induction fs arbitrary: iter)
  case (Cons f fs)
  then show ?case
    by (cases "it_cleanup_head iter") (simp_all add: ldb_iter_register_cleanup_def ldb_iter_clear_def)
qed simp

section \<open>The contract\<close>

text \<open>
  \<^term>\<open>first_ge\<close> is the position of the first entry at or past a key, the number of entries when there is none.
\<close>

definition first_ge :: "('k \<Rightarrow> 'k \<Rightarrow> int) \<Rightarrow> ('k \<times> 'v) list \<Rightarrow> 'k \<Rightarrow> nat" where
  "first_ge cmp es t = length (takeWhile (\<lambda>e. cmp (fst e) t < 0) es)"

lemma first_ge_le: "first_ge cmp es t \<le> length es"
  by (simp add: first_ge_def length_takeWhile_le)

lemma first_ge_below: "i < first_ge cmp es t \<Longrightarrow> cmp (fst (es ! i)) t < 0"
  unfolding first_ge_def by (metis nth_mem set_takeWhileD takeWhile_nth)

lemma first_ge_at: "first_ge cmp es t < length es \<Longrightarrow> \<not> cmp (fst (es ! first_ge cmp es t)) t < 0"
  unfolding first_ge_def using nth_length_takeWhile by blast

lemma first_ge_eqI:
  assumes "\<And>j. j < i \<Longrightarrow> cmp (fst (es ! j)) t < 0" "i \<le> length es" "i < length es \<Longrightarrow> \<not> cmp (fst (es ! i)) t < 0"
  shows "first_ge cmp es t = i"
  using assms first_ge_below [of i cmp es t] first_ge_at [of cmp es t] first_ge_le [of cmp es t]
  by (metis linorder_neqE_nat order_less_le_trans)

text \<open>Entries with increasing keys.\<close>

context key_order
begin

definition kv_sorted :: "('k \<times> 'v) list \<Rightarrow> bool" where
  "kv_sorted es \<longleftrightarrow> sorted_wrt (\<lambda>a b. cmp (fst a) (fst b) < 0) es \<and> (\<forall>e \<in> set es. ok (fst e))"

lemma kv_ok: "kv_sorted es \<Longrightarrow> i < length es \<Longrightarrow> ok (fst (es ! i))"
  by (simp add: kv_sorted_def)

lemma kv_nth: "kv_sorted es \<Longrightarrow> i < j \<Longrightarrow> j < length es \<Longrightarrow> cmp (fst (es ! i)) (fst (es ! j)) < 0"
  by (simp add: kv_sorted_def sorted_wrt_iff_nth_less)

lemma kv_below:
  assumes "kv_sorted es" "ok t" "i \<le> j" "j < length es" "cmp (fst (es ! j)) t < 0"
  shows "cmp (fst (es ! i)) t < 0"
  using assms kv_nth [OF assms(1), of i j] kv_ok [OF assms(1)] cmp_less_trans [of "fst (es ! i)" "fst (es ! j)" t]
  by (cases "i = j") auto

lemma below_first_ge:
  assumes "kv_sorted es" "ok t" "j < length es" "cmp (fst (es ! j)) t < 0"
  shows "j < first_ge cmp es t"
  using kv_below [OF assms(1,2) _ assms(3,4), of "first_ge cmp es t"] first_ge_at [of cmp es t] assms(3)
  by (meson le_less_trans not_less)

lemma first_ge_equal:
  assumes "kv_sorted es" "ok t" "i < length es" "cmp (fst (es ! i)) t = 0"
  shows "first_ge cmp es t = i"
proof (rule first_ge_eqI)
  fix j assume "j < i"
  then show "cmp (fst (es ! j)) t < 0"
    using kv_nth [OF assms(1), of j i] assms kv_ok [OF assms(1)] cmp_less_le_trans [of "fst (es ! j)" "fst (es ! i)" t] by simp
qed (use assms in auto)

lemma first_ge_filter: "kv_sorted es \<Longrightarrow> ok t \<Longrightarrow> first_ge cmp es t = length (filter (\<lambda>e. cmp (fst e) t < 0) es)"
proof (induction es)
  case (Cons e es)
  have "filter (\<lambda>e. cmp (fst e) t < 0) es = []" if "\<not> cmp (fst e) t < 0"
    using that Cons.prems cmp_less_trans [of "fst e" _ t] by (auto simp: kv_sorted_def filter_empty_conv)
  with Cons show ?case by (auto simp: first_ge_def kv_sorted_def)
qed (simp add: first_ge_def)

lemma kv_nth_eq_iff:
  assumes "kv_sorted es" "i < length es" "j < length es"
  shows "cmp (fst (es ! i)) (fst (es ! j)) = 0 \<longleftrightarrow> i = j"
    and "cmp (fst (es ! i)) (fst (es ! j)) < 0 \<longleftrightarrow> i < j"
  using kv_nth [OF assms(1), of i j] kv_nth [OF assms(1), of j i] cmp_refl [OF kv_ok [OF assms(1), of i]] assms
    cmp_swap [OF kv_ok [OF assms(1), of i] kv_ok [OF assms(1), of j]] cmp_swap [OF kv_ok [OF assms(1), of j] kv_ok [OF assms(1), of i]]
  by (cases i j rule: linorder_cases; force)+

lemma kv_distinct: "kv_sorted es \<Longrightarrow> distinct es"
  using kv_nth_eq_iff(1) by (metis distinct_conv_nth cmp_refl kv_ok)

lemma kv_same_key:
  "kv_sorted es \<Longrightarrow> a \<in> set es \<Longrightarrow> b \<in> set es \<Longrightarrow> cmp (fst a) (fst b) = 0 \<Longrightarrow> a = b"
  by (metis in_set_conv_nth kv_nth_eq_iff(1))

end

text \<open>What the clients of a comparator object rely on: it orders the keys they store and the targets they seek.\<close>

locale comparator_order = key_order "compare C" ok
  for C :: comparator and ok :: "bytes \<Rightarrow> bool"

sublocale comparator_contract \<subseteq> order: comparator_order C ok
  by unfold_locales

interpretation bytewise_order: comparator_order bytewise_comparator "\<lambda>_. True"
  by (rule bytewise.order.comparator_order_axioms)

text \<open>A scan with \<^verbatim>\<open>next\<close> reads the entries in order and ends.\<close>

primrec iter_scan :: "'s itertbl \<Rightarrow> nat \<Rightarrow> 's \<Rightarrow> kv list option" where
  "iter_scan T 0 s = Some []"
| "iter_scan T (Suc n) s =
     (if tbl_valid T s then
        do { k \<leftarrow> tbl_key T s; v \<leftarrow> tbl_value T s; s \<leftarrow> tbl_next T s; r \<leftarrow> iter_scan T n s; Some ((k, v) # r) }
      else Some [])"

text \<open>
  The source of an iterator is a list of entries; \<^term>\<open>at s i\<close> says that the iterator stands at entry
  \<^term>\<open>i\<close>, or is not valid when \<^term>\<open>i\<close> is the number of entries.
\<close>

locale cursor =
  fixes T :: "'s itertbl"
    and cmp :: "bytes \<Rightarrow> bytes \<Rightarrow> int"
    and es :: "kv list"
    and at :: "'s \<Rightarrow> nat \<Rightarrow> bool"
    and target_ok :: "bytes \<Rightarrow> bool"
  assumes at_le: "at s i \<Longrightarrow> i \<le> length es"
    and at_valid: "at s i \<Longrightarrow> tbl_valid T s \<longleftrightarrow> i < length es"
    and at_key: "at s i \<Longrightarrow> i < length es \<Longrightarrow> tbl_key T s = Some (fst (es ! i))"
    and at_value: "at s i \<Longrightarrow> i < length es \<Longrightarrow> tbl_value T s = Some (snd (es ! i))"
    and at_status: "at s i \<Longrightarrow> tbl_status T s = Some LDB_OK"
    and seek_first: "at s i \<Longrightarrow> \<exists>s'. tbl_seek_first T s = Some s' \<and> at s' 0"
    and seek_last: "at s i \<Longrightarrow> \<exists>s'. tbl_seek_last T s = Some s' \<and> at s' (length es - 1)"
    and seek: "at s i \<Longrightarrow> target_ok t \<Longrightarrow> \<exists>s'. tbl_seek T s t = Some s' \<and> at s' (first_ge cmp es t)"
    and next_step: "at s i \<Longrightarrow> i < length es \<Longrightarrow> \<exists>s'. tbl_next T s = Some s' \<and> at s' (i + 1)"
    and prev_step: "at s i \<Longrightarrow> i < length es \<Longrightarrow>
      \<exists>s'. tbl_prev T s = Some s' \<and> at s' (if i = 0 then length es else i - 1)"
begin

lemma scan_at: "at s i \<Longrightarrow> length es - i \<le> n \<Longrightarrow> iter_scan T n s = Some (drop i es)"
proof (induction n arbitrary: s i)
  case 0
  then show ?case by simp
next
  case (Suc n)
  show ?case
  proof (cases "i < length es")
    case True
    then obtain s' where s': "tbl_next T s = Some s'" "at s' (i + 1)" using next_step [OF Suc.prems(1)] by blast
    with Suc.IH [OF s'(2)] Suc.prems(2) True have "iter_scan T n s' = Some (drop (i + 1) es)" by simp
    with s'(1) True at_valid [OF Suc.prems(1)] at_key [OF Suc.prems(1)] at_value [OF Suc.prems(1)] show ?thesis
      by (simp add: Cons_nth_drop_Suc)
  next
    case False
    with at_valid [OF Suc.prems(1)] show ?thesis by simp
  qed
qed

lemma scan_all: "at s i \<Longrightarrow> \<exists>s'. tbl_seek_first T s = Some s' \<and> iter_scan T (length es) s' = Some es"
  using seek_first [of s i] scan_at [of _ 0] by fastforce

end

section \<open>The empty iterator\<close>

record emptyiter =
  ei_status :: status

definition ldb_emptyiter_create :: "status \<Rightarrow> emptyiter" where
  "ldb_emptyiter_create status = \<lparr>ei_status = status\<rparr>"

definition ldb_emptyiter_valid :: "emptyiter \<Rightarrow> bool" where
  "ldb_emptyiter_valid iter = False"

definition ldb_emptyiter_seek :: "emptyiter \<Rightarrow> bytes \<Rightarrow> emptyiter option" where
  "ldb_emptyiter_seek iter target = Some iter"

definition ldb_emptyiter_seek_first :: "emptyiter \<Rightarrow> emptyiter option" where
  "ldb_emptyiter_seek_first iter = Some iter"

definition ldb_emptyiter_seek_last :: "emptyiter \<Rightarrow> emptyiter option" where
  "ldb_emptyiter_seek_last iter = Some iter"

definition ldb_emptyiter_next :: "emptyiter \<Rightarrow> emptyiter option" where
  "ldb_emptyiter_next iter = Some iter"

definition ldb_emptyiter_prev :: "emptyiter \<Rightarrow> emptyiter option" where
  "ldb_emptyiter_prev iter = Some iter"

definition ldb_emptyiter_key :: "emptyiter \<Rightarrow> bytes option" where
  "ldb_emptyiter_key iter = None"

definition ldb_emptyiter_value :: "emptyiter \<Rightarrow> bytes option" where
  "ldb_emptyiter_value iter = None"

definition ldb_emptyiter_status :: "emptyiter \<Rightarrow> status" where
  "ldb_emptyiter_status iter = ei_status iter"

definition ldb_emptyiter_table :: "emptyiter itertbl" where
  "ldb_emptyiter_table =
     \<lparr>tbl_valid = ldb_emptyiter_valid, tbl_seek_first = ldb_emptyiter_seek_first, tbl_seek_last = ldb_emptyiter_seek_last,
      tbl_seek = ldb_emptyiter_seek, tbl_next = ldb_emptyiter_next, tbl_prev = ldb_emptyiter_prev,
      tbl_key = ldb_emptyiter_key, tbl_value = ldb_emptyiter_value, tbl_status = Some \<circ> ldb_emptyiter_status\<rparr>"

lemmas emptyiter_defs = ldb_emptyiter_table_def ldb_emptyiter_create_def ldb_emptyiter_valid_def ldb_emptyiter_seek_def
  ldb_emptyiter_seek_first_def ldb_emptyiter_seek_last_def ldb_emptyiter_next_def ldb_emptyiter_prev_def
  ldb_emptyiter_key_def ldb_emptyiter_value_def ldb_emptyiter_status_def

interpretation empty_cursor: cursor ldb_emptyiter_table cmp "[]" "\<lambda>s i. s = ldb_emptyiter_create LDB_OK \<and> i = 0" "\<lambda>_. True" for cmp
  by unfold_locales (auto simp: emptyiter_defs first_ge_def)

end
