(* ===== verification/IterWrapper.thy ===== *)
theory IterWrapper
  imports Iter
begin

text \<open>
  The iterator wrapper (\<^verbatim>\<open>src/src/table/iterator_wrapper.h\<close>), which caches whether an iterator is valid and
  the key it stands at. An iterator is its function table with the state the table works on.
\<close>

type_synonym 's iter = "'s itertbl \<times> 's"

record 's wrapiter =
  wi_iter :: "'s iter option"
  wi_valid :: bool
  wi_key :: bytes

definition ldb_wrapiter_update :: "'s wrapiter \<Rightarrow> 's wrapiter option" where
  "ldb_wrapiter_update wrap =
     do { (T, s) \<leftarrow> wi_iter wrap;
          let wrap = wrap\<lparr>wi_valid := tbl_valid T s\<rparr> in
          if wi_valid wrap then do { k \<leftarrow> tbl_key T s; Some (wrap\<lparr>wi_key := k\<rparr>) } else Some wrap }"

definition ldb_wrapiter_init :: "'s iter option \<Rightarrow> 's wrapiter option" where
  "ldb_wrapiter_init iter =
     (let wrap = \<lparr>wi_iter = iter, wi_valid = False, wi_key = []\<rparr> in
      if wi_iter wrap \<noteq> None then ldb_wrapiter_update wrap else Some wrap)"

definition ldb_wrapiter_set :: "'s wrapiter \<Rightarrow> 's iter option \<Rightarrow> 's wrapiter option" where
  "ldb_wrapiter_set wrap iter =
     (let wrap = wrap\<lparr>wi_iter := iter, wi_valid := False\<rparr> in
      if wi_iter wrap \<noteq> None then ldb_wrapiter_update wrap else Some wrap)"

definition ldb_wrapiter_valid :: "'s wrapiter \<Rightarrow> bool" where
  "ldb_wrapiter_valid wrap = wi_valid wrap"

definition ldb_wrapiter_seek :: "'s wrapiter \<Rightarrow> bytes \<Rightarrow> 's wrapiter option" where
  "ldb_wrapiter_seek wrap k =
     do { (T, s) \<leftarrow> wi_iter wrap; s \<leftarrow> tbl_seek T s k; ldb_wrapiter_update (wrap\<lparr>wi_iter := Some (T, s)\<rparr>) }"

definition ldb_wrapiter_seek_first :: "'s wrapiter \<Rightarrow> 's wrapiter option" where
  "ldb_wrapiter_seek_first wrap =
     do { (T, s) \<leftarrow> wi_iter wrap; s \<leftarrow> tbl_seek_first T s; ldb_wrapiter_update (wrap\<lparr>wi_iter := Some (T, s)\<rparr>) }"

definition ldb_wrapiter_seek_last :: "'s wrapiter \<Rightarrow> 's wrapiter option" where
  "ldb_wrapiter_seek_last wrap =
     do { (T, s) \<leftarrow> wi_iter wrap; s \<leftarrow> tbl_seek_last T s; ldb_wrapiter_update (wrap\<lparr>wi_iter := Some (T, s)\<rparr>) }"

definition ldb_wrapiter_next :: "'s wrapiter \<Rightarrow> 's wrapiter option" where
  "ldb_wrapiter_next wrap =
     do { (T, s) \<leftarrow> wi_iter wrap; s \<leftarrow> tbl_next T s; ldb_wrapiter_update (wrap\<lparr>wi_iter := Some (T, s)\<rparr>) }"

definition ldb_wrapiter_prev :: "'s wrapiter \<Rightarrow> 's wrapiter option" where
  "ldb_wrapiter_prev wrap =
     do { (T, s) \<leftarrow> wi_iter wrap; s \<leftarrow> tbl_prev T s; ldb_wrapiter_update (wrap\<lparr>wi_iter := Some (T, s)\<rparr>) }"

definition ldb_wrapiter_key :: "'s wrapiter \<Rightarrow> bytes option" where
  "ldb_wrapiter_key wrap = (if ldb_wrapiter_valid wrap then Some (wi_key wrap) else None)"

definition ldb_wrapiter_value :: "'s wrapiter \<Rightarrow> bytes option" where
  "ldb_wrapiter_value wrap =
     (if ldb_wrapiter_valid wrap then do { (T, s) \<leftarrow> wi_iter wrap; tbl_value T s } else None)"

definition ldb_wrapiter_status :: "'s wrapiter \<Rightarrow> status option" where
  "ldb_wrapiter_status wrap = do { (T, s) \<leftarrow> wi_iter wrap; tbl_status T s }"

section \<open>Wrapped iterators\<close>

text \<open>A wrapper around an iterator that meets the contract: its cache is up to date.\<close>

context cursor
begin

definition wrap_at :: "'s wrapiter \<Rightarrow> nat \<Rightarrow> bool" where
  "wrap_at w p \<longleftrightarrow> (\<exists>s. wi_iter w = Some (T, s) \<and> at s p) \<and> p \<le> length es \<and> wi_valid w = (p < length es)
     \<and> (p < length es \<longrightarrow> wi_key w = fst (es ! p))"

lemma wrap_update: "at s p \<Longrightarrow> \<exists>w'. ldb_wrapiter_update (w\<lparr>wi_iter := Some (T, s)\<rparr>) = Some w' \<and> wrap_at w' p"
  using at_le [of s p] at_valid [of s p] at_key [of s p] by (auto simp: ldb_wrapiter_update_def wrap_at_def)

lemma wrap_init: "at s p \<Longrightarrow> \<exists>w. ldb_wrapiter_init (Some (T, s)) = Some w \<and> wrap_at w p"
  using wrap_update [of s p "\<lparr>wi_iter = None, wi_valid = False, wi_key = []\<rparr>"] by (simp add: ldb_wrapiter_init_def)

lemma wrap_set: "at s p \<Longrightarrow> \<exists>w'. ldb_wrapiter_set w (Some (T, s)) = Some w' \<and> wrap_at w' p"
  using wrap_update [of s p "w\<lparr>wi_valid := False\<rparr>"] by (cases w) (simp add: ldb_wrapiter_set_def)

lemma wrap_valid: "wrap_at w p \<Longrightarrow> ldb_wrapiter_valid w \<longleftrightarrow> p < length es"
  by (simp add: wrap_at_def ldb_wrapiter_valid_def)

lemma wrap_key: "wrap_at w p \<Longrightarrow> p < length es \<Longrightarrow> ldb_wrapiter_key w = Some (fst (es ! p))"
  by (simp add: wrap_at_def ldb_wrapiter_key_def ldb_wrapiter_valid_def)

lemma wrap_value: "wrap_at w p \<Longrightarrow> p < length es \<Longrightarrow> ldb_wrapiter_value w = Some (snd (es ! p))"
  using at_value by (auto simp: wrap_at_def ldb_wrapiter_value_def ldb_wrapiter_valid_def)

lemma wrap_status: "wrap_at w p \<Longrightarrow> ldb_wrapiter_status w = Some LDB_OK"
  using at_status by (auto simp: wrap_at_def ldb_wrapiter_status_def)

lemma wrap_seek_first: "wrap_at w p \<Longrightarrow> \<exists>w'. ldb_wrapiter_seek_first w = Some w' \<and> wrap_at w' 0"
  using seek_first wrap_update by (fastforce simp: wrap_at_def ldb_wrapiter_seek_first_def)

lemma wrap_seek_last: "wrap_at w p \<Longrightarrow> \<exists>w'. ldb_wrapiter_seek_last w = Some w' \<and> wrap_at w' (length es - 1)"
  using seek_last wrap_update by (fastforce simp: wrap_at_def ldb_wrapiter_seek_last_def)

lemma wrap_seek:
  "wrap_at w p \<Longrightarrow> target_ok t \<Longrightarrow> \<exists>w'. ldb_wrapiter_seek w t = Some w' \<and> wrap_at w' (first_ge cmp es t)"
  using seek wrap_update by (fastforce simp: wrap_at_def ldb_wrapiter_seek_def)

lemma wrap_next: "wrap_at w p \<Longrightarrow> p < length es \<Longrightarrow> \<exists>w'. ldb_wrapiter_next w = Some w' \<and> wrap_at w' (p + 1)"
  using next_step wrap_update by (fastforce simp: wrap_at_def ldb_wrapiter_next_def)

lemma wrap_prev: "wrap_at w p \<Longrightarrow> p < length es \<Longrightarrow>
    \<exists>w'. ldb_wrapiter_prev w = Some w' \<and> wrap_at w' (if p = 0 then length es else p - 1)"
  using prev_step wrap_update by (fastforce simp: wrap_at_def ldb_wrapiter_prev_def)

end

end
