(* ===== verification/BlockBuilder.thy ===== *)
theory BlockBuilder
  imports Iter
begin

text \<open>
  Block builders (\<^verbatim>\<open>src/src/table/block_builder.c\<close>): entries with the prefix they share with the previous
  key left out, a restart point every few entries, and the array of restart offsets at the end. The
  theory also states what the image of a block is, which the block reader is verified against.
\<close>

section \<open>The builder\<close>

record blockbuilder =
  bb_interval :: nat
  bb_buffer :: bytes
  bb_restarts :: "nat list"
  bb_counter :: nat
  bb_finished :: bool
  bb_last_key :: bytes

definition ldb_blockbuilder_init :: "nat \<Rightarrow> blockbuilder" where
  "ldb_blockbuilder_init interval =
     \<lparr>bb_interval = interval, bb_buffer = [], bb_restarts = [0], bb_counter = 0, bb_finished = False, bb_last_key = []\<rparr>"

definition ldb_blockbuilder_reset :: "blockbuilder \<Rightarrow> blockbuilder" where
  "ldb_blockbuilder_reset bb =
     bb\<lparr>bb_buffer := [], bb_restarts := [0], bb_counter := 0, bb_finished := False, bb_last_key := []\<rparr>"

definition ldb_blockbuilder_empty :: "blockbuilder \<Rightarrow> bool" where
  "ldb_blockbuilder_empty bb \<longleftrightarrow> length (bb_buffer bb) = 0"

function bb_shared_loop :: "bytes \<Rightarrow> bytes \<Rightarrow> nat \<Rightarrow> nat" where
  "bb_shared_loop lst key shared =
     (let min_length = min (length lst) (length key) in
      if shared < min_length \<and> lst ! shared = key ! shared then bb_shared_loop lst key (shared + 1) else shared)"
  by pat_completeness auto
termination
  by (relation "measure (\<lambda>(lst, key, shared). length key - shared)") auto

declare bb_shared_loop.simps [simp del]

definition ldb_blockbuilder_add_assert :: "(bytes \<Rightarrow> bytes \<Rightarrow> int) \<Rightarrow> blockbuilder \<Rightarrow> bytes \<Rightarrow> bool" where
  "ldb_blockbuilder_add_assert cmp bb key \<longleftrightarrow>
     \<not> bb_finished bb \<and> bb_counter bb \<le> bb_interval bb
     \<and> (ldb_blockbuilder_empty bb \<or> cmp key (bb_last_key bb) > 0)"

definition ldb_blockbuilder_add :: "blockbuilder \<Rightarrow> bytes \<Rightarrow> bytes \<Rightarrow> blockbuilder" where
  "ldb_blockbuilder_add bb key value =
     (let (shared, bb) =
        (if bb_counter bb < bb_interval bb then (bb_shared_loop (bb_last_key bb) key 0, bb)
         else (0, bb\<lparr>bb_restarts := bb_restarts bb @ [length (bb_buffer bb)], bb_counter := 0\<rparr>));
          non_shared = length key - shared;
          buf = bb_buffer bb @ ldb_varint32_write (word_of_nat shared);
          buf = buf @ ldb_varint32_write (word_of_nat non_shared);
          buf = buf @ ldb_varint32_write (word_of_nat (length value));
          buf = buf @ drop shared key;
          buf = buf @ value
      in bb\<lparr>bb_buffer := buf, bb_last_key := take shared (bb_last_key bb) @ drop shared key,
            bb_counter := bb_counter bb + 1\<rparr>)"

definition ldb_blockbuilder_finish :: "blockbuilder \<Rightarrow> blockbuilder" where
  "ldb_blockbuilder_finish bb =
     (let buf = foldl (\<lambda>buf x. buf @ ldb_fixed32_write (word_of_nat x)) (bb_buffer bb) (bb_restarts bb);
          buf = buf @ ldb_fixed32_write (word_of_nat (length (bb_restarts bb)))
      in bb\<lparr>bb_buffer := buf, bb_finished := True\<rparr>)"

definition ldb_blockbuilder_size_estimate :: "blockbuilder \<Rightarrow> nat" where
  "ldb_blockbuilder_size_estimate bb = length (bb_buffer bb) + length (bb_restarts bb) * 4 + 4"

section \<open>The image of a block\<close>

text \<open>
  A block holds entries \<^term>\<open>es\<close>; entry \<^term>\<open>i\<close> leaves out the first \<^term>\<open>sh ! i\<close> bytes of its key, which
  the key before it has too. The restart points are the entries \<^term>\<open>rs\<close>, which leave out nothing.
\<close>

definition entry_bytes :: "nat \<Rightarrow> kv \<Rightarrow> bytes" where
  "entry_bytes s e = ldb_varint32_write (word_of_nat s) @ ldb_varint32_write (word_of_nat (length (fst e) - s))
     @ ldb_varint32_write (word_of_nat (length (snd e))) @ drop s (fst e) @ snd e"

definition entries_bytes :: "kv list \<Rightarrow> nat list \<Rightarrow> bytes" where
  "entries_bytes es sh = concat (map2 entry_bytes sh es)"

definition entry_off :: "kv list \<Rightarrow> nat list \<Rightarrow> nat \<Rightarrow> nat" where
  "entry_off es sh i = length (entries_bytes (take i es) (take i sh))"

definition shares_ok :: "kv list \<Rightarrow> nat list \<Rightarrow> bool" where
  "shares_ok es sh \<longleftrightarrow> length sh = length es
     \<and> (\<forall>i < length es. sh ! i \<le> length (fst (es ! i))
         \<and> (if i = 0 then sh ! i = 0
            else sh ! i \<le> length (fst (es ! (i - 1))) \<and> take (sh ! i) (fst (es ! i)) = take (sh ! i) (fst (es ! (i - 1)))))"

definition restarts_ok :: "kv list \<Rightarrow> nat list \<Rightarrow> nat list \<Rightarrow> bool" where
  "restarts_ok es sh rs \<longleftrightarrow> rs \<noteq> [] \<and> rs ! 0 = 0 \<and> sorted_wrt (<) rs
     \<and> (\<forall>r \<in> set rs. r = 0 \<or> r < length es \<and> sh ! r = 0)"

definition block_image :: "kv list \<Rightarrow> nat list \<Rightarrow> nat list \<Rightarrow> bytes" where
  "block_image es sh rs =
     entries_bytes es sh @ fixed32_array (map (entry_off es sh) rs) @ ldb_fixed32_write (word_of_nat (length rs))"

lemma entries_bytes_snoc:
  "length sh = length es \<Longrightarrow> entries_bytes (es @ [e]) (sh @ [s]) = entries_bytes es sh @ entry_bytes s e"
  by (simp add: entries_bytes_def)

lemma entry_off_snoc: "length sh = length es \<Longrightarrow> i \<le> length es \<Longrightarrow> entry_off (es @ [e]) (sh @ [s]) i = entry_off es sh i"
  by (simp add: entry_off_def)

lemma entry_off_all: "length sh = length es \<Longrightarrow> entry_off es sh (length es) = length (entries_bytes es sh)"
  by (simp add: entry_off_def)

section \<open>Sharing\<close>

lemma bb_shared_loop_props:
  "take n lst = take n key \<Longrightarrow> n \<le> length lst \<Longrightarrow> n \<le> length key \<Longrightarrow>
     (let s = bb_shared_loop lst key n in
      s \<le> length lst \<and> s \<le> length key \<and> take s lst = take s key
      \<and> (s < length lst \<and> s < length key \<longrightarrow> lst ! s \<noteq> key ! s))"
proof (induction lst key n rule: bb_shared_loop.induct)
  case (1 lst key n)
  show ?case
  proof (cases "n < min (length lst) (length key) \<and> lst ! n = key ! n")
    case True
    then have "take (n + 1) lst = take (n + 1) key"
      using "1.prems" by (simp add: take_Suc_conv_app_nth)
    with "1.IH" [OF refl True] True show ?thesis by (subst (1) bb_shared_loop.simps) (simp add: Let_def)
  next
    case False
    with "1.prems" show ?thesis by (subst bb_shared_loop.simps) (auto simp: Let_def)
  qed
qed

section \<open>The builder builds images\<close>

definition bb_state :: "blockbuilder \<Rightarrow> kv list \<Rightarrow> nat list \<Rightarrow> nat list \<Rightarrow> bool" where
  "bb_state bb es sh rs \<longleftrightarrow> shares_ok es sh \<and> restarts_ok es sh rs
     \<and> bb_buffer bb = entries_bytes es sh \<and> bb_restarts bb = map (entry_off es sh) rs
     \<and> bb_last_key bb = (if es = [] then [] else fst (last es))
     \<and> bb_counter bb \<le> bb_interval bb \<and> \<not> bb_finished bb \<and> 1 \<le> bb_interval bb
     \<and> length es = last rs + bb_counter bb"

lemma bb_state_init: "1 \<le> n \<Longrightarrow> bb_state (ldb_blockbuilder_init n) [] [] [0]"
  by (simp add: bb_state_def ldb_blockbuilder_init_def shares_ok_def restarts_ok_def entries_bytes_def entry_off_def)

lemma bb_state_reset: "bb_state bb es sh rs \<Longrightarrow> bb_state (ldb_blockbuilder_reset bb) [] [] [0]"
  by (simp add: bb_state_def ldb_blockbuilder_reset_def shares_ok_def restarts_ok_def entries_bytes_def entry_off_def)

lemma shares_ok_snoc:
  assumes "shares_ok es sh" "s \<le> length (fst e)"
    "if es = [] then s = 0 else s \<le> length (fst (last es)) \<and> take s (fst e) = take s (fst (last es))"
  shows "shares_ok (es @ [e]) (sh @ [s])"
proof -
  have "length sh = length es" using assms(1) by (simp add: shares_ok_def)
  with assms show ?thesis unfolding shares_ok_def
    by (auto simp: nth_append last_conv_nth less_Suc_eq split: if_splits)
qed

lemma restarts_ok_snoc_same: "restarts_ok es sh rs \<Longrightarrow> length sh = length es \<Longrightarrow> restarts_ok (es @ [e]) (sh @ [s]) rs"
  unfolding restarts_ok_def by (auto simp: nth_append)

lemma restarts_bound: "restarts_ok es sh rs \<Longrightarrow> r \<in> set rs \<Longrightarrow> r \<le> length es"
  unfolding restarts_ok_def by fastforce

lemma bb_state_add:
  assumes st: "bb_state bb es sh rs"
  shows "\<exists>s rs'. bb_state (ldb_blockbuilder_add bb key value) (es @ [(key, value)]) (sh @ [s]) rs'"
proof -
  have sk: "shares_ok es sh" and rk: "restarts_ok es sh rs"
    using st by (simp_all add: bb_state_def)
  have len: "length sh = length es" using sk by (simp add: shares_ok_def)
  have buf: "bb_buffer bb = entries_bytes es sh" using st by (simp add: bb_state_def)
  have offs: "map (entry_off (es @ [e]) (sh @ [s])) rs = map (entry_off es sh) rs" for e s
    using restarts_bound [OF rk] len by (auto simp: entry_off_snoc)
  show ?thesis
  proof (cases "bb_counter bb < bb_interval bb")
    case True
    define s where "s = bb_shared_loop (bb_last_key bb) key 0"
    have s: "s \<le> length (bb_last_key bb)" "s \<le> length key" "take s (bb_last_key bb) = take s key"
      using bb_shared_loop_props [of 0 "bb_last_key bb" key] by (simp_all add: s_def Let_def)
    have add: "ldb_blockbuilder_add bb key value = bb\<lparr>bb_buffer := entries_bytes es sh @ entry_bytes s (key, value),
        bb_last_key := key, bb_counter := bb_counter bb + 1\<rparr>"
      using True buf s(3) by (simp add: ldb_blockbuilder_add_def Let_def entry_bytes_def flip: s_def)
    have "shares_ok (es @ [(key, value)]) (sh @ [s])"
      using s st by (intro shares_ok_snoc [OF sk]) (auto simp: bb_state_def)
    then have "bb_state (ldb_blockbuilder_add bb key value) (es @ [(key, value)]) (sh @ [s]) rs"
      using st True offs restarts_ok_snoc_same [OF rk len] len
      unfolding add bb_state_def by (simp add: entries_bytes_snoc)
    then show ?thesis by blast
  next
    case False
    then have cnt: "bb_counter bb = bb_interval bb" "1 \<le> bb_interval bb" "es \<noteq> []" "length es > last rs"
      using st by (auto simp: bb_state_def)
    have add: "ldb_blockbuilder_add bb key value = bb\<lparr>bb_buffer := entries_bytes es sh @ entry_bytes 0 (key, value),
        bb_restarts := bb_restarts bb @ [length (entries_bytes es sh)], bb_last_key := key, bb_counter := 1\<rparr>"
      using False buf by (simp add: ldb_blockbuilder_add_def Let_def entry_bytes_def)
    have "shares_ok (es @ [(key, value)]) (sh @ [0])"
      by (intro shares_ok_snoc [OF sk]) auto
    moreover have "restarts_ok (es @ [(key, value)]) (sh @ [0]) (rs @ [length es])"
    proof -
      have "rs \<noteq> []" "sorted_wrt (<) rs" using rk by (simp_all add: restarts_ok_def)
      then have "\<forall>r \<in> set rs. r \<le> last rs"
        by (induction rs) (auto simp: less_imp_le)
      with cnt(4) restarts_ok_snoc_same [OF rk len, of "(key, value)" 0] len show ?thesis
        unfolding restarts_ok_def by (auto simp: sorted_wrt_append nth_append)
    qed
    ultimately have "bb_state (ldb_blockbuilder_add bb key value) (es @ [(key, value)]) (sh @ [0]) (rs @ [length es])"
      using st cnt offs len entry_off_all [OF len] entry_off_snoc [OF len order_refl] unfolding add bb_state_def
      by (simp add: entries_bytes_snoc)
    then show ?thesis by blast
  qed
qed

lemma bb_state_add_all:
  "bb_state bb es sh rs \<Longrightarrow>
     \<exists>sh' rs'. bb_state (foldl (\<lambda>bb (k, v). ldb_blockbuilder_add bb k v) bb xs) (es @ xs) sh' rs'"
proof (induction xs arbitrary: bb es sh rs)
  case (Cons x xs)
  obtain k v where x: "x = (k, v)" by (cases x)
  from bb_state_add [OF Cons.prems] obtain s rs' where
    "bb_state (ldb_blockbuilder_add bb k v) (es @ [(k, v)]) (sh @ [s]) rs'" by blast
  from Cons.IH [OF this] x show ?case by simp
qed auto

lemma bb_finish_image:
  "bb_state bb es sh rs \<Longrightarrow> bb_buffer (ldb_blockbuilder_finish bb) = block_image es sh rs"
  by (simp add: bb_state_def ldb_blockbuilder_finish_def Let_def foldl_fixed32_array block_image_def)

lemma bb_size_estimate:
  "bb_state bb es sh rs \<Longrightarrow> ldb_blockbuilder_size_estimate bb = length (bb_buffer (ldb_blockbuilder_finish bb))"
  by (simp add: bb_finish_image) (simp add: bb_state_def ldb_blockbuilder_size_estimate_def block_image_def)

end
