(* ===== verification/Block.thy ===== *)
theory Block
  imports BlockBuilder
begin

text \<open>
  Blocks of a table (\<^verbatim>\<open>src/src/table/block.c\<close>): the restart array, the decoder of entries and the block
  iterator. Positions in the block are natural numbers; where the source keeps them in 32 bits, the
  conversion is written out. Results are \<^term>\<open>None\<close> when an assertion fails, when memory outside the block
  is read, or when a loop does not end.
\<close>

section \<open>Blocks\<close>

record block =
  bl_data :: bytes
  bl_size :: nat
  bl_restart_offset :: nat
  bl_owned :: bool

definition ldb_block_restarts :: "block \<Rightarrow> u32" where
  "ldb_block_restarts block = ldb_fixed32_decode (drop (bl_size block - 4) (bl_data block))"

definition ldb_block_init :: "bytes \<Rightarrow> bool \<Rightarrow> block" where
  "ldb_block_init contents heap_allocated =
     (let block = \<lparr>bl_data = contents, bl_size = length contents, bl_restart_offset = 0, bl_owned = heap_allocated\<rparr> in
      if bl_size block < 4 then block\<lparr>bl_size := 0\<rparr>
      else
        (let max_restarts_allowed = (bl_size block - 4) div 4 in
         if unat (ldb_block_restarts block) > max_restarts_allowed then block\<lparr>bl_size := 0\<rparr>
         else block\<lparr>bl_restart_offset := (bl_size block - unat ((1 + ldb_block_restarts block) * 4)) mod 2 ^ 32\<rparr>))"

text \<open>
  \<^verbatim>\<open>ldb_decode_entry\<close> on the bytes between the positions \<^term>\<open>xp\<close> and \<^term>\<open>limit\<close>: the three lengths and
  the position after them. The last check adds two 32-bit lengths, and the sum may wrap around.
\<close>

definition decode_lengths :: "bytes \<Rightarrow> (u32 \<times> u32 \<times> u32 \<times> bytes) option" where
  "decode_lengths x =
     (let shared = ucast (x ! 0); non_shared = ucast (x ! 1); value_length = ucast (x ! 2) in
      if (shared OR non_shared OR value_length) < (128 :: u32)
      then Some (shared, non_shared, value_length, drop 3 x)
      else
        do { (shared, x) \<leftarrow> ldb_varint32_read x;
             (non_shared, x) \<leftarrow> ldb_varint32_read x;
             (value_length, x) \<leftarrow> ldb_varint32_read x;
             Some (shared, non_shared, value_length, x) })"

definition ldb_decode_entry :: "bytes \<Rightarrow> nat \<Rightarrow> nat \<Rightarrow> (u32 \<times> u32 \<times> u32 \<times> nat) option" where
  "ldb_decode_entry mem xp limit =
     (if limit < xp then None
      else if limit - xp < 3 then None
      else
        (case decode_lengths (take (limit - xp) (drop xp mem)) of
           None \<Rightarrow> None
         | Some (shared, non_shared, value_length, rest) \<Rightarrow>
             if length rest < unat (non_shared + value_length) then None
             else Some (shared, non_shared, value_length, limit - length rest)))"

section \<open>Block iterators\<close>

text \<open>The value is a slice into the block: the position of its first byte and its length.\<close>

record blockiter =
  bi_comparator :: comparator
  bi_data :: bytes
  bi_restarts :: nat
  bi_num_restarts :: nat
  bi_current :: nat
  bi_restart_index :: nat
  bi_key :: bytes
  bi_value :: "(nat \<times> nat) option"
  bi_status :: status

definition ldb_blockiter_compare :: "blockiter \<Rightarrow> bytes \<Rightarrow> bytes \<Rightarrow> int" where
  "ldb_blockiter_compare iter x y = compare (bi_comparator iter) x y"

definition ldb_blockiter_next_entry_offset :: "blockiter \<Rightarrow> nat option" where
  "ldb_blockiter_next_entry_offset iter = map_option (\<lambda>(p, n). (p + n) mod 2 ^ 32) (bi_value iter)"

definition ldb_blockiter_restart_point :: "blockiter \<Rightarrow> nat \<Rightarrow> nat option" where
  "ldb_blockiter_restart_point iter index =
     (if index < bi_num_restarts iter
      then Some (unat (ldb_fixed32_decode (drop (bi_restarts iter + index * 4) (bi_data iter)))) else None)"

definition ldb_blockiter_seek_restart :: "blockiter \<Rightarrow> nat \<Rightarrow> blockiter option" where
  "ldb_blockiter_seek_restart iter index =
     do { offset \<leftarrow> ldb_blockiter_restart_point iter index;
          Some (iter\<lparr>bi_key := [], bi_restart_index := index, bi_value := Some (offset, 0)\<rparr>) }"

definition ldb_blockiter_init :: "comparator \<Rightarrow> bytes \<Rightarrow> nat \<Rightarrow> nat \<Rightarrow> blockiter" where
  "ldb_blockiter_init comparator mem restarts num_restarts =
     \<lparr>bi_comparator = comparator, bi_data = mem, bi_restarts = restarts, bi_num_restarts = num_restarts,
      bi_current = restarts, bi_restart_index = num_restarts, bi_key = [], bi_value = None, bi_status = LDB_OK\<rparr>"

definition ldb_blockiter_corruption :: "blockiter \<Rightarrow> blockiter" where
  "ldb_blockiter_corruption iter =
     iter\<lparr>bi_current := bi_restarts iter, bi_restart_index := bi_num_restarts iter, bi_status := LDB_CORRUPTION,
          bi_key := [], bi_value := None\<rparr>"

definition ldb_blockiter_valid :: "blockiter \<Rightarrow> bool" where
  "ldb_blockiter_valid iter \<longleftrightarrow> bi_current iter < bi_restarts iter"

definition ldb_blockiter_status :: "blockiter \<Rightarrow> status" where
  "ldb_blockiter_status iter = bi_status iter"

definition block_read :: "bytes \<Rightarrow> nat \<Rightarrow> nat \<Rightarrow> bytes option" where
  "block_read mem p n = (if p + n \<le> length mem then Some (take n (drop p mem)) else None)"

definition ldb_blockiter_key :: "blockiter \<Rightarrow> bytes option" where
  "ldb_blockiter_key iter = (if ldb_blockiter_valid iter then Some (bi_key iter) else None)"

definition ldb_blockiter_value :: "blockiter \<Rightarrow> bytes option" where
  "ldb_blockiter_value iter =
     (if ldb_blockiter_valid iter then do { (p, n) \<leftarrow> bi_value iter; block_read (bi_data iter) p n } else None)"

text \<open>The loop that moves the restart index up to the restart block of the current entry.\<close>

function advance_restart :: "blockiter \<Rightarrow> nat \<Rightarrow> nat" where
  "advance_restart iter index =
     (if index + 1 < bi_num_restarts iter
         \<and> the (ldb_blockiter_restart_point iter (index + 1)) < bi_current iter
      then advance_restart iter (index + 1) else index)"
  by pat_completeness auto
termination
  by (relation "measure (\<lambda>(iter, index). bi_num_restarts iter - index)") auto

declare advance_restart.simps [simp del]

definition ldb_blockiter_parse_next_key :: "blockiter \<Rightarrow> (bool \<times> blockiter) option" where
  "ldb_blockiter_parse_next_key iter =
     do { current \<leftarrow> ldb_blockiter_next_entry_offset iter;
          let iter = iter\<lparr>bi_current := current\<rparr> in
          if current \<ge> bi_restarts iter then
            Some (False, iter\<lparr>bi_current := bi_restarts iter, bi_restart_index := bi_num_restarts iter\<rparr>)
          else
            (case ldb_decode_entry (bi_data iter) current (bi_restarts iter) of
               None \<Rightarrow> Some (False, ldb_blockiter_corruption iter)
             | Some (shared, non_shared, value_length, p) \<Rightarrow>
                 if length (bi_key iter) < unat shared then Some (False, ldb_blockiter_corruption iter)
                 else
                   do { delta \<leftarrow> block_read (bi_data iter) p (unat non_shared);
                        let iter = iter\<lparr>bi_key := take (unat shared) (bi_key iter) @ delta,
                                        bi_value := Some (p + unat non_shared, unat value_length)\<rparr> in
                        Some (True, iter\<lparr>bi_restart_index := advance_restart iter (bi_restart_index iter)\<rparr>) }) }"

definition ldb_blockiter_next :: "blockiter \<Rightarrow> blockiter option" where
  "ldb_blockiter_next iter =
     (if ldb_blockiter_valid iter then map_option snd (ldb_blockiter_parse_next_key iter) else None)"

text \<open>
  The two loops of \<^verbatim>\<open>ldb_blockiter_prev\<close>: the first one moves back to a restart point before the current
  entry, and reports in its flag whether there is one.
\<close>

function prev_restart_loop :: "blockiter \<Rightarrow> nat \<Rightarrow> (bool \<times> blockiter) option" where
  "prev_restart_loop iter original =
     do { point \<leftarrow> ldb_blockiter_restart_point iter (bi_restart_index iter);
          if point \<ge> original then
            if bi_restart_index iter = 0 then
              Some (False, iter\<lparr>bi_current := bi_restarts iter, bi_restart_index := bi_num_restarts iter\<rparr>)
            else prev_restart_loop (iter\<lparr>bi_restart_index := bi_restart_index iter - 1\<rparr>) original
          else Some (True, iter) }"
  by pat_completeness auto
termination
  by (relation "measure (\<lambda>(iter, original). bi_restart_index iter)") auto

declare prev_restart_loop.simps [simp del]

partial_function (option) scan_until_loop :: "blockiter \<Rightarrow> nat \<Rightarrow> blockiter option" where
  "scan_until_loop iter limit =
     do { (ok, iter) \<leftarrow> ldb_blockiter_parse_next_key iter;
          if ok then
            do { offset \<leftarrow> ldb_blockiter_next_entry_offset iter;
                 if offset < limit then scan_until_loop iter limit else Some iter }
          else Some iter }"

definition ldb_blockiter_prev :: "blockiter \<Rightarrow> blockiter option" where
  "ldb_blockiter_prev iter =
     (let original = bi_current iter in
      if ldb_blockiter_valid iter then
        do { (found, iter) \<leftarrow> prev_restart_loop iter original;
             if found then
               do { iter \<leftarrow> ldb_blockiter_seek_restart iter (bi_restart_index iter); scan_until_loop iter original }
             else Some iter }
      else None)"

text \<open>
  The binary search of \<^verbatim>\<open>ldb_blockiter_seek\<close> over the restart array; a damaged entry ends it with the
  iterator in the error state.
\<close>

partial_function (option) seek_search_loop :: "blockiter \<Rightarrow> bytes \<Rightarrow> nat \<Rightarrow> nat \<Rightarrow> (blockiter + nat) option" where
  "seek_search_loop iter target left right =
     (if left < right then
        (let mid = ((left + right + 1) mod 2 ^ 32) div 2 in
         do { region_offset \<leftarrow> ldb_blockiter_restart_point iter mid;
              case ldb_decode_entry (bi_data iter) region_offset (bi_restarts iter) of
                None \<Rightarrow> Some (Inl (ldb_blockiter_corruption iter))
              | Some (shared, non_shared, value_length, p) \<Rightarrow>
                  if shared \<noteq> 0 then Some (Inl (ldb_blockiter_corruption iter))
                  else
                    do { mid_key \<leftarrow> block_read (bi_data iter) p (unat non_shared);
                         if ldb_blockiter_compare iter mid_key target < 0
                         then seek_search_loop iter target mid right
                         else seek_search_loop iter target left (mid - 1) } })
      else Some (Inr left))"

partial_function (option) seek_scan_loop :: "blockiter \<Rightarrow> bytes \<Rightarrow> blockiter option" where
  "seek_scan_loop iter target =
     do { (ok, iter) \<leftarrow> ldb_blockiter_parse_next_key iter;
          if ok then
            if ldb_blockiter_compare iter (bi_key iter) target \<ge> 0 then Some iter else seek_scan_loop iter target
          else Some iter }"

definition ldb_blockiter_seek :: "blockiter \<Rightarrow> bytes \<Rightarrow> blockiter option" where
  "ldb_blockiter_seek iter target =
     (let current_key_compare =
        (if ldb_blockiter_valid iter then ldb_blockiter_compare iter (bi_key iter) target else 0) in
      if ldb_blockiter_valid iter \<and> current_key_compare = 0 then Some iter
      else
        (let left = (if current_key_compare < 0 then bi_restart_index iter else 0);
             right = (if current_key_compare > 0 then bi_restart_index iter else bi_num_restarts iter - 1) in
         do { r \<leftarrow> seek_search_loop iter target left right;
              case r of
                Inl iter \<Rightarrow> Some iter
              | Inr left \<Rightarrow>
                  (let skip_seek = (left = bi_restart_index iter \<and> current_key_compare < 0) in
                   do { iter \<leftarrow> (if skip_seek then Some iter else ldb_blockiter_seek_restart iter left);
                        seek_scan_loop iter target }) }))"

definition ldb_blockiter_seek_first :: "blockiter \<Rightarrow> blockiter option" where
  "ldb_blockiter_seek_first iter =
     do { iter \<leftarrow> ldb_blockiter_seek_restart iter 0; map_option snd (ldb_blockiter_parse_next_key iter) }"

definition ldb_blockiter_seek_last :: "blockiter \<Rightarrow> blockiter option" where
  "ldb_blockiter_seek_last iter =
     do { iter \<leftarrow> ldb_blockiter_seek_restart iter (bi_num_restarts iter - 1);
          scan_until_loop iter (bi_restarts iter) }"

definition ldb_blockiter_table :: "blockiter itertbl" where
  "ldb_blockiter_table =
     \<lparr>tbl_valid = ldb_blockiter_valid, tbl_seek_first = ldb_blockiter_seek_first, tbl_seek_last = ldb_blockiter_seek_last,
      tbl_seek = ldb_blockiter_seek, tbl_next = ldb_blockiter_next, tbl_prev = ldb_blockiter_prev,
      tbl_key = ldb_blockiter_key, tbl_value = ldb_blockiter_value, tbl_status = Some \<circ> ldb_blockiter_status\<rparr>"

text \<open>\<^verbatim>\<open>ldb_blockiter_create\<close> returns an empty iterator with a status, or a block iterator.\<close>

definition ldb_blockiter_create :: "block \<Rightarrow> comparator \<Rightarrow> emptyiter + blockiter" where
  "ldb_blockiter_create block comparator =
     (if bl_size block < 4 then Inl (ldb_emptyiter_create LDB_CORRUPTION)
      else
        (let num_restarts = ldb_block_restarts block in
         if num_restarts = 0 then Inl (ldb_emptyiter_create LDB_OK)
         else Inr (ldb_blockiter_init comparator (bl_data block) (bl_restart_offset block) (unat num_restarts))))"

section \<open>Decoding an entry\<close>

lemma less_128_iff: "(w :: u32) < 128 \<longleftrightarrow> take_bit 7 w = w"
proof -
  have "take_bit 7 w = w \<longleftrightarrow> unat w mod 128 = unat w"
    by (simp add: word_unat_eq_iff unat_take_bit_nat)
  moreover have "unat w mod 128 = unat w \<longleftrightarrow> unat w < 128"
    by (metis mod_less mod_less_divisor zero_less_numeral)
  ultimately show ?thesis by (simp add: word_less_nat_alt)
qed

lemma or_less_128: "(a :: u32) < 128 \<Longrightarrow> b < 128 \<Longrightarrow> a OR b < 128"
  by (simp add: less_128_iff)

lemma bit_7_not_less: "bit (w :: u32) 7 \<Longrightarrow> \<not> w < 128"
  by (metis bit_take_bit_iff less_128_iff less_irrefl)

lemma varint32_small: "unat x < 128 \<Longrightarrow> ldb_varint32_write x = [ucast x]"
  by (simp add: ldb_varint32_write_varint varint_last)

lemma varint32_first_bit: "128 \<le> unat x \<Longrightarrow> \<exists>b bs. ldb_varint32_write x = b # bs \<and> bit b 7"
  by (simp add: ldb_varint32_write_varint varint_step bit_simps)

lemma ucast_small_back: "unat (x :: u32) < 128 \<Longrightarrow> ucast (ucast x :: u8) = x"
  by (rule ucast_small) simp

lemma decode_lengths_write:
  "decode_lengths (ldb_varint32_write a @ ldb_varint32_write b @ ldb_varint32_write c @ rest) = Some (a, b, c, rest)"
proof (cases "unat a < 128 \<and> unat b < 128 \<and> unat c < 128")
  case True
  then have "a < 128" "b < 128" "c < 128" by (simp_all add: word_less_nat_alt)
  with True show ?thesis
    by (simp add: decode_lengths_def varint32_small ucast_small_back or_less_128)
next
  case False
  let ?x = "ldb_varint32_write a @ ldb_varint32_write b @ ldb_varint32_write c @ rest"
  from False consider "128 \<le> unat a" | "unat a < 128" "128 \<le> unat b" | "unat a < 128" "unat b < 128" "128 \<le> unat c"
    by linarith
  then have "bit (?x ! 0) 7 \<or> bit (?x ! 1) 7 \<or> bit (?x ! 2) 7"
    by cases (auto simp: varint32_small dest!: varint32_first_bit)
  then have "\<not> ((ucast (?x ! 0) :: u32) OR ucast (?x ! 1) OR ucast (?x ! 2)) < 128"
    by (intro bit_7_not_less) (auto simp: bit_or_iff)
  then show ?thesis by (simp add: decode_lengths_def Let_def)
qed

section \<open>Positions in an image\<close>

definition image_ok :: "kv list \<Rightarrow> nat list \<Rightarrow> nat list \<Rightarrow> bool" where
  "image_ok es sh rs \<longleftrightarrow> shares_ok es sh \<and> restarts_ok es sh rs \<and> length (block_image es sh rs) < 2 ^ 32"

lemma entries_bytes_split:
  assumes "length sh = length es" "i < length es"
  shows "entries_bytes es sh = entries_bytes (take i es) (take i sh) @ entry_bytes (sh ! i) (es ! i)
    @ entries_bytes (drop (Suc i) es) (drop (Suc i) sh)"
proof -
  have "zip sh es = take i (zip sh es) @ (sh ! i, es ! i) # drop (Suc i) (zip sh es)"
    using assms by (metis id_take_nth_drop length_zip min.idem nth_zip)
  then have "entries_bytes es sh = concat (map (case_prod entry_bytes) (take i (zip sh es) @ (sh ! i, es ! i) # drop (Suc i) (zip sh es)))"
    by (simp add: entries_bytes_def)
  then show ?thesis by (simp add: entries_bytes_def take_zip drop_zip)
qed

lemma entry_off_Suc:
  "length sh = length es \<Longrightarrow> i < length es \<Longrightarrow> entry_off es sh (Suc i) = entry_off es sh i + length (entry_bytes (sh ! i) (es ! i))"
  by (simp add: entry_off_def take_Suc_conv_app_nth entries_bytes_snoc)

lemma length_entry_bytes: "3 \<le> length (entry_bytes s e)"
  using length_ldb_varint32_write [of "word_of_nat s"] length_ldb_varint32_write [of "word_of_nat (length (fst e) - s)"]
    length_ldb_varint32_write [of "word_of_nat (length (snd e))"]
  by (simp add: entry_bytes_def Suc_le_eq numeral_3_eq_3 flip: length_greater_0_conv)

lemma entry_off_less:
  assumes "length sh = length es" "i < j" "j \<le> length es"
  shows "entry_off es sh i < entry_off es sh j"
  using assms(2,3)
proof (induction j)
  case (Suc j)
  have "entry_off es sh j < entry_off es sh (Suc j)"
    using entry_off_Suc [OF assms(1), of j] length_entry_bytes [of "sh ! j" "es ! j"] Suc.prems(2) by linarith
  with Suc show ?case by (cases "i = j") auto
qed simp

lemma entry_off_less_iff:
  "length sh = length es \<Longrightarrow> i \<le> length es \<Longrightarrow> j \<le> length es \<Longrightarrow> entry_off es sh i < entry_off es sh j \<longleftrightarrow> i < j"
  using entry_off_less [of sh es] by (metis linorder_neqE_nat less_asym less_irrefl)

lemma entry_off_le_all:
  "length sh = length es \<Longrightarrow> i \<le> length es \<Longrightarrow> entry_off es sh i \<le> length (entries_bytes es sh)"
  using entry_off_less [of sh es i "length es"] entry_off_all [of sh es] by (cases "i = length es") auto

lemma shares_okD:
  assumes "shares_ok es sh" "Suc i < length es"
  shows "sh ! Suc i \<le> length (fst (es ! i))" "take (sh ! Suc i) (fst (es ! Suc i)) = take (sh ! Suc i) (fst (es ! i))"
    "sh ! Suc i \<le> length (fst (es ! Suc i))"
  using assms unfolding shares_ok_def by (auto dest!: spec [of _ "Suc i"])

text \<open>Every byte of a key is stored in its own entry or in an earlier one.\<close>

lemma key_length_bound: "shares_ok es sh \<Longrightarrow> i < length es \<Longrightarrow> length (fst (es ! i)) \<le> entry_off es sh (Suc i)"
proof (induction i)
  case 0
  then have "sh ! 0 = 0" by (simp add: shares_ok_def)
  with 0 entry_off_Suc [of sh es 0] show ?case by (simp add: shares_ok_def entry_bytes_def)
next
  case (Suc i)
  then have "length (fst (es ! i)) \<le> entry_off es sh (Suc i)" by simp
  with shares_okD(1,3) [OF Suc.prems] Suc.prems entry_off_Suc [of sh es "Suc i"] show ?case by (simp add: shares_ok_def entry_bytes_def)
qed

lemma image_decode:
  assumes ok: "image_ok es sh rs" and i: "i < length es"
  defines "k \<equiv> fst (es ! i)" and "v \<equiv> snd (es ! i)" and "s \<equiv> sh ! i" and "e \<equiv> entry_off es sh (Suc i)"
  shows "ldb_decode_entry (block_image es sh rs) (entry_off es sh i) (length (entries_bytes es sh))
    = Some (word_of_nat s, word_of_nat (length k - s), word_of_nat (length v), e - length v - (length k - s))"
    and "unat (word_of_nat s :: u32) = s" "unat (word_of_nat (length k - s) :: u32) = length k - s"
    and "unat (word_of_nat (length v) :: u32) = length v"
    and "length v + (length k - s) \<le> e" "e \<le> length (entries_bytes es sh)"
    and "take (length k - s) (drop (e - length v - (length k - s)) (block_image es sh rs)) = drop s k"
    and "take (length v) (drop (e - length v) (block_image es sh rs)) = v"
proof -
  have len: "length sh = length es" and s: "s \<le> length k"
    using ok i by (auto simp: image_ok_def shares_ok_def s_def k_def)
  let ?L = "length (entries_bytes es sh)" and ?o = "entry_off es sh i"
  let ?A = "entries_bytes (take i es) (take i sh)" and ?B = "entries_bytes (drop (Suc i) es) (drop (Suc i) sh)"
  let ?R = "fixed32_array (map (entry_off es sh) rs) @ ldb_fixed32_write (word_of_nat (length rs))"
  let ?h = "ldb_varint32_write (word_of_nat s) @ ldb_varint32_write (word_of_nat (length k - s)) @ ldb_varint32_write (word_of_nat (length v))"
  have img: "block_image es sh rs = ?A @ (?h @ drop s k @ v) @ ?B @ ?R"
    using entries_bytes_split [OF len i] by (simp add: block_image_def entry_bytes_def k_def v_def s_def)
  have o: "length ?A = ?o" by (simp add: entry_off_def)
  have e: "e = ?o + length ?h + (length k - s) + length v"
    unfolding e_def entry_off_Suc [OF len i] by (simp add: entry_bytes_def k_def v_def s_def)
  have L: "?L = e + length ?B"
    using entries_bytes_split [OF len i] e o by (simp add: entry_bytes_def k_def v_def s_def)
  show "length v + (length k - s) \<le> e" "e \<le> ?L" using e L by simp_all
  have "?L < 2 ^ 32" using ok by (simp add: image_ok_def block_image_def)
  then have small: "length k - s < 2 ^ 32" "length v < 2 ^ 32" "(length k - s) + length v < 2 ^ 32"
    using e L by auto
  have "length k \<le> e" unfolding k_def e_def by (rule key_length_bound [OF _ i]) (use ok in \<open>simp add: image_ok_def\<close>)
  with s L \<open>?L < 2 ^ 32\<close> have s32: "s < 2 ^ 32" by linarith
  show us: "unat (word_of_nat s :: u32) = s" and un: "unat (word_of_nat (length k - s) :: u32) = length k - s"
    and uv: "unat (word_of_nat (length v) :: u32) = length v"
    using s32 small by (simp_all add: unat_of_nat take_bit_nat_eq_self)
  have sum: "unat (word_of_nat (length k - s) + word_of_nat (length v) :: u32) = (length k - s) + length v"
    using small(3) by (simp add: unat_of_nat take_bit_nat_eq_self flip: of_nat_add)
  have win: "take (?L - ?o) (drop ?o (block_image es sh rs)) = ?h @ (drop s k @ v @ ?B)"
    using o e L by (simp add: img)
  show "ldb_decode_entry (block_image es sh rs) ?o ?L
    = Some (word_of_nat s, word_of_nat (length k - s), word_of_nat (length v), e - length v - (length k - s))"
    unfolding ldb_decode_entry_def win using decode_lengths_write e L sum length_entry_bytes [of "sh ! i" "es ! i"]
    by (simp add: entry_bytes_def k_def v_def s_def)
  show "take (length k - s) (drop (e - length v - (length k - s)) (block_image es sh rs)) = drop s k"
    using o e by (simp add: img)
  show "take (length v) (drop (e - length v) (block_image es sh rs)) = v"
    using o e by (simp add: img)
qed

section \<open>Iterators on an image\<close>

definition on_image :: "comparator \<Rightarrow> kv list \<Rightarrow> nat list \<Rightarrow> nat list \<Rightarrow> blockiter \<Rightarrow> bool" where
  "on_image C es sh rs it \<longleftrightarrow> bi_comparator it = C \<and> bi_data it = block_image es sh rs
     \<and> bi_restarts it = length (entries_bytes es sh) \<and> bi_num_restarts it = length rs \<and> bi_status it = LDB_OK"

text \<open>The restart index of an iterator at entry \<^term>\<open>i\<close>: at a restart point it may still be the one before.\<close>

definition index_ok :: "nat list \<Rightarrow> nat \<Rightarrow> nat \<Rightarrow> bool" where
  "index_ok rs ri i \<longleftrightarrow> ri < length rs \<and> rs ! ri \<le> i \<and> (ri + 1 < length rs \<longrightarrow> i \<le> rs ! (ri + 1))"

definition block_at :: "comparator \<Rightarrow> kv list \<Rightarrow> nat list \<Rightarrow> nat list \<Rightarrow> blockiter \<Rightarrow> nat \<Rightarrow> bool" where
  "block_at C es sh rs it i \<longleftrightarrow> on_image C es sh rs it \<and> i \<le> length es
     \<and> (if i < length es
        then bi_current it = entry_off es sh i \<and> bi_key it = fst (es ! i)
          \<and> bi_value it = Some (entry_off es sh (Suc i) - length (snd (es ! i)), length (snd (es ! i)))
          \<and> index_ok rs (bi_restart_index it) i
        else bi_current it = length (entries_bytes es sh))"

text \<open>The iterator is set up to parse entry \<^term>\<open>i\<close> next.\<close>

definition block_ready :: "comparator \<Rightarrow> kv list \<Rightarrow> nat list \<Rightarrow> nat list \<Rightarrow> blockiter \<Rightarrow> nat \<Rightarrow> bool" where
  "block_ready C es sh rs it i \<longleftrightarrow> on_image C es sh rs it \<and> i \<le> length es
     \<and> ldb_blockiter_next_entry_offset it = Some (entry_off es sh i)
     \<and> (i < length es \<longrightarrow> sh ! i \<le> length (bi_key it) \<and> take (sh ! i) (bi_key it) = take (sh ! i) (fst (es ! i))
         \<and> bi_restart_index it < length rs \<and> rs ! bi_restart_index it \<le> i)"

lemma image_okD:
  assumes "image_ok es sh rs"
  shows "length sh = length es" "length (entries_bytes es sh) < 2 ^ 32" "length rs < 2 ^ 30" "rs \<noteq> []"
  using assms by (auto simp: image_ok_def shares_ok_def restarts_ok_def block_image_def)

lemma entry_off_bound: "image_ok es sh rs \<Longrightarrow> i \<le> length es \<Longrightarrow> entry_off es sh i < 2 ^ 32"
  using entry_off_le_all [of sh es i] image_okD [of es sh rs] by linarith

lemma restart_bound: "image_ok es sh rs \<Longrightarrow> j < length rs \<Longrightarrow> rs ! j \<le> length es"
  using restarts_bound [of es sh rs "rs ! j"] by (simp add: image_ok_def)

lemma restart_shared: "image_ok es sh rs \<Longrightarrow> j < length rs \<Longrightarrow> rs ! j < length es \<Longrightarrow> sh ! (rs ! j) = 0"
  unfolding image_ok_def restarts_ok_def shares_ok_def by (metis nth_mem)

lemma restart_in_block: "image_ok es sh rs \<Longrightarrow> j < length rs \<Longrightarrow> es \<noteq> [] \<Longrightarrow> rs ! j < length es"
  unfolding image_ok_def restarts_ok_def by (metis length_greater_0_conv nth_mem)

lemma restart_point_image:
  assumes "image_ok es sh rs" "on_image C es sh rs it" "j < length rs"
  shows "ldb_blockiter_restart_point it j = Some (entry_off es sh (rs ! j))"
proof -
  have "entry_off es sh (rs ! j) < 2 ^ 32" using assms restart_bound entry_off_bound by blast
  then have "unat (ldb_fixed32_decode (drop (j * 4) (fixed32_array (map (entry_off es sh) rs) @ ldb_fixed32_write (word_of_nat (length rs)))))
      = entry_off es sh (rs ! j)"
    using decode_fixed32_array [of j "map (entry_off es sh) rs"] assms(3) by simp
  with assms(2,3) show ?thesis by (simp add: ldb_blockiter_restart_point_def on_image_def block_image_def)
qed

lemma advance_restart_ok:
  assumes "image_ok es sh rs" "i < length es"
  shows "on_image C es sh rs it \<Longrightarrow> bi_current it = entry_off es sh i \<Longrightarrow> ri < length rs \<Longrightarrow> rs ! ri \<le> i \<Longrightarrow>
    index_ok rs (advance_restart it ri) i"
proof (induction it ri rule: advance_restart.induct)
  case (1 it ri)
  have num: "bi_num_restarts it = length rs" using "1.prems"(1) by (simp add: on_image_def)
  show ?case
  proof (cases "ri + 1 < length rs \<and> entry_off es sh (rs ! (ri + 1)) < entry_off es sh i")
    case True
    note point = restart_point_image [OF assms(1) "1.prems"(1), of "ri + 1"]
    have "rs ! (ri + 1) \<le> i"
      using True entry_off_less_iff [OF image_okD(1) [OF assms(1)], of "rs ! (ri + 1)" i] restart_bound [OF assms(1), of "ri + 1"] assms(2)
      by simp
    with "1.IH" "1.prems" True num point have "index_ok rs (advance_restart it (ri + 1)) i" by simp
    with True num point "1.prems"(2) show ?thesis by (subst advance_restart.simps) simp
  next
    case False
    have "i \<le> rs ! (ri + 1)" if "ri + 1 < length rs"
      using that False entry_off_less_iff [OF image_okD(1) [OF assms(1)], of "rs ! (ri + 1)" i] restart_bound [OF assms(1), of "ri + 1"] assms(2)
      by simp
    moreover have "advance_restart it ri = ri"
      using False num restart_point_image [OF assms(1) "1.prems"(1), of "ri + 1"] "1.prems"(2)
      by (subst advance_restart.simps) auto
    ultimately show ?thesis using "1.prems" by (simp add: index_ok_def)
  qed
qed

lemma parse_ready:
  assumes ok: "image_ok es sh rs" and r: "block_ready C es sh rs it i"
  shows "\<exists>it'. ldb_blockiter_parse_next_key it = Some (i < length es, it') \<and> block_at C es sh rs it' i"
proof -
  have on: "on_image C es sh rs it" and off: "ldb_blockiter_next_entry_offset it = Some (entry_off es sh i)"
    and le: "i \<le> length es" using r by (simp_all add: block_ready_def)
  have len: "length sh = length es" by (rule image_okD(1) [OF ok])
  show ?thesis
  proof (cases "i < length es")
    case False
    then have "i = length es" using le by simp
    with on off entry_off_all [OF len] show ?thesis
      by (simp add: ldb_blockiter_parse_next_key_def Let_def block_at_def on_image_def)
  next
    case True
    let ?k = "fst (es ! i)" and ?v = "snd (es ! i)" and ?s = "sh ! i" and ?e = "entry_off es sh (Suc i)"
    note d = image_decode [OF ok True]
    let ?p = "?e - length ?v - (length ?k - ?s)"
    have lt: "entry_off es sh i < length (entries_bytes es sh)"
      using entry_off_less [OF len True order_refl] entry_off_all [OF len] by simp
    have key: "?s \<le> length (bi_key it)" "take ?s (bi_key it) = take ?s ?k" and ri: "bi_restart_index it < length rs" "rs ! bi_restart_index it \<le> i"
      using r True by (simp_all add: block_ready_def)
    have rd: "block_read (block_image es sh rs) ?p (length ?k - ?s) = Some (drop ?s ?k)"
      using d(5,6,7) by (simp add: block_read_def block_image_def)
    define it1 where "it1 = it\<lparr>bi_current := entry_off es sh i, bi_key := ?k, bi_value := Some (?e - length ?v, length ?v)\<rparr>"
    have on1: "on_image C es sh rs it1" using on by (simp add: it1_def on_image_def)
    have "ldb_blockiter_parse_next_key it = Some (True, it1\<lparr>bi_restart_index := advance_restart it1 (bi_restart_index it)\<rparr>)"
      using on off lt d(1-5) key rd
      by (simp add: ldb_blockiter_parse_next_key_def Let_def on_image_def it1_def)
    moreover have "index_ok rs (advance_restart it1 (bi_restart_index it)) i"
      using advance_restart_ok [OF ok True on1 _ ri] by (simp add: it1_def)
    ultimately show ?thesis using on True by (simp add: block_at_def on_image_def it1_def)
  qed
qed

lemma at_ready:
  assumes ok: "image_ok es sh rs" and at: "block_at C es sh rs it i" and i: "i < length es"
  shows "block_ready C es sh rs it (Suc i)"
proof -
  have v: "length (snd (es ! i)) \<le> entry_off es sh (Suc i)" using image_decode(5) [OF ok i] by simp
  have "entry_off es sh (Suc i) < 2 ^ 32" using entry_off_bound [OF ok] i by simp
  with at i v have "ldb_blockiter_next_entry_offset it = Some (entry_off es sh (Suc i))"
    by (simp add: ldb_blockiter_next_entry_offset_def block_at_def)
  with at i shares_okD [of es sh i] ok show ?thesis
    by (simp add: block_ready_def block_at_def index_ok_def image_ok_def)
qed

lemma seek_restart_ready:
  assumes ok: "image_ok es sh rs" and on: "on_image C es sh rs it" and j: "j < length rs"
  shows "\<exists>it'. ldb_blockiter_seek_restart it j = Some it' \<and> block_ready C es sh rs it' (rs ! j)"
proof -
  have "entry_off es sh (rs ! j) < 2 ^ 32" using ok j restart_bound entry_off_bound by blast
  with restart_point_image [OF ok on j] on j restart_shared [OF ok j] restart_bound [OF ok j] show ?thesis
    by (simp add: ldb_blockiter_seek_restart_def block_ready_def on_image_def ldb_blockiter_next_entry_offset_def)
qed

lemma scan_until_ready:
  assumes ok: "image_ok es sh rs"
  shows "block_ready C es sh rs it r \<Longrightarrow> r < n \<Longrightarrow> n \<le> length es \<Longrightarrow>
    \<exists>it'. scan_until_loop it (entry_off es sh n) = Some it' \<and> block_at C es sh rs it' (n - 1)"
proof (induction "n - r" arbitrary: it r rule: less_induct)
  case less
  from parse_ready [OF ok less.prems(1)] less.prems obtain it1 where
    p: "ldb_blockiter_parse_next_key it = Some (True, it1)" "block_at C es sh rs it1 r" by auto
  have rd: "block_ready C es sh rs it1 (Suc r)" using at_ready [OF ok p(2)] less.prems by simp
  then have off: "ldb_blockiter_next_entry_offset it1 = Some (entry_off es sh (Suc r))" by (simp add: block_ready_def)
  have lt: "entry_off es sh (Suc r) < entry_off es sh n \<longleftrightarrow> Suc r < n"
    using entry_off_less_iff [OF image_okD(1) [OF ok]] less.prems by simp
  show ?case
  proof (cases "Suc r < n")
    case True
    with less.hyps [OF _ rd True less.prems(3)] p(1) off lt show ?thesis
      by (subst scan_until_loop.simps) simp
  next
    case False
    then have "r = n - 1" using less.prems by simp
    with False p off lt show ?thesis by (subst scan_until_loop.simps) simp
  qed
qed

lemma prev_restart_loop_image:
  assumes ok: "image_ok es sh rs" and i: "i < length es"
  shows "on_image C es sh rs it \<Longrightarrow> bi_restart_index it < length rs \<Longrightarrow>
    \<exists>it'. prev_restart_loop it (entry_off es sh i) = Some (i \<noteq> 0, it') \<and> on_image C es sh rs it'
      \<and> (if i = 0 then bi_current it' = length (entries_bytes es sh)
         else bi_restart_index it' < length rs \<and> rs ! bi_restart_index it' < i)"
proof (induction "bi_restart_index it" arbitrary: it)
  case 0
  have "rs ! 0 = 0" using ok by (simp add: image_ok_def restarts_ok_def)
  with 0 restart_point_image [OF ok "0.prems"(1), of 0] entry_off_less_iff [OF image_okD(1) [OF ok], of 0 i] i show ?case
    by (subst prev_restart_loop.simps) (auto simp: on_image_def)
next
  case (Suc j)
  let ?r = "rs ! Suc j"
  have idx: "bi_restart_index it = Suc j" using Suc.hyps(2) by simp
  note point = restart_point_image [OF ok Suc.prems(1), of "Suc j"]
  have less: "entry_off es sh ?r < entry_off es sh i \<longleftrightarrow> ?r < i"
    using entry_off_less_iff [OF image_okD(1) [OF ok], of ?r i] restart_bound [OF ok, of "Suc j"] Suc.prems(2) i idx by simp
  show ?case
  proof (cases "?r < i")
    case True
    with Suc.prems point less idx show ?thesis by (subst prev_restart_loop.simps) auto
  next
    case False
    have "\<exists>it'. prev_restart_loop (it\<lparr>bi_restart_index := j\<rparr>) (entry_off es sh i) = Some (i \<noteq> 0, it') \<and> on_image C es sh rs it'
      \<and> (if i = 0 then bi_current it' = length (entries_bytes es sh)
         else bi_restart_index it' < length rs \<and> rs ! bi_restart_index it' < i)"
      using Suc.hyps(1) [of "it\<lparr>bi_restart_index := j\<rparr>"] Suc.prems idx by (simp add: on_image_def)
    with False point less idx Suc.prems(2) show ?thesis by (subst prev_restart_loop.simps) simp
  qed
qed

lemma block_at_valid: "image_ok es sh rs \<Longrightarrow> block_at C es sh rs it i \<Longrightarrow> ldb_blockiter_valid it \<longleftrightarrow> i < length es"
  using entry_off_less [OF image_okD(1), of es sh rs i "length es"] entry_off_all [OF image_okD(1), of es sh rs]
  by (auto simp: ldb_blockiter_valid_def block_at_def on_image_def split: if_splits)

lemma block_at_invalid:
  "on_image C es sh rs it \<Longrightarrow> bi_current it = length (entries_bytes es sh) \<Longrightarrow> block_at C es sh rs it (length es)"
  by (simp add: block_at_def)

lemma blockiter_prev_at:
  assumes ok: "image_ok es sh rs" and at: "block_at C es sh rs it i" and i: "i < length es"
  shows "\<exists>it'. ldb_blockiter_prev it = Some it' \<and> block_at C es sh rs it' (if i = 0 then length es else i - 1)"
proof -
  have on: "on_image C es sh rs it" "bi_restart_index it < length rs" "bi_current it = entry_off es sh i"
    using at i by (simp_all add: block_at_def index_ok_def)
  obtain it1 where it1: "prev_restart_loop it (entry_off es sh i) = Some (i \<noteq> 0, it1)" "on_image C es sh rs it1"
    "if i = 0 then bi_current it1 = length (entries_bytes es sh)
     else bi_restart_index it1 < length rs \<and> rs ! bi_restart_index it1 < i"
    using prev_restart_loop_image [OF ok i on(1,2)] by blast
  show ?thesis
  proof (cases "i = 0")
    case True
    with it1 on block_at_valid [OF ok at] i block_at_invalid [OF it1(2)] show ?thesis
      by (simp add: ldb_blockiter_prev_def)
  next
    case False
    with it1 seek_restart_ready [OF ok it1(2)] obtain it2 where
      it2: "ldb_blockiter_seek_restart it1 (bi_restart_index it1) = Some it2" "block_ready C es sh rs it2 (rs ! bi_restart_index it1)"
      by auto
    from scan_until_ready [OF ok it2(2), of i] it1(3) False i obtain it3 where
      "scan_until_loop it2 (entry_off es sh i) = Some it3" "block_at C es sh rs it3 (i - 1)" by auto
    with False it1 it2 on block_at_valid [OF ok at] i show ?thesis by (simp add: ldb_blockiter_prev_def)
  qed
qed

lemma blockiter_seek_first_at:
  assumes ok: "image_ok es sh rs" and on: "on_image C es sh rs it"
  shows "\<exists>it'. ldb_blockiter_seek_first it = Some it' \<and> block_at C es sh rs it' 0"
proof -
  have r: "0 < length rs" "rs ! 0 = 0" using ok by (simp_all add: image_ok_def restarts_ok_def)
  from seek_restart_ready [OF ok on r(1)] r obtain it1 where
    "ldb_blockiter_seek_restart it 0 = Some it1" "block_ready C es sh rs it1 0" by auto
  with parse_ready [OF ok, of C it1 0] show ?thesis by (auto simp: ldb_blockiter_seek_first_def)
qed

lemma blockiter_seek_last_at:
  assumes ok: "image_ok es sh rs" and on: "on_image C es sh rs it"
  shows "\<exists>it'. ldb_blockiter_seek_last it = Some it' \<and> block_at C es sh rs it' (length es - 1)"
proof -
  let ?j = "length rs - 1"
  have j: "?j < length rs" using image_okD(4) [OF ok] by simp
  from seek_restart_ready [OF ok on j] obtain it1 where
    it1: "ldb_blockiter_seek_restart it ?j = Some it1" "block_ready C es sh rs it1 (rs ! ?j)" by auto
  have num: "bi_num_restarts it = length rs" "bi_restarts it1 = length (entries_bytes es sh)"
    using on it1(2) by (simp_all add: on_image_def block_ready_def)
  have "\<exists>it'. scan_until_loop it1 (length (entries_bytes es sh)) = Some it' \<and> block_at C es sh rs it' (length es - 1)"
  proof (cases "es = []")
    case True
    then have "rs ! ?j = 0" using restart_bound [OF ok j] by simp
    with parse_ready [OF ok it1(2)] True show ?thesis by (subst scan_until_loop.simps) auto
  next
    case False
    then show ?thesis
      using scan_until_ready [OF ok it1(2) restart_in_block [OF ok j False] order_refl]
        entry_off_all [OF image_okD(1) [OF ok]] by simp
  qed
  with it1(1) num show ?thesis by (auto simp: ldb_blockiter_seek_last_def)
qed

lemma blockiter_next_at:
  assumes ok: "image_ok es sh rs" and at: "block_at C es sh rs it i" and i: "i < length es"
  shows "\<exists>it'. ldb_blockiter_next it = Some it' \<and> block_at C es sh rs it' (i + 1)"
  using parse_ready [OF ok at_ready [OF ok at i]] block_at_valid [OF ok at] i
  by (auto simp: ldb_blockiter_next_def)

lemma blockiter_value_at:
  assumes ok: "image_ok es sh rs" and at: "block_at C es sh rs it i" and i: "i < length es"
  shows "ldb_blockiter_value it = Some (snd (es ! i))"
  using image_decode(5,6,8) [OF ok i] at i block_at_valid [OF ok at]
  by (simp add: ldb_blockiter_value_def block_at_def on_image_def block_read_def block_image_def)

section \<open>Seeking\<close>

context comparator_order
begin

text \<open>The binary search ends at a restart point with no entry at or past the target before it.\<close>

lemma seek_search_image:
  assumes ok: "image_ok es sh rs" and es: "kv_sorted es" and t: "ok t" and on: "on_image C es sh rs it"
  shows "left \<le> right \<Longrightarrow> right < length rs \<Longrightarrow> rs ! left \<le> first_ge (compare C) es t \<Longrightarrow>
    \<exists>l. seek_search_loop it t left right = Some (Inr l) \<and> l < length rs \<and> rs ! l \<le> first_ge (compare C) es t"
proof (induction "right - left" arbitrary: left right rule: less_induct)
  case less
  show ?case
  proof (cases "left < right")
    case False
    with less.prems show ?thesis by (subst seek_search_loop.simps) auto
  next
    case True
    let ?mid = "(left + right + 1) div 2" and ?r = "rs ! ((left + right + 1) div 2)"
    have mid: "left < ?mid" "?mid \<le> right" using True by auto
    have small: "(left + right + 1) mod 2 ^ 32 = left + right + 1"
      using less.prems image_okD(3) [OF ok] by simp
    have "?r \<noteq> 0" using ok mid less.prems(2) unfolding image_ok_def restarts_ok_def
      by (metis gr_implies_not_zero less_le_trans not_less_zero sorted_wrt_iff_nth_less zero_less_iff_neq_zero le_less_trans)
    then have r: "?r < length es" "sh ! ?r = 0"
      using restart_in_block [OF ok, of ?mid] restart_bound [OF ok, of ?mid] restart_shared [OF ok, of ?mid] mid less.prems(2)
      by fastforce+
    note d = image_decode [OF ok r(1)]
    have point: "ldb_blockiter_restart_point it ?mid = Some (entry_off es sh ?r)"
      using restart_point_image [OF ok on, of ?mid] mid less.prems(2) by simp
    have rd: "block_read (block_image es sh rs) (entry_off es sh (Suc ?r) - length (snd (es ! ?r)) - length (fst (es ! ?r)))
        (length (fst (es ! ?r))) = Some (fst (es ! ?r))"
      using d(5,6,7) r(2) by (simp add: block_read_def block_image_def)
    have step: "seek_search_loop it t left right =
        (if compare C (fst (es ! ?r)) t < 0 then seek_search_loop it t ?mid right else seek_search_loop it t left (?mid - 1))"
      using True small point d(1,3) r(2) rd on
      by (subst seek_search_loop.simps) (simp add: Let_def on_image_def ldb_blockiter_compare_def)
    show ?thesis
    proof (cases "compare C (fst (es ! ?r)) t < 0")
      case less': True
      have "?r \<le> first_ge (compare C) es t" using below_first_ge [OF es t r(1) less'] by simp
      with less.hyps [of right ?mid] mid less.prems step less' show ?thesis by simp
    next
      case False
      with less.hyps [of "?mid - 1" left] mid less.prems step show ?thesis by simp
    qed
  qed
qed

lemma seek_scan_ready:
  assumes ok: "image_ok es sh rs"
  shows "block_ready C es sh rs it r \<Longrightarrow> r \<le> first_ge (compare C) es t \<Longrightarrow>
    \<exists>it'. seek_scan_loop it t = Some it' \<and> block_at C es sh rs it' (first_ge (compare C) es t)"
proof (induction "length es - r" arbitrary: it r rule: less_induct)
  case less
  let ?g = "first_ge (compare C) es t"
  have le: "?g \<le> length es" by (rule first_ge_le)
  obtain it1 where p: "ldb_blockiter_parse_next_key it = Some (r < length es, it1)" "block_at C es sh rs it1 r"
    using parse_ready [OF ok less.prems(1)] by blast
  show ?case
  proof (cases "r < length es")
    case False
    then have "?g = r" using less.prems le by (auto simp: block_ready_def)
    with False p show ?thesis by (subst seek_scan_loop.simps) auto
  next
    case True
    have cmp: "ldb_blockiter_compare it1 (bi_key it1) t = compare C (fst (es ! r)) t"
      using p(2) True by (simp add: ldb_blockiter_compare_def block_at_def on_image_def)
    show ?thesis
    proof (cases "r = ?g")
      case eq: True
      then have "compare C (fst (es ! r)) t \<ge> 0" using first_ge_at [of "compare C" es t] True by simp
      with p True cmp eq show ?thesis by (subst seek_scan_loop.simps) auto
    next
      case False
      then have "compare C (fst (es ! r)) t < 0" using first_ge_below [of r "compare C" es t] less.prems(2) by simp
      moreover have "\<exists>it'. seek_scan_loop it1 t = Some it' \<and> block_at C es sh rs it' ?g"
        using less.hyps [OF _ at_ready [OF ok p(2) True]] True False less.prems(2) by simp
      ultimately show ?thesis using p(1) True cmp by (subst seek_scan_loop.simps) simp
    qed
  qed
qed

lemma blockiter_seek_at:
  assumes ok: "image_ok es sh rs" and es: "kv_sorted es" and t: "ok t" and at: "block_at C es sh rs it i"
  shows "\<exists>it'. ldb_blockiter_seek it t = Some it' \<and> block_at C es sh rs it' (first_ge (compare C) es t)"
proof -
  let ?g = "first_ge (compare C) es t" and ?valid = "ldb_blockiter_valid it"
  have on: "on_image C es sh rs it" using at by (simp add: block_at_def)
  have valid: "?valid \<longleftrightarrow> i < length es" by (rule block_at_valid [OF ok at])
  define c where "c = (if ?valid then ldb_blockiter_compare it (bi_key it) t else 0)"
  have c: "?valid \<Longrightarrow> c = compare C (fst (es ! i)) t" and idx: "?valid \<Longrightarrow> index_ok rs (bi_restart_index it) i"
    using at on valid by (simp_all add: c_def ldb_blockiter_compare_def block_at_def on_image_def)
  show ?thesis
  proof (cases "?valid \<and> c = 0")
    case True
    then have "?g = i" using first_ge_equal [OF es t] valid c by simp
    moreover have "ldb_blockiter_compare it (bi_key it) t = 0" using True by (auto simp: c_def)
    ultimately show ?thesis using True at by (simp add: ldb_blockiter_seek_def Let_def)
  next
    case False
    define left where "left = (if c < 0 then bi_restart_index it else 0)"
    define right where "right = (if c > 0 then bi_restart_index it else bi_num_restarts it - 1)"
    have neg: "c < 0 \<Longrightarrow> ?valid" by (auto simp: c_def split: if_splits)
    have ig: "c < 0 \<Longrightarrow> i < ?g" using neg valid c below_first_ge [OF es t] by simp
    have lr: "left \<le> right" "right < length rs" "rs ! left \<le> ?g"
      using neg ig idx on image_okD(4) [OF ok] ok False c_def
      by (auto simp: left_def right_def index_ok_def on_image_def image_ok_def restarts_ok_def split: if_splits)
    from seek_search_image [OF ok es t on lr] obtain l where
      l: "seek_search_loop it t left right = Some (Inr l)" "l < length rs" "rs ! l \<le> ?g" by blast
    let ?skip = "l = bi_restart_index it \<and> c < 0"
    obtain it1 r where it1: "(if ?skip then Some it else ldb_blockiter_seek_restart it l) = Some it1"
        "block_ready C es sh rs it1 r" "r \<le> ?g"
      using seek_restart_ready [OF ok on l(2)] l(3) at_ready [OF ok at] neg ig valid
      by (cases ?skip) auto
    from seek_scan_ready [OF ok it1(2,3)] l(1) it1(1) False show ?thesis
      unfolding ldb_blockiter_seek_def c_def [symmetric] Let_def left_def [symmetric] right_def [symmetric]
      by auto
  qed
qed

text \<open>The block iterator meets the iterator contract.\<close>

lemma block_cursor:
  assumes ok: "image_ok es sh rs" and es: "kv_sorted es"
  shows "cursor ldb_blockiter_table (compare C) es (block_at C es sh rs) ok"
proof
  fix s i assume at: "block_at C es sh rs s i"
  then have on: "on_image C es sh rs s" by (simp add: block_at_def)
  show "i \<le> length es" using at by (simp add: block_at_def)
  show "tbl_valid ldb_blockiter_table s = (i < length es)"
    by (simp add: ldb_blockiter_table_def block_at_valid [OF ok at])
  show "i < length es \<Longrightarrow> tbl_key ldb_blockiter_table s = Some (fst (es ! i))"
    using at by (simp add: ldb_blockiter_table_def ldb_blockiter_key_def block_at_valid [OF ok at]) (simp add: block_at_def)
  show "i < length es \<Longrightarrow> tbl_value ldb_blockiter_table s = Some (snd (es ! i))"
    using blockiter_value_at [OF ok at] by (simp add: ldb_blockiter_table_def)
  show "tbl_status ldb_blockiter_table s = Some LDB_OK"
    using on by (simp add: ldb_blockiter_table_def ldb_blockiter_status_def on_image_def)
  show "\<exists>s'. tbl_seek_first ldb_blockiter_table s = Some s' \<and> block_at C es sh rs s' 0"
    using blockiter_seek_first_at [OF ok on] by (simp add: ldb_blockiter_table_def)
  show "\<exists>s'. tbl_seek_last ldb_blockiter_table s = Some s' \<and> block_at C es sh rs s' (length es - 1)"
    using blockiter_seek_last_at [OF ok on] by (simp add: ldb_blockiter_table_def)
  show "ok t \<Longrightarrow> \<exists>s'. tbl_seek ldb_blockiter_table s t = Some s' \<and> block_at C es sh rs s' (first_ge (compare C) es t)" for t
    using blockiter_seek_at [OF ok es _ at] by (simp add: ldb_blockiter_table_def)
  show "i < length es \<Longrightarrow> \<exists>s'. tbl_next ldb_blockiter_table s = Some s' \<and> block_at C es sh rs s' (i + 1)"
    using blockiter_next_at [OF ok at] by (simp add: ldb_blockiter_table_def)
  show "i < length es \<Longrightarrow> \<exists>s'. tbl_prev ldb_blockiter_table s = Some s' \<and> block_at C es sh rs s' (if i = 0 then length es else i - 1)"
    using blockiter_prev_at [OF ok at] by (simp add: ldb_blockiter_table_def)
qed

end

section \<open>Reading what was built\<close>

lemma block_init_image:
  assumes "image_ok es sh rs"
  shows "ldb_blockiter_create (ldb_block_init (block_image es sh rs) h) C
    = Inr (ldb_blockiter_init C (block_image es sh rs) (length (entries_bytes es sh)) (length rs))"
proof -
  let ?d = "block_image es sh rs" and ?L = "length (entries_bytes es sh)" and ?n = "length rs"
  have len: "length ?d = ?L + ?n * 4 + 4" by (simp add: block_image_def)
  have "length ?d - 4 = length (entries_bytes es sh @ fixed32_array (map (entry_off es sh) rs))"
    by (simp add: len)
  then have "drop (length ?d - 4) ?d = ldb_fixed32_write (word_of_nat ?n)"
    by (simp add: block_image_def)
  then have "ldb_fixed32_decode (drop (length ?d - 4) ?d) = word_of_nat ?n"
    using ldb_fixed32_decode_write [of "word_of_nat ?n" "[]"] by simp
  moreover have n: "unat (word_of_nat ?n :: u32) = ?n" "unat ((1 + word_of_nat ?n) * 4 :: u32) = ?n * 4 + 4"
  proof -
    have small: "?n * 4 + 4 < 2 ^ 32" using assms len by (simp add: image_ok_def)
    then show "unat (word_of_nat ?n :: u32) = ?n" by (simp add: unat_of_nat take_bit_nat_eq_self)
    have "(1 + word_of_nat ?n) * 4 = (word_of_nat (?n * 4 + 4) :: u32)" by simp
    with small show "unat ((1 + word_of_nat ?n) * 4 :: u32) = ?n * 4 + 4"
      by (simp only: unat_of_nat) (simp add: take_bit_nat_eq_self)
  qed
  moreover have "?L < 2 ^ 32" "?n \<noteq> 0" using image_okD [OF assms] by auto
  moreover have "(word_of_nat ?n :: u32) \<noteq> 0" using n(1) \<open>?n \<noteq> 0\<close> by (metis unsigned_0)
  ultimately show ?thesis
    by (simp add: ldb_block_init_def ldb_blockiter_create_def ldb_block_restarts_def Let_def len)
qed

lemma built_image:
  assumes "1 \<le> n" "contents = bb_buffer (ldb_blockbuilder_finish (foldl (\<lambda>bb (k, v). ldb_blockbuilder_add bb k v) (ldb_blockbuilder_init n) es))"
    and "length contents < 2 ^ 32"
  obtains sh rs where "contents = block_image es sh rs" "image_ok es sh rs"
proof -
  from bb_state_add_all [OF bb_state_init [OF assms(1)], of es] obtain sh rs where
    st: "bb_state (foldl (\<lambda>bb (k, v). ldb_blockbuilder_add bb k v) (ldb_blockbuilder_init n) es) es sh rs" by auto
  have c: "contents = block_image es sh rs" using bb_finish_image [OF st] assms(2) by simp
  with st assms(3) show ?thesis by (intro that [OF c]) (simp add: image_ok_def bb_state_def)
qed

lemma block_at_init: "block_at C es sh rs (ldb_blockiter_init C (block_image es sh rs) (length (entries_bytes es sh)) (length rs)) (length es)"
  by (simp add: block_at_def on_image_def ldb_blockiter_init_def)

lemma built_block_cursor:
  assumes "key_order (compare C) ok" "sorted_wrt (\<lambda>a b. compare C (fst a) (fst b) < 0) es" "\<forall>e \<in> set es. ok (fst e)"
    and "1 \<le> n" "contents = bb_buffer (ldb_blockbuilder_finish (foldl (\<lambda>bb (k, v). ldb_blockbuilder_add bb k v) (ldb_blockbuilder_init n) es))"
    and "length contents < 2 ^ 32"
  obtains it at where "ldb_blockiter_create (ldb_block_init contents h) C = Inr it" "at it (length es)"
    "cursor ldb_blockiter_table (compare C) es at ok"
proof -
  obtain sh rs where img: "contents = block_image es sh rs" "image_ok es sh rs"
    by (rule built_image [OF assms(4-6)])
  have bo: "comparator_order C ok" using assms(1) by (simp add: comparator_order_def)
  have "key_order.kv_sorted (compare C) ok es" using assms(2,3) by (simp add: key_order.kv_sorted_def [OF assms(1)])
  from comparator_order.block_cursor [OF bo img(2) this]
  show ?thesis
    using that [of _ "block_at C es sh rs", OF _ block_at_init] block_init_image [OF img(2)] img(1) by simp
qed

section \<open>Properties\<close>

text \<open>
  C12. Blocks: for any comparator that orders its keys and any restart interval, the iterator over a
  block of less than 4 GiB that was built from entries with increasing keys meets the iterator contract
  for exactly these entries. It reads them all in order from \<^verbatim>\<open>seek_first\<close>, and from \<^verbatim>\<open>seek\<close> the ones at
  or past the target; no operation reads outside the block, fails an assertion or runs forever.
\<close>

theorem block_iterator_correct:
  assumes "key_order (compare C) ok" "sorted_wrt (\<lambda>a b. compare C (fst a) (fst b) < 0) es" "\<forall>e \<in> set es. ok (fst e)"
    and "1 \<le> n" "contents = bb_buffer (ldb_blockbuilder_finish (foldl (\<lambda>bb (k, v). ldb_blockbuilder_add bb k v) (ldb_blockbuilder_init n) es))"
    and "length contents < 2 ^ 32"
  shows "\<exists>it at. ldb_blockiter_create (ldb_block_init contents h) C = Inr it
    \<and> at it (length es) \<and> cursor ldb_blockiter_table (compare C) es at ok
    \<and> (\<exists>it1. ldb_blockiter_seek_first it = Some it1 \<and> iter_scan ldb_blockiter_table (length es) it1 = Some es)
    \<and> (ok t \<longrightarrow> (\<exists>it2. ldb_blockiter_seek it t = Some it2
        \<and> iter_scan ldb_blockiter_table (length es) it2 = Some (drop (first_ge (compare C) es t) es)))"
proof -
  obtain it at where it: "ldb_blockiter_create (ldb_block_init contents h) C = Inr it" "at it (length es)"
      "cursor ldb_blockiter_table (compare C) es at ok"
    by (rule built_block_cursor [OF assms])
  have "\<exists>it1. ldb_blockiter_seek_first it = Some it1 \<and> iter_scan ldb_blockiter_table (length es) it1 = Some es"
    using cursor.scan_all [OF it(3,2)] by (simp add: ldb_blockiter_table_def)
  moreover have "\<exists>it2. ldb_blockiter_seek it t = Some it2
      \<and> iter_scan ldb_blockiter_table (length es) it2 = Some (drop (first_ge (compare C) es t) es)" if "ok t"
    using cursor.seek [OF it(3,2) that] cursor.scan_at [OF it(3)] by (fastforce simp: ldb_blockiter_table_def)
  ultimately show ?thesis using it by blast
qed

theorem block_iterator_correct_witness:
  "\<exists>it at. ldb_blockiter_create (ldb_block_init (bb_buffer (ldb_blockbuilder_finish
        (foldl (\<lambda>bb (k, v). ldb_blockbuilder_add bb k v) (ldb_blockbuilder_init 2)
           [([1], [7]), ([1, 2], [8, 9]), ([3], [])]))) True) bytewise_comparator = Inr it
    \<and> at it (3 :: nat) \<and> cursor ldb_blockiter_table (compare bytewise_comparator) [([1], [7]), ([1, 2], [8, 9]), ([3], [])] at (\<lambda>_. True)"
proof -
  let ?es = "[([1], [7]), ([1, 2], [8, 9]), ([3], [])] :: kv list"
  let ?bb = "ldb_blockbuilder_finish (foldl (\<lambda>bb (k, v). ldb_blockbuilder_add bb k v) (ldb_blockbuilder_init 2) ?es)"
  have "sorted_wrt (\<lambda>a b. compare bytewise_comparator (fst a) (fst b) < 0) ?es" by code_simp
  moreover have "length (bb_buffer ?bb) < 100" by code_simp
  then have "length (bb_buffer ?bb) < 2 ^ 32" by simp
  ultimately show ?thesis
    using block_iterator_correct [of bytewise_comparator "\<lambda>_. True" ?es 2 _ True, OF bytewise.key_order_axioms]
    by (simp only: list.set length_Cons list.size One_nat_def numeral_2_eq_2 numeral_3_eq_3) fastforce
qed

text \<open>
  C31. The check of the lengths in \<^verbatim>\<open>ldb_decode_entry\<close> adds them in 32 bits. An entry that claims a key of
  \<^term>\<open>2 ^ 32 - 1\<close> bytes and a value of one byte passes it whatever the size of the block, and reading its
  key runs past every block of less than 4 GiB.
\<close>

theorem decode_entry_wraps:
  assumes "rest \<noteq> []" "length rest < 2 ^ 32 - 9"
  shows "let mem = ldb_varint32_write 0 @ ldb_varint32_write (- 1) @ ldb_varint32_write 1 @ rest in
    \<exists>p. ldb_decode_entry mem 0 (length mem) = Some (0, - 1, 1, p) \<and> block_read mem p (unat (- 1 :: u32)) = None"
proof -
  let ?mem = "ldb_varint32_write 0 @ ldb_varint32_write (- 1) @ ldb_varint32_write 1 @ rest"
  have l: "3 \<le> length ?mem" "length ?mem = length (ldb_varint32_write 0) + length (ldb_varint32_write (- 1))
     + length (ldb_varint32_write 1) + length rest"
    using length_ldb_varint32_write [of 0] length_ldb_varint32_write [of "- 1"] length_ldb_varint32_write [of 1]
    by (simp_all del: length_greater_0_conv)
  have "ldb_decode_entry ?mem 0 (length ?mem) = Some (0, - 1, 1, length ?mem - length rest)"
    using decode_lengths_write [of 0 "- 1" 1 rest] l(1) by (simp add: ldb_decode_entry_def)
  moreover have "block_read ?mem (length ?mem - length rest) (unat (- 1 :: u32)) = None"
    using assms by (simp add: block_read_def unsigned_minus_1_eq_mask mask_eq_exp_minus_1)
  ultimately show ?thesis by (auto simp: Let_def)
qed

theorem decode_entry_wraps_witness:
  "\<exists>p mem. ldb_decode_entry mem 0 (length mem) = Some (0, - 1, 1, p) \<and> block_read mem p (unat (- 1 :: u32)) = None"
  using decode_entry_wraps [of "[0]"] unfolding Let_def by (simp del: length_append) blast

end
