(* ===== verification/Merger.thy ===== *)
theory Merger
  imports IterWrapper Block
begin

text \<open>
  The merging iterator (\<^verbatim>\<open>src/src/table/merger.c\<close>): it yields the union of its children in key order, in
  both directions. The pointer to the current child is its index.
\<close>

datatype direction = LDB_FORWARD | LDB_REVERSE

record 's mergeiter =
  mi_comparator :: comparator
  mi_children :: "'s wrapiter list"
  mi_current :: "nat option"
  mi_direction :: direction

definition ldb_mergeiter_init :: "comparator \<Rightarrow> 's iter list \<Rightarrow> 's mergeiter option" where
  "ldb_mergeiter_init comparator children =
     do { ws \<leftarrow> those (map (\<lambda>child. ldb_wrapiter_init (Some child)) children);
          Some \<lparr>mi_comparator = comparator, mi_children = ws, mi_current = None, mi_direction = LDB_FORWARD\<rparr> }"

definition ldb_mergeiter_valid :: "'s mergeiter \<Rightarrow> bool" where
  "ldb_mergeiter_valid mi \<longleftrightarrow> mi_current mi \<noteq> None"

definition ldb_mergeiter_key :: "'s mergeiter \<Rightarrow> bytes option" where
  "ldb_mergeiter_key mi = do { c \<leftarrow> mi_current mi; ldb_wrapiter_key (mi_children mi ! c) }"

definition ldb_mergeiter_value :: "'s mergeiter \<Rightarrow> bytes option" where
  "ldb_mergeiter_value mi = do { c \<leftarrow> mi_current mi; ldb_wrapiter_value (mi_children mi ! c) }"

text \<open>The status of the first child that has an error.\<close>

primrec mergeiter_status_loop :: "'s wrapiter list \<Rightarrow> status option" where
  "mergeiter_status_loop [] = Some LDB_OK"
| "mergeiter_status_loop (child # ws) =
     do { rc \<leftarrow> ldb_wrapiter_status child; if rc \<noteq> LDB_OK then Some rc else mergeiter_status_loop ws }"

definition ldb_mergeiter_status :: "'s mergeiter \<Rightarrow> status option" where
  "ldb_mergeiter_status mi = mergeiter_status_loop (mi_children mi)"

text \<open>
  The loop of \<^verbatim>\<open>ldb_mergeiter_find_smallest\<close> and of \<^verbatim>\<open>ldb_mergeiter_find_largest\<close>: they visit the children in
  opposite orders and keep the best valid one so far.
\<close>

primrec find_best_loop :: "(bytes \<Rightarrow> bytes \<Rightarrow> bool) \<Rightarrow> 's wrapiter list \<Rightarrow> nat list \<Rightarrow> nat option \<Rightarrow> nat option option" where
  "find_best_loop better ws [] best = Some best"
| "find_best_loop better ws (i # is) best =
     (if ldb_wrapiter_valid (ws ! i) then
        (case best of
           None \<Rightarrow> find_best_loop better ws is (Some i)
         | Some j \<Rightarrow>
             do { child_key \<leftarrow> ldb_wrapiter_key (ws ! i);
                  best_key \<leftarrow> ldb_wrapiter_key (ws ! j);
                  find_best_loop better ws is (if better child_key best_key then Some i else best) })
      else find_best_loop better ws is best)"

definition ldb_mergeiter_find_smallest :: "'s mergeiter \<Rightarrow> 's mergeiter option" where
  "ldb_mergeiter_find_smallest mi =
     do { smallest \<leftarrow> find_best_loop (\<lambda>x y. compare (mi_comparator mi) x y < 0) (mi_children mi)
            [0..<length (mi_children mi)] None;
          Some (mi\<lparr>mi_current := smallest\<rparr>) }"

definition ldb_mergeiter_find_largest :: "'s mergeiter \<Rightarrow> 's mergeiter option" where
  "ldb_mergeiter_find_largest mi =
     do { largest \<leftarrow> find_best_loop (\<lambda>x y. compare (mi_comparator mi) x y > 0) (mi_children mi)
            (rev [0..<length (mi_children mi)]) None;
          Some (mi\<lparr>mi_current := largest\<rparr>) }"

definition ldb_mergeiter_seek_first :: "'s mergeiter \<Rightarrow> 's mergeiter option" where
  "ldb_mergeiter_seek_first mi =
     do { ws \<leftarrow> those (map ldb_wrapiter_seek_first (mi_children mi));
          mi \<leftarrow> ldb_mergeiter_find_smallest (mi\<lparr>mi_children := ws\<rparr>);
          Some (mi\<lparr>mi_direction := LDB_FORWARD\<rparr>) }"

definition ldb_mergeiter_seek_last :: "'s mergeiter \<Rightarrow> 's mergeiter option" where
  "ldb_mergeiter_seek_last mi =
     do { ws \<leftarrow> those (map ldb_wrapiter_seek_last (mi_children mi));
          mi \<leftarrow> ldb_mergeiter_find_largest (mi\<lparr>mi_children := ws\<rparr>);
          Some (mi\<lparr>mi_direction := LDB_REVERSE\<rparr>) }"

definition ldb_mergeiter_seek :: "'s mergeiter \<Rightarrow> bytes \<Rightarrow> 's mergeiter option" where
  "ldb_mergeiter_seek mi target =
     do { ws \<leftarrow> those (map (\<lambda>child. ldb_wrapiter_seek child target) (mi_children mi));
          mi \<leftarrow> ldb_mergeiter_find_smallest (mi\<lparr>mi_children := ws\<rparr>);
          Some (mi\<lparr>mi_direction := LDB_FORWARD\<rparr>) }"

text \<open>The bodies of the loops that turn the children around when the direction changes.\<close>

definition turn_forward :: "comparator \<Rightarrow> bytes \<Rightarrow> 's wrapiter \<Rightarrow> 's wrapiter option" where
  "turn_forward comparator mi_key child =
     do { child \<leftarrow> ldb_wrapiter_seek child mi_key;
          if ldb_wrapiter_valid child then
            do { child_key \<leftarrow> ldb_wrapiter_key child;
                 if compare comparator mi_key child_key = 0 then ldb_wrapiter_next child else Some child }
          else Some child }"

definition turn_reverse :: "bytes \<Rightarrow> 's wrapiter \<Rightarrow> 's wrapiter option" where
  "turn_reverse mi_key child =
     do { child \<leftarrow> ldb_wrapiter_seek child mi_key;
          if ldb_wrapiter_valid child then ldb_wrapiter_prev child else ldb_wrapiter_seek_last child }"

definition turn_children :: "('s wrapiter \<Rightarrow> 's wrapiter option) \<Rightarrow> nat \<Rightarrow> 's wrapiter list \<Rightarrow> 's wrapiter list option" where
  "turn_children turn current ws =
     those (map (\<lambda>(i, child). if i \<noteq> current then turn child else Some child) (enumerate 0 ws))"

definition ldb_mergeiter_next :: "'s mergeiter \<Rightarrow> 's mergeiter option" where
  "ldb_mergeiter_next mi =
     do { c \<leftarrow> mi_current mi;
          ws \<leftarrow> (if mi_direction mi \<noteq> LDB_FORWARD
                 then do { key \<leftarrow> ldb_mergeiter_key mi;
                           turn_children (turn_forward (mi_comparator mi) key) c (mi_children mi) }
                 else Some (mi_children mi));
          child \<leftarrow> ldb_wrapiter_next (ws ! c);
          ldb_mergeiter_find_smallest (mi\<lparr>mi_children := ws[c := child], mi_direction := LDB_FORWARD\<rparr>) }"

definition ldb_mergeiter_prev :: "'s mergeiter \<Rightarrow> 's mergeiter option" where
  "ldb_mergeiter_prev mi =
     do { c \<leftarrow> mi_current mi;
          ws \<leftarrow> (if mi_direction mi \<noteq> LDB_REVERSE
                 then do { key \<leftarrow> ldb_mergeiter_key mi;
                           turn_children (turn_reverse key) c (mi_children mi) }
                 else Some (mi_children mi));
          child \<leftarrow> ldb_wrapiter_prev (ws ! c);
          ldb_mergeiter_find_largest (mi\<lparr>mi_children := ws[c := child], mi_direction := LDB_REVERSE\<rparr>) }"

definition ldb_mergeiter_table :: "'s mergeiter itertbl" where
  "ldb_mergeiter_table =
     \<lparr>tbl_valid = ldb_mergeiter_valid, tbl_seek_first = ldb_mergeiter_seek_first, tbl_seek_last = ldb_mergeiter_seek_last,
      tbl_seek = ldb_mergeiter_seek, tbl_next = ldb_mergeiter_next, tbl_prev = ldb_mergeiter_prev,
      tbl_key = ldb_mergeiter_key, tbl_value = ldb_mergeiter_value, tbl_status = ldb_mergeiter_status\<rparr>"

text \<open>With no child \<^verbatim>\<open>ldb_mergeiter_create\<close> returns an empty iterator, with one child that child.\<close>

datatype 's merged = Merged_Empty emptyiter | Merged_Single "'s iter" | Merged "'s mergeiter"

definition ldb_mergeiter_create :: "comparator \<Rightarrow> 's iter list \<Rightarrow> 's merged option" where
  "ldb_mergeiter_create comparator children =
     (if children = [] then Some (Merged_Empty (ldb_emptyiter_create LDB_OK))
      else if length children = 1 then Some (Merged_Single (children ! 0))
      else map_option Merged (ldb_mergeiter_init comparator children))"

section \<open>Loops over the children\<close>

lemma those_map:
  "(\<And>i. i < length xs \<Longrightarrow> \<exists>y. f (xs ! i) = Some y \<and> P i y) \<Longrightarrow>
     \<exists>ys. those (map f xs) = Some ys \<and> length ys = length xs \<and> (\<forall>i < length xs. P i (ys ! i))"
proof (induction xs arbitrary: P)
  case (Cons x xs)
  obtain y where y: "f x = Some y" "P 0 y" using Cons.prems [of 0] by auto
  obtain ys where "those (map f xs) = Some ys" "length ys = length xs" "\<forall>i < length xs. P (Suc i) (ys ! i)"
    using Cons.IH [of "\<lambda>i. P (Suc i)"] Cons.prems [of "Suc _"] by auto
  with y show ?case by (intro exI [of _ "y # ys"]) (auto simp: nth_Cons split: nat.splits)
qed simp

lemma turn_children_each:
  assumes "\<And>i. i < length ws \<Longrightarrow> i \<noteq> c \<Longrightarrow> \<exists>w. turn (ws ! i) = Some w \<and> P i w" "c < length ws \<Longrightarrow> P c (ws ! c)"
  shows "\<exists>ws'. turn_children turn c ws = Some ws' \<and> length ws' = length ws \<and> (\<forall>i < length ws. P i (ws' ! i))"
proof -
  have "\<exists>y. (case enumerate 0 ws ! i of (i, child) \<Rightarrow> if i \<noteq> c then turn child else Some child) = Some y \<and> P i y"
    if "i < length (enumerate 0 ws)" for i
    using assms that by (cases "i = c") (auto simp: nth_enumerate_eq)
  from those_map [of "enumerate 0 ws" "\<lambda>(i, child). if i \<noteq> c then turn child else Some child" P, OF this] show ?thesis by (simp add: turn_children_def)
qed

lemma find_best:
  assumes "\<And>i. i \<in> set is \<Longrightarrow> ldb_wrapiter_valid (ws ! i) \<Longrightarrow> ldb_wrapiter_key (ws ! i) = Some (k i)"
    and "\<And>j. best = Some j \<Longrightarrow> ldb_wrapiter_key (ws ! j) = Some (k j)"
    and "(c \<in> set is \<and> ldb_wrapiter_valid (ws ! c)) \<or> best = Some c"
    and "\<And>i. i \<noteq> c \<Longrightarrow> (i \<in> set is \<and> ldb_wrapiter_valid (ws ! i)) \<or> best = Some i \<Longrightarrow> better (k c) (k i) \<and> \<not> better (k i) (k c)"
    and "\<not> better (k c) (k c)"
  shows "find_best_loop better ws is best = Some (Some c)"
  using assms
proof (induction "is" arbitrary: best)
  case (Cons i "is")
  show ?case
  proof (cases "ldb_wrapiter_valid (ws ! i)")
    case True
    show ?thesis
    proof (cases best)
      case None
      show ?thesis using Cons.prems True None by (simp, intro Cons.IH) auto
    next
      case (Some j)
      have "find_best_loop better ws is (if better (k i) (k j) then Some i else best) = Some (Some c)"
        using Cons.prems True Some by (intro Cons.IH) (auto split: if_splits)
      with Cons.prems(1) [of i] Cons.prems(2) True Some show ?thesis by auto
    qed
  next
    case False
    then show ?thesis using Cons.prems by (simp, intro Cons.IH) auto
  qed
qed auto

lemma find_none: "(\<And>i. i \<in> set is \<Longrightarrow> \<not> ldb_wrapiter_valid (ws ! i)) \<Longrightarrow> find_best_loop better ws is None = Some None"
  by (induction "is") auto

lemma merge_status_ok: "(\<And>w. w \<in> set ws \<Longrightarrow> ldb_wrapiter_status w = Some LDB_OK) \<Longrightarrow> mergeiter_status_loop ws = Some LDB_OK"
  by (induction ws) auto

section \<open>Positions of the children\<close>

text \<open>
  The number of entries of one child among the first \<^term>\<open>m\<close> entries of the union, and the position of the
  last one of them.
\<close>

definition cut :: "kv list \<Rightarrow> kv list \<Rightarrow> nat \<Rightarrow> nat" where
  "cut es xs m = length (filter (\<lambda>e. e \<in> set (take m es)) xs)"

definition last_pos :: "kv list \<Rightarrow> kv list \<Rightarrow> nat \<Rightarrow> nat" where
  "last_pos es xs m = (if cut es xs m = 0 then length xs else cut es xs m - 1)"

lemma cut_le: "cut es xs m \<le> length xs"
  by (simp add: cut_def)

lemma cut_0 [simp]: "cut es xs 0 = 0"
  by (simp add: cut_def)

lemma cut_all: "set xs \<subseteq> set es \<Longrightarrow> cut es xs (length es) = length xs"
  by (auto simp: cut_def intro!: arg_cong [where f = length] filter_True)

lemma disjoint_concat:
  "distinct (concat xss) \<Longrightarrow> i < length xss \<Longrightarrow> j < length xss \<Longrightarrow> i \<noteq> j \<Longrightarrow> x \<in> set (xss ! i) \<Longrightarrow> x \<notin> set (xss ! j)"
proof (induction xss arbitrary: i j)
  case (Cons xs xss)
  have "x \<notin> set xs" if "x \<in> set (xss ! k)" "k < length xss" for x k
  proof -
    have "x \<in> set (concat xss)" using that by (auto intro!: bexI [of _ "xss ! k"])
    then show ?thesis using Cons.prems(1) by auto
  qed
  note outside = this
  show ?case
  proof (cases i)
    case 0
    with Cons.prems show ?thesis using outside [of x "j - 1"] by (cases j) auto
  next
    case (Suc i')
    with Cons.prems show ?thesis using outside [of x i'] Cons.IH [of i' "j - 1"] by (cases j) simp_all
  qed
qed simp

lemma nth_mem_take: "distinct es \<Longrightarrow> i < length es \<Longrightarrow> m \<le> length es \<Longrightarrow> es ! i \<in> set (take m es) \<longleftrightarrow> i < m"
  by (auto simp: in_set_conv_nth nth_eq_iff_index_eq)

context comparator_order
begin

lemma mem_take:
  "kv_sorted es \<Longrightarrow> m < length es \<Longrightarrow> e \<in> set es \<Longrightarrow> e \<in> set (take m es) \<longleftrightarrow> compare C (fst e) (fst (es ! m)) < 0"
  by (auto simp: in_set_conv_nth [of _ es] nth_mem_take kv_distinct kv_nth_eq_iff(2))

lemma cut_first_ge:
  assumes "kv_sorted es" "kv_sorted xs" "set xs \<subseteq> set es" "m < length es"
  shows "cut es xs m = first_ge (compare C) xs (fst (es ! m))"
  unfolding first_ge_filter [OF assms(2) kv_ok [OF assms(1,4)]] cut_def
  using mem_take [OF assms(1,4)] assms(3) by (intro arg_cong [where f = length] filter_cong) auto

lemma seek_cut:
  assumes "kv_sorted es" "kv_sorted xs" "set xs \<subseteq> set es" "ok t"
  shows "first_ge (compare C) xs t = cut es xs (first_ge (compare C) es t)"
proof -
  have "e \<in> set (take (first_ge (compare C) es t) es) \<longleftrightarrow> compare C (fst e) t < 0" if "e \<in> set es" for e
  proof -
    from that obtain i where i: "i < length es" "e = es ! i" by (auto simp: in_set_conv_nth)
    have "e \<in> set (take (first_ge (compare C) es t) es) \<longleftrightarrow> i < first_ge (compare C) es t"
      using i nth_mem_take [OF kv_distinct [OF assms(1)]] first_ge_le [of "compare C" es t] by simp
    then show ?thesis using first_ge_below [of i "compare C" es t] below_first_ge [OF assms(1,4) i(1)] i by auto
  qed
  then show ?thesis unfolding first_ge_filter [OF assms(2,4)] cut_def
    using assms(3) by (intro arg_cong [where f = length] filter_cong) auto
qed

lemma nth_cut:
  assumes "kv_sorted es" "kv_sorted xs" "set xs \<subseteq> set es" "m \<le> length es" "i < length xs"
  shows "xs ! i \<in> set (take m es) \<longleftrightarrow> i < cut es xs m"
proof (cases "m = length es")
  case True
  then show ?thesis using assms cut_all by (auto dest: nth_mem)
next
  case False
  then have m: "m < length es" using assms(4) by simp
  show ?thesis
    using mem_take [OF assms(1) m, of "xs ! i"] nth_mem [OF assms(5)] assms(3) cut_first_ge [OF assms(1-3) m]
      first_ge_below [of i "compare C" xs "fst (es ! m)"] below_first_ge [OF assms(2) kv_ok [OF assms(1) m] assms(5)]
    by auto
qed

lemma cut_own:
  assumes "kv_sorted es" "kv_sorted xs" "set xs \<subseteq> set es" "m < length es" "es ! m \<in> set xs"
  shows "cut es xs m < length xs" "xs ! cut es xs m = es ! m" "cut es xs (m + 1) = cut es xs m + 1"
proof -
  obtain i where i: "i < length xs" "xs ! i = es ! m" using assms(5) by (auto simp: in_set_conv_nth)
  have "first_ge (compare C) xs (fst (es ! m)) = i"
    using first_ge_equal [OF assms(2) kv_ok [OF assms(1,4)] i(1)] i(2) kv_nth_eq_iff(1) [OF assms(1,4,4)] by simp
  then have c: "cut es xs m = i" using cut_first_ge [OF assms(1-4)] by simp
  then show "cut es xs m < length xs" "xs ! cut es xs m = es ! m" using i by simp_all
  have "j < cut es xs (m + 1) \<longleftrightarrow> j < i + 1" if "j < length xs" for j
  proof -
    have "set (take (m + 1) es) = insert (es ! m) (set (take m es))" using assms(4) by (simp add: take_Suc_conv_app_nth)
    then have "j < cut es xs (m + 1) \<longleftrightarrow> j < cut es xs m \<or> xs ! j = xs ! i"
      using nth_cut [OF assms(1-3) _ that, of "m + 1"] nth_cut [OF assms(1-3) _ that, of m] assms(4) i(2) by auto
    then show ?thesis using c kv_distinct [OF assms(2)] that i(1) by (auto simp: nth_eq_iff_index_eq)
  qed
  then have "\<not> i + 1 < cut es xs (m + 1)" "i < cut es xs (m + 1)"
    using cut_le [of es xs "m + 1"] i(1) by (metis less_irrefl less_le_trans, simp)
  then show "cut es xs (m + 1) = cut es xs m + 1" using c by simp
qed

lemma cut_other: "m < length es \<Longrightarrow> es ! m \<notin> set xs \<Longrightarrow> cut es xs (m + 1) = cut es xs m"
  unfolding cut_def by (intro arg_cong [where f = length] filter_cong) (auto simp: take_Suc_conv_app_nth)

lemma after_cut:
  assumes "kv_sorted es" "kv_sorted xs" "set xs \<subseteq> set es" "m < length es" "es ! m \<notin> set xs" "cut es xs m < length xs"
  shows "compare C (fst (es ! m)) (fst (xs ! cut es xs m)) < 0"
proof -
  have "xs ! cut es xs m \<in> set es" "xs ! cut es xs m \<noteq> es ! m" "xs ! cut es xs m \<notin> set (take m es)"
    using assms(3,5) nth_mem [OF assms(6)] nth_cut [OF assms(1-3) _ assms(6), of m] assms(4) by auto
  then obtain i where "i < length es" "xs ! cut es xs m = es ! i" "m < i"
    using assms(4) by (auto simp: in_set_conv_nth) (metis linorder_neqE_nat)
  with kv_nth [OF assms(1)] show ?thesis by simp
qed

lemma before_cut:
  assumes "kv_sorted es" "kv_sorted xs" "set xs \<subseteq> set es" "m < length es" "es ! m \<notin> set xs" "last_pos es xs (m + 1) < length xs"
  shows "compare C (fst (xs ! last_pos es xs (m + 1))) (fst (es ! m)) < 0"
proof -
  let ?p = "last_pos es xs (m + 1)"
  have "?p < cut es xs (m + 1)" using assms(6) by (simp add: last_pos_def split: if_splits)
  then have "xs ! ?p \<in> set (take m es)"
    using nth_cut [OF assms(1-3) _ assms(6), of m] cut_other [OF assms(4,5)] assms(4) by simp
  then show ?thesis using mem_take [OF assms(1,4), of "xs ! ?p"] nth_mem [OF assms(6)] assms(3) by auto
qed

lemma last_pos_own:
  assumes "kv_sorted es" "kv_sorted xs" "set xs \<subseteq> set es" "m < length es" "es ! m \<in> set xs"
  shows "last_pos es xs (m + 1) = cut es xs m"
  using cut_own(3) [OF assms] by (simp add: last_pos_def)

lemma last_pos_other: "m < length es \<Longrightarrow> es ! m \<notin> set xs \<Longrightarrow> last_pos es xs (m + 1) = last_pos es xs m"
  unfolding last_pos_def by (subst (1 2) cut_other) simp_all

section \<open>The merging iterator meets the contract\<close>

text \<open>
  Children that meet the contract for sorted lists of entries, and the sorted list of all their entries.
  No key occurs twice.
\<close>

definition merge_sources :: "'s itertbl list \<Rightarrow> kv list list \<Rightarrow> (nat \<Rightarrow> 's \<Rightarrow> nat \<Rightarrow> bool) \<Rightarrow> kv list \<Rightarrow> bool" where
  "merge_sources Ts ess at es \<longleftrightarrow> length Ts = length ess
     \<and> (\<forall>j < length ess. cursor (Ts ! j) (compare C) (ess ! j) (at j) ok \<and> kv_sorted (ess ! j))
     \<and> kv_sorted es \<and> mset es = mset (concat ess)"

abbreviation "child_at Ts ess at j \<equiv> cursor.wrap_at (Ts ! j) (ess ! j) (at j)"

definition merge_at :: "'s itertbl list \<Rightarrow> kv list list \<Rightarrow> (nat \<Rightarrow> 's \<Rightarrow> nat \<Rightarrow> bool) \<Rightarrow> kv list \<Rightarrow> 's mergeiter \<Rightarrow> nat \<Rightarrow> bool" where
  "merge_at Ts ess at es mi i \<longleftrightarrow> mi_comparator mi = C \<and> length (mi_children mi) = length ess \<and> i \<le> length es
     \<and> (if i = length es
        then mi_current mi = None \<and> (\<forall>j < length ess. \<exists>p. child_at Ts ess at j (mi_children mi ! j) p)
        else (\<exists>c < length ess. mi_current mi = Some c \<and> es ! i \<in> set (ess ! c)
          \<and> (\<forall>j < length ess. child_at Ts ess at j (mi_children mi ! j)
               (if mi_direction mi = LDB_FORWARD then cut es (ess ! j) i else last_pos es (ess ! j) (i + 1)))))"

lemma sourcesD:
  assumes "merge_sources Ts ess at es"
  shows "kv_sorted es" "length Ts = length ess" "set es = \<Union> (set ` set ess)"
    and "j < length ess \<Longrightarrow> cursor (Ts ! j) (compare C) (ess ! j) (at j) ok"
    and "j < length ess \<Longrightarrow> kv_sorted (ess ! j)" "j < length ess \<Longrightarrow> set (ess ! j) \<subseteq> set es"
    and "i < length ess \<Longrightarrow> j < length ess \<Longrightarrow> i \<noteq> j \<Longrightarrow> x \<in> set (ess ! i) \<Longrightarrow> x \<notin> set (ess ! j)"
proof -
  show "set es = \<Union> (set ` set ess)" using assms mset_eq_setD [of es "concat ess"] by (simp add: merge_sources_def)
  then show "j < length ess \<Longrightarrow> set (ess ! j) \<subseteq> set es" by (auto dest: nth_mem)
  have "distinct (concat ess)" using assms kv_distinct [of es] mset_eq_imp_distinct_iff unfolding merge_sources_def by blast
  then show "i < length ess \<Longrightarrow> j < length ess \<Longrightarrow> i \<noteq> j \<Longrightarrow> x \<in> set (ess ! i) \<Longrightarrow> x \<notin> set (ess ! j)"
    by (rule disjoint_concat)
qed (use assms in \<open>simp_all add: merge_sources_def\<close>)

lemma owner:
  assumes "merge_sources Ts ess at es" "m < length es"
  shows "\<exists>c < length ess. es ! m \<in> set (ess ! c) \<and> (\<forall>j < length ess. j \<noteq> c \<longrightarrow> es ! m \<notin> set (ess ! j))"
proof -
  have "es ! m \<in> \<Union> (set ` set ess)" using sourcesD(3) [OF assms(1)] nth_mem [OF assms(2)] by simp
  then obtain c where "c < length ess" "es ! m \<in> set (ess ! c)" by (auto simp: in_set_conv_nth [of _ ess])
  with sourcesD(7) [OF assms(1)] show ?thesis by blast
qed

lemma find_smallest_at:
  assumes src: "merge_sources Ts ess at es" and m: "m \<le> length es"
    and mi: "mi_comparator mi = C" "length (mi_children mi) = length ess"
    and pos: "\<And>j. j < length ess \<Longrightarrow> child_at Ts ess at j (mi_children mi ! j) (cut es (ess ! j) m)"
  shows "\<exists>mi'. ldb_mergeiter_find_smallest mi = Some mi' \<and> merge_at Ts ess at es (mi'\<lparr>mi_direction := LDB_FORWARD\<rparr>) m
    \<and> mi_direction mi' = mi_direction mi"
proof (cases "m = length es")
  case True
  have "\<not> ldb_wrapiter_valid (mi_children mi ! j)" if "j < length ess" for j
    using cursor.wrap_valid [OF sourcesD(4) [OF src that] pos [OF that]] cut_all [OF sourcesD(6) [OF src that]] True by simp
  then have "find_best_loop (\<lambda>x y. compare C x y < 0) (mi_children mi) [0..<length ess] None = Some None"
    by (intro find_none) auto
  with True mi pos show ?thesis by (auto simp: ldb_mergeiter_find_smallest_def merge_at_def)
next
  case False
  with m have m: "m < length es" by simp
  obtain c where c: "c < length ess" "es ! m \<in> set (ess ! c)" "\<And>j. j < length ess \<Longrightarrow> j \<noteq> c \<Longrightarrow> es ! m \<notin> set (ess ! j)"
    using owner [OF src m] by blast
  define k where "k j = fst (ess ! j ! cut es (ess ! j) m)" for j
  have sub: "kv_sorted (ess ! j)" "set (ess ! j) \<subseteq> set es" if "j < length ess" for j
    using sourcesD [OF src] that by simp_all
  note own = cut_own [OF sourcesD(1) [OF src] sub [OF c(1)] m c(2)]
  have valid: "ldb_wrapiter_valid (mi_children mi ! j) \<longleftrightarrow> cut es (ess ! j) m < length (ess ! j)"
    and key: "cut es (ess ! j) m < length (ess ! j) \<Longrightarrow> ldb_wrapiter_key (mi_children mi ! j) = Some (k j)" if "j < length ess" for j
    using cursor.wrap_valid [OF sourcesD(4) [OF src that] pos [OF that]] cursor.wrap_key [OF sourcesD(4) [OF src that] pos [OF that]]
    by (simp_all add: k_def)
  have kc: "k c = fst (es ! m)" "ok (k c)" using own(2) kv_ok [OF sourcesD(1) [OF src] m] by (simp_all add: k_def)
  have less: "compare C (k c) (k j) < 0" "\<not> compare C (k j) (k c) < 0" if "j \<noteq> c" "j < length ess" "cut es (ess ! j) m < length (ess ! j)" for j
  proof -
    show "compare C (k c) (k j) < 0"
      using after_cut [OF sourcesD(1) [OF src] sub [OF that(2)] m c(3) [OF that(2,1)] that(3)] kc(1) by (simp add: k_def)
    moreover have "ok (k j)" using kv_ok [OF sub(1) [OF that(2)] that(3)] by (simp add: k_def)
    ultimately show "\<not> compare C (k j) (k c) < 0" using cmp_swap kc(2) by fastforce
  qed
  have "find_best_loop (\<lambda>x y. compare C x y < 0) (mi_children mi) [0..<length ess] None = Some (Some c)"
    by (rule find_best [where k = k]) (use valid key less own(1) c(1) cmp_refl [OF kc(2)] in auto)
  with m mi pos c show ?thesis
    by (intro exI [of _ "mi\<lparr>mi_current := Some c\<rparr>"]) (auto simp: ldb_mergeiter_find_smallest_def merge_at_def)
qed

lemma find_largest_at:
  assumes src: "merge_sources Ts ess at es" and m: "m \<le> length es"
    and mi: "mi_comparator mi = C" "length (mi_children mi) = length ess"
    and pos: "\<And>j. j < length ess \<Longrightarrow> child_at Ts ess at j (mi_children mi ! j) (last_pos es (ess ! j) m)"
  shows "\<exists>mi'. ldb_mergeiter_find_largest mi = Some mi' \<and> mi_direction mi' = mi_direction mi
    \<and> merge_at Ts ess at es (mi'\<lparr>mi_direction := LDB_REVERSE\<rparr>) (if m = 0 then length es else m - 1)"
proof (cases m)
  case 0
  have "\<not> ldb_wrapiter_valid (mi_children mi ! j)" if "j < length ess" for j
    using cursor.wrap_valid [OF sourcesD(4) [OF src that] pos [OF that]] 0 by (simp add: last_pos_def)
  then have "find_best_loop (\<lambda>x y. compare C x y > 0) (mi_children mi) (rev [0..<length ess]) None = Some None"
    by (intro find_none) auto
  with 0 mi pos show ?thesis by (auto simp: ldb_mergeiter_find_largest_def merge_at_def)
next
  case (Suc m')
  with m have m': "m' < length es" by simp
  obtain c where c: "c < length ess" "es ! m' \<in> set (ess ! c)" "\<And>j. j < length ess \<Longrightarrow> j \<noteq> c \<Longrightarrow> es ! m' \<notin> set (ess ! j)"
    using owner [OF src m'] by blast
  let ?p = "\<lambda>j. last_pos es (ess ! j) m"
  define k where "k j = fst (ess ! j ! ?p j)" for j
  have sub: "kv_sorted (ess ! j)" "set (ess ! j) \<subseteq> set es" if "j < length ess" for j
    using sourcesD [OF src] that by simp_all
  note own = cut_own [OF sourcesD(1) [OF src] sub [OF c(1)] m' c(2)]
  have pc: "?p c = cut es (ess ! c) m'" using last_pos_own [OF sourcesD(1) [OF src] sub [OF c(1)] m' c(2)] Suc by simp
  have valid: "ldb_wrapiter_valid (mi_children mi ! j) \<longleftrightarrow> ?p j < length (ess ! j)"
    and key: "?p j < length (ess ! j) \<Longrightarrow> ldb_wrapiter_key (mi_children mi ! j) = Some (k j)" if "j < length ess" for j
    using cursor.wrap_valid [OF sourcesD(4) [OF src that] pos [OF that]] cursor.wrap_key [OF sourcesD(4) [OF src that] pos [OF that]]
    by (simp_all add: k_def)
  have kc: "k c = fst (es ! m')" "ok (k c)" using own(2) pc kv_ok [OF sourcesD(1) [OF src] m'] by (simp_all add: k_def)
  have less: "compare C (k c) (k j) > 0" "\<not> compare C (k j) (k c) > 0" if "j \<noteq> c" "j < length ess" "?p j < length (ess ! j)" for j
  proof -
    have "compare C (k j) (k c) < 0"
      using before_cut [OF sourcesD(1) [OF src] sub [OF that(2)] m' c(3) [OF that(2,1)]] that(3) kc(1) Suc by (simp add: k_def)
    moreover have "ok (k j)" using kv_ok [OF sub(1) [OF that(2)] that(3)] by (simp add: k_def)
    ultimately show "compare C (k c) (k j) > 0" "\<not> compare C (k j) (k c) > 0" using cmp_swap kc(2) by fastforce+
  qed
  have "find_best_loop (\<lambda>x y. compare C x y > 0) (mi_children mi) (rev [0..<length ess]) None = Some (Some c)"
    by (rule find_best [where k = k]) (use valid key less own(1) pc c(1) cmp_refl [OF kc(2)] in auto)
  with m' mi pos c Suc show ?thesis
    by (intro exI [of _ "mi\<lparr>mi_current := Some c\<rparr>"]) (auto simp: ldb_mergeiter_find_largest_def merge_at_def)
qed

lemma set_direction_same: "mi_direction mi = d \<Longrightarrow> mi\<lparr>mi_direction := d\<rparr> = mi"
  by simp

lemma merge_children: "merge_at Ts ess at es mi i \<Longrightarrow> j < length ess \<Longrightarrow> \<exists>p. child_at Ts ess at j (mi_children mi ! j) p"
  by (auto simp: merge_at_def split: if_splits)

text \<open>The entry an iterator stands at: it belongs to the current child.\<close>

lemma merge_current:
  assumes "merge_sources Ts ess at es" "merge_at Ts ess at es mi i" "i < length es"
  obtains c where "mi_current mi = Some c" "c < length ess" "es ! i \<in> set (ess ! c)"
    and "\<And>j. j < length ess \<Longrightarrow> j \<noteq> c \<Longrightarrow> es ! i \<notin> set (ess ! j)"
    and "child_at Ts ess at c (mi_children mi ! c) (cut es (ess ! c) i)" "cut es (ess ! c) i < length (ess ! c)"
    and "ess ! c ! cut es (ess ! c) i = es ! i" "cut es (ess ! c) (i + 1) = cut es (ess ! c) i + 1"
    and "ldb_mergeiter_key mi = Some (fst (es ! i))" "ldb_mergeiter_value mi = Some (snd (es ! i))"
proof -
  from assms(2,3) obtain c where c: "mi_current mi = Some c" "c < length ess" "es ! i \<in> set (ess ! c)"
    and pos: "child_at Ts ess at c (mi_children mi ! c) (if mi_direction mi = LDB_FORWARD then cut es (ess ! c) i else last_pos es (ess ! c) (i + 1))"
    by (auto simp: merge_at_def)
  have srt: "kv_sorted es" "kv_sorted (ess ! c)" "set (ess ! c) \<subseteq> set es" using sourcesD [OF assms(1)] c(2) by simp_all
  note own = cut_own [OF srt assms(3) c(3)]
  have at: "child_at Ts ess at c (mi_children mi ! c) (cut es (ess ! c) i)"
    using pos last_pos_own [OF srt assms(3) c(3)] by (simp split: if_splits)
  note cur = sourcesD(4) [OF assms(1) c(2)]
  show ?thesis
  proof (rule that [OF c _ at own])
    show "j < length ess \<Longrightarrow> j \<noteq> c \<Longrightarrow> es ! i \<notin> set (ess ! j)" for j
      using sourcesD(7) [OF assms(1) c(2) _ _ c(3)] by blast
    show "ldb_mergeiter_key mi = Some (fst (es ! i))" "ldb_mergeiter_value mi = Some (snd (es ! i))"
      using cursor.wrap_key [OF cur at own(1)] cursor.wrap_value [OF cur at own(1)] own(2) c(1)
      by (simp_all add: ldb_mergeiter_key_def ldb_mergeiter_value_def)
  qed
qed

lemma turn_forward_at:
  assumes src: "merge_sources Ts ess at es" and i: "i < length es" and j: "j < length ess" "es ! i \<notin> set (ess ! j)"
    and w: "child_at Ts ess at j w p"
  shows "\<exists>w'. turn_forward C (fst (es ! i)) w = Some w' \<and> child_at Ts ess at j w' (cut es (ess ! j) i)"
proof -
  note cur = sourcesD(4) [OF src j(1)]
  have srt: "kv_sorted es" "kv_sorted (ess ! j)" "set (ess ! j) \<subseteq> set es" using sourcesD [OF src] j(1) by simp_all
  obtain w' where w': "ldb_wrapiter_seek w (fst (es ! i)) = Some w'" "child_at Ts ess at j w' (cut es (ess ! j) i)"
    using cursor.wrap_seek [OF cur w kv_ok [OF srt(1) i]] cut_first_ge [OF srt i] by auto
  have "compare C (fst (es ! i)) (fst (ess ! j ! cut es (ess ! j) i)) \<noteq> 0" if "cut es (ess ! j) i < length (ess ! j)"
    using after_cut [OF srt i j(2) that] by simp
  with w' cursor.wrap_valid [OF cur w'(2)] cursor.wrap_key [OF cur w'(2)] show ?thesis
    by (auto simp: turn_forward_def)
qed

lemma turn_reverse_at:
  assumes src: "merge_sources Ts ess at es" and i: "i < length es" and j: "j < length ess" "es ! i \<notin> set (ess ! j)"
    and w: "child_at Ts ess at j w p"
  shows "\<exists>w'. turn_reverse (fst (es ! i)) w = Some w' \<and> child_at Ts ess at j w' (last_pos es (ess ! j) i)"
proof -
  note cur = sourcesD(4) [OF src j(1)]
  have srt: "kv_sorted es" "kv_sorted (ess ! j)" "set (ess ! j) \<subseteq> set es" using sourcesD [OF src] j(1) by simp_all
  obtain w' where w': "ldb_wrapiter_seek w (fst (es ! i)) = Some w'" "child_at Ts ess at j w' (cut es (ess ! j) i)"
    using cursor.wrap_seek [OF cur w kv_ok [OF srt(1) i]] cut_first_ge [OF srt i] by auto
  show ?thesis
  proof (cases "cut es (ess ! j) i < length (ess ! j)")
    case True
    with w' cursor.wrap_valid [OF cur w'(2)] cursor.wrap_prev [OF cur w'(2)] show ?thesis
      by (simp add: turn_reverse_def last_pos_def)
  next
    case False
    then have "cut es (ess ! j) i = length (ess ! j)" using cut_le [of es "ess ! j" i] by simp
    with w' cursor.wrap_valid [OF cur w'(2)] cursor.wrap_seek_last [OF cur w'(2)] show ?thesis
      by (cases "ess ! j = []") (simp_all add: turn_reverse_def last_pos_def)
  qed
qed

lemma mergeiter_next_at:
  assumes src: "merge_sources Ts ess at es" and at: "merge_at Ts ess at es mi i" and i: "i < length es"
  shows "\<exists>mi'. ldb_mergeiter_next mi = Some mi' \<and> merge_at Ts ess at es mi' (i + 1)"
proof -
  obtain c where c: "mi_current mi = Some c" "c < length ess" "es ! i \<in> set (ess ! c)"
      "\<And>j. j < length ess \<Longrightarrow> j \<noteq> c \<Longrightarrow> es ! i \<notin> set (ess ! j)"
      "child_at Ts ess at c (mi_children mi ! c) (cut es (ess ! c) i)" "cut es (ess ! c) i < length (ess ! c)"
      "cut es (ess ! c) (i + 1) = cut es (ess ! c) i + 1" "ldb_mergeiter_key mi = Some (fst (es ! i))"
    by (rule merge_current [OF src at i]) blast
  have mi: "mi_comparator mi = C" "length (mi_children mi) = length ess" using at by (simp_all add: merge_at_def)
  have "\<exists>ws. (if mi_direction mi \<noteq> LDB_FORWARD
        then do { key \<leftarrow> ldb_mergeiter_key mi; turn_children (turn_forward (mi_comparator mi) key) c (mi_children mi) }
        else Some (mi_children mi)) = Some ws
      \<and> length ws = length ess \<and> (\<forall>j < length ess. child_at Ts ess at j (ws ! j) (cut es (ess ! j) i))"
  proof (cases "mi_direction mi = LDB_FORWARD")
    case True
    with at i mi show ?thesis by (auto simp: merge_at_def)
  next
    case False
    have "\<exists>w. turn_forward C (fst (es ! i)) (mi_children mi ! j) = Some w \<and> child_at Ts ess at j w (cut es (ess ! j) i)"
      if "j < length (mi_children mi)" "j \<noteq> c" for j
      using turn_forward_at [OF src i _ c(4)] merge_children [OF at] that mi(2) by metis
    from turn_children_each [of "mi_children mi" c "turn_forward C (fst (es ! i))"
        "\<lambda>j w. child_at Ts ess at j w (cut es (ess ! j) i)", OF this] c(5,8) False mi
    show ?thesis by simp
  qed
  then obtain ws where ws: "(if mi_direction mi \<noteq> LDB_FORWARD
        then do { key \<leftarrow> ldb_mergeiter_key mi; turn_children (turn_forward (mi_comparator mi) key) c (mi_children mi) }
        else Some (mi_children mi)) = Some ws" "length ws = length ess"
      and at_ws: "\<And>j. j < length ess \<Longrightarrow> child_at Ts ess at j (ws ! j) (cut es (ess ! j) i)" by blast
  obtain w where w: "ldb_wrapiter_next (ws ! c) = Some w" "child_at Ts ess at c w (cut es (ess ! c) (i + 1))"
    using cursor.wrap_next [OF sourcesD(4) [OF src c(2)] at_ws [OF c(2)] c(6)] c(7) by auto
  have "child_at Ts ess at j (ws[c := w] ! j) (cut es (ess ! j) (i + 1))" if "j < length ess" for j
    using w(2) at_ws [OF that] ws(2) c(2,4) that cut_other [OF i, of "ess ! j"] by (cases "j = c") auto
  then obtain mi' where "ldb_mergeiter_find_smallest (mi\<lparr>mi_children := ws[c := w], mi_direction := LDB_FORWARD\<rparr>) = Some mi'"
      "merge_at Ts ess at es (mi'\<lparr>mi_direction := LDB_FORWARD\<rparr>) (i + 1)" "mi_direction mi' = LDB_FORWARD"
    using find_smallest_at [OF src, of "i + 1" "mi\<lparr>mi_children := ws[c := w], mi_direction := LDB_FORWARD\<rparr>"] i mi ws(2) by auto
  then show ?thesis using c(1) ws(1) w(1) by (simp add: ldb_mergeiter_next_def set_direction_same)
qed

lemma mergeiter_prev_at:
  assumes src: "merge_sources Ts ess at es" and at: "merge_at Ts ess at es mi i" and i: "i < length es"
  shows "\<exists>mi'. ldb_mergeiter_prev mi = Some mi' \<and> merge_at Ts ess at es mi' (if i = 0 then length es else i - 1)"
proof -
  obtain c where c: "mi_current mi = Some c" "c < length ess" "es ! i \<in> set (ess ! c)"
      "\<And>j. j < length ess \<Longrightarrow> j \<noteq> c \<Longrightarrow> es ! i \<notin> set (ess ! j)"
      "child_at Ts ess at c (mi_children mi ! c) (cut es (ess ! c) i)" "cut es (ess ! c) i < length (ess ! c)"
      "ldb_mergeiter_key mi = Some (fst (es ! i))"
    by (rule merge_current [OF src at i]) blast
  define P where "P j w \<longleftrightarrow> child_at Ts ess at j w (if j = c then cut es (ess ! j) i else last_pos es (ess ! j) i)" for j w
  have mi: "mi_comparator mi = C" "length (mi_children mi) = length ess" using at by (simp_all add: merge_at_def)
  have "\<exists>ws. (if mi_direction mi \<noteq> LDB_REVERSE
        then do { key \<leftarrow> ldb_mergeiter_key mi; turn_children (turn_reverse key) c (mi_children mi) }
        else Some (mi_children mi)) = Some ws \<and> length ws = length ess \<and> (\<forall>j < length ess. P j (ws ! j))"
  proof (cases "mi_direction mi = LDB_REVERSE")
    case True
    then have "P j (mi_children mi ! j)" if "j < length ess" for j
    proof (cases "j = c")
      case False
      with True at i that last_pos_other [OF i c(4) [OF that False]] show ?thesis by (auto simp: merge_at_def P_def)
    qed (use c(5) in \<open>simp add: P_def\<close>)
    with True mi show ?thesis by simp
  next
    case False
    have "\<exists>w. turn_reverse (fst (es ! i)) (mi_children mi ! j) = Some w \<and> P j w"
      if "j < length (mi_children mi)" "j \<noteq> c" for j
    proof -
      have j: "j < length ess" using that(1) mi(2) by simp
      obtain p where "child_at Ts ess at j (mi_children mi ! j) p" using merge_children [OF at j] by blast
      from turn_reverse_at [OF src i j c(4) [OF j that(2)] this] that(2) show ?thesis by (simp add: P_def)
    qed
    moreover have "P c (mi_children mi ! c)" using c(5) by (simp add: P_def)
    ultimately show ?thesis
      using turn_children_each [of "mi_children mi" c "turn_reverse (fst (es ! i))" P] c(7) False mi by simp
  qed
  then obtain ws where ws: "(if mi_direction mi \<noteq> LDB_REVERSE
        then do { key \<leftarrow> ldb_mergeiter_key mi; turn_children (turn_reverse key) c (mi_children mi) }
        else Some (mi_children mi)) = Some ws" "length ws = length ess"
      and at_ws: "\<And>j. j < length ess \<Longrightarrow> P j (ws ! j)" by blast
  obtain w where w: "ldb_wrapiter_prev (ws ! c) = Some w" "child_at Ts ess at c w (last_pos es (ess ! c) i)"
    using cursor.wrap_prev [OF sourcesD(4) [OF src c(2)] _ c(6), of "ws ! c"] at_ws [OF c(2)]
    by (auto simp: P_def last_pos_def)
  have "child_at Ts ess at j (ws[c := w] ! j) (last_pos es (ess ! j) i)" if "j < length ess" for j
    using w(2) at_ws [OF that] ws(2) c(2) by (cases "j = c") (auto simp: P_def)
  then obtain mi' where "ldb_mergeiter_find_largest (mi\<lparr>mi_children := ws[c := w], mi_direction := LDB_REVERSE\<rparr>) = Some mi'"
      "merge_at Ts ess at es (mi'\<lparr>mi_direction := LDB_REVERSE\<rparr>) (if i = 0 then length es else i - 1)" "mi_direction mi' = LDB_REVERSE"
    using find_largest_at [OF src, of i "mi\<lparr>mi_children := ws[c := w], mi_direction := LDB_REVERSE\<rparr>"] i mi ws(2) by auto
  then show ?thesis using c(1) ws(1) w(1) by (simp add: ldb_mergeiter_prev_def set_direction_same)
qed

lemma merge_cursor:
  assumes src: "merge_sources Ts ess at es"
  shows "cursor ldb_mergeiter_table (compare C) es (merge_at Ts ess at es) ok"
proof
  fix mi i assume at: "merge_at Ts ess at es mi i"
  then have mi: "mi_comparator mi = C" "length (mi_children mi) = length ess" by (simp_all add: merge_at_def)
  have pos: "\<exists>p. child_at Ts ess at j (mi_children mi ! j) p" if "j < length (mi_children mi)" for j
    using merge_children [OF at] that mi(2) by simp
  note cur = sourcesD(4) [OF src] and tab = ldb_mergeiter_table_def
  show "i \<le> length es" using at by (simp add: merge_at_def)
  show "tbl_valid ldb_mergeiter_table mi = (i < length es)"
    using at by (auto simp: tab ldb_mergeiter_valid_def merge_at_def split: if_splits)
  show "i < length es \<Longrightarrow> tbl_key ldb_mergeiter_table mi = Some (fst (es ! i))"
    and "i < length es \<Longrightarrow> tbl_value ldb_mergeiter_table mi = Some (snd (es ! i))"
    by (simp add: tab, metis merge_current [OF src at])+
  have "ldb_wrapiter_status w = Some LDB_OK" if "w \<in> set (mi_children mi)" for w
    using that pos cursor.wrap_status [OF cur] mi(2) by (metis in_set_conv_nth)
  then show "tbl_status ldb_mergeiter_table mi = Some LDB_OK"
    by (simp add: tab ldb_mergeiter_status_def merge_status_ok)
  show "\<exists>s'. tbl_seek_first ldb_mergeiter_table mi = Some s' \<and> merge_at Ts ess at es s' 0"
  proof -
    have "\<exists>w. ldb_wrapiter_seek_first (mi_children mi ! j) = Some w \<and> child_at Ts ess at j w (cut es (ess ! j) 0)"
      if "j < length (mi_children mi)" for j
      using pos [OF that] cursor.wrap_seek_first [OF cur] that mi(2) by fastforce
    from those_map [of "mi_children mi" ldb_wrapiter_seek_first "\<lambda>j w. child_at Ts ess at j w (cut es (ess ! j) 0)", OF this]
    obtain ws where "those (map ldb_wrapiter_seek_first (mi_children mi)) = Some ws"
      "length ws = length ess" "\<forall>j < length ess. child_at Ts ess at j (ws ! j) (cut es (ess ! j) 0)" using mi(2) by auto
    with find_smallest_at [OF src, of 0 "mi\<lparr>mi_children := ws\<rparr>"] mi show ?thesis by (auto simp: tab ldb_mergeiter_seek_first_def)
  qed
  show "\<exists>s'. tbl_seek_last ldb_mergeiter_table mi = Some s' \<and> merge_at Ts ess at es s' (length es - 1)"
  proof -
    have "\<exists>w. ldb_wrapiter_seek_last (mi_children mi ! j) = Some w \<and> child_at Ts ess at j w (last_pos es (ess ! j) (length es))"
      if "j < length (mi_children mi)" for j
      using pos [OF that] cursor.wrap_seek_last [OF cur] that mi(2) cut_all [OF sourcesD(6) [OF src], of j]
      by (cases "ess ! j = []") (fastforce simp: last_pos_def)+
    from those_map [of "mi_children mi" ldb_wrapiter_seek_last "\<lambda>j w. child_at Ts ess at j w (last_pos es (ess ! j) (length es))", OF this]
    obtain ws where "those (map ldb_wrapiter_seek_last (mi_children mi)) = Some ws"
      "length ws = length ess" "\<forall>j < length ess. child_at Ts ess at j (ws ! j) (last_pos es (ess ! j) (length es))" using mi(2) by auto
    with find_largest_at [OF src, of "length es" "mi\<lparr>mi_children := ws\<rparr>"] mi show ?thesis
      by (auto simp: tab ldb_mergeiter_seek_last_def split: if_splits)
  qed
  show "\<exists>s'. tbl_seek ldb_mergeiter_table mi t = Some s' \<and> merge_at Ts ess at es s' (first_ge (compare C) es t)" if t: "ok t" for t
  proof -
    let ?m = "first_ge (compare C) es t"
    have "\<exists>w. ldb_wrapiter_seek (mi_children mi ! j) t = Some w \<and> child_at Ts ess at j w (cut es (ess ! j) ?m)"
      if "j < length (mi_children mi)" for j
      using pos [OF that] cursor.wrap_seek [OF cur _ t] that mi(2) seek_cut [OF sourcesD(1) [OF src] sourcesD(5,6) [OF src] t, of j]
      by fastforce
    from those_map [of "mi_children mi" "\<lambda>w. ldb_wrapiter_seek w t" "\<lambda>j w. child_at Ts ess at j w (cut es (ess ! j) ?m)", OF this]
    obtain ws where "those (map (\<lambda>w. ldb_wrapiter_seek w t) (mi_children mi)) = Some ws"
      "length ws = length ess" "\<forall>j < length ess. child_at Ts ess at j (ws ! j) (cut es (ess ! j) ?m)" using mi(2) by auto
    with find_smallest_at [OF src first_ge_le, of "mi\<lparr>mi_children := ws\<rparr>" "compare C" t] mi show ?thesis
      by (auto simp: tab ldb_mergeiter_seek_def)
  qed
  show "i < length es \<Longrightarrow> \<exists>s'. tbl_next ldb_mergeiter_table mi = Some s' \<and> merge_at Ts ess at es s' (i + 1)"
    using mergeiter_next_at [OF src at] by (simp add: tab)
  show "i < length es \<Longrightarrow> \<exists>s'. tbl_prev ldb_mergeiter_table mi = Some s' \<and> merge_at Ts ess at es s' (if i = 0 then length es else i - 1)"
    using mergeiter_prev_at [OF src at] by (simp add: tab)
qed

lemma mergeiter_init_at:
  assumes src: "merge_sources Ts ess at es"
    and "length children = length ess" "\<And>j. j < length ess \<Longrightarrow> fst (children ! j) = Ts ! j \<and> (\<exists>p. at j (snd (children ! j)) p)"
  shows "\<exists>mi. ldb_mergeiter_init C children = Some mi \<and> merge_at Ts ess at es mi (length es)"
proof -
  have "\<exists>w. ldb_wrapiter_init (Some (children ! j)) = Some w \<and> (\<exists>p. child_at Ts ess at j w p)" if "j < length children" for j
    using assms(2,3) that cursor.wrap_init [OF sourcesD(4) [OF src]] by (metis prod.collapse)
  from those_map [of children "\<lambda>child. ldb_wrapiter_init (Some child)" "\<lambda>j w. \<exists>p. child_at Ts ess at j w p", OF this] assms(2) show ?thesis
    by (auto simp: ldb_mergeiter_init_def merge_at_def)
qed

end

section \<open>Properties\<close>

text \<open>
  C32. Merging: over two or more iterators that meet the iterator contract for sorted lists of entries, with
  no key in two of them, the merging iterator meets the contract for the sorted list of all the entries.
  Seeks and steps may change direction at any point; a scan reads the union in key order and ends.
\<close>

theorem merging_iterator_correct:
  fixes children :: "'s iter list"
  assumes "key_order (compare C) ok" "2 \<le> length children" "length ess = length children"
    and "\<forall>j < length children. cursor (fst (children ! j)) (compare C) (ess ! j) (at j) ok
           \<and> (\<exists>p. at j (snd (children ! j)) p) \<and> sorted_wrt (\<lambda>a b. compare C (fst a) (fst b) < 0) (ess ! j)"
    and "mset es = mset (concat ess)" "sorted_wrt (\<lambda>a b. compare C (fst a) (fst b) < 0) es" "\<forall>e \<in> set es. ok (fst e)"
  shows "\<exists>mi at'. ldb_mergeiter_create C children = Some (Merged mi) \<and> at' mi (length es)
    \<and> cursor ldb_mergeiter_table (compare C) es at' ok
    \<and> (\<exists>mi1. ldb_mergeiter_seek_first mi = Some mi1 \<and> iter_scan ldb_mergeiter_table (length es) mi1 = Some es)"
proof -
  have co: "comparator_order C ok" using assms(1) by (simp add: comparator_order_def)
  note sorted_def = key_order.kv_sorted_def [OF assms(1)]
  have sub: "set (ess ! j) \<subseteq> set es" if "j < length ess" for j
    using mset_eq_setD [OF assms(5)] that by (auto dest: nth_mem)
  have "comparator_order.merge_sources C ok (map fst children) ess at es"
    using assms sub by (auto simp: comparator_order.merge_sources_def [OF co] sorted_def)
  note src = this and cur = comparator_order.merge_cursor [OF co this]
  obtain mi where mi: "ldb_mergeiter_init C children = Some mi"
      "comparator_order.merge_at C (map fst children) ess at es mi (length es)"
    using comparator_order.mergeiter_init_at [OF co src, of children] assms(3,4) by auto
  moreover have "ldb_mergeiter_create C children = Some (Merged mi)"
    using mi(1) assms(2) by (auto simp: ldb_mergeiter_create_def)
  moreover have "\<exists>mi1. ldb_mergeiter_seek_first mi = Some mi1 \<and> iter_scan ldb_mergeiter_table (length es) mi1 = Some es"
    using cursor.scan_all [OF cur mi(2)] by (simp add: ldb_mergeiter_table_def)
  ultimately show ?thesis using cur by blast
qed

abbreviation "built_block es \<equiv>
  bb_buffer (ldb_blockbuilder_finish (foldl (\<lambda>bb (k, v). ldb_blockbuilder_add bb k v) (ldb_blockbuilder_init 16) es))"

theorem merging_iterator_correct_witness:
  "\<exists>it1 it2 mi at. ldb_blockiter_create (ldb_block_init (built_block [([1], [7]), ([3], [8])]) True) bytewise_comparator = Inr it1
    \<and> ldb_blockiter_create (ldb_block_init (built_block [([2], [9])]) True) bytewise_comparator = Inr it2
    \<and> ldb_mergeiter_create bytewise_comparator [(ldb_blockiter_table, it1), (ldb_blockiter_table, it2)] = Some (Merged mi)
    \<and> at mi (Suc (Suc (Suc 0))) \<and> cursor ldb_mergeiter_table (compare bytewise_comparator) [([1], [7]), ([2], [9]), ([3], [8])] at (\<lambda>_. True)"
proof -
  let ?C = bytewise_comparator
  have len: "length (built_block [([1], [7]), ([3], [8])]) < 100" "length (built_block [([2], [9])]) < 100" by code_simp+
  have srt: "sorted_wrt (\<lambda>a b. compare ?C (fst a) (fst b) < 0) [([1], [7] :: bytes), ([3], [8])]"
    "sorted_wrt (\<lambda>a b. compare ?C (fst a) (fst b) < 0) [([1], [7] :: bytes), ([2], [9]), ([3], [8])]" by code_simp+
  obtain it1 at1 where it1: "ldb_blockiter_create (ldb_block_init (built_block [([1], [7]), ([3], [8])]) True) ?C = Inr it1"
      "at1 it1 (Suc (Suc 0))" "cursor ldb_blockiter_table (compare ?C) [([1], [7]), ([3], [8])] at1 (\<lambda>_. True)"
    by (rule built_block_cursor [OF bytewise.key_order_axioms srt(1) _ _ refl, of 16 True]) (use len in auto)
  obtain it2 at2 where it2: "ldb_blockiter_create (ldb_block_init (built_block [([2], [9])]) True) ?C = Inr it2"
      "at2 it2 (Suc 0)" "cursor ldb_blockiter_table (compare ?C) [([2], [9])] at2 (\<lambda>_. True)"
    by (rule built_block_cursor [OF bytewise.key_order_axioms _ _ _ refl, of "[([2], [9])]" 16 True]) (use len in auto)
  let ?children = "[(ldb_blockiter_table, it1), (ldb_blockiter_table, it2)]"
  let ?ess = "[[([1], [7]), ([3], [8])], [([2], [9])]] :: kv list list" and ?at = "\<lambda>j. if j = 0 then at1 else at2"
  have each: "\<forall>j < length ?children. cursor (fst (?children ! j)) (compare ?C) (?ess ! j) (?at j) (\<lambda>_. True)
      \<and> (\<exists>p. ?at j (snd (?children ! j)) p) \<and> sorted_wrt (\<lambda>a b. compare ?C (fst a) (fst b) < 0) (?ess ! j)"
    using it1(2,3) it2(2,3) srt(1) by (auto simp: less_Suc_eq)
  have "2 \<le> length ?children" "length ?ess = length ?children"
    "mset [([1], [7]), ([2], [9]), ([3], [8])] = mset (concat ?ess)" "\<forall>e \<in> set [([1], [7]), ([2], [9]), ([3], [8])]. True" by simp_all
  from merging_iterator_correct [OF bytewise.key_order_axioms this(1,2) each this(3) srt(2) this(4)]
  obtain mi at' where "ldb_mergeiter_create ?C ?children = Some (Merged mi)" "at' mi (Suc (Suc (Suc 0)))"
    "cursor ldb_mergeiter_table (compare ?C) [([1], [7]), ([2], [9]), ([3], [8])] at' (\<lambda>_. True)" by auto
  with it1(1) it2(1) show ?thesis
    by (intro exI [of _ it1] exI [of _ it2] exI [of _ mi] exI [of _ at'] conjI)
qed

end
