(* ===== verification/DbIter.thy ===== *)
theory DbIter
  imports Merger MemTable
begin

text \<open>
  The iterator of the database (\<^verbatim>\<open>src/src/db_iter.c\<close>): it combines the entries of an internal iterator, several
  versions and deletion marks of a user key, into the entries a snapshot sees. A call of
  \<^verbatim>\<open>ldb_record_read_sample\<close> is recorded in \<^term>\<open>di_samples\<close>; the capacities of the saved buffers, by which
  the source decides when to free memory, are left out.
\<close>

definition LDB_READ_BYTES_PERIOD :: nat where
  "LDB_READ_BYTES_PERIOD = 1048576"

record 's dbiter =
  di_ucmp :: comparator
  di_iter :: "'s iter"
  di_sequence :: u64
  di_status :: status
  di_saved_key :: bytes
  di_saved_value :: bytes
  di_direction :: direction
  di_valid :: bool
  di_rnd :: u32
  di_bytes_until :: nat
  di_samples :: "bytes list"

section \<open>Helpers\<close>

text \<open>Calls of the internal iterator.\<close>

definition internal_valid :: "'s dbiter \<Rightarrow> bool" where
  "internal_valid iter = (case di_iter iter of (T, s) \<Rightarrow> tbl_valid T s)"

definition internal_key :: "'s dbiter \<Rightarrow> bytes option" where
  "internal_key iter = (case di_iter iter of (T, s) \<Rightarrow> tbl_key T s)"

definition internal_value :: "'s dbiter \<Rightarrow> bytes option" where
  "internal_value iter = (case di_iter iter of (T, s) \<Rightarrow> tbl_value T s)"

definition internal_move :: "('s itertbl \<Rightarrow> 's \<Rightarrow> 's option) \<Rightarrow> 's dbiter \<Rightarrow> 's dbiter option" where
  "internal_move move iter =
     (case di_iter iter of (T, s) \<Rightarrow> do { s \<leftarrow> move T s; Some (iter\<lparr>di_iter := (T, s)\<rparr>) })"

definition random_compaction_period :: "'s dbiter \<Rightarrow> nat \<times> 's dbiter" where
  "random_compaction_period iter =
     (let (x, rnd) = ldb_rand_uniform (di_rnd iter) (word_of_nat (2 * LDB_READ_BYTES_PERIOD))
      in (unat x, iter\<lparr>di_rnd := rnd\<rparr>))"

partial_function (option) sample_loop :: "'s dbiter \<Rightarrow> bytes \<Rightarrow> nat \<Rightarrow> 's dbiter option" where
  "sample_loop iter k bytes_read =
     (if di_bytes_until iter < bytes_read then
        (let (n, iter) = random_compaction_period iter in
         sample_loop (iter\<lparr>di_bytes_until := di_bytes_until iter + n, di_samples := di_samples iter @ [k]\<rparr>) k bytes_read)
      else Some iter)"

definition parse_key :: "'s dbiter \<Rightarrow> (pkey option \<times> 's dbiter) option" where
  "parse_key iter =
     do { k \<leftarrow> internal_key iter;
          v \<leftarrow> internal_value iter;
          let bytes_read = length k + length v in
          do { iter \<leftarrow> sample_loop iter k bytes_read;
               let iter = iter\<lparr>di_bytes_until := di_bytes_until iter - bytes_read\<rparr> in
               Some (case ldb_pkey_import k of
                       None \<Rightarrow> (None, iter\<lparr>di_status := LDB_CORRUPTION\<rparr>)
                     | Some ikey \<Rightarrow> (Some ikey, iter)) } }"

definition clear_saved_value :: "'s dbiter \<Rightarrow> 's dbiter" where
  "clear_saved_value iter = iter\<lparr>di_saved_value := []\<rparr>"

text \<open>
  The body of the loop of \<^verbatim>\<open>find_next_user_entry\<close>, whose argument \<^verbatim>\<open>skip\<close> is always the saved key: whether the
  loop stops, and the new value of \<^verbatim>\<open>skipping\<close>.
\<close>

definition next_user_step :: "pkey option \<Rightarrow> bool \<Rightarrow> 's dbiter \<Rightarrow> bool \<times> bool \<times> 's dbiter" where
  "next_user_step r skipping iter =
     (case r of
        None \<Rightarrow> (False, skipping, iter)
      | Some ikey \<Rightarrow>
          if sequence ikey \<le> di_sequence iter then
            (case vtype ikey of
               LDB_TYPE_DELETION \<Rightarrow> (False, True, iter\<lparr>di_saved_key := user_key ikey\<rparr>)
             | LDB_TYPE_VALUE \<Rightarrow>
                 if skipping \<and> compare (di_ucmp iter) (user_key ikey) (di_saved_key iter) \<le> 0
                 then (False, skipping, iter)
                 else (True, skipping, iter\<lparr>di_valid := True, di_saved_key := []\<rparr>))
          else (False, skipping, iter))"

partial_function (option) next_user_loop :: "'s dbiter \<Rightarrow> bool \<Rightarrow> 's dbiter option" where
  "next_user_loop iter skipping =
     do { (r, iter) \<leftarrow> parse_key iter;
          let (stop, skipping, iter) = next_user_step r skipping iter in
          if stop then Some iter
          else
            do { iter \<leftarrow> internal_move tbl_next iter;
                 if internal_valid iter then next_user_loop iter skipping
                 else Some (iter\<lparr>di_saved_key := [], di_valid := False\<rparr>) } }"

definition find_next_user_entry :: "'s dbiter \<Rightarrow> bool \<Rightarrow> 's dbiter option" where
  "find_next_user_entry iter skipping =
     (if internal_valid iter \<and> di_direction iter = LDB_FORWARD then next_user_loop iter skipping else None)"

text \<open>The body of the loop of \<^verbatim>\<open>find_prev_user_entry\<close>: whether the loop is left, and the new value of \<^verbatim>\<open>value_type\<close>.\<close>

definition prev_user_step :: "pkey option \<Rightarrow> valtype \<Rightarrow> 's dbiter \<Rightarrow> (bool \<times> valtype \<times> 's dbiter) option" where
  "prev_user_step r value_type iter =
     (case r of
        None \<Rightarrow> Some (False, value_type, iter)
      | Some ikey \<Rightarrow>
          if sequence ikey \<le> di_sequence iter then
            if value_type \<noteq> LDB_TYPE_DELETION \<and> compare (di_ucmp iter) (user_key ikey) (di_saved_key iter) < 0
            then Some (True, value_type, iter)
            else
              (case vtype ikey of
                 LDB_TYPE_DELETION \<Rightarrow> Some (False, LDB_TYPE_DELETION, clear_saved_value (iter\<lparr>di_saved_key := []\<rparr>))
               | LDB_TYPE_VALUE \<Rightarrow>
                   do { key \<leftarrow> internal_key iter;
                        value \<leftarrow> internal_value iter;
                        Some (False, LDB_TYPE_VALUE,
                              iter\<lparr>di_saved_key := ldb_extract_user_key key, di_saved_value := value\<rparr>) })
          else Some (False, value_type, iter))"

partial_function (option) prev_user_loop :: "'s dbiter \<Rightarrow> valtype \<Rightarrow> (valtype \<times> 's dbiter) option" where
  "prev_user_loop iter value_type =
     do { (r, iter) \<leftarrow> parse_key iter;
          (stop, value_type, iter) \<leftarrow> prev_user_step r value_type iter;
          if stop then Some (value_type, iter)
          else
            do { iter \<leftarrow> internal_move tbl_prev iter;
                 if internal_valid iter then prev_user_loop iter value_type else Some (value_type, iter) } }"

definition find_prev_user_entry :: "'s dbiter \<Rightarrow> 's dbiter option" where
  "find_prev_user_entry iter =
     (if di_direction iter = LDB_REVERSE then
        do { (value_type, iter) \<leftarrow>
               (if internal_valid iter then prev_user_loop iter LDB_TYPE_DELETION else Some (LDB_TYPE_DELETION, iter));
             Some (if value_type = LDB_TYPE_DELETION
                   then clear_saved_value (iter\<lparr>di_valid := False, di_saved_key := []\<rparr>)\<lparr>di_direction := LDB_FORWARD\<rparr>
                   else iter\<lparr>di_valid := True\<rparr>) }
      else None)"

section \<open>The iterator\<close>

definition ldb_dbiter_init :: "comparator \<Rightarrow> 's iter \<Rightarrow> u64 \<Rightarrow> u32 \<Rightarrow> 's dbiter" where
  "ldb_dbiter_init ucmp internal_iter seq seed =
     (let iter = \<lparr>di_ucmp = ucmp, di_iter = internal_iter, di_sequence = seq, di_status = LDB_OK, di_saved_key = [],
                  di_saved_value = [], di_direction = LDB_FORWARD, di_valid = False, di_rnd = ldb_rand_init seed,
                  di_bytes_until = 0, di_samples = []\<rparr>;
          (n, iter) = random_compaction_period iter
      in iter\<lparr>di_bytes_until := n\<rparr>)"

definition ldb_dbiter_valid :: "'s dbiter \<Rightarrow> bool" where
  "ldb_dbiter_valid iter = di_valid iter"

definition ldb_dbiter_key :: "'s dbiter \<Rightarrow> bytes option" where
  "ldb_dbiter_key iter =
     (if \<not> di_valid iter then None
      else if di_direction iter = LDB_FORWARD then map_option ldb_extract_user_key (internal_key iter)
      else Some (di_saved_key iter))"

definition ldb_dbiter_value :: "'s dbiter \<Rightarrow> bytes option" where
  "ldb_dbiter_value iter =
     (if \<not> di_valid iter then None
      else if di_direction iter = LDB_FORWARD then internal_value iter
      else Some (di_saved_value iter))"

definition ldb_dbiter_status :: "'s dbiter \<Rightarrow> status option" where
  "ldb_dbiter_status iter =
     (if di_status iter = LDB_OK then (case di_iter iter of (T, s) \<Rightarrow> tbl_status T s) else Some (di_status iter))"

definition ldb_dbiter_next :: "'s dbiter \<Rightarrow> 's dbiter option" where
  "ldb_dbiter_next iter =
     (if \<not> di_valid iter then None
      else
        do { iter \<leftarrow>
               (if di_direction iter = LDB_REVERSE then
                  (let iter = iter\<lparr>di_direction := LDB_FORWARD\<rparr> in
                   if \<not> internal_valid iter then internal_move tbl_seek_first iter else internal_move tbl_next iter)
                else
                  do { key \<leftarrow> internal_key iter;
                       internal_move tbl_next (iter\<lparr>di_saved_key := ldb_extract_user_key key\<rparr>) });
             if \<not> internal_valid iter then Some (iter\<lparr>di_valid := False, di_saved_key := []\<rparr>)
             else find_next_user_entry iter True })"

text \<open>
  The loop of \<^verbatim>\<open>ldb_dbiter_prev\<close> that leaves the entries of the current user key; its flag is false when the
  internal iterator has no more entries.
\<close>

partial_function (option) leave_key_loop :: "'s dbiter \<Rightarrow> (bool \<times> 's dbiter) option" where
  "leave_key_loop iter =
     do { iter \<leftarrow> internal_move tbl_prev iter;
          if \<not> internal_valid iter then
            Some (False, clear_saved_value (iter\<lparr>di_valid := False, di_saved_key := []\<rparr>))
          else
            do { key \<leftarrow> internal_key iter;
                 if compare (di_ucmp iter) (ldb_extract_user_key key) (di_saved_key iter) < 0
                 then Some (True, iter) else leave_key_loop iter } }"

definition ldb_dbiter_prev :: "'s dbiter \<Rightarrow> 's dbiter option" where
  "ldb_dbiter_prev iter =
     (if \<not> di_valid iter then None
      else if di_direction iter = LDB_FORWARD then
        do { key \<leftarrow> internal_key iter;
             (found, iter) \<leftarrow> leave_key_loop (iter\<lparr>di_saved_key := ldb_extract_user_key key\<rparr>);
             if found then find_prev_user_entry (iter\<lparr>di_direction := LDB_REVERSE\<rparr>) else Some iter }
      else find_prev_user_entry iter)"

definition ldb_dbiter_seek :: "'s dbiter \<Rightarrow> bytes \<Rightarrow> 's dbiter option" where
  "ldb_dbiter_seek iter target =
     (let iter = clear_saved_value (iter\<lparr>di_direction := LDB_FORWARD\<rparr>);
          pkey = ldb_pkey_init target (di_sequence iter) LDB_VALTYPE_SEEK;
          iter = iter\<lparr>di_saved_key := ldb_pkey_export [] pkey\<rparr>
      in do { iter \<leftarrow> internal_move (\<lambda>T s. tbl_seek T s (di_saved_key iter)) iter;
              if internal_valid iter then find_next_user_entry iter False else Some (iter\<lparr>di_valid := False\<rparr>) })"

definition ldb_dbiter_seek_first :: "'s dbiter \<Rightarrow> 's dbiter option" where
  "ldb_dbiter_seek_first iter =
     do { iter \<leftarrow> internal_move tbl_seek_first (clear_saved_value (iter\<lparr>di_direction := LDB_FORWARD\<rparr>));
          if internal_valid iter then find_next_user_entry iter False else Some (iter\<lparr>di_valid := False\<rparr>) }"

definition ldb_dbiter_seek_last :: "'s dbiter \<Rightarrow> 's dbiter option" where
  "ldb_dbiter_seek_last iter =
     do { iter \<leftarrow> internal_move tbl_seek_last (clear_saved_value (iter\<lparr>di_direction := LDB_REVERSE\<rparr>));
          find_prev_user_entry iter }"

definition ldb_dbiter_table :: "'s dbiter itertbl" where
  "ldb_dbiter_table =
     \<lparr>tbl_valid = ldb_dbiter_valid, tbl_seek_first = ldb_dbiter_seek_first, tbl_seek_last = ldb_dbiter_seek_last,
      tbl_seek = ldb_dbiter_seek, tbl_next = ldb_dbiter_next, tbl_prev = ldb_dbiter_prev,
      tbl_key = ldb_dbiter_key, tbl_value = ldb_dbiter_value, tbl_status = ldb_dbiter_status\<rparr>"

definition ldb_dbiter_create :: "comparator \<Rightarrow> 's iter \<Rightarrow> u64 \<Rightarrow> u32 \<Rightarrow> 's dbiter iter" where
  "ldb_dbiter_create user_comparator internal_iter seq seed =
     (ldb_dbiter_table, ldb_dbiter_init user_comparator internal_iter seq seed)"

section \<open>Sampling ends\<close>

lemma no_two_zero_draws:
  assumes "seed_ok s" "unat (ldb_rand_next s) mod 2097152 = 0"
  shows "unat (ldb_rand_next (ldb_rand_next s)) mod 2097152 \<noteq> 0"
proof -
  define x where "x = unat (ldb_rand_next s)"
  have x: "0 < x" "x < 2147483647" using seed_ok_next [OF assms(1)] by (simp_all add: seed_ok_def x_def)
  define k where "k = x div 2097152"
  have k: "x = k * 2097152" "0 < k" "k < 1024" using assms(2) x unfolding k_def x_def by auto
  define a b where "a = k * 16807 div 1024" and "b = k * 16807 mod 1024"
  have ab: "k * 16807 = a * 1024 + b" "b < 1024" "0 < a" "a < 16807" using k by (auto simp: a_def b_def div_greater_zero_iff)
  have "x * 16807 = a * 2147483647 + (a + b * 2097152)" using k(1) ab(1) by simp
  moreover have "a + b * 2097152 < 2147483647" using ab by simp
  ultimately have "x * 16807 mod 2147483647 = a + b * 2097152" by (simp only: mod_mult_self3 mod_less)
  then have "unat (ldb_rand_next (ldb_rand_next s)) = a + b * 2097152"
    using unat_ldb_rand_next [OF seed_ok_next [OF assms(1)]] by (simp add: x_def)
  then show ?thesis using ab by simp
qed

lemma draw_period:
  "random_compaction_period iter = (unat (ldb_rand_next (di_rnd iter)) mod 2097152, iter\<lparr>di_rnd := ldb_rand_next (di_rnd iter)\<rparr>)"
  by (simp add: random_compaction_period_def LDB_READ_BYTES_PERIOD_def ldb_rand_uniform_def unat_mod Let_def)

text \<open>Sampling changes nothing but the random generator, the counter and the record of samples.\<close>

definition sampled :: "'s dbiter \<Rightarrow> 's dbiter \<Rightarrow> bool" where
  "sampled iter iter' \<longleftrightarrow> (\<exists>r b l. iter' = iter\<lparr>di_rnd := r, di_bytes_until := b, di_samples := l\<rparr> \<and> seed_ok r)"

lemma sampled_step: "seed_ok (di_rnd iter) \<Longrightarrow>
    sampled (iter\<lparr>di_rnd := ldb_rand_next (di_rnd iter), di_bytes_until := b, di_samples := l\<rparr>) iter' \<Longrightarrow> sampled iter iter'"
  by (auto simp: sampled_def)

lemma sample_loop_ends:
  "seed_ok (di_rnd iter) \<Longrightarrow> \<exists>iter'. sample_loop iter k n = Some iter' \<and> sampled iter iter' \<and> n \<le> di_bytes_until iter'"
proof (induction "n - di_bytes_until iter" arbitrary: iter rule: less_induct)
  case less
  let ?next = "\<lambda>it. it\<lparr>di_rnd := ldb_rand_next (di_rnd it),
    di_bytes_until := di_bytes_until it + unat (ldb_rand_next (di_rnd it)) mod 2097152, di_samples := di_samples it @ [k]\<rparr>"
  have step: "sample_loop it k n = (if di_bytes_until it < n then sample_loop (?next it) k n else Some it)" for it
    by (subst sample_loop.simps) (simp add: draw_period)
  have frame: "sampled it it'" if "sampled (?next it) it'" "seed_ok (di_rnd it)" for it it' :: "'a dbiter"
    using sampled_step [OF that(2)] that(1) by blast
  have ok1: "seed_ok (di_rnd (?next iter))" using seed_ok_next [OF less.prems] by simp
  show ?case
  proof (cases "di_bytes_until iter < n")
    case False
    then show ?thesis using step [of iter] less.prems
      by (auto simp: sampled_def intro!: exI [of _ "di_rnd iter"] exI [of _ "di_bytes_until iter"] exI [of _ "di_samples iter"])
  next
    case True
    show ?thesis
    proof (cases "unat (ldb_rand_next (di_rnd iter)) mod 2097152 = 0")
      case False
      then have "n - di_bytes_until (?next iter) < n - di_bytes_until iter" using True by simp
      from less.hyps [OF this ok1] frame [OF _ less.prems] step [of iter] True show ?thesis by auto
    next
      case zero: True
      let ?it = "?next (?next iter)"
      have "n - di_bytes_until ?it < n - di_bytes_until iter"
        using True no_two_zero_draws [OF less.prems zero] by simp
      moreover have "seed_ok (di_rnd ?it)" using seed_ok_next [OF ok1] by simp
      ultimately obtain it' where "sample_loop ?it k n = Some it'" "sampled ?it it'" "n \<le> di_bytes_until it'"
        using less.hyps by blast
      with frame [OF frame [OF _ ok1] less.prems, of it'] step [of iter] step [of "?next iter"] True zero show ?thesis by auto
    qed
  qed
qed

section \<open>What a snapshot sees\<close>

text \<open>
  Internal entries are in the order of the internal key comparator, so the newest version of a user key comes
  first. Of the versions that a snapshot sees the newest decides: the entry at \<^term>\<open>p\<close> is live when the
  snapshot sees it, it is a value, and no seen version of its user key comes before it.
\<close>

definition pk :: "kv \<Rightarrow> pkey" where
  "pk e = the (ldb_pkey_import (fst e))"

definition seen :: "u64 \<Rightarrow> kv \<Rightarrow> bool" where
  "seen s e \<longleftrightarrow> sequence (pk e) \<le> s"

definition live :: "comparator \<Rightarrow> u64 \<Rightarrow> kv list \<Rightarrow> nat \<Rightarrow> bool" where
  "live uc s es p \<longleftrightarrow> seen s (es ! p) \<and> vtype (pk (es ! p)) = LDB_TYPE_VALUE
     \<and> (\<forall>j < p. seen s (es ! j) \<longrightarrow> compare uc (user_key (pk (es ! j))) (user_key (pk (es ! p))) \<noteq> 0)"

definition live_pos :: "comparator \<Rightarrow> u64 \<Rightarrow> kv list \<Rightarrow> nat list" where
  "live_pos uc s es = filter (live uc s es) [0..<length es]"

definition user_view :: "comparator \<Rightarrow> u64 \<Rightarrow> kv list \<Rightarrow> kv list" where
  "user_view uc s es = map (\<lambda>p. (user_key (pk (es ! p)), snd (es ! p))) (live_pos uc s es)"

text \<open>Counting the positions below a bound that satisfy a predicate.\<close>

definition count_below :: "(nat \<Rightarrow> bool) \<Rightarrow> nat \<Rightarrow> nat" where
  "count_below P m = length (filter P [0..<m])"

lemma count_below_0 [simp]: "count_below P 0 = 0"
  by (simp add: count_below_def)

lemma count_below_Suc: "count_below P (Suc m) = count_below P m + (if P m then 1 else 0)"
  by (simp add: count_below_def)

lemma count_below_gap: "m \<le> q \<Longrightarrow> (\<And>j. m \<le> j \<Longrightarrow> j < q \<Longrightarrow> \<not> P j) \<Longrightarrow> count_below P q = count_below P m"
proof (induction q)
  case (Suc q)
  then show ?case by (cases "m = Suc q") (auto simp: count_below_Suc)
qed simp

lemma count_below_mono: "m \<le> q \<Longrightarrow> count_below P m \<le> count_below P q"
  by (induction q) (auto simp: count_below_Suc le_Suc_eq)

lemma nth_count_below:
  assumes "q < n" "P q"
  shows "count_below P q < length (filter P [0..<n])" "filter P [0..<n] ! count_below P q = q"
proof -
  have "[0..<n] = [0..<q] @ q # [Suc q..<n]" using assms(1) by (metis append_Cons append_Nil le0 less_imp_add_positive
        less_imp_le_nat upt_add_eq_append upt_conv_Cons add_0)
  then have "filter P [0..<n] = filter P [0..<q] @ q # filter P [Suc q..<n]" using assms(2) by simp
  then show "count_below P q < length (filter P [0..<n])" "filter P [0..<n] ! count_below P q = q"
    by (simp_all add: count_below_def nth_append)
qed

lemma count_below_nth:
  assumes "i < length (filter P [0..<n])"
  shows "count_below P (filter P [0..<n] ! i) = i" "filter P [0..<n] ! i < n" "P (filter P [0..<n] ! i)"
proof -
  have "filter P [0..<n] ! i \<in> set (filter P [0..<n])" using assms by (rule nth_mem)
  then show n: "filter P [0..<n] ! i < n" "P (filter P [0..<n] ! i)" by simp_all
  have "distinct (filter P [0..<n])" by simp
  with nth_count_below [of "filter P [0..<n] ! i" n P, OF n] assms show "count_below P (filter P [0..<n] ! i) = i" using nth_eq_iff_index_eq by blast
qed

section \<open>The iterator shows what the snapshot sees\<close>

context user_order
begin

definition internal_entries :: "kv list \<Rightarrow> bool" where
  "internal_entries es \<longleftrightarrow> sorted_wrt (\<lambda>a b. ldb_ikc_compare C (fst a) (fst b) < 0) es
     \<and> (\<forall>e \<in> set es. ldb_pkey_import (fst e) \<noteq> None \<and> ok (user_key (pk e)))"

abbreviation "uk es p \<equiv> user_key (pk (es ! p))"

lemma entry_key:
  assumes "internal_entries es" "p < length es"
  shows "ldb_pkey_import (fst (es ! p)) = Some (pk (es ! p))" "fst (es ! p) = ldb_pkey_write (pk (es ! p))"
    and "ldb_extract_user_key (fst (es ! p)) = uk es p" "ok (uk es p)" "seq_ok (sequence (pk (es ! p)))"
proof -
  show i: "ldb_pkey_import (fst (es ! p)) = Some (pk (es ! p))" and "ok (uk es p)"
    using assms by (auto simp: internal_entries_def pk_def)
  from ldb_pkey_import_Some [OF i] ldb_extract_user_key_write [of "pk (es ! p)"] show "fst (es ! p) = ldb_pkey_write (pk (es ! p))" "seq_ok (sequence (pk (es ! p)))"
    "ldb_extract_user_key (fst (es ! p)) = uk es p" by simp_all
qed

lemma uk_mono:
  assumes "internal_entries es" "i \<le> j" "j < length es"
  shows "compare C (uk es i) (uk es j) \<le> 0"
proof (cases "i = j")
  case False
  then have "ldb_ikc_compare C (fst (es ! i)) (fst (es ! j)) < 0"
    using assms by (simp add: internal_entries_def sorted_wrt_iff_nth_less)
  then show ?thesis using ikc_less_iff [of "fst (es ! i)" "fst (es ! j)"] entry_key [OF assms(1)] assms by fastforce
qed (use assms cmp_refl entry_key in auto)

lemma uk_eqI: "internal_entries es \<Longrightarrow> i \<le> j \<Longrightarrow> j < length es \<Longrightarrow> compare C (uk es j) (uk es i) \<le> 0 \<Longrightarrow> compare C (uk es i) (uk es j) = 0"
  using uk_mono [of es i j] cmp_ge_swap [of "uk es i" "uk es j"] entry_key(4) [of es] by fastforce

text \<open>The entries that the forward loop still has to yield when it stands at \<^term>\<open>p\<close>.\<close>

definition next_inv :: "u64 \<Rightarrow> kv list \<Rightarrow> (nat \<Rightarrow> bool) \<Rightarrow> nat \<Rightarrow> bool \<Rightarrow> bytes \<Rightarrow> bool" where
  "next_inv s es W p skipping skip \<longleftrightarrow>
     (\<forall>q. p \<le> q \<and> q < length es \<longrightarrow> (W q \<longleftrightarrow> seen s (es ! q) \<and> vtype (pk (es ! q)) = LDB_TYPE_VALUE
        \<and> (\<forall>j. p \<le> j \<and> j < q \<and> seen s (es ! j) \<longrightarrow> compare C (uk es j) (uk es q) \<noteq> 0)
        \<and> \<not> (skipping \<and> compare C (uk es q) skip \<le> 0)))
     \<and> (skipping \<longrightarrow> ok skip \<and> (\<forall>q. p \<le> q \<and> q < length es \<and> seen s (es ! q) \<longrightarrow> compare C skip (uk es q) \<le> 0))"

lemma from_here: "(\<forall>j. p \<le> j \<and> j < q \<and> S j \<longrightarrow> R j) \<longleftrightarrow> (p < q \<and> S p \<longrightarrow> R p) \<and> (\<forall>j. p + 1 \<le> j \<and> j < q \<and> S j \<longrightarrow> R j)"
  for p :: nat
  by (auto simp: le_eq_less_or_eq [of p] Suc_le_eq)

lemma next_invD:
  assumes "next_inv s es W p sk k" "p \<le> q" "q < length es"
  shows "W q \<longleftrightarrow> seen s (es ! q) \<and> vtype (pk (es ! q)) = LDB_TYPE_VALUE
      \<and> (p < q \<and> seen s (es ! p) \<longrightarrow> compare C (uk es p) (uk es q) \<noteq> 0)
      \<and> (\<forall>j. p + 1 \<le> j \<and> j < q \<and> seen s (es ! j) \<longrightarrow> compare C (uk es j) (uk es q) \<noteq> 0)
      \<and> \<not> (sk \<and> compare C (uk es q) k \<le> 0)"
    and "sk \<Longrightarrow> ok k" "sk \<Longrightarrow> seen s (es ! q) \<Longrightarrow> compare C k (uk es q) \<le> 0"
proof -
  have "W q \<longleftrightarrow> seen s (es ! q) \<and> vtype (pk (es ! q)) = LDB_TYPE_VALUE
      \<and> (\<forall>j. p \<le> j \<and> j < q \<and> seen s (es ! j) \<longrightarrow> compare C (uk es j) (uk es q) \<noteq> 0) \<and> \<not> (sk \<and> compare C (uk es q) k \<le> 0)"
    using assms by (simp add: next_inv_def)
  then show "W q \<longleftrightarrow> seen s (es ! q) \<and> vtype (pk (es ! q)) = LDB_TYPE_VALUE
      \<and> (p < q \<and> seen s (es ! p) \<longrightarrow> compare C (uk es p) (uk es q) \<noteq> 0)
      \<and> (\<forall>j. p + 1 \<le> j \<and> j < q \<and> seen s (es ! j) \<longrightarrow> compare C (uk es j) (uk es q) \<noteq> 0)
      \<and> \<not> (sk \<and> compare C (uk es q) k \<le> 0)" by (subst (asm) from_here) blast
  show "sk \<Longrightarrow> ok k" "sk \<Longrightarrow> seen s (es ! q) \<Longrightarrow> compare C k (uk es q) \<le> 0" using assms by (simp_all add: next_inv_def)
qed

lemma next_invI:
  assumes "\<And>q. p \<le> q \<Longrightarrow> q < length es \<Longrightarrow> W q \<longleftrightarrow> seen s (es ! q) \<and> vtype (pk (es ! q)) = LDB_TYPE_VALUE
      \<and> (\<forall>j. p \<le> j \<and> j < q \<and> seen s (es ! j) \<longrightarrow> compare C (uk es j) (uk es q) \<noteq> 0)
      \<and> \<not> (sk \<and> compare C (uk es q) k \<le> 0)"
    and "sk \<Longrightarrow> ok k" "\<And>q. sk \<Longrightarrow> p \<le> q \<Longrightarrow> q < length es \<Longrightarrow> seen s (es ! q) \<Longrightarrow> compare C k (uk es q) \<le> 0"
  shows "next_inv s es W p sk k"
  using assms unfolding next_inv_def by blast

lemma next_inv_unseen:
  assumes inv: "next_inv s es W p sk k" and p: "p < length es" "\<not> seen s (es ! p)"
  shows "\<not> W p" "next_inv s es W (p + 1) sk k"
proof -
  show "\<not> W p" using next_invD(1) [OF inv _ p(1)] p by simp
  show "next_inv s es W (p + 1) sk k"
  proof (rule next_invI)
    fix q assume q: "p + 1 \<le> q" "q < length es"
    then have "p \<le> q" by simp
    note d = next_invD [OF inv this q(2)]
    show "W q \<longleftrightarrow> seen s (es ! q) \<and> vtype (pk (es ! q)) = LDB_TYPE_VALUE
      \<and> (\<forall>j. p + 1 \<le> j \<and> j < q \<and> seen s (es ! j) \<longrightarrow> compare C (uk es j) (uk es q) \<noteq> 0)
      \<and> \<not> (sk \<and> compare C (uk es q) k \<le> 0)" unfolding d(1) using p(2) by blast
    show "sk \<Longrightarrow> seen s (es ! q) \<Longrightarrow> compare C k (uk es q) \<le> 0" by (rule d(3))
  qed (use next_invD(2) [OF inv _ p(1)] in blast)
qed

lemma next_inv_hidden:
  assumes es: "internal_entries es" and inv: "next_inv s es W p True k" and p: "p < length es" "compare C (uk es p) k \<le> 0"
  shows "\<not> W p" "next_inv s es W (p + 1) True k"
proof -
  show "\<not> W p" using next_invD(1) [OF inv _ p(1)] p by simp
  have k: "ok k" using next_invD(2) [OF inv _ p(1)] by simp
  show "next_inv s es W (p + 1) True k"
  proof (rule next_invI)
    fix q assume q: "p + 1 \<le> q" "q < length es"
    then have "p \<le> q" by simp
    note d = next_invD [OF inv this q(2)]
    have "compare C (uk es q) k \<le> 0" if "compare C (uk es p) (uk es q) = 0"
      using that p(2) cmp_le_trans [of "uk es q" "uk es p" k] cmp_eq_swap [of "uk es p" "uk es q"]
        entry_key(4) [OF es p(1)] entry_key(4) [OF es q(2)] k by simp
    then show "W q \<longleftrightarrow> seen s (es ! q) \<and> vtype (pk (es ! q)) = LDB_TYPE_VALUE
      \<and> (\<forall>j. p + 1 \<le> j \<and> j < q \<and> seen s (es ! j) \<longrightarrow> compare C (uk es j) (uk es q) \<noteq> 0)
      \<and> \<not> (True \<and> compare C (uk es q) k \<le> 0)" unfolding d(1) by blast
    show "seen s (es ! q) \<Longrightarrow> compare C k (uk es q) \<le> 0" by (rule d(3)) simp
  qed (rule k)
qed

lemma next_inv_deletion:
  assumes es: "internal_entries es" and inv: "next_inv s es W p sk k"
    and p: "p < length es" "seen s (es ! p)" "vtype (pk (es ! p)) = LDB_TYPE_DELETION"
  shows "\<not> W p" "next_inv s es W (p + 1) True (uk es p)"
proof -
  show "\<not> W p" using next_invD(1) [OF inv _ p(1)] p by simp
  show "next_inv s es W (p + 1) True (uk es p)"
  proof (rule next_invI)
    fix q assume q: "p + 1 \<le> q" "q < length es"
    then have pq: "p \<le> q" "p < q" by simp_all
    note d = next_invD [OF inv pq(1) q(2)] and ok = entry_key(4) [OF es p(1)] entry_key(4) [OF es q(2)]
    have same: "compare C (uk es q) (uk es p) \<le> 0 \<longleftrightarrow> compare C (uk es p) (uk es q) = 0"
      using uk_eqI [OF es pq(1) q(2)] cmp_eq_swap [OF ok] by auto
    have "compare C (uk es q) (uk es p) \<le> 0" if "sk" "compare C (uk es q) k \<le> 0"
      using that next_invD(2,3) [OF inv _ p(1)] p(2) cmp_le_trans [OF ok(2) _ ok(1), of k] by simp
    then show "W q \<longleftrightarrow> seen s (es ! q) \<and> vtype (pk (es ! q)) = LDB_TYPE_VALUE
      \<and> (\<forall>j. p + 1 \<le> j \<and> j < q \<and> seen s (es ! j) \<longrightarrow> compare C (uk es j) (uk es q) \<noteq> 0)
      \<and> \<not> (True \<and> compare C (uk es q) (uk es p) \<le> 0)" unfolding d(1) same using p(2) pq(2) by blast
    show "compare C (uk es p) (uk es q) \<le> 0" by (rule uk_mono [OF es pq(1) q(2)])
  qed (rule entry_key(4) [OF es p(1)])
qed

lemma next_inv_value:
  "next_inv s es W p sk k \<Longrightarrow> p < length es \<Longrightarrow> seen s (es ! p) \<Longrightarrow> vtype (pk (es ! p)) = LDB_TYPE_VALUE
     \<Longrightarrow> \<not> (sk \<and> compare C (uk es p) k \<le> 0) \<Longrightarrow> W p"
  by (auto simp: next_inv_def)

text \<open>An internal iterator that stands at \<^term>\<open>p\<close>, and the fields that no operation changes.\<close>

definition db_source :: "'s itertbl \<Rightarrow> kv list \<Rightarrow> ('s \<Rightarrow> nat \<Rightarrow> bool) \<Rightarrow> (bytes \<Rightarrow> bool) \<Rightarrow> bool" where
  "db_source T es at tok \<longleftrightarrow> cursor T (ldb_ikc_compare C) es at tok \<and> internal_entries es"

definition db_pos :: "'s itertbl \<Rightarrow> ('s \<Rightarrow> nat \<Rightarrow> bool) \<Rightarrow> u64 \<Rightarrow> 's dbiter \<Rightarrow> nat \<Rightarrow> bool" where
  "db_pos T at s it p \<longleftrightarrow> di_ucmp it = C \<and> di_sequence it = s \<and> di_status it = LDB_OK \<and> seed_ok (di_rnd it)
     \<and> (\<exists>st. di_iter it = (T, st) \<and> at st p)"

lemma db_sourceD: "db_source T es at tok \<Longrightarrow> cursor T (ldb_ikc_compare C) es at tok" "db_source T es at tok \<Longrightarrow> internal_entries es"
  by (simp_all add: db_source_def)

lemma db_pos_update [simp]:
  "db_pos T at s (it\<lparr>di_saved_key := k\<rparr>) p = db_pos T at s it p" "db_pos T at s (it\<lparr>di_saved_value := v\<rparr>) p = db_pos T at s it p"
  "db_pos T at s (it\<lparr>di_direction := d\<rparr>) p = db_pos T at s it p" "db_pos T at s (it\<lparr>di_valid := b\<rparr>) p = db_pos T at s it p"
  "db_pos T at s (clear_saved_value it) p = db_pos T at s it p"
  by (simp_all add: db_pos_def clear_saved_value_def)

lemma internal_entry:
  assumes "db_source T es at tok" "db_pos T at s it p"
  shows "internal_valid it \<longleftrightarrow> p < length es" "p \<le> length es"
    and "p < length es \<Longrightarrow> internal_key it = Some (fst (es ! p))" "p < length es \<Longrightarrow> internal_value it = Some (snd (es ! p))"
  using assms cursor.at_valid [OF db_sourceD(1) [OF assms(1)]] cursor.at_le [OF db_sourceD(1) [OF assms(1)]]
    cursor.at_key [OF db_sourceD(1) [OF assms(1)]] cursor.at_value [OF db_sourceD(1) [OF assms(1)]]
  by (auto simp: db_pos_def internal_valid_def internal_key_def internal_value_def)

text \<open>Operations of the internal iterator change only its position.\<close>

definition moved :: "'s dbiter \<Rightarrow> 's dbiter \<Rightarrow> bool" where
  "moved it it' \<longleftrightarrow> di_saved_key it' = di_saved_key it \<and> di_saved_value it' = di_saved_value it
     \<and> di_direction it' = di_direction it \<and> di_valid it' = di_valid it"

lemma moved_trans: "moved a b \<Longrightarrow> moved b c \<Longrightarrow> moved a c"
  by (simp add: moved_def)

lemma internal_moves:
  assumes src: "db_source T es at tok" and pos: "db_pos T at s it p"
  shows "\<exists>it'. internal_move tbl_seek_first it = Some it' \<and> moved it it' \<and> db_pos T at s it' 0"
    and "\<exists>it'. internal_move tbl_seek_last it = Some it' \<and> moved it it' \<and> db_pos T at s it' (length es - 1)"
    and "tok t \<Longrightarrow> \<exists>it'. internal_move (\<lambda>T s. tbl_seek T s t) it = Some it' \<and> moved it it' \<and> db_pos T at s it' (first_ge (ldb_ikc_compare C) es t)"
    and "p < length es \<Longrightarrow> \<exists>it'. internal_move tbl_next it = Some it' \<and> moved it it' \<and> db_pos T at s it' (p + 1)"
    and "p < length es \<Longrightarrow> \<exists>it'. internal_move tbl_prev it = Some it' \<and> moved it it' \<and> db_pos T at s it' (if p = 0 then length es else p - 1)"
proof -
  obtain st where st: "di_iter it = (T, st)" "at st p" using pos by (auto simp: db_pos_def)
  have "\<exists>it'. internal_move move it = Some it' \<and> moved it it' \<and> db_pos T at s it' q"
    if "\<exists>st'. move T st = Some st' \<and> at st' q" for move q
    using that st pos by (auto simp: internal_move_def moved_def db_pos_def)
  note step = this and cur = db_sourceD(1) [OF src]
  show "\<exists>it'. internal_move tbl_seek_first it = Some it' \<and> moved it it' \<and> db_pos T at s it' 0"
    by (rule step, rule cursor.seek_first [OF cur st(2)])
  show "\<exists>it'. internal_move tbl_seek_last it = Some it' \<and> moved it it' \<and> db_pos T at s it' (length es - 1)"
    by (rule step, rule cursor.seek_last [OF cur st(2)])
  show "tok t \<Longrightarrow> \<exists>it'. internal_move (\<lambda>T s. tbl_seek T s t) it = Some it' \<and> moved it it' \<and> db_pos T at s it' (first_ge (ldb_ikc_compare C) es t)"
    by (rule step, rule cursor.seek [OF cur st(2)])
  show "p < length es \<Longrightarrow> \<exists>it'. internal_move tbl_next it = Some it' \<and> moved it it' \<and> db_pos T at s it' (p + 1)"
    by (rule step, rule cursor.next_step [OF cur st(2)])
  show "p < length es \<Longrightarrow> \<exists>it'. internal_move tbl_prev it = Some it' \<and> moved it it' \<and> db_pos T at s it' (if p = 0 then length es else p - 1)"
    by (rule step, rule cursor.prev_step [OF cur st(2)])
qed

lemma parse_key_at:
  assumes "db_source T es at tok" "db_pos T at s it p" "p < length es"
  shows "\<exists>it'. parse_key it = Some (Some (pk (es ! p)), it') \<and> moved it it' \<and> db_pos T at s it' p"
proof -
  have "seed_ok (di_rnd it)" using assms(2) by (simp add: db_pos_def)
  from sample_loop_ends [OF this] obtain it' where it': "sample_loop it (fst (es ! p)) (length (fst (es ! p)) + length (snd (es ! p))) = Some it'"
    "sampled it it'" by blast
  then show ?thesis
    using internal_entry(3,4) [OF assms(1,2,3)] entry_key(1) [OF db_sourceD(2) [OF assms(1)] assms(3)] assms(2)
    by (auto simp: parse_key_def sampled_def moved_def db_pos_def)
qed

lemma next_user_loop_at:
  assumes src: "db_source T es at tok"
  shows "db_pos T at s it p \<Longrightarrow> p < length es \<Longrightarrow> next_inv s es W p sk (di_saved_key it) \<Longrightarrow>
    \<exists>it' q. next_user_loop it sk = Some it' \<and> di_direction it' = di_direction it \<and> db_pos T at s it' q \<and> p \<le> q
      \<and> (\<forall>j. p \<le> j \<and> j < q \<longrightarrow> \<not> W j) \<and> (if q < length es then W q \<and> di_valid it' else q = length es \<and> \<not> di_valid it')"
proof (induction "length es - p" arbitrary: it p sk rule: less_induct)
  case less
  note es = db_sourceD(2) [OF src] and p = less.prems(2) and inv = less.prems(3)
  let ?e = "es ! p"
  from parse_key_at [OF src less.prems(1,2)] obtain it1 where
    it1: "parse_key it = Some (Some (pk ?e), it1)" "moved it it1" "db_pos T at s it1 p" by blast
  have f: "di_ucmp it1 = C" "di_sequence it1 = s" "di_saved_key it1 = di_saved_key it"
    using it1(2,3) by (simp_all add: db_pos_def moved_def)
  show ?case
  proof (cases "seen s ?e \<and> vtype (pk ?e) = LDB_TYPE_VALUE \<and> \<not> (sk \<and> compare C (uk es p) (di_saved_key it) \<le> 0)")
    case True
    then have "next_user_step (Some (pk ?e)) sk it1 = (True, sk, it1\<lparr>di_valid := True, di_saved_key := []\<rparr>)"
      using f by (simp add: next_user_step_def seen_def)
    with it1 next_inv_value [OF inv p] True p show ?thesis
      by (subst next_user_loop.simps) (auto simp: moved_def intro!: exI [of _ p])
  next
    case False
    obtain sk' it2 where step: "next_user_step (Some (pk ?e)) sk it1 = (False, sk', it2)" "db_pos T at s it2 p"
        "di_direction it2 = di_direction it" "\<not> W p" "next_inv s es W (p + 1) sk' (di_saved_key it2)"
    proof (cases "seen s ?e")
      case un: False
      then have "next_user_step (Some (pk ?e)) sk it1 = (False, sk, it1)" using f by (simp add: next_user_step_def seen_def)
      with next_inv_unseen [OF inv p un] it1 f that show ?thesis by (simp add: moved_def)
    next
      case seen: True
      show ?thesis
      proof (cases "vtype (pk ?e)")
        case LDB_TYPE_DELETION
        then have "next_user_step (Some (pk ?e)) sk it1 = (False, True, it1\<lparr>di_saved_key := uk es p\<rparr>)"
          using f seen by (simp add: next_user_step_def seen_def)
        with next_inv_deletion [OF es inv p seen LDB_TYPE_DELETION] it1 that show ?thesis by (simp add: moved_def)
      next
        case LDB_TYPE_VALUE
        with False seen have hid: "sk" "compare C (uk es p) (di_saved_key it) \<le> 0" by auto
        then have "next_user_step (Some (pk ?e)) sk it1 = (False, sk, it1)"
          using f seen LDB_TYPE_VALUE by (simp add: next_user_step_def seen_def)
        with next_inv_hidden [OF es, of s W p "di_saved_key it"] inv hid it1 f p that show ?thesis by (simp add: moved_def)
      qed
    qed
    from internal_moves(4) [OF src step(2) p] obtain it3 where
      it3: "internal_move tbl_next it2 = Some it3" "moved it2 it3" "db_pos T at s it3 (p + 1)" by blast
    have more: "j = p \<or> p + 1 \<le> j" if "p \<le> j" for j using that by auto
    show ?thesis
    proof (cases "p + 1 < length es")
      case True
      have lt: "length es - (p + 1) < length es - p" using p by simp
      have "next_inv s es W (p + 1) sk' (di_saved_key it3)" using step(5) it3(2) by (simp add: moved_def)
      from less.hyps [OF lt it3(3) True this] obtain it' q where
        "next_user_loop it3 sk' = Some it'" "di_direction it' = di_direction it3" "db_pos T at s it' q" "p + 1 \<le> q"
        "\<forall>j. p + 1 \<le> j \<and> j < q \<longrightarrow> \<not> W j" "if q < length es then W q \<and> di_valid it' else q = length es \<and> \<not> di_valid it'" by blast
      moreover have "next_user_loop it sk = next_user_loop it3 sk'"
        using it1(1) step(1) it3(1) True internal_entry(1) [OF src it3(3)] by (subst next_user_loop.simps) simp
      moreover have "\<forall>j. p \<le> j \<and> j < q \<longrightarrow> \<not> W j" using more step(4) calculation(5) by blast
      moreover have "di_direction it3 = di_direction it" "p \<le> q" using step(3) it3(2) calculation(4) by (simp_all add: moved_def)
      ultimately show ?thesis by metis
    next
      case False
      then have q: "p + 1 = length es" using p by simp
      then have "next_user_loop it sk = Some (it3\<lparr>di_saved_key := [], di_valid := False\<rparr>)"
        using it1(1) step(1) it3(1) internal_entry(1) [OF src it3(3)] by (subst next_user_loop.simps) simp
      moreover have "\<not> W j" if "p \<le> j" "j < length es" for j
        using that q step(4) by (cases "j = p") simp_all
      moreover have "db_pos T at s it3 (length es)" using it3(3) q by simp
      ultimately show ?thesis using p it3(2) step(3)
        by (intro exI [of _ "it3\<lparr>di_saved_key := [], di_valid := False\<rparr>"] exI [of _ "length es"]) (simp add: moved_def)
    qed
  qed
qed

text \<open>
  The iterator stands at entry \<^term>\<open>i\<close> of what the snapshot sees. Going forward the internal iterator stands
  at the entry itself; going back it stands before it, and no seen entry lies between.
\<close>

definition behind :: "kv list \<Rightarrow> nat \<Rightarrow> nat" where
  "behind es p = (if p = 0 then length es else p - 1)"

definition reverse_at :: "'s itertbl \<Rightarrow> kv list \<Rightarrow> ('s \<Rightarrow> nat \<Rightarrow> bool) \<Rightarrow> u64 \<Rightarrow> 's dbiter \<Rightarrow> nat \<Rightarrow> bool" where
  "reverse_at T es at s it v \<longleftrightarrow> di_saved_key it = uk es v \<and> di_saved_value it = snd (es ! v)
     \<and> (\<exists>p \<le> v. db_pos T at s it (behind es p) \<and> (\<forall>j. p \<le> j \<and> j < v \<longrightarrow> \<not> seen s (es ! j)))"

definition view_at :: "'s itertbl \<Rightarrow> kv list \<Rightarrow> ('s \<Rightarrow> nat \<Rightarrow> bool) \<Rightarrow> u64 \<Rightarrow> 's dbiter \<Rightarrow> nat \<Rightarrow> bool" where
  "view_at T es at s it i \<longleftrightarrow> i \<le> length (live_pos C s es)
     \<and> (if i = length (live_pos C s es) then \<not> di_valid it \<and> (\<exists>p. db_pos T at s it p)
        else di_valid it \<and> (if di_direction it = LDB_FORWARD then db_pos T at s it (live_pos C s es ! i)
          else reverse_at T es at s it (live_pos C s es ! i)))"

abbreviation "rank s es m \<equiv> count_below (live C s es) m"

lemma rank_live:
  assumes "q < length es" "live C s es q"
  shows "rank s es q < length (live_pos C s es)" "live_pos C s es ! rank s es q = q"
  using nth_count_below [of q "length es" "live C s es", OF assms] by (simp_all add: live_pos_def)

lemma rank_all: "rank s es (length es) = length (live_pos C s es)"
  by (simp add: count_below_def live_pos_def)

lemma rank_pos:
  assumes "i < length (live_pos C s es)"
  shows "rank s es (live_pos C s es ! i) = i" "live_pos C s es ! i < length es" "live C s es (live_pos C s es ! i)"
  using count_below_nth [of i "live C s es" "length es"] assms by (simp_all add: live_pos_def)

lemma find_next_at:
  assumes src: "db_source T es at tok" and pos: "db_pos T at s it p" "p < length es" "di_direction it = LDB_FORWARD"
    and inv: "next_inv s es (\<lambda>q. live C s es q \<and> m \<le> q) p sk (di_saved_key it)" and m: "p \<le> m" "m \<le> length es"
  shows "\<exists>it'. find_next_user_entry it sk = Some it' \<and> view_at T es at s it' (rank s es m)"
proof -
  from next_user_loop_at [OF src pos(1,2) inv] obtain it' q where
    it': "next_user_loop it sk = Some it'" "di_direction it' = di_direction it" "db_pos T at s it' q" "p \<le> q"
    and none: "\<forall>j. p \<le> j \<and> j < q \<longrightarrow> \<not> (live C s es j \<and> m \<le> j)"
    and q: "if q < length es then (live C s es q \<and> m \<le> q) \<and> di_valid it' else q = length es \<and> \<not> di_valid it'" by blast
  have mq: "m \<le> q" using q m(2) by (simp split: if_splits)
  have rank: "rank s es q = rank s es m" using none m(1) by (intro count_below_gap [OF mq]) (meson le_trans)
  have "find_next_user_entry it sk = Some it'"
    using it'(1) pos internal_entry(1) [OF src pos(1)] by (simp add: find_next_user_entry_def)
  moreover have "view_at T es at s it' (rank s es m)"
  proof (cases "q < length es")
    case True
    with q it' pos(3) rank_live [OF True, of s] rank show ?thesis by (auto simp: view_at_def)
  next
    case False
    with q it' rank rank_all [of s es] show ?thesis by (auto simp: view_at_def)
  qed
  ultimately show ?thesis by blast
qed

text \<open>The backward loop has processed the entries from \<^term>\<open>p\<close> up to \<^term>\<open>R\<close>.\<close>

definition prev_inv :: "u64 \<Rightarrow> kv list \<Rightarrow> nat \<Rightarrow> nat \<Rightarrow> valtype \<Rightarrow> 's dbiter \<Rightarrow> bool" where
  "prev_inv s es R p vt it \<longleftrightarrow>
     (case vt of
        LDB_TYPE_DELETION \<Rightarrow> \<forall>q. p \<le> q \<and> q < R \<longrightarrow> \<not> live C s es q
      | LDB_TYPE_VALUE \<Rightarrow> \<exists>v. p \<le> v \<and> v < R \<and> seen s (es ! v) \<and> vtype (pk (es ! v)) = LDB_TYPE_VALUE
          \<and> (\<forall>j. p \<le> j \<and> j < v \<longrightarrow> \<not> seen s (es ! j)) \<and> (\<forall>q. v < q \<and> q < R \<longrightarrow> \<not> live C s es q)
          \<and> di_saved_key it = uk es v \<and> di_saved_value it = snd (es ! v))"

lemma prev_inv_unseen:
  assumes inv: "prev_inv s es R (p + 1) vt it" and un: "\<not> seen s (es ! p)"
  shows "prev_inv s es R p vt it"
proof -
  have split: "q = p \<or> p + 1 \<le> q" if "p \<le> q" for q using that by auto
  show ?thesis
  proof (cases vt)
    case LDB_TYPE_DELETION
    with inv un split show ?thesis by (simp add: prev_inv_def) (metis live_def)
  next
    case LDB_TYPE_VALUE
    with inv obtain v where v: "p + 1 \<le> v" "v < R" "seen s (es ! v)" "vtype (pk (es ! v)) = LDB_TYPE_VALUE"
      "\<forall>j. p + 1 \<le> j \<and> j < v \<longrightarrow> \<not> seen s (es ! j)" "\<forall>q. v < q \<and> q < R \<longrightarrow> \<not> live C s es q"
      "di_saved_key it = uk es v" "di_saved_value it = snd (es ! v)" by (auto simp: prev_inv_def)
    moreover have "\<forall>j. p \<le> j \<and> j < v \<longrightarrow> \<not> seen s (es ! j)" using v(5) un split by blast
    ultimately show ?thesis using LDB_TYPE_VALUE by (simp add: prev_inv_def) (rule exI [of _ v], simp)
  qed
qed

lemma prev_inv_step:
  assumes es: "internal_entries es" and inv: "prev_inv s es R (p + 1) vt it" and R: "R \<le> length es" and p: "seen s (es ! p)"
    and stay: "\<not> (vt = LDB_TYPE_VALUE \<and> compare C (uk es p) (di_saved_key it) < 0)"
  shows "\<forall>q. p < q \<and> q < R \<longrightarrow> \<not> live C s es q"
proof (cases vt)
  case LDB_TYPE_DELETION
  with inv show ?thesis by (auto simp: prev_inv_def)
next
  case LDB_TYPE_VALUE
  with inv obtain v where v: "p + 1 \<le> v" "v < R" "\<forall>j. p + 1 \<le> j \<and> j < v \<longrightarrow> \<not> seen s (es ! j)"
    "\<forall>q. v < q \<and> q < R \<longrightarrow> \<not> live C s es q" "di_saved_key it = uk es v" by (auto simp: prev_inv_def)
  have "compare C (uk es p) (uk es v) = 0"
    using uk_mono [OF es, of p v] v(1,2) R stay LDB_TYPE_VALUE v(5) by simp
  moreover have "p < v" using v(1) by simp
  ultimately have "\<not> live C s es v" using p unfolding live_def by blast
  then show ?thesis using v(3,4) by (metis Suc_eq_plus1 Suc_leI live_def linorder_neqE_nat)
qed

lemma stop_live:
  assumes es: "internal_entries es" and v: "v < length es" "seen s (es ! v)" "vtype (pk (es ! v)) = LDB_TYPE_VALUE"
    and gap: "\<forall>j. p + 1 \<le> j \<and> j < v \<longrightarrow> \<not> seen s (es ! j)" and less: "p < v" "compare C (uk es p) (uk es v) < 0"
  shows "live C s es v"
proof -
  have "compare C (uk es j) (uk es v) < 0" if "j < v" "seen s (es ! j)" for j
  proof -
    have "j \<le> p" using gap that by (metis Suc_eq_plus1 not_less_eq_eq)
    then show ?thesis using uk_mono [OF es, of j p] less v(1) entry_key(4) [OF es] that(1)
        cmp_le_less_trans [of "uk es j" "uk es p" "uk es v"] by simp
  qed
  then show ?thesis using v by (fastforce simp: live_def)
qed

lemma prev_user_loop_at:
  assumes src: "db_source T es at tok" and R: "R \<le> length es"
  shows "db_pos T at s it p \<Longrightarrow> p < R \<Longrightarrow> prev_inv s es R (p + 1) vt it \<Longrightarrow>
    \<exists>vt' it'. prev_user_loop it vt = Some (vt', it') \<and> di_direction it' = di_direction it
      \<and> (case vt' of
           LDB_TYPE_DELETION \<Rightarrow> (\<forall>q < R. \<not> live C s es q) \<and> (\<exists>p. db_pos T at s it' p)
         | LDB_TYPE_VALUE \<Rightarrow> \<exists>v < R. live C s es v \<and> (\<forall>q. v < q \<and> q < R \<longrightarrow> \<not> live C s es q) \<and> reverse_at T es at s it' v)"
proof (induction p arbitrary: it vt rule: less_induct)
  case (less p)
  note es = db_sourceD(2) [OF src] and inv = less.prems(3)
  have p: "p < length es" using less.prems(2) R by simp
  let ?e = "es ! p"
  from parse_key_at [OF src less.prems(1) p] obtain it1 where
    it1: "parse_key it = Some (Some (pk ?e), it1)" "moved it it1" "db_pos T at s it1 p" by blast
  have f: "di_ucmp it1 = C" "di_sequence it1 = s" "di_saved_key it1 = di_saved_key it" "di_saved_value it1 = di_saved_value it"
      "di_direction it1 = di_direction it"
    using it1(2,3) by (simp_all add: db_pos_def moved_def)
  show ?case
  proof (cases "seen s ?e \<and> vt = LDB_TYPE_VALUE \<and> compare C (uk es p) (di_saved_key it) < 0")
    case True
    then have step: "prev_user_step (Some (pk ?e)) vt it1 = Some (True, vt, it1)"
      using f by (simp add: prev_user_step_def seen_def)
    from inv True obtain v where v: "p + 1 \<le> v" "v < R" "seen s (es ! v)" "vtype (pk (es ! v)) = LDB_TYPE_VALUE"
      "\<forall>j. p + 1 \<le> j \<and> j < v \<longrightarrow> \<not> seen s (es ! j)" "\<forall>q. v < q \<and> q < R \<longrightarrow> \<not> live C s es q"
      "di_saved_key it = uk es v" "di_saved_value it = snd (es ! v)" by (auto simp: prev_inv_def)
    have "live C s es v" by (rule stop_live [OF es _ v(3,4,5)]) (use v True R in auto)
    moreover have "reverse_at T es at s it1 v"
      unfolding reverse_at_def using v it1(3) f by (intro conjI exI [of _ "p + 1"]) (auto simp: behind_def)
    ultimately have "\<exists>v < R. live C s es v \<and> (\<forall>q. v < q \<and> q < R \<longrightarrow> \<not> live C s es q) \<and> reverse_at T es at s it1 v"
      using v(2,6) by blast
    with True step it1(1) f(5) show ?thesis by (subst prev_user_loop.simps) simp
  next
    case False
    obtain vt2 it2 where step: "prev_user_step (Some (pk ?e)) vt it1 = Some (False, vt2, it2)" "db_pos T at s it2 p"
        "di_direction it2 = di_direction it" "prev_inv s es R p vt2 it2"
    proof (cases "seen s ?e")
      case un: False
      then have "prev_user_step (Some (pk ?e)) vt it1 = Some (False, vt, it1)" using f by (simp add: prev_user_step_def seen_def)
      moreover have "prev_inv s es R p vt it1"
        using prev_inv_unseen [OF inv un] f by (simp add: prev_inv_def split: valtype.splits)
      ultimately show ?thesis using it1(3) f(5) by (intro that [of vt it1])
    next
      case seen: True
      then have later: "\<forall>q. p < q \<and> q < R \<longrightarrow> \<not> live C s es q" using prev_inv_step [OF es inv R seen] False by auto
      show ?thesis
      proof (cases "vtype (pk ?e)")
        case LDB_TYPE_DELETION
        then have "prev_user_step (Some (pk ?e)) vt it1
            = Some (False, LDB_TYPE_DELETION, clear_saved_value (it1\<lparr>di_saved_key := []\<rparr>))"
          using f seen False by (cases vt) (simp_all add: prev_user_step_def seen_def)
        moreover have "\<not> live C s es p" using LDB_TYPE_DELETION by (simp add: live_def)
        then have "prev_inv s es R p LDB_TYPE_DELETION it'" for it' :: "'a dbiter"
          using later by (auto simp: prev_inv_def le_less)
        ultimately show ?thesis using it1(3) f(5)
          by (intro that [of LDB_TYPE_DELETION "clear_saved_value (it1\<lparr>di_saved_key := []\<rparr>)"]) (simp_all add: clear_saved_value_def)
      next
        case LDB_TYPE_VALUE
        have "prev_user_step (Some (pk ?e)) vt it1
            = Some (False, LDB_TYPE_VALUE, it1\<lparr>di_saved_key := uk es p, di_saved_value := snd (es ! p)\<rparr>)"
          using f seen False LDB_TYPE_VALUE internal_entry(3,4) [OF src it1(3) p] entry_key(3) [OF es p]
          by (cases vt) (simp_all add: prev_user_step_def seen_def)
        moreover have "prev_inv s es R p LDB_TYPE_VALUE (it1\<lparr>di_saved_key := uk es p, di_saved_value := snd (es ! p)\<rparr>)"
          using seen LDB_TYPE_VALUE later less.prems(2) by (auto simp: prev_inv_def)
        ultimately show ?thesis using it1(3) f(5)
          by (intro that [of LDB_TYPE_VALUE "it1\<lparr>di_saved_key := uk es p, di_saved_value := snd (es ! p)\<rparr>"]) simp_all
      qed
    qed
    from internal_moves(5) [OF src step(2) p] obtain it3 where
      it3: "internal_move tbl_prev it2 = Some it3" "moved it2 it3" "db_pos T at s it3 (behind es p)"
      by (auto simp: behind_def)
    have inv3: "prev_inv s es R p vt2 it3" using step(4) it3(2) by (simp add: prev_inv_def moved_def split: valtype.splits)
    show ?thesis
    proof (cases "p = 0")
      case False
      have "p - 1 < p" "p - 1 < R" "prev_inv s es R (p - 1 + 1) vt2 it3" "db_pos T at s it3 (p - 1)"
        using False less.prems(2) inv3 it3(3) by (simp_all add: behind_def)
      note IH = less.IH [OF this(1) this(4,2,3)]
      have "prev_user_loop it vt = prev_user_loop it3 vt2"
        using it1(1) step(1) it3(1) p internal_entry(1) [OF src it3(3)] False by (subst prev_user_loop.simps) (auto simp: behind_def)
      with IH step(3) it3(2) show ?thesis by (simp add: moved_def)
    next
      case zero: True
      have loop: "prev_user_loop it vt = Some (vt2, it3)"
        using it1(1) step(1) it3(1) internal_entry(1) [OF src it3(3)] zero by (subst prev_user_loop.simps) (simp add: behind_def)
      have dir: "di_direction it3 = di_direction it" using step(3) it3(2) by (simp add: moved_def)
      show ?thesis
      proof (cases vt2)
        case LDB_TYPE_DELETION
        with loop dir inv3 it3(3) zero show ?thesis by (auto simp: prev_inv_def)
      next
        case LDB_TYPE_VALUE
        with inv3 zero obtain v where v: "v < R" "seen s (es ! v)" "vtype (pk (es ! v)) = LDB_TYPE_VALUE"
          "\<forall>j < v. \<not> seen s (es ! j)" "\<forall>q. v < q \<and> q < R \<longrightarrow> \<not> live C s es q"
          "di_saved_key it3 = uk es v" "di_saved_value it3 = snd (es ! v)" by (auto simp: prev_inv_def)
        have "live C s es v" using v by (auto simp: live_def)
        moreover have "reverse_at T es at s it3 v"
          unfolding reverse_at_def using v it3(3) zero by (intro conjI exI [of _ 0]) auto
        ultimately show ?thesis using loop dir v(1,5) LDB_TYPE_VALUE by auto
      qed
    qed
  qed
qed

lemma find_prev_at:
  assumes src: "db_source T es at tok" and p: "p \<le> length es"
    and pos: "db_pos T at s it (behind es p)" and dir: "di_direction it = LDB_REVERSE"
  shows "\<exists>it'. find_prev_user_entry it = Some it'
    \<and> view_at T es at s it' (if rank s es p = 0 then length (live_pos C s es) else rank s es p - 1)"
proof -
  have "\<exists>vt it1. (if internal_valid it then prev_user_loop it LDB_TYPE_DELETION else Some (LDB_TYPE_DELETION, it)) = Some (vt, it1)
      \<and> di_direction it1 = LDB_REVERSE
      \<and> (case vt of LDB_TYPE_DELETION \<Rightarrow> (\<forall>q < p. \<not> live C s es q) \<and> (\<exists>p. db_pos T at s it1 p)
         | LDB_TYPE_VALUE \<Rightarrow> \<exists>v < p. live C s es v \<and> (\<forall>q. v < q \<and> q < p \<longrightarrow> \<not> live C s es q) \<and> reverse_at T es at s it1 v)"
  proof (cases "p = 0")
    case True
    with internal_entry(1) [OF src pos] pos dir show ?thesis by (auto simp: behind_def)
  next
    case False
    then have at: "db_pos T at s it (p - 1)" "p - 1 < p" using pos by (simp_all add: behind_def)
    have "prev_inv s es p (p - 1 + 1) LDB_TYPE_DELETION it" using False by (auto simp: prev_inv_def)
    moreover have "internal_valid it" using internal_entry(1) [OF src at(1)] p False by simp
    ultimately show ?thesis using prev_user_loop_at [OF src p at] dir by simp
  qed
  then obtain vt it1 where
    it1: "(if internal_valid it then prev_user_loop it LDB_TYPE_DELETION else Some (LDB_TYPE_DELETION, it)) = Some (vt, it1)"
      "di_direction it1 = LDB_REVERSE"
    and found: "case vt of LDB_TYPE_DELETION \<Rightarrow> (\<forall>q < p. \<not> live C s es q) \<and> (\<exists>p. db_pos T at s it1 p)
         | LDB_TYPE_VALUE \<Rightarrow> \<exists>v < p. live C s es v \<and> (\<forall>q. v < q \<and> q < p \<longrightarrow> \<not> live C s es q) \<and> reverse_at T es at s it1 v" by blast
  show ?thesis
  proof (cases vt)
    case LDB_TYPE_DELETION
    with found obtain p' where "rank s es p = 0" "db_pos T at s it1 p'" using count_below_gap [of 0 p "live C s es"] by auto
    with it1 LDB_TYPE_DELETION dir show ?thesis
      by (simp add: find_prev_user_entry_def view_at_def clear_saved_value_def) (rule exI [of _ p'], simp)
  next
    case LDB_TYPE_VALUE
    with found obtain v where v: "v < p" "live C s es v" "\<forall>q. v < q \<and> q < p \<longrightarrow> \<not> live C s es q" "reverse_at T es at s it1 v" by auto
    have "rank s es p = rank s es (Suc v)" using v(1,3) by (intro count_below_gap) auto
    then have "rank s es p = rank s es v + 1" using v(2) by (simp add: count_below_Suc)
    moreover have "reverse_at T es at s (it1\<lparr>di_valid := True\<rparr>) v" using v(4) by (simp add: reverse_at_def)
    moreover have "v < length es" using v(1) p by simp
    ultimately show ?thesis using it1 LDB_TYPE_VALUE dir rank_live [of v es s] v(2)
      by (simp add: find_prev_user_entry_def view_at_def)
  qed
qed

text \<open>Leaving the entries of the current user key backwards.\<close>

lemma leave_key_at:
  assumes src: "db_source T es at tok" and c: "c < length es"
  shows "db_pos T at s it p \<Longrightarrow> p \<le> c \<Longrightarrow> di_saved_key it = uk es c \<Longrightarrow>
      \<forall>j. p \<le> j \<and> j \<le> c \<longrightarrow> \<not> compare C (uk es j) (uk es c) < 0 \<Longrightarrow>
    \<exists>found it' q. leave_key_loop it = Some (found, it') \<and> di_direction it' = di_direction it \<and> q \<le> c
      \<and> db_pos T at s it' (behind es q) \<and> (\<forall>j. q \<le> j \<and> j \<le> c \<longrightarrow> \<not> compare C (uk es j) (uk es c) < 0)
      \<and> (if found then 0 < q else q = 0 \<and> \<not> di_valid it')"
proof (induction p arbitrary: it rule: less_induct)
  case (less p)
  have p: "p < length es" using less.prems(2) c by simp
  from internal_moves(5) [OF src less.prems(1) p] obtain it1 where
    it1: "internal_move tbl_prev it = Some it1" "moved it it1" "db_pos T at s it1 (behind es p)" by (auto simp: behind_def)
  show ?case
  proof (cases "p = 0")
    case True
    then have "leave_key_loop it = Some (False, clear_saved_value (it1\<lparr>di_valid := False, di_saved_key := []\<rparr>))"
      using it1(1) internal_entry(1) [OF src it1(3)] by (subst leave_key_loop.simps) (simp add: behind_def)
    with True it1 less.prems(4) show ?thesis
      by (intro exI [of _ False] exI [of _ "clear_saved_value (it1\<lparr>di_valid := False, di_saved_key := []\<rparr>)"] exI [of _ 0])
        (simp add: moved_def clear_saved_value_def db_pos_def)
  next
    case False
    then have b: "behind es p = p - 1" "p - 1 < length es" using p by (simp_all add: behind_def)
    have at: "db_pos T at s it1 (p - 1)" using it1(3) b by simp
    have iv: "internal_valid it1" and ik: "internal_key it1 = Some (fst (es ! (p - 1)))"
      using internal_entry(1,3) [OF src at] b by simp_all
    have ek: "ldb_extract_user_key (fst (es ! (p - 1))) = uk es (p - 1)"
      by (rule entry_key(3) [OF db_sourceD(2) [OF src] b(2)])
    have f: "di_ucmp it1 = C" "di_saved_key it1 = uk es c" "di_direction it1 = di_direction it"
      using at it1(2) less.prems(3) by (simp_all add: db_pos_def moved_def)
    have step: "leave_key_loop it = (if compare C (uk es (p - 1)) (uk es c) < 0 then Some (True, it1) else leave_key_loop it1)"
      using it1(1) iv ik ek f by (subst leave_key_loop.simps) simp
    show ?thesis
    proof (cases "compare C (uk es (p - 1)) (uk es c) < 0")
      case True
      with step it1(3) f(3) less.prems(2,4) False show ?thesis
        by (intro exI [of _ True] exI [of _ it1] exI [of _ p]) simp
    next
      case stay: False
      have "\<forall>j. p - 1 \<le> j \<and> j \<le> c \<longrightarrow> \<not> compare C (uk es j) (uk es c) < 0"
      proof (intro allI impI)
        fix j assume "p - 1 \<le> j \<and> j \<le> c"
        then show "\<not> compare C (uk es j) (uk es c) < 0" using stay less.prems(4) by (cases "j = p - 1") auto
      qed
      from less.IH [OF _ at _ f(2) this] False less.prems(2) step stay f(3) show ?thesis by simp
    qed
  qed
qed

lemma next_inv_start: "next_inv s es (\<lambda>q. live C s es q \<and> 0 \<le> q) 0 False k"
  by (rule next_invI) (auto simp: live_def)

lemma next_inv_from:
  assumes es: "internal_entries es" and c: "c < length es" "live C s es c"
    and p: "p \<le> c + 1" "\<forall>j. p \<le> j \<and> j < c \<longrightarrow> \<not> seen s (es ! j)"
  shows "next_inv s es (\<lambda>q. live C s es q \<and> c + 1 \<le> q) p True (uk es c)"
proof (rule next_invI)
  fix q assume q: "p \<le> q" "q < length es"
  note ok = entry_key(4) [OF es]
  show "(live C s es q \<and> c + 1 \<le> q) \<longleftrightarrow> seen s (es ! q) \<and> vtype (pk (es ! q)) = LDB_TYPE_VALUE
      \<and> (\<forall>j. p \<le> j \<and> j < q \<and> seen s (es ! j) \<longrightarrow> compare C (uk es j) (uk es q) \<noteq> 0)
      \<and> \<not> (True \<and> compare C (uk es q) (uk es c) \<le> 0)" (is "?L \<longleftrightarrow> ?R")
  proof
    assume L: ?L
    then have "c < q" by simp
    then have "compare C (uk es c) (uk es q) \<noteq> 0" using L c(2) by (auto simp: live_def)
    then have "\<not> compare C (uk es q) (uk es c) \<le> 0" using uk_eqI [OF es _ q(2), of c] \<open>c < q\<close> by auto
    then show ?R using L by (auto simp: live_def)
  next
    assume R: ?R
    have "\<not> q \<le> c" using R uk_mono [OF es _ c(1), of q] by auto
    moreover have "compare C (uk es j) (uk es q) \<noteq> 0" if j: "j < q" "seen s (es ! j)" for j
    proof (cases "p \<le> j")
      case False
      then have jc: "j \<le> c" using p(1) by simp
      show ?thesis
      proof
        assume "compare C (uk es j) (uk es q) = 0"
        then have "compare C (uk es q) (uk es c) \<le> 0"
          using cmp_le_trans [of "uk es q" "uk es j" "uk es c"] cmp_eq_swap [of "uk es j" "uk es q"] uk_mono [OF es jc c(1)] ok j q c(1)
          by simp
        with R show False by simp
      qed
    qed (use R j in auto)
    ultimately show ?L using R by (auto simp: live_def)
  qed
  show "compare C (uk es c) (uk es q) \<le> 0" if "seen s (es ! q)"
    using uk_mono [OF es _ q(2), of c] p(2) that q(1) by (meson not_le)
qed (rule entry_key(4) [OF es c(1)])

text \<open>Where a seek of the internal iterator ends.\<close>

lemma seek_split:
  assumes es: "internal_entries es" and t: "ok t" "seq_ok s"
  defines "P \<equiv> first_ge (ldb_ikc_compare C) es (ldb_ikey_set t s LDB_VALTYPE_SEEK)"
  shows "j < P \<Longrightarrow> seen s (es ! j) \<Longrightarrow> compare C (uk es j) t < 0"
    and "P \<le> q \<Longrightarrow> q < length es \<Longrightarrow> \<not> compare C (uk es q) t < 0"
proof -
  let ?k = "ldb_ikey_set t s LDB_VALTYPE_SEEK"
  have k: "ldb_extract_user_key ?k = t" "ikey_tag ?k = pack_seqtype s LDB_VALTYPE_SEEK" by (simp_all add: ldb_ikey_set_eq)
  have less: "ldb_ikc_compare C (fst (es ! j)) ?k < 0 \<longleftrightarrow> compare C (uk es j) t < 0
      \<or> compare C (uk es j) t = 0 \<and> s < sequence (pk (es ! j))" if j: "j < length es" for j
  proof -
    note e = entry_key [OF es j]
    have tag: "ikey_tag (fst (es ! j)) = pack_seqtype (sequence (pk (es ! j))) (vtype (pk (es ! j)))"
      using e(2) by (simp add: ldb_pkey_write_def ldb_raw_write_def)
    show ?thesis unfolding ikc_less_iff [of "fst (es ! j)" ?k, unfolded k e(3), OF e(4) t(1)] tag
      by (simp add: pack_le_seek [OF e(5) t(2)] linorder_not_le [symmetric])
  qed
  have P: "P \<le> length es" unfolding P_def by (rule first_ge_le)
  show "compare C (uk es j) t < 0" if "j < P" "seen s (es ! j)"
    using first_ge_below [of j "ldb_ikc_compare C" es ?k] less [of j] that P by (auto simp: P_def seen_def)
  show "\<not> compare C (uk es q) t < 0" if q: "P \<le> q" "q < length es"
  proof
    assume "compare C (uk es q) t < 0"
    then have "compare C (uk es P) t < 0"
      using cmp_le_less_trans [of "uk es P" "uk es q" t] uk_mono [OF es q] entry_key(4) [OF es] q t(1) by simp
    moreover have "\<not> ldb_ikc_compare C (fst (es ! P)) ?k < 0"
      using first_ge_at [of "ldb_ikc_compare C" es ?k] q unfolding P_def by simp
    ultimately show False using less [of P] q by simp
  qed
qed

lemma length_user_view: "length (user_view C s es) = length (live_pos C s es)"
  by (simp add: user_view_def)

lemma nth_user_view: "i < length (live_pos C s es) \<Longrightarrow> user_view C s es ! i = (uk es (live_pos C s es ! i), snd (es ! (live_pos C s es ! i)))"
  by (simp add: user_view_def)

lemma seek_rank:
  assumes es: "internal_entries es" and t: "ok t" "seq_ok s"
  shows "first_ge (compare C) (user_view C s es) t
    = rank s es (first_ge (ldb_ikc_compare C) es (ldb_ikey_set t s LDB_VALTYPE_SEEK))" (is "_ = rank s es ?P")
proof (rule first_ge_eqI)
  have "?P \<le> length es" by (rule first_ge_le)
  then show le: "rank s es ?P \<le> length (user_view C s es)"
    using count_below_mono [of ?P "length es" "live C s es"] rank_all [of s es] by (simp add: length_user_view)
  show "compare C (fst (user_view C s es ! i)) t < 0" if i: "i < rank s es ?P" for i
  proof -
    have il: "i < length (live_pos C s es)" using i le by (simp add: length_user_view)
    have "live_pos C s es ! i < ?P" using i rank_pos(1) [OF il] count_below_mono [of ?P "live_pos C s es ! i" "live C s es"] by (metis not_le)
    then show ?thesis using seek_split(1) [OF es t] rank_pos(3) [OF il] nth_user_view [OF il] by (auto simp: live_def)
  qed
  show "\<not> compare C (fst (user_view C s es ! rank s es ?P)) t < 0" if "rank s es ?P < length (user_view C s es)"
  proof -
    have il: "rank s es ?P < length (live_pos C s es)" using that by (simp add: length_user_view)
    let ?q = "live_pos C s es ! rank s es ?P"
    have "\<not> ?q < ?P"
      using count_below_mono [of "Suc ?q" ?P "live C s es"] rank_pos [OF il] by (auto simp: count_below_Suc Suc_le_eq)
    then show ?thesis using seek_split(2) [OF es t, of ?q] rank_pos(2) [OF il] nth_user_view [OF il] by simp
  qed
qed

lemma next_inv_seek:
  assumes es: "internal_entries es" and t: "ok t" "seq_ok s"
  shows "next_inv s es (\<lambda>q. live C s es q \<and> first_ge (ldb_ikc_compare C) es (ldb_ikey_set t s LDB_VALTYPE_SEEK) \<le> q)
    (first_ge (ldb_ikc_compare C) es (ldb_ikey_set t s LDB_VALTYPE_SEEK)) False k" (is "next_inv s es _ ?P _ _")
proof (rule next_invI)
  fix q assume q: "?P \<le> q" "q < length es"
  have "compare C (uk es j) (uk es q) \<noteq> 0" if "j < ?P" "seen s (es ! j)" for j
  proof
    assume "compare C (uk es j) (uk es q) = 0"
    then have "compare C (uk es q) t < 0"
      using cmp_le_less_trans [of "uk es q" "uk es j" t] seek_split(1) [OF es t that] cmp_eq_swap [of "uk es j" "uk es q"]
        entry_key(4) [OF es] that q t(1) by simp
    then show False using seek_split(2) [OF es t q] by simp
  qed
  then show "(live C s es q \<and> ?P \<le> q) \<longleftrightarrow> seen s (es ! q) \<and> vtype (pk (es ! q)) = LDB_TYPE_VALUE
      \<and> (\<forall>j. ?P \<le> j \<and> j < q \<and> seen s (es ! j) \<longrightarrow> compare C (uk es j) (uk es q) \<noteq> 0)
      \<and> \<not> (False \<and> compare C (uk es q) k \<le> 0)" using q(1) unfolding live_def by (meson not_le)
qed simp_all

lemma view_pos: "view_at T es at s it i \<Longrightarrow> \<exists>p. db_pos T at s it p"
  by (auto simp: view_at_def reverse_at_def split: if_splits)

lemma view_end: "db_pos T at s it p \<Longrightarrow> \<not> di_valid it \<Longrightarrow> view_at T es at s it (length (live_pos C s es))"
  by (auto simp: view_at_def)

lemma dbiter_next_at:
  assumes src: "db_source T es at tok" and at: "view_at T es at s it i" and i: "i < length (live_pos C s es)"
  shows "\<exists>it'. ldb_dbiter_next it = Some it' \<and> view_at T es at s it' (i + 1)"
proof -
  define c where "c = live_pos C s es ! i"
  have c: "rank s es c = i" "c < length es" "live C s es c" using rank_pos [OF i] by (simp_all add: c_def)
  then have rank: "rank s es (c + 1) = i + 1" by (simp add: count_below_Suc)
  note es = db_sourceD(2) [OF src]
  have valid: "di_valid it" using at i by (simp add: view_at_def)
  have "\<exists>it1 p. (if di_direction it = LDB_REVERSE then
                  (let iter = it\<lparr>di_direction := LDB_FORWARD\<rparr> in
                   if \<not> internal_valid iter then internal_move tbl_seek_first iter else internal_move tbl_next iter)
                else
                  do { key \<leftarrow> internal_key it;
                       internal_move tbl_next (it\<lparr>di_saved_key := ldb_extract_user_key key\<rparr>) }) = Some it1
      \<and> db_pos T at s it1 p \<and> di_direction it1 = LDB_FORWARD \<and> di_saved_key it1 = uk es c
      \<and> p \<le> c + 1 \<and> (\<forall>j. p \<le> j \<and> j < c \<longrightarrow> \<not> seen s (es ! j))"
  proof (cases "di_direction it = LDB_REVERSE")
    case True
    then obtain p where p: "di_saved_key it = uk es c" "p \<le> c" "db_pos T at s it (behind es p)"
        "\<forall>j. p \<le> j \<and> j < c \<longrightarrow> \<not> seen s (es ! j)"
      using at i by (auto simp: view_at_def reverse_at_def c_def)
    let ?it = "it\<lparr>di_direction := LDB_FORWARD\<rparr>"
    have pos: "db_pos T at s ?it (behind es p)" using p(3) by simp
    have "\<exists>it1. (if \<not> internal_valid ?it then internal_move tbl_seek_first ?it else internal_move tbl_next ?it) = Some it1
        \<and> moved ?it it1 \<and> db_pos T at s it1 p"
      using internal_entry(1) [OF src pos] internal_moves(1,4) [OF src pos] p(2) c(2)
      by (cases "p = 0") (auto simp: behind_def)
    with True p(1,2,4) show ?thesis unfolding moved_def by fastforce
  next
    case False
    then have d: "di_direction it = LDB_FORWARD" by (cases "di_direction it") simp_all
    then have pos: "db_pos T at s it c" using at i by (simp add: view_at_def c_def)
    have "db_pos T at s (it\<lparr>di_saved_key := uk es c\<rparr>) c" using pos by simp
    from internal_moves(4) [OF src this c(2)] obtain it1 where
      "internal_move tbl_next (it\<lparr>di_saved_key := uk es c\<rparr>) = Some it1" "moved (it\<lparr>di_saved_key := uk es c\<rparr>) it1" "db_pos T at s it1 (c + 1)"
      by blast
    with d internal_entry(3) [OF src pos c(2)] entry_key(3) [OF es c(2)] show ?thesis
      by (intro exI [of _ it1] exI [of _ "c + 1"]) (auto simp: moved_def)
  qed
  then obtain it1 p where it1: "(if di_direction it = LDB_REVERSE then
                  (let iter = it\<lparr>di_direction := LDB_FORWARD\<rparr> in
                   if \<not> internal_valid iter then internal_move tbl_seek_first iter else internal_move tbl_next iter)
                else
                  do { key \<leftarrow> internal_key it;
                       internal_move tbl_next (it\<lparr>di_saved_key := ldb_extract_user_key key\<rparr>) }) = Some it1"
      "db_pos T at s it1 p" "di_direction it1 = LDB_FORWARD" "di_saved_key it1 = uk es c"
      "p \<le> c + 1" "\<forall>j. p \<le> j \<and> j < c \<longrightarrow> \<not> seen s (es ! j)" by blast
  show ?thesis
  proof (cases "p < length es")
    case True
    have inv: "next_inv s es (\<lambda>q. live C s es q \<and> c + 1 \<le> q) p True (di_saved_key it1)"
      using next_inv_from [OF es c(2,3) it1(5,6)] it1(4) by simp
    have "c + 1 \<le> length es" using c(2) by simp
    from find_next_at [OF src it1(2) True it1(3) inv it1(5) this] show ?thesis
      using valid it1(1) internal_entry(1) [OF src it1(2)] True rank by (simp add: ldb_dbiter_next_def)
  next
    case False
    then have "c + 1 = length es" using it1(5) c(2) by simp
    then have "i + 1 = length (live_pos C s es)" using rank rank_all [of s es] by simp
    moreover have "view_at T es at s (it1\<lparr>di_valid := False, di_saved_key := []\<rparr>) (length (live_pos C s es))"
      using it1(2) by (intro view_end [of T at s _ p]) simp_all
    ultimately show ?thesis using valid it1(1) internal_entry(1) [OF src it1(2)] False by (simp add: ldb_dbiter_next_def)
  qed
qed

lemma dbiter_prev_at:
  assumes src: "db_source T es at tok" and at: "view_at T es at s it i" and i: "i < length (live_pos C s es)"
  shows "\<exists>it'. ldb_dbiter_prev it = Some it' \<and> view_at T es at s it' (if i = 0 then length (live_pos C s es) else i - 1)"
proof -
  define c where "c = live_pos C s es ! i"
  have c: "rank s es c = i" "c < length es" "live C s es c" using rank_pos [OF i] by (simp_all add: c_def)
  note es = db_sourceD(2) [OF src]
  have valid: "di_valid it" using at i by (simp add: view_at_def)
  have gap: "rank s es q = i" if "q \<le> c" "\<forall>j. q \<le> j \<and> j < c \<longrightarrow> \<not> live C s es j" for q
    using count_below_gap [of q c "live C s es"] that c(1) by simp
  show ?thesis
  proof (cases "di_direction it = LDB_FORWARD")
    case True
    then have pos: "db_pos T at s it c" using at i by (simp add: view_at_def c_def)
    let ?it = "it\<lparr>di_saved_key := uk es c\<rparr>"
    have pos': "db_pos T at s ?it c" "di_saved_key ?it = uk es c" using pos by simp_all
    have "\<forall>j. c \<le> j \<and> j \<le> c \<longrightarrow> \<not> compare C (uk es j) (uk es c) < 0"
      using cmp_refl [OF entry_key(4) [OF es c(2)]] by (simp add: eq_iff [symmetric])
    from leave_key_at [OF src c(2) pos'(1) le_refl pos'(2) this] obtain found it1 q where
      l: "leave_key_loop ?it = Some (found, it1)" "di_direction it1 = LDB_FORWARD" "q \<le> c" "db_pos T at s it1 (behind es q)"
        "\<forall>j. q \<le> j \<and> j \<le> c \<longrightarrow> \<not> compare C (uk es j) (uk es c) < 0" "if found then 0 < q else q = 0 \<and> \<not> di_valid it1"
      using True by auto
    have "\<not> live C s es j" if j: "q \<le> j" "j < c" for j
    proof
      assume "live C s es j"
      moreover have "compare C (uk es j) (uk es c) = 0" using l(5) j uk_mono [OF es _ c(2), of j] by fastforce
      ultimately show False using c(3) j(2) by (auto simp: live_def)
    qed
    then have rank: "rank s es q = i" by (intro gap [OF l(3)]) blast
    have step: "ldb_dbiter_prev it = (if found then find_prev_user_entry (it1\<lparr>di_direction := LDB_REVERSE\<rparr>) else Some it1)"
      using valid True internal_entry(3) [OF src pos c(2)] entry_key(3) [OF es c(2)] l(1) by (simp add: ldb_dbiter_prev_def)
    show ?thesis
    proof (cases found)
      case True
      have "q \<le> length es" using l(3) c(2) by simp
      from find_prev_at [OF src this, of s "it1\<lparr>di_direction := LDB_REVERSE\<rparr>"] l(4) rank step True show ?thesis
        by (auto split: if_splits)
    next
      case False
      with l(6) rank have "i = 0" by simp
      with view_end [OF l(4), of es] l(6) step False show ?thesis by simp
    qed
  next
    case False
    then have d: "di_direction it = LDB_REVERSE" by (cases "di_direction it") simp_all
    then obtain p where p: "p \<le> c" "db_pos T at s it (behind es p)" "\<forall>j. p \<le> j \<and> j < c \<longrightarrow> \<not> seen s (es ! j)"
      using at i by (auto simp: view_at_def reverse_at_def c_def)
    have "rank s es p = i" using gap [OF p(1)] p(3) by (auto simp: live_def)
    moreover have "p \<le> length es" using p(1) c(2) by simp
    ultimately show ?thesis using find_prev_at [OF src _ p(2) d] valid d
      by (auto simp: ldb_dbiter_prev_def split: if_splits)
  qed
qed

lemma dbiter_cursor:
  assumes src: "db_source T es at tok" and s: "seq_ok s"
  shows "cursor ldb_dbiter_table (compare C) (user_view C s es) (view_at T es at s)
    (\<lambda>u. ok u \<and> tok (ldb_ikey_set u s LDB_VALTYPE_SEEK))"
proof
  note es = db_sourceD(2) [OF src] and tab = ldb_dbiter_table_def and lv = length_user_view
  fix it i assume at: "view_at T es at s it i"
  then obtain p where p: "db_pos T at s it p" using view_pos by blast
  show "i \<le> length (user_view C s es)" using at by (simp add: view_at_def lv)
  show "tbl_valid ldb_dbiter_table it = (i < length (user_view C s es))"
    using at by (auto simp: tab ldb_dbiter_valid_def view_at_def lv split: if_splits)
  have kv: "ldb_dbiter_key it = Some (fst (user_view C s es ! i)) \<and> ldb_dbiter_value it = Some (snd (user_view C s es ! i))"
    if i: "i < length (live_pos C s es)"
  proof -
    note c = rank_pos [OF i]
    show ?thesis
    proof (cases "di_direction it = LDB_FORWARD")
      case True
      then have pos: "db_pos T at s it (live_pos C s es ! i)" and v: "di_valid it" using at i by (simp_all add: view_at_def)
      show ?thesis using internal_entry(3,4) [OF src pos c(2)] entry_key(3) [OF es c(2)] True v nth_user_view [OF i]
        by (simp add: ldb_dbiter_key_def ldb_dbiter_value_def)
    next
      case False
      then show ?thesis using at i nth_user_view [OF i] by (simp add: view_at_def reverse_at_def ldb_dbiter_key_def ldb_dbiter_value_def)
    qed
  qed
  show "i < length (user_view C s es) \<Longrightarrow> tbl_key ldb_dbiter_table it = Some (fst (user_view C s es ! i))"
    and "i < length (user_view C s es) \<Longrightarrow> tbl_value ldb_dbiter_table it = Some (snd (user_view C s es ! i))"
    using kv by (simp_all add: tab lv)
  show "tbl_status ldb_dbiter_table it = Some LDB_OK"
    using p cursor.at_status [OF db_sourceD(1) [OF src]] by (auto simp: tab ldb_dbiter_status_def db_pos_def)
  show "\<exists>s'. tbl_seek_first ldb_dbiter_table it = Some s' \<and> view_at T es at s s' 0"
  proof -
    have "db_pos T at s (clear_saved_value (it\<lparr>di_direction := LDB_FORWARD\<rparr>)) p" using p by simp
    from internal_moves(1) [OF src this] obtain it1 where it1:
      "internal_move tbl_seek_first (clear_saved_value (it\<lparr>di_direction := LDB_FORWARD\<rparr>)) = Some it1"
      "moved (clear_saved_value (it\<lparr>di_direction := LDB_FORWARD\<rparr>)) it1" "db_pos T at s it1 0" by blast
    show ?thesis
    proof (cases "es = []")
      case True
      then have "length (live_pos C s es) = 0" by (simp add: live_pos_def)
      with view_end [of T at s "it1\<lparr>di_valid := False\<rparr>" 0 es] it1 internal_entry(1) [OF src it1(3)] True show ?thesis
        by (simp add: tab ldb_dbiter_seek_first_def)
    next
      case False
      with find_next_at [OF src it1(3) _ _ next_inv_start le_refl] it1 internal_entry(1) [OF src it1(3)] show ?thesis
        by (simp add: tab ldb_dbiter_seek_first_def moved_def clear_saved_value_def)
    qed
  qed
  show "\<exists>s'. tbl_seek_last ldb_dbiter_table it = Some s' \<and> view_at T es at s s' (length (user_view C s es) - 1)"
  proof -
    have "db_pos T at s (clear_saved_value (it\<lparr>di_direction := LDB_REVERSE\<rparr>)) p" using p by simp
    from internal_moves(2) [OF src this] obtain it1 where it1:
      "internal_move tbl_seek_last (clear_saved_value (it\<lparr>di_direction := LDB_REVERSE\<rparr>)) = Some it1"
      "moved (clear_saved_value (it\<lparr>di_direction := LDB_REVERSE\<rparr>)) it1" "db_pos T at s it1 (length es - 1)" by blast
    have "db_pos T at s it1 (behind es (length es))" using it1(3) by (cases es) (simp_all add: behind_def)
    from find_prev_at [OF src le_refl this] it1 rank_all [of s es] show ?thesis
      by (auto simp: tab ldb_dbiter_seek_last_def moved_def clear_saved_value_def lv split: if_splits)
  qed
  show "\<exists>s'. tbl_seek ldb_dbiter_table it t = Some s' \<and> view_at T es at s s' (first_ge (compare C) (user_view C s es) t)"
    if t: "ok t \<and> tok (ldb_ikey_set t s LDB_VALTYPE_SEEK)" for t
  proof -
    let ?k = "ldb_ikey_set t s LDB_VALTYPE_SEEK"
    let ?it = "(clear_saved_value (it\<lparr>di_direction := LDB_FORWARD\<rparr>))\<lparr>di_saved_key := ?k\<rparr>"
    let ?P = "first_ge (ldb_ikc_compare C) es ?k"
    have t': "ok t" "seq_ok s" "tok ?k" using t s by simp_all
    have seq: "di_sequence it = s" using p by (simp add: db_pos_def)
    have "db_pos T at s ?it p" using p by simp
    from internal_moves(3) [OF src this t'(3)] obtain it1 where it1:
      "internal_move (\<lambda>T s. tbl_seek T s ?k) ?it = Some it1" "moved ?it it1" "db_pos T at s it1 ?P" by blast
    have step: "ldb_dbiter_seek it t = (if internal_valid it1 then find_next_user_entry it1 False else Some (it1\<lparr>di_valid := False\<rparr>))"
      using it1(1) seq by (simp add: ldb_dbiter_seek_def clear_saved_value_def ldb_ikey_set_def)
    show ?thesis
    proof (cases "?P < length es")
      case True
      with find_next_at [OF src it1(3) True _ next_inv_seek [OF es t'(1,2)] le_refl] it1(2) step internal_entry(1) [OF src it1(3)]
        seek_rank [OF es t'(1,2)] show ?thesis by (simp add: tab moved_def clear_saved_value_def)
    next
      case False
      then have "?P = length es" using first_ge_le [of "ldb_ikc_compare C" es ?k] by simp
      with view_end [of T at s "it1\<lparr>di_valid := False\<rparr>" ?P es] it1(3) step internal_entry(1) [OF src it1(3)] rank_all [of s es]
        seek_rank [OF es t'(1,2)] show ?thesis by (simp add: tab)
    qed
  qed
  show "i < length (user_view C s es) \<Longrightarrow> \<exists>s'. tbl_next ldb_dbiter_table it = Some s' \<and> view_at T es at s s' (i + 1)"
    using dbiter_next_at [OF src at] by (simp add: tab lv)
  show "i < length (user_view C s es) \<Longrightarrow> \<exists>s'. tbl_prev ldb_dbiter_table it = Some s'
      \<and> view_at T es at s s' (if i = 0 then length (user_view C s es) else i - 1)"
    using dbiter_prev_at [OF src at] by (auto simp: tab lv split: if_splits)
qed

lemma user_view_sorted:
  assumes es: "internal_entries es"
  shows "sorted_wrt (\<lambda>a b. compare C (fst a) (fst b) < 0) (user_view C s es)"
  unfolding sorted_wrt_iff_nth_less
proof (intro allI impI)
  fix i j assume ij: "i < j" "j < length (user_view C s es)"
  then have i: "i < length (live_pos C s es)" and j: "j < length (live_pos C s es)" by (simp_all add: length_user_view)
  let ?p = "live_pos C s es ! i" and ?q = "live_pos C s es ! j"
  have pq: "?p < ?q" using count_below_mono [of ?q ?p "live C s es"] rank_pos(1) [OF i] rank_pos(1) [OF j] ij(1) by (metis not_le)
  have "compare C (uk es ?p) (uk es ?q) \<le> 0" using uk_mono [OF es _ rank_pos(2) [OF j], of ?p] pq by simp
  moreover have "compare C (uk es ?p) (uk es ?q) \<noteq> 0"
    using rank_pos(3) [OF i] rank_pos(3) [OF j] pq by (auto simp: live_def)
  ultimately show "compare C (fst (user_view C s es ! i)) (fst (user_view C s es ! j)) < 0"
    using nth_user_view [OF i] nth_user_view [OF j] by simp
qed

lemma dbiter_init_at:
  assumes "at st p"
  shows "view_at T es at s (ldb_dbiter_init C (T, st) s seed) (length (live_pos C s es))"
proof (rule view_end)
  show "\<not> di_valid (ldb_dbiter_init C (T, st) s seed)" by (simp add: ldb_dbiter_init_def draw_period)
  show "db_pos T at s (ldb_dbiter_init C (T, st) s seed) p"
    using assms seed_ok_next [OF seed_ok_init [of seed]] by (simp add: db_pos_def ldb_dbiter_init_def draw_period)
qed

end

lemma pk_ikey_set: "seq_ok q \<Longrightarrow> pk (ldb_ikey_set k q t, v) = ldb_pkey_init k q t"
  by (simp add: pk_def ldb_ikey_set_def ldb_pkey_export_def ldb_pkey_import_write ldb_pkey_init_def)

lemma dbiter_over_cursor:
  assumes "comparator_contract C ok" "cursor T (compare (ldb_ikc_init C)) es at tok" "at st p" "s \<le> LDB_MAX_SEQUENCE"
    and "sorted_wrt (\<lambda>a b. compare (ldb_ikc_init C) (fst a) (fst b) < 0) es"
    and "\<forall>e \<in> set es. ldb_pkey_import (fst e) \<noteq> None \<and> ok (user_key (pk e))"
  shows "\<exists>it at'. ldb_dbiter_create C (T, st) s seed = (ldb_dbiter_table, it) \<and> at' it (length (user_view C s es))
    \<and> cursor ldb_dbiter_table (compare C) (user_view C s es) at' (\<lambda>u. ok u \<and> tok (ldb_ikey_set u s LDB_VALTYPE_SEEK))
    \<and> sorted_wrt (\<lambda>a b. compare C (fst a) (fst b) < 0) (user_view C s es)
    \<and> (\<exists>it1. ldb_dbiter_seek_first it = Some it1
        \<and> iter_scan ldb_dbiter_table (length (user_view C s es)) it1 = Some (user_view C s es))"
proof -
  have uo: "user_order C ok" using assms(1) by (simp add: user_order_def)
  have ikc: "compare (ldb_ikc_init C) = ldb_ikc_compare C" by (simp add: ldb_ikc_init_def)
  have es: "user_order.internal_entries C ok es"
    using assms(5,6) by (simp add: user_order.internal_entries_def [OF uo] ikc)
  then have src: "user_order.db_source C ok T es at tok"
    using assms(2) by (simp add: user_order.db_source_def [OF uo] ikc)
  note cur = user_order.dbiter_cursor [OF uo src assms(4)]
  let ?it = "ldb_dbiter_init C (T, st) s seed"
  have at: "user_order.view_at C T es at s ?it (length (user_view C s es))"
    using user_order.dbiter_init_at [OF uo, of at st p T es s seed] assms(3) by (simp add: user_order.length_user_view [OF uo])
  moreover have "\<exists>it1. ldb_dbiter_seek_first ?it = Some it1
      \<and> iter_scan ldb_dbiter_table (length (user_view C s es)) it1 = Some (user_view C s es)"
    using cursor.scan_all [OF cur at] by (simp add: ldb_dbiter_table_def)
  ultimately show ?thesis
    using cur user_order.user_view_sorted [OF uo es, of s] by (auto simp: ldb_dbiter_create_def)
qed

section \<open>Properties\<close>

text \<open>
  C6. The database iterator: over an internal iterator that meets the iterator contract for entries in
  internal key order, and for any snapshot, it meets the contract for exactly what the snapshot sees, one
  entry for every user key whose newest version not above the snapshot is a value, in user key order. Versions
  above the snapshot, overwritten versions and deleted keys do not appear, whichever way the iterator
  moves and turns, and every operation ends, the sampling of reads included.
\<close>

theorem db_iterator_correct:
  assumes "comparator_contract C ok" "cursor T (compare (ldb_ikc_init C)) es at tok" "at st p" "s \<le> LDB_MAX_SEQUENCE"
    and "sorted_wrt (\<lambda>a b. compare (ldb_ikc_init C) (fst a) (fst b) < 0) es"
    and "\<forall>e \<in> set es. ldb_pkey_import (fst e) \<noteq> None \<and> ok (user_key (pk e))"
  shows "\<exists>it at'. ldb_dbiter_create C (T, st) s seed = (ldb_dbiter_table, it) \<and> at' it (length (user_view C s es))
    \<and> cursor ldb_dbiter_table (compare C) (user_view C s es) at' (\<lambda>u. ok u \<and> tok (ldb_ikey_set u s LDB_VALTYPE_SEEK))
    \<and> sorted_wrt (\<lambda>a b. compare C (fst a) (fst b) < 0) (user_view C s es)
    \<and> (\<exists>it1. ldb_dbiter_seek_first it = Some it1
        \<and> iter_scan ldb_dbiter_table (length (user_view C s es)) it1 = Some (user_view C s es))"
  using assms by (rule dbiter_over_cursor)

theorem db_iterator_correct_witness:
  "let es = [(ldb_ikey_set [1] 5 LDB_TYPE_VALUE, [9]), (ldb_ikey_set [1] 3 LDB_TYPE_VALUE, [8]), (ldb_ikey_set [2] 4 LDB_TYPE_DELETION, [])]
   in \<exists>bi it at. ldb_blockiter_create (ldb_block_init (built_block es) True) ikc = Inr bi
      \<and> ldb_dbiter_create bytewise_comparator (ldb_blockiter_table, bi) 4 301 = (ldb_dbiter_table, it) \<and> at it (Suc 0)
      \<and> cursor ldb_dbiter_table (compare bytewise_comparator) [([1], [8])] at (\<lambda>u. True \<and> ikey_ok (ldb_ikey_set u 4 LDB_VALTYPE_SEEK) \<and> True)"
proof -
  let ?es = "[(ldb_ikey_set [1] 5 LDB_TYPE_VALUE, [9]), (ldb_ikey_set [1] 3 LDB_TYPE_VALUE, [8]), (ldb_ikey_set [2] 4 LDB_TYPE_DELETION, [])] :: kv list"
  have len: "length (built_block ?es) < 200" by code_simp
  have srt: "sorted_wrt (\<lambda>a b. compare ikc (fst a) (fst b) < 0) ?es" by code_simp
  have pkeys: "\<forall>e \<in> set ?es. ldb_pkey_import (fst e) \<noteq> None \<and> True" "\<forall>e \<in> set ?es. ikey_ok (fst e) \<and> True" by code_simp+
  have view: "user_view bytewise_comparator 4 ?es = [([1], [8])]"
    by (simp add: user_view_def live_pos_def live_def seen_def pk_ikey_set seq_ok_unat ldb_pkey_init_def upt_conv_Cons
        less_Suc_eq bytewise_eq_iff)
  have len': "length (built_block ?es) < 2 ^ 32" using len by (rule less_trans) simp
  have seq4: "(4 :: u64) \<le> LDB_MAX_SEQUENCE" by (simp add: seq_ok_unat)
  obtain bi bat where bi: "ldb_blockiter_create (ldb_block_init (built_block ?es) True) ikc = Inr bi" "bat bi (length ?es)"
      "cursor ldb_blockiter_table (compare ikc) ?es bat (\<lambda>k. ikey_ok k \<and> True)"
    by (rule built_block_cursor [OF bytewise_user.ikc.key_order_axioms srt pkeys(2) one_le_numeral refl len'])
  from db_iterator_correct [OF bytewise.comparator_contract_axioms bi(3,2) seq4 srt pkeys(1), of 301, unfolded view]
  obtain it at where "ldb_dbiter_create bytewise_comparator (ldb_blockiter_table, bi) 4 301 = (ldb_dbiter_table, it)" "at it (Suc 0)"
    "cursor ldb_dbiter_table (compare bytewise_comparator) [([1], [8])] at (\<lambda>u. True \<and> ikey_ok (ldb_ikey_set u 4 LDB_VALTYPE_SEEK) \<and> True)"
    unfolding list.size by (metis One_nat_def add_0)
  with bi(1) show ?thesis unfolding Let_def by (intro exI [of _ bi] exI [of _ it] exI [of _ at] conjI)
qed

end
