(* ===== verification/MemIter.thy ===== *)
theory MemIter
  imports DbIter WriteBatch
begin

text \<open>
  The memtable iterator (\<^verbatim>\<open>src/src/memtable.c\<close>) meets the iterator contract, and the database iterator on top of
  it shows the updates that were made: batches, skip list, memtable and the two iterators together.
\<close>

definition ldb_memiter_status :: "memiter \<Rightarrow> status" where
  "ldb_memiter_status iter = LDB_OK"

text \<open>The assertions of the skip list iterator guard the operations that need a valid position.\<close>

definition ldb_memiter_table :: "memiter itertbl" where
  "ldb_memiter_table =
     \<lparr>tbl_valid = ldb_memiter_valid, tbl_seek_first = (\<lambda>it. Some (ldb_memiter_seek_first it)), tbl_seek_last = ldb_memiter_seek_last,
      tbl_seek = ldb_memiter_seek,
      tbl_next = (\<lambda>it. if ldb_memiter_valid it then Some (ldb_memiter_next it) else None),
      tbl_prev = (\<lambda>it. if ldb_memiter_valid it then ldb_memiter_prev it else None),
      tbl_key = (\<lambda>it. if ldb_memiter_valid it then Some (ldb_memiter_key it) else None),
      tbl_value = (\<lambda>it. if ldb_memiter_valid it then Some (ldb_memiter_value it) else None),
      tbl_status = Some \<circ> ldb_memiter_status\<rparr>"

section \<open>The contract\<close>

abbreviation ikc_ok :: "bytes \<Rightarrow> bool" where
  "ikc_ok k \<equiv> ikey_ok k \<and> True"

fun mem_kv :: "mentry \<Rightarrow> kv" where
  "mem_kv (q, t, k, v) = (ldb_ikey_set k q t, v)"

definition mem_at :: "memtable \<Rightarrow> nat list \<Rightarrow> memiter \<Rightarrow> nat \<Rightarrow> bool" where
  "mem_at mt L it p \<longleftrightarrow> si_list (mi_iter it) = mt_table mt \<and> p \<le> length L
     \<and> bytewise_skip.iter_pos (mi_iter it) L (if p < length L then Some p else None)"

lemma preimage_list: "set ys \<subseteq> f ` A \<Longrightarrow> \<exists>xs. ys = map f xs \<and> set xs \<subseteq> A"
proof (induction ys)
  case (Cons y ys)
  then obtain x xs where "ys = map f xs" "set xs \<subseteq> A" "y = f x" "x \<in> A" by auto
  then show ?case by (intro exI [of _ "x # xs"]) simp
qed simp

lemma mem_kv_ikey_ok [simp]: "ikey_ok (fst (mem_kv e))"
  by (cases e) (simp add: ldb_ikey_set_eq)

text \<open>The entries of a memtable in the order of the list.\<close>

lemma holds_entries:
  assumes h: "holds mt es"
  obtains L ees where "bytewise_skip.skip_list (mt_table mt) L" "map (ldb_skipnode_key (mt_table mt)) L = map mentry_bytes ees"
    and "set ees = set es" "\<forall>e \<in> set ees. mentry_ok e"
    and "sorted_wrt (\<lambda>a b. compare ikc (fst a) (fst b) < 0) (map mem_kv ees)"
proof -
  obtain K where K: "bytewise_skip.represents (mt_table mt) K" "set K = mentry_bytes ` set es"
    and ok: "\<And>e. e \<in> set es \<Longrightarrow> mentry_ok e" and dist: "distinct (map fst es)"
    using h unfolding holds_def by blast
  obtain L where L: "bytewise_skip.skip_list (mt_table mt) L" "K = map (ldb_skipnode_key (mt_table mt)) L"
    using K(1) unfolding bytewise_skip.represents_def by blast
  obtain ees where ees: "K = map mentry_bytes ees" "set ees \<subseteq> set es" using preimage_list [of K mentry_bytes "set es"] K(2) by auto
  have "e \<in> set ees" if e: "e \<in> set es" for e
  proof -
    have "mentry_bytes e \<in> mentry_bytes ` set ees" using e K(2) ees(1) by simp
    then obtain e' where e': "e' \<in> set ees" "mentry_bytes e = mentry_bytes e'" by blast
    have "fst e = fst e'"
    proof (rule ccontr)
      assume "fst e \<noteq> fst e'"
      with entry_compare_ne [OF ok [OF e], of e'] ok [of e'] e' ees(2)
        bytewise_skip.cmp_refl [of "mentry_bytes e"] mentry_entry [OF ok [OF e]] show False by auto
    qed
    then have "e = e'" using dist e e'(1) ees(2) unfolding distinct_map by (meson inj_onD subsetD)
    with e'(1) show ?thesis by simp
  qed
  then have set: "set ees = set es" using ees(2) by blast
  have kv: "fst (mem_kv e) = mentry_ikey e" for e by (cases e) simp
  have "sorted_wrt (\<lambda>a b. ldb_skiplist_compare ikc a b < 0) (map mentry_bytes ees)"
    using bytewise_skip.represents_sorted [OF K(1)] ees(1) by simp
  then have "sorted_wrt (\<lambda>a b. compare ikc (mentry_ikey a) (mentry_ikey b) < 0) ees"
    unfolding sorted_wrt_map
  proof (rule sorted_wrt_mono_rel [rotated])
    fix a b assume "a \<in> set ees" "b \<in> set ees" and c: "bytewise_skip.cmp (mentry_bytes a) (mentry_bytes b) < 0"
    then have "mentry_ok a" "mentry_ok b" using ok ees(2) by blast+
    with c entry_compare show "compare ikc (mentry_ikey a) (mentry_ikey b) < 0" by metis
  qed
  then have "sorted_wrt (\<lambda>a b. compare ikc (fst a) (fst b) < 0) (map mem_kv ees)" by (simp add: sorted_wrt_map kv)
  moreover have "map (ldb_skipnode_key (mt_table mt)) L = map mentry_bytes ees" using L(2) ees(1) by simp
  moreover have "\<forall>e \<in> set ees. mentry_ok e" using ok set by simp
  ultimately show ?thesis using that [OF L(1) _ set] by simp
qed

lemma mem_cursor:
  assumes sl: "bytewise_skip.skip_list (mt_table mt) L"
    and keys: "map (ldb_skipnode_key (mt_table mt)) L = map mentry_bytes ees" and ok: "\<forall>e \<in> set ees. mentry_ok e"
    and sorted: "sorted_wrt (\<lambda>a b. compare ikc (fst a) (fst b) < 0) (map mem_kv ees)"
  shows "cursor ldb_memiter_table (compare ikc) (map mem_kv ees) (mem_at mt L) (\<lambda>k. ikc_ok k \<and> length k < 2 ^ 32)"
proof
  let ?es = "map mem_kv ees"
  have len: "length ?es = length L" "length ees = length L" using map_eq_imp_length_eq [OF keys] by simp_all
  note tab = ldb_memiter_table_def
  fix it p assume at: "mem_at mt L it p"
  then have list: "si_list (mi_iter it) = mt_table mt" and skip: "bytewise_skip.skip_list (si_list (mi_iter it)) L"
    using sl by (simp_all add: mem_at_def)
  have valid: "ldb_memiter_valid it \<longleftrightarrow> p < length L"
    using at by (auto simp: mem_at_def ldb_memiter_valid_def ldb_skipiter_valid_def bytewise_skip.iter_pos_def split: if_splits)
  show "p \<le> length ?es" using at len by (simp add: mem_at_def)
  show "tbl_valid ldb_memiter_table it = (p < length ?es)" using valid len by (simp add: tab)
  have entry: "ldb_skipiter_key (mi_iter it) = mentry_bytes (ees ! p)" "mentry_ok (ees ! p)" if p: "p < length L"
  proof -
    have "ldb_skipnode_key (mt_table mt) (L ! p) = mentry_bytes (ees ! p)" using keys p len by (metis nth_map)
    with at p list show "ldb_skipiter_key (mi_iter it) = mentry_bytes (ees ! p)"
      by (simp add: mem_at_def bytewise_skip.iter_pos_def ldb_skipiter_key_def)
    show "mentry_ok (ees ! p)" using ok p len by simp
  qed
  have kv: "ldb_memiter_key it = fst (?es ! p)" "ldb_memiter_value it = snd (?es ! p)" if p: "p < length L"
  proof -
    obtain q t k v where e: "ees ! p = (q, t, k, v)" by (cases "ees ! p")
    have "ldb_slice_decode (ldb_skipiter_key (mi_iter it)) = Some (ldb_ikey_set k q t, ldb_slice_write v)"
      using mentry_decode [OF entry(2) [OF p]] entry(1) [OF p] e by simp
    moreover have "fst (the (ldb_slice_decode (ldb_slice_write v))) = v"
      using ldb_slice_decode_write [of v "[]"] entry(2) [OF p] e by simp
    ultimately show "ldb_memiter_key it = fst (?es ! p)" "ldb_memiter_value it = snd (?es ! p)"
      using e p len by (simp_all add: ldb_memiter_key_def ldb_memiter_value_def)
  qed
  show "p < length ?es \<Longrightarrow> tbl_key ldb_memiter_table it = Some (fst (?es ! p))"
    and "p < length ?es \<Longrightarrow> tbl_value ldb_memiter_table it = Some (snd (?es ! p))"
    using kv valid len by (simp_all add: tab)
  show "tbl_status ldb_memiter_table it = Some LDB_OK" by (simp add: tab ldb_memiter_status_def)
  show "\<exists>s'. tbl_seek_first ldb_memiter_table it = Some s' \<and> mem_at mt L s' 0"
    using bytewise_skip.iter_seek_first [OF skip] list
    by (auto simp: tab ldb_memiter_seek_first_def mem_at_def ldb_skipiter_seek_first_def)
  show "\<exists>s'. tbl_seek_last ldb_memiter_table it = Some s' \<and> mem_at mt L s' (length ?es - 1)"
    using bytewise_skip.iter_seek_last [OF skip] list len by (cases "L = []") (auto simp: tab ldb_memiter_seek_last_def mem_at_def)
  show "\<exists>s'. tbl_next ldb_memiter_table it = Some s' \<and> mem_at mt L s' (p + 1)" if "p < length ?es"
    using bytewise_skip.iter_next [of "mi_iter it" L p] at that len valid list
    by (auto simp: tab ldb_memiter_next_def mem_at_def ldb_skipiter_next_def)
  show "\<exists>s'. tbl_prev ldb_memiter_table it = Some s' \<and> mem_at mt L s' (if p = 0 then length ?es else p - 1)" if "p < length ?es"
    using bytewise_skip.iter_prev [of "mi_iter it" L p] at that len valid list
    by (cases "p = 0") (auto simp: tab ldb_memiter_prev_def mem_at_def)
  show "\<exists>s'. tbl_seek ldb_memiter_table it t = Some s' \<and> mem_at mt L s' (first_ge (compare ikc) ?es t)"
    if t: "ikc_ok t \<and> length t < 2 ^ 32" for t
  proof -
    let ?k = "ldb_slice_write t"
    have tk: "entry_ok ?k" "SkipList.entry_key ?k = t"
      using ldb_slice_decode_write [of t "[]"] t by (simp_all add: entry_ok_def SkipList.entry_key_def)
    have srt: "key_order.kv_sorted (compare ikc) (\<lambda>k. ikc_ok k) ?es"
      unfolding key_order.kv_sorted_def [OF bytewise_user.ikc.key_order_axioms] using sorted mem_kv_ikey_ok by auto
    have cmp: "ldb_skiplist_compare ikc (mentry_bytes e) ?k = compare ikc (fst (mem_kv e)) t" if "e \<in> set ees" for e
    proof -
      have "mentry_ok e" using ok that by blast
      from mentry_entry [OF this] tk show ?thesis by (cases e) (simp add: skiplist_compare_entry)
    qed
    have "length (filter (\<lambda>x. ldb_skiplist_compare ikc x ?k < 0) (map (ldb_skipnode_key (mt_table mt)) L))
        = length (filter (\<lambda>e. compare ikc (fst e) t < 0) ?es)"
      unfolding keys filter_map length_map comp_def using cmp by (intro arg_cong [where f = length] filter_cong) auto
    then have "length (bytewise_skip.below (mt_table mt) ?k L) = first_ge (compare ikc) ?es t"
      using key_order.first_ge_filter [OF bytewise_user.ikc.key_order_axioms srt] t by (simp add: bytewise_skip.below_def filter_map comp_def)
    moreover have "first_ge (compare ikc) ?es t \<le> length L" using first_ge_le [of "compare ikc" ?es t] len by simp
    ultimately show ?thesis using bytewise_skip.iter_seek [OF skip tk(1)] list
      by (auto simp: tab ldb_memiter_seek_def mem_at_def ldb_slice_export_def)
  qed
qed

text \<open>In internal key order a newer version of a user key comes first.\<close>

lemma mem_kv_less:
  assumes "mentry_ok (q, t, u, v)" "mentry_ok (q', t', u, v')"
    and "compare ikc (fst (mem_kv (q, t, u, v))) (fst (mem_kv (q', t', u, v'))) < 0"
  shows "q' \<le> q" and "q = q' \<Longrightarrow> t \<noteq> t'"
  using assms by (auto simp: compare_ikey bytewise_eq_iff Let_def pack_seqtype_less_iff split: if_splits)

lemma pk_mem_kv: "mentry_ok (q, t, k, v) \<Longrightarrow> pk (mem_kv (q, t, k, v)) = ldb_pkey_init k q t"
  by (simp add: pk_ikey_set)

text \<open>The live entries of a memtable are the newest visible updates that store a value.\<close>

lemma mem_live_iff:
  assumes ok: "\<forall>e \<in> set ees. mentry_ok e"
    and sorted: "sorted_wrt (\<lambda>a b. compare ikc (fst a) (fst b) < 0) (map mem_kv ees)"
    and set: "set ees = set es" and dist: "distinct (map fst es)" and p: "p < length ees" and e: "ees ! p = (q, t, u, v)"
  shows "live bytewise_comparator s (map mem_kv ees) p \<longleftrightarrow> newest es u s (q, t, u, v) \<and> t = LDB_TYPE_VALUE"
proof -
  have less: "compare ikc (fst (mem_kv (ees ! i))) (fst (mem_kv (ees ! j))) < 0" if "i < j" "j < length ees" for i j
    using sorted that by (simp add: sorted_wrt_iff_nth_less)
  have okp: "mentry_ok (ees ! i)" if "i < length ees" for i using ok that by simp
  have pkp: "sequence (pk (mem_kv (ees ! i))) = fst (ees ! i)" "vtype (pk (mem_kv (ees ! i))) = fst (snd (ees ! i))"
    "user_key (pk (mem_kv (ees ! i))) = fst (snd (snd (ees ! i)))" if "i < length ees" for i
    using okp [OF that] pk_mem_kv by (cases "ees ! i"; simp add: ldb_pkey_init_def)+
  have vis: "e' \<in> set (visible es u s) \<longleftrightarrow> (\<exists>j < length ees. e' = ees ! j \<and> fst (snd (snd e')) = u \<and> fst e' \<le> s)" for e'
    using arg_cong [OF set, of "\<lambda>A. e' \<in> A"] unfolding visible_def in_set_conv_nth [of _ ees] by (cases e') auto
  have live: "live bytewise_comparator s (map mem_kv ees) p \<longleftrightarrow> q \<le> s \<and> t = LDB_TYPE_VALUE
      \<and> (\<forall>j < p. fst (ees ! j) \<le> s \<longrightarrow> fst (snd (snd (ees ! j))) \<noteq> u)"
    using p e pkp pkp [OF p] by (auto simp: live_def seen_def bytewise_eq_iff)
  have "(\<forall>j < p. fst (ees ! j) \<le> s \<longrightarrow> fst (snd (snd (ees ! j))) \<noteq> u) \<longleftrightarrow> (\<forall>e' \<in> set (visible es u s). fst e' \<le> q)" if q: "q \<le> s"
  proof (intro iffI ballI allI impI notI)
    fix e' assume first: "\<forall>j < p. fst (ees ! j) \<le> s \<longrightarrow> fst (snd (snd (ees ! j))) \<noteq> u" and "e' \<in> set (visible es u s)"
    then obtain j q' t' v' where j: "j < length ees" "ees ! j = (q', t', u, v')" "q' \<le> s" "e' = (q', t', u, v')"
      by (cases e') (auto simp: vis)
    then have "p = j \<or> p < j" using first by (metis fst_conv linorder_neqE_nat snd_conv)
    then show "fst e' \<le> q"
      using mem_kv_less(1) [of q t u v q' t' v'] less [of p j] okp [OF p] okp [OF j(1)] e j by auto
  next
    fix j assume max: "\<forall>e' \<in> set (visible es u s). fst e' \<le> q" and j: "j < p" "fst (ees ! j) \<le> s" "fst (snd (snd (ees ! j))) = u"
    obtain q' t' v' where ej: "ees ! j = (q', t', u, v')" using j(3) by (metis prod.collapse)
    have jl: "j < length ees" using j(1) p by simp
    have "(q', t', u, v') \<in> set (visible es u s)" using ej jl j(2) by (auto simp: vis)
    with max have "q' \<le> q" by fastforce
    moreover have "q \<le> q'" "q' = q \<Longrightarrow> t' \<noteq> t"
      using mem_kv_less [of q' t' u v' q t v] less [OF j(1) p] okp [OF p] okp [OF jl] e ej by simp_all
    moreover have "ees ! j \<in> set es" "ees ! p \<in> set es" using jl p set nth_mem by blast+
    then have "q' = q \<Longrightarrow> t' = t" using dist e ej inj_onD [of fst "set es" "ees ! j" "ees ! p"] by (auto simp: distinct_map)
    ultimately show False by auto
  qed
  moreover have "(q, t, u, v) \<in> set (visible es u s) \<longleftrightarrow> q \<le> s" using p e by (auto simp: vis intro!: exI [of _ p])
  ultimately show ?thesis unfolding live newest_def by auto
qed

lemma mem_view_iff:
  assumes ok: "\<forall>e \<in> set ees. mentry_ok e"
    and sorted: "sorted_wrt (\<lambda>a b. compare ikc (fst a) (fst b) < 0) (map mem_kv ees)"
    and set: "set ees = set es" and dist: "distinct (map fst es)"
  shows "(u, v) \<in> set (user_view bytewise_comparator s (map mem_kv ees)) \<longleftrightarrow> (\<exists>e. newest es u s e \<and> outcome e = MemValue v)"
proof -
  have view: "(user_key (pk (mem_kv (ees ! p))), snd (mem_kv (ees ! p))) = (u, v) \<and> live bytewise_comparator s (map mem_kv ees) p
      \<longleftrightarrow> (\<exists>q. ees ! p = (q, LDB_TYPE_VALUE, u, v) \<and> newest es u s (ees ! p))" if p: "p < length ees" for p
  proof -
    obtain q t k w where e: "ees ! p = (q, t, k, w)" by (cases "ees ! p")
    have "mentry_ok (q, t, k, w)" using ok p e by (metis nth_mem)
    from pk_mem_kv [OF this] mem_live_iff [OF ok sorted set dist p e] e show ?thesis by (auto simp: ldb_pkey_init_def)
  qed
  have "(\<exists>e. newest es u s e \<and> outcome e = MemValue v) \<longleftrightarrow> (\<exists>q. newest es u s (q, LDB_TYPE_VALUE, u, v))"
  proof safe
    fix q t k w assume n: "newest es u s (q, t, k, w)" and o: "outcome (q, t, k, w) = MemValue v"
    from n have "k = u" by (simp add: newest_def visible_def)
    with n o show "\<exists>q. newest es u s (q, LDB_TYPE_VALUE, u, v)" by (cases t) auto
  qed (metis outcome.simps(1))
  moreover have "\<exists>p < length ees. ees ! p = e" if "newest es u s e" for e
    using that set by (auto simp: newest_def visible_def in_set_conv_nth)
  ultimately show ?thesis using view by (auto simp: user_view_def live_pos_def image_iff) metis+
qed

section \<open>The end of a scan\<close>

text \<open>Where an iterator is after \<^term>\<open>n\<close> steps forward.\<close>

primrec iter_steps :: "'s itertbl \<Rightarrow> nat \<Rightarrow> 's \<Rightarrow> 's option" where
  "iter_steps T 0 s = Some s"
| "iter_steps T (Suc n) s = tbl_next T s \<bind> iter_steps T n"

context cursor
begin

lemma steps_at: "at s i \<Longrightarrow> i + n \<le> length es \<Longrightarrow> \<exists>s'. iter_steps T n s = Some s' \<and> at s' (i + n)"
proof (induction n arbitrary: s i)
  case (Suc n)
  obtain s1 where s1: "tbl_next T s = Some s1" "at s1 (i + 1)" using next_step [OF Suc.prems(1)] Suc.prems(2) by auto
  with Suc.IH [OF s1(2)] Suc.prems(2) show ?case by simp
qed simp

lemma scan_to_end:
  assumes "at s i"
  shows "\<exists>s1. tbl_seek_first T s = Some s1 \<and> (tbl_valid T s1 \<longleftrightarrow> es \<noteq> []) \<and> (\<forall>n. iter_scan T (length es + n) s1 = Some es)
    \<and> (\<exists>s2. iter_steps T (length es) s1 = Some s2 \<and> \<not> tbl_valid T s2 \<and> tbl_status T s2 = Some LDB_OK)"
proof -
  obtain s1 where s1: "tbl_seek_first T s = Some s1" "at s1 0" using seek_first [OF assms] by blast
  obtain s2 where "iter_steps T (length es) s1 = Some s2" "at s2 (length es)" using steps_at [OF s1(2)] by auto
  then have "iter_steps T (length es) s1 = Some s2 \<and> \<not> tbl_valid T s2 \<and> tbl_status T s2 = Some LDB_OK" using at_valid at_status by simp
  with s1 at_valid [OF s1(2)] scan_at [OF s1(2)] show ?thesis by auto
qed

end

section \<open>Properties\<close>

text \<open>
  C3. From updates to a scan: after any updates with distinct sequence numbers went into a new memtable, the database
  iterator over the memtable's iterator, opened at any snapshot and with any seed of its sampler, is created, finds its first entry and
  walks to its end; it delivers in strictly increasing order of user keys exactly the pairs of a user key and the value
  that the newest update of the key visible at the snapshot stores. A scan that may go on longer stops there: after the last pair the
  iterator is no longer valid, and it is not valid from the start when there is no pair.
\<close>

theorem memtable_scan:
  assumes "\<forall>e \<in> set es. mentry_ok e" "distinct (map fst es)" "s \<le> LDB_MAX_SEQUENCE"
  shows "\<exists>mt it it1 view. add_all (ldb_memtable_create bytewise_comparator) es = Some mt
    \<and> ldb_dbiter_create bytewise_comparator (ldb_memiter_table, ldb_memiter_create mt) s seed = (ldb_dbiter_table, it)
    \<and> ldb_dbiter_seek_first it = Some it1 \<and> (ldb_dbiter_valid it1 \<longleftrightarrow> view \<noteq> [])
    \<and> (\<forall>n. iter_scan ldb_dbiter_table (length view + n) it1 = Some view)
    \<and> (\<exists>it2. iter_steps ldb_dbiter_table (length view) it1 = Some it2 \<and> \<not> ldb_dbiter_valid it2 \<and> ldb_dbiter_status it2 = Some LDB_OK)
    \<and> sorted_wrt (\<lambda>a b. compare bytewise_comparator (fst a) (fst b) < 0) view
    \<and> (\<forall>u v. (u, v) \<in> set view \<longleftrightarrow> (\<exists>e. newest es u s e \<and> outcome e = MemValue v))"
proof -
  obtain mt where mt: "add_all (ldb_memtable_create bytewise_comparator) es = Some mt" "holds mt (rev es)"
    using holds_add_all [OF holds_init, of es] assms(1,2) by auto
  obtain L ees where L: "bytewise_skip.skip_list (mt_table mt) L" "map (ldb_skipnode_key (mt_table mt)) L = map mentry_bytes ees"
    and ees: "set ees = set es" "\<forall>e \<in> set ees. mentry_ok e"
      "sorted_wrt (\<lambda>a b. compare ikc (fst a) (fst b) < 0) (map mem_kv ees)"
    by (rule holds_entries [OF mt(2), unfolded set_rev])
  have at: "mem_at mt L (ldb_memiter_create mt) (length L)"
    using L(1) by (simp add: mem_at_def ldb_memiter_create_def ldb_skipiter_init_def bytewise_skip.iter_pos_def)
  have "ldb_pkey_import (fst (mem_kv e)) \<noteq> None" if "e \<in> set ees" for e
  proof -
    obtain q t k v where "e = (q, t, k, v)" by (cases e)
    with ees(2) that have "seq_ok q" by fastforce
    with \<open>e = _\<close> show ?thesis by (simp add: ldb_ikey_set_def ldb_pkey_export_def ldb_pkey_import_write ldb_pkey_init_def)
  qed
  then have "\<forall>e \<in> set (map mem_kv ees). ldb_pkey_import (fst e) \<noteq> None \<and> True" by simp
  from dbiter_over_cursor [OF bytewise.comparator_contract_axioms mem_cursor [OF L ees(2,3)] at assms(3) ees(3) this, of seed]
  obtain it at' where it: "ldb_dbiter_create bytewise_comparator (ldb_memiter_table, ldb_memiter_create mt) s seed = (ldb_dbiter_table, it)"
    and fin: "at' it (length (user_view bytewise_comparator s (map mem_kv ees)))"
    and cur: "cursor ldb_dbiter_table (compare bytewise_comparator) (user_view bytewise_comparator s (map mem_kv ees)) at'
      (\<lambda>u. True \<and> ikc_ok (ldb_ikey_set u s LDB_VALTYPE_SEEK) \<and> length (ldb_ikey_set u s LDB_VALTYPE_SEEK) < 2 ^ 32)"
    and sorted: "sorted_wrt (\<lambda>a b. compare bytewise_comparator (fst a) (fst b) < 0) (user_view bytewise_comparator s (map mem_kv ees))"
    by (elim exE conjE) (rule that)
  have tab: "tbl_valid ldb_dbiter_table = ldb_dbiter_valid" "tbl_seek_first ldb_dbiter_table = ldb_dbiter_seek_first"
    "tbl_status ldb_dbiter_table = ldb_dbiter_status" by (simp_all add: ldb_dbiter_table_def)
  obtain it1 where scan: "ldb_dbiter_seek_first it = Some it1" "ldb_dbiter_valid it1 \<longleftrightarrow> user_view bytewise_comparator s (map mem_kv ees) \<noteq> []"
    "\<forall>n. iter_scan ldb_dbiter_table (length (user_view bytewise_comparator s (map mem_kv ees)) + n) it1
      = Some (user_view bytewise_comparator s (map mem_kv ees))"
    "\<exists>it2. iter_steps ldb_dbiter_table (length (user_view bytewise_comparator s (map mem_kv ees))) it1 = Some it2
      \<and> \<not> ldb_dbiter_valid it2 \<and> ldb_dbiter_status it2 = Some LDB_OK"
    using cursor.scan_to_end [OF cur fin, unfolded tab] by (elim exE conjE) (rule that, assumption+, intro exI conjI)
  show ?thesis
    by (rule exI [of _ mt], rule exI [of _ it], rule exI [of _ it1], rule exI [of _ "user_view bytewise_comparator s (map mem_kv ees)"])
      (simp add: mt(1) it scan sorted mem_view_iff [OF ees(2,3,1) assms(2)])
qed

theorem memtable_scan_witness:
  "\<exists>mt it it1 view. add_all (ldb_memtable_create bytewise_comparator)
      [(1, LDB_TYPE_VALUE, [7], [1]), (3, LDB_TYPE_DELETION, [7], []), (2, LDB_TYPE_VALUE, [7], [2])] = Some mt
    \<and> ldb_dbiter_create bytewise_comparator (ldb_memiter_table, ldb_memiter_create mt) 2 301 = (ldb_dbiter_table, it)
    \<and> ldb_dbiter_seek_first it = Some it1 \<and> iter_scan ldb_dbiter_table (length view + 1) it1 = Some view \<and> ([7], [2]) \<in> set view"
proof -
  let ?es = "[(1, LDB_TYPE_VALUE, [7], [1]), (3, LDB_TYPE_DELETION, [7], []), (2, LDB_TYPE_VALUE, [7], [2])] :: mentry list"
  have new: "newest ?es [7] 2 (2, LDB_TYPE_VALUE, [7], [2])" by (simp add: newest_def visible_def)
  have ok: "\<forall>e \<in> set ?es. mentry_ok e" "distinct (map fst ?es)" "(2 :: u64) \<le> LDB_MAX_SEQUENCE" by (simp_all add: seq_ok_unat)
  from memtable_scan [OF ok, of 301] new outcome.simps(1) [of 2 "[7]" "[2]"] show ?thesis by blast
qed

end
