(* ===== verification/OrdSet.thy ===== *)
theory OrdSet
  imports Comparator
begin

text \<open>
  What the ordered sets of \<^verbatim>\<open>src/src/util/rbt.h\<close> promise to their clients: the elements in increasing
  order of the set's comparison function, no two of them equal. A set is represented by the list its
  iterator yields.
\<close>

fun oset_put :: "('a \<Rightarrow> 'a \<Rightarrow> int) \<Rightarrow> 'a list \<Rightarrow> 'a \<Rightarrow> bool \<times> 'a list" where
  "oset_put cmp [] x = (True, [x])"
| "oset_put cmp (y # ys) x =
     (if cmp x y = 0 then (False, y # ys)
      else if cmp x y < 0 then (True, x # y # ys)
      else (case oset_put cmp ys x of (b, zs) \<Rightarrow> (b, y # zs)))"

fun oset_has :: "('a \<Rightarrow> 'a \<Rightarrow> int) \<Rightarrow> 'a list \<Rightarrow> 'a \<Rightarrow> bool" where
  "oset_has cmp [] x = False"
| "oset_has cmp (y # ys) x =
     (if cmp x y = 0 then True else if cmp x y < 0 then False else oset_has cmp ys x)"

abbreviation oset_sorted :: "('a \<Rightarrow> 'a \<Rightarrow> int) \<Rightarrow> 'a list \<Rightarrow> bool" where
  "oset_sorted cmp \<equiv> sorted_wrt (\<lambda>x y. cmp x y < 0)"

text \<open>The laws hold for any comparison function that meets the order contract on the elements.\<close>

context key_order
begin

lemma oset_has_iff:
  "oset_sorted cmp ys \<Longrightarrow> \<forall>y\<in>set ys. ok y \<Longrightarrow> ok x \<Longrightarrow> oset_has cmp ys x \<longleftrightarrow> (\<exists>y\<in>set ys. cmp x y = 0)"
proof (induction ys)
  case (Cons y ys)
  have "cmp x z \<noteq> 0" if "cmp x y < 0" "z \<in> set ys" for z
    using that Cons.prems cmp_less_trans [of x y z] by auto
  with Cons show ?case by auto
qed simp

lemma oset_put_present: "oset_has cmp ys x \<Longrightarrow> oset_put cmp ys x = (False, ys)"
  by (induction ys) (auto split: if_splits)

lemma oset_put_absent:
  "\<not> oset_has cmp ys x \<Longrightarrow> fst (oset_put cmp ys x) \<and> set (snd (oset_put cmp ys x)) = insert x (set ys)"
  by (induction ys) (auto simp: case_prod_beta split: if_splits)

lemma oset_put_subset: "set (snd (oset_put cmp ys x)) \<subseteq> insert x (set ys)"
  using oset_put_present [of ys x] oset_put_absent [of ys x] by (cases "oset_has cmp ys x") auto

lemma oset_put_sorted:
  "oset_sorted cmp ys \<Longrightarrow> \<forall>y\<in>set ys. ok y \<Longrightarrow> ok x \<Longrightarrow> oset_sorted cmp (snd (oset_put cmp ys x))"
proof (induction ys)
  case (Cons y ys)
  then have IH: "oset_sorted cmp (snd (oset_put cmp ys x))" by simp
  have "cmp x z < 0" if "cmp x y < 0" "z \<in> set ys" for z
    using that Cons.prems cmp_less_trans [of x y z] by auto
  moreover have "cmp y x < 0" if "\<not> cmp x y < 0" "cmp x y \<noteq> 0"
    using that Cons.prems cmp_swap [of y x] by auto
  ultimately show ?case
    using Cons.prems IH oset_put_subset [of ys x] by (auto simp: case_prod_beta split: if_splits)
qed simp

lemma oset_put_last:
  "\<forall>y\<in>set ys. ok y \<and> cmp y x < 0 \<Longrightarrow> ok x \<Longrightarrow> oset_put cmp ys x = (True, ys @ [x])"
proof (induction ys)
  case (Cons y ys)
  then have "cmp x y > 0" using cmp_swap [of y x] by simp
  with Cons show ?case by simp
qed simp

lemma oset_put_all:
  "oset_sorted cmp (xs @ ys) \<Longrightarrow> \<forall>y\<in>set (xs @ ys). ok y \<Longrightarrow>
     foldl (\<lambda>s x. snd (oset_put cmp s x)) xs ys = xs @ ys"
proof (induction ys arbitrary: xs)
  case (Cons y ys)
  then have "oset_put cmp xs y = (True, xs @ [y])" by (intro oset_put_last) (auto simp: sorted_wrt_append)
  with Cons.IH [of "xs @ [y]"] Cons.prems show ?case by simp
qed simp

end

end
