(* ===== verification/VersionEdit.thy ===== *)
theory VersionEdit
  imports DbFormat OrdSet Buffer
begin

text \<open>
  Version edits (\<^verbatim>\<open>src/src/version_edit.c\<close>): the changes to the set of table files that the manifest
  records. Internal keys and the comparator's name are byte strings, vectors are lists, the red-black
  set of deleted files is the list its iterator yields (theory OrdSet), and levels are C integers.
\<close>

section \<open>Entries\<close>

record ikey_entry =
  ie_level :: int
  ie_key :: bytes

record file_entry =
  fe_level :: int
  fe_number :: u64

definition file_entry_compare :: "file_entry \<Rightarrow> file_entry \<Rightarrow> int" where
  "file_entry_compare x y =
     (if fe_level x \<noteq> fe_level y then fe_level x - fe_level y
      else if fe_number x = fe_number y then 0
      else if fe_number x < fe_number y then -1 else 1)"

record filemeta =
  fm_refs :: int
  fm_allowed_seeks :: int
  fm_number :: u64
  fm_file_size :: u64
  fm_smallest :: bytes
  fm_largest :: bytes

record meta_entry =
  me_level :: int
  me_meta :: filemeta

definition ikey_entry_create :: "int \<Rightarrow> bytes \<Rightarrow> ikey_entry" where
  "ikey_entry_create level key = \<lparr>ie_level = level, ie_key = key\<rparr>"

definition file_entry_create :: "int \<Rightarrow> u64 \<Rightarrow> file_entry" where
  "file_entry_create level number = \<lparr>fe_level = level, fe_number = number\<rparr>"

definition ldb_filemeta_init :: filemeta where
  "ldb_filemeta_init = \<lparr>fm_refs = 0, fm_allowed_seeks = 2 ^ 30, fm_number = 0, fm_file_size = 0,
     fm_smallest = [], fm_largest = []\<rparr>"

definition meta_entry_create :: "int \<Rightarrow> u64 \<Rightarrow> u64 \<Rightarrow> bytes \<Rightarrow> bytes \<Rightarrow> meta_entry" where
  "meta_entry_create level number file_size smallest largest =
     \<lparr>me_level = level,
      me_meta = ldb_filemeta_init\<lparr>fm_number := number, fm_file_size := file_size,
                  fm_smallest := smallest, fm_largest := largest\<rparr>\<rparr>"

definition ldb_filemeta_create :: filemeta where
  "ldb_filemeta_create = ldb_filemeta_init"

definition ldb_filemeta_copy :: "filemeta \<Rightarrow> filemeta \<Rightarrow> filemeta" where
  "ldb_filemeta_copy z x = z\<lparr>fm_refs := fm_refs x, fm_allowed_seeks := fm_allowed_seeks x, fm_number := fm_number x,
     fm_file_size := fm_file_size x, fm_smallest := fm_smallest x, fm_largest := fm_largest x\<rparr>"

definition ldb_filemeta_clone :: "filemeta \<Rightarrow> filemeta" where
  "ldb_filemeta_clone m = ldb_filemeta_copy ldb_filemeta_create m"

definition ldb_filemeta_ref :: "filemeta \<Rightarrow> filemeta" where
  "ldb_filemeta_ref z = z\<lparr>fm_refs := fm_refs z + 1\<rparr>"

text \<open>\<^term>\<open>None\<close>: the last reference is gone and the object is destroyed.\<close>

definition ldb_filemeta_unref :: "filemeta \<Rightarrow> filemeta option" where
  "ldb_filemeta_unref z =
     (let z = z\<lparr>fm_refs := fm_refs z - 1\<rparr> in if fm_refs z \<le> 0 then None else Some z)"

section \<open>The edit\<close>

record vedit =
  ve_comparator :: bytes
  ve_log_number :: u64
  ve_prev_log_number :: u64
  ve_next_file_number :: u64
  ve_last_sequence :: u64
  ve_has_comparator :: bool
  ve_has_log_number :: bool
  ve_has_prev_log_number :: bool
  ve_has_next_file_number :: bool
  ve_has_last_sequence :: bool
  ve_compact_pointers :: "ikey_entry list"
  ve_deleted_files :: "file_entry list"
  ve_new_files :: "meta_entry list"

definition ldb_vedit_init :: vedit where
  "ldb_vedit_init = \<lparr>ve_comparator = [], ve_log_number = 0, ve_prev_log_number = 0,
     ve_next_file_number = 0, ve_last_sequence = 0, ve_has_comparator = False, ve_has_log_number = False,
     ve_has_prev_log_number = False, ve_has_next_file_number = False, ve_has_last_sequence = False,
     ve_compact_pointers = [], ve_deleted_files = [], ve_new_files = []\<rparr>"

definition ldb_vedit_reset :: "vedit \<Rightarrow> vedit" where
  "ldb_vedit_reset edit = ldb_vedit_init"

definition ldb_vedit_set_comparator_name :: "vedit \<Rightarrow> string \<Rightarrow> vedit" where
  "ldb_vedit_set_comparator_name edit name = edit\<lparr>ve_has_comparator := True, ve_comparator := string_bytes name\<rparr>"

definition ldb_vedit_set_log_number :: "vedit \<Rightarrow> u64 \<Rightarrow> vedit" where
  "ldb_vedit_set_log_number edit num = edit\<lparr>ve_has_log_number := True, ve_log_number := num\<rparr>"

definition ldb_vedit_set_prev_log_number :: "vedit \<Rightarrow> u64 \<Rightarrow> vedit" where
  "ldb_vedit_set_prev_log_number edit num = edit\<lparr>ve_has_prev_log_number := True, ve_prev_log_number := num\<rparr>"

definition ldb_vedit_set_next_file :: "vedit \<Rightarrow> u64 \<Rightarrow> vedit" where
  "ldb_vedit_set_next_file edit num = edit\<lparr>ve_has_next_file_number := True, ve_next_file_number := num\<rparr>"

definition ldb_vedit_set_last_sequence :: "vedit \<Rightarrow> u64 \<Rightarrow> vedit" where
  "ldb_vedit_set_last_sequence edit seq = edit\<lparr>ve_has_last_sequence := True, ve_last_sequence := seq\<rparr>"

definition ldb_vedit_set_compact_pointer :: "vedit \<Rightarrow> int \<Rightarrow> bytes \<Rightarrow> vedit" where
  "ldb_vedit_set_compact_pointer edit level key =
     edit\<lparr>ve_compact_pointers := ve_compact_pointers edit @ [ikey_entry_create level key]\<rparr>"

definition ldb_vedit_add_file :: "vedit \<Rightarrow> int \<Rightarrow> u64 \<Rightarrow> u64 \<Rightarrow> bytes \<Rightarrow> bytes \<Rightarrow> vedit" where
  "ldb_vedit_add_file edit level number file_size smallest largest =
     edit\<lparr>ve_new_files := ve_new_files edit @ [meta_entry_create level number file_size smallest largest]\<rparr>"

definition ldb_vedit_remove_file :: "vedit \<Rightarrow> int \<Rightarrow> u64 \<Rightarrow> vedit" where
  "ldb_vedit_remove_file edit level number =
     edit\<lparr>ve_deleted_files :=
       snd (oset_put file_entry_compare (ve_deleted_files edit) (file_entry_create level number))\<rparr>"

section \<open>Encoding\<close>

abbreviation "TAG_COMPARATOR \<equiv> 1 :: u32"
abbreviation "TAG_LOG_NUMBER \<equiv> 2 :: u32"
abbreviation "TAG_NEXT_FILE_NUMBER \<equiv> 3 :: u32"
abbreviation "TAG_LAST_SEQUENCE \<equiv> 4 :: u32"
abbreviation "TAG_COMPACT_POINTER \<equiv> 5 :: u32"
abbreviation "TAG_DELETED_FILE \<equiv> 6 :: u32"
abbreviation "TAG_NEW_FILE \<equiv> 7 :: u32"
abbreviation "TAG_PREV_LOG_NUMBER \<equiv> 9 :: u32"

text \<open>The bodies of the three loops of \<^verbatim>\<open>ldb_vedit_export\<close>, one per list.\<close>

definition export_pointer :: "bytes \<Rightarrow> ikey_entry \<Rightarrow> bytes" where
  "export_pointer dst entry =
     ldb_ikey_export (dst @ ldb_varint32_write TAG_COMPACT_POINTER @ ldb_varint32_write (word_of_int (ie_level entry)))
       (ie_key entry)"

definition export_deleted :: "bytes \<Rightarrow> file_entry \<Rightarrow> bytes" where
  "export_deleted dst entry =
     dst @ ldb_varint32_write TAG_DELETED_FILE @ ldb_varint32_write (word_of_int (fe_level entry))
       @ ldb_varint64_write (fe_number entry)"

definition export_new :: "bytes \<Rightarrow> meta_entry \<Rightarrow> bytes" where
  "export_new dst entry =
     (let m = me_meta entry;
          dst = dst @ ldb_varint32_write TAG_NEW_FILE @ ldb_varint32_write (word_of_int (me_level entry))
                @ ldb_varint64_write (fm_number m) @ ldb_varint64_write (fm_file_size m);
          dst = ldb_ikey_export dst (fm_smallest m)
      in ldb_ikey_export dst (fm_largest m))"

definition ldb_vedit_export :: "bytes \<Rightarrow> vedit \<Rightarrow> bytes" where
  "ldb_vedit_export dst edit =
     (let dst = (if ve_has_comparator edit
                 then dst @ ldb_varint32_write TAG_COMPARATOR @ ldb_slice_write (ve_comparator edit) else dst);
          dst = (if ve_has_log_number edit
                 then dst @ ldb_varint32_write TAG_LOG_NUMBER @ ldb_varint64_write (ve_log_number edit) else dst);
          dst = (if ve_has_prev_log_number edit
                 then dst @ ldb_varint32_write TAG_PREV_LOG_NUMBER @ ldb_varint64_write (ve_prev_log_number edit) else dst);
          dst = (if ve_has_next_file_number edit
                 then dst @ ldb_varint32_write TAG_NEXT_FILE_NUMBER @ ldb_varint64_write (ve_next_file_number edit) else dst);
          dst = (if ve_has_last_sequence edit
                 then dst @ ldb_varint32_write TAG_LAST_SEQUENCE @ ldb_varint64_write (ve_last_sequence edit) else dst);
          dst = foldl export_pointer dst (ve_compact_pointers edit);
          dst = foldl export_deleted dst (ve_deleted_files edit)
      in foldl export_new dst (ve_new_files edit))"

section \<open>Decoding\<close>

definition ldb_level_slurp :: "bytes \<Rightarrow> (int \<times> bytes) option" where
  "ldb_level_slurp input =
     (case ldb_varint32_slurp input of
        None \<Rightarrow> None
      | Some (val, input) \<Rightarrow> if unat val \<ge> LDB_NUM_LEVELS then None else Some (uint val, input))"

text \<open>
  One round of the loop of \<^verbatim>\<open>ldb_vedit_import\<close>: the switch over the tag. \<^term>\<open>None\<close> is a return of 0,
  before which no case has changed the edit.
\<close>

definition vedit_import_field :: "vedit \<Rightarrow> u32 \<Rightarrow> bytes \<Rightarrow> (vedit \<times> bytes) option" where
  "vedit_import_field edit tag input =
     (if tag = TAG_COMPARATOR then
        do { (s, input) \<leftarrow> ldb_slice_slurp input;
             Some (edit\<lparr>ve_comparator := s, ve_has_comparator := True\<rparr>, input) }
      else if tag = TAG_LOG_NUMBER then
        do { (n, input) \<leftarrow> ldb_varint64_slurp input;
             Some (edit\<lparr>ve_log_number := n, ve_has_log_number := True\<rparr>, input) }
      else if tag = TAG_PREV_LOG_NUMBER then
        do { (n, input) \<leftarrow> ldb_varint64_slurp input;
             Some (edit\<lparr>ve_prev_log_number := n, ve_has_prev_log_number := True\<rparr>, input) }
      else if tag = TAG_NEXT_FILE_NUMBER then
        do { (n, input) \<leftarrow> ldb_varint64_slurp input;
             Some (edit\<lparr>ve_next_file_number := n, ve_has_next_file_number := True\<rparr>, input) }
      else if tag = TAG_LAST_SEQUENCE then
        do { (n, input) \<leftarrow> ldb_varint64_slurp input;
             Some (edit\<lparr>ve_last_sequence := n, ve_has_last_sequence := True\<rparr>, input) }
      else if tag = TAG_COMPACT_POINTER then
        do { (level, input) \<leftarrow> ldb_level_slurp input;
             (key, input) \<leftarrow> ldb_slice_slurp input;
             Some (ldb_vedit_set_compact_pointer edit level key, input) }
      else if tag = TAG_DELETED_FILE then
        do { (level, input) \<leftarrow> ldb_level_slurp input;
             (number, input) \<leftarrow> ldb_varint64_slurp input;
             Some (ldb_vedit_remove_file edit level number, input) }
      else if tag = TAG_NEW_FILE then
        do { (level, input) \<leftarrow> ldb_level_slurp input;
             (number, input) \<leftarrow> ldb_varint64_slurp input;
             (file_size, input) \<leftarrow> ldb_varint64_slurp input;
             (smallest, input) \<leftarrow> ldb_slice_slurp input;
             (largest, input) \<leftarrow> ldb_slice_slurp input;
             Some (ldb_vedit_add_file edit level number file_size smallest largest, input) }
      else None)"

lemma slurp_shorter [dest]:
  "ldb_varint32_slurp bs = Some (x, r) \<Longrightarrow> length r < length bs"
  "ldb_varint64_slurp bs = Some (y, r) \<Longrightarrow> length r < length bs"
  "ldb_slice_slurp bs = Some (s, r) \<Longrightarrow> length r < length bs"
  by (auto simp: ldb_varint32_slurp_def ldb_varint64_slurp_def ldb_slice_slurp_def
      dest: varint32.dec_length varint64.dec_length slice.dec_length)

lemma level_slurp_shorter [dest]: "ldb_level_slurp bs = Some (l, r) \<Longrightarrow> length r < length bs"
  by (auto simp: ldb_level_slurp_def split: option.splits if_splits)

lemma import_field_shorter: "vedit_import_field e tag bs = Some (e', r) \<Longrightarrow> length r < length bs"
  by (fastforce simp: vedit_import_field_def split: Option.bind_splits if_splits
      dest!: slurp_shorter level_slurp_shorter)

function vedit_import_loop :: "vedit \<Rightarrow> bytes \<Rightarrow> bool \<times> vedit" where
  "vedit_import_loop edit input =
     (if length input > 0 then
        (case ldb_varint32_slurp input of
           None \<Rightarrow> (False, edit)
         | Some (tag, input) \<Rightarrow>
             (case vedit_import_field edit tag input of
                None \<Rightarrow> (False, edit)
              | Some (edit, input) \<Rightarrow> vedit_import_loop edit input))
      else (True, edit))"
  by pat_completeness auto
termination
  by (relation "measure (\<lambda>(edit, input). length input)")
    (auto dest!: slurp_shorter import_field_shorter)

declare vedit_import_loop.simps [simp del]

definition ldb_vedit_import :: "vedit \<Rightarrow> bytes \<Rightarrow> bool \<times> vedit" where
  "ldb_vedit_import edit src = vedit_import_loop (ldb_vedit_reset edit) src"

section \<open>Printing\<close>

definition debug_number :: "bytes \<Rightarrow> u64 \<Rightarrow> bytes" where
  "debug_number z x = z @ string_bytes (ldb_encode_int x 0)"

definition debug_string :: "bytes \<Rightarrow> string \<Rightarrow> bytes" where
  "debug_string z s = z @ string_bytes s"

definition debug_escape :: "bytes \<Rightarrow> bytes \<Rightarrow> bytes" where
  "debug_escape z x = z @ concat (map escape_byte x)"

definition ldb_pkey_debug :: "bytes \<Rightarrow> pkey \<Rightarrow> bytes" where
  "ldb_pkey_debug z x =
     (let z = debug_escape (z @ [39]) (user_key x);
          z = debug_number (debug_string z (CHR 0x27 # '' @ '')) (sequence x)
      in debug_number (debug_string z '' : '') (valtype_code (vtype x)))"

definition ldb_ikey_debug :: "bytes \<Rightarrow> bytes \<Rightarrow> bytes" where
  "ldb_ikey_debug z x =
     (case ldb_pkey_import x of
        Some pkey \<Rightarrow> ldb_pkey_debug z pkey
      | None \<Rightarrow> debug_escape (debug_string z ''(bad)'') x)"

definition newline_string :: "string \<Rightarrow> string" where
  "newline_string s = CHR 0x0A # s"

definition debug_pointer :: "bytes \<Rightarrow> ikey_entry \<Rightarrow> bytes" where
  "debug_pointer z entry =
     (let z = debug_number (debug_string z (newline_string ''  CompactPointer: '')) (word_of_int (ie_level entry))
      in ldb_ikey_debug (debug_string z '' '') (ie_key entry))"

definition debug_deleted :: "bytes \<Rightarrow> file_entry \<Rightarrow> bytes" where
  "debug_deleted z entry =
     (let z = debug_number (debug_string z (newline_string ''  RemoveFile: '')) (word_of_int (fe_level entry))
      in debug_number (debug_string z '' '') (fe_number entry))"

definition debug_new :: "bytes \<Rightarrow> meta_entry \<Rightarrow> bytes" where
  "debug_new z entry =
     (let f = me_meta entry;
          z = debug_number (debug_string z (newline_string ''  AddFile: '')) (word_of_int (me_level entry));
          z = debug_number (debug_string z '' '') (fm_number f);
          z = debug_number (debug_string z '' '') (fm_file_size f);
          z = ldb_ikey_debug (debug_string z '' '') (fm_smallest f)
      in ldb_ikey_debug (debug_string z '' .. '') (fm_largest f))"

definition ldb_vedit_debug :: "bytes \<Rightarrow> vedit \<Rightarrow> bytes" where
  "ldb_vedit_debug z edit =
     (let z = debug_string z ''VersionEdit {'';
          z = (if ve_has_comparator edit
               then debug_string z (newline_string ''  Comparator: '') @ ve_comparator edit else z);
          z = (if ve_has_log_number edit
               then debug_number (debug_string z (newline_string ''  LogNumber: '')) (ve_log_number edit) else z);
          z = (if ve_has_prev_log_number edit
               then debug_number (debug_string z (newline_string ''  PrevLogNumber: '')) (ve_prev_log_number edit) else z);
          z = (if ve_has_next_file_number edit
               then debug_number (debug_string z (newline_string ''  NextFile: '')) (ve_next_file_number edit) else z);
          z = (if ve_has_last_sequence edit
               then debug_number (debug_string z (newline_string ''  LastSeq: '')) (ve_last_sequence edit) else z);
          z = foldl debug_pointer z (ve_compact_pointers edit);
          z = foldl debug_deleted z (ve_deleted_files edit);
          z = foldl debug_new z (ve_new_files edit)
      in debug_string z (newline_string (CHR ''}'' # newline_string [])))"

section \<open>Order of deleted files\<close>

interpretation deleted_order: key_order file_entry_compare "\<lambda>_. True"
  by unfold_locales (auto simp: file_entry_compare_def split: if_splits)

lemma file_entry_compare_0: "file_entry_compare x y = 0 \<longleftrightarrow> x = y"
  by (auto simp: file_entry_compare_def)

section \<open>Edits that the encoding can represent\<close>

abbreviation level_ok :: "int \<Rightarrow> bool" where
  "level_ok l \<equiv> 0 \<le> l \<and> l < int LDB_NUM_LEVELS"

definition meta_ok :: "meta_entry \<Rightarrow> bool" where
  "meta_ok m \<longleftrightarrow> level_ok (me_level m) \<and> slice_ok (fm_smallest (me_meta m)) \<and> slice_ok (fm_largest (me_meta m))
     \<and> fm_refs (me_meta m) = 0 \<and> fm_allowed_seeks (me_meta m) = 2 ^ 30"

definition vedit_inv :: "vedit \<Rightarrow> bool" where
  "vedit_inv e \<longleftrightarrow>
     slice_ok (ve_comparator e)
     \<and> (\<not> ve_has_comparator e \<longrightarrow> ve_comparator e = []) \<and> (\<not> ve_has_log_number e \<longrightarrow> ve_log_number e = 0)
     \<and> (\<not> ve_has_prev_log_number e \<longrightarrow> ve_prev_log_number e = 0)
     \<and> (\<not> ve_has_next_file_number e \<longrightarrow> ve_next_file_number e = 0)
     \<and> (\<not> ve_has_last_sequence e \<longrightarrow> ve_last_sequence e = 0)
     \<and> list_all (\<lambda>p. level_ok (ie_level p) \<and> slice_ok (ie_key p)) (ve_compact_pointers e)
     \<and> list_all (\<lambda>d. level_ok (fe_level d)) (ve_deleted_files e) \<and> oset_sorted file_entry_compare (ve_deleted_files e)
     \<and> list_all meta_ok (ve_new_files e)"

text \<open>The edits that a client builds with the setters.\<close>

inductive vedit_built :: "vedit \<Rightarrow> bool" where
  init: "vedit_built ldb_vedit_init"
| comparator: "vedit_built e \<Longrightarrow> length name < 2 ^ 32 \<Longrightarrow> vedit_built (ldb_vedit_set_comparator_name e name)"
| log_number: "vedit_built e \<Longrightarrow> vedit_built (ldb_vedit_set_log_number e n)"
| prev_log_number: "vedit_built e \<Longrightarrow> vedit_built (ldb_vedit_set_prev_log_number e n)"
| next_file: "vedit_built e \<Longrightarrow> vedit_built (ldb_vedit_set_next_file e n)"
| last_sequence: "vedit_built e \<Longrightarrow> vedit_built (ldb_vedit_set_last_sequence e n)"
| compact_pointer:
    "vedit_built e \<Longrightarrow> level_ok l \<Longrightarrow> slice_ok k \<Longrightarrow> vedit_built (ldb_vedit_set_compact_pointer e l k)"
| add_file: "vedit_built e \<Longrightarrow> level_ok l \<Longrightarrow> slice_ok a \<Longrightarrow> slice_ok b \<Longrightarrow> vedit_built (ldb_vedit_add_file e l n s a b)"
| remove_file: "vedit_built e \<Longrightarrow> level_ok l \<Longrightarrow> vedit_built (ldb_vedit_remove_file e l n)"

lemma vedit_inv_init: "vedit_inv ldb_vedit_init"
  by (simp add: vedit_inv_def ldb_vedit_init_def)

lemma vedit_inv_add_file:
  "vedit_inv e \<Longrightarrow> level_ok l \<Longrightarrow> slice_ok a \<Longrightarrow> slice_ok b \<Longrightarrow> vedit_inv (ldb_vedit_add_file e l n s a b)"
  by (simp add: vedit_inv_def ldb_vedit_add_file_def meta_ok_def meta_entry_create_def ldb_filemeta_init_def)

lemma vedit_inv_remove_file: "vedit_inv e \<Longrightarrow> level_ok l \<Longrightarrow> vedit_inv (ldb_vedit_remove_file e l n)"
  using deleted_order.oset_put_subset [of "ve_deleted_files e" "file_entry_create l n"]
    deleted_order.oset_put_sorted [of "ve_deleted_files e" "file_entry_create l n"]
  by (fastforce simp: vedit_inv_def ldb_vedit_remove_file_def list_all_iff file_entry_create_def)

lemma vedit_inv_compact_pointer:
  "vedit_inv e \<Longrightarrow> level_ok l \<Longrightarrow> slice_ok k \<Longrightarrow> vedit_inv (ldb_vedit_set_compact_pointer e l k)"
  by (simp add: vedit_inv_def ldb_vedit_set_compact_pointer_def ikey_entry_create_def)

lemma vedit_built_inv: "vedit_built e \<Longrightarrow> vedit_inv e"
proof (induction rule: vedit_built.induct)
  case (add_file e l a b n s)
  then show ?case by (intro vedit_inv_add_file) auto
next
  case (remove_file e l n)
  then show ?case by (intro vedit_inv_remove_file) auto
next
  case (compact_pointer e l k)
  then show ?case by (intro vedit_inv_compact_pointer) auto
qed (simp_all add: vedit_inv_init, simp_all add: vedit_inv_def ldb_vedit_set_comparator_name_def
    ldb_vedit_set_log_number_def ldb_vedit_set_prev_log_number_def ldb_vedit_set_next_file_def
    ldb_vedit_set_last_sequence_def)

lemma ldb_slice_slurp_ok: "ldb_slice_slurp bs = Some (s, r) \<Longrightarrow> slice_ok s"
  using unat_u32_less
  by (fastforce simp: ldb_slice_slurp_def ldb_slice_read_def ldb_zraw_read_def split: option.splits if_splits)

lemma ldb_level_slurp_ok: "ldb_level_slurp bs = Some (l, r) \<Longrightarrow> level_ok l"
proof -
  assume "ldb_level_slurp bs = Some (l, r)"
  then obtain v :: u32 where "unat v < LDB_NUM_LEVELS" "l = uint v"
    by (auto simp: ldb_level_slurp_def not_le split: option.splits if_splits)
  then show "level_ok l" by (simp add: nat_less_iff flip: nat_uint_eq)
qed

lemma import_field_inv:
  assumes "vedit_inv e" "vedit_import_field e tag bs = Some (e', r)"
  shows "vedit_inv e'"
proof -
  have simple: "slice_ok s \<Longrightarrow> vedit_inv (e\<lparr>ve_comparator := s, ve_has_comparator := True\<rparr>)"
    "vedit_inv (e\<lparr>ve_log_number := n, ve_has_log_number := True\<rparr>)"
    "vedit_inv (e\<lparr>ve_prev_log_number := n, ve_has_prev_log_number := True\<rparr>)"
    "vedit_inv (e\<lparr>ve_next_file_number := n, ve_has_next_file_number := True\<rparr>)"
    "vedit_inv (e\<lparr>ve_last_sequence := n, ve_has_last_sequence := True\<rparr>)" for s n
    using assms(1) by (simp_all add: vedit_inv_def)
  from assms(2) show ?thesis
    by (auto simp: vedit_import_field_def split: Option.bind_splits if_splits
        dest!: ldb_slice_slurp_ok ldb_level_slurp_ok
        intro!: simple vedit_inv_compact_pointer [OF assms(1)] vedit_inv_add_file [OF assms(1)]
          vedit_inv_remove_file [OF assms(1)])
qed

lemma import_loop_inv: "vedit_inv e \<Longrightarrow> vedit_inv (snd (vedit_import_loop e bs))"
proof (induction e bs rule: vedit_import_loop.induct)
  case (1 e bs)
  show ?case
    using "1.IH" "1.prems" import_field_inv [OF "1.prems"]
    by (subst vedit_import_loop.simps) (fastforce split: option.splits)
qed

section \<open>Decoding what was encoded\<close>

lemma slurp_write [simp]:
  "ldb_varint32_slurp (ldb_varint32_write x @ r) = Some (x, r)"
  "ldb_varint64_slurp (ldb_varint64_write y @ r) = Some (y, r)"
  by (simp_all add: ldb_varint32_slurp_def ldb_varint64_slurp_def)

lemma level_slurp_write [simp]:
  "level_ok l \<Longrightarrow> ldb_level_slurp (ldb_varint32_write (word_of_int l) @ r) = Some (l, r)"
proof -
  assume "level_ok l"
  then have "uint (word_of_int l :: u32) = l"
    by (simp add: uint_word_of_int LDB_NUM_LEVELS_def)
  with \<open>level_ok l\<close> show ?thesis by (simp add: ldb_level_slurp_def not_le nat_less_iff flip: nat_uint_eq)
qed

lemma import_loop_step:
  assumes "vedit_import_field e tag (bs @ r) = Some (e', r)"
  shows "vedit_import_loop e (ldb_varint32_write tag @ bs @ r) = vedit_import_loop e' r"
  using assms length_ldb_varint32_write [of tag]
  by (subst vedit_import_loop.simps) simp

lemma import_loop_Nil [simp]: "vedit_import_loop e [] = (True, e)"
  by (subst vedit_import_loop.simps) simp

lemma export_pointer_append: "export_pointer dst p = dst @ export_pointer [] p"
  by (simp add: export_pointer_def ldb_ikey_export_def ldb_slice_export_def)

lemma export_deleted_append: "export_deleted dst p = dst @ export_deleted [] p"
  by (simp add: export_deleted_def)

lemma export_new_append: "export_new dst p = dst @ export_new [] p"
  by (simp add: export_new_def ldb_ikey_export_def ldb_slice_export_def Let_def)

lemma foldl_append_concat:
  "(\<And>d p. f d p = d @ g p) \<Longrightarrow> foldl f dst ps = dst @ concat (map g ps)"
  by (induction ps arbitrary: dst) auto

lemma entry_create_same:
  "ikey_entry_create (ie_level p) (ie_key p) = p" "file_entry_create (fe_level d) (fe_number d) = d"
  by (simp_all add: ikey_entry_create_def file_entry_create_def)

lemma import_pointers:
  "list_all (\<lambda>p. level_ok (ie_level p) \<and> slice_ok (ie_key p)) ps \<Longrightarrow>
     vedit_import_loop e (concat (map (export_pointer []) ps) @ r)
     = vedit_import_loop (e\<lparr>ve_compact_pointers := ve_compact_pointers e @ ps\<rparr>) r"
proof (induction ps arbitrary: e)
  case (Cons p ps)
  let ?e = "ldb_vedit_set_compact_pointer e (ie_level p) (ie_key p)" and ?t = "concat (map (export_pointer []) ps)"
  have "vedit_import_field e TAG_COMPACT_POINTER
      ((ldb_varint32_write (word_of_int (ie_level p)) @ ldb_slice_write (ie_key p)) @ ?t @ r) = Some (?e, ?t @ r)"
    using Cons.prems by (simp add: vedit_import_field_def)
  from import_loop_step [OF this]
  have "vedit_import_loop e (export_pointer [] p @ ?t @ r) = vedit_import_loop ?e (?t @ r)"
    by (simp add: export_pointer_def ldb_ikey_export_def ldb_slice_export_def)
  then show ?case
    using Cons by (simp add: ldb_vedit_set_compact_pointer_def entry_create_same)
qed simp

lemma import_deleted:
  "list_all (\<lambda>d. level_ok (fe_level d)) ds \<Longrightarrow>
     vedit_import_loop e (concat (map (export_deleted []) ds) @ r)
     = vedit_import_loop (e\<lparr>ve_deleted_files := foldl (\<lambda>s x. snd (oset_put file_entry_compare s x)) (ve_deleted_files e) ds\<rparr>) r"
proof (induction ds arbitrary: e)
  case (Cons d ds)
  let ?e = "ldb_vedit_remove_file e (fe_level d) (fe_number d)" and ?t = "concat (map (export_deleted []) ds)"
  have "vedit_import_field e TAG_DELETED_FILE
      ((ldb_varint32_write (word_of_int (fe_level d)) @ ldb_varint64_write (fe_number d)) @ ?t @ r) = Some (?e, ?t @ r)"
    using Cons.prems by (simp add: vedit_import_field_def)
  from import_loop_step [OF this]
  have "vedit_import_loop e (export_deleted [] d @ ?t @ r) = vedit_import_loop ?e (?t @ r)"
    by (simp add: export_deleted_def)
  then show ?case
    using Cons by (simp add: ldb_vedit_remove_file_def entry_create_same)
qed simp

lemma meta_entry_create_ok:
  "meta_ok m \<Longrightarrow> meta_entry_create (me_level m) (fm_number (me_meta m)) (fm_file_size (me_meta m))
     (fm_smallest (me_meta m)) (fm_largest (me_meta m)) = m"
  by (simp add: meta_ok_def meta_entry_create_def ldb_filemeta_init_def)

lemma import_new:
  "list_all meta_ok ms \<Longrightarrow>
     vedit_import_loop e (concat (map (export_new []) ms) @ r)
     = vedit_import_loop (e\<lparr>ve_new_files := ve_new_files e @ ms\<rparr>) r"
proof (induction ms arbitrary: e)
  case (Cons m ms)
  let ?f = "me_meta m"
  let ?e = "ldb_vedit_add_file e (me_level m) (fm_number ?f) (fm_file_size ?f) (fm_smallest ?f) (fm_largest ?f)"
    and ?t = "concat (map (export_new []) ms)"
  have "vedit_import_field e TAG_NEW_FILE
      ((ldb_varint32_write (word_of_int (me_level m)) @ ldb_varint64_write (fm_number ?f)
        @ ldb_varint64_write (fm_file_size ?f) @ ldb_slice_write (fm_smallest ?f) @ ldb_slice_write (fm_largest ?f))
        @ ?t @ r) = Some (?e, ?t @ r)"
    using Cons.prems by (simp add: vedit_import_field_def meta_ok_def)
  from import_loop_step [OF this]
  have "vedit_import_loop e (export_new [] m @ ?t @ r) = vedit_import_loop ?e (?t @ r)"
    by (simp add: export_new_def ldb_ikey_export_def ldb_slice_export_def Let_def)
  then show ?case
    using Cons by (simp add: ldb_vedit_add_file_def meta_entry_create_ok)
qed simp

lemma import_comparator:
  "slice_ok s \<Longrightarrow> vedit_import_loop e (ldb_varint32_write TAG_COMPARATOR @ ldb_slice_write s @ r)
     = vedit_import_loop (e\<lparr>ve_comparator := s, ve_has_comparator := True\<rparr>) r"
  by (rule import_loop_step) (simp add: vedit_import_field_def)

lemma import_numbers:
  "vedit_import_loop e (ldb_varint32_write TAG_LOG_NUMBER @ ldb_varint64_write n @ r)
     = vedit_import_loop (e\<lparr>ve_log_number := n, ve_has_log_number := True\<rparr>) r"
  "vedit_import_loop e (ldb_varint32_write TAG_PREV_LOG_NUMBER @ ldb_varint64_write n @ r)
     = vedit_import_loop (e\<lparr>ve_prev_log_number := n, ve_has_prev_log_number := True\<rparr>) r"
  "vedit_import_loop e (ldb_varint32_write TAG_NEXT_FILE_NUMBER @ ldb_varint64_write n @ r)
     = vedit_import_loop (e\<lparr>ve_next_file_number := n, ve_has_next_file_number := True\<rparr>) r"
  "vedit_import_loop e (ldb_varint32_write TAG_LAST_SEQUENCE @ ldb_varint64_write n @ r)
     = vedit_import_loop (e\<lparr>ve_last_sequence := n, ve_has_last_sequence := True\<rparr>) r"
  by (rule import_loop_step, simp add: vedit_import_field_def)+

lemma export_flat:
  "ldb_vedit_export [] e =
     (if ve_has_comparator e then ldb_varint32_write TAG_COMPARATOR @ ldb_slice_write (ve_comparator e) else [])
     @ (if ve_has_log_number e then ldb_varint32_write TAG_LOG_NUMBER @ ldb_varint64_write (ve_log_number e) else [])
     @ (if ve_has_prev_log_number e then ldb_varint32_write TAG_PREV_LOG_NUMBER @ ldb_varint64_write (ve_prev_log_number e) else [])
     @ (if ve_has_next_file_number e then ldb_varint32_write TAG_NEXT_FILE_NUMBER @ ldb_varint64_write (ve_next_file_number e) else [])
     @ (if ve_has_last_sequence e then ldb_varint32_write TAG_LAST_SEQUENCE @ ldb_varint64_write (ve_last_sequence e) else [])
     @ concat (map (export_pointer []) (ve_compact_pointers e)) @ concat (map (export_deleted []) (ve_deleted_files e))
     @ concat (map (export_new []) (ve_new_files e))"
  by (simp add: ldb_vedit_export_def Let_def foldl_append_concat [OF export_pointer_append]
      foldl_append_concat [OF export_deleted_append] foldl_append_concat [OF export_new_append])

lemma vedit_import_export:
  assumes "vedit_inv e"
  shows "ldb_vedit_import old (ldb_vedit_export [] e) = (True, e)"
proof -
  have lists: "vedit_import_loop e' (concat (map (export_pointer []) (ve_compact_pointers e))
      @ concat (map (export_deleted []) (ve_deleted_files e)) @ concat (map (export_new []) (ve_new_files e)))
    = (True, e'\<lparr>ve_compact_pointers := ve_compact_pointers e, ve_deleted_files := ve_deleted_files e, ve_new_files := ve_new_files e\<rparr>)"
    if "ve_compact_pointers e' = []" "ve_deleted_files e' = []" "ve_new_files e' = []" for e'
    using assms that deleted_order.oset_put_all [of "[]" "ve_deleted_files e"] import_new [of _ _ "[]"]
    by (simp add: vedit_inv_def import_pointers import_deleted)
  have all: "vedit_import_loop ldb_vedit_init (ldb_vedit_export [] e) = (True,
      \<lparr>ve_comparator = if ve_has_comparator e then ve_comparator e else [],
       ve_log_number = if ve_has_log_number e then ve_log_number e else 0,
       ve_prev_log_number = if ve_has_prev_log_number e then ve_prev_log_number e else 0,
       ve_next_file_number = if ve_has_next_file_number e then ve_next_file_number e else 0,
       ve_last_sequence = if ve_has_last_sequence e then ve_last_sequence e else 0,
       ve_has_comparator = ve_has_comparator e, ve_has_log_number = ve_has_log_number e,
       ve_has_prev_log_number = ve_has_prev_log_number e, ve_has_next_file_number = ve_has_next_file_number e,
       ve_has_last_sequence = ve_has_last_sequence e, ve_compact_pointers = ve_compact_pointers e,
       ve_deleted_files = ve_deleted_files e, ve_new_files = ve_new_files e\<rparr>)"
    using assms unfolding export_flat vedit_inv_def
    by (simp add: import_comparator import_numbers lists ldb_vedit_init_def)
  show ?thesis
    using assms all unfolding ldb_vedit_import_def ldb_vedit_reset_def vedit_inv_def
    by (cases e) (auto split: if_splits)
qed

section \<open>The grammar of a record\<close>

text \<open>
  The varints that a reader with room for \<^term>\<open>n\<close> bytes takes, and what they stand for: seven bits of every byte, the lowest first.
\<close>

fun varint_bytes :: "nat \<Rightarrow> bytes \<Rightarrow> bool" where
  "varint_bytes 0 bs = False"
| "varint_bytes (Suc n) [] = False"
| "varint_bytes (Suc n) (b # bs) = (if bit b 7 then varint_bytes n bs else bs = [])"

primrec varint_value :: "bytes \<Rightarrow> 'a::len word" where
  "varint_value [] = 0"
| "varint_value (b # bs) = (ucast b AND 127) OR push_bit 7 (varint_value bs)"

definition level_bytes :: "int \<Rightarrow> bytes \<Rightarrow> bool" where
  "level_bytes level bs \<longleftrightarrow> varint_bytes 5 bs \<and> level = uint (varint_value bs :: u32) \<and> level < 7"

definition number_bytes :: "u64 \<Rightarrow> bytes \<Rightarrow> bool" where
  "number_bytes n bs \<longleftrightarrow> varint_bytes 10 bs \<and> n = varint_value bs"

definition slice_bytes :: "bytes \<Rightarrow> bytes \<Rightarrow> bool" where
  "slice_bytes s bs \<longleftrightarrow> (\<exists>l. bs = l @ s \<and> varint_bytes 5 l \<and> length s = unat (varint_value l :: u32))"

text \<open>The fields of a record: what they carry, their tags and bodies, and what they do to an edit.\<close>

datatype edit_field =
    ComparatorName bytes | LogNumber u64 | NextFileNumber u64 | LastSequence u64 | PrevLogNumber u64
  | CompactPointer int bytes | DeletedFile int u64 | NewFile int u64 u64 bytes bytes

primrec field_tag :: "edit_field \<Rightarrow> u32" where
  "field_tag (ComparatorName s) = 1"
| "field_tag (LogNumber n) = 2"
| "field_tag (NextFileNumber n) = 3"
| "field_tag (LastSequence n) = 4"
| "field_tag (CompactPointer level key) = 5"
| "field_tag (DeletedFile level n) = 6"
| "field_tag (NewFile level n sz a b) = 7"
| "field_tag (PrevLogNumber n) = 9"

primrec field_body :: "edit_field \<Rightarrow> bytes \<Rightarrow> bool" where
  "field_body (ComparatorName s) x \<longleftrightarrow> slice_bytes s x"
| "field_body (LogNumber n) x \<longleftrightarrow> number_bytes n x"
| "field_body (NextFileNumber n) x \<longleftrightarrow> number_bytes n x"
| "field_body (LastSequence n) x \<longleftrightarrow> number_bytes n x"
| "field_body (PrevLogNumber n) x \<longleftrightarrow> number_bytes n x"
| "field_body (CompactPointer level key) x \<longleftrightarrow> (\<exists>x1 x2. x = x1 @ x2 \<and> level_bytes level x1 \<and> slice_bytes key x2)"
| "field_body (DeletedFile level n) x \<longleftrightarrow> (\<exists>x1 x2. x = x1 @ x2 \<and> level_bytes level x1 \<and> number_bytes n x2)"
| "field_body (NewFile level n sz a b) x \<longleftrightarrow> (\<exists>x1 x2 x3 x4 x5. x = x1 @ x2 @ x3 @ x4 @ x5
     \<and> level_bytes level x1 \<and> number_bytes n x2 \<and> number_bytes sz x3 \<and> slice_bytes a x4 \<and> slice_bytes b x5)"

primrec apply_field :: "vedit \<Rightarrow> edit_field \<Rightarrow> vedit" where
  "apply_field e (ComparatorName s) = e\<lparr>ve_comparator := s, ve_has_comparator := True\<rparr>"
| "apply_field e (LogNumber n) = ldb_vedit_set_log_number e n"
| "apply_field e (NextFileNumber n) = ldb_vedit_set_next_file e n"
| "apply_field e (LastSequence n) = ldb_vedit_set_last_sequence e n"
| "apply_field e (PrevLogNumber n) = ldb_vedit_set_prev_log_number e n"
| "apply_field e (CompactPointer level key) = ldb_vedit_set_compact_pointer e level key"
| "apply_field e (DeletedFile level n) = ldb_vedit_remove_file e level n"
| "apply_field e (NewFile level n sz a b) = ldb_vedit_add_file e level n sz a b"

inductive edit_bytes :: "edit_field list \<Rightarrow> bytes \<Rightarrow> bool" where
  Nil: "edit_bytes [] []"
| Cons: "varint_bytes 5 t \<Longrightarrow> varint_value t = field_tag f \<Longrightarrow> field_body f x \<Longrightarrow> edit_bytes fs r \<Longrightarrow> edit_bytes (f # fs) (t @ x @ r)"

lemma high_bit: "(ucast (b :: u8) :: u32) AND 128 = 0 \<longleftrightarrow> \<not> bit b 7" "(ucast (b :: u8) :: u64) AND 128 = 0 \<longleftrightarrow> \<not> bit b 7"
  using and_exp_eq_0_iff_not_bit [of "ucast b :: u32" 7] and_exp_eq_0_iff_not_bit [of "ucast b :: u64" 7] by (simp_all add: bit_simps)

lemma low_bits: "\<not> bit (b :: u8) 7 \<Longrightarrow> (ucast b :: u32) AND 127 = ucast b" "\<not> bit (b :: u8) 7 \<Longrightarrow> (ucast b :: u64) AND 127 = ucast b"
proof -
  have m: "(127 :: u32) = mask 7" "(127 :: u64) = mask 7" by (simp_all add: mask_eq_exp_minus_1)
  have b: "bit b n \<Longrightarrow> n < 7" if "\<not> bit b 7" for n
    using that bit_imp_le_length [of b n] by (cases "n = 7") auto
  show "(ucast b :: u32) AND 127 = ucast b" "(ucast b :: u64) AND 127 = ucast b" if "\<not> bit b 7"
    unfolding m using b [OF that] by (auto intro!: bit_word_eqI simp: bit_simps)
qed

lemma varint_bytes_Nil [simp]: "\<not> varint_bytes n []"
  by (cases n) simp_all

lemma varint_bytes_first:
  "(\<exists>bs. b # xs = bs @ rest \<and> varint_bytes (Suc n) bs \<and> P bs)
    \<longleftrightarrow> (\<exists>bs. xs = bs @ rest \<and> (if bit b 7 then varint_bytes n bs else bs = []) \<and> P (b # bs))"
proof safe
  fix bs assume "b # xs = bs @ rest" "varint_bytes (Suc n) bs" "P bs"
  then show "\<exists>bs. xs = bs @ rest \<and> (if bit b 7 then varint_bytes n bs else bs = []) \<and> P (b # bs)" by (cases bs) auto
next
  fix bs assume "(if bit b 7 then varint_bytes n bs else bs = [])" "P (b # bs)"
  then show "\<exists>bs'. b # bs @ rest = bs' @ rest \<and> varint_bytes (Suc n) bs' \<and> P bs'" by (intro exI [of _ "b # bs"]) simp
qed

lemma varint32_read_loop_iff:
  "ldb_varint32_read_loop (7 * k) result xp = Some (x, rest)
    \<longleftrightarrow> (\<exists>bs. xp = bs @ rest \<and> varint_bytes (5 - k) bs \<and> x = result OR push_bit (7 * k) (varint_value bs))"
proof (induction xp arbitrary: k result)
  case Nil
  then show ?case by (subst ldb_varint32_read_loop.simps) (cases "5 - k"; simp)
next
  case (Cons b xs)
  show ?case
  proof (cases "5 - k")
    case 0
    then show ?thesis by (subst ldb_varint32_read_loop.simps) simp
  next
    case (Suc n)
    then have k: "7 * k \<le> 28" "n = 5 - Suc k" by simp_all
    show ?thesis
    proof (cases "bit b 7")
      case True
      have "ldb_varint32_read_loop (7 * k) result (b # xs) = ldb_varint32_read_loop (7 * Suc k) (result OR push_bit (7 * k) (ucast b AND 127)) xs"
        using k(1) True by (subst ldb_varint32_read_loop.simps) (simp add: high_bit add.commute)
      with Cons.IH [of "Suc k"] True show ?thesis
        unfolding Suc k(2) by (simp add: varint_bytes_first push_bit_or push_bit_push_bit or.assoc add.commute)
    next
      case False
      then have "ldb_varint32_read_loop (7 * k) result (b # xs) = Some (result OR push_bit (7 * k) (ucast b), xs)"
        using k(1) by (subst ldb_varint32_read_loop.simps) (simp add: high_bit)
      with False show ?thesis unfolding Suc by (auto simp: varint_bytes_first low_bits)
    qed
  qed
qed

lemma varint64_read_loop_iff:
  "ldb_varint64_read_loop (7 * k) result xp = Some (x, rest)
    \<longleftrightarrow> (\<exists>bs. xp = bs @ rest \<and> varint_bytes (10 - k) bs \<and> x = result OR push_bit (7 * k) (varint_value bs))"
proof (induction xp arbitrary: k result)
  case Nil
  then show ?case by (subst ldb_varint64_read_loop.simps) (cases "10 - k"; simp)
next
  case (Cons b xs)
  show ?case
  proof (cases "10 - k")
    case 0
    then show ?thesis by (subst ldb_varint64_read_loop.simps) simp
  next
    case (Suc n)
    then have k: "7 * k \<le> 63" "n = 10 - Suc k" by simp_all
    show ?thesis
    proof (cases "bit b 7")
      case True
      have "ldb_varint64_read_loop (7 * k) result (b # xs) = ldb_varint64_read_loop (7 * Suc k) (result OR push_bit (7 * k) (ucast b AND 127)) xs"
        using k(1) True by (subst ldb_varint64_read_loop.simps) (simp add: high_bit add.commute)
      with Cons.IH [of "Suc k"] True show ?thesis
        unfolding Suc k(2) by (simp add: varint_bytes_first push_bit_or push_bit_push_bit or.assoc add.commute)
    next
      case False
      then have "ldb_varint64_read_loop (7 * k) result (b # xs) = Some (result OR push_bit (7 * k) (ucast b), xs)"
        using k(1) by (subst ldb_varint64_read_loop.simps) (simp add: high_bit)
      with False show ?thesis unfolding Suc by (auto simp: varint_bytes_first low_bits)
    qed
  qed
qed

lemma slurp_iff:
  "ldb_varint32_slurp xp = Some (x, rest) \<longleftrightarrow> (\<exists>bs. xp = bs @ rest \<and> varint_bytes 5 bs \<and> x = varint_value bs)"
  "ldb_varint64_slurp xp = Some (n, rest) \<longleftrightarrow> (\<exists>bs. xp = bs @ rest \<and> number_bytes n bs)"
  using varint32_read_loop_iff [of 0 0 xp x rest] varint64_read_loop_iff [of 0 0 xp n rest]
  by (simp_all add: ldb_varint32_slurp_def ldb_varint32_read_def ldb_varint64_slurp_def ldb_varint64_read_def number_bytes_def)

lemma level_slurp_iff: "ldb_level_slurp xp = Some (level, rest) \<longleftrightarrow> (\<exists>bs. xp = bs @ rest \<and> level_bytes level bs)"
proof -
  have "unat v \<ge> LDB_NUM_LEVELS \<longleftrightarrow> \<not> uint v < 7" for v :: u32
    unfolding uint_nat LDB_NUM_LEVELS_def by linarith
  then have "ldb_level_slurp xp = Some (level, rest) \<longleftrightarrow> (\<exists>v. ldb_varint32_slurp xp = Some (v, rest) \<and> level = uint v \<and> level < 7)"
    by (auto simp: ldb_level_slurp_def split: option.splits)
  then show ?thesis by (auto simp: slurp_iff level_bytes_def)
qed

lemma slice_slurp_iff: "ldb_slice_slurp xp = Some (s, rest) \<longleftrightarrow> (\<exists>bs. xp = bs @ rest \<and> slice_bytes s bs)"
proof -
  have "ldb_slice_slurp xp = Some (s, rest) \<longleftrightarrow> (\<exists>v r. ldb_varint32_slurp xp = Some (v, r) \<and> r = s @ rest \<and> length s = unat v)"
    by (auto simp: ldb_slice_slurp_def ldb_slice_read_def ldb_varint32_slurp_def ldb_zraw_read_def split: option.splits if_splits)
  then show ?thesis by (auto simp: slurp_iff slice_bytes_def)
qed

lemmas import_field_simps = vedit_import_field_def Option.bind_eq_Some_conv slurp_iff level_slurp_iff slice_slurp_iff ldb_vedit_set_log_number_def
  ldb_vedit_set_prev_log_number_def ldb_vedit_set_next_file_def ldb_vedit_set_last_sequence_def

lemma import_field_sound:
  assumes "vedit_import_field e tag input = Some (e', rest)"
  shows "\<exists>f x. field_tag f = tag \<and> input = x @ rest \<and> field_body f x \<and> e' = apply_field e f"
proof -
  have field: "field_tag f = tag \<Longrightarrow> input = x @ rest \<Longrightarrow> field_body f x \<Longrightarrow> e' = apply_field e f \<Longrightarrow> ?thesis" for f x by blast
  from assms consider "tag = 1" | "tag = 2" | "tag = 3" | "tag = 4" | "tag = 5" | "tag = 6" | "tag = 7" | "tag = 9"
    unfolding vedit_import_field_def by (auto split: if_splits)
  then show ?thesis
  proof cases
    case 1
    with assms obtain s x where "input = x @ rest" "slice_bytes s x" "e' = e\<lparr>ve_comparator := s, ve_has_comparator := True\<rparr>"
      by (auto simp: import_field_simps)
    with 1 show ?thesis by (intro field [of "ComparatorName s" x]) simp_all
  next
    case 2
    with assms obtain n x where "input = x @ rest" "number_bytes n x" "e' = apply_field e (LogNumber n)" by (auto simp: import_field_simps)
    with 2 show ?thesis by (intro field [of "LogNumber n" x]) simp_all
  next
    case 3
    with assms obtain n x where "input = x @ rest" "number_bytes n x" "e' = apply_field e (NextFileNumber n)" by (auto simp: import_field_simps)
    with 3 show ?thesis by (intro field [of "NextFileNumber n" x]) simp_all
  next
    case 4
    with assms obtain n x where "input = x @ rest" "number_bytes n x" "e' = apply_field e (LastSequence n)" by (auto simp: import_field_simps)
    with 4 show ?thesis by (intro field [of "LastSequence n" x]) simp_all
  next
    case 5
    with assms obtain l s x1 x2 where x: "input = x1 @ x2 @ rest" "level_bytes l x1" "slice_bytes s x2" "e' = ldb_vedit_set_compact_pointer e l s"
      by (auto simp: import_field_simps)
    with 5 show ?thesis by (intro field [of "CompactPointer l s" "x1 @ x2"]) auto
  next
    case 6
    with assms obtain l n x1 x2 where x: "input = x1 @ x2 @ rest" "level_bytes l x1" "number_bytes n x2" "e' = ldb_vedit_remove_file e l n"
      by (auto simp: import_field_simps)
    with 6 show ?thesis by (intro field [of "DeletedFile l n" "x1 @ x2"]) auto
  next
    case 7
    with assms obtain l n sz a b x1 x2 x3 x4 x5 where x: "input = x1 @ x2 @ x3 @ x4 @ x5 @ rest" "level_bytes l x1" "number_bytes n x2"
      "number_bytes sz x3" "slice_bytes a x4" "slice_bytes b x5" "e' = ldb_vedit_add_file e l n sz a b"
      by (auto simp: import_field_simps)
    then have "field_body (NewFile l n sz a b) (x1 @ x2 @ x3 @ x4 @ x5)" unfolding field_body.simps by blast
    with 7 x show ?thesis by (intro field [of "NewFile l n sz a b" "x1 @ x2 @ x3 @ x4 @ x5"]) simp_all
  next
    case 8
    with assms obtain n x where "input = x @ rest" "number_bytes n x" "e' = apply_field e (PrevLogNumber n)" by (auto simp: import_field_simps)
    with 8 show ?thesis by (intro field [of "PrevLogNumber n" x]) simp_all
  qed
qed

lemma slurpI:
  "number_bytes n x \<Longrightarrow> ldb_varint64_slurp (x @ r) = Some (n, r)" "level_bytes l x \<Longrightarrow> ldb_level_slurp (x @ r) = Some (l, r)"
  "slice_bytes s x \<Longrightarrow> ldb_slice_slurp (x @ r) = Some (s, r)" "varint_bytes 5 x \<Longrightarrow> ldb_varint32_slurp (x @ r) = Some (varint_value x, r)"
  by (auto simp: slurp_iff level_slurp_iff slice_slurp_iff)

lemma import_field_complete: "field_body f x \<Longrightarrow> vedit_import_field e (field_tag f) (x @ r) = Some (apply_field e f, r)"
  by (cases f) (auto simp: vedit_import_field_def slurpI ldb_vedit_set_log_number_def
      ldb_vedit_set_prev_log_number_def ldb_vedit_set_next_file_def ldb_vedit_set_last_sequence_def)

lemma import_loop_sound: "vedit_import_loop e src = (True, e') \<Longrightarrow> \<exists>fs. edit_bytes fs src \<and> e' = foldl apply_field e fs"
proof (induction e src rule: vedit_import_loop.induct)
  case (1 e src)
  show ?case
  proof (cases "src = []")
    case True
    with "1.prems" show ?thesis using edit_bytes.Nil by force
  next
    case False
    with "1.prems" obtain tag input e1 r where s: "ldb_varint32_slurp src = Some (tag, input)" "vedit_import_field e tag input = Some (e1, r)"
      "vedit_import_loop e1 r = (True, e')" by (subst (asm) vedit_import_loop.simps) (auto split: option.splits)
    obtain t where t: "src = t @ input" "varint_bytes 5 t" "tag = varint_value t" using s(1) by (auto simp: slurp_iff)
    obtain f x where f: "field_tag f = tag" "input = x @ r" "field_body f x" "e1 = apply_field e f" using import_field_sound [OF s(2)] by blast
    obtain fs where fs: "edit_bytes fs r" "e' = foldl apply_field e1 fs" using "1.IH" [OF _ s(1) refl s(2) refl s(3)] False by blast
    have "edit_bytes (f # fs) src" unfolding t(1) f(2) using t f fs by (intro edit_bytes.Cons) simp_all
    with fs(2) f(4) show ?thesis by (intro exI [of _ "f # fs"]) simp
  qed
qed

lemma import_loop_complete: "edit_bytes fs src \<Longrightarrow> vedit_import_loop e src = (True, foldl apply_field e fs)"
proof (induction fs src arbitrary: e rule: edit_bytes.induct)
  case (Cons t f x fs r)
  then have "t \<noteq> []" by auto
  with Cons show ?case by (subst vedit_import_loop.simps) (simp add: slurpI import_field_complete)
qed simp

section \<open>Properties\<close>

text \<open>
  C23. The manifest format: every edit that a client builds with the setters, with levels of the
  database and keys and names that fit a 32-bit length, is decoded from its encoding exactly as it
  was, whatever the decoding edit held before; and every edit that decoding any input produces, also
  one that is cut short by an error, can be encoded and decoded again.
\<close>

theorem version_edit_roundtrip:
  assumes "vedit_built e"
  shows "ldb_vedit_import old (ldb_vedit_export [] e) = (True, e)
    \<and> (let e' = snd (ldb_vedit_import old bs) in ldb_vedit_import e (ldb_vedit_export [] e') = (True, e'))"
  using vedit_import_export [OF vedit_built_inv [OF assms]]
    vedit_import_export [OF import_loop_inv [OF vedit_inv_init]]
  by (simp add: Let_def ldb_vedit_import_def ldb_vedit_reset_def)

theorem version_edit_roundtrip_witness:
  "ldb_vedit_import ldb_vedit_init
     (ldb_vedit_export [] (ldb_vedit_remove_file (ldb_vedit_set_log_number ldb_vedit_init 9) 2 5))
   = (True, ldb_vedit_remove_file (ldb_vedit_set_log_number ldb_vedit_init 9) 2 5)"
proof -
  have "vedit_built (ldb_vedit_remove_file (ldb_vedit_set_log_number ldb_vedit_init 9) 2 5)"
    by (intro vedit_built.intros) (simp_all add: LDB_NUM_LEVELS_def)
  from version_edit_roundtrip [OF this] show ?thesis by blast
qed

text \<open>
  C29. The grammar of a record of the manifest: decoding succeeds exactly on the concatenations of complete fields. A field is one of the tags 1 to 7 and
  9 and its body, which has varints of at most five or ten bytes (not only the shortest ones), levels below seven, and strings of exactly the length that
  precedes them. The edit is then what the setters make of an empty edit, field by field; all other inputs are refused.
\<close>

theorem version_edit_grammar:
  "ldb_vedit_import e src = (True, e') \<longleftrightarrow> (\<exists>fs. edit_bytes fs src \<and> e' = foldl apply_field ldb_vedit_init fs)"
  using import_loop_sound [of ldb_vedit_init src e'] import_loop_complete [of _ src ldb_vedit_init]
  by (auto simp: ldb_vedit_import_def ldb_vedit_reset_def)

end
