(* ===== verification/Snappy.thy ===== *)
theory Snappy
  imports Coding "HOL-Library.Monad_Syntax"
begin

text \<open>
  The Snappy compressor of \<^verbatim>\<open>src/src/util/snappy.c\<close>. The encoder is a function from the input block to
  the bytes it stores; its reads of the input and of the hash table are checked, so that a result is
  also a proof that no access left the block. The decoder carries the output written so far and the room
  that is left. Sizes and positions are natural numbers, hashed values are 32-bit words, table entries
  are 16-bit values.
\<close>

section \<open>Constants and helpers\<close>

definition MAX_TABLE_SIZE :: nat where
  "MAX_TABLE_SIZE = 2048"

definition INPUT_MARGIN :: nat where
  "INPUT_MARGIN = 16 - 1"

definition MIN_BLOCK_SIZE :: nat where
  "MIN_BLOCK_SIZE = 1 + 1 + INPUT_MARGIN"

definition MAX_BLOCK_SIZE :: nat where
  "MAX_BLOCK_SIZE = 65536"

definition TAG_LITERAL :: u8 where
  "TAG_LITERAL = 0x00"

definition TAG_COPY1 :: u8 where
  "TAG_COPY1 = 0x01"

definition TAG_COPY2 :: u8 where
  "TAG_COPY2 = 0x02"

definition TAG_COPY4 :: u8 where
  "TAG_COPY4 = 0x03"

definition load32 :: "bytes \<Rightarrow> nat \<Rightarrow> u32 option" where
  "load32 xp i = (if i + 4 \<le> length xp then Some (ldb_fixed32_decode (drop i xp)) else None)"

definition load64 :: "bytes \<Rightarrow> nat \<Rightarrow> u64 option" where
  "load64 xp i = (if i + 8 \<le> length xp then Some (ldb_fixed64_decode (drop i xp)) else None)"

definition hash32 :: "u32 \<Rightarrow> nat \<Rightarrow> u32" where
  "hash32 x shift = drop_bit shift (x * 0x1e35a7bd)"

section \<open>Encoding\<close>

definition emit_literal :: "bytes \<Rightarrow> bytes" where
  "emit_literal xp =
     (let n = length xp - 1
      in (if n < 60 then [word_of_nat (n * 4) OR TAG_LITERAL]
          else if n < 256 then [word_of_nat (60 * 4) OR TAG_LITERAL, word_of_nat n]
          else [word_of_nat (61 * 4) OR TAG_LITERAL, word_of_nat n, word_of_nat (n div 256)]) @ xp)"

fun emit_copy :: "nat \<Rightarrow> nat \<Rightarrow> bytes" where
  "emit_copy off len =
     (if 68 \<le> len then [word_of_nat (63 * 4) OR TAG_COPY2, word_of_nat off, word_of_nat (off div 256)] @ emit_copy off (len - 64)
      else
        let z = (if 64 < len then [word_of_nat (59 * 4) OR TAG_COPY2, word_of_nat off, word_of_nat (off div 256)] else []);
            len = (if 64 < len then len - 60 else len)
        in z @
          (if 12 \<le> len \<or> 2048 \<le> off then [word_of_nat ((len - 1) * 4) OR TAG_COPY2, word_of_nat off, word_of_nat (off div 256)]
           else [word_of_nat (off div 256 * 32) OR word_of_nat ((len - 4) * 4) OR TAG_COPY1, word_of_nat off]))"

text \<open>The hash table of \<^verbatim>\<open>encode_block\<close>: its size and shift, and checked accesses.\<close>

partial_function (option) table_size_loop :: "nat \<Rightarrow> nat \<Rightarrow> nat \<Rightarrow> (nat \<times> nat) option" where
  "table_size_loop xn tsize shift =
     (if tsize < MAX_TABLE_SIZE \<and> tsize < xn then table_size_loop xn (tsize * 2) (shift - 1) else Some (tsize, shift))"

definition table_get :: "nat list \<Rightarrow> u32 \<Rightarrow> nat option" where
  "table_get table i = (if unat i < length table then Some (table ! unat i) else None)"

definition table_set :: "nat list \<Rightarrow> u32 \<Rightarrow> nat \<Rightarrow> nat list option" where
  "table_set table i pos = (if unat i < length table then Some (table[unat i := pos mod 2 ^ 16]) else None)"

text \<open>
  The first inner loop looks for four bytes that occurred before; it leaves the block (\<^verbatim>\<open>goto finish\<close>) or
  breaks with the table, the next hash, the position and the candidate.
\<close>

datatype search = NoMatch | Match "nat list" u32 nat nat

partial_function (option) search_loop :: "bytes \<Rightarrow> nat \<Rightarrow> nat \<Rightarrow> nat list \<Rightarrow> u32 \<Rightarrow> nat \<Rightarrow> nat \<Rightarrow> search option" where
  "search_loop xp limit shift table next npos skip =
     (let pos = npos;
          npos = pos + skip div 32;
          skip = skip + skip div 32
      in if limit < npos then Some NoMatch
         else do {
           cand \<leftarrow> table_get table next;
           table \<leftarrow> table_set table next pos;
           h \<leftarrow> load32 xp npos;
           let next = hash32 h shift;
           a \<leftarrow> load32 xp pos;
           b \<leftarrow> load32 xp cand;
           if a = b then Some (Match table next pos cand)
           else search_loop xp limit shift table next npos skip
         })"

text \<open>Extending a match; \<^verbatim>\<open>chk\<close> is behind \<^verbatim>\<open>pos\<close>.\<close>

function match_loop :: "bytes \<Rightarrow> nat \<Rightarrow> nat \<Rightarrow> nat" where
  "match_loop xp chk pos = (if pos < length xp \<and> xp ! chk = xp ! pos then match_loop xp (chk + 1) (pos + 1) else pos)"
  by auto
termination
  by (relation "measure (\<lambda>(xp, chk, pos). length xp - pos)") auto

text \<open>
  The second inner loop emits copies while the position after a match matches again. It leaves the block
  or goes back to the search.
\<close>

datatype copies = Finish bytes nat | Search bytes "nat list" u32 nat nat

partial_function (option) copies_loop :: "bytes \<Rightarrow> nat \<Rightarrow> nat \<Rightarrow> bytes \<Rightarrow> nat list \<Rightarrow> nat \<Rightarrow> nat \<Rightarrow> copies option" where
  "copies_loop xp limit shift zp table pos cand =
     (let base = pos;
          pos = match_loop xp (cand + 4) (pos + 4);
          zp = zp @ emit_copy (base - cand) (pos - base);
          emit = pos
      in if limit \<le> pos then Some (Finish zp emit)
         else do {
           x \<leftarrow> load64 xp (pos - 1);
           table \<leftarrow> table_set table (hash32 (ucast x) shift) (pos - 1);
           let cur = hash32 (ucast (drop_bit 8 x)) shift;
           cand \<leftarrow> table_get table cur;
           table \<leftarrow> table_set table cur pos;
           c \<leftarrow> load32 xp cand;
           if drop_bit 8 x \<noteq> ucast c then Some (Search zp table (hash32 (ucast (drop_bit 16 x)) shift) emit (pos + 1))
           else copies_loop xp limit shift zp table pos cand
         })"

definition finish_block :: "bytes \<Rightarrow> bytes \<Rightarrow> nat \<Rightarrow> bytes" where
  "finish_block xp zp emit = (if emit < length xp then zp @ emit_literal (drop emit xp) else zp)"

partial_function (option) block_loop :: "bytes \<Rightarrow> nat \<Rightarrow> nat \<Rightarrow> bytes \<Rightarrow> nat list \<Rightarrow> u32 \<Rightarrow> nat \<Rightarrow> nat \<Rightarrow> bytes option" where
  "block_loop xp limit shift zp table next emit pos =
     search_loop xp limit shift table next pos 32 \<bind> (\<lambda>r. case r of
       NoMatch \<Rightarrow> Some (finish_block xp zp emit)
     | Match table next pos cand \<Rightarrow>
         copies_loop xp limit shift (zp @ emit_literal (take (pos - emit) (drop emit xp))) table pos cand \<bind> (\<lambda>r. case r of
           Finish zp emit \<Rightarrow> Some (finish_block xp zp emit)
         | Search zp table next emit pos \<Rightarrow> block_loop xp limit shift zp table next emit pos))"

definition encode_block :: "bytes \<Rightarrow> bytes option" where
  "encode_block xp = do {
     let limit = length xp - INPUT_MARGIN;
     (tsize, shift) \<leftarrow> table_size_loop (length xp) 256 (32 - 8);
     h \<leftarrow> load32 xp 1;
     block_loop xp limit shift [] (replicate tsize 0) (hash32 h shift) 0 1
   }"

section \<open>Decoding\<close>

text \<open>The length field of a literal, after its tag byte.\<close>

definition literal_length :: "u8 \<Rightarrow> bytes \<Rightarrow> (u32 \<times> bytes) option" where
  "literal_length t xp =
     (let x = drop_bit 2 (ucast t)
      in if x < 60 then Some (x, xp)
         else if x = 60 then (if length xp < 1 then None else Some (ucast (xp ! 0), drop 1 xp))
         else if x = 61 then (if length xp < 2 then None else Some (ucast (xp ! 0) OR push_bit 8 (ucast (xp ! 1)), drop 2 xp))
         else if x = 62 then (if length xp < 3 then None else
           Some (ucast (xp ! 0) OR push_bit 8 (ucast (xp ! 1)) OR push_bit 16 (ucast (xp ! 2)), drop 3 xp))
         else (if length xp < 4 then None else
           Some (ucast (xp ! 0) OR push_bit 8 (ucast (xp ! 1)) OR push_bit 16 (ucast (xp ! 2)) OR push_bit 24 (ucast (xp ! 3)), drop 4 xp)))"

definition decode_literal :: "bytes \<Rightarrow> nat \<Rightarrow> u8 \<Rightarrow> bytes \<Rightarrow> (bytes \<times> nat \<times> bytes) option" where
  "decode_literal zp zn t xp =
     (case literal_length t xp of None \<Rightarrow> None
      | Some (x, xp) \<Rightarrow>
          if 0x7fffffff \<le> x then None
          else let len = unat (x + 1)
            in if zn < len \<or> length xp < len then None else Some (zp @ take len xp, zn - len, drop len xp))"

text \<open>The length and offset of a copy and the rest of the input.\<close>

definition copy_fields :: "bytes \<Rightarrow> (u32 \<times> u32 \<times> bytes) option" where
  "copy_fields xp =
     (let t = xp ! 0; tag = t AND 0x03
      in if tag = TAG_COPY1 then
           (if length xp < 2 then None
            else Some (4 + ucast (drop_bit 2 t AND 0x7), push_bit 3 (ucast (t AND 0xe0)) OR ucast (xp ! 1), drop 2 xp))
         else if tag = TAG_COPY2 then
           (if length xp < 3 then None
            else Some (1 + ucast (drop_bit 2 t), ucast (xp ! 1) OR push_bit 8 (ucast (xp ! 2)), drop 3 xp))
         else
           (if length xp < 5 then None
            else Some (1 + ucast (drop_bit 2 t),
              ucast (xp ! 1) OR push_bit 8 (ucast (xp ! 2)) OR push_bit 16 (ucast (xp ! 3)) OR push_bit 24 (ucast (xp ! 4)), drop 5 xp)))"

fun copy_bytes_loop :: "nat \<Rightarrow> bytes \<Rightarrow> nat \<Rightarrow> bytes" where
  "copy_bytes_loop 0 zp off = zp"
| "copy_bytes_loop (Suc n) zp off = copy_bytes_loop n (zp @ [zp ! (length zp - off)]) off"

definition decode_copy :: "bytes \<Rightarrow> nat \<Rightarrow> bytes \<Rightarrow> (bytes \<times> nat \<times> bytes) option" where
  "decode_copy zp zn xp =
     (case copy_fields xp of None \<Rightarrow> None
      | Some (len, off, xp) \<Rightarrow>
          if off = 0 \<or> 0x80000000 \<le> off then None
          else if length zp < unat off \<or> zn < unat len then None
          else if len \<le> off then Some (zp @ take (unat len) (drop (length zp - unat off) zp), zn - unat len, xp)
          else Some (copy_bytes_loop (unat len) zp (unat off), zn - unat len, xp))"

definition decode_element :: "bytes \<Rightarrow> nat \<Rightarrow> bytes \<Rightarrow> (bytes \<times> nat \<times> bytes) option" where
  "decode_element zp zn xp =
     (if hd xp AND 0x03 = TAG_LITERAL then decode_literal zp zn (hd xp) (tl xp) else decode_copy zp zn xp)"

lemma literal_length_shorter: "literal_length t xp = Some (x, xp') \<Longrightarrow> length xp' \<le> length xp"
  by (auto simp: literal_length_def Let_def split: if_splits)

lemma copy_fields_shorter: "xp \<noteq> [] \<Longrightarrow> copy_fields xp = Some (len, off, xp') \<Longrightarrow> length xp' < length xp"
  by (auto simp: copy_fields_def Let_def split: if_splits)

lemma decode_element_shorter: "xp \<noteq> [] \<Longrightarrow> decode_element zp zn xp = Some (zp', zn', xp') \<Longrightarrow> length xp' < length xp"
  by (cases xp) (auto simp: decode_element_def decode_literal_def decode_copy_def Let_def
      split: if_splits option.splits dest!: literal_length_shorter copy_fields_shorter [rotated])

function decode_blocks :: "bytes \<Rightarrow> nat \<Rightarrow> bytes \<Rightarrow> bytes option" where
  "decode_blocks zp zn xp =
     (if xp = [] then (if zn \<noteq> 0 then None else Some zp)
      else case decode_element zp zn xp of None \<Rightarrow> None | Some (zp, zn, xp) \<Rightarrow> decode_blocks zp zn xp)"
  by auto
termination
  by (relation "measure (\<lambda>(zp, zn, xp). length xp)") (auto dest: decode_element_shorter)

section \<open>Snappy\<close>

definition snappy_encode_size :: "nat \<Rightarrow> nat option" where
  "snappy_encode_size xn =
     (if 0x7fffffff < xn then None
      else let n = 32 + xn + xn div 6 in if 0x7fffffff < n then None else Some n)"

function encode_blocks_loop :: "bytes \<Rightarrow> bytes \<Rightarrow> bytes option" where
  "encode_blocks_loop zp xp =
     (if MAX_BLOCK_SIZE \<le> length xp then
        encode_block (take MAX_BLOCK_SIZE xp) \<bind> (\<lambda>z. encode_blocks_loop (zp @ z) (drop MAX_BLOCK_SIZE xp))
      else if 0 < length xp then
        if MIN_BLOCK_SIZE \<le> length xp then map_option (\<lambda>z. zp @ z) (encode_block xp) else Some (zp @ emit_literal xp)
      else Some zp)"
  by auto
termination
  by (relation "measure (\<lambda>(zp, xp). length xp)") (auto simp: MAX_BLOCK_SIZE_def)

definition snappy_encode :: "bytes \<Rightarrow> bytes option" where
  "snappy_encode xp = encode_blocks_loop (ldb_varint32_write (word_of_nat (length xp))) xp"

definition snappy_decode_size :: "bytes \<Rightarrow> nat option" where
  "snappy_decode_size xp =
     (case ldb_varint32_read xp of None \<Rightarrow> None | Some (n, r) \<Rightarrow> if 0x7fffffff < n then None else Some (unat n))"

definition snappy_decode :: "bytes \<Rightarrow> bytes option" where
  "snappy_decode xp =
     (case ldb_varint32_read xp of None \<Rightarrow> None
      | Some (zn, r) \<Rightarrow> if 0x7fffffff < zn then None else decode_blocks [] (unat zn) r)"

declare emit_copy.simps [simp del] match_loop.simps [simp del] decode_blocks.simps [simp del] encode_blocks_loop.simps [simp del]

section \<open>Fields of the elements\<close>

lemma tag_bits:
  assumes "n < 64" "t < 4"
  shows "(word_of_nat (n * 4) OR t) AND 3 = (t :: u8)" "drop_bit 2 (word_of_nat (n * 4) OR t) = (word_of_nat n :: u8)"
proof -
  have w: "word_of_nat (n * 4) = (push_bit 2 (word_of_nat n) :: u8)" by (simp add: push_bit_eq_mult)
  have t: "take_bit 2 t = t" "drop_bit 2 t = 0"
    using assms(2) by (simp_all add: word_unat_eq_iff unat_take_bit_nat unat_drop_bit_nat word_less_nat_alt)
  have n: "take_bit 6 (word_of_nat n :: u8) = word_of_nat n"
    using assms(1) by (simp add: word_unat_eq_iff unat_take_bit_nat unat_of_nat)
  have and3: "x AND 3 = take_bit 2 x" for x :: u8 by (simp add: take_bit_eq_mask mask_eq_exp_minus_1)
  show "(word_of_nat (n * 4) OR t) AND 3 = t" unfolding w and3 by (simp add: take_bit_push_bit t)
  show "drop_bit 2 (word_of_nat (n * 4) OR t) = (word_of_nat n :: u8)"
    unfolding w by (rule bit_word_eqI) (use t(2) n in \<open>auto simp: bit_simps bit_eq_iff\<close>)
qed

lemma unat_word_of_nat_u8: "n < 256 \<Longrightarrow> unat (word_of_nat n :: u8) = n"
  by (simp add: unat_of_nat)

lemma two_bytes:
  assumes "n < 65536"
  shows "ucast (word_of_nat n :: u8) OR push_bit 8 (ucast (word_of_nat (n div 256) :: u8)) = (word_of_nat n :: u32)"
proof -
  have hi: "unat (ucast (word_of_nat (n div 256) :: u8) :: u32) = n div 256" and lo: "unat (ucast (word_of_nat n :: u8) :: u32) = n mod 256"
    using assms by (simp_all add: unsigned_ucast_eq take_bit_nat_def unat_of_nat)
  have "push_bit 8 (ucast (word_of_nat (n div 256) :: u8) :: u32) = word_of_nat (n div 256 * 256)"
    by (subst word_unat_eq_iff) (use assms in \<open>simp add: push_bit_eq_mult unat_word_ariths hi unat_of_nat\<close>)
  moreover have "ucast (word_of_nat n :: u8) AND push_bit 8 (ucast (word_of_nat (n div 256) :: u8)) = (0 :: u32)"
    by (rule bit_word_eqI) (auto simp: bit_simps dest: bit_imp_le_length)
  then have "ucast (word_of_nat n :: u8) OR push_bit 8 (ucast (word_of_nat (n div 256) :: u8))
      = ucast (word_of_nat n :: u8) + (push_bit 8 (ucast (word_of_nat (n div 256) :: u8)) :: u32)"
    by (simp add: disjunctive_add_eq_or)
  moreover have "ucast (word_of_nat n :: u8) = (word_of_nat (n mod 256) :: u32)"
    by (subst word_unat_eq_iff) (simp add: lo unat_of_nat)
  moreover have "word_of_nat (n mod 256) + word_of_nat (n div 256 * 256) = (word_of_nat n :: u32)"
    by (simp only: of_nat_add [symmetric] mod_div_mult_eq)
  ultimately show ?thesis by simp
qed

lemma copy1_bits:
  fixes a b :: nat
  assumes "a < 8" "b < 8"
  defines "t \<equiv> word_of_nat (a * 32) OR word_of_nat (b * 4) OR TAG_COPY1"
  shows "t AND 3 = TAG_COPY1" "ucast (drop_bit 2 t AND 7) = (word_of_nat b :: u32)"
    "push_bit 3 (ucast (t AND 0xe0)) = (push_bit 8 (ucast (word_of_nat a :: u8)) :: u32)"
proof -
  have "a \<in> {0, 1, 2, 3, 4, 5, 6, 7}" "b \<in> {0, 1, 2, 3, 4, 5, 6, 7}" using assms(1,2) by auto
  then show "t AND 3 = TAG_COPY1" "ucast (drop_bit 2 t AND 7) = (word_of_nat b :: u32)"
    "push_bit 3 (ucast (t AND 0xe0)) = (push_bit 8 (ucast (word_of_nat a :: u8)) :: u32)"
    unfolding t_def TAG_COPY1_def by auto
qed

lemma unat_u32_of_nat: "n < 4294967296 \<Longrightarrow> unat (word_of_nat n :: u32) = n"
  by (simp add: unat_of_nat)

section \<open>What an encoding stands for\<close>

text \<open>The bytes \<^term>\<open>z\<close> stand for \<^term>\<open>d\<close> when the output so far is \<^term>\<open>o'\<close>.\<close>

definition stands_for :: "bytes \<Rightarrow> bytes \<Rightarrow> bytes \<Rightarrow> bool" where
  "stands_for z o' d \<longleftrightarrow> (\<forall>zn r. length d \<le> zn \<longrightarrow> decode_blocks o' zn (z @ r) = decode_blocks (o' @ d) (zn - length d) r)"

lemma stands_for_Nil [simp]: "stands_for [] o' []"
  by (simp add: stands_for_def)

lemma stands_for_append:
  assumes "stands_for z o' d" "stands_for z' (o' @ d) d'"
  shows "stands_for (z @ z') o' (d @ d')"
  using assms by (simp add: stands_for_def)

lemma stands_for_element:
  assumes "z \<noteq> []" "\<And>zn r. length d \<le> zn \<Longrightarrow> decode_element o' zn (z @ r) = Some (o' @ d, zn - length d, r)"
  shows "stands_for z o' d"
  unfolding stands_for_def using assms by (simp add: decode_blocks.simps [of o' _ "z @ _"])

lemma stands_for_decode: "stands_for z [] d \<Longrightarrow> decode_blocks [] (length d) z = Some d"
  unfolding stands_for_def by (drule spec [of _ "length d"], drule spec [of _ "[]"]) (simp add: decode_blocks.simps)

lemma literal_stands_for:
  assumes d: "d \<noteq> []" "length d \<le> 65536"
  shows "stands_for (emit_literal d) o' d"
proof (rule stands_for_element)
  fix zn r assume zn: "length d \<le> zn"
  define n where "n = length d - 1"
  have n: "n < 65536" "length d = n + 1" using d by (auto simp: n_def Suc_le_eq)
  have small: "unat (word_of_nat n + 1 :: u32) = n + 1" "\<not> 0x7fffffff \<le> (word_of_nat n :: u32)" "(word_of_nat n :: u32) < 60 \<longleftrightarrow> n < 60"
    using n by (simp_all add: unat_word_ariths unat_of_nat word_le_nat_alt word_less_nat_alt)
  have u8: "(ucast (word_of_nat k :: u8) :: u32) = word_of_nat k" if "k < 256" for k
    using that by (simp add: word_unat_eq_iff unsigned_ucast_eq take_bit_nat_def unat_of_nat)
  have drop2: "drop_bit 2 (ucast w :: u32) = ucast (drop_bit 2 (w :: u8))" for w
    by (rule bit_word_eqI) (auto simp: bit_simps dest: bit_imp_le_length)
  have lit: "literal_length (word_of_nat (k * 4)) xs =
      (let x = word_of_nat k in if k < 60 then Some (x, xs)
       else if k = 60 then (if length xs < 1 then None else Some (ucast (xs ! 0), drop 1 xs))
       else if length xs < 2 then None else Some (ucast (xs ! 0) OR push_bit 8 (ucast (xs ! 1)), drop 2 xs))" if "k < 62" for k xs
  proof -
    have x: "drop_bit 2 (ucast (word_of_nat (k * 4) :: u8)) = (word_of_nat k :: u32)"
      using tag_bits(2) [of k 0] that by (simp add: drop2 u8)
    have "(word_of_nat k :: u32) < 60 \<longleftrightarrow> k < 60" "(word_of_nat k :: u32) = 60 \<longleftrightarrow> k = 60" "(word_of_nat k :: u32) = 61 \<longleftrightarrow> k = 61"
      using that by (simp_all add: word_less_nat_alt unat_of_nat word_unat_eq_iff)
    then show ?thesis unfolding literal_length_def x Let_def using that by auto
  qed
  have emit: "emit_literal d = (if n < 60 then [word_of_nat (n * 4)] else if n < 256 then [word_of_nat (60 * 4), word_of_nat n]
      else [word_of_nat (61 * 4), word_of_nat n, word_of_nat (n div 256)]) @ d"
    unfolding emit_literal_def Let_def n_def TAG_LITERAL_def by simp
  have "\<exists>t h. emit_literal d = t # h @ d \<and> t AND 3 = 0 \<and> literal_length t (h @ d @ r) = Some (word_of_nat n, d @ r)"
  proof -
    consider "n < 60" | "60 \<le> n" "n < 256" | "256 \<le> n" by arith
    then show ?thesis
    proof cases
      case 1
      then show ?thesis unfolding emit using tag_bits(1) [of n 0] lit [of n]
        by (intro exI [of _ "word_of_nat (n * 4)"] exI [of _ "[]"]) (simp del: of_nat_mult)
    next
      case 2
      then show ?thesis unfolding emit using tag_bits(1) [of 60 0] u8 [of n] lit [of 60]
        by (intro exI [of _ "word_of_nat (60 * 4)"] exI [of _ "[word_of_nat n]"]) (simp del: of_nat_mult)
    next
      case 3
      then show ?thesis unfolding emit using tag_bits(1) [of 61 0] two_bytes [OF n(1)] lit [of 61]
        by (intro exI [of _ "word_of_nat (61 * 4)"] exI [of _ "[word_of_nat n, word_of_nat (n div 256)]"]) (simp del: of_nat_mult)
    qed
  qed
  then show "decode_element o' zn (emit_literal d @ r) = Some (o' @ d, zn - length d, r)"
    using small n zn by (auto simp: decode_element_def decode_literal_def TAG_LITERAL_def)
qed (simp add: emit_literal_def Let_def)

text \<open>Every byte of \<^term>\<open>d\<close>, which follows \<^term>\<open>o'\<close>, equals the byte \<^term>\<open>off\<close> positions before it.\<close>

definition repeats :: "bytes \<Rightarrow> bytes \<Rightarrow> nat \<Rightarrow> bool" where
  "repeats o' d off \<longleftrightarrow> 1 \<le> off \<and> off \<le> length o' \<and> (\<forall>i < length d. d ! i = (o' @ d) ! (length o' + i - off))"

lemma repeats_split:
  assumes "repeats o' d off"
  shows "repeats o' (take n d) off" "repeats (o' @ take n d) (drop n d) off"
proof -
  have "(o' @ take n d) ! (length o' + i - off) = (o' @ d) ! (length o' + i - off)" if "i < min (length d) n" for i
    using assms that by (auto simp: repeats_def nth_append)
  then show "repeats o' (take n d) off" using assms by (auto simp: repeats_def)
  show "repeats (o' @ take n d) (drop n d) off"
    unfolding repeats_def
  proof (intro conjI allI impI)
    fix i assume i: "i < length (drop n d)"
    then have "drop n d ! i = (o' @ d) ! (length o' + (n + i) - off)" using assms by (auto simp: repeats_def)
    moreover have "(o' @ take n d) @ drop n d = o' @ d" by simp
    moreover have "length (o' @ take n d) + i - off = length o' + (n + i) - off" using i by simp
    ultimately show "drop n d ! i = ((o' @ take n d) @ drop n d) ! (length (o' @ take n d) + i - off)" by metis
  qed (use assms in \<open>auto simp: repeats_def\<close>)
qed

lemma copy_bytes_loop_repeats: "repeats o' d off \<Longrightarrow> copy_bytes_loop (length d) o' off = o' @ d"
proof (induction d arbitrary: o')
  case (Cons x d)
  have "(x # d) ! 0 = (o' @ x # d) ! (length o' + 0 - off)" "length o' - off < length o'"
    using Cons.prems unfolding repeats_def by (metis length_Cons zero_less_Suc, linarith)
  then have "x = o' ! (length o' - off)" by (simp add: nth_append)
  moreover have "repeats (o' @ [x]) d off" using repeats_split(2) [OF Cons.prems, of 1] by simp
  ultimately show ?case using Cons.IH [of "o' @ [x]"] by simp
qed simp

lemma copy_from_repeats:
  assumes "repeats o' d off" "length d \<le> off"
  shows "take (length d) (drop (length o' - off) o') = d"
proof (rule nth_equalityI)
  fix i assume "i < length (take (length d) (drop (length o' - off) o'))"
  moreover from this have "length o' - off + i = length o' + i - off" "length o' + i - off < length o'" using assms by (auto simp: repeats_def)
  ultimately show "take (length d) (drop (length o' - off) o') ! i = d ! i" using assms by (auto simp: repeats_def nth_append)
qed (use assms in \<open>auto simp: repeats_def\<close>)

lemma copy_stands_for:
  assumes z: "z \<noteq> []" "hd z AND 3 \<noteq> 0" "\<And>r. copy_fields (z @ r) = Some (word_of_nat (length d), word_of_nat off, r)"
    and rep: "repeats o' d off" and small: "off < 65536" "length d < 65536"
  shows "stands_for z o' d"
proof (rule stands_for_element [OF z(1)])
  fix zn r assume zn: "length d \<le> zn"
  have len: "unat (word_of_nat (length d) :: u32) = length d" and off: "unat (word_of_nat off :: u32) = off"
    using small by (simp_all add: unat_of_nat)
  have "decode_element o' zn (z @ r) = decode_copy o' zn (z @ r)" using z(1,2) by (simp add: decode_element_def TAG_LITERAL_def)
  also have "\<dots> = Some (o' @ d, zn - length d, r)"
    unfolding decode_copy_def z(3) using rep zn small copy_from_repeats [OF rep] copy_bytes_loop_repeats [OF rep]
    by (auto simp: len off word_le_nat_alt word_unat_eq_iff repeats_def)
  finally show "decode_element o' zn (z @ r) = Some (o' @ d, zn - length d, r)" .
qed

lemma copy2_stands_for:
  assumes rep: "repeats o' d off" and off: "off < 65536" and len: "1 \<le> length d" "length d \<le> 64"
  shows "stands_for [word_of_nat ((length d - 1) * 4) OR TAG_COPY2, word_of_nat off, word_of_nat (off div 256)] o' d"
proof (rule copy_stands_for [OF _ _ _ rep off])
  let ?t = "word_of_nat ((length d - 1) * 4) OR TAG_COPY2 :: u8"
  have t: "?t AND 3 = TAG_COPY2" "drop_bit 2 ?t = word_of_nat (length d - 1)"
    using tag_bits [of "length d - 1" TAG_COPY2] len by (simp_all add: TAG_COPY2_def)
  then show "hd [?t, word_of_nat off, word_of_nat (off div 256)] AND 3 \<noteq> 0" by (simp add: TAG_COPY2_def del: of_nat_mult)
  obtain n where n: "length d = Suc n" "n < 64" using len by (cases "length d") auto
  have "1 + ucast (word_of_nat (length d - 1) :: u8) = (word_of_nat (length d) :: u32)"
    using n by (simp add: word_unat_eq_iff unat_word_ariths unsigned_ucast_eq take_bit_nat_def unat_of_nat)
  then show "copy_fields ([?t, word_of_nat off, word_of_nat (off div 256)] @ r) = Some (word_of_nat (length d), word_of_nat off, r)" for r
    using two_bytes [OF off] t by (simp add: copy_fields_def Let_def TAG_COPY1_def TAG_COPY2_def del: of_nat_mult)
qed (use len in auto)

lemma copy1_stands_for:
  assumes rep: "repeats o' d off" and off: "off < 2048" and len: "4 \<le> length d" "length d < 12"
  shows "stands_for [word_of_nat (off div 256 * 32) OR word_of_nat ((length d - 4) * 4) OR TAG_COPY1, word_of_nat off] o' d"
proof (rule copy_stands_for [OF _ _ _ rep])
  let ?t = "word_of_nat (off div 256 * 32) OR word_of_nat ((length d - 4) * 4) OR TAG_COPY1 :: u8"
  have t: "?t AND 3 = TAG_COPY1" "ucast (drop_bit 2 ?t AND 7) = (word_of_nat (length d - 4) :: u32)"
    "push_bit 3 (ucast (?t AND 0xe0)) = (push_bit 8 (ucast (word_of_nat (off div 256) :: u8)) :: u32)"
    using copy1_bits [of "off div 256" "length d - 4"] off len by auto
  then show "hd [?t, word_of_nat off] AND 3 \<noteq> 0" by (simp add: TAG_COPY1_def del: of_nat_mult)
  have "4 + word_of_nat (length d - 4) = (word_of_nat (length d) :: u32)"
    using len by (simp add: word_unat_eq_iff unat_word_ariths unat_of_nat)
  moreover have "push_bit 8 (ucast (word_of_nat (off div 256) :: u8)) OR ucast (word_of_nat off :: u8) = (word_of_nat off :: u32)"
    using two_bytes [of off] off by (simp add: or.commute)
  ultimately show "copy_fields ([?t, word_of_nat off] @ r) = Some (word_of_nat (length d), word_of_nat off, r)" for r
    using t by (simp add: copy_fields_def Let_def del: of_nat_mult)
qed (use len off in auto)

lemma emit_copy_stands_for: "repeats o' d off \<Longrightarrow> off < 65536 \<Longrightarrow> 4 \<le> length d \<Longrightarrow> stands_for (emit_copy off (length d)) o' d"
proof (induction "length d" arbitrary: o' d rule: less_induct)
  case less
  note split = repeats_split [OF less.prems(1)]
  have short: "stands_for (if 12 \<le> length e \<or> 2048 \<le> off then [word_of_nat ((length e - 1) * 4) OR TAG_COPY2, word_of_nat off, word_of_nat (off div 256)]
           else [word_of_nat (off div 256 * 32) OR word_of_nat ((length e - 4) * 4) OR TAG_COPY1, word_of_nat off]) p e"
    if "repeats p e off" "4 \<le> length e" "length e \<le> 64" for p e
    using copy2_stands_for [OF that(1) less.prems(2)] copy1_stands_for [OF that(1)] that(2,3) by auto
  show ?case
  proof (cases "68 \<le> length d")
    case True
    have "stands_for (emit_copy off (length (drop 64 d))) (o' @ take 64 d) (drop 64 d)"
      using less.hyps [OF _ split(2) [of 64] less.prems(2)] True by simp
    moreover have "stands_for [word_of_nat (63 * 4) OR TAG_COPY2, word_of_nat off, word_of_nat (off div 256)] o' (take 64 d)"
      using copy2_stands_for [OF split(1) [of 64] less.prems(2)] True by (simp del: of_nat_mult add: min_def)
    ultimately show ?thesis using stands_for_append [of _ o' "take 64 d"] True by (simp add: emit_copy.simps [of off "length d"] del: of_nat_mult) fastforce
  next
    case False
    show ?thesis
    proof (cases "64 < length d")
      case True
      have "stands_for [word_of_nat (59 * 4) OR TAG_COPY2, word_of_nat off, word_of_nat (off div 256)] o' (take 60 d)"
        using copy2_stands_for [OF split(1) [of 60] less.prems(2)] True by (simp del: of_nat_mult add: min_def)
      moreover have "4 \<le> length (drop 60 d)" "length (drop 60 d) \<le> 64" using True False by simp_all
      note short [OF split(2) [of 60] this]
      moreover have "\<not> 68 \<le> length d" using False by simp
      ultimately show ?thesis
        using True stands_for_append [of _ o' "take 60 d" _ "drop 60 d"]
        unfolding emit_copy.simps [of off "length d"] Let_def length_drop append_take_drop_id by (simp only: if_True if_False)
    next
      case small: False
      then have "length d \<le> 64" by simp
      from short [OF less.prems(1,3) this] show ?thesis
        unfolding emit_copy.simps [of off "length d"] Let_def by (simp only: small False if_False append_Nil)
    qed
  qed
qed

lemma length_emit_copy: "4 \<le> len \<Longrightarrow> length (emit_copy off len) < len"
proof (induction off len rule: emit_copy.induct)
  case (1 off len)
  show ?case
  proof (cases "68 \<le> len")
    case True
    then have "4 \<le> len - 64" by linarith
    with "1.IH" [OF True] True show ?thesis by (simp add: emit_copy.simps [of off len])
  qed (use "1.prems" in \<open>subst emit_copy.simps, auto simp: Let_def\<close>)
qed

section \<open>The encoder\<close>

lemma hash32_less: "shift \<le> 32 \<Longrightarrow> unat (hash32 x shift) < 2 ^ (32 - shift)"
  unfolding hash32_def unat_drop_bit_nat
  by (rule less_mult_imp_div_less) (use unsigned_less [of "x * 0x1e35a7bd"] in \<open>simp add: power_add [symmetric]\<close>)

lemma table_size_loop_pow:
  "j \<le> 3 \<Longrightarrow> \<exists>m. m \<le> 11 \<and> table_size_loop xn (2 ^ (11 - j)) (21 + j) = Some (2 ^ m, 32 - m)"
proof (induction j)
  case 0
  show ?case by (subst table_size_loop.simps) (auto simp: MAX_TABLE_SIZE_def intro!: exI [of _ 11])
next
  case (Suc j)
  have "11 - j = Suc (11 - Suc j)" using Suc.prems by arith
  then have p: "(2 :: nat) ^ (11 - Suc j) * 2 = 2 ^ (11 - j)" by simp
  have "table_size_loop xn (2 ^ (11 - Suc j)) (21 + Suc j) = table_size_loop xn (2 ^ (11 - j)) (21 + j)
      \<or> table_size_loop xn (2 ^ (11 - Suc j)) (21 + Suc j) = Some (2 ^ (11 - Suc j), 21 + Suc j)"
    using p table_size_loop.simps [of xn "2 ^ (11 - Suc j)" "21 + Suc j"] by simp
  moreover have "21 + Suc j = 32 - (11 - Suc j)" using Suc.prems by arith
  ultimately show ?case using Suc by (metis Suc_leD diff_le_self)
qed

lemma table_size_loop_ok:
  obtains n shift where "table_size_loop xn 256 24 = Some (n, shift)" "\<And>h. unat (hash32 h shift) < n"
proof -
  obtain m where m: "m \<le> 11" "table_size_loop xn 256 24 = Some (2 ^ m, 32 - m)" using table_size_loop_pow [of 3 xn] by auto
  then have "unat (hash32 h (32 - m)) < 2 ^ m" for h using hash32_less [of "32 - m" h] by simp
  with m that show ?thesis by blast
qed

definition table_ok :: "nat \<Rightarrow> nat list \<Rightarrow> nat \<Rightarrow> bool" where
  "table_ok n table pos \<longleftrightarrow> length table = n \<and> (\<forall>c \<in> set table. c < pos)"

lemma table_accesses:
  assumes "table_ok n table p" "unat i < n"
  shows "\<exists>c. table_get table i = Some c \<and> c < p"
    and "pos < 65536 \<Longrightarrow> p \<le> q \<Longrightarrow> pos < q \<Longrightarrow> \<exists>table'. table_set table i pos = Some table' \<and> table_ok n table' q"
  using assms by (auto simp: table_ok_def table_get_def table_set_def dest!: set_update_subset_insert [THEN subsetD])

lemma load32_eq_nth:
  assumes "load32 xp a = Some w" "load32 xp b = Some w" "i < 4"
  shows "xp ! (a + i) = xp ! (b + i)"
proof -
  have len: "a + 4 \<le> length xp" "b + 4 \<le> length xp" "ldb_fixed32_decode (drop a xp) = ldb_fixed32_decode (drop b xp)"
    using assms by (auto simp: load32_def split: if_splits)
  then have "take 4 (drop a xp) = take 4 (drop b xp)"
    using ldb_fixed32_write_decode [of "drop a xp"] ldb_fixed32_write_decode [of "drop b xp"] by simp
  then have "take 4 (drop a xp) ! i = take 4 (drop b xp) ! i" by simp
  then show ?thesis using len assms(3) by simp
qed

lemma load64_load32:
  assumes "load64 xp p = Some x"
  shows "load32 xp (Suc p) = Some (ucast (drop_bit 8 x))"
proof -
  have "8 \<le> length (drop p xp)" using assms by (auto simp: load64_def split: if_splits)
  then obtain b0 b1 b2 b3 b4 b5 b6 b7 r where d: "drop p xp = b0 # b1 # b2 # b3 # b4 # b5 # b6 # b7 # r"
    by (auto simp: numeral_eq_Suc Suc_le_length_iff simp del: length_drop)
  then have d': "drop (Suc p) xp = b1 # b2 # b3 # b4 # b5 # b6 # b7 # r" by (metis drop_Suc list.sel(3) tl_drop)
  have "ucast (drop_bit 8 (ldb_fixed64_decode (drop p xp))) = ldb_fixed32_decode (drop (Suc p) xp)"
    unfolding d d' by (rule bit_word_eqI) (auto simp: ldb_fixed64_decode_def ldb_fixed32_decode_def bit_simps dest: bit_imp_le_length)
  with assms show ?thesis by (auto simp: load32_def load64_def split: if_splits)
qed

lemma match_loop_spec:
  assumes "pos \<le> length xp"
  shows "pos \<le> match_loop xp chk pos \<and> match_loop xp chk pos \<le> length xp
    \<and> (\<forall>i < match_loop xp chk pos - pos. xp ! (chk + i) = xp ! (pos + i))"
  using assms
proof (induction xp chk pos rule: match_loop.induct)
  case (1 xp chk pos)
  show ?case
  proof (cases "pos < length xp \<and> xp ! chk = xp ! pos")
    case True
    with 1 have IH: "pos + 1 \<le> match_loop xp (chk + 1) (pos + 1)" "match_loop xp (chk + 1) (pos + 1) \<le> length xp"
      "\<And>i. i < match_loop xp (chk + 1) (pos + 1) - (pos + 1) \<Longrightarrow> xp ! (chk + 1 + i) = xp ! (pos + 1 + i)" by auto
    have "xp ! (chk + i) = xp ! (pos + i)" if "i < match_loop xp (chk + 1) (pos + 1) - pos" for i
      using that True IH(3) [of "i - 1"] by (cases i) auto
    with True IH(1,2) show ?thesis by (simp add: match_loop.simps [of xp chk pos])
  next
    case False
    then show ?thesis using 1(2) by (subst (1 2 3) match_loop.simps) auto
  qed
qed

lemma match_repeats:
  assumes "cand < base" "base + len \<le> length xp" "\<And>i. i < len \<Longrightarrow> xp ! (cand + i) = xp ! (base + i)"
  shows "repeats (p @ take base xp) (take len (drop base xp)) (base - cand)"
  unfolding repeats_def
proof (intro conjI allI impI)
  fix i assume i: "i < length (take len (drop base xp))"
  have "(p @ take base xp) @ take len (drop base xp) = p @ take (base + len) xp" by (simp add: take_add)
  moreover have "length (p @ take base xp) + i - (base - cand) = length p + (cand + i)" using assms(1,2) by simp
  ultimately have "((p @ take base xp) @ take len (drop base xp)) ! (length (p @ take base xp) + i - (base - cand)) = take (base + len) xp ! (cand + i)"
    by (simp only: nth_append_length_plus)
  also have "\<dots> = xp ! (base + i)" using i assms by simp
  finally show "take len (drop base xp) ! i = ((p @ take base xp) @ take len (drop base xp)) ! (length (p @ take base xp) + i - (base - cand))"
    using i assms(2) by simp
qed (use assms in auto)

text \<open>The block and the hash table fit together.\<close>

definition block_ok :: "bytes \<Rightarrow> nat \<Rightarrow> nat \<Rightarrow> nat \<Rightarrow> bool" where
  "block_ok xp limit shift n \<longleftrightarrow> limit + 15 = length xp \<and> length xp \<le> 65536 \<and> (\<forall>h. unat (hash32 h shift) < n)"

lemma block_ok_loads:
  assumes "block_ok xp limit shift n"
  shows "i \<le> limit \<Longrightarrow> \<exists>w. load32 xp i = Some w" "i \<le> limit \<Longrightarrow> \<exists>w. load64 xp i = Some w" "i < limit \<Longrightarrow> i < 65536"
    "unat (hash32 h shift) < n"
  using assms by (auto simp: block_ok_def load32_def load64_def)

lemma search_loop_returns:
  assumes ok: "block_ok xp limit shift n"
  shows "table_ok n table npos \<Longrightarrow> unat nxt < n \<Longrightarrow> 32 \<le> skip \<Longrightarrow>
    search_loop xp limit shift table nxt npos skip = Some NoMatch
    \<or> (\<exists>table' nxt' pos cand. search_loop xp limit shift table nxt npos skip = Some (Match table' nxt' pos cand)
        \<and> table_ok n table' (pos + 1) \<and> unat nxt' < n \<and> npos \<le> pos \<and> pos < limit \<and> cand < pos \<and> load32 xp pos = load32 xp cand)"
proof (induction "limit + 1 - npos" arbitrary: table nxt npos skip rule: less_induct)
  case less
  let ?npos = "npos + skip div 32" and ?skip = "skip + skip div 32"
  have step: "npos < ?npos" using less.prems(3) by linarith
  show ?case
  proof (cases "limit < ?npos")
    case True
    then show ?thesis by (simp add: search_loop.simps [of xp limit shift table nxt npos skip])
  next
    case False
    then have lim: "npos < limit" "?npos \<le> limit" using step by simp_all
    obtain c where c: "table_get table nxt = Some c" "c < npos" using table_accesses(1) [OF less.prems(1,2)] by blast
    obtain table' where t: "table_set table nxt npos = Some table'" "table_ok n table' (npos + 1)"
      using table_accesses(2) [OF less.prems(1,2), of npos "npos + 1"] block_ok_loads(3) [OF ok lim(1)] by auto
    obtain h a b where w: "load32 xp ?npos = Some h" "load32 xp npos = Some a" "load32 xp c = Some b"
      using block_ok_loads(1) [OF ok] lim c(2) by (metis less_imp_le_nat less_trans)
    have eq: "search_loop xp limit shift table nxt npos skip = (if a = b then Some (Match table' (hash32 h shift) npos c)
        else search_loop xp limit shift table' (hash32 h shift) ?npos ?skip)"
      using c(1) t(1) w False by (simp add: search_loop.simps [of xp limit shift table nxt npos skip] Let_def)
    show ?thesis
    proof (cases "a = b")
      case True
      with eq w t(2) lim c(2) block_ok_loads(4) [OF ok] show ?thesis by auto
    next
      case ne: False
      have "table_ok n table' ?npos" using t(2) step by (auto simp: table_ok_def)
      moreover have "limit + 1 - ?npos < limit + 1 - npos" "32 \<le> ?skip" using step lim less.prems(3) by linarith+
      ultimately have IH: "search_loop xp limit shift table' (hash32 h shift) ?npos ?skip = Some NoMatch
          \<or> (\<exists>table'' nxt' pos cand. search_loop xp limit shift table' (hash32 h shift) ?npos ?skip = Some (Match table'' nxt' pos cand)
            \<and> table_ok n table'' (pos + 1) \<and> unat nxt' < n \<and> ?npos \<le> pos \<and> pos < limit \<and> cand < pos \<and> load32 xp pos = load32 xp cand)"
        using less.hyps block_ok_loads(4) [OF ok] by blast
      have "search_loop xp limit shift table nxt npos skip = search_loop xp limit shift table' (hash32 h shift) ?npos ?skip"
        using eq ne by simp
      with IH show ?thesis by (elim disjE exE conjE) auto
    qed
  qed
qed

text \<open>
  The output \<^term>\<open>z\<close> stands for the first \<^term>\<open>n\<close> bytes of the block whatever precedes it, and it is longer than them by at most one
  byte in sixty, apart from a slack.
\<close>

definition encodes_prefix :: "bytes \<Rightarrow> bytes \<Rightarrow> nat \<Rightarrow> nat \<Rightarrow> bool" where
  "encodes_prefix xp z n slack \<longleftrightarrow> n \<le> length xp \<and> (\<forall>p. stands_for z p (take n xp)) \<and> 60 * length z \<le> 61 * n + slack"

lemma encodes_prefix_literal:
  assumes "encodes_prefix xp z n slack" "n < m" "m \<le> length xp" "length xp \<le> 65536"
  shows "encodes_prefix xp (z @ emit_literal (take (m - n) (drop n xp))) m (slack + 60)"
proof -
  let ?d = "take (m - n) (drop n xp)"
  have d: "take m xp = take n xp @ ?d" using assms(2) by (metis le_add_diff_inverse less_imp_le_nat take_add)
  have "stands_for (emit_literal ?d) q ?d" for q using assms by (intro literal_stands_for) auto
  then have "stands_for (z @ emit_literal ?d) p (take m xp)" for p
    unfolding d using assms(1) by (intro stands_for_append) (auto simp: encodes_prefix_def)
  moreover have "60 * length (emit_literal ?d) \<le> 61 * length ?d + 60" unfolding emit_literal_def Let_def by auto
  moreover have "length ?d = m - n" using assms by simp
  ultimately show ?thesis using assms by (auto simp: encodes_prefix_def)
qed

lemma encodes_prefix_copy:
  assumes cov: "encodes_prefix xp z base 60" and len: "length xp \<le> 65536" and m: "base + 4 \<le> m" "m \<le> length xp" and cand: "cand < base"
    and eq: "\<And>i. i < m - base \<Longrightarrow> xp ! (cand + i) = xp ! (base + i)"
  shows "encodes_prefix xp (z @ emit_copy (base - cand) (m - base)) m 0"
proof -
  let ?d = "take (m - base) (drop base xp)"
  have d: "take m xp = take base xp @ ?d" using m(1) by (metis add_leD1 le_add_diff_inverse take_add)
  have l: "length ?d = m - base" using m by simp
  have "repeats (p @ take base xp) ?d (base - cand)" for p using match_repeats [OF cand _ eq] m by simp
  from emit_copy_stands_for [OF this] have "stands_for (emit_copy (base - cand) (m - base)) (p @ take base xp) ?d" for p
    using l len m by simp
  then have "stands_for (z @ emit_copy (base - cand) (m - base)) p (take m xp)" for p
    unfolding d using cov by (intro stands_for_append) (auto simp: encodes_prefix_def)
  moreover have "length (emit_copy (base - cand) (m - base)) < m - base" using m by (intro length_emit_copy) simp
  ultimately show ?thesis using cov m by (auto simp: encodes_prefix_def)
qed

lemma encodes_prefix_mono: "encodes_prefix xp z n s \<Longrightarrow> s \<le> t \<Longrightarrow> encodes_prefix xp z n t"
  by (auto simp: encodes_prefix_def)

lemma copies_loop_returns:
  assumes ok: "block_ok xp limit shift n"
  shows "encodes_prefix xp zp pos 60 \<Longrightarrow> table_ok n table (pos + 1) \<Longrightarrow> pos < limit \<Longrightarrow> cand < pos \<Longrightarrow> load32 xp pos = load32 xp cand \<Longrightarrow>
    (\<exists>z m. copies_loop xp limit shift zp table pos cand = Some (Finish z m) \<and> encodes_prefix xp z m 0)
    \<or> (\<exists>z table' nxt m. copies_loop xp limit shift zp table pos cand = Some (Search z table' nxt m (m + 1))
        \<and> encodes_prefix xp z m 0 \<and> table_ok n table' (m + 1) \<and> unat nxt < n \<and> pos < m \<and> m < limit)"
proof (induction "limit - pos" arbitrary: zp table pos cand rule: less_induct)
  case less
  have len: "length xp \<le> 65536" "limit + 15 = length xp" using ok by (simp_all add: block_ok_def)
  define m where "m = match_loop xp (cand + 4) (pos + 4)"
  have "pos + 4 \<le> length xp" using less.prems(3) len by simp
  from match_loop_spec [OF this, of "cand + 4"] have m: "pos + 4 \<le> m" "m \<le> length xp"
    and tail: "\<And>i. i < m - (pos + 4) \<Longrightarrow> xp ! (cand + 4 + i) = xp ! (pos + 4 + i)" unfolding m_def by blast+
  obtain w where w: "load32 xp pos = Some w" "load32 xp cand = Some w" using block_ok_loads(1) [OF ok, of pos] less.prems(3,5) by auto
  have eq: "xp ! (cand + i) = xp ! (pos + i)" if "i < m - pos" for i
    using load32_eq_nth [OF w(2,1), of i] tail [of "i - 4"] that by (cases "i < 4") auto
  let ?z = "zp @ emit_copy (pos - cand) (m - pos)"
  have cov: "encodes_prefix xp ?z m 0" by (rule encodes_prefix_copy [OF less.prems(1) len(1) m less.prems(4) eq])
  show ?case
  proof (cases "limit \<le> m")
    case True
    then show ?thesis using cov by (simp add: copies_loop.simps [of xp limit shift zp table pos cand] m_def [symmetric])
  next
    case False
    obtain x where x: "load64 xp (m - 1) = Some x" using block_ok_loads(2) [OF ok, of "m - 1"] False by (meson diff_le_self le_trans nat_le_linear)
    let ?cur = "hash32 (ucast (drop_bit 8 x)) shift"
    obtain t1 where t1: "table_set table (hash32 (ucast x) shift) (m - 1) = Some t1" "table_ok n t1 m"
      using table_accesses(2) [OF less.prems(2) block_ok_loads(4) [OF ok], of "m - 1" m "ucast x"] block_ok_loads(3) [OF ok, of "m - 1"] False m by auto
    obtain c where c: "table_get t1 ?cur = Some c" "c < m" using table_accesses(1) [OF t1(2) block_ok_loads(4) [OF ok]] by blast
    obtain t2 where t2: "table_set t1 ?cur m = Some t2" "table_ok n t2 (m + 1)"
      using table_accesses(2) [OF t1(2) block_ok_loads(4) [OF ok], of m "m + 1"] block_ok_loads(3) [OF ok, of m] False by auto
    obtain v where v: "load32 xp c = Some v" using block_ok_loads(1) [OF ok, of c] c(2) False by auto
    have step: "copies_loop xp limit shift zp table pos cand =
        (if drop_bit 8 x \<noteq> ucast v then Some (Search ?z t2 (hash32 (ucast (drop_bit 16 x)) shift) m (m + 1))
         else copies_loop xp limit shift ?z t2 m c)"
      using x t1(1) c(1) t2(1) v False by (simp add: copies_loop.simps [of xp limit shift zp table pos cand] m_def [symmetric] Let_def)
    show ?thesis
    proof (cases "drop_bit 8 x = ucast v")
      case True
      have "load32 xp m = Some (ucast (drop_bit 8 x))" using load64_load32 [OF x] m by simp
      also have "ucast (drop_bit 8 x) = v" unfolding True by (simp add: bit_eq_iff bit_simps)
      finally have "load32 xp m = load32 xp c" using v by simp
      moreover have lt: "limit - m < limit - pos" "m < limit" "pos < m" using False m(1) by linarith+
      ultimately have IH: "(\<exists>z m'. copies_loop xp limit shift ?z t2 m c = Some (Finish z m') \<and> encodes_prefix xp z m' 0)
          \<or> (\<exists>z table' nxt m'. copies_loop xp limit shift ?z t2 m c = Some (Search z table' nxt m' (m' + 1))
            \<and> encodes_prefix xp z m' 0 \<and> table_ok n table' (m' + 1) \<and> unat nxt < n \<and> m < m' \<and> m' < limit)"
        using less.hyps [OF _ encodes_prefix_mono [OF cov] t2(2) _ c(2)] by simp
      have "copies_loop xp limit shift zp table pos cand = copies_loop xp limit shift ?z t2 m c" using step True by simp
      with IH lt(3) show ?thesis by (elim disjE exE conjE) auto
    qed (use step cov t2(2) False m(1) block_ok_loads(4) [OF ok] in auto)
  qed
qed

lemma finish_block_encodes:
  assumes "encodes_prefix xp z m 0" "length xp \<le> 65536"
  shows "encodes_prefix xp (finish_block xp z m) (length xp) 60"
proof (cases "m < length xp")
  case True
  with encodes_prefix_literal [OF assms(1) True] assms(2) show ?thesis by (simp add: finish_block_def)
qed (use assms in \<open>auto simp: finish_block_def encodes_prefix_def\<close>)

lemma block_loop_returns:
  assumes ok: "block_ok xp limit shift n"
  shows "encodes_prefix xp zp emit 0 \<Longrightarrow> table_ok n table (emit + 1) \<Longrightarrow> unat nxt < n \<Longrightarrow> 
    \<exists>z. block_loop xp limit shift zp table nxt emit (emit + 1) = Some z \<and> encodes_prefix xp z (length xp) 60"
proof (induction "limit - emit" arbitrary: zp table nxt emit rule: less_induct)
  case less
  have len: "length xp \<le> 65536" "limit \<le> length xp" using ok by (simp_all add: block_ok_def)
  note unfold = block_loop.simps [of xp limit shift zp table nxt emit "emit + 1", simplified]
  from search_loop_returns [OF ok less.prems(2,3) order.refl] show ?case
  proof (elim disjE exE conjE)
    assume "search_loop xp limit shift table nxt (emit + 1) 32 = Some NoMatch"
    with finish_block_encodes [OF less.prems(1) len(1)] show ?thesis by (simp add: unfold)
  next
    fix t1 n1 pos cand
    assume s: "search_loop xp limit shift table nxt (emit + 1) 32 = Some (Match t1 n1 pos cand)"
      and t1: "table_ok n t1 (pos + 1)" "unat n1 < n" "emit + 1 \<le> pos" "pos < limit" "cand < pos" "load32 xp pos = load32 xp cand"
    let ?z = "zp @ emit_literal (take (pos - emit) (drop emit xp))"
    have "encodes_prefix xp ?z pos 60" using encodes_prefix_literal [OF less.prems(1), of pos] t1(3,4) len by simp
    from copies_loop_returns [OF ok this t1(1,4,5,6)] show ?thesis
    proof (elim disjE exE conjE)
      fix z m assume "copies_loop xp limit shift ?z t1 pos cand = Some (Finish z m)" "encodes_prefix xp z m 0"
      with s finish_block_encodes [OF _ len(1)] show ?thesis by (simp add: unfold)
    next
      fix z t2 n2 m assume c: "copies_loop xp limit shift ?z t1 pos cand = Some (Search z t2 n2 m (m + 1))"
        and t2: "encodes_prefix xp z m 0" "table_ok n t2 (m + 1)" "unat n2 < n" "pos < m" "m < limit"
      have "limit - m < limit - emit" using t1(3) t2(4,5) by linarith
      from less.hyps [OF this t2(1,2,3)] s c show ?thesis by (simp add: unfold)
    qed
  qed
qed

lemma encode_block_encodes:
  assumes "MIN_BLOCK_SIZE \<le> length xp" "length xp \<le> 65536"
  shows "\<exists>z. encode_block xp = Some z \<and> encodes_prefix xp z (length xp) 60"
proof -
  obtain n shift where t: "table_size_loop (length xp) 256 24 = Some (n, shift)" "\<And>h. unat (hash32 h shift) < n"
    using table_size_loop_ok by blast
  have 17: "17 \<le> length xp" using assms(1) by (simp add: MIN_BLOCK_SIZE_def INPUT_MARGIN_def)
  then have ok: "block_ok xp (length xp - 15) shift n" using assms(2) t(2) by (simp add: block_ok_def)
  obtain h where h: "load32 xp 1 = Some h" using 17 by (simp add: load32_def)
  have "encodes_prefix xp [] 0 0" "table_ok n (replicate n 0) (0 + 1)" by (simp_all add: encodes_prefix_def table_ok_def)
  from block_loop_returns [OF ok this t(2) [of h]] show ?thesis
    using t(1) h by (simp add: encode_block_def INPUT_MARGIN_def)
qed

lemma encode_blocks_loop_returns:
  "\<exists>z. encode_blocks_loop zp xp = Some (zp @ z) \<and> (\<forall>p. stands_for z p xp) \<and> 6 * length z \<le> 7 * length xp + 18"
proof (induction zp xp rule: encode_blocks_loop.induct)
  case (1 zp xp)
  note unfold = encode_blocks_loop.simps [of zp xp]
  show ?case
  proof (cases "MAX_BLOCK_SIZE \<le> length xp")
    case True
    let ?b = "take MAX_BLOCK_SIZE xp" and ?r = "drop MAX_BLOCK_SIZE xp"
    have b: "length ?b = 65536" using True by (simp add: MAX_BLOCK_SIZE_def)
    have "MIN_BLOCK_SIZE \<le> length ?b" "length ?b \<le> 65536" unfolding b by (simp_all add: MIN_BLOCK_SIZE_def INPUT_MARGIN_def)
    then obtain z where z: "encode_block ?b = Some z" "encodes_prefix ?b z (length ?b) 60" using encode_block_encodes by blast
    obtain z' where z': "encode_blocks_loop (zp @ z) ?r = Some ((zp @ z) @ z')" "\<forall>p. stands_for z' p ?r" "6 * length z' \<le> 7 * length ?r + 18"
      using "1.IH"(1) [OF True z(1)] by blast
    have "stands_for z p ?b" for p using z(2) unfolding encodes_prefix_def take_all [OF order.refl] by blast
    then have "stands_for (z @ z') p xp" for p using stands_for_append [of z p ?b z' ?r] z'(2) by simp
    moreover have "60 * length z \<le> 61 * length ?b + 60" using z(2) unfolding encodes_prefix_def by blast
    then have "6 * length z \<le> 7 * length ?b" unfolding b by linarith
    then have "6 * length (z @ z') \<le> 7 * length xp + 18" using z'(3) True by simp
    moreover have "encode_blocks_loop zp xp = Some (zp @ z @ z')" using unfold True z(1) z'(1) by simp
    ultimately show ?thesis by blast
  next
    case False
    then have le: "length xp \<le> 65536" by (simp add: MAX_BLOCK_SIZE_def)
    consider "xp = []" | "xp \<noteq> []" "MIN_BLOCK_SIZE \<le> length xp" | "xp \<noteq> []" "length xp < MIN_BLOCK_SIZE" by linarith
    then show ?thesis
    proof cases
      case 2
      from encode_block_encodes [OF 2(2) le] obtain z where z: "encode_block xp = Some z" "encodes_prefix xp z (length xp) 60" by blast
      have "encode_blocks_loop zp xp = Some (zp @ z)" using unfold z(1) 2 False by simp
      with z(2) show ?thesis by (intro exI [of _ z]) (simp add: encodes_prefix_def)
    next
      case 3
      have "length (emit_literal xp) = length xp + 1"
        using 3 by (simp add: emit_literal_def Let_def MIN_BLOCK_SIZE_def INPUT_MARGIN_def)
      moreover have "encode_blocks_loop zp xp = Some (zp @ emit_literal xp)" using unfold 3 False by simp
      ultimately show ?thesis using literal_stands_for [OF 3(1) le] by (intro exI [of _ "emit_literal xp"]) simp
    next
      case 1
      then show ?thesis by (intro exI [of _ "[]"]) (simp add: encode_blocks_loop.simps [of zp "[]"] MAX_BLOCK_SIZE_def)
    qed
  qed
qed

lemma length_copy_bytes_loop [simp]: "length (copy_bytes_loop n zp off) = length zp + n"
  by (induction n arbitrary: zp) auto

lemma copy_bytes_loop_prefix: "\<exists>d. copy_bytes_loop n zp off = zp @ d"
proof (induction n arbitrary: zp)
  case (Suc n)
  from Suc [of "zp @ [zp ! (length zp - off)]"] show ?case by auto
qed simp

text \<open>An element writes what it takes from the room.\<close>

lemma decode_element_room:
  assumes "decode_element zp zn xp = Some (zp', zn', xp')"
  shows "\<exists>d. zp' = zp @ d \<and> zn = zn' + length d"
proof (cases "hd xp AND 3 = TAG_LITERAL")
  case True
  with assms show ?thesis by (auto simp: decode_element_def decode_literal_def Let_def split: option.splits if_splits)
next
  case False
  obtain len off r where c: "copy_fields xp = Some (len, off, r)"
    using assms False by (auto simp: decode_element_def decode_copy_def split: option.splits)
  obtain d where d: "copy_bytes_loop (unat len) zp (unat off) = zp @ d" using copy_bytes_loop_prefix by blast
  with length_copy_bytes_loop [of "unat len" zp "unat off"] have "length d = unat len" by simp
  have "zp' = (if len \<le> off then zp @ take (unat len) (drop (length zp - unat off) zp) else zp @ d)"
    "zn' = zn - unat len" "unat len \<le> zn" "unat off \<le> length zp"
    using assms False c d by (auto simp: decode_element_def decode_copy_def split: if_splits)
  then show ?thesis using \<open>length d = unat len\<close> by (auto simp: word_le_nat_alt)
qed

lemma decode_blocks_room: "decode_blocks zp zn xp = Some y \<Longrightarrow> \<exists>d. y = zp @ d \<and> length d = zn"
proof (induction zp zn xp rule: decode_blocks.induct)
  case (1 zp zn xp)
  show ?case
  proof (cases "xp = []")
    case False
    then obtain zp' zn' xp' where e: "decode_element zp zn xp = Some (zp', zn', xp')" "decode_blocks zp' zn' xp' = Some y"
      using "1.prems" by (auto simp: decode_blocks.simps [of zp] split: option.splits)
    from "1.IH" [OF False e(1) refl refl e(2)] decode_element_room [OF e(1)] show ?thesis by auto
  qed (use "1.prems" in \<open>simp add: decode_blocks.simps split: if_splits\<close>)
qed

lemma snappy_decode_length: "snappy_decode z = Some xp \<Longrightarrow> snappy_decode_size z = Some (length xp)"
  using decode_blocks_room by (fastforce simp: snappy_decode_def snappy_decode_size_def split: option.splits if_splits)

lemma snappy_lossless:
  assumes "snappy_encode_size (length xp) = Some zn"
  shows "\<exists>z. snappy_encode xp = Some z \<and> length z \<le> zn \<and> snappy_decode_size z = Some (length xp) \<and> snappy_decode z = Some xp"
proof -
  have len: "length xp \<le> 0x7fffffff" and zn: "zn = 32 + length xp + length xp div 6"
    using assms by (auto simp: snappy_encode_size_def Let_def split: if_splits)
  let ?h = "ldb_varint32_write (word_of_nat (length xp))"
  obtain z where z: "snappy_encode xp = Some (?h @ z)" "stands_for z [] xp" "6 * length z \<le> 7 * length xp + 18"
    using encode_blocks_loop_returns [of ?h xp] by (auto simp: snappy_encode_def)
  have u: "unat (word_of_nat (length xp) :: u32) = length xp" using len by (simp add: unat_of_nat)
  then have "\<not> (0x7fffffff :: u32) < word_of_nat (length xp)" using len by (simp add: word_less_nat_alt)
  then have "snappy_decode_size (?h @ z) = Some (length xp)" "snappy_decode (?h @ z) = Some xp"
    using u stands_for_decode [OF z(2)] by (simp_all add: snappy_decode_size_def snappy_decode_def)
  moreover have "length (?h @ z) \<le> zn"
    using z(3) length_ldb_varint32_write [of "word_of_nat (length xp)"] unfolding zn length_append by linarith
  ultimately show ?thesis using z(1) by blast
qed

section \<open>Properties\<close>

text \<open>
  C16. Compression is lossless and never leaves its buffers: for every input that the size function accepts the encoder ends, reads
  neither outside the input nor outside its hash table, and stores no more bytes than the size function announced; and
  the decoder gives the input back, with the length that its own size function announces.
\<close>

theorem snappy_roundtrip:
  assumes "snappy_encode_size (length xp) = Some zn"
  shows "\<exists>z. snappy_encode xp = Some z \<and> length z \<le> zn \<and> snappy_decode_size z = Some (length xp) \<and> snappy_decode z = Some xp"
  using assms by (rule snappy_lossless)

theorem snappy_roundtrip_witness:
  "\<exists>z. snappy_encode (replicate 20 7) = Some z \<and> length z \<le> 55 \<and> snappy_decode z = Some (replicate 20 7)"
proof -
  have "snappy_encode_size (length (replicate 20 (7 :: u8))) = Some 55" by (simp add: snappy_encode_size_def)
  from snappy_roundtrip [OF this] show ?thesis by blast
qed

end
