(* ===== verification/Bloom.thy ===== *)
theory Bloom
  imports DbFormat Hash
begin

text \<open>
  Filter policies: the bloom filter of \<^verbatim>\<open>src/src/util/bloom.c\<close> and the policy of
  \<^verbatim>\<open>src/src/dbformat.c\<close> that strips internal keys to user keys. A policy object is a record of its
  functions, each already applied to the object's own parameters; its contract is a locale.
\<close>

section \<open>Policies\<close>

record policy =
  fp_name :: string
  fp_build :: "bytes \<Rightarrow> bytes list \<Rightarrow> bytes"
  fp_match :: "bytes \<Rightarrow> bytes \<Rightarrow> bool"

text \<open>The contract of \<^verbatim>\<open>bloom.h\<close>: a filter is appended, and it matches every key it was built for.\<close>

locale filter_policy =
  fixes P :: policy and ok :: "bytes \<Rightarrow> bool"
  assumes build_append: "fp_build P dst keys = dst @ fp_build P [] keys"
    and match_built: "k \<in> set keys \<Longrightarrow> ok k \<Longrightarrow> fp_match P (fp_build P [] keys) k"

section \<open>The bloom filter\<close>

record bloom =
  bits_per_key :: nat
  bloom_k :: nat

text \<open>
  \<^verbatim>\<open>bits_per_key * 0.69\<close>, computed in floating point and truncated, is never close to an integer for
  fewer than 100 bits per key, and from 44 bits on the result is cut to 30.
\<close>

definition ldb_bloom_init :: "nat \<Rightarrow> bloom" where
  "ldb_bloom_init bits =
     (let k = bits * 69 div 100; k = (if k < 1 then 1 else k); k = (if k > 30 then 30 else k)
      in \<lparr>bits_per_key = bits, bloom_k = k\<rparr>)"

definition bloom_default :: bloom where
  "bloom_default = \<lparr>bits_per_key = 10, bloom_k = 6\<rparr>"

definition ldb_bloom_name :: "nat \<Rightarrow> policy \<Rightarrow> string option" where
  "ldb_bloom_name n bloom =
     (let name = fp_name bloom in if 7 + length name + 1 > n then None else Some (''filter.'' @ name))"

definition bloom_hash :: "bytes \<Rightarrow> u32" where
  "bloom_hash key = ldb_hash key 0xbc9f1d34"

definition bloom_size :: "bloom \<Rightarrow> nat \<Rightarrow> nat" where
  "bloom_size bloom n =
     (let bits = n * bits_per_key bloom; bits = (if bits < 64 then 64 else bits) in (bits + 7) div 8)"

definition bloom_delta :: "u32 \<Rightarrow> u32" where
  "bloom_delta hash = drop_bit 17 hash OR push_bit 15 hash"

fun bloom_add_loop :: "nat \<Rightarrow> u32 \<Rightarrow> u32 \<Rightarrow> nat \<Rightarrow> bytes \<Rightarrow> bytes" where
  "bloom_add_loop 0 hash delta bits xs = xs"
| "bloom_add_loop (Suc k) hash delta bits xs =
     (let pos = unat hash mod bits;
          xs = xs[pos div 8 := xs ! (pos div 8) OR push_bit (pos mod 8) 1]
      in bloom_add_loop k (hash + delta) delta bits xs)"

definition bloom_add :: "bloom \<Rightarrow> bytes \<Rightarrow> bytes \<Rightarrow> nat \<Rightarrow> bytes" where
  "bloom_add bloom xs key bits =
     (let hash = bloom_hash key in bloom_add_loop (bloom_k bloom) hash (bloom_delta hash) bits xs)"

definition bloom_build :: "bloom \<Rightarrow> bytes \<Rightarrow> bytes list \<Rightarrow> bytes" where
  "bloom_build bloom dst keys =
     (let bytes = bloom_size bloom (length keys); bits = bytes * 8;
          xs = replicate (bytes + 1) 0;
          xs = foldl (\<lambda>xs key. bloom_add bloom xs key bits) xs keys
      in dst @ xs[bytes := word_of_nat (bloom_k bloom)])"

fun bloom_match_loop :: "nat \<Rightarrow> u32 \<Rightarrow> u32 \<Rightarrow> nat \<Rightarrow> bytes \<Rightarrow> bool" where
  "bloom_match_loop 0 hash delta bits xs = True"
| "bloom_match_loop (Suc k) hash delta bits xs =
     (let pos = unat hash mod bits in
      if xs ! (pos div 8) AND push_bit (pos mod 8) 1 = 0 then False
      else bloom_match_loop k (hash + delta) delta bits xs)"

definition bloom_match :: "bytes \<Rightarrow> bytes \<Rightarrow> bool" where
  "bloom_match flt key =
     (let len = length flt in
      if len < 2 then False
      else
        (let bits = (len - 1) * 8; k = unat (flt ! (len - 1)) in
         if k > 30 then True
         else (let hash = bloom_hash key in bloom_match_loop k hash (bloom_delta hash) bits flt)))"

definition bloom_policy :: "bloom \<Rightarrow> policy" where
  "bloom_policy bloom = \<lparr>fp_name = ''leveldb.BuiltinBloomFilter2'', fp_build = bloom_build bloom, fp_match = bloom_match\<rparr>"

section \<open>The internal filter policy\<close>

definition ldb_ifp_build :: "policy \<Rightarrow> bytes \<Rightarrow> bytes list \<Rightarrow> bytes" where
  "ldb_ifp_build user_policy dst keys = fp_build user_policy dst (map ldb_extract_user_key keys)"

definition ldb_ifp_match :: "policy \<Rightarrow> bytes \<Rightarrow> bytes \<Rightarrow> bool" where
  "ldb_ifp_match user_policy flt key = fp_match user_policy flt (ldb_extract_user_key key)"

definition ldb_ifp_init :: "policy \<Rightarrow> policy" where
  "ldb_ifp_init user_policy =
     \<lparr>fp_name = fp_name user_policy, fp_build = ldb_ifp_build user_policy, fp_match = ldb_ifp_match user_policy\<rparr>"

section \<open>No false negatives\<close>

text \<open>\<^term>\<open>covers xs ys\<close>: every bit of \<^term>\<open>xs\<close> is set in \<^term>\<open>ys\<close>.\<close>

definition covers :: "bytes \<Rightarrow> bytes \<Rightarrow> bool" where
  "covers xs ys \<longleftrightarrow> length xs = length ys \<and> (\<forall>i < length xs. \<forall>n. bit (xs ! i) n \<longrightarrow> bit (ys ! i) n)"

lemma covers_refl [simp]: "covers xs xs"
  by (simp add: covers_def)

lemma covers_trans: "covers xs ys \<Longrightarrow> covers ys zs \<Longrightarrow> covers xs zs"
  by (auto simp: covers_def)

lemma covers_set_bit: "covers xs (xs[i := xs ! i OR w])"
proof -
  have "bit (xs[i := xs ! i OR w] ! j) n" if "j < length xs" "bit (xs ! j) n" for j n
    using that by (cases "j = i") (simp_all add: bit_simps)
  then show ?thesis by (simp add: covers_def)
qed

lemma covers_add_loop: "covers xs (bloom_add_loop k h d bits xs)"
proof (induction k h d bits xs rule: bloom_add_loop.induct)
  case (2 k h d bits xs)
  show ?case
    unfolding bloom_add_loop.simps Let_def by (rule covers_trans [OF covers_set_bit "2.IH"]) auto
qed simp

lemma and_push_bit_eq_0: "n < 8 \<Longrightarrow> (w :: u8) AND push_bit n 1 = 0 \<longleftrightarrow> \<not> bit w n"
  by (simp add: push_bit_of_1 and_exp_eq_0_iff_not_bit)

lemma bit_probe_covers:
  assumes "covers xs ys" "p div 8 < length xs" "xs ! (p div 8) AND push_bit (p mod 8) 1 \<noteq> 0"
  shows "ys ! (p div 8) AND push_bit (p mod 8) 1 \<noteq> 0"
  using assms and_push_bit_eq_0 [of "p mod 8"] by (auto simp: covers_def)

lemma match_loop_covers:
  "covers xs ys \<Longrightarrow> 0 < bits \<Longrightarrow> bits \<le> length xs * 8 \<Longrightarrow> bloom_match_loop k h d bits xs \<Longrightarrow> bloom_match_loop k h d bits ys"
proof (induction k arbitrary: h)
  case (Suc k)
  have "unat h mod bits < length xs * 8" using Suc.prems(2,3) by (meson less_le_trans mod_less_divisor)
  then have "unat h mod bits div 8 < length xs" by (simp add: less_mult_imp_div_less)
  with Suc bit_probe_covers [OF Suc.prems(1), of "unat h mod bits"] show ?case
    by (auto simp: Let_def split: if_splits)
qed simp

lemma match_after_add:
  "0 < bits \<Longrightarrow> bits \<le> length xs * 8 \<Longrightarrow> bloom_match_loop k h d bits (bloom_add_loop k h d bits xs)"
proof (induction k arbitrary: h xs)
  case (Suc k)
  let ?p = "unat h mod bits"
  let ?xs = "xs[?p div 8 := xs ! (?p div 8) OR push_bit (?p mod 8) 1]"
  have "?p < length xs * 8" using Suc.prems by (meson less_le_trans mod_less_divisor)
  then have "?p div 8 < length xs" by (simp add: less_mult_imp_div_less)
  then have "bit (?xs ! (?p div 8)) (?p mod 8)" by (simp add: bit_or_iff bit_exp_iff)
  then have "?xs ! (?p div 8) AND push_bit (?p mod 8) 1 \<noteq> 0"
    by (subst and_push_bit_eq_0) simp_all
  with bit_probe_covers [OF covers_add_loop [of ?xs k "h + d" d bits], of ?p] \<open>?p div 8 < length xs\<close>
    Suc.IH [of ?xs "h + d"] Suc.prems
  show ?case by (simp add: Let_def)
qed simp

lemma length_bloom_add_loop [simp]: "length (bloom_add_loop k h d bits xs) = length xs"
  by (induction k h d bits xs rule: bloom_add_loop.induct) (simp_all add: Let_def)

lemma covers_foldl_add: "covers xs (foldl (\<lambda>xs key. bloom_add b xs key bits) xs keys)"
proof (induction keys arbitrary: xs)
  case (Cons key keys)
  have "covers xs (bloom_add b xs key bits)" by (simp add: bloom_add_def Let_def covers_add_loop)
  with Cons show ?case by (auto intro: covers_trans)
qed simp

lemma foldl_add_matches:
  assumes "key \<in> set keys" "0 < bits" "bits \<le> length xs * 8"
  shows "bloom_match_loop (bloom_k b) (bloom_hash key) (bloom_delta (bloom_hash key)) bits
           (foldl (\<lambda>xs key. bloom_add b xs key bits) xs keys)"
  using assms
proof (induction keys arbitrary: xs)
  case (Cons a keys)
  let ?xs = "bloom_add b xs a bits"
  have len: "length ?xs = length xs" by (simp add: bloom_add_def Let_def)
  show ?case
  proof (cases "key \<in> set keys")
    case True
    with Cons.IH [OF True Cons.prems(2), of ?xs] Cons.prems len show ?thesis by simp
  next
    case False
    with Cons.prems have "key = a" by simp
    with Cons.prems have "bloom_match_loop (bloom_k b) (bloom_hash key) (bloom_delta (bloom_hash key)) bits ?xs"
      by (simp add: bloom_add_def Let_def match_after_add)
    from match_loop_covers [OF covers_foldl_add Cons.prems(2) _ this, of b bits keys] len Cons.prems(3)
    show ?thesis by simp
  qed
qed simp

lemma match_loop_cong:
  "0 < bits \<Longrightarrow> bits \<le> n * 8 \<Longrightarrow> take n xs = take n ys \<Longrightarrow> bloom_match_loop k h d bits xs = bloom_match_loop k h d bits ys"
proof (induction k arbitrary: h)
  case (Suc k)
  let ?p = "unat h mod bits"
  have "?p < n * 8" using Suc.prems by (meson less_le_trans mod_less_divisor)
  then have "?p div 8 < n" by (simp add: less_mult_imp_div_less)
  then have "xs ! (?p div 8) = ys ! (?p div 8)" using Suc.prems(3) by (metis nth_take)
  with Suc show ?case by (simp add: Let_def)
qed simp

lemma length_foldl_add [simp]: "length (foldl (\<lambda>xs key. bloom_add b xs key bits) xs keys) = length xs"
  by (induction keys arbitrary: xs) (simp_all add: bloom_add_def Let_def)

lemma bloom_match_build:
  assumes "bloom_k b \<le> 30" "key \<in> set keys"
  shows "bloom_match (bloom_build b [] keys) key"
proof -
  define n where "n = bloom_size b (length keys)"
  define xs where "xs = foldl (\<lambda>xs key. bloom_add b xs key (n * 8)) (replicate (n + 1) 0) keys"
  have "8 \<le> (if c < 64 then 64 else c) + 7" for c :: nat by simp
  then have n: "0 < n" unfolding n_def bloom_size_def Let_def div_greater_zero_iff by (intro conjI) simp_all
  have len: "length xs = n + 1" by (simp add: xs_def)
  have k: "unat (word_of_nat (bloom_k b) :: u8) = bloom_k b"
    using assms(1) by (simp add: unat_of_nat take_bit_nat_eq_self)
  have "bloom_match_loop (bloom_k b) (bloom_hash key) (bloom_delta (bloom_hash key)) (n * 8) xs"
    unfolding xs_def using n by (intro foldl_add_matches [OF assms(2)]) auto
  then have "bloom_match_loop (bloom_k b) (bloom_hash key) (bloom_delta (bloom_hash key)) (n * 8)
      (xs[n := word_of_nat (bloom_k b)])"
    using match_loop_cong [of "n * 8" n xs "xs[n := word_of_nat (bloom_k b)]"] n by simp
  moreover have "bloom_build b [] keys = xs[n := word_of_nat (bloom_k b)]"
    by (simp add: bloom_build_def Let_def xs_def n_def)
  ultimately show ?thesis using n len k assms(1) by (simp add: bloom_match_def Let_def)
qed

lemma ldb_bloom_init_k: "bloom_k (ldb_bloom_init bits) \<le> 30"
  by (simp add: ldb_bloom_init_def Let_def)

lemma filter_policy_bloom: "bloom_k b \<le> 30 \<Longrightarrow> filter_policy (bloom_policy b) (\<lambda>_. True)"
proof
  fix dst keys
  show "fp_build (bloom_policy b) dst keys = dst @ fp_build (bloom_policy b) [] keys"
    by (simp add: bloom_policy_def bloom_build_def Let_def)
qed (simp add: bloom_policy_def bloom_match_build)

interpretation default_bloom: filter_policy "bloom_policy bloom_default" "\<lambda>_. True"
  by (rule filter_policy_bloom) (simp add: bloom_default_def)

interpretation created_bloom: filter_policy "bloom_policy (ldb_bloom_init bits)" "\<lambda>_. True" for bits
  by (rule filter_policy_bloom) (rule ldb_bloom_init_k)

text \<open>Stripping internal keys keeps the contract, for a user policy of any kind.\<close>

context filter_policy
begin

lemma ifp_policy: "filter_policy (ldb_ifp_init P) (\<lambda>k. ok (ldb_extract_user_key k))"
proof
  fix dst keys
  show "fp_build (ldb_ifp_init P) dst keys = dst @ fp_build (ldb_ifp_init P) [] keys"
    using build_append [of dst] by (simp add: ldb_ifp_init_def ldb_ifp_build_def)
qed (simp add: ldb_ifp_init_def ldb_ifp_build_def ldb_ifp_match_def match_built)

end

interpretation created_ifp: filter_policy "ldb_ifp_init (bloom_policy (ldb_bloom_init bits))" "\<lambda>_. True" for bits
  by (rule created_bloom.ifp_policy)

section \<open>Properties\<close>

text \<open>
  C30. A bloom filter has no false negatives: a filter built for a list of keys, with any number of
  bits per key, matches each of them, also through the internal policy on internal keys, where it
  matches every version of a user key; appending it leaves the earlier contents alone.
\<close>

theorem bloom_no_false_negatives:
  "(key \<in> set keys \<longrightarrow> fp_match (bloom_policy (ldb_bloom_init bits)) (fp_build (bloom_policy (ldb_bloom_init bits)) [] keys) key)
   \<and> (ikey \<in> set ikeys \<and> ldb_extract_user_key ikey' = ldb_extract_user_key ikey \<longrightarrow>
       fp_match (ldb_ifp_init (bloom_policy (ldb_bloom_init bits)))
         (fp_build (ldb_ifp_init (bloom_policy (ldb_bloom_init bits))) [] ikeys) ikey')
   \<and> fp_build (bloom_policy (ldb_bloom_init bits)) dst keys = dst @ fp_build (bloom_policy (ldb_bloom_init bits)) [] keys"
proof -
  have "ikey \<in> set ikeys \<Longrightarrow> fp_match (ldb_ifp_init (bloom_policy (ldb_bloom_init bits)))
         (fp_build (ldb_ifp_init (bloom_policy (ldb_bloom_init bits))) [] ikeys) ikey"
    by (rule created_ifp.match_built) simp_all
  then show ?thesis
    using created_bloom.match_built [of key keys bits] created_bloom.build_append [of bits dst keys]
    by (simp add: ldb_ifp_init_def ldb_ifp_match_def)
qed

theorem bloom_no_false_negatives_witness:
  "fp_match (bloom_policy (ldb_bloom_init 10)) (fp_build (bloom_policy (ldb_bloom_init 10)) [] [[104], [105, 106]]) [105, 106]"
proof -
  have "[105, 106] \<in> set [[104], [105, 106 :: u8]]" by simp
  then show ?thesis using bloom_no_false_negatives by blast
qed

end
