(* ===== verification/Format.thy ===== *)
theory Format
  imports Snappy Crc32c Bloom
begin

text \<open>
  The table file format (\<^verbatim>\<open>src/src/table/format.c\<close>): block handles, the footer, and reading a block with its
  trailer. A random access file is the function that reads from it, and whether it is mapped into memory, in which case
  a read hands out the mapping and not the caller's buffer. \<^term>\<open>None\<close> is a read outside a buffer.
\<close>

section \<open>Options\<close>

text \<open>The part of \<^verbatim>\<open>options.h\<close> that the table layer reads.\<close>

datatype compression = LDB_NO_COMPRESSION | LDB_SNAPPY_COMPRESSION

fun compression_code :: "compression \<Rightarrow> u8" where
  "compression_code LDB_NO_COMPRESSION = 0x0"
| "compression_code LDB_SNAPPY_COMPRESSION = 0x1"

record dbopt =
  opt_comparator :: comparator
  opt_paranoid_checks :: bool
  opt_block_size :: nat
  opt_block_restart_interval :: nat
  opt_compression :: compression
  opt_filter_policy :: "policy option"
  opt_max_file_size :: nat
  opt_reuse_logs :: bool
  opt_use_mmap :: bool

record readopt =
  ro_verify_checksums :: bool
  ro_fill_cache :: bool

definition ldb_readopt_default :: readopt where
  "ldb_readopt_default = \<lparr>ro_verify_checksums = False, ro_fill_cache = True\<rparr>"

definition ldb_iteropt_default :: readopt where
  "ldb_iteropt_default = \<lparr>ro_verify_checksums = False, ro_fill_cache = False\<rparr>"

section \<open>Block handles\<close>

definition LDB_BLOCKHANDLE_MAX :: nat where
  "LDB_BLOCKHANDLE_MAX = 10 + 10"

definition LDB_FOOTER_SIZE :: nat where
  "LDB_FOOTER_SIZE = 2 * LDB_BLOCKHANDLE_MAX + 8"

definition LDB_BLOCK_TRAILER_SIZE :: nat where
  "LDB_BLOCK_TRAILER_SIZE = 5"

definition LDB_TABLE_MAGIC :: u64 where
  "LDB_TABLE_MAGIC = 0xdb4775248b80fb57"

record blockhandle =
  bh_offset :: u64
  bh_size :: u64

definition ldb_blockhandle_init :: blockhandle where
  "ldb_blockhandle_init = \<lparr>bh_offset = NOT 0, bh_size = NOT 0\<rparr>"

definition ldb_blockhandle_size :: "blockhandle \<Rightarrow> nat" where
  "ldb_blockhandle_size x = ldb_varint64_size (bh_offset x) + ldb_varint64_size (bh_size x)"

definition ldb_blockhandle_write_assert :: "blockhandle \<Rightarrow> bool" where
  "ldb_blockhandle_write_assert x \<longleftrightarrow> bh_offset x \<noteq> NOT 0 \<and> bh_size x \<noteq> NOT 0"

definition ldb_blockhandle_write :: "blockhandle \<Rightarrow> bytes" where
  "ldb_blockhandle_write x = ldb_varint64_write (bh_offset x) @ ldb_varint64_write (bh_size x)"

definition ldb_blockhandle_export :: "bytes \<Rightarrow> blockhandle \<Rightarrow> bytes" where
  "ldb_blockhandle_export z x = z @ ldb_blockhandle_write x"

definition ldb_blockhandle_read :: "bytes \<Rightarrow> (blockhandle \<times> bytes) option" where
  "ldb_blockhandle_read xp = do {
     (offset, xp) \<leftarrow> ldb_varint64_read xp;
     (sz, xp) \<leftarrow> ldb_varint64_read xp;
     Some (\<lparr>bh_offset = offset, bh_size = sz\<rparr>, xp)
   }"

definition ldb_blockhandle_import :: "bytes \<Rightarrow> blockhandle option" where
  "ldb_blockhandle_import x = map_option fst (ldb_blockhandle_read x)"

section \<open>The footer\<close>

record footer =
  ft_metaindex_handle :: blockhandle
  ft_index_handle :: blockhandle

definition ldb_footer_init :: footer where
  "ldb_footer_init = \<lparr>ft_metaindex_handle = ldb_blockhandle_init, ft_index_handle = ldb_blockhandle_init\<rparr>"

definition ldb_footer_write_assert :: "footer \<Rightarrow> bool" where
  "ldb_footer_write_assert x \<longleftrightarrow>
     ldb_blockhandle_write_assert (ft_metaindex_handle x) \<and> ldb_blockhandle_write_assert (ft_index_handle x)"

definition ldb_footer_write :: "footer \<Rightarrow> bytes" where
  "ldb_footer_write x =
     (let zp = ldb_blockhandle_write (ft_metaindex_handle x);
          zp = zp @ ldb_blockhandle_write (ft_index_handle x);
          pad = (2 * LDB_BLOCKHANDLE_MAX) - length zp;
          zp = zp @ ldb_padding_write pad
      in zp @ ldb_fixed64_write LDB_TABLE_MAGIC)"

definition ldb_footer_export :: "bytes \<Rightarrow> footer \<Rightarrow> bytes" where
  "ldb_footer_export z x = z @ ldb_footer_write x"

definition ldb_footer_read :: "bytes \<Rightarrow> (footer \<times> bytes) option" where
  "ldb_footer_read xp =
     (if length xp < LDB_FOOTER_SIZE then None
      else if ldb_fixed64_decode (drop (LDB_FOOTER_SIZE - 8) xp) \<noteq> LDB_TABLE_MAGIC then None
      else do {
        (metaindex, r) \<leftarrow> ldb_blockhandle_read xp;
        (index, r) \<leftarrow> ldb_blockhandle_read r;
        Some (\<lparr>ft_metaindex_handle = metaindex, ft_index_handle = index\<rparr>, drop LDB_FOOTER_SIZE xp)
      })"

definition ldb_footer_import :: "bytes \<Rightarrow> footer option" where
  "ldb_footer_import x = map_option fst (ldb_footer_read x)"

section \<open>Reading a block\<close>

record rafile =
  ra_pread :: "nat \<Rightarrow> nat \<Rightarrow> status \<times> bytes"
  ra_mapped :: bool

record blockcontents =
  bc_data :: bytes
  bc_cachable :: bool
  bc_heap_allocated :: bool

definition ldb_blockcontents_init :: blockcontents where
  "ldb_blockcontents_init = \<lparr>bc_data = [], bc_cachable = False, bc_heap_allocated = False\<rparr>"

definition ldb_read_block :: "rafile \<Rightarrow> readopt \<Rightarrow> blockhandle \<Rightarrow> (status + blockcontents) option" where
  "ldb_read_block file options handle =
     (let result = ldb_blockcontents_init;
          n = bh_size handle;
          len = n + word_of_nat LDB_BLOCK_TRAILER_SIZE;
          (rc, data) = ra_pread file (unat len) (unat (bh_offset handle))
      in if rc \<noteq> LDB_OK then Some (Inl rc)
         else if length data \<noteq> unat len then Some (Inl LDB_IOERR)
         else if length data \<le> unat n then None
         else if ro_verify_checksums options
           \<and> ldb_crc32c_unmask (ldb_fixed32_decode (drop (unat n + 1) data)) \<noteq> ldb_crc32c_value (take (unat n + 1) data)
         then Some (Inl LDB_CORRUPTION)
         else if data ! unat n = compression_code LDB_NO_COMPRESSION then
           (if ra_mapped file
            then Some (Inr (result\<lparr>bc_data := take (unat n) data, bc_heap_allocated := False, bc_cachable := False\<rparr>))
            else Some (Inr (result\<lparr>bc_data := take (unat n) data, bc_heap_allocated := True, bc_cachable := True\<rparr>)))
         else if data ! unat n = compression_code LDB_SNAPPY_COMPRESSION then
           (case snappy_decode_size (take (unat n) data) of None \<Rightarrow> Some (Inl LDB_CORRUPTION)
            | Some ulength \<Rightarrow>
                (case snappy_decode (take (unat n) data) of None \<Rightarrow> Some (Inl LDB_CORRUPTION)
                 | Some ubuf \<Rightarrow> Some (Inr (result\<lparr>bc_data := take ulength ubuf, bc_heap_allocated := True, bc_cachable := True\<rparr>))))
         else Some (Inl LDB_CORRUPTION))"

section \<open>Handles and footers are read back\<close>

lemma blockhandle_read_write [simp]: "ldb_blockhandle_read (ldb_blockhandle_write x @ r) = Some (x, r)"
  by (simp add: ldb_blockhandle_read_def ldb_blockhandle_write_def)

lemma length_blockhandle_write: "length (ldb_blockhandle_write x) \<le> LDB_BLOCKHANDLE_MAX" "ldb_blockhandle_write x \<noteq> []"
  using length_ldb_varint64_write [of "bh_offset x"] length_ldb_varint64_write [of "bh_size x"]
  by (auto simp: ldb_blockhandle_write_def LDB_BLOCKHANDLE_MAX_def)

interpretation blockhandle: codec ldb_blockhandle_write ldb_blockhandle_read "\<lambda>_. True"
proof
  fix bs x rest assume "ldb_blockhandle_read bs = Some (x, rest)"
  then obtain a b r where "ldb_varint64_read bs = Some (a, r)" "ldb_varint64_read r = Some (b, rest)"
    by (auto simp: ldb_blockhandle_read_def split: bind_splits)
  then show "strict_suffix rest bs" using varint64.dec_suffix by (meson suffix_order.less_trans)
qed simp

lemma blockhandle_import_write: "ldb_blockhandle_import (ldb_blockhandle_write x) = Some x"
  using blockhandle_read_write [of x "[]"] by (simp add: ldb_blockhandle_import_def)

lemma length_footer_write [simp]: "length (ldb_footer_write x) = LDB_FOOTER_SIZE"
  using length_blockhandle_write(1) [of "ft_metaindex_handle x"] length_blockhandle_write(1) [of "ft_index_handle x"]
  by (simp add: ldb_footer_write_def Let_def ldb_padding_write_def LDB_FOOTER_SIZE_def)

lemma footer_read_write: "ldb_footer_read (ldb_footer_write x @ r) = Some (x, r)"
proof -
  let ?h = "ldb_blockhandle_write (ft_metaindex_handle x) @ ldb_blockhandle_write (ft_index_handle x)"
  let ?p = "ldb_padding_write (2 * LDB_BLOCKHANDLE_MAX - length ?h)"
  have w: "ldb_footer_write x = (?h @ ?p) @ ldb_fixed64_write LDB_TABLE_MAGIC" by (simp add: ldb_footer_write_def Let_def)
  have l: "length (?h @ ?p) = LDB_FOOTER_SIZE - 8"
    using length_footer_write [of x] unfolding w by (simp add: LDB_FOOTER_SIZE_def)
  then have "drop (LDB_FOOTER_SIZE - 8) (ldb_footer_write x @ r) = ldb_fixed64_write LDB_TABLE_MAGIC @ r"
    unfolding w append.assoc [of "?h @ ?p"] by (rule drop_append_length)
  moreover have "ldb_footer_write x @ r = ldb_blockhandle_write (ft_metaindex_handle x) @ ldb_blockhandle_write (ft_index_handle x)
      @ ?p @ ldb_fixed64_write LDB_TABLE_MAGIC @ r" unfolding w by simp
  moreover have "length (ldb_footer_write x @ r) = LDB_FOOTER_SIZE + length r" "drop LDB_FOOTER_SIZE (ldb_footer_write x @ r) = r" by simp_all
  ultimately show ?thesis unfolding ldb_footer_read_def by simp
qed

section \<open>Stored blocks are read back\<close>

lemma ldb_crc32c_mask_unmask [simp]: "ldb_crc32c_mask (ldb_crc32c_unmask masked) = masked"
proof -
  define rot where "rot = masked - crc32c_mask_delta"
  have "drop_bit 15 (drop_bit 17 rot OR push_bit 15 rot) OR push_bit 17 (drop_bit 17 rot OR push_bit 15 rot) = rot"
  proof (rule bit_word_eqI)
    fix n assume "n < LENGTH(32)"
    then show "bit (drop_bit 15 (drop_bit 17 rot OR push_bit 15 rot) OR push_bit 17 (drop_bit 17 rot OR push_bit 15 rot)) n = bit rot n"
      by (cases "n < 17") (auto simp: bit_simps)
  qed
  then show ?thesis by (simp add: ldb_crc32c_mask_def ldb_crc32c_unmask_def Let_def flip: rot_def) (simp add: rot_def)
qed

text \<open>The image of a stored block: the bytes, the type and the masked checksum of both.\<close>

definition block_trailer :: "bytes \<Rightarrow> compression \<Rightarrow> bytes" where
  "block_trailer data t = compression_code t # ldb_fixed32_write (ldb_crc32c_mask (ldb_crc32c_value (data @ [compression_code t])))"

lemma length_block_trailer [simp]: "length (block_trailer data t) = 5"
  by (simp add: block_trailer_def)

text \<open>The bytes \<^term>\<open>z\<close> of type \<^term>\<open>t\<close> are a stored form of \<^term>\<open>raw\<close>.\<close>

definition stored_as :: "bytes \<Rightarrow> compression \<Rightarrow> bytes \<Rightarrow> bool" where
  "stored_as z t raw \<longleftrightarrow> (case t of LDB_NO_COMPRESSION \<Rightarrow> z = raw | LDB_SNAPPY_COMPRESSION \<Rightarrow> snappy_decode z = Some raw)"

definition stores :: "bytes \<Rightarrow> blockhandle \<Rightarrow> bytes \<Rightarrow> bool" where
  "stores file h raw \<longleftrightarrow> (\<exists>pre z t post. file = pre @ z @ block_trailer z t @ post \<and> stored_as z t raw
     \<and> unat (bh_offset h) = length pre \<and> unat (bh_size h) = length z \<and> length z + 5 < 2 ^ 64)"

text \<open>A random access file over the bytes \<^term>\<open>contents\<close>.\<close>

locale random_file =
  fixes fl :: rafile and contents :: bytes
  assumes pread_law: "off \<le> length contents \<Longrightarrow> ra_pread fl n off = (LDB_OK, take n (drop off contents))"
begin

lemma read_block_unfold:
  assumes "unat (bh_offset h) \<le> length contents" "unat (bh_size h) + 5 < 2 ^ 64"
  shows "ldb_read_block fl opt h =
    (let n = unat (bh_size h); data = take (n + 5) (drop (unat (bh_offset h)) contents); z = take n data
     in if length data \<noteq> n + 5 then Some (Inl LDB_IOERR)
        else if ro_verify_checksums opt \<and> ldb_crc32c_unmask (ldb_fixed32_decode (drop (n + 1) data)) \<noteq> ldb_crc32c_value (take (n + 1) data)
        then Some (Inl LDB_CORRUPTION)
        else if data ! n = 0 then
          Some (Inr \<lparr>bc_data = z, bc_cachable = \<not> ra_mapped fl, bc_heap_allocated = \<not> ra_mapped fl\<rparr>)
        else if data ! n = 1 then
          (case snappy_decode z of None \<Rightarrow> Some (Inl LDB_CORRUPTION)
           | Some u \<Rightarrow> Some (Inr \<lparr>bc_data = u, bc_cachable = True, bc_heap_allocated = True\<rparr>))
        else Some (Inl LDB_CORRUPTION))"
proof -
  have len: "unat (bh_size h + word_of_nat LDB_BLOCK_TRAILER_SIZE) = unat (bh_size h) + 5"
    using assms(2) by (simp add: LDB_BLOCK_TRAILER_SIZE_def unat_word_ariths)
  have dec: "(case snappy_decode_size z of None \<Rightarrow> Some (Inl LDB_CORRUPTION)
      | Some ulength \<Rightarrow> (case snappy_decode z of None \<Rightarrow> Some (Inl LDB_CORRUPTION)
          | Some ubuf \<Rightarrow> Some (Inr (r\<lparr>bc_data := take ulength ubuf, bc_heap_allocated := True, bc_cachable := True\<rparr>))))
    = (case snappy_decode z of None \<Rightarrow> Some (Inl LDB_CORRUPTION)
       | Some ubuf \<Rightarrow> Some (Inr (r\<lparr>bc_data := ubuf, bc_heap_allocated := True, bc_cachable := True\<rparr>)))" for z and r :: blockcontents
    using snappy_decode_length [of z] by (auto split: option.splits)
  define data where "data = take (unat (bh_size h) + 5) (drop (unat (bh_offset h)) contents)"
  show ?thesis
    unfolding ldb_read_block_def Let_def len pread_law [OF assms(1)] prod.case dec data_def [symmetric]
    by (auto simp: ldb_blockcontents_init_def split: option.splits)
qed

lemma read_stored:
  assumes "stores contents h raw"
  shows "\<exists>c. ldb_read_block fl opt h = Some (Inr c) \<and> bc_data c = raw"
proof -
  obtain pre z t post where c: "contents = pre @ z @ block_trailer z t @ post" "stored_as z t raw"
    and h: "unat (bh_offset h) = length pre" "unat (bh_size h) = length z" "length z + 5 < 2 ^ 64"
    using assms by (auto simp: stores_def)
  let ?data = "take (length z + 5) (drop (unat (bh_offset h)) contents)"
  have data: "?data = z @ block_trailer z t" using c(1) h by simp
  have crc: "ldb_crc32c_unmask (ldb_fixed32_decode (drop (length z + 1) ?data)) = ldb_crc32c_value (take (length z + 1) ?data)"
    unfolding data using ldb_fixed32_decode_write [of _ "[]"] by (simp add: block_trailer_def)
  have off: "unat (bh_offset h) \<le> length contents" using c(1) h by simp
  show ?thesis
    unfolding read_block_unfold [OF off h(3) [folded h(2)]] Let_def h(2) crc unfolding data
    using c(2) by (cases t) (simp_all add: stored_as_def block_trailer_def nth_append)
qed

lemma read_verified:
  assumes "ldb_read_block fl opt h = Some (Inr c)" "ro_verify_checksums opt"
    and "unat (bh_offset h) \<le> length contents" "unat (bh_size h) + 5 < 2 ^ 64"
  shows "stores contents h (bc_data c)"
proof -
  define n where "n = unat (bh_size h)"
  define data where "data = take (n + 5) (drop (unat (bh_offset h)) contents)"
  define z where "z = take n data"
  note r = assms(1) [unfolded read_block_unfold [OF assms(3,4)], folded n_def, unfolded Let_def, folded data_def, folded z_def]
  have len: "length data = n + 5" and crc: "ldb_crc32c_unmask (ldb_fixed32_decode (drop (n + 1) data)) = ldb_crc32c_value (take (n + 1) data)"
    using r assms(2) by (auto split: if_splits)
  obtain t where t: "data ! n = compression_code t" "stored_as z t (bc_data c)"
    using r by (auto simp: stored_as_def split: if_splits option.splits intro: that [of LDB_NO_COMPRESSION] that [of LDB_SNAPPY_COMPRESSION])
  have take1: "take (n + 1) data = z @ [compression_code t]" using len t(1) by (simp add: z_def take_Suc_conv_app_nth)
  have "ldb_fixed32_decode (drop (n + 1) data) = ldb_crc32c_mask (ldb_crc32c_value (z @ [compression_code t]))"
    using crc unfolding take1 by (metis ldb_crc32c_mask_unmask)
  moreover have "4 \<le> length (drop (n + 1) data)" "length (drop (n + 1) data) = 4" using len by simp_all
  ultimately have "drop (n + 1) data = ldb_fixed32_write (ldb_crc32c_mask (ldb_crc32c_value (z @ [compression_code t])))"
    using ldb_fixed32_write_decode by (metis order.refl take_all)
  then have "data = z @ block_trailer z t"
    using take1 append_take_drop_id [of "n + 1" data] by (simp add: block_trailer_def)
  moreover have "contents = take (unat (bh_offset h)) contents @ data @ drop (n + 5) (drop (unat (bh_offset h)) contents)"
    unfolding data_def by (simp only: append_take_drop_id)
  ultimately have c: "contents = take (unat (bh_offset h)) contents @ z @ block_trailer z t @ drop (n + 5) (drop (unat (bh_offset h)) contents)"
    by simp
  show ?thesis unfolding stores_def
    using t(2) assms(3,4) len
    by (intro exI [of _ "take (unat (bh_offset h)) contents"] exI [of _ z] exI [of _ t]
        exI [of _ "drop (n + 5) (drop (unat (bh_offset h)) contents)"] conjI c) (simp_all add: n_def z_def)
qed

end

section \<open>Properties\<close>

text \<open>
  The fixed part of a table file: a footer has always the same size, and it is read back from the front of any bytes
  that start with it, together with what follows it; so are block handles, within their maximal length.
\<close>

theorem footer_roundtrip:
  "ldb_footer_read (ldb_footer_write x @ r) = Some (x, r) \<and> length (ldb_footer_write x) = LDB_FOOTER_SIZE
   \<and> ldb_blockhandle_read (ldb_blockhandle_write h @ r) = Some (h, r) \<and> length (ldb_blockhandle_write h) = ldb_blockhandle_size h
   \<and> ldb_blockhandle_size h \<le> LDB_BLOCKHANDLE_MAX"
  using length_blockhandle_write(1) [of h] blockhandle_read_write [of h r]
  by (simp add: footer_read_write ldb_blockhandle_size_def ldb_blockhandle_write_def ldb_varint64_size_write)

text \<open>
  C17. Reading with checksums accepts exactly the blocks that the file stores: the read succeeds with contents \<^term>\<open>raw\<close> just when the
  bytes at the handle are a stored form of them, plain or compressed, followed by their type and the checksum of both. Every other
  block is answered with an error.
\<close>

theorem read_block_exact:
  assumes "random_file file contents" "ro_verify_checksums options"
    and "unat (bh_offset h) \<le> length contents" "unat (bh_size h) + 5 < 2 ^ 64"
  shows "((\<exists>c. ldb_read_block file options h = Some (Inr c) \<and> bc_data c = raw) \<longleftrightarrow> stores contents h raw)
    \<and> ldb_read_block file options h \<noteq> None"
proof
  show "(\<exists>c. ldb_read_block file options h = Some (Inr c) \<and> bc_data c = raw) \<longleftrightarrow> stores contents h raw"
    using random_file.read_stored [OF assms(1)] random_file.read_verified [OF assms(1) _ assms(2-4)] by blast
  show "ldb_read_block file options h \<noteq> None"
    using random_file.read_block_unfold [OF assms(1,3,4), of options] by (simp add: Let_def split: option.splits)
qed

text \<open>The memory of the program as a file.\<close>

definition bytes_file :: "bytes \<Rightarrow> rafile" where
  "bytes_file contents = \<lparr>ra_pread = (\<lambda>n off. (LDB_OK, take n (drop off contents))), ra_mapped = True\<rparr>"

interpretation bytes_file: random_file "bytes_file contents" contents for contents
  by unfold_locales (simp add: bytes_file_def)

theorem read_block_exact_witness:
  "\<exists>c. ldb_read_block (bytes_file ([1, 2] @ [7, 8] @ block_trailer [7, 8] LDB_NO_COMPRESSION)) \<lparr>ro_verify_checksums = True, ro_fill_cache = True\<rparr>
      \<lparr>bh_offset = 2, bh_size = 2\<rparr> = Some (Inr c) \<and> bc_data c = [7, 8]"
proof -
  let ?f = "[1, 2] @ [7, 8] @ block_trailer [7, 8] LDB_NO_COMPRESSION" and ?h = "\<lparr>bh_offset = 2, bh_size = 2\<rparr> :: blockhandle"
  have "stores ?f ?h [7, 8]"
    unfolding stores_def
    by (intro exI [of _ "[1, 2]"] exI [of _ "[7, 8]"] exI [of _ LDB_NO_COMPRESSION] exI [of _ "[]"]) (simp add: stored_as_def)
  with read_block_exact [OF bytes_file.random_file_axioms, of "\<lparr>ro_verify_checksums = True, ro_fill_cache = True\<rparr>" ?h ?f "[7, 8]"]
  show ?thesis by simp
qed

text \<open>
  C34. The size of a handle is not checked before the size of the trailer is added to it: for the five largest sizes, which a corrupt index may
  hold, the sum wraps around, the short read looks complete, and the type of the block is read far outside the buffer.
\<close>

theorem read_block_wraps:
  assumes "random_file file contents" "2 ^ 64 \<le> unat (bh_size h) + 5" "unat (bh_offset h) + 5 \<le> length contents"
  shows "ldb_read_block file options h = None"
proof -
  let ?len = "bh_size h + word_of_nat LDB_BLOCK_TRAILER_SIZE"
  have len: "unat ?len = unat (bh_size h) + 5 - 2 ^ 64"
    using assms(2) unat_u64_less [of "bh_size h"]
    by (simp add: LDB_BLOCK_TRAILER_SIZE_def unat_word_ariths mod_eq_nat1E le_mod_geq)
  have pread: "ra_pread file (unat ?len) (unat (bh_offset h)) = (LDB_OK, take (unat ?len) (drop (unat (bh_offset h)) contents))"
    using assms(3) by (intro random_file.pread_law [OF assms(1)]) simp
  have "length (take (unat ?len) (drop (unat (bh_offset h)) contents)) = unat ?len" "unat ?len \<le> unat (bh_size h)"
    using len assms(2,3) unat_u64_less [of "bh_size h"] by auto
  then show ?thesis unfolding ldb_read_block_def Let_def pread prod.case by simp
qed

theorem read_block_wraps_witness:
  "ldb_read_block (bytes_file [0, 0, 0, 0, 0]) ldb_readopt_default \<lparr>bh_offset = 0, bh_size = - 5\<rparr> = None"
  by (rule read_block_wraps [OF bytes_file.random_file_axioms]) simp_all

end
