(* ===== verification/FilterBlock.thy ===== *)
theory FilterBlock
  imports Bloom
begin

text \<open>
  Filter blocks (\<^verbatim>\<open>src/src/table/filter_block.c\<close>): one filter for every 2 KiB of table file, built
  while the data blocks are written, and the reader that consults the filter of a block. The keys of
  the current filter are kept flattened, with the start of each; the filters are concatenated.
\<close>

abbreviation LDB_FILTER_BASE_LG :: nat where
  "LDB_FILTER_BASE_LG \<equiv> 11"

abbreviation LDB_FILTER_BASE :: nat where
  "LDB_FILTER_BASE \<equiv> 2048"

section \<open>The builder\<close>

record filterbuilder =
  fb_policy :: policy
  fb_keys :: bytes
  fb_start :: "nat list"
  fb_result :: bytes
  fb_filter_offsets :: "nat list"

definition ldb_filterbuilder_init :: "policy \<Rightarrow> filterbuilder" where
  "ldb_filterbuilder_init policy =
     \<lparr>fb_policy = policy, fb_keys = [], fb_start = [], fb_result = [], fb_filter_offsets = []\<rparr>"

definition ldb_filterbuilder_generate_filter :: "filterbuilder \<Rightarrow> filterbuilder" where
  "ldb_filterbuilder_generate_filter fb =
     (let num_keys = length (fb_start fb) in
      if num_keys = 0 then fb\<lparr>fb_filter_offsets := fb_filter_offsets fb @ [length (fb_result fb)]\<rparr>
      else
        (let start = fb_start fb @ [length (fb_keys fb)];
             tmp_keys = map (\<lambda>i. take (start ! (i + 1) - start ! i) (drop (start ! i) (fb_keys fb))) [0 ..< num_keys]
         in fb\<lparr>fb_filter_offsets := fb_filter_offsets fb @ [length (fb_result fb)],
               fb_result := fp_build (fb_policy fb) (fb_result fb) tmp_keys,
               fb_keys := [], fb_start := []\<rparr>))"

lemma generate_filter_offsets [simp]:
  "fb_filter_offsets (ldb_filterbuilder_generate_filter fb) = fb_filter_offsets fb @ [length (fb_result fb)]"
  by (simp add: ldb_filterbuilder_generate_filter_def Let_def)

function start_block_loop :: "nat \<Rightarrow> filterbuilder \<Rightarrow> filterbuilder" where
  "start_block_loop filter_index fb =
     (if filter_index > length (fb_filter_offsets fb)
      then start_block_loop filter_index (ldb_filterbuilder_generate_filter fb) else fb)"
  by pat_completeness auto
termination
  by (relation "measure (\<lambda>(i, fb). i - length (fb_filter_offsets fb))") auto

declare start_block_loop.simps [simp del]

definition ldb_filterbuilder_start_block_assert :: "filterbuilder \<Rightarrow> u64 \<Rightarrow> bool" where
  "ldb_filterbuilder_start_block_assert fb block_offset \<longleftrightarrow>
     unat block_offset div LDB_FILTER_BASE \<ge> length (fb_filter_offsets fb)"

definition ldb_filterbuilder_start_block :: "filterbuilder \<Rightarrow> u64 \<Rightarrow> filterbuilder" where
  "ldb_filterbuilder_start_block fb block_offset =
     (let filter_index = unat block_offset div LDB_FILTER_BASE in start_block_loop filter_index fb)"

definition ldb_filterbuilder_add_key :: "filterbuilder \<Rightarrow> bytes \<Rightarrow> filterbuilder" where
  "ldb_filterbuilder_add_key fb key =
     fb\<lparr>fb_start := fb_start fb @ [length (fb_keys fb)], fb_keys := fb_keys fb @ key\<rparr>"

definition ldb_filterbuilder_finish :: "filterbuilder \<Rightarrow> filterbuilder" where
  "ldb_filterbuilder_finish fb =
     (let fb = (if length (fb_start fb) > 0 then ldb_filterbuilder_generate_filter fb else fb);
          array_offset = length (fb_result fb);
          r = foldl (\<lambda>r x. r @ ldb_fixed32_write (word_of_nat x)) (fb_result fb) (fb_filter_offsets fb);
          r = r @ ldb_fixed32_write (word_of_nat array_offset)
      in fb\<lparr>fb_result := r @ [word_of_nat LDB_FILTER_BASE_LG]\<rparr>)"

section \<open>The reader\<close>

text \<open>
  The two pointers of the reader are the contents and the position of the offset array in it; a
  reader of a malformed block has no filters.
\<close>

record filterreader =
  fr_policy :: policy
  fr_data :: bytes
  fr_offset :: nat
  fr_num :: nat
  fr_base_lg :: nat

definition ldb_filterreader_init :: "policy \<Rightarrow> bytes \<Rightarrow> filterreader" where
  "ldb_filterreader_init policy contents =
     (let fr = \<lparr>fr_policy = policy, fr_data = [], fr_offset = 0, fr_num = 0, fr_base_lg = 0\<rparr>;
          n = length contents in
      if n < 5 then fr
      else
        (let fr = fr\<lparr>fr_base_lg := unat (contents ! (n - 1))\<rparr>;
             last_word = unat (ldb_fixed32_decode (drop (n - 5) contents)) in
         if last_word > n - 5 then fr
         else fr\<lparr>fr_data := contents, fr_offset := last_word, fr_num := (n - 5 - last_word) div 4\<rparr>))"

definition ldb_filterreader_matches :: "filterreader \<Rightarrow> u64 \<Rightarrow> bytes \<Rightarrow> bool" where
  "ldb_filterreader_matches fr block_offset key =
     (let index = unat (drop_bit (fr_base_lg fr) block_offset) in
      if index < fr_num fr then
        (let start = unat (ldb_fixed32_decode (drop (fr_offset fr + index * 4) (fr_data fr)));
             limit = unat (ldb_fixed32_decode (drop (fr_offset fr + index * 4 + 4) (fr_data fr))) in
         if start \<le> limit \<and> limit \<le> fr_offset fr then
           fp_match (fr_policy fr) (take (limit - start) (drop start (fr_data fr))) key
         else if start = limit then False
         else True)
      else True)"

section \<open>What a builder stands for\<close>

text \<open>
  \<^term>\<open>fb_state fb Fs ks\<close>: the builder has emitted a filter for each list of keys in \<^term>\<open>Fs\<close> and holds the
  pending keys \<^term>\<open>ks\<close>.
\<close>

definition filter_of :: "policy \<Rightarrow> bytes list \<Rightarrow> bytes" where
  "filter_of P ks = (if ks = [] then [] else fp_build P [] ks)"

definition offsets_of :: "nat list \<Rightarrow> nat list" where
  "offsets_of ls = map (\<lambda>i. sum_list (take i ls)) [0 ..< length ls]"

definition fb_state :: "policy \<Rightarrow> filterbuilder \<Rightarrow> bytes list list \<Rightarrow> bytes list \<Rightarrow> bool" where
  "fb_state P fb Fs ks \<longleftrightarrow> fb_policy fb = P
     \<and> fb_result fb = concat (map (filter_of P) Fs)
     \<and> fb_filter_offsets fb = offsets_of (map (length \<circ> filter_of P) Fs)
     \<and> fb_keys fb = concat ks \<and> fb_start fb = offsets_of (map length ks)"

lemma length_offsets_of [simp]: "length (offsets_of ls) = length ls"
  by (simp add: offsets_of_def)

lemma offsets_of_snoc: "offsets_of (ls @ [l]) = offsets_of ls @ [sum_list ls]"
  by (simp add: offsets_of_def)

lemma sum_list_lengths: "sum_list (map length xss) = length (concat xss)"
  by (induction xss) auto

lemma nth_offsets_of: "i < length ls \<Longrightarrow> offsets_of ls ! i = sum_list (take i ls)"
  by (simp add: offsets_of_def)

lemma nth_concat_slice:
  assumes "i < length xss"
  shows "take (length (xss ! i)) (drop (length (concat (take i xss))) (concat xss)) = xss ! i"
proof -
  have "concat xss = concat (take i xss) @ xss ! i @ concat (drop (Suc i) xss)"
    using assms by (metis append_take_drop_id concat.simps(2) concat_append Cons_nth_drop_Suc)
  then show ?thesis by simp
qed

lemma split_flattened_keys:
  assumes "start = offsets_of (map length ks) @ [length (concat ks)]"
  shows "map (\<lambda>i. take (start ! (i + 1) - start ! i) (drop (start ! i) (concat ks))) [0 ..< length ks] = ks"
proof (rule nth_equalityI)
  fix i assume "i < length (map (\<lambda>i. take (start ! (i + 1) - start ! i) (drop (start ! i) (concat ks))) [0 ..< length ks])"
  then have i: "i < length ks" by simp
  have start: "start ! j = length (concat (take j ks))" if "j \<le> length ks" for j
    using that assms
    by (cases "j = length ks") (simp_all add: nth_append nth_offsets_of take_map sum_list_lengths)
  have "concat (take (Suc i) ks) = concat (take i ks) @ ks ! i"
    using i by (simp add: take_Suc_conv_app_nth)
  then have "start ! (i + 1) - start ! i = length (ks ! i)" using start [of "Suc i"] start [of i] i by simp
  with i start [of i] nth_concat_slice [OF i] show
    "map (\<lambda>i. take (start ! (i + 1) - start ! i) (drop (start ! i) (concat ks))) [0 ..< length ks] ! i = ks ! i"
    by simp
qed simp

context filter_policy
begin

lemma fb_state_init: "fb_state P (ldb_filterbuilder_init P) [] []"
  by (simp add: fb_state_def ldb_filterbuilder_init_def offsets_of_def)

lemma fb_state_add: "fb_state P fb Fs ks \<Longrightarrow> fb_state P (ldb_filterbuilder_add_key fb k) Fs (ks @ [k])"
  by (simp add: fb_state_def ldb_filterbuilder_add_key_def offsets_of_snoc sum_list_lengths)

lemma fb_state_generate:
  assumes "fb_state P fb Fs ks"
  shows "fb_state P (ldb_filterbuilder_generate_filter fb) (Fs @ [ks]) []"
proof -
  have len: "sum_list (map (length \<circ> filter_of P) Fs) = length (concat (map (filter_of P) Fs))"
    by (simp flip: sum_list_lengths)
  show ?thesis
  proof (cases "ks = []")
    case True
    with assms len show ?thesis
      by (simp add: fb_state_def ldb_filterbuilder_generate_filter_def offsets_of_snoc filter_of_def)
  next
    case False
    note split = split_flattened_keys [OF refl, of ks]
    have "fp_build P (fb_result fb) ks = fb_result fb @ filter_of P ks"
      using False build_append [of "fb_result fb" ks] by (simp add: filter_of_def)
    with assms False len split show ?thesis
      by (simp add: fb_state_def ldb_filterbuilder_generate_filter_def offsets_of_snoc Let_def)
        (simp add: offsets_of_def)
  qed
qed

lemma fb_state_start_loop:
  "fb_state P fb Fs ks \<Longrightarrow> length Fs \<le> n \<Longrightarrow>
     fb_state P (start_block_loop n fb)
       (if length Fs = n then Fs else Fs @ ks # replicate (n - length Fs - 1) []) (if length Fs = n then ks else [])"
proof (induction n fb arbitrary: Fs ks rule: start_block_loop.induct)
  case (1 n fb)
  have len: "length (fb_filter_offsets fb) = length Fs" using "1.prems"(1) by (simp add: fb_state_def)
  show ?case
  proof (cases "length Fs = n")
    case True
    with len "1.prems" show ?thesis by (subst start_block_loop.simps) simp
  next
    case False
    with len "1.prems"(2) have less: "n > length (fb_filter_offsets fb)" by simp
    have "fb_state P (start_block_loop n (ldb_filterbuilder_generate_filter fb))
      (if length (Fs @ [ks]) = n then Fs @ [ks] else (Fs @ [ks]) @ [] # replicate (n - length (Fs @ [ks]) - 1) [])
      (if length (Fs @ [ks]) = n then [] else [])"
      by (rule "1.IH" [OF less fb_state_generate [OF "1.prems"(1)]]) (use less len in simp)
    moreover have "replicate (n - length Fs - 1) ([] :: bytes list)
        = (if length (Fs @ [ks]) = n then [] else [] # replicate (n - length (Fs @ [ks]) - 1) [])"
      using less len by (cases "n - length Fs - 1") auto
    ultimately show ?thesis using less len by (subst start_block_loop.simps) (simp split: if_splits)
  qed
qed

end

section \<open>Building and reading\<close>

text \<open>The calls a table builder makes for one data block: start it, then add its keys.\<close>

definition filter_add_block :: "filterbuilder \<Rightarrow> u64 \<times> bytes list \<Rightarrow> filterbuilder" where
  "filter_add_block fb b = foldl ldb_filterbuilder_add_key (ldb_filterbuilder_start_block fb (fst b)) (snd b)"

definition block_index :: "u64 \<Rightarrow> nat" where
  "block_index off = unat off div LDB_FILTER_BASE"

definition recorded :: "(u64 \<times> bytes list) list \<Rightarrow> bytes list list \<Rightarrow> bytes list \<Rightarrow> bool" where
  "recorded blocks Fs ks \<longleftrightarrow> (\<forall>(off, bk) \<in> set blocks.
     (if block_index off = length Fs then set bk \<subseteq> set ks
      else block_index off < length Fs \<and> set bk \<subseteq> set (Fs ! block_index off)))"

lemma recordedD:
  "recorded blocks Fs ks \<Longrightarrow> (off, bk) \<in> set blocks \<Longrightarrow>
     (if block_index off = length Fs then set bk \<subseteq> set ks
      else block_index off < length Fs \<and> set bk \<subseteq> set (Fs ! block_index off))"
  unfolding recorded_def by fast

lemma recorded_start:
  assumes "recorded blocks Fs ks" "length Fs \<le> n"
  shows "recorded blocks (if length Fs = n then Fs else Fs @ ks # replicate (n - length Fs - 1) [])
    (if length Fs = n then ks else [])"
proof (cases "length Fs = n")
  case False
  let ?Fs = "Fs @ ks # replicate (n - length Fs - 1) []"
  have len: "length ?Fs = n" using False assms(2) by simp
  have "block_index off < n \<and> set bk \<subseteq> set (?Fs ! block_index off)" if "(off, bk) \<in> set blocks" for off bk
    using recordedD [OF assms(1) that] assms(2) False
    by (cases "block_index off" "length Fs" rule: linorder_cases) (auto simp: nth_append)
  then have "recorded blocks ?Fs []" unfolding recorded_def len by fastforce
  with False show ?thesis by simp
qed (use assms in simp)

lemma recorded_snoc:
  "recorded blocks Fs ks \<Longrightarrow> block_index off = length Fs \<Longrightarrow> recorded (blocks @ [(off, bk)]) Fs (ks @ bk)"
  unfolding recorded_def by (force split: if_splits)

context filter_policy
begin

lemma fb_state_add_keys:
  "fb_state P fb Fs ks \<Longrightarrow> fb_state P (foldl ldb_filterbuilder_add_key fb bk) Fs (ks @ bk)"
proof (induction bk arbitrary: fb ks)
  case (Cons k bk)
  from Cons.IH [OF fb_state_add [OF Cons.prems]] show ?case by simp
qed simp

lemma filter_blocks_state:
  assumes "sorted (map (block_index \<circ> fst) blocks)"
  shows "\<exists>Fs ks. fb_state P (foldl filter_add_block (ldb_filterbuilder_init P) blocks) Fs ks \<and> recorded blocks Fs ks
    \<and> length Fs = (if blocks = [] then 0 else block_index (fst (last blocks)))"
  using assms
proof (induction blocks rule: rev_induct)
  case Nil
  then show ?case using fb_state_init by (auto simp: recorded_def)
next
  case (snoc b blocks)
  obtain off bk where b: "b = (off, bk)" by (cases b)
  let ?fb = "foldl filter_add_block (ldb_filterbuilder_init P) blocks" and ?n = "block_index off"
  from snoc obtain Fs ks where st: "fb_state P ?fb Fs ks" "recorded blocks Fs ks"
    "length Fs = (if blocks = [] then 0 else block_index (fst (last blocks)))" by (auto simp: sorted_append)
  have le: "length Fs \<le> ?n"
    using snoc.prems st(3) b by (cases blocks rule: rev_cases) (auto simp: sorted_append)
  define Fs' ks' where "Fs' = (if length Fs = ?n then Fs else Fs @ ks # replicate (?n - length Fs - 1) [])"
    and "ks' = (if length Fs = ?n then ks else [])"
  have st': "fb_state P (ldb_filterbuilder_start_block ?fb off) Fs' ks'"
    using fb_state_start_loop [OF st(1) le]
    by (simp add: ldb_filterbuilder_start_block_def Fs'_def ks'_def block_index_def)
  have rec: "recorded blocks Fs' ks'" unfolding Fs'_def ks'_def by (rule recorded_start [OF st(2) le])
  have len: "length Fs' = ?n" using le by (auto simp: Fs'_def)
  show ?case
    using fb_state_add_keys [OF st', of bk] recorded_snoc [OF rec len [symmetric], of bk] len b
    by (auto simp: filter_add_block_def [of _ "(off, bk)"])
qed

end

text \<open>Every word of the offset array and the one after it is the start of a filter.\<close>

lemma read_offset_word:
  fixes xss :: "bytes list" and r :: bytes
  defines "ls \<equiv> map length xss"
  assumes "i \<le> length xss" "length (concat xss) < 2 ^ 32"
  shows "unat (ldb_fixed32_decode (drop (i * 4)
      (fixed32_array (offsets_of ls) @ ldb_fixed32_write (word_of_nat (length (concat xss))) @ r)))
    = length (concat (take i xss))"
proof -
  have small: "length (concat (take i xss)) < 2 ^ 32"
    using assms(3) length_append [of "concat (take i xss)" "concat (drop i xss)"]
    by (simp flip: concat_append)
  show ?thesis
  proof (cases "i = length xss")
    case True
    then have "drop (i * 4) (fixed32_array (offsets_of ls) @ ldb_fixed32_write (word_of_nat (length (concat xss))) @ r)
        = ldb_fixed32_write (word_of_nat (length (concat xss))) @ r"
      by (simp add: ls_def)
    with small True show ?thesis by (simp add: unat_of_nat take_bit_nat_eq_self)
  next
    case False
    with assms(2) have i: "i < length (offsets_of ls)" by (simp add: ls_def)
    have "offsets_of ls ! i = length (concat (take i xss))"
      using False assms(2) by (simp add: ls_def nth_offsets_of take_map sum_list_lengths)
    with drop_fixed32_array [OF i, of "ldb_fixed32_write (word_of_nat (length (concat xss))) @ r"] small
    show ?thesis by (auto simp: unat_of_nat take_bit_nat_eq_self)
  qed
qed

lemma reader_of_finished:
  assumes c: "contents = concat xss @ fixed32_array (offsets_of (map length xss))
      @ ldb_fixed32_write (word_of_nat (length (concat xss))) @ [11]"
    and len: "length (concat xss) < 2 ^ 32" and i: "block_index off < length xss"
  shows "ldb_filterreader_matches (ldb_filterreader_init P contents) off key = fp_match P (xss ! block_index off) key"
proof -
  let ?D = "concat xss" and ?i = "block_index off"
  let ?A = "fixed32_array (offsets_of (map length xss))"
  let ?W = "ldb_fixed32_write (word_of_nat (length ?D))"
  have n: "length contents = length ?D + length xss * 4 + 5" by (simp add: c)
  have last: "contents ! (length contents - 1) = 11" by (simp add: c nth_append)
  have "drop (length contents - 5) contents = ?W @ [11]"
    unfolding n by (simp add: c)
  then have word: "unat (ldb_fixed32_decode (drop (length contents - 5) contents)) = length ?D"
    using len by (simp add: unat_of_nat take_bit_nat_eq_self)
  have fr: "ldb_filterreader_init P contents =
      \<lparr>fr_policy = P, fr_data = contents, fr_offset = length ?D, fr_num = length xss, fr_base_lg = 11\<rparr>"
    unfolding ldb_filterreader_init_def Let_def word last using n by simp
  have idx: "unat (drop_bit 11 off) = ?i" by (simp add: block_index_def unat_drop_bit_nat)
  have offs: "unat (ldb_fixed32_decode (drop (length ?D + j * 4) contents)) = length (concat (take j xss))"
    if "j \<le> length xss" for j
    using read_offset_word [OF that len, of "[11]"] by (simp add: c flip: drop_drop)
  have "concat (take (Suc ?i) xss) = concat (take ?i xss) @ xss ! ?i"
    using i by (simp add: take_Suc_conv_app_nth)
  moreover have "length (concat (take (Suc ?i) xss)) \<le> length ?D"
    using length_append [of "concat (take (Suc ?i) xss)" "concat (drop (Suc ?i) xss)"]
    by (simp flip: concat_append)
  moreover have "take (length (xss ! ?i)) (drop (length (concat (take ?i xss))) contents) = xss ! ?i"
  proof -
    have "contents = concat (take ?i xss) @ xss ! ?i @ concat (drop (Suc ?i) xss) @ ?A @ ?W @ [11]"
      unfolding c using i
      by (metis append.assoc append_take_drop_id concat.simps(2) concat_append Cons_nth_drop_Suc)
    then show ?thesis by simp
  qed
  ultimately show ?thesis
    using offs [of ?i] offs [of "Suc ?i"] i
    by (simp add: ldb_filterreader_matches_def fr idx Let_def add_ac)
qed

context filter_policy
begin

lemma filter_block_matches:
  assumes sorted: "sorted (map (block_index \<circ> fst) blocks)" and b: "(off, bk) \<in> set blocks" "k \<in> set bk" "ok k"
    and contents: "contents = fb_result (ldb_filterbuilder_finish (foldl filter_add_block (ldb_filterbuilder_init P) blocks))"
    and small: "length contents < 2 ^ 32"
  shows "ldb_filterreader_matches (ldb_filterreader_init P contents) off k"
proof -
  let ?fb = "foldl filter_add_block (ldb_filterbuilder_init P) blocks"
  obtain Fs ks where st: "fb_state P ?fb Fs ks" "recorded blocks Fs ks"
    using filter_blocks_state [OF sorted] by blast
  define Fs' where "Fs' = (if ks = [] then Fs else Fs @ [ks])"
  define fb' where "fb' = (if length (fb_start ?fb) > 0 then ldb_filterbuilder_generate_filter ?fb else ?fb)"
  have "fb_start ?fb = [] \<longleftrightarrow> ks = []" using st(1) by (simp add: fb_state_def offsets_of_def)
  then have st': "fb_state P fb' Fs' []"
    using fb_state_generate [OF st(1)] st(1) by (auto simp: fb'_def Fs'_def)
  let ?xss = "map (filter_of P) Fs'"
  have c: "contents = concat ?xss @ fixed32_array (offsets_of (map length ?xss))
      @ ldb_fixed32_write (word_of_nat (length (concat ?xss))) @ [11]"
    using st' unfolding contents ldb_filterbuilder_finish_def fb'_def [symmetric] Let_def
    by (simp add: fb_state_def foldl_fixed32_array comp_def)
  have i: "block_index off < length Fs'" "k \<in> set (Fs' ! block_index off)"
    using recordedD [OF st(2) b(1)] b(2) unfolding Fs'_def
    by (auto simp: nth_append split: if_splits)
  then have "fp_match P (?xss ! block_index off) k"
    using match_built [OF i(2) b(3)] by (auto simp: filter_of_def)
  with reader_of_finished [OF c] small i(1) show ?thesis by (simp add: c)
qed

end

section \<open>Properties\<close>

text \<open>
  C13. Filter blocks have no false negatives: when a table's data blocks are announced in the order of
  their offsets, each followed by its keys, the reader of the finished filter block (of less than 4
  GiB) lets every key of a block through at the block's offset. This holds for the policy that the
  database installs, a bloom filter of any size applied to user keys.
\<close>

theorem filter_block_no_false_negatives:
  assumes "sorted (map (unat \<circ> fst) blocks)" "(off, keys) \<in> set blocks" "k \<in> set keys"
    and "P = ldb_ifp_init (bloom_policy (ldb_bloom_init bits))"
    and "contents = fb_result (ldb_filterbuilder_finish (foldl filter_add_block (ldb_filterbuilder_init P) blocks))"
    and "length contents < 2 ^ 32"
  shows "ldb_filterreader_matches (ldb_filterreader_init P contents) off k"
proof -
  have "sorted (map (block_index \<circ> fst) blocks)"
    using assms(1) by (auto simp: sorted_wrt_map comp_def block_index_def div_le_mono elim: sorted_wrt_mono_rel [rotated])
  from created_ifp.filter_block_matches [OF this assms(2,3) TrueI assms(5) [unfolded assms(4)] assms(6)]
  show ?thesis by (simp add: assms(4))
qed

theorem filter_block_no_false_negatives_witness:
  "\<exists>contents. ldb_filterreader_matches
     (ldb_filterreader_init (ldb_ifp_init (bloom_policy (ldb_bloom_init 10))) contents) 100 (ldb_ikey_set [7] 1 LDB_TYPE_VALUE)"
proof -
  let ?P = "ldb_ifp_init (bloom_policy (ldb_bloom_init 10))" and ?k = "ldb_ikey_set [7] 1 LDB_TYPE_VALUE"
  let ?c = "fb_result (ldb_filterbuilder_finish (foldl filter_add_block (ldb_filterbuilder_init ?P) [(100, [?k])]))"
  have "length ?c < 2 ^ 32"
    by (simp add: filter_add_block_def ldb_filterbuilder_start_block_def start_block_loop.simps
        ldb_filterbuilder_init_def ldb_filterbuilder_add_key_def ldb_filterbuilder_finish_def
        ldb_filterbuilder_generate_filter_def Let_def ldb_ifp_init_def ldb_ifp_build_def bloom_policy_def
        bloom_build_def bloom_size_def ldb_bloom_init_def bloom_add_def)
  then show ?thesis
    using filter_block_no_false_negatives [of "[(100, [?k])]" 100 "[?k]" ?k ?P 10 ?c] by auto
qed

end
