(* ===== verification/TableBuilder.thy ===== *)
theory TableBuilder
  imports Format Block FilterBlock EnvMem
begin

text \<open>
  The table builder (\<^verbatim>\<open>src/src/table/table_builder.c\<close>) over any file: the operations \<^verbatim>\<open>ldb_wfile_append\<close> and
  \<^verbatim>\<open>ldb_wfile_flush\<close> are its arguments. \<^term>\<open>None\<close> is a failed assertion or a call of \<^verbatim>\<open>abort\<close>. The block builders of the
  source point to the options of the table builder; here they hold their restart interval, which a change of
  the options updates.
\<close>

section \<open>The builder\<close>

record 'f tablebuilder =
  tb_options :: dbopt
  tb_index_block_options :: dbopt
  tb_file :: 'f
  tb_offset :: u64
  tb_status :: status
  tb_data_block :: blockbuilder
  tb_index_block :: blockbuilder
  tb_last_key :: bytes
  tb_num_entries :: nat
  tb_closed :: bool
  tb_filter_block :: "filterbuilder option"
  tb_pending_index_entry :: bool
  tb_pending_handle :: blockhandle
  tb_compressed_output :: bytes

text \<open>The guarded forms of the operations that carry assertions.\<close>

definition block_add :: "dbopt \<Rightarrow> blockbuilder \<Rightarrow> bytes \<Rightarrow> bytes \<Rightarrow> blockbuilder option" where
  "block_add options bb key value =
     (if ldb_blockbuilder_add_assert (compare (opt_comparator options)) bb key then Some (ldb_blockbuilder_add bb key value) else None)"

definition filter_start :: "filterbuilder \<Rightarrow> u64 \<Rightarrow> filterbuilder option" where
  "filter_start fb offset =
     (if ldb_filterbuilder_start_block_assert fb offset then Some (ldb_filterbuilder_start_block fb offset) else None)"

definition handle_encoding :: "blockhandle \<Rightarrow> bytes option" where
  "handle_encoding h = (if ldb_blockhandle_write_assert h then Some (ldb_blockhandle_export [] h) else None)"

definition ldb_tablebuilder_init :: "dbopt \<Rightarrow> 'f \<Rightarrow> 'f tablebuilder option" where
  "ldb_tablebuilder_init options file =
     (let index_block_options = options\<lparr>opt_block_restart_interval := 1\<rparr>;
          tb = \<lparr>tb_options = options, tb_index_block_options = index_block_options, tb_file = file, tb_offset = 0, tb_status = LDB_OK,
                tb_data_block = ldb_blockbuilder_init (opt_block_restart_interval options),
                tb_index_block = ldb_blockbuilder_init (opt_block_restart_interval index_block_options),
                tb_last_key = [], tb_num_entries = 0, tb_closed = False, tb_filter_block = None, tb_pending_index_entry = False,
                tb_pending_handle = ldb_blockhandle_init, tb_compressed_output = []\<rparr>
      in case opt_filter_policy options of
           None \<Rightarrow> Some tb
         | Some policy \<Rightarrow>
             map_option (\<lambda>fb. tb\<lparr>tb_filter_block := Some fb\<rparr>) (filter_start (ldb_filterbuilder_init policy) 0))"

definition ldb_tablebuilder_ok :: "'f tablebuilder \<Rightarrow> bool" where
  "ldb_tablebuilder_ok tb \<longleftrightarrow> tb_status tb = LDB_OK"

text \<open>The comparators are compared by address; the caller says whether they are the same.\<close>

definition ldb_tablebuilder_change_options :: "'f tablebuilder \<Rightarrow> dbopt \<Rightarrow> bool \<Rightarrow> status \<times> 'f tablebuilder" where
  "ldb_tablebuilder_change_options tb options same_comparator =
     (if \<not> same_comparator then (LDB_INVALID, tb)
      else
        (LDB_OK, tb\<lparr>tb_options := options, tb_index_block_options := options\<lparr>opt_block_restart_interval := 1\<rparr>,
           tb_data_block := (tb_data_block tb)\<lparr>bb_interval := opt_block_restart_interval options\<rparr>,
           tb_index_block := (tb_index_block tb)\<lparr>bb_interval := 1\<rparr>\<rparr>))"

definition ldb_tablebuilder_write_raw_block ::
  "('f \<Rightarrow> bytes \<Rightarrow> status \<times> 'f) \<Rightarrow> 'f tablebuilder \<Rightarrow> bytes \<Rightarrow> compression \<Rightarrow> blockhandle \<times> 'f tablebuilder" where
  "ldb_tablebuilder_write_raw_block wappend tb block_contents type =
     (let handle = \<lparr>bh_offset = tb_offset tb, bh_size = word_of_nat (length block_contents)\<rparr>;
          (rc, file) = wappend (tb_file tb) block_contents;
          tb = tb\<lparr>tb_status := rc, tb_file := file\<rparr>
      in if tb_status tb = LDB_OK then
           (let trailer = [compression_code type];
                crc = ldb_crc32c_value block_contents;
                crc = ldb_crc32c_extend crc trailer;
                trailer = trailer @ ldb_fixed32_write (ldb_crc32c_mask crc);
                (rc, file) = wappend (tb_file tb) trailer;
                tb = tb\<lparr>tb_status := rc, tb_file := file\<rparr>
            in if tb_status tb = LDB_OK
               then (handle, tb\<lparr>tb_offset := tb_offset tb + word_of_nat (length block_contents + length trailer)\<rparr>)
               else (handle, tb))
         else (handle, tb))"

text \<open>The switch over the compression: the bytes to store, their type, and the buffer of the compressor.\<close>

definition compress_block :: "'f tablebuilder \<Rightarrow> bytes \<Rightarrow> (bytes \<times> compression \<times> 'f tablebuilder) option" where
  "compress_block tb raw =
     (case opt_compression (tb_options tb) of
        LDB_NO_COMPRESSION \<Rightarrow> Some (raw, LDB_NO_COMPRESSION, tb)
      | LDB_SNAPPY_COMPRESSION \<Rightarrow> do {
          _ \<leftarrow> snappy_encode_size (length raw);
          compressed \<leftarrow> snappy_encode raw;
          let tb = tb\<lparr>tb_compressed_output := compressed\<rparr>;
          if length compressed < length raw - length raw div 8 then Some (compressed, LDB_SNAPPY_COMPRESSION, tb)
          else Some (raw, LDB_NO_COMPRESSION, tb)
        })"

text \<open>\<^verbatim>\<open>ldb_tablebuilder_write_block\<close> on the finished contents of a block builder; the caller resets the builder.\<close>

definition ldb_tablebuilder_write_block ::
  "('f \<Rightarrow> bytes \<Rightarrow> status \<times> 'f) \<Rightarrow> 'f tablebuilder \<Rightarrow> blockbuilder \<Rightarrow> (blockhandle \<times> blockbuilder \<times> 'f tablebuilder) option" where
  "ldb_tablebuilder_write_block wappend tb block =
     (if \<not> ldb_tablebuilder_ok tb then None
      else do {
        let block = ldb_blockbuilder_finish block;
        let raw = bb_buffer block;
        (block_contents, type, tb) \<leftarrow> compress_block tb raw;
        let (handle, tb) = ldb_tablebuilder_write_raw_block wappend tb block_contents type;
        Some (handle, ldb_blockbuilder_reset block, tb)
      })"

definition ldb_tablebuilder_flush ::
  "('f \<Rightarrow> bytes \<Rightarrow> status \<times> 'f) \<Rightarrow> ('f \<Rightarrow> status \<times> 'f) \<Rightarrow> 'f tablebuilder \<Rightarrow> 'f tablebuilder option" where
  "ldb_tablebuilder_flush wappend wflush tb =
     (if tb_closed tb then None
      else if \<not> ldb_tablebuilder_ok tb then Some tb
      else if ldb_blockbuilder_empty (tb_data_block tb) then Some tb
      else if tb_pending_index_entry tb then None
      else do {
        (handle, block, tb) \<leftarrow> ldb_tablebuilder_write_block wappend tb (tb_data_block tb);
        let tb = tb\<lparr>tb_data_block := block, tb_pending_handle := handle\<rparr>;
        let tb =
          (if ldb_tablebuilder_ok tb then
             (let (rc, file) = wflush (tb_file tb) in tb\<lparr>tb_pending_index_entry := True, tb_status := rc, tb_file := file\<rparr>)
           else tb);
        (case tb_filter_block tb of
           None \<Rightarrow> Some tb
         | Some fb \<Rightarrow> map_option (\<lambda>fb. tb\<lparr>tb_filter_block := Some fb\<rparr>) (filter_start fb (tb_offset tb)))
      })"

text \<open>
  The index entry of the block before: its key is at or past every key of that block, and below every key that follows.
\<close>

definition add_index_entry :: "'f tablebuilder \<Rightarrow> bytes \<Rightarrow> 'f tablebuilder option" where
  "add_index_entry tb key = do {
     encoding \<leftarrow> handle_encoding (tb_pending_handle tb);
     index_block \<leftarrow> block_add (tb_index_block_options tb) (tb_index_block tb) key encoding;
     Some (tb\<lparr>tb_last_key := key, tb_index_block := index_block, tb_pending_index_entry := False\<rparr>)
   }"

definition ldb_tablebuilder_add ::
  "('f \<Rightarrow> bytes \<Rightarrow> status \<times> 'f) \<Rightarrow> ('f \<Rightarrow> status \<times> 'f) \<Rightarrow> 'f tablebuilder \<Rightarrow> bytes \<Rightarrow> bytes \<Rightarrow> 'f tablebuilder option" where
  "ldb_tablebuilder_add wappend wflush tb key value =
     (if tb_closed tb then None
      else if \<not> ldb_tablebuilder_ok tb then Some tb
      else if 0 < tb_num_entries tb \<and> \<not> compare (opt_comparator (tb_options tb)) key (tb_last_key tb) > 0 then None
      else do {
        tb \<leftarrow>
          (if tb_pending_index_entry tb then
             if \<not> ldb_blockbuilder_empty (tb_data_block tb) then None
             else add_index_entry tb (cmp_shortest_separator (opt_comparator (tb_options tb)) (tb_last_key tb) key)
           else Some tb);
        let tb = tb\<lparr>tb_filter_block := map_option (\<lambda>fb. ldb_filterbuilder_add_key fb key) (tb_filter_block tb)\<rparr>;
        let tb = tb\<lparr>tb_last_key := key, tb_num_entries := tb_num_entries tb + 1\<rparr>;
        data_block \<leftarrow> block_add (tb_options tb) (tb_data_block tb) key value;
        let tb = tb\<lparr>tb_data_block := data_block\<rparr>;
        if ldb_blockbuilder_size_estimate (tb_data_block tb) \<ge> opt_block_size (tb_options tb)
        then ldb_tablebuilder_flush wappend wflush tb
        else Some tb
      })"

definition ldb_tablebuilder_status :: "'f tablebuilder \<Rightarrow> status" where
  "ldb_tablebuilder_status tb = tb_status tb"

text \<open>The four parts of \<^verbatim>\<open>ldb_tablebuilder_finish\<close>: the filter block, the metaindex block, the index block and the footer.\<close>

definition finish_filter :: "('f \<Rightarrow> bytes \<Rightarrow> status \<times> 'f) \<Rightarrow> 'f tablebuilder \<Rightarrow> blockhandle \<times> 'f tablebuilder" where
  "finish_filter wappend tb =
     (case tb_filter_block tb of
        None \<Rightarrow> (ldb_blockhandle_init, tb)
      | Some fb \<Rightarrow>
          if ldb_tablebuilder_ok tb then
            (let fb = ldb_filterbuilder_finish fb
             in ldb_tablebuilder_write_raw_block wappend (tb\<lparr>tb_filter_block := Some fb\<rparr>) (fb_result fb) LDB_NO_COMPRESSION)
          else (ldb_blockhandle_init, tb))"

definition bytes_of_string :: "string \<Rightarrow> bytes" where
  "bytes_of_string s = map of_char s"

text \<open>The metaindex block maps the name of the filter to its handle; \<^term>\<open>Inl\<close> is the early return when the name is too long.\<close>

definition metaindex_block :: "'f tablebuilder \<Rightarrow> blockhandle \<Rightarrow> (status + blockbuilder) option" where
  "metaindex_block tb filter_handle =
     (let metaindex_block = ldb_blockbuilder_init (opt_block_restart_interval (tb_options tb))
      in case tb_filter_block tb of
           None \<Rightarrow> Some (Inr metaindex_block)
         | Some fb \<Rightarrow>
             (case ldb_bloom_name 72 (the (opt_filter_policy (tb_options tb))) of
                None \<Rightarrow> Some (Inl LDB_INVALID)
              | Some name \<Rightarrow> do {
                  encoding \<leftarrow> handle_encoding filter_handle;
                  map_option Inr (block_add (tb_options tb) metaindex_block (bytes_of_string name) encoding)
                }))"

definition finish_metaindex ::
  "('f \<Rightarrow> bytes \<Rightarrow> status \<times> 'f) \<Rightarrow> 'f tablebuilder \<Rightarrow> blockhandle \<Rightarrow> (status + blockhandle \<times> 'f tablebuilder) option" where
  "finish_metaindex wappend tb filter_handle =
     (if \<not> ldb_tablebuilder_ok tb then Some (Inr (\<lparr>bh_offset = 0, bh_size = 0\<rparr>, tb))
      else metaindex_block tb filter_handle \<bind> (\<lambda>r. case r of
          Inl rc \<Rightarrow> Some (Inl rc)
        | Inr block \<Rightarrow> do {
            (handle, _, tb) \<leftarrow> ldb_tablebuilder_write_block wappend tb block;
            Some (Inr (handle, tb))
          }))"

definition finish_index ::
  "('f \<Rightarrow> bytes \<Rightarrow> status \<times> 'f) \<Rightarrow> 'f tablebuilder \<Rightarrow> (blockhandle \<times> 'f tablebuilder) option" where
  "finish_index wappend tb =
     (if \<not> ldb_tablebuilder_ok tb then Some (\<lparr>bh_offset = 0, bh_size = 0\<rparr>, tb)
      else do {
        tb \<leftarrow>
          (if tb_pending_index_entry tb
           then add_index_entry tb (cmp_short_successor (opt_comparator (tb_options tb)) (tb_last_key tb))
           else Some tb);
        (handle, block, tb) \<leftarrow> ldb_tablebuilder_write_block wappend tb (tb_index_block tb);
        Some (handle, tb\<lparr>tb_index_block := block\<rparr>)
      })"

definition finish_footer ::
  "('f \<Rightarrow> bytes \<Rightarrow> status \<times> 'f) \<Rightarrow> 'f tablebuilder \<Rightarrow> footer \<Rightarrow> 'f tablebuilder option" where
  "finish_footer wappend tb footer =
     (if \<not> ldb_tablebuilder_ok tb then Some tb
      else if \<not> ldb_footer_write_assert footer then None
      else
        (let footer_encoding = ldb_footer_export [] footer;
             (rc, file) = wappend (tb_file tb) footer_encoding;
             tb = tb\<lparr>tb_status := rc, tb_file := file\<rparr>
         in if tb_status tb = LDB_OK then Some (tb\<lparr>tb_offset := tb_offset tb + word_of_nat (length footer_encoding)\<rparr>)
            else Some tb))"

definition ldb_tablebuilder_finish ::
  "('f \<Rightarrow> bytes \<Rightarrow> status \<times> 'f) \<Rightarrow> ('f \<Rightarrow> status \<times> 'f) \<Rightarrow> 'f tablebuilder \<Rightarrow> (status \<times> 'f tablebuilder) option" where
  "ldb_tablebuilder_finish wappend wflush tb = do {
     tb \<leftarrow> ldb_tablebuilder_flush wappend wflush tb;
     if tb_closed tb then None
     else do {
       let (filter_handle, tb) = finish_filter wappend (tb\<lparr>tb_closed := True\<rparr>);
       r \<leftarrow> finish_metaindex wappend tb filter_handle;
       (case r of
          Inl rc \<Rightarrow> Some (rc, tb)
        | Inr (metaindex_handle, tb) \<Rightarrow> do {
            (index_handle, tb) \<leftarrow> finish_index wappend tb;
            tb \<leftarrow> finish_footer wappend tb \<lparr>ft_metaindex_handle = metaindex_handle, ft_index_handle = index_handle\<rparr>;
            Some (tb_status tb, tb)
          })
     }
   }"

definition ldb_tablebuilder_abandon :: "'f tablebuilder \<Rightarrow> 'f tablebuilder option" where
  "ldb_tablebuilder_abandon tb = (if tb_closed tb then None else Some (tb\<lparr>tb_closed := True\<rparr>))"

definition ldb_tablebuilder_num_entries :: "'f tablebuilder \<Rightarrow> nat" where
  "ldb_tablebuilder_num_entries tb = tb_num_entries tb"

definition ldb_tablebuilder_file_size :: "'f tablebuilder \<Rightarrow> u64" where
  "ldb_tablebuilder_file_size tb = tb_offset tb"

section \<open>Sizes\<close>

text \<open>A bound for the size of a block with given entries.\<close>

definition entry_weight :: "kv \<Rightarrow> nat" where
  "entry_weight e = length (fst e) + length (snd e) + 19"

definition block_weight :: "kv list \<Rightarrow> nat" where
  "block_weight es = sum_list (map entry_weight es) + 8"

lemma length_entry_bytes_le: "length (entry_bytes s e) \<le> length (fst e) + length (snd e) + 15"
  using length_ldb_varint32_write [of "word_of_nat s"] length_ldb_varint32_write [of "word_of_nat (length (fst e) - s)"]
    length_ldb_varint32_write [of "word_of_nat (length (snd e))"]
  unfolding entry_bytes_def length_append length_drop by linarith

lemma length_entries_bytes_le: "length sh = length es \<Longrightarrow> length (entries_bytes es sh) + 4 * length es \<le> sum_list (map entry_weight es)"
proof (induction es sh rule: rev_induct2)
  case (4 e es s sh)
  then show ?case using length_entry_bytes_le [of s e] by (simp add: entries_bytes_snoc entry_weight_def)
qed (simp_all add: entries_bytes_def)

lemma length_restarts_le: "restarts_ok es sh rs \<Longrightarrow> length rs \<le> length es + 1"
proof -
  assume r: "restarts_ok es sh rs"
  have "distinct rs" using r by (simp add: restarts_ok_def strict_sorted_iff)
  then have "length rs = card (set rs)" by (simp add: distinct_card)
  also have "\<dots> \<le> card {0..length es}" using restarts_bound [OF r] by (intro card_mono) auto
  finally show ?thesis by simp
qed

lemma bb_image_weight: "bb_state bb es sh rs \<Longrightarrow> length (block_image es sh rs) \<le> block_weight es"
  using length_entries_bytes_le [of sh es] length_restarts_le [of es sh rs]
  by (simp add: bb_state_def shares_ok_def block_image_def block_weight_def)

lemma bb_image_ok: "bb_state bb es sh rs \<Longrightarrow> block_weight es < 2 ^ 32 \<Longrightarrow> image_ok es sh rs"
  using bb_image_weight [of bb es sh rs] by (simp add: image_ok_def bb_state_def)

section \<open>Writing blocks\<close>

lemma compress_block_stored:
  assumes "length raw < 2 ^ 30"
  shows "\<exists>z t co. compress_block tb raw = Some (z, t, tb\<lparr>tb_compressed_output := co\<rparr>) \<and> stored_as z t raw \<and> length z \<le> length raw"
proof (cases "opt_compression (tb_options tb)")
  case LDB_NO_COMPRESSION
  then show ?thesis
    by (intro exI [of _ raw] exI [of _ compression.LDB_NO_COMPRESSION] exI [of _ "tb_compressed_output tb"])
      (simp add: stored_as_def compress_block_def)
next
  case LDB_SNAPPY_COMPRESSION
  have "length raw < 1073741824" "6 * (length raw div 6) \<le> length raw" using assms by simp_all
  then have "length raw + length raw div 6 \<le> 2147483615" by linarith
  then obtain m where m: "snappy_encode_size (length raw) = Some m" by (simp add: snappy_encode_size_def Let_def)
  obtain z where z: "snappy_encode raw = Some z" "snappy_decode z = Some raw" using snappy_lossless [OF m] by blast
  show ?thesis
  proof (cases "length z < length raw - length raw div 8")
    case True
    then show ?thesis using LDB_SNAPPY_COMPRESSION m z
      by (intro exI [of _ z] exI [of _ compression.LDB_SNAPPY_COMPRESSION] exI [of _ z]) (simp add: stored_as_def compress_block_def)
  next
    case False
    then show ?thesis using LDB_SNAPPY_COMPRESSION m z
      by (intro exI [of _ raw] exI [of _ compression.LDB_NO_COMPRESSION] exI [of _ z]) (simp add: stored_as_def compress_block_def)
  qed
qed

context append_file
begin

text \<open>A builder whose file is usable and whose offset is the length of the file.\<close>

definition tb_open :: "'f tablebuilder \<Rightarrow> bool" where
  "tb_open tb \<longleftrightarrow> tb_status tb = LDB_OK \<and> live (tb_file tb) \<and> unat (tb_offset tb) = length (contents (tb_file tb))"

abbreviation tb_contents :: "'f tablebuilder \<Rightarrow> bytes" where
  "tb_contents tb \<equiv> contents (tb_file tb)"

lemma write_raw_block_stores:
  assumes open': "tb_open tb" and room: "length (tb_contents tb) + length z + 5 < 2 ^ 64" and st: "stored_as z t raw"
  shows "\<exists>h f off. ldb_tablebuilder_write_raw_block app tb z t = (h, tb\<lparr>tb_file := f, tb_offset := off\<rparr>)
    \<and> tb_open (tb\<lparr>tb_file := f, tb_offset := off\<rparr>) \<and> contents f = tb_contents tb @ z @ block_trailer z t
    \<and> stores (contents f) h raw \<and> bh_offset h = tb_offset tb \<and> unat (bh_size h) = length z"
proof -
  let ?tr = "[compression_code t] @ ldb_fixed32_write (ldb_crc32c_mask (ldb_crc32c_extend (ldb_crc32c_value z) [compression_code t]))"
  obtain f1 where f1: "app (tb_file tb) z = (LDB_OK, f1)" "live f1" "contents f1 = tb_contents tb @ z"
    using app_law [of "tb_file tb" z] open' by (auto simp: tb_open_def)
  obtain f2 where f2: "app f1 ?tr = (LDB_OK, f2)" "live f2" "contents f2 = contents f1 @ ?tr" using app_law [OF f1(2)] by blast
  have tr: "?tr = block_trailer z t" by (simp add: block_trailer_def ldb_crc32c_value_def ldb_crc32c_extend_append)
  let ?off = "tb_offset tb + word_of_nat (length z + length ?tr)" and ?h = "\<lparr>bh_offset = tb_offset tb, bh_size = word_of_nat (length z)\<rparr>"
  let ?tb = "tb\<lparr>tb_file := f2, tb_offset := ?off\<rparr>"
  have off: "unat (tb_offset tb) = length (tb_contents tb)" "tb_status tb = LDB_OK" using open' by (simp_all add: tb_open_def)
  have c: "contents f2 = tb_contents tb @ z @ block_trailer z t" using f1(3) f2(3) tr by simp
  have "unat ?off = length (contents f2)"
    using room off(1) by (simp add: c unat_word_ariths unat_of_nat)
  then have "tb_open ?tb" using off f2(2) by (simp add: tb_open_def)
  moreover have sz: "unat (bh_size ?h) = length z" using room by (simp add: unat_of_nat)
  moreover have "stores (contents f2) ?h raw"
    unfolding stores_def c using st sz room off(1) by (intro exI [of _ "tb_contents tb"] exI [of _ z] exI [of _ t] exI [of _ "[]"]) simp
  moreover have "ldb_tablebuilder_write_raw_block app tb z t = (?h, ?tb)"
    unfolding ldb_tablebuilder_write_raw_block_def Let_def f1(1) prod.case using f2(1) off(2) by simp
  ultimately show ?thesis using c by (intro exI [of _ ?h] exI [of _ f2] exI [of _ ?off]) simp
qed

lemma write_block_stores:
  assumes open': "tb_open tb" and bb: "bb_state block es sh rs" and small: "block_weight es < 2 ^ 30"
    and room: "length (tb_contents tb) + block_weight es + 5 < 2 ^ 64"
  shows "\<exists>h f off co block'. ldb_tablebuilder_write_block app tb block
      = Some (h, block', tb\<lparr>tb_compressed_output := co, tb_file := f, tb_offset := off\<rparr>)
    \<and> tb_open (tb\<lparr>tb_compressed_output := co, tb_file := f, tb_offset := off\<rparr>) \<and> bb_state block' [] [] [0] \<and> bb_interval block' = bb_interval block
    \<and> (\<exists>z. contents f = tb_contents tb @ z \<and> length z \<le> block_weight es + 5)
    \<and> stores (contents f) h (block_image es sh rs) \<and> bh_offset h = tb_offset tb \<and> unat (bh_size h) \<le> block_weight es"
proof -
  let ?raw = "block_image es sh rs"
  have raw: "bb_buffer (ldb_blockbuilder_finish block) = ?raw" by (rule bb_finish_image [OF bb])
  have len: "length ?raw \<le> block_weight es" by (rule bb_image_weight [OF bb])
  have ok: "ldb_tablebuilder_ok tb" using open' by (simp add: ldb_tablebuilder_ok_def tb_open_def)
  have bb': "bb_state (ldb_blockbuilder_reset (ldb_blockbuilder_finish block)) [] [] [0]"
    using bb by (simp add: bb_state_def ldb_blockbuilder_reset_def ldb_blockbuilder_finish_def Let_def shares_ok_def restarts_ok_def entries_bytes_def entry_off_def)
  have iv: "bb_interval (ldb_blockbuilder_reset (ldb_blockbuilder_finish block)) = bb_interval block"
    by (simp add: ldb_blockbuilder_reset_def ldb_blockbuilder_finish_def Let_def)
  have "length ?raw < 2 ^ 30" using len small by simp
  from compress_block_stored [OF this, of tb] obtain z t co where
    z: "compress_block tb ?raw = Some (z, t, tb\<lparr>tb_compressed_output := co\<rparr>)" "stored_as z t ?raw" "length z \<le> length ?raw" by blast
  have zt: "stored_as z t ?raw" "length z \<le> block_weight es" using z len by simp_all
  let ?tb = "tb\<lparr>tb_compressed_output := co\<rparr>"
  have "tb_open ?tb" "length (tb_contents ?tb) + length z + 5 < 2 ^ 64" using open' room zt(2) by (simp_all add: tb_open_def)
  from write_raw_block_stores [OF this zt(1)] obtain h f off where
    w: "ldb_tablebuilder_write_raw_block app ?tb z t = (h, ?tb\<lparr>tb_file := f, tb_offset := off\<rparr>)" "tb_open (?tb\<lparr>tb_file := f, tb_offset := off\<rparr>)"
    "contents f = tb_contents tb @ z @ block_trailer z t" "stores (contents f) h ?raw" "bh_offset h = tb_offset tb" "unat (bh_size h) = length z"
    by auto
  have "ldb_tablebuilder_write_block app tb block = Some (h, ldb_blockbuilder_reset (ldb_blockbuilder_finish block), ?tb\<lparr>tb_file := f, tb_offset := off\<rparr>)"
    unfolding ldb_tablebuilder_write_block_def Let_def raw using ok z(1) w(1) by simp
  moreover have "length (z @ block_trailer z t) \<le> block_weight es + 5" using zt(2) by simp
  ultimately show ?thesis using w(2-6) bb' iv zt(2) by (metis (no_types, lifting))
qed

end

section \<open>The size of the filter block\<close>

text \<open>What a filter builder has stored, with what its pending keys may still add; a filter for \<^term>\<open>n\<close> keys has at most \<^term>\<open>fsz * (1 + n)\<close> bytes.\<close>

definition filter_size :: "nat \<Rightarrow> filterbuilder \<Rightarrow> nat" where
  "filter_size fsz fb = length (fb_result fb) + 2 * fsz * length (fb_start fb)"

context filter_policy
begin

lemma generate_filter_size:
  assumes "fb_policy fb = P" "\<And>ks. length (fp_build P [] ks) \<le> fsz * (1 + length ks)"
  shows "filter_size fsz (ldb_filterbuilder_generate_filter fb) \<le> filter_size fsz fb
    \<and> fb_policy (ldb_filterbuilder_generate_filter fb) = P"
proof (cases "fb_start fb = []")
  case False
  let ?ks = "map (\<lambda>i. take ((fb_start fb @ [length (fb_keys fb)]) ! (i + 1) - (fb_start fb @ [length (fb_keys fb)]) ! i)
      (drop ((fb_start fb @ [length (fb_keys fb)]) ! i) (fb_keys fb))) [0..<length (fb_start fb)]"
  have "fsz * (1 + length ?ks) \<le> 2 * fsz * length (fb_start fb)" using False by (cases "fb_start fb") simp_all
  with assms(2) [of ?ks] have "length (fp_build P [] ?ks) \<le> 2 * fsz * length (fb_start fb)" by (rule order.trans)
  then show ?thesis
    using False assms(1) arg_cong [OF build_append [of "fb_result fb" ?ks], of length]
    by (simp add: filter_size_def ldb_filterbuilder_generate_filter_def Let_def)
qed (use assms(1) in \<open>simp add: filter_size_def ldb_filterbuilder_generate_filter_def\<close>)

lemma start_block_size:
  assumes "fb_policy fb = P" "\<And>ks. length (fp_build P [] ks) \<le> fsz * (1 + length ks)"
  shows "filter_size fsz (start_block_loop n fb) \<le> filter_size fsz fb \<and> fb_policy (start_block_loop n fb) = P
    \<and> length (fb_filter_offsets (start_block_loop n fb)) = max n (length (fb_filter_offsets fb))"
  using assms(1)
proof (induction n fb rule: start_block_loop.induct)
  case (1 n fb)
  show ?case
  proof (cases "n > length (fb_filter_offsets fb)")
    case True
    note gen = generate_filter_size [OF "1.prems" assms(2)]
    have "start_block_loop n fb = start_block_loop n (ldb_filterbuilder_generate_filter fb)"
      using True by (subst start_block_loop.simps) simp
    with "1.IH" [OF True] gen True show ?thesis by simp
  qed (use "1.prems" in \<open>subst (1 2 3) start_block_loop.simps, simp\<close>)
qed

lemma add_keys_size:
  "filter_size fsz (foldl ldb_filterbuilder_add_key fb ks) = filter_size fsz fb + 2 * fsz * length ks
   \<and> fb_policy (foldl ldb_filterbuilder_add_key fb ks) = fb_policy fb
   \<and> fb_filter_offsets (foldl ldb_filterbuilder_add_key fb ks) = fb_filter_offsets fb"
  by (induction ks arbitrary: fb) (simp_all add: filter_size_def ldb_filterbuilder_add_key_def algebra_simps)

lemma filter_blocks_size:
  assumes "\<And>ks. length (fp_build P [] ks) \<le> fsz * (1 + length ks)"
  shows "sorted (map (unat \<circ> fst) blocks) \<Longrightarrow>
    filter_size fsz (foldl filter_add_block (ldb_filterbuilder_init P) blocks) \<le> 2 * fsz * length (concat (map snd blocks))
    \<and> fb_policy (foldl filter_add_block (ldb_filterbuilder_init P) blocks) = P
    \<and> (\<forall>off. (\<forall>b \<in> set blocks. fst b \<le> off) \<longrightarrow>
        length (fb_filter_offsets (foldl filter_add_block (ldb_filterbuilder_init P) blocks)) \<le> unat off div LDB_FILTER_BASE)"
proof (induction blocks rule: rev_induct)
  case Nil
  then show ?case by (simp add: filter_size_def ldb_filterbuilder_init_def)
next
  case (snoc b blocks)
  let ?fb = "foldl filter_add_block (ldb_filterbuilder_init P) blocks"
  have srt: "sorted (map (unat \<circ> fst) blocks)" "\<forall>a \<in> set blocks. fst a \<le> fst b"
    using snoc.prems by (auto simp: sorted_append word_le_nat_alt comp_def)
  note IH = snoc.IH [OF srt(1)]
  note st = start_block_size [of ?fb, OF _ assms, of "unat (fst b) div LDB_FILTER_BASE"]
  have "length (fb_filter_offsets ?fb) \<le> unat (fst b) div LDB_FILTER_BASE" using IH srt(2) by blast
  moreover have "unat (fst b) div LDB_FILTER_BASE \<le> unat off div LDB_FILTER_BASE" if "fst b \<le> off" for off
    using that by (simp add: div_le_mono word_le_nat_alt)
  moreover have "fb_policy ?fb = P" using IH by blast
  note st [OF this]
  moreover note add_keys_size [of fsz "start_block_loop (unat (fst b) div LDB_FILTER_BASE) ?fb" "snd b"]
  moreover have "foldl filter_add_block (ldb_filterbuilder_init P) (blocks @ [b])
      = foldl ldb_filterbuilder_add_key (start_block_loop (unat (fst b) div LDB_FILTER_BASE) ?fb) (snd b)"
    by (simp add: filter_add_block_def ldb_filterbuilder_start_block_def)
  moreover have "length (concat (map snd (blocks @ [b]))) = length (concat (map snd blocks)) + length (snd b)" by simp
  ultimately show ?case using IH by (simp only: distrib_left) auto
qed

lemma filter_finish_size:
  assumes "fb_policy fb = P" "\<And>ks. length (fp_build P [] ks) \<le> fsz * (1 + length ks)"
  shows "length (fb_result (ldb_filterbuilder_finish fb)) \<le> filter_size fsz fb + 4 * length (fb_filter_offsets fb) + 9"
proof -
  let ?fb = "if length (fb_start fb) > 0 then ldb_filterbuilder_generate_filter fb else fb"
  have "filter_size fsz ?fb \<le> filter_size fsz fb" "length (fb_filter_offsets ?fb) \<le> length (fb_filter_offsets fb) + 1"
    using generate_filter_size [OF assms] by auto
  moreover have "length (fb_result (ldb_filterbuilder_finish fb)) = length (fb_result ?fb) + 4 * length (fb_filter_offsets ?fb) + 5"
    by (simp add: ldb_filterbuilder_finish_def Let_def foldl_fixed32_array)
  ultimately show ?thesis by (simp add: filter_size_def)
qed

end

section \<open>The contents of a table\<close>

text \<open>The calls of a client that builds a table.\<close>

fun tb_add_all ::
  "('f \<Rightarrow> bytes \<Rightarrow> status \<times> 'f) \<Rightarrow> ('f \<Rightarrow> status \<times> 'f) \<Rightarrow> 'f tablebuilder \<Rightarrow> kv list \<Rightarrow> 'f tablebuilder option" where
  "tb_add_all wappend wflush tb [] = Some tb"
| "tb_add_all wappend wflush tb ((k, v) # es) =
     ldb_tablebuilder_add wappend wflush tb k v \<bind> (\<lambda>tb. tb_add_all wappend wflush tb es)"

text \<open>A block that a file stores.\<close>

definition stores_entries :: "bytes \<Rightarrow> blockhandle \<Rightarrow> kv list \<Rightarrow> bool" where
  "stores_entries F h es \<longleftrightarrow> (\<exists>sh rs. image_ok es sh rs \<and> stores F h (block_image es sh rs))"

lemma stores_append: "stores F h raw \<Longrightarrow> stores (F @ x) h raw"
  unfolding stores_def by (metis append.assoc)

lemma stores_entries_append: "stores_entries F h es \<Longrightarrow> stores_entries (F @ x) h es"
  unfolding stores_entries_def using stores_append by blast

lemma stores_handle: "stores F h raw \<Longrightarrow> length F < 2 ^ 63 \<Longrightarrow> ldb_blockhandle_write_assert h"
  by (auto simp: stores_def ldb_blockhandle_write_assert_def word_unat_eq_iff unsigned_minus_1_eq_mask mask_eq_exp_minus_1)

lemma bb_state_empty: "bb_state bb es sh rs \<Longrightarrow> ldb_blockbuilder_empty bb \<longleftrightarrow> es = []"
proof -
  assume bb: "bb_state bb es sh rs"
  then have "length sh = length es" "bb_buffer bb = entries_bytes es sh" by (simp_all add: bb_state_def shares_ok_def)
  moreover have "ldb_varint32_write x \<noteq> []" for x using length_ldb_varint32_write [of x] by auto
  ultimately show ?thesis
    by (cases es; cases sh) (auto simp: ldb_blockbuilder_empty_def entries_bytes_def entry_bytes_def)
qed

lemma block_add_state:
  assumes bb: "bb_state bb es sh rs" and key: "es = [] \<or> compare (opt_comparator options) k (fst (last es)) > 0"
  shows "\<exists>bb' sh' rs'. block_add options bb k v = Some bb' \<and> bb_state bb' (es @ [(k, v)]) sh' rs'"
proof -
  have "ldb_blockbuilder_add_assert (compare (opt_comparator options)) bb k"
    using bb key bb_state_empty [OF bb] by (auto simp: ldb_blockbuilder_add_assert_def bb_state_def)
  with bb_state_add [OF bb, of k v] show ?thesis by (auto simp: block_add_def)
qed

text \<open>
  Clients look for an entry of the same class as a key: with the same user key, when the keys are internal keys, or the same key. The classes
  are intervals of the order, and a separator is not inside the class of the limit unless it is the start itself.
\<close>

locale key_classes = comparator_contract C ok
  for C :: comparator and ok :: "bytes \<Rightarrow> bool" +
  fixes same :: "bytes \<Rightarrow> bytes \<Rightarrow> bool"
  assumes same_trans: "same a b \<Longrightarrow> same b c \<Longrightarrow> same a c"
    and same_convex: "ok a \<Longrightarrow> ok b \<Longrightarrow> ok k \<Longrightarrow> compare C a b < 0 \<Longrightarrow> \<not> same a b \<Longrightarrow> same b k \<Longrightarrow> compare C a k < 0"
    and sep_same: "ok start \<Longrightarrow> ok limit \<Longrightarrow> ok k \<Longrightarrow> compare C start limit < 0 \<Longrightarrow> same limit k \<Longrightarrow> compare C start k < 0 \<Longrightarrow>
      compare C (cmp_shortest_separator C start limit) k < 0"

text \<open>
  The comparator, the file and the options of a builder; the separators that a comparator finds are not longer than the key they start from, and
  the filter policy keeps its contract.
\<close>

locale table_writer = key_classes C ok same + append_file app flush contents live
  for C :: comparator and ok :: "bytes \<Rightarrow> bool" and same :: "bytes \<Rightarrow> bytes \<Rightarrow> bool"
    and app :: "'f \<Rightarrow> bytes \<Rightarrow> status \<times> 'f" and flush :: "'f \<Rightarrow> status \<times> 'f" and contents :: "'f \<Rightarrow> bytes" and live :: "'f \<Rightarrow> bool" +
  fixes opts :: dbopt and fsz :: nat
  assumes opt_cmp: "opt_comparator opts = C"
    and interval: "1 \<le> opt_block_restart_interval opts"
    and sep_len: "length (cmp_shortest_separator C start limit) \<le> length start"
    and succ_len: "length (cmp_short_successor C key) \<le> length key"
    and policy: "opt_filter_policy opts = Some P \<Longrightarrow> filter_policy P ok"
    and policy_same: "opt_filter_policy opts = Some P \<Longrightarrow> same a b \<Longrightarrow> fp_match P fl a = fp_match P fl b"
    and policy_size: "opt_filter_policy opts = Some P \<Longrightarrow> length (fp_build P [] ks) \<le> fsz * (1 + length ks)"
    and policy_name: "opt_filter_policy opts = Some P \<Longrightarrow> length (fp_name P) \<le> 64"
begin

abbreviation less :: "kv \<Rightarrow> kv \<Rightarrow> bool" where
  "less a b \<equiv> compare C (fst a) (fst b) < 0"

text \<open>The index entries \<^term>\<open>idx\<close> of the first blocks among \<^term>\<open>bs\<close>, before the entries \<^term>\<open>cur\<close>.\<close>

definition idx_entry :: "kv \<Rightarrow> blockhandle \<times> kv list \<Rightarrow> kv list \<Rightarrow> bool" where
  "idx_entry e b rest \<longleftrightarrow> snd e = ldb_blockhandle_write (fst b) \<and> ok (fst e) \<and> length (fst e) \<le> length (fst (last (snd b)))
     \<and> (\<forall>a \<in> set (snd b). compare C (fst a) (fst e) \<le> 0) \<and> (\<forall>a \<in> set rest. less e a)
     \<and> (\<forall>a \<in> set rest. \<forall>k. ok k \<longrightarrow> same (fst a) k \<longrightarrow> compare C (fst (last (snd b))) k < 0 \<longrightarrow> compare C (fst e) k < 0)"

definition idx_ok :: "kv list \<Rightarrow> (blockhandle \<times> kv list) list \<Rightarrow> kv list \<Rightarrow> bool" where
  "idx_ok idx bs cur \<longleftrightarrow> length idx \<le> length bs
     \<and> (\<forall>i < length idx. idx_entry (idx ! i) (bs ! i) (concat (map snd (drop (Suc i) bs)) @ cur))"

definition all_entries :: "(blockhandle \<times> kv list) list \<Rightarrow> kv list \<Rightarrow> kv list" where
  "all_entries bs cur = concat (map snd bs) @ cur"

definition entries_ok :: "kv list \<Rightarrow> bool" where
  "entries_ok es \<longleftrightarrow> sorted_wrt less es \<and> (\<forall>e \<in> set es. ok (fst e))"

definition filter_blocks :: "(blockhandle \<times> kv list) list \<Rightarrow> (u64 \<times> bytes list) list" where
  "filter_blocks bs = map (\<lambda>(h, es). (bh_offset h, map fst es)) bs"

definition filter_inv :: "filterbuilder option \<Rightarrow> (blockhandle \<times> kv list) list \<Rightarrow> u64 \<Rightarrow> kv list \<Rightarrow> bool" where
  "filter_inv fb bs off cur \<longleftrightarrow>
     fb = map_option (\<lambda>P. foldl filter_add_block (ldb_filterbuilder_init P) (filter_blocks bs @ [(off, map fst cur)])) (opt_filter_policy opts)"

definition tb_inv :: "'f tablebuilder \<Rightarrow> (blockhandle \<times> kv list) list \<Rightarrow> kv list \<Rightarrow> bool" where
  "tb_inv tb bs cur \<longleftrightarrow> tb_open tb \<and> \<not> tb_closed tb \<and> tb_options tb = opts \<and> opt_comparator (tb_index_block_options tb) = C
     \<and> entries_ok (all_entries bs cur) \<and> tb_num_entries tb = length (all_entries bs cur)
     \<and> (all_entries bs cur \<noteq> [] \<longrightarrow> tb_last_key tb = fst (last (all_entries bs cur)))
     \<and> (\<exists>sh rs. bb_state (tb_data_block tb) cur sh rs)
     \<and> (\<forall>(h, es) \<in> set bs. es \<noteq> [] \<and> stores_entries (tb_contents tb) h es)
     \<and> length (tb_contents tb) \<le> sum_list (map (\<lambda>(h, es). block_weight es + 5) bs)
     \<and> (\<exists>idx sh rs. bb_state (tb_index_block tb) idx sh rs \<and> idx_ok idx bs cur
         \<and> length idx = length bs - (if tb_pending_index_entry tb then 1 else 0))
     \<and> (tb_pending_index_entry tb \<longrightarrow> bs \<noteq> [] \<and> cur = [] \<and> tb_pending_handle tb = fst (last bs))
     \<and> (\<not> tb_pending_index_entry tb \<longrightarrow> cur = [] \<longrightarrow> bs = [])
     \<and> filter_inv (tb_filter_block tb) bs (tb_offset tb) cur
     \<and> sorted_wrt (<) (map (unat \<circ> bh_offset \<circ> fst) bs @ [unat (tb_offset tb)])"

text \<open>A bound for the size of a whole table.\<close>

definition table_weight :: "kv list \<Rightarrow> nat" where
  "table_weight es = sum_list (map (\<lambda>e. 2 * length (fst e) + length (snd e) + 100 + 2 * fsz) es) + 1000"

lemma table_weight_append: "table_weight (xs @ ys) + 1000 = table_weight xs + table_weight ys"
  by (simp add: table_weight_def)

lemma block_weight_le: "block_weight es \<le> table_weight es"
proof -
  have "sum_list (map entry_weight es) \<le> sum_list (map (\<lambda>e. 2 * length (fst e) + length (snd e) + 100 + 2 * fsz) es)"
    by (rule sum_list_mono) (simp add: entry_weight_def)
  then show ?thesis by (simp add: block_weight_def table_weight_def)
qed

lemma table_weight_cur: "table_weight cur \<le> table_weight (all_entries bs cur)"
  by (simp add: table_weight_def all_entries_def)

lemma blocks_weight:
  assumes "\<forall>(h, es) \<in> set bs. es \<noteq> []"
  shows "sum_list (map (\<lambda>(h, es). block_weight es + 5) bs) + block_weight cur \<le> table_weight (all_entries bs cur)"
  using assms
proof (induction bs)
  case Nil
  then show ?case using block_weight_le by (simp add: all_entries_def)
next
  case (Cons b bs)
  obtain h es where b: "b = (h, es)" by (cases b)
  have "es \<noteq> []" using Cons.prems b by auto
  then obtain e es' where es: "es = e # es'" by (cases es) auto
  have "block_weight es + 5 \<le> table_weight es - 1000"
  proof -
    have "sum_list (map entry_weight es') \<le> sum_list (map (\<lambda>e. 2 * length (fst e) + length (snd e) + 100 + 2 * fsz) es')"
      by (rule sum_list_mono) (simp add: entry_weight_def)
    then show ?thesis by (simp add: es block_weight_def table_weight_def entry_weight_def)
  qed
  moreover have "table_weight (all_entries (b # bs) cur) = (table_weight es - 1000) + table_weight (all_entries bs cur)"
    by (simp add: b all_entries_def table_weight_def)
  ultimately show ?case using Cons by (simp add: b)
qed

lemma tb_inv_init:
  assumes "live f" "contents f = []"
  shows "\<exists>tb. ldb_tablebuilder_init opts f = Some tb \<and> tb_inv tb [] []"
proof -
  let ?bb = "\<lambda>n. ldb_blockbuilder_init n"
  note bb = bb_state_init [OF interval] bb_state_init [OF order.refl]
  have "filter_start (ldb_filterbuilder_init P) 0 = Some (foldl filter_add_block (ldb_filterbuilder_init P) [(0, [])])" for P
    by (simp add: filter_start_def ldb_filterbuilder_start_block_assert_def ldb_filterbuilder_init_def filter_add_block_def)
  then have "\<exists>tb. ldb_tablebuilder_init opts f = Some tb \<and> tb_open tb \<and> \<not> tb_closed tb \<and> tb_options tb = opts
      \<and> opt_comparator (tb_index_block_options tb) = C \<and> tb_num_entries tb = 0 \<and> tb_file tb = f \<and> tb_offset tb = 0
      \<and> tb_data_block tb = ?bb (opt_block_restart_interval opts) \<and> tb_index_block tb = ?bb 1 \<and> \<not> tb_pending_index_entry tb
      \<and> filter_inv (tb_filter_block tb) [] 0 []"
    using assms opt_cmp by (cases "opt_filter_policy opts") (simp_all add: ldb_tablebuilder_init_def Let_def tb_open_def filter_inv_def filter_blocks_def)
  then obtain tb where tb: "ldb_tablebuilder_init opts f = Some tb" "tb_open tb" "\<not> tb_closed tb" "tb_options tb = opts"
      "opt_comparator (tb_index_block_options tb) = C" "tb_num_entries tb = 0" "tb_file tb = f" "tb_offset tb = 0"
      "tb_data_block tb = ?bb (opt_block_restart_interval opts)" "tb_index_block tb = ?bb 1" "\<not> tb_pending_index_entry tb"
      "filter_inv (tb_filter_block tb) [] 0 []" by blast
  have "\<exists>sh rs. bb_state (tb_data_block tb) [] sh rs" "\<exists>idx sh rs. bb_state (tb_index_block tb) idx sh rs \<and> idx_ok idx [] [] \<and> length idx = 0"
    unfolding tb(9,10) using bb by (blast, auto simp: idx_ok_def)
  with tb assms(2) have "tb_inv tb [] []" by (simp add: tb_inv_def all_entries_def entries_ok_def)
  with tb(1) show ?thesis by blast
qed

lemma idx_ok_flush: "idx_ok idx bs cur \<Longrightarrow> idx_ok idx (bs @ [(h, cur)]) []"
  by (simp add: idx_ok_def nth_append)

text \<open>Everything that an index entry must stay below is below an entry that is added at the end.\<close>

lemma idx_ok_add:
  assumes idx: "idx_ok idx bs cur" and srt: "entries_ok (all_entries bs cur @ [e])"
    and later: "length idx < length bs \<or> cur \<noteq> [] \<or> idx = []" and ne: "\<forall>(h, es) \<in> set bs. es \<noteq> []"
  shows "idx_ok idx bs (cur @ [e])"
proof -
  have "less (idx ! i) e \<and> (\<forall>k. ok k \<longrightarrow> same (fst e) k \<longrightarrow> compare C (fst (last (snd (bs ! i)))) k < 0 \<longrightarrow> compare C (fst (idx ! i)) k < 0)"
    if i: "i < length idx" for i
  proof -
    have "concat (map snd (drop (Suc i) bs)) @ cur \<noteq> []"
    proof (cases "cur = []")
      case True
      then have "Suc i < length bs" using later i idx by (auto simp: idx_ok_def)
      then have "bs ! Suc i \<in> set (drop (Suc i) bs)" "bs ! Suc i \<in> set bs" by (metis Cons_nth_drop_Suc list.set_intros(1), simp)
      with ne show ?thesis by fastforce
    qed simp
    then obtain a where a: "a \<in> set (concat (map snd (drop (Suc i) bs)) @ cur)" by (metis ex_in_conv set_empty)
    then have ia: "less (idx ! i) a" "ok (fst (idx ! i))"
      and cls: "ok k \<Longrightarrow> same (fst a) k \<Longrightarrow> compare C (fst (last (snd (bs ! i)))) k < 0 \<Longrightarrow> compare C (fst (idx ! i)) k < 0" for k
      using idx i unfolding idx_ok_def idx_entry_def by blast+
    have "a \<in> set (all_entries bs cur)" using a by (auto simp: all_entries_def dest: in_set_dropD)
    then have ae: "less a e" "ok (fst a)" "ok (fst e)" using srt by (auto simp: entries_ok_def sorted_wrt_append)
    have "compare C (fst (idx ! i)) k < 0" if k: "ok k" "same (fst e) k" "compare C (fst (last (snd (bs ! i)))) k < 0" for k
    proof (cases "same (fst a) (fst e)")
      case True
      with cls [OF k(1) _ k(3)] k(2) same_trans show ?thesis by blast
    next
      case False
      from same_convex [OF ae(2,3) k(1) ae(1) False k(2)] ia ae k(1) cmp_less_trans show ?thesis by blast
    qed
    with ia ae cmp_less_trans show ?thesis by blast
  qed
  with idx show ?thesis unfolding idx_ok_def idx_entry_def by auto
qed

lemma filter_inv_size:
  assumes "filter_inv fb bs off cur" "opt_filter_policy opts = Some P" "sorted (map (unat \<circ> bh_offset \<circ> fst) bs @ [unat off])"
  shows "\<exists>b. fb = Some b \<and> fb_policy b = P \<and> filter_size fsz b \<le> 2 * fsz * length (all_entries bs cur)
    \<and> (\<forall>off'. off \<le> off' \<longrightarrow> length (fb_filter_offsets b) \<le> unat off' div LDB_FILTER_BASE)"
proof -
  let ?bl = "filter_blocks bs @ [(off, map fst cur)]" and ?b = "foldl filter_add_block (ldb_filterbuilder_init P) (filter_blocks bs @ [(off, map fst cur)])"
  have srt: "sorted (map (unat \<circ> fst) ?bl)" using assms(3) by (simp add: filter_blocks_def comp_def case_prod_beta)
  have keys: "length (concat (map snd ?bl)) = length (all_entries bs cur)"
    by (simp add: filter_blocks_def all_entries_def case_prod_beta comp_def length_concat)
  have "\<forall>b \<in> set ?bl. fst b \<le> off" using assms(3) by (auto simp: filter_blocks_def sorted_append word_le_nat_alt)
  then have le: "\<forall>b \<in> set ?bl. fst b \<le> off'" if "off \<le> off'" for off' using that by (meson order.trans)
  note sz = filter_policy.filter_blocks_size [OF policy [OF assms(2)] policy_size [OF assms(2)] srt, unfolded keys]
  moreover have "fb = Some ?b" using assms(1,2) by (simp add: filter_inv_def)
  ultimately show ?thesis using le by blast
qed

lemma filter_inv_flush:
  assumes "filter_inv fb bs (bh_offset h) cur" "sorted (map (unat \<circ> bh_offset \<circ> fst) bs @ [unat (bh_offset h)])" "bh_offset h \<le> off"
  shows "(fb = None \<longrightarrow> filter_inv None (bs @ [(h, cur)]) off [])
    \<and> (\<forall>b. fb = Some b \<longrightarrow> (\<exists>b'. filter_start b off = Some b' \<and> filter_inv (Some b') (bs @ [(h, cur)]) off []))"
proof (cases "opt_filter_policy opts")
  case None
  then show ?thesis using assms(1) by (simp add: filter_inv_def)
next
  case (Some P)
  from filter_inv_size [OF assms(1) Some assms(2)] assms(3) obtain b where b: "fb = Some b"
    "ldb_filterbuilder_start_block_assert b off" by (auto simp: ldb_filterbuilder_start_block_assert_def)
  with assms(1) Some show ?thesis
    by (auto simp: filter_inv_def filter_start_def filter_blocks_def filter_add_block_def)
qed

lemma tb_inv_flush:
  assumes inv: "tb_inv tb bs cur" and cur: "cur \<noteq> []" and small: "table_weight (all_entries bs cur) < 2 ^ 30"
  shows "\<exists>tb' h. ldb_tablebuilder_flush app flush tb = Some tb' \<and> tb_inv tb' (bs @ [(h, cur)]) []"
proof -
  note I = inv [unfolded tb_inv_def]
  have open': "tb_open tb" and np: "\<not> tb_pending_index_entry tb" and nc: "\<not> tb_closed tb" using I cur by auto
  obtain sh rs where bb: "bb_state (tb_data_block tb) cur sh rs" using I by blast
  obtain idx ish irs where idx: "bb_state (tb_index_block tb) idx ish irs" "idx_ok idx bs cur" "length idx = length bs" using I np by auto
  have ne: "\<forall>(h, es) \<in> set bs. es \<noteq> []" using I by auto
  note W = blocks_weight [OF ne, of cur]
  have len: "length (tb_contents tb) \<le> sum_list (map (\<lambda>(h, es). block_weight es + 5) bs)" using I by blast
  have "block_weight cur < 2 ^ 30" "length (tb_contents tb) + block_weight cur + 5 < 2 ^ 64" using W small len by simp_all
  from write_block_stores [OF open' bb this] obtain h f off co block' z where
    w: "ldb_tablebuilder_write_block app tb (tb_data_block tb) = Some (h, block', tb\<lparr>tb_compressed_output := co, tb_file := f, tb_offset := off\<rparr>)"
    and o2: "tb_open (tb\<lparr>tb_compressed_output := co, tb_file := f, tb_offset := off\<rparr>)" and bb': "bb_state block' [] [] [0]"
    and c: "contents f = tb_contents tb @ z" "length z \<le> block_weight cur + 5" and st: "stores (contents f) h (block_image cur sh rs)"
    and h: "bh_offset h = tb_offset tb" by blast
  obtain f' where f': "flush f = (LDB_OK, f')" "live f'" "contents f' = contents f" using flush_law [of f] o2 by (auto simp: tb_open_def)
  have off: "unat off = length (contents f)" "bh_offset h \<le> off" using o2 c(1) open' by (simp_all add: tb_open_def word_le_nat_alt h)
  have strict: "sorted_wrt (<) (map (unat \<circ> bh_offset \<circ> fst) bs @ [unat (tb_offset tb)])" and fi: "filter_inv (tb_filter_block tb) bs (tb_offset tb) cur"
    using I by blast+
  from strict have so: "sorted (map (unat \<circ> bh_offset \<circ> fst) bs @ [unat (tb_offset tb)])" by (rule strict_sorted_imp_sorted)
  define tb1 where "tb1 = tb\<lparr>tb_compressed_output := co, tb_offset := off, tb_data_block := block', tb_pending_handle := h,
      tb_pending_index_entry := True, tb_status := LDB_OK, tb_file := f'\<rparr>"
  have "ldb_tablebuilder_flush app flush tb = (case tb_filter_block tb of None \<Rightarrow> Some tb1
      | Some fb \<Rightarrow> map_option (\<lambda>fb. tb1\<lparr>tb_filter_block := Some fb\<rparr>) (filter_start fb off))"
    using nc np open' bb_state_empty [OF bb] cur w f'(1)
    by (simp add: ldb_tablebuilder_flush_def ldb_tablebuilder_ok_def tb_open_def tb1_def Let_def split: option.splits)
  moreover have "tb_filter_block tb = None \<Longrightarrow> tb1 = tb1\<lparr>tb_filter_block := None\<rparr>" by (cases tb) (simp add: tb1_def)
  ultimately obtain fb' where fl: "ldb_tablebuilder_flush app flush tb = Some (tb1\<lparr>tb_filter_block := fb'\<rparr>)" "filter_inv fb' (bs @ [(h, cur)]) off []"
    using filter_inv_flush [OF fi [folded h] so [folded h] off(2)] by (cases "tb_filter_block tb") auto
  let ?tb = "tb1\<lparr>tb_filter_block := fb'\<rparr>" and ?bs = "bs @ [(h, cur)]"
  have all: "all_entries ?bs [] = all_entries bs cur" by (simp add: all_entries_def)
  have "tb_open ?tb" using o2 f' off by (simp add: tb_open_def tb1_def)
  moreover have "\<forall>(h, es) \<in> set ?bs. es \<noteq> [] \<and> stores_entries (tb_contents ?tb) h es"
  proof -
    have "\<forall>(h, es) \<in> set bs. es \<noteq> [] \<and> stores_entries (tb_contents tb) h es" using I by blast
    moreover have "stores_entries (contents f) h cur"
      using bb_image_ok [OF bb] \<open>block_weight cur < 2 ^ 30\<close> st by (auto simp: stores_entries_def)
    ultimately show ?thesis using c(1) f'(3) cur by (auto simp: tb1_def stores_entries_append)
  qed
  moreover have "length (tb_contents ?tb) \<le> sum_list (map (\<lambda>(h, es). block_weight es + 5) ?bs)"
    using len c f'(3) by (simp add: tb1_def)
  moreover have "idx_ok idx ?bs []" using idx_ok_flush idx(2) by blast
  moreover have "unat (tb_offset tb) < unat off" using st off(1) unfolding h [symmetric] by (auto simp: stores_def)
  then have "sorted_wrt (<) (map (unat \<circ> bh_offset \<circ> fst) ?bs @ [unat off])"
    using strict by (auto simp: h sorted_wrt_append)
  ultimately have "tb_inv ?tb ?bs []"
    using I idx(1,3) bb' fl(2) cur unfolding tb_inv_def all by (auto simp: tb1_def)
  with fl(1) show ?thesis by blast
qed

lemma entries_ok_last:
  assumes "entries_ok es" "es \<noteq> []" "e \<in> set es"
  shows "compare C (fst e) (fst (last es)) \<le> 0"
proof (cases "e = last es")
  case True
  then show ?thesis using assms cmp_refl by (auto simp: entries_ok_def)
next
  case False
  have "es = butlast es @ [last es]" using assms(2) by simp
  then have "sorted_wrt less (butlast es @ [last es])" "e \<in> set (butlast es @ [last es])" using assms by (simp_all add: entries_ok_def)
  with False show ?thesis by (auto simp: sorted_wrt_append)
qed

lemma idx_ok_snoc:
  assumes "idx_ok idx bs cur" "length bs = Suc (length idx)" "idx_entry e (last bs) cur"
  shows "idx_ok (idx @ [e]) bs cur"
proof -
  have "bs \<noteq> []" using assms(2) by auto
  then have l: "bs ! length idx = last bs" "drop (Suc (length idx)) bs = []" using assms(2) by (simp_all add: last_conv_nth)
  have "idx_entry ((idx @ [e]) ! i) (bs ! i) (concat (map snd (drop (Suc i) bs)) @ cur)" if "i < Suc (length idx)" for i
  proof (cases "i = length idx")
    case True
    with l assms(3) show ?thesis by simp
  next
    case False
    with that assms(1) show ?thesis unfolding idx_ok_def by (simp add: nth_append)
  qed
  with assms(2) show ?thesis by (simp add: idx_ok_def)
qed

text \<open>A pending index entry can be added under any key between the last block and what follows.\<close>

lemma add_index_entry_ok:
  assumes inv: "tb_inv tb bs []" and pend: "tb_pending_index_entry tb" and key: "ok k" "length k \<le> length (tb_last_key tb)"
    and above: "compare C (tb_last_key tb) k \<le> 0" and below: "\<forall>e \<in> set cur. compare C k (fst e) < 0"
    and skip: "\<forall>e \<in> set cur. \<forall>k'. ok k' \<longrightarrow> same (fst e) k' \<longrightarrow> compare C (tb_last_key tb) k' < 0 \<longrightarrow> compare C k k' < 0"
    and old: "\<forall>idx. idx_ok idx bs [] \<longrightarrow> length idx < length bs \<longrightarrow> idx_ok idx bs cur"
    and small: "table_weight (all_entries bs []) < 2 ^ 30"
  shows "\<exists>ib idx sh rs. add_index_entry tb k = Some (tb\<lparr>tb_last_key := k, tb_index_block := ib, tb_pending_index_entry := False\<rparr>)
    \<and> bb_state ib idx sh rs \<and> idx_ok idx bs cur \<and> length idx = length bs"
proof -
  note I = inv [unfolded tb_inv_def]
  have bs: "bs \<noteq> []" "tb_pending_handle tb = fst (last bs)" using I pend by auto
  obtain idx sh rs where idx: "bb_state (tb_index_block tb) idx sh rs" "idx_ok idx bs []" "length idx = length bs - 1" using I pend by auto
  let ?l = "snd (last bs)" and ?h = "fst (last bs)"
  have l: "?l \<noteq> []" "stores_entries (tb_contents tb) ?h ?l" "\<forall>(h, es) \<in> set bs. es \<noteq> []"
    using I bs(1) last_in_set [OF bs(1)] by (cases "last bs"; fastforce)+
  have all: "all_entries bs [] = concat (map snd (butlast bs)) @ ?l"
    using arg_cong [OF append_butlast_last_id [OF bs(1)], of "\<lambda>bs. concat (map snd bs)"] by (simp add: all_entries_def)
  have last_key: "tb_last_key tb = fst (last ?l)" using I l(1) unfolding all by auto
  have ok: "entries_ok (all_entries bs [])" using I by blast
  then have okl: "entries_ok ?l" unfolding all by (auto simp: entries_ok_def sorted_wrt_append)
  have lk: "ok (fst (last ?l))" using okl l(1) by (auto simp: entries_ok_def)
  have small': "length (tb_contents tb) < 2 ^ 63"
    using I blocks_weight [OF l(3), of "[]"] small by (auto simp: all_entries_def)
  have "ldb_blockhandle_write_assert ?h" using l(2) stores_handle small' by (auto simp: stores_entries_def)
  then have enc: "handle_encoding (tb_pending_handle tb) = Some (ldb_blockhandle_write ?h)"
    by (simp add: handle_encoding_def bs(2) ldb_blockhandle_export_def)
  have "idx = [] \<or> compare C k (fst (last idx)) > 0"
  proof (cases "idx = []")
    case False
    then have "0 < length idx" by simp
    then have i: "length idx - 1 < length idx" "Suc (length idx - 1) < length bs" using idx(3) by linarith+
    have "Suc (length idx - 1) = length bs - 1" using i idx(3) by linarith
    then have "bs ! Suc (length idx - 1) = last bs" using bs(1) by (simp add: last_conv_nth)
    then have "last bs \<in> set (drop (Suc (length idx - 1)) bs)" using i by (metis Cons_nth_drop_Suc list.set_intros(1))
    moreover have "last ?l \<in> set ?l" using l(1) by simp
    ultimately have "less (idx ! (length idx - 1)) (last ?l)" "ok (fst (idx ! (length idx - 1)))"
      using idx(2) i(1) unfolding idx_ok_def by (auto simp: idx_entry_def)
    with above key lk have "compare C (fst (idx ! (length idx - 1))) k < 0"
      using cmp_less_le_trans unfolding last_key by blast
    then show ?thesis using cmp_swap False key \<open>ok (fst (idx ! (length idx - 1)))\<close> by (simp add: last_conv_nth)
  qed simp
  moreover have "opt_comparator (tb_index_block_options tb) = C" using I by blast
  ultimately obtain ib ish irs where ib: "block_add (tb_index_block_options tb) (tb_index_block tb) k (ldb_blockhandle_write ?h) = Some ib"
    "bb_state ib (idx @ [(k, ldb_blockhandle_write ?h)]) ish irs"
    using block_add_state [OF idx(1)] by metis
  have "idx_ok idx bs cur" using old idx(2,3) bs(1) by simp
  moreover have "length bs = Suc (length idx)" using idx(3) bs(1) by (cases bs) auto
  moreover have "compare C (fst e) k \<le> 0" if "e \<in> set ?l" for e
  proof -
    have "ok (fst e)" using okl that by (auto simp: entries_ok_def)
    with cmp_le_trans [OF _ lk key(1)] entries_ok_last [OF okl l(1) that] above show ?thesis unfolding last_key by blast
  qed
  ultimately have "idx_ok (idx @ [(k, ldb_blockhandle_write ?h)]) bs cur"
    using key below skip unfolding last_key by (intro idx_ok_snoc) (simp_all add: idx_entry_def)
  moreover have "length (idx @ [(k, ldb_blockhandle_write ?h)]) = length bs" using idx(3) bs(1) by (cases bs) auto
  moreover have "add_index_entry tb k = Some (tb\<lparr>tb_last_key := k, tb_index_block := ib, tb_pending_index_entry := False\<rparr>)"
    using enc ib(1) by (simp add: add_index_entry_def)
  ultimately show ?thesis using ib(2) by blast
qed

lemma filter_inv_add:
  "filter_inv fb bs off cur \<Longrightarrow> filter_inv (map_option (\<lambda>fb. ldb_filterbuilder_add_key fb k) fb) bs off (cur @ [(k, v)])"
  by (cases "opt_filter_policy opts") (auto simp: filter_inv_def filter_add_block_def)

lemma tb_inv_add:
  assumes inv: "tb_inv tb bs cur" and ok: "entries_ok (all_entries bs cur @ [(k, v)])"
    and small: "table_weight (all_entries bs cur @ [(k, v)]) < 2 ^ 30"
  shows "\<exists>tb' bs' cur'. ldb_tablebuilder_add app flush tb k v = Some tb' \<and> tb_inv tb' bs' cur'
    \<and> all_entries bs' cur' = all_entries bs cur @ [(k, v)]"
proof -
  note I = inv [unfolded tb_inv_def]
  let ?e = "(k, v)" and ?all = "all_entries bs cur"
  have st: "tb_status tb = LDB_OK" "\<not> tb_closed tb" "tb_options tb = opts" using I by (auto simp: tb_open_def)
  have smaller: "table_weight ?all < 2 ^ 30" using small by (simp add: table_weight_def)
  have kok: "ok k" using ok by (simp add: entries_ok_def)
  have last: "compare C (tb_last_key tb) k < 0" "ok (tb_last_key tb)" if "?all \<noteq> []"
  proof -
    have "last ?all \<in> set ?all" using that by simp
    then have "less (last ?all) ?e" "ok (fst (last ?all))" using ok by (auto simp: entries_ok_def sorted_wrt_append)
    then show "compare C (tb_last_key tb) k < 0" "ok (tb_last_key tb)" using I that by auto
  qed
  have asrt: "\<not> (0 < tb_num_entries tb \<and> \<not> compare (opt_comparator (tb_options tb)) k (tb_last_key tb) > 0)"
  proof (cases "?all = []")
    case False
    then have "compare C k (tb_last_key tb) > 0" using last cmp_swap kok by blast
    then show ?thesis by (simp add: st(3) opt_cmp)
  next
    case True
    then show ?thesis using I by simp
  qed
  have ne: "\<forall>(h, es) \<in> set bs. es \<noteq> []" using I by auto
  obtain sh rs where bb: "bb_state (tb_data_block tb) cur sh rs" using I by blast
  let ?pre = "if tb_pending_index_entry tb then
             if \<not> ldb_blockbuilder_empty (tb_data_block tb) then None
             else add_index_entry tb (cmp_shortest_separator (opt_comparator (tb_options tb)) (tb_last_key tb) k)
           else Some tb"
  have "\<exists>lk ib idx ish irs. ?pre = Some (tb\<lparr>tb_last_key := lk, tb_index_block := ib, tb_pending_index_entry := False\<rparr>)
      \<and> bb_state ib idx ish irs \<and> idx_ok idx bs (cur @ [?e]) \<and> length idx = length bs"
  proof (cases "tb_pending_index_entry tb")
    case True
    then have cur: "cur = []" "bs \<noteq> []" using I by auto
    have all: "?all \<noteq> []" using ne cur last_in_set [OF cur(2)] by (fastforce simp: all_entries_def)
    let ?s = "cmp_shortest_separator C (tb_last_key tb) k"
    have s: "compare C (tb_last_key tb) ?s \<le> 0" "compare C ?s k < 0" "ok ?s" using sep_range sep_ok last [OF all] kok by blast+
    have skip: "\<forall>k'. ok k' \<longrightarrow> same k k' \<longrightarrow> compare C (tb_last_key tb) k' < 0 \<longrightarrow> compare C ?s k' < 0"
      using sep_same last [OF all] kok by blast
    have "idx_ok idx bs [?e]" if "idx_ok idx bs []" "length idx < length bs" for idx
      using idx_ok_add [OF that(1), of ?e] that(2) ne ok cur(1) by simp
    then have "\<exists>ib idx ish irs. add_index_entry tb ?s = Some (tb\<lparr>tb_last_key := ?s, tb_index_block := ib, tb_pending_index_entry := False\<rparr>)
      \<and> bb_state ib idx ish irs \<and> idx_ok idx bs [?e] \<and> length idx = length bs"
      using add_index_entry_ok [OF inv [unfolded cur(1)] True s(3) sep_len s(1), of "[?e]"] s(2) skip smaller cur(1) by simp
    then show ?thesis using True bb_state_empty [OF bb] cur(1) by (simp add: st(3) opt_cmp) blast
  next
    case False
    obtain idx ish irs where idx: "bb_state (tb_index_block tb) idx ish irs" "idx_ok idx bs cur" "length idx = length bs" using I False by auto
    have "idx_ok idx bs (cur @ [?e])"
      by (rule idx_ok_add [OF idx(2) ok _ ne]) (use I False idx(3) in auto)
    moreover have "tb = tb\<lparr>tb_last_key := tb_last_key tb, tb_index_block := tb_index_block tb, tb_pending_index_entry := False\<rparr>"
      using False by (cases tb) simp
    then have "?pre = Some (tb\<lparr>tb_last_key := tb_last_key tb, tb_index_block := tb_index_block tb, tb_pending_index_entry := False\<rparr>)"
      by (simp only: False if_False)
    ultimately show ?thesis using idx(1,3) by blast
  qed
  then obtain lk ib idx ish irs where pre: "?pre = Some (tb\<lparr>tb_last_key := lk, tb_index_block := ib, tb_pending_index_entry := False\<rparr>)"
    and idx: "bb_state ib idx ish irs" "idx_ok idx bs (cur @ [?e])" "length idx = length bs" by blast
  have "cur = [] \<or> compare C k (fst (last cur)) > 0"
  proof (cases "cur = []")
    case False
    then have "last cur \<in> set ?all" by (simp add: all_entries_def)
    then have "less (last cur) ?e" "ok (fst (last cur))" using ok by (auto simp: entries_ok_def sorted_wrt_append)
    then show ?thesis using cmp_swap kok by simp
  qed simp
  then obtain db dsh drs where db: "block_add opts (tb_data_block tb) k v = Some db" "bb_state db (cur @ [?e]) dsh drs"
    using block_add_state [OF bb] opt_cmp by metis
  let ?tb = "tb\<lparr>tb_index_block := ib, tb_pending_index_entry := False,
      tb_filter_block := map_option (\<lambda>fb. ldb_filterbuilder_add_key fb k) (tb_filter_block tb), tb_last_key := k,
      tb_num_entries := tb_num_entries tb + 1, tb_data_block := db\<rparr>"
  have all: "all_entries bs (cur @ [?e]) = ?all @ [?e]" by (simp add: all_entries_def)
  have inv': "tb_inv ?tb bs (cur @ [?e])"
    using I idx db(2) ok filter_inv_add unfolding tb_inv_def all by (auto simp: tb_open_def)
  have "ldb_tablebuilder_add app flush tb k v =
      (if ldb_blockbuilder_size_estimate db \<ge> opt_block_size opts then ldb_tablebuilder_flush app flush ?tb else Some ?tb)"
    unfolding ldb_tablebuilder_add_def pre ldb_tablebuilder_ok_def if_not_P [OF asrt] using st db(1) by (simp add: Let_def)
  moreover obtain tb' h where "ldb_tablebuilder_flush app flush ?tb = Some tb'" "tb_inv tb' (bs @ [(h, cur @ [?e])]) []"
    using tb_inv_flush [OF inv' _ small [folded all]] by blast
  moreover have "all_entries (bs @ [(h, cur @ [?e])]) [] = ?all @ [?e]" by (simp add: all_entries_def)
  moreover have "ldb_tablebuilder_add app flush tb k v = Some (if ldb_blockbuilder_size_estimate db \<ge> opt_block_size opts then tb' else ?tb)"
    using calculation(1,2) by simp
  ultimately show ?thesis using inv' all by (metis (no_types, lifting))
qed

lemma tb_inv_add_all:
  "tb_inv tb bs cur \<Longrightarrow> entries_ok (all_entries bs cur @ es) \<Longrightarrow> table_weight (all_entries bs cur @ es) < 2 ^ 30 \<Longrightarrow>
    \<exists>tb' bs' cur'. tb_add_all app flush tb es = Some tb' \<and> tb_inv tb' bs' cur' \<and> all_entries bs' cur' = all_entries bs cur @ es"
proof (induction es arbitrary: tb bs cur)
  case (Cons e es)
  obtain k v where e: "e = (k, v)" by (cases e)
  have "entries_ok (all_entries bs cur @ [(k, v)])" "table_weight (all_entries bs cur @ [(k, v)]) < 2 ^ 30"
    using Cons.prems(2,3) by (auto simp: e entries_ok_def sorted_wrt_append table_weight_def)
  from tb_inv_add [OF Cons.prems(1) this] obtain tb' bs' cur' where
    "ldb_tablebuilder_add app flush tb k v = Some tb'" "tb_inv tb' bs' cur'" "all_entries bs' cur' = all_entries bs cur @ [(k, v)]" by blast
  with Cons.IH [of tb' bs' cur'] Cons.prems(2,3) show ?case by (simp add: e)
qed auto

text \<open>The contents of a finished table with the blocks \<^term>\<open>bs\<close>.\<close>

definition filter_contents :: "policy \<Rightarrow> (blockhandle \<times> kv list) list \<Rightarrow> u64 \<Rightarrow> bytes" where
  "filter_contents P bs off =
     fb_result (ldb_filterbuilder_finish (foldl filter_add_block (ldb_filterbuilder_init P) (filter_blocks bs @ [(off, [])])))"

definition meta_ok :: "bytes \<Rightarrow> (blockhandle \<times> kv list) list \<Rightarrow> kv list \<Rightarrow> bool" where
  "meta_ok F bs meta \<longleftrightarrow> (case opt_filter_policy opts of None \<Rightarrow> meta = []
     | Some P \<Rightarrow> \<exists>fh off. meta = [(bytes_of_string (''filter.'' @ fp_name P), ldb_blockhandle_write fh)]
         \<and> stores F fh (filter_contents P bs off) \<and> length (filter_contents P bs off) < 2 ^ 32
         \<and> sorted (map (unat \<circ> bh_offset \<circ> fst) bs @ [unat off]))"

definition table_file :: "bytes \<Rightarrow> (blockhandle \<times> kv list) list \<Rightarrow> bool" where
  "table_file F bs \<longleftrightarrow> (\<exists>pre ft idx meta. F = pre @ ldb_footer_write ft
     \<and> stores_entries F (ft_index_handle ft) idx \<and> length idx = length bs \<and> idx_ok idx bs []
     \<and> (\<forall>(h, es) \<in> set bs. es \<noteq> [] \<and> stores_entries F h es) \<and> distinct (map (bh_offset \<circ> fst) bs)
     \<and> stores_entries F (ft_metaindex_handle ft) meta \<and> meta_ok F bs meta)"

lemma meta_ok_append: "meta_ok F bs meta \<Longrightarrow> meta_ok (F @ x) bs meta"
  unfolding meta_ok_def using stores_append by (cases "opt_filter_policy opts") fastforce+

lemma idx_ok_Cons: "idx_ok (e # idx) (b # bs) cur \<longleftrightarrow> idx_entry e b (concat (map snd bs) @ cur) \<and> idx_ok idx bs cur"
  unfolding idx_ok_def by (auto simp: less_Suc_eq_0_disj)

lemma idx_weight:
  assumes "idx_ok idx bs cur" "\<forall>(h, es) \<in> set bs. es \<noteq> []"
  shows "block_weight idx \<le> table_weight (all_entries bs cur)"
proof -
  let ?w = "\<lambda>e :: kv. length (fst e) + 39"
  have "sum_list (map entry_weight idx) \<le> sum_list (map ?w (concat (map snd bs)))"
    using assms
  proof (induction idx arbitrary: bs)
    case (Cons e idx)
    then obtain b bs' where bs: "bs = b # bs'" by (cases bs) (auto simp: idx_ok_def)
    have e: "idx_entry e b (concat (map snd bs') @ cur)" "idx_ok idx bs' cur" using Cons.prems(1) unfolding bs idx_ok_Cons by simp_all
    then have "last (snd b) \<in> set (snd b)" using Cons.prems(2) bs by fastforce
    then have "?w (last (snd b)) \<le> sum_list (map ?w (snd b))" by (intro member_le_sum_list) auto
    moreover have "entry_weight e \<le> ?w (last (snd b))"
      using e(1) length_blockhandle_write(1) [of "fst b"] by (simp add: idx_entry_def entry_weight_def LDB_BLOCKHANDLE_MAX_def)
    ultimately show ?case using Cons.IH [OF e(2)] Cons.prems(2) bs by simp
  qed simp
  also have "\<dots> \<le> sum_list (map (\<lambda>e. 2 * length (fst e) + length (snd e) + 100 + 2 * fsz) (concat (map snd bs)))"
    by (rule sum_list_mono) simp
  finally show ?thesis by (simp add: block_weight_def table_weight_def all_entries_def)
qed

section \<open>Finishing a table\<close>

text \<open>The state after the last flush: every entry is in a block.\<close>

lemma flush_all:
  assumes "tb_inv tb bs cur" "table_weight (all_entries bs cur) < 2 ^ 30"
  shows "\<exists>tb' bs'. ldb_tablebuilder_flush app flush tb = Some tb' \<and> tb_inv tb' bs' [] \<and> all_entries bs' [] = all_entries bs cur"
proof (cases "cur = []")
  case True
  obtain sh rs where bb: "bb_state (tb_data_block tb) cur sh rs" using assms(1) unfolding tb_inv_def by blast
  have "tb_status tb = LDB_OK" "\<not> tb_closed tb" using assms(1) by (simp_all add: tb_inv_def tb_open_def)
  then have "ldb_tablebuilder_flush app flush tb = Some tb"
    using True bb_state_empty [OF bb] by (simp add: ldb_tablebuilder_flush_def ldb_tablebuilder_ok_def)
  with assms(1) True show ?thesis by blast
next
  case False
  from tb_inv_flush [OF assms(1) False assms(2)] obtain tb' h where
    "ldb_tablebuilder_flush app flush tb = Some tb'" "tb_inv tb' (bs @ [(h, cur)]) []" by blast
  moreover have "all_entries (bs @ [(h, cur)]) [] = all_entries bs cur" by (simp add: all_entries_def)
  ultimately show ?thesis by blast
qed

text \<open>A step of \<^verbatim>\<open>finish\<close>: it appends at most \<^term>\<open>n\<close> bytes and leaves the index of the builder alone.\<close>

definition finish_step :: "nat \<Rightarrow> 'f tablebuilder \<Rightarrow> 'f tablebuilder \<Rightarrow> bool" where
  "finish_step n tb tb' \<longleftrightarrow> tb_open tb' \<and> (\<exists>x. tb_contents tb' = tb_contents tb @ x \<and> length x \<le> n) \<and> tb_options tb' = tb_options tb
     \<and> tb_index_block_options tb' = tb_index_block_options tb \<and> tb_index_block tb' = tb_index_block tb \<and> tb_last_key tb' = tb_last_key tb
     \<and> tb_pending_index_entry tb' = tb_pending_index_entry tb \<and> tb_pending_handle tb' = tb_pending_handle tb"

lemma finish_filter_step:
  assumes inv: "tb_inv tb bs []" and small: "table_weight (all_entries bs []) < 2 ^ 30"
  shows "\<exists>fh tb'. finish_filter app (tb\<lparr>tb_closed := True\<rparr>) = (fh, tb') \<and> finish_step (2 ^ 31) tb tb'
    \<and> (tb_filter_block tb' \<noteq> None \<longleftrightarrow> opt_filter_policy opts \<noteq> None)
    \<and> (\<forall>P. opt_filter_policy opts = Some P \<longrightarrow> (\<exists>off. stores (tb_contents tb') fh (filter_contents P bs off)
        \<and> length (filter_contents P bs off) < 2 ^ 32 \<and> sorted (map (unat \<circ> bh_offset \<circ> fst) bs @ [unat off])))"
proof -
  note I = inv [unfolded tb_inv_def]
  have open': "tb_open tb" "tb_status tb = LDB_OK" and fi: "filter_inv (tb_filter_block tb) bs (tb_offset tb) []"
    and so: "sorted (map (unat \<circ> bh_offset \<circ> fst) bs @ [unat (tb_offset tb)])" using I by (auto simp: tb_open_def intro: strict_sorted_imp_sorted)
  show ?thesis
  proof (cases "opt_filter_policy opts")
    case None
    with fi open' show ?thesis by (simp add: finish_filter_def filter_inv_def finish_step_def tb_open_def)
  next
    case (Some P)
    obtain b where b: "tb_filter_block tb = Some b" "fb_policy b = P" "filter_size fsz b \<le> 2 * fsz * length (all_entries bs [])"
      "length (fb_filter_offsets b) \<le> unat (tb_offset tb) div LDB_FILTER_BASE"
      using filter_inv_size [OF fi Some so] by blast
    have fc: "fb_result (ldb_filterbuilder_finish b) = filter_contents P bs (tb_offset tb)"
      using fi b(1) Some by (simp add: filter_inv_def filter_contents_def)
    have ne: "\<forall>(h, es) \<in> set bs. es \<noteq> []" using I by auto
    have off: "unat (tb_offset tb) = length (tb_contents tb)" "length (tb_contents tb) < 2 ^ 30"
      using I blocks_weight [OF ne, of "[]"] small by (auto simp: tb_open_def)
    have "2 * fsz * length (all_entries bs []) \<le> table_weight (all_entries bs [])"
      by (simp add: table_weight_def sum_list_addf sum_list_triv)
    then have "length (filter_contents P bs (tb_offset tb)) \<le> 2 ^ 30 + 4 * (length (tb_contents tb) div 2048) + 9"
      using filter_policy.filter_finish_size [OF policy [OF Some] b(2) policy_size [OF Some]] b(3,4) small
      unfolding fc off(1) by linarith
    then have len: "length (filter_contents P bs (tb_offset tb)) + 5 \<le> 2 ^ 31" using off(2) by simp
    let ?tb = "tb\<lparr>tb_closed := True, tb_filter_block := Some (ldb_filterbuilder_finish b)\<rparr>"
    have "tb_open ?tb" "length (tb_contents ?tb) + length (filter_contents P bs (tb_offset tb)) + 5 < 2 ^ 64"
      "stored_as (filter_contents P bs (tb_offset tb)) LDB_NO_COMPRESSION (filter_contents P bs (tb_offset tb))"
      using open' off(2) len by (simp_all add: tb_open_def stored_as_def)
    from write_raw_block_stores [OF this] obtain h f off' where
      w: "ldb_tablebuilder_write_raw_block app ?tb (filter_contents P bs (tb_offset tb)) LDB_NO_COMPRESSION = (h, ?tb\<lparr>tb_file := f, tb_offset := off'\<rparr>)"
      "tb_open (?tb\<lparr>tb_file := f, tb_offset := off'\<rparr>)"
      "contents f = tb_contents tb @ filter_contents P bs (tb_offset tb) @ block_trailer (filter_contents P bs (tb_offset tb)) LDB_NO_COMPRESSION"
      "stores (contents f) h (filter_contents P bs (tb_offset tb))" by auto
    have "finish_filter app (tb\<lparr>tb_closed := True\<rparr>) = (h, ?tb\<lparr>tb_file := f, tb_offset := off'\<rparr>)"
      using b(1) open'(2) w(1) by (simp add: finish_filter_def ldb_tablebuilder_ok_def Let_def fc)
    moreover have "finish_step (2 ^ 31) tb (?tb\<lparr>tb_file := f, tb_offset := off'\<rparr>)" using w(2,3) len by (simp add: finish_step_def)
    moreover have "length (filter_contents P bs (tb_offset tb)) < 2 ^ 32" using len by simp
    ultimately show ?thesis using w(4) so Some by auto
  qed
qed

lemma metaindex_block_ok:
  assumes opt: "tb_options tb = opts" and fb: "tb_filter_block tb \<noteq> None \<longleftrightarrow> opt_filter_policy opts \<noteq> None"
    and len: "length (tb_contents tb) < 2 ^ 40"
    and fc: "\<forall>P. opt_filter_policy opts = Some P \<longrightarrow> (\<exists>off. stores (tb_contents tb) fh (filter_contents P bs off)
        \<and> length (filter_contents P bs off) < 2 ^ 32 \<and> sorted (map (unat \<circ> bh_offset \<circ> fst) bs @ [unat off]))"
  shows "\<exists>meta bb sh rs. metaindex_block tb fh = Some (Inr bb) \<and> bb_state bb meta sh rs
    \<and> meta_ok (tb_contents tb) bs meta \<and> block_weight meta \<le> 200"
proof (cases "opt_filter_policy opts")
  case None
  let ?m0 = "ldb_blockbuilder_init (opt_block_restart_interval opts)"
  show ?thesis using bb_state_init [OF interval] fb None opt
    by (intro exI [of _ "[]"] exI [of _ ?m0] exI [of _ "[0]"] exI [of _ "[]"]) (simp add: metaindex_block_def meta_ok_def block_weight_def)
next
  case (Some P)
  obtain off where st: "stores (tb_contents tb) fh (filter_contents P bs off)" "length (filter_contents P bs off) < 2 ^ 32"
    "sorted (map (unat \<circ> bh_offset \<circ> fst) bs @ [unat off])" using fc Some by blast
  let ?name = "''filter.'' @ fp_name P"
  have name: "ldb_bloom_name 72 P = Some ?name" using policy_name [OF Some] by (simp add: ldb_bloom_name_def Let_def)
  have enc: "handle_encoding fh = Some (ldb_blockhandle_write fh)"
    using stores_handle [OF st(1)] len by (simp add: handle_encoding_def ldb_blockhandle_export_def)
  obtain bb sh rs where bb: "block_add opts (ldb_blockbuilder_init (opt_block_restart_interval opts)) (bytes_of_string ?name) (ldb_blockhandle_write fh) = Some bb"
    "bb_state bb [(bytes_of_string ?name, ldb_blockhandle_write fh)] sh rs"
    using block_add_state [OF bb_state_init [OF interval], of opts] by (metis append_Nil)
  have "block_weight [(bytes_of_string ?name, ldb_blockhandle_write fh)] \<le> 200"
    using policy_name [OF Some] length_blockhandle_write(1) [of fh]
    by (simp add: block_weight_def entry_weight_def bytes_of_string_def LDB_BLOCKHANDLE_MAX_def)
  moreover have "meta_ok (tb_contents tb) bs [(bytes_of_string ?name, ldb_blockhandle_write fh)]"
    unfolding meta_ok_def Some option.case using st by blast
  moreover obtain b where "tb_filter_block tb = Some b" using fb Some by auto
  then have "metaindex_block tb fh = Some (Inr bb)" using name enc bb(1) Some opt by (simp add: metaindex_block_def)
  ultimately show ?thesis using bb(2) by blast
qed

lemma finish_metaindex_step:
  assumes open': "tb_open tb" and opt: "tb_options tb = opts" and fb: "tb_filter_block tb \<noteq> None \<longleftrightarrow> opt_filter_policy opts \<noteq> None"
    and len: "length (tb_contents tb) < 2 ^ 40"
    and fc: "\<forall>P. opt_filter_policy opts = Some P \<longrightarrow> (\<exists>off. stores (tb_contents tb) fh (filter_contents P bs off)
        \<and> length (filter_contents P bs off) < 2 ^ 32 \<and> sorted (map (unat \<circ> bh_offset \<circ> fst) bs @ [unat off]))"
  shows "\<exists>mh meta tb'. finish_metaindex app tb fh = Some (Inr (mh, tb')) \<and> finish_step 1000 tb tb'
    \<and> stores_entries (tb_contents tb') mh meta \<and> meta_ok (tb_contents tb') bs meta"
proof -
  obtain meta bb sh rs where m: "metaindex_block tb fh = Some (Inr bb)"
    and bb: "bb_state bb meta sh rs" "meta_ok (tb_contents tb) bs meta" "block_weight meta \<le> 200"
    using metaindex_block_ok [OF opt fb len fc] by blast
  have "block_weight meta < 2 ^ 30" "length (tb_contents tb) + block_weight meta + 5 < 2 ^ 64" using bb(3) len by simp_all
  from write_block_stores [OF open' bb(1) this] obtain h f off co block' z where
    w: "ldb_tablebuilder_write_block app tb bb = Some (h, block', tb\<lparr>tb_compressed_output := co, tb_file := f, tb_offset := off\<rparr>)"
    and o2: "tb_open (tb\<lparr>tb_compressed_output := co, tb_file := f, tb_offset := off\<rparr>)"
    and c: "contents f = tb_contents tb @ z" "length z \<le> block_weight meta + 5" and st: "stores (contents f) h (block_image meta sh rs)" by blast
  have "finish_metaindex app tb fh = Some (Inr (h, tb\<lparr>tb_compressed_output := co, tb_file := f, tb_offset := off\<rparr>))"
    using m open' w by (simp add: finish_metaindex_def ldb_tablebuilder_ok_def tb_open_def)
  moreover have "stores_entries (contents f) h meta" using bb_image_ok [OF bb(1)] bb(3) st by (auto simp: stores_entries_def)
  moreover have "meta_ok (contents f) bs meta" using meta_ok_append [OF bb(2)] c(1) by simp
  moreover have "finish_step 1000 tb (tb\<lparr>tb_compressed_output := co, tb_file := f, tb_offset := off\<rparr>)"
    using o2 c bb(3) by (simp add: finish_step_def)
  ultimately show ?thesis by auto
qed

lemma add_index_entry_cong:
  assumes "add_index_entry tb k = Some (tb\<lparr>tb_last_key := k, tb_index_block := ib, tb_pending_index_entry := False\<rparr>)"
    and "tb_pending_handle tb' = tb_pending_handle tb" "tb_index_block_options tb' = tb_index_block_options tb" "tb_index_block tb' = tb_index_block tb"
  shows "add_index_entry tb' k = Some (tb'\<lparr>tb_last_key := k, tb_index_block := ib, tb_pending_index_entry := False\<rparr>)"
proof -
  obtain enc ib' where e: "handle_encoding (tb_pending_handle tb) = Some enc" "block_add (tb_index_block_options tb) (tb_index_block tb) k enc = Some ib'"
    and eq: "tb\<lparr>tb_last_key := k, tb_index_block := ib', tb_pending_index_entry := False\<rparr>
      = tb\<lparr>tb_last_key := k, tb_index_block := ib, tb_pending_index_entry := False\<rparr>"
    using assms(1) by (auto simp: add_index_entry_def split: bind_splits)
  from arg_cong [OF eq, of tb_index_block] have "ib' = ib" by simp
  with e assms(2-4) show ?thesis by (simp add: add_index_entry_def)
qed

lemma finish_index_step:
  assumes inv: "tb_inv tb bs []" and st: "finish_step n tb tb'" and n: "n < 2 ^ 40" and small: "table_weight (all_entries bs []) < 2 ^ 30"
  shows "\<exists>ih idx tb''. finish_index app tb' = Some (ih, tb'') \<and> tb_open tb'' \<and> (\<exists>x. tb_contents tb'' = tb_contents tb' @ x \<and> length x \<le> 2 ^ 31)
    \<and> stores_entries (tb_contents tb'') ih idx \<and> length idx = length bs \<and> idx_ok idx bs []"
proof -
  note I = inv [unfolded tb_inv_def] and S = st [unfolded finish_step_def]
  have ne: "\<forall>(h, es) \<in> set bs. es \<noteq> []" using I by auto
  have opt: "tb_options tb' = opts" "tb_status tb' = LDB_OK" using I S by (auto simp: tb_open_def)
  let ?pre = "if tb_pending_index_entry tb' then add_index_entry tb' (cmp_short_successor (opt_comparator (tb_options tb')) (tb_last_key tb')) else Some tb'"
  have "\<exists>t idx sh rs. ?pre = Some t \<and> tb_open t \<and> tb_file t = tb_file tb' \<and> bb_state (tb_index_block t) idx sh rs
      \<and> idx_ok idx bs [] \<and> length idx = length bs"
  proof (cases "tb_pending_index_entry tb")
    case True
    let ?k = "cmp_short_successor C (tb_last_key tb)"
    have bs: "bs \<noteq> []" using I True by blast
    then have all: "all_entries bs [] \<noteq> []" using ne last_in_set [OF bs] by (fastforce simp: all_entries_def)
    then have lk: "ok (tb_last_key tb)" using I last_in_set [OF all] by (auto simp: entries_ok_def)
    obtain ib idx sh rs where a: "add_index_entry tb ?k = Some (tb\<lparr>tb_last_key := ?k, tb_index_block := ib, tb_pending_index_entry := False\<rparr>)"
      "bb_state ib idx sh rs" "idx_ok idx bs []" "length idx = length bs"
      using add_index_entry_ok [OF inv True succ_ok [OF lk] succ_len succ_range [OF lk], of "[]"] small by auto
    have "add_index_entry tb' ?k = Some (tb'\<lparr>tb_last_key := ?k, tb_index_block := ib, tb_pending_index_entry := False\<rparr>)"
      using add_index_entry_cong [OF a(1)] S by blast
    then have "?pre = Some (tb'\<lparr>tb_last_key := ?k, tb_index_block := ib, tb_pending_index_entry := False\<rparr>)"
      using True S opt(1) opt_cmp by simp
    with a(2-4) S show ?thesis by (auto simp: tb_open_def)
  next
    case False
    then obtain idx sh rs where "bb_state (tb_index_block tb) idx sh rs" "idx_ok idx bs []" "length idx = length bs" using I by auto
    moreover have "?pre = Some tb'" using False S by simp
    ultimately show ?thesis using S by metis
  qed
  then obtain t idx sh rs where t: "?pre = Some t" "tb_open t" "tb_file t = tb_file tb'"
    and idx: "bb_state (tb_index_block t) idx sh rs" "idx_ok idx bs []" "length idx = length bs" by blast
  have w: "block_weight idx < 2 ^ 30" using idx_weight [OF idx(2) ne] small by linarith
  obtain x where "tb_contents tb' = tb_contents tb @ x" "length x \<le> n" using S by blast
  moreover have "length (tb_contents tb) < 2 ^ 30" using I blocks_weight [OF ne, of "[]"] small by linarith
  ultimately have "length (tb_contents t) + block_weight idx + 5 < 2 ^ 64" using w n t(3) by simp
  from write_block_stores [OF t(2) idx(1) w this] obtain h f off co block' z where
    wr: "ldb_tablebuilder_write_block app t (tb_index_block t) = Some (h, block', t\<lparr>tb_compressed_output := co, tb_file := f, tb_offset := off\<rparr>)"
    and o2: "tb_open (t\<lparr>tb_compressed_output := co, tb_file := f, tb_offset := off\<rparr>)"
    and c: "contents f = tb_contents t @ z" "length z \<le> block_weight idx + 5" and sto: "stores (contents f) h (block_image idx sh rs)" by blast
  have "finish_index app tb' = Some (h, t\<lparr>tb_compressed_output := co, tb_file := f, tb_offset := off, tb_index_block := block'\<rparr>)"
    unfolding finish_index_def t(1) using opt(2) wr by (simp add: ldb_tablebuilder_ok_def)
  moreover have "stores_entries (contents f) h idx" using bb_image_ok [OF idx(1)] w sto by (auto simp: stores_entries_def)
  moreover have "tb_open (t\<lparr>tb_compressed_output := co, tb_file := f, tb_offset := off, tb_index_block := block'\<rparr>)" using o2 by (simp add: tb_open_def)
  moreover have "\<exists>x. contents f = tb_contents tb' @ x \<and> length x \<le> 2 ^ 31" using c w t(3) by auto
  ultimately show ?thesis using idx(2,3) by auto
qed

lemma finish_footer_step:
  assumes "tb_open tb" "length (tb_contents tb) < 2 ^ 40" "ldb_footer_write_assert ft"
  shows "\<exists>tb'. finish_footer app tb ft = Some tb' \<and> tb_open tb' \<and> tb_contents tb' = tb_contents tb @ ldb_footer_write ft"
proof -
  obtain f where f: "app (tb_file tb) (ldb_footer_write ft) = (LDB_OK, f)" "live f" "contents f = tb_contents tb @ ldb_footer_write ft"
    using app_law [of "tb_file tb" "ldb_footer_write ft"] assms(1) by (auto simp: tb_open_def)
  have "unat (tb_offset tb + word_of_nat LDB_FOOTER_SIZE) = length (contents f)"
    using assms(1,2) f(3) by (simp add: tb_open_def unat_word_ariths LDB_FOOTER_SIZE_def LDB_BLOCKHANDLE_MAX_def)
  with assms f show ?thesis
    by (simp add: finish_footer_def ldb_tablebuilder_ok_def tb_open_def ldb_footer_export_def Let_def)
qed

lemma stores_entries_handle: "stores_entries F h es \<Longrightarrow> length F < 2 ^ 63 \<Longrightarrow> ldb_blockhandle_write_assert h"
  unfolding stores_entries_def using stores_handle by blast

lemma table_finish:
  assumes inv: "tb_inv tb bs cur" and small: "table_weight (all_entries bs cur) < 2 ^ 30"
  shows "\<exists>tb' bs'. ldb_tablebuilder_finish app flush tb = Some (LDB_OK, tb') \<and> tb_open tb' \<and> table_file (tb_contents tb') bs'
    \<and> concat (map snd bs') = all_entries bs cur \<and> length (tb_contents tb') < 2 ^ 40"
proof -
  obtain tb1 bs1 where t1: "ldb_tablebuilder_flush app flush tb = Some tb1" "tb_inv tb1 bs1 []" "all_entries bs1 [] = all_entries bs cur"
    using flush_all [OF assms] by blast
  note small1 = small [folded t1(3)] and I = t1(2) [unfolded tb_inv_def]
  have ne: "\<forall>(h, es) \<in> set bs1. es \<noteq> []" using I by auto
  have l1: "length (tb_contents tb1) < 2 ^ 30" using I blocks_weight [OF ne, of "[]"] small1 by linarith
  obtain fh tb2 where t2: "finish_filter app (tb1\<lparr>tb_closed := True\<rparr>) = (fh, tb2)" "finish_step (2 ^ 31) tb1 tb2"
    "tb_filter_block tb2 \<noteq> None \<longleftrightarrow> opt_filter_policy opts \<noteq> None"
    and fc: "\<forall>P. opt_filter_policy opts = Some P \<longrightarrow> (\<exists>off. stores (tb_contents tb2) fh (filter_contents P bs1 off)
        \<and> length (filter_contents P bs1 off) < 2 ^ 32 \<and> sorted (map (unat \<circ> bh_offset \<circ> fst) bs1 @ [unat off]))"
    using finish_filter_step [OF t1(2) small1] by blast
  note S2 = t2(2) [unfolded finish_step_def]
  obtain x2 where x2: "tb_contents tb2 = tb_contents tb1 @ x2" "length x2 \<le> 2 ^ 31" using S2 by blast
  have o2: "tb_open tb2" "tb_options tb2 = opts" "length (tb_contents tb2) < 2 ^ 40" using S2 I x2 l1 by auto
  obtain mh meta tb3 where t3: "finish_metaindex app tb2 fh = Some (Inr (mh, tb3))" "finish_step 1000 tb2 tb3"
    "stores_entries (tb_contents tb3) mh meta" "meta_ok (tb_contents tb3) bs1 meta"
    using finish_metaindex_step [OF o2(1,2) t2(3) o2(3) fc] by blast
  note S3 = t3(2) [unfolded finish_step_def]
  obtain x3 where x3: "tb_contents tb3 = tb_contents tb2 @ x3" "length x3 \<le> 1000" using S3 by blast
  have s13: "finish_step (2 ^ 31 + 1000) tb1 tb3" unfolding finish_step_def using S2 S3 x2 x3 by auto
  have n: "2 ^ 31 + 1000 < (2 :: nat) ^ 40" by simp
  obtain ih idx tb4 x4 where t4: "finish_index app tb3 = Some (ih, tb4)" "tb_open tb4" "tb_contents tb4 = tb_contents tb3 @ x4" "length x4 \<le> 2 ^ 31"
    "stores_entries (tb_contents tb4) ih idx" "length idx = length bs1" "idx_ok idx bs1 []"
    using finish_index_step [OF t1(2) s13 n small1] by blast
  let ?ft = "\<lparr>ft_metaindex_handle = mh, ft_index_handle = ih\<rparr>"
  have l4: "length (tb_contents tb4) < 2 ^ 39" using t4(3,4) x3 x2 l1 by simp
  have "ldb_footer_write_assert ?ft"
    using stores_entries_handle [OF t4(5)] stores_entries_handle [OF stores_entries_append [OF t3(3), of x4, folded t4(3)]] l4
    by (simp add: ldb_footer_write_assert_def)
  then obtain tb5 where t5: "finish_footer app tb4 ?ft = Some tb5" "tb_open tb5" "tb_contents tb5 = tb_contents tb4 @ ldb_footer_write ?ft"
    using finish_footer_step [OF t4(2), of ?ft] l4 by auto
  have "\<forall>(h, es) \<in> set bs1. es \<noteq> [] \<and> stores_entries (tb_contents tb1) h es" using I by blast
  then have "\<forall>(h, es) \<in> set bs1. es \<noteq> [] \<and> stores_entries (tb_contents tb5) h es"
    using stores_entries_append unfolding t5(3) t4(3) x3(1) x2(1) append.assoc by blast
  moreover have "stores_entries (tb_contents tb5) mh meta" "meta_ok (tb_contents tb5) bs1 meta" "stores_entries (tb_contents tb5) ih idx"
    using stores_entries_append [OF stores_entries_append [OF t3(3), of x4, folded t4(3)]] stores_entries_append [OF t4(5)]
      meta_ok_append [OF meta_ok_append [OF t3(4), of x4, folded t4(3)]] unfolding t5(3) by blast+
  moreover have "sorted_wrt (<) (map (unat \<circ> bh_offset \<circ> fst) bs1)" using I by (simp add: sorted_wrt_append)
  then have "distinct (map unat (map (bh_offset \<circ> fst) bs1))" by (simp add: strict_sorted_iff comp_assoc)
  then have "distinct (map (bh_offset \<circ> fst) bs1)" unfolding distinct_map by blast
  ultimately have "table_file (tb_contents tb5) bs1" unfolding table_file_def
    using t4(6,7) t5(3) by (intro exI [of _ "tb_contents tb4"] exI [of _ ?ft] exI [of _ idx] exI [of _ meta]) simp
  moreover have "\<not> tb_closed tb1" using I by blast
  then have "ldb_tablebuilder_finish app flush tb = Some (LDB_OK, tb5)"
    using t1(1) t2(1) t3(1) t4(1) t5(1,2) by (simp add: ldb_tablebuilder_finish_def tb_open_def)
  moreover have "concat (map snd bs1) = all_entries bs cur" using t1(3) by (simp add: all_entries_def)
  moreover have "length (tb_contents tb5) < 2 ^ 40" using t5(3) l4 by (simp add: LDB_FOOTER_SIZE_def LDB_BLOCKHANDLE_MAX_def)
  ultimately show ?thesis using t5(2) by blast
qed

text \<open>Building a table from entries in increasing order.\<close>

lemma table_built:
  assumes "live f" "contents f = []" "entries_ok es" "table_weight es < 2 ^ 30"
  shows "\<exists>tb0 tb1 tb bs. ldb_tablebuilder_init opts f = Some tb0 \<and> tb_add_all app flush tb0 es = Some tb1
    \<and> ldb_tablebuilder_finish app flush tb1 = Some (LDB_OK, tb) \<and> tb_open tb \<and> table_file (tb_contents tb) bs
    \<and> concat (map snd bs) = es \<and> length (tb_contents tb) < 2 ^ 40"
proof -
  obtain tb0 where tb0: "ldb_tablebuilder_init opts f = Some tb0" "tb_inv tb0 [] []" using tb_inv_init [OF assms(1,2)] by blast
  have e: "all_entries [] [] @ es = es" by (simp add: all_entries_def)
  obtain tb1 bs cur where tb1: "tb_add_all app flush tb0 es = Some tb1" "tb_inv tb1 bs cur" "all_entries bs cur = es"
    using tb_inv_add_all [OF tb0(2), of es, unfolded e, OF assms(3,4)] by blast
  from table_finish [OF tb1(2)] tb1(3) assms(4) tb0(1) tb1(1) show ?thesis by metis
qed

end

section \<open>The tables of a database\<close>

text \<open>
  A database builds its tables with the internal key comparator and the filter policy for internal keys, here over the bytewise
  comparator and bloom filters, with any block size, restart interval and compression.
\<close>

definition internal_options :: "bool \<Rightarrow> nat \<Rightarrow> nat \<Rightarrow> compression \<Rightarrow> nat option \<Rightarrow> dbopt" where
  "internal_options paranoid block_size interval ctype bits =
     \<lparr>opt_comparator = ldb_ikc_init bytewise_comparator, opt_paranoid_checks = paranoid, opt_block_size = block_size,
      opt_block_restart_interval = Suc interval, opt_compression = ctype,
      opt_filter_policy = map_option (\<lambda>b. ldb_ifp_init (bloom_policy (ldb_bloom_init b))) bits,
      opt_max_file_size = 2 * 1024 * 1024, opt_reuse_logs = False, opt_use_mmap = True\<rparr>"

abbreviation same_user_key :: "bytes \<Rightarrow> bytes \<Rightarrow> bool" where
  "same_user_key a b \<equiv> ldb_extract_user_key a = ldb_extract_user_key b"

lemma ikc_contract: "comparator_contract (ldb_ikc_init bytewise_comparator) (\<lambda>k. ikey_ok k)"
  using bytewise_user.ikc.comparator_contract_axioms by simp

interpretation internal_keys: key_classes "ldb_ikc_init bytewise_comparator" "\<lambda>k. ikey_ok k" same_user_key
proof (intro key_classes.intro [OF ikc_contract] key_classes_axioms.intro)
  fix a b k assume "compare (ldb_ikc_init bytewise_comparator) a b < 0" "\<not> same_user_key a b" "same_user_key b k"
  then show "compare (ldb_ikc_init bytewise_comparator) a k < 0"
    using bytewise_eq_iff by (auto simp: ldb_ikc_init_def bytewise_user.ikc_less_iff)
next
  fix start limit k
  assume "compare (ldb_ikc_init bytewise_comparator) start limit < 0" "same_user_key limit k"
    "compare (ldb_ikc_init bytewise_comparator) start k < 0"
  then show "compare (ldb_ikc_init bytewise_comparator) (cmp_shortest_separator (ldb_ikc_init bytewise_comparator) start limit) k < 0"
    using bytewise.sep_range [of "ldb_extract_user_key start" "ldb_extract_user_key limit"]
      bytewise.sep_equal [of "ldb_extract_user_key start" "ldb_extract_user_key limit"]
    by (auto simp: ldb_ikc_init_def bytewise_user.ikc_less_iff ldb_ikc_shortest_separator_def Let_def)
qed simp_all

lemma length_bloom_build: "length (fp_build (ldb_ifp_init (bloom_policy (ldb_bloom_init bits))) [] ks) \<le> (bits + 10) * (1 + length ks)"
proof -
  have "length (foldl (\<lambda>xs key. bloom_add b xs key n) xs us) = length xs" for b n xs us
    by (induction us arbitrary: xs) (simp_all add: bloom_add_def Let_def)
  moreover have "(bits * length ks + 7) div 8 \<le> bits * length ks + 7" by simp
  ultimately show ?thesis
    by (simp add: ldb_ifp_init_def ldb_ifp_build_def bloom_policy_def bloom_build_def bloom_size_def ldb_bloom_init_def Let_def algebra_simps) linarith
qed

lemma ikc_separator_length:
  "length (cmp_shortest_separator (ldb_ikc_init bytewise_comparator) start limit) \<le> length start"
  "length (cmp_short_successor (ldb_ikc_init bytewise_comparator) key) \<le> length key"
  by (auto simp: ldb_ikc_init_def ldb_ikc_shortest_separator_def ldb_ikc_short_successor_def Let_def ldb_extract_user_key_def)

lemma internal_policy:
  assumes "opt_filter_policy (internal_options paranoid block_size interval ctype bits) = Some P"
  shows "filter_policy P (\<lambda>k. ikey_ok k)" "length (fp_name P) \<le> 64"
    and "length (fp_build P [] ks) \<le> (case bits of None \<Rightarrow> 0 | Some b \<Rightarrow> b + 10) * (1 + length ks)"
    and "same_user_key x y \<Longrightarrow> fp_match P fl x = fp_match P fl y"
proof -
  obtain b where P: "P = ldb_ifp_init (bloom_policy (ldb_bloom_init b))" "bits = Some b"
    using assms by (auto simp: internal_options_def)
  show "filter_policy P (\<lambda>k. ikey_ok k)"
    using created_ifp.build_append created_ifp.match_built unfolding P by (intro filter_policy.intro) blast+
  show "length (fp_build P [] ks) \<le> (case bits of None \<Rightarrow> 0 | Some b \<Rightarrow> b + 10) * (1 + length ks)"
    using length_bloom_build [of b ks] by (simp add: P)
  show "length (fp_name P) \<le> 64" by (simp add: P ldb_ifp_init_def bloom_policy_def)
  show "fp_match P fl x = fp_match P fl y" if "same_user_key x y"
    using that by (simp add: P ldb_ifp_init_def ldb_ifp_match_def)
qed

interpretation internal_table: table_writer "ldb_ikc_init bytewise_comparator" "\<lambda>k. ikey_ok k" same_user_key
    "mem_wapp junk" mem_wflush mem_wcontents mem_wlive
    "internal_options paranoid block_size interval ctype bits" "case bits of None \<Rightarrow> 0 | Some b \<Rightarrow> b + 10"
  for junk paranoid block_size interval ctype bits
proof (intro table_writer.intro [OF internal_keys.key_classes_axioms mem_wfile.append_file_axioms] table_writer_axioms.intro)
  show "opt_comparator (internal_options paranoid block_size interval ctype bits) = ldb_ikc_init bytewise_comparator"
    "1 \<le> opt_block_restart_interval (internal_options paranoid block_size interval ctype bits)"
    by (simp_all add: internal_options_def)
qed (fact ikc_separator_length | fact internal_policy)+

end
