(* ===== verification/TwoLevel.thy ===== *)
theory TwoLevel
  imports Merger
begin

text \<open>
  The two-level iterator (\<^verbatim>\<open>src/src/table/two_level_iterator.c\<close>): an index iterator whose values are handles of
  blocks, and an iterator over the current block. \<^verbatim>\<open>block_function\<close>, with its first two arguments, is a
  function from handles to iterators.
\<close>

record ('s, 'd) twoiter =
  ti_block_function :: "bytes \<Rightarrow> 'd iter"
  ti_status :: status
  ti_index_iter :: "'s wrapiter"
  ti_data_iter :: "'d wrapiter"
  ti_data_block_handle :: bytes

definition ldb_twoiter_valid :: "('s, 'd) twoiter \<Rightarrow> bool" where
  "ldb_twoiter_valid iter = ldb_wrapiter_valid (ti_data_iter iter)"

definition ldb_twoiter_key :: "('s, 'd) twoiter \<Rightarrow> bytes option" where
  "ldb_twoiter_key iter = (if ldb_twoiter_valid iter then ldb_wrapiter_key (ti_data_iter iter) else None)"

definition ldb_twoiter_value :: "('s, 'd) twoiter \<Rightarrow> bytes option" where
  "ldb_twoiter_value iter = (if ldb_twoiter_valid iter then ldb_wrapiter_value (ti_data_iter iter) else None)"

definition ldb_twoiter_status :: "('s, 'd) twoiter \<Rightarrow> status option" where
  "ldb_twoiter_status iter =
     do { rc \<leftarrow> ldb_wrapiter_status (ti_index_iter iter);
          if rc \<noteq> LDB_OK then Some rc
          else if wi_iter (ti_data_iter iter) \<noteq> None then
            do { rc \<leftarrow> ldb_wrapiter_status (ti_data_iter iter);
                 if rc \<noteq> LDB_OK then Some rc else Some (ti_status iter) }
          else Some (ti_status iter) }"

definition ldb_twoiter_saverr :: "('s, 'd) twoiter \<Rightarrow> status \<Rightarrow> ('s, 'd) twoiter" where
  "ldb_twoiter_saverr iter status =
     (if ti_status iter = LDB_OK \<and> status \<noteq> LDB_OK then iter\<lparr>ti_status := status\<rparr> else iter)"

definition ldb_twoiter_init :: "'s iter \<Rightarrow> (bytes \<Rightarrow> 'd iter) \<Rightarrow> ('s, 'd) twoiter option" where
  "ldb_twoiter_init index_iter block_function =
     do { iw \<leftarrow> ldb_wrapiter_init (Some index_iter);
          dw \<leftarrow> ldb_wrapiter_init None;
          Some \<lparr>ti_block_function = block_function, ti_status = LDB_OK, ti_index_iter = iw, ti_data_iter = dw,
                ti_data_block_handle = []\<rparr> }"

definition ldb_twoiter_set_data_iter :: "('s, 'd) twoiter \<Rightarrow> 'd iter option \<Rightarrow> ('s, 'd) twoiter option" where
  "ldb_twoiter_set_data_iter iter data_iter =
     do { iter \<leftarrow> (if wi_iter (ti_data_iter iter) \<noteq> None
                   then do { rc \<leftarrow> ldb_wrapiter_status (ti_data_iter iter); Some (ldb_twoiter_saverr iter rc) }
                   else Some iter);
          w \<leftarrow> ldb_wrapiter_set (ti_data_iter iter) data_iter;
          Some (iter\<lparr>ti_data_iter := w\<rparr>) }"

definition ldb_twoiter_init_data_block :: "('s, 'd) twoiter \<Rightarrow> ('s, 'd) twoiter option" where
  "ldb_twoiter_init_data_block iter =
     (if \<not> ldb_wrapiter_valid (ti_index_iter iter) then ldb_twoiter_set_data_iter iter None
      else
        do { handle \<leftarrow> ldb_wrapiter_value (ti_index_iter iter);
             if wi_iter (ti_data_iter iter) \<noteq> None \<and> ldb_slice_equal handle (ti_data_block_handle iter) then Some iter
             else
               (let data_iter = ti_block_function iter handle in
                ldb_twoiter_set_data_iter (iter\<lparr>ti_data_block_handle := handle\<rparr>) (Some data_iter)) })"

text \<open>\<^verbatim>\<open>if (iter->data_iter.iter != NULL) op(&iter->data_iter)\<close>\<close>

definition on_data_iter :: "('d wrapiter \<Rightarrow> 'd wrapiter option) \<Rightarrow> ('s, 'd) twoiter \<Rightarrow> ('s, 'd) twoiter option" where
  "on_data_iter f iter =
     (if wi_iter (ti_data_iter iter) \<noteq> None
      then do { w \<leftarrow> f (ti_data_iter iter); Some (iter\<lparr>ti_data_iter := w\<rparr>) } else Some iter)"

partial_function (option) ldb_twoiter_skip_forward :: "('s, 'd) twoiter \<Rightarrow> ('s, 'd) twoiter option" where
  "ldb_twoiter_skip_forward iter =
     (if wi_iter (ti_data_iter iter) = None \<or> \<not> ldb_wrapiter_valid (ti_data_iter iter) then
        if \<not> ldb_wrapiter_valid (ti_index_iter iter) then ldb_twoiter_set_data_iter iter None
        else
          do { w \<leftarrow> ldb_wrapiter_next (ti_index_iter iter);
               iter \<leftarrow> ldb_twoiter_init_data_block (iter\<lparr>ti_index_iter := w\<rparr>);
               iter \<leftarrow> on_data_iter ldb_wrapiter_seek_first iter;
               ldb_twoiter_skip_forward iter }
      else Some iter)"

partial_function (option) ldb_twoiter_skip_backward :: "('s, 'd) twoiter \<Rightarrow> ('s, 'd) twoiter option" where
  "ldb_twoiter_skip_backward iter =
     (if wi_iter (ti_data_iter iter) = None \<or> \<not> ldb_wrapiter_valid (ti_data_iter iter) then
        if \<not> ldb_wrapiter_valid (ti_index_iter iter) then ldb_twoiter_set_data_iter iter None
        else
          do { w \<leftarrow> ldb_wrapiter_prev (ti_index_iter iter);
               iter \<leftarrow> ldb_twoiter_init_data_block (iter\<lparr>ti_index_iter := w\<rparr>);
               iter \<leftarrow> on_data_iter ldb_wrapiter_seek_last iter;
               ldb_twoiter_skip_backward iter }
      else Some iter)"

definition ldb_twoiter_seek :: "('s, 'd) twoiter \<Rightarrow> bytes \<Rightarrow> ('s, 'd) twoiter option" where
  "ldb_twoiter_seek iter target =
     do { w \<leftarrow> ldb_wrapiter_seek (ti_index_iter iter) target;
          iter \<leftarrow> ldb_twoiter_init_data_block (iter\<lparr>ti_index_iter := w\<rparr>);
          iter \<leftarrow> on_data_iter (\<lambda>w. ldb_wrapiter_seek w target) iter;
          ldb_twoiter_skip_forward iter }"

definition ldb_twoiter_seek_first :: "('s, 'd) twoiter \<Rightarrow> ('s, 'd) twoiter option" where
  "ldb_twoiter_seek_first iter =
     do { w \<leftarrow> ldb_wrapiter_seek_first (ti_index_iter iter);
          iter \<leftarrow> ldb_twoiter_init_data_block (iter\<lparr>ti_index_iter := w\<rparr>);
          iter \<leftarrow> on_data_iter ldb_wrapiter_seek_first iter;
          ldb_twoiter_skip_forward iter }"

definition ldb_twoiter_seek_last :: "('s, 'd) twoiter \<Rightarrow> ('s, 'd) twoiter option" where
  "ldb_twoiter_seek_last iter =
     do { w \<leftarrow> ldb_wrapiter_seek_last (ti_index_iter iter);
          iter \<leftarrow> ldb_twoiter_init_data_block (iter\<lparr>ti_index_iter := w\<rparr>);
          iter \<leftarrow> on_data_iter ldb_wrapiter_seek_last iter;
          ldb_twoiter_skip_backward iter }"

definition ldb_twoiter_next :: "('s, 'd) twoiter \<Rightarrow> ('s, 'd) twoiter option" where
  "ldb_twoiter_next iter =
     (if ldb_twoiter_valid iter then
        do { w \<leftarrow> ldb_wrapiter_next (ti_data_iter iter); ldb_twoiter_skip_forward (iter\<lparr>ti_data_iter := w\<rparr>) }
      else None)"

definition ldb_twoiter_prev :: "('s, 'd) twoiter \<Rightarrow> ('s, 'd) twoiter option" where
  "ldb_twoiter_prev iter =
     (if ldb_twoiter_valid iter then
        do { w \<leftarrow> ldb_wrapiter_prev (ti_data_iter iter); ldb_twoiter_skip_backward (iter\<lparr>ti_data_iter := w\<rparr>) }
      else None)"

definition ldb_twoiter_table :: "('s, 'd) twoiter itertbl" where
  "ldb_twoiter_table =
     \<lparr>tbl_valid = ldb_twoiter_valid, tbl_seek_first = ldb_twoiter_seek_first, tbl_seek_last = ldb_twoiter_seek_last,
      tbl_seek = ldb_twoiter_seek, tbl_next = ldb_twoiter_next, tbl_prev = ldb_twoiter_prev,
      tbl_key = ldb_twoiter_key, tbl_value = ldb_twoiter_value, tbl_status = ldb_twoiter_status\<rparr>"

definition ldb_twoiter_create :: "'s iter \<Rightarrow> (bytes \<Rightarrow> 'd iter) \<Rightarrow> ('s, 'd) twoiter iter option" where
  "ldb_twoiter_create index_iter block_function =
     do { iter \<leftarrow> ldb_twoiter_init index_iter block_function; Some (ldb_twoiter_table, iter) }"

section \<open>Positions\<close>

text \<open>
  \<^term>\<open>blk\<close> gives the entries of the block with a handle. The entries of the whole are the blocks in the
  order of the index; \<^term>\<open>block_start idx blk b\<close> is the position of the first entry of block \<^term>\<open>b\<close>.
\<close>

definition block_entries :: "kv list \<Rightarrow> (bytes \<Rightarrow> kv list) \<Rightarrow> kv list" where
  "block_entries idx blk = concat (map (blk \<circ> snd) idx)"

definition block_start :: "kv list \<Rightarrow> (bytes \<Rightarrow> kv list) \<Rightarrow> nat \<Rightarrow> nat" where
  "block_start idx blk b = length (block_entries (take b idx) blk)"

lemma block_start_0 [simp]: "block_start idx blk 0 = 0"
  by (simp add: block_start_def block_entries_def)

lemma block_start_all [simp]: "block_start idx blk (length idx) = length (block_entries idx blk)"
  by (simp add: block_start_def)

lemma block_entries_split:
  "b < length idx \<Longrightarrow> block_entries idx blk
     = block_entries (take b idx) blk @ blk (snd (idx ! b)) @ block_entries (drop (Suc b) idx) blk"
  by (subst id_take_nth_drop [of b idx]) (simp_all add: block_entries_def)

lemma block_start_Suc: "b < length idx \<Longrightarrow> block_start idx blk (Suc b) = block_start idx blk b + length (blk (snd (idx ! b)))"
  by (simp add: block_start_def block_entries_def take_Suc_conv_app_nth)

lemma block_entries_nth:
  "b < length idx \<Longrightarrow> p < length (blk (snd (idx ! b))) \<Longrightarrow>
     block_start idx blk b + p < length (block_entries idx blk)
     \<and> block_entries idx blk ! (block_start idx blk b + p) = blk (snd (idx ! b)) ! p"
  by (simp add: block_entries_split block_start_def nth_append)

section \<open>The two-level iterator meets the contract\<close>

context comparator_order
begin

text \<open>
  What the index and the blocks have to be: iterators that meet the contract, and keys in the index that
  separate the blocks. The key of an index entry is at or past every key of its block and before every
  key of the later blocks.
\<close>

definition two_sources :: "'s itertbl \<Rightarrow> kv list \<Rightarrow> ('s \<Rightarrow> nat \<Rightarrow> bool) \<Rightarrow> (bytes \<Rightarrow> 'd iter) \<Rightarrow> (bytes \<Rightarrow> kv list)
    \<Rightarrow> (bytes \<Rightarrow> 'd \<Rightarrow> nat \<Rightarrow> bool) \<Rightarrow> bool" where
  "two_sources TI idx iat f blk dat \<longleftrightarrow> cursor TI (compare C) idx iat ok \<and> kv_sorted idx
     \<and> (\<forall>h \<in> snd ` set idx. cursor (fst (f h)) (compare C) (blk h) (dat h) ok \<and> (\<exists>p. dat h (snd (f h)) p))
     \<and> (\<forall>e \<in> set (block_entries idx blk). ok (fst e))
     \<and> (\<forall>b < length idx. \<forall>e \<in> set (blk (snd (idx ! b))). compare C (fst e) (fst (idx ! b)) \<le> 0)
     \<and> (\<forall>c < length idx. \<forall>b < c. \<forall>e \<in> set (blk (snd (idx ! c))). compare C (fst (idx ! b)) (fst e) < 0)"

abbreviation "data_at f blk dat h \<equiv> cursor.wrap_at (fst (f h)) (blk h) (dat h)"

definition data_ok :: "kv list \<Rightarrow> (bytes \<Rightarrow> 'd iter) \<Rightarrow> (bytes \<Rightarrow> kv list) \<Rightarrow> (bytes \<Rightarrow> 'd \<Rightarrow> nat \<Rightarrow> bool) \<Rightarrow> ('s, 'd) twoiter \<Rightarrow> bool" where
  "data_ok idx f blk dat it \<longleftrightarrow> ti_block_function it = f \<and> ti_status it = LDB_OK
     \<and> (if wi_iter (ti_data_iter it) = None then \<not> wi_valid (ti_data_iter it)
        else ti_data_block_handle it \<in> snd ` set idx \<and> (\<exists>p. data_at f blk dat (ti_data_block_handle it) (ti_data_iter it) p))"

text \<open>The index stands at entry \<^term>\<open>b\<close> and the iterator over its block at entry \<^term>\<open>p\<close>.\<close>

definition pos_at :: "'s itertbl \<Rightarrow> kv list \<Rightarrow> ('s \<Rightarrow> nat \<Rightarrow> bool) \<Rightarrow> (bytes \<Rightarrow> 'd iter) \<Rightarrow> (bytes \<Rightarrow> kv list)
    \<Rightarrow> (bytes \<Rightarrow> 'd \<Rightarrow> nat \<Rightarrow> bool) \<Rightarrow> ('s, 'd) twoiter \<Rightarrow> nat \<Rightarrow> nat \<Rightarrow> bool" where
  "pos_at TI idx iat f blk dat it b p \<longleftrightarrow> ti_block_function it = f \<and> ti_status it = LDB_OK
     \<and> cursor.wrap_at TI idx iat (ti_index_iter it) b
     \<and> (if b < length idx
        then ti_data_block_handle it = snd (idx ! b) \<and> data_at f blk dat (snd (idx ! b)) (ti_data_iter it) p
        else p = 0 \<and> wi_iter (ti_data_iter it) = None \<and> \<not> wi_valid (ti_data_iter it))"

definition two_at :: "'s itertbl \<Rightarrow> kv list \<Rightarrow> ('s \<Rightarrow> nat \<Rightarrow> bool) \<Rightarrow> (bytes \<Rightarrow> 'd iter) \<Rightarrow> (bytes \<Rightarrow> kv list)
    \<Rightarrow> (bytes \<Rightarrow> 'd \<Rightarrow> nat \<Rightarrow> bool) \<Rightarrow> ('s, 'd) twoiter \<Rightarrow> nat \<Rightarrow> bool" where
  "two_at TI idx iat f blk dat it i \<longleftrightarrow> i \<le> length (block_entries idx blk)
     \<and> (if i = length (block_entries idx blk)
        then ti_block_function it = f \<and> ti_status it = LDB_OK \<and> (\<exists>b. cursor.wrap_at TI idx iat (ti_index_iter it) b)
          \<and> wi_iter (ti_data_iter it) = None \<and> \<not> wi_valid (ti_data_iter it)
        else (\<exists>b p. b < length idx \<and> p < length (blk (snd (idx ! b))) \<and> pos_at TI idx iat f blk dat it b p
          \<and> i = block_start idx blk b + p))"

lemma two_sourcesD:
  assumes "two_sources TI idx iat f blk dat"
  shows "cursor TI (compare C) idx iat ok" "kv_sorted idx"
    and "h \<in> snd ` set idx \<Longrightarrow> cursor (fst (f h)) (compare C) (blk h) (dat h) ok"
    and "h \<in> snd ` set idx \<Longrightarrow> \<exists>p. dat h (snd (f h)) p"
    and "b < length idx \<Longrightarrow> cursor (fst (f (snd (idx ! b)))) (compare C) (blk (snd (idx ! b))) (dat (snd (idx ! b))) ok"
  using assms by (auto simp: two_sources_def)

lemma wrap_some: "cursor T cmp es at tok \<Longrightarrow> cursor.wrap_at T es at w p \<Longrightarrow> wi_iter w \<noteq> None \<and> p \<le> length es"
  by (auto simp: cursor.wrap_at_def)

lemma pos_data_ok: "two_sources TI idx iat f blk dat \<Longrightarrow> pos_at TI idx iat f blk dat it b p \<Longrightarrow> data_ok idx f blk dat it"
  by (auto simp: pos_at_def data_ok_def dest: wrap_some [OF two_sourcesD(5)] split: if_splits)

lemma two_data_ok: "two_sources TI idx iat f blk dat \<Longrightarrow> two_at TI idx iat f blk dat it i \<Longrightarrow> data_ok idx f blk dat it"
  by (auto simp: two_at_def data_ok_def pos_at_def dest: wrap_some [OF two_sourcesD(5)] split: if_splits)

lemma data_ok_status:
  assumes "two_sources TI idx iat f blk dat" "data_ok idx f blk dat it" "wi_iter (ti_data_iter it) \<noteq> None"
  shows "ldb_wrapiter_status (ti_data_iter it) = Some LDB_OK"
  using assms(2,3) cursor.wrap_status [OF two_sourcesD(3) [OF assms(1)]] by (auto simp: data_ok_def)

lemma set_data_none:
  assumes "two_sources TI idx iat f blk dat" "data_ok idx f blk dat it"
  shows "\<exists>w. ldb_twoiter_set_data_iter it None = Some (it\<lparr>ti_data_iter := w\<rparr>) \<and> wi_iter w = None \<and> \<not> wi_valid w"
  using data_ok_status [OF assms]
  by (cases "wi_iter (ti_data_iter it)") (auto simp: ldb_twoiter_set_data_iter_def ldb_wrapiter_set_def ldb_twoiter_saverr_def)

lemma set_data_some:
  assumes "two_sources TI idx iat f blk dat" "data_ok idx f blk dat it" "h \<in> snd ` set idx"
  shows "\<exists>w p. ldb_twoiter_set_data_iter (it\<lparr>ti_data_block_handle := h\<rparr>) (Some (f h))
    = Some (it\<lparr>ti_data_block_handle := h, ti_data_iter := w\<rparr>) \<and> data_at f blk dat h w p"
proof -
  from two_sourcesD(4) [OF assms(1,3)] obtain p where "dat h (snd (f h)) p" by blast
  with cursor.wrap_set [OF two_sourcesD(3) [OF assms(1,3)]] obtain w where
    "ldb_wrapiter_set (ti_data_iter it) (Some (f h)) = Some w" "data_at f blk dat h w p" by fastforce
  then show ?thesis using data_ok_status [OF assms(1,2)]
    by (cases "wi_iter (ti_data_iter it)") (auto simp: ldb_twoiter_set_data_iter_def ldb_twoiter_saverr_def)
qed

lemma init_data_block_at:
  assumes src: "two_sources TI idx iat f blk dat" and it: "data_ok idx f blk dat it" "cursor.wrap_at TI idx iat w b"
  shows "\<exists>it' p. ldb_twoiter_init_data_block (it\<lparr>ti_index_iter := w\<rparr>) = Some it' \<and> pos_at TI idx iat f blk dat it' b p"
proof -
  let ?it = "it\<lparr>ti_index_iter := w\<rparr>"
  note idx = two_sourcesD(1) [OF src]
  have ok: "data_ok idx f blk dat ?it" using it(1) by (simp add: data_ok_def)
  show ?thesis
  proof (cases "b < length idx")
    case False
    with cursor.wrap_valid [OF idx it(2)] set_data_none [OF src ok] it show ?thesis
      by (auto simp: ldb_twoiter_init_data_block_def pos_at_def data_ok_def)
  next
    case True
    let ?h = "snd (idx ! b)"
    have h: "?h \<in> snd ` set idx" using True by simp
    have v: "ldb_wrapiter_valid w" "ldb_wrapiter_value w = Some ?h"
      using cursor.wrap_valid [OF idx it(2)] cursor.wrap_value [OF idx it(2)] True by simp_all
    show ?thesis
    proof (cases "wi_iter (ti_data_iter it) \<noteq> None \<and> ?h = ti_data_block_handle it")
      case same: True
      with v it True show ?thesis
        by (auto simp: ldb_twoiter_init_data_block_def pos_at_def data_ok_def ldb_slice_equal_iff)
    next
      case False
      then have "ldb_twoiter_init_data_block ?it = ldb_twoiter_set_data_iter (?it\<lparr>ti_data_block_handle := ?h\<rparr>) (Some (f ?h))"
        using v it(1) by (auto simp: ldb_twoiter_init_data_block_def data_ok_def ldb_slice_equal_iff)
      with set_data_some [OF src ok h] it True show ?thesis by (auto simp: pos_at_def data_ok_def)
    qed
  qed
qed

text \<open>Moving the index, loading the block there and moving in the block.\<close>

lemma reposition:
  assumes src: "two_sources TI idx iat f blk dat" and it: "data_ok idx f blk dat it" "cursor.wrap_at TI idx iat w b"
    and move: "\<And>x p. b < length idx \<Longrightarrow> data_at f blk dat (snd (idx ! b)) x p \<Longrightarrow> \<exists>x'. move x = Some x' \<and> data_at f blk dat (snd (idx ! b)) x' q"
    and q: "b = length idx \<Longrightarrow> q = 0"
  shows "\<exists>it1 it2. ldb_twoiter_init_data_block (it\<lparr>ti_index_iter := w\<rparr>) = Some it1 \<and> on_data_iter move it1 = Some it2
    \<and> pos_at TI idx iat f blk dat it2 b q"
proof -
  from init_data_block_at [OF src it] obtain it1 p where
    it1: "ldb_twoiter_init_data_block (it\<lparr>ti_index_iter := w\<rparr>) = Some it1" "pos_at TI idx iat f blk dat it1 b p" by blast
  show ?thesis
  proof (cases "b < length idx")
    case True
    with it1(2) have at: "data_at f blk dat (snd (idx ! b)) (ti_data_iter it1) p" by (simp add: pos_at_def)
    from wrap_some [OF two_sourcesD(5) [OF src True] at] move [OF True at] it1 True show ?thesis
      by (auto simp: on_data_iter_def pos_at_def)
  next
    case False
    have "b = length idx" using wrap_some [OF two_sourcesD(1) [OF src] it(2)] False by simp
    with it1 False q show ?thesis by (auto simp: on_data_iter_def pos_at_def)
  qed
qed

lemma pos_two_at:
  assumes "pos_at TI idx iat f blk dat it b p" "b < length idx" "p < length (blk (snd (idx ! b)))"
  shows "two_at TI idx iat f blk dat it (block_start idx blk b + p)"
  using assms block_entries_nth [of b idx p blk] by (auto simp: two_at_def)

lemma end_two_at:
  assumes "two_sources TI idx iat f blk dat" "pos_at TI idx iat f blk dat it b p"
  shows "\<exists>it'. ldb_twoiter_set_data_iter it None = Some it' \<and> two_at TI idx iat f blk dat it' (length (block_entries idx blk))"
  using set_data_none [OF assms(1) pos_data_ok [OF assms]] assms(2) by (auto simp: two_at_def pos_at_def)

lemma pos_unready:
  assumes src: "two_sources TI idx iat f blk dat" and at: "pos_at TI idx iat f blk dat it b p"
  shows "wi_iter (ti_data_iter it) = None \<or> \<not> ldb_wrapiter_valid (ti_data_iter it)
      \<longleftrightarrow> \<not> (b < length idx \<and> p < length (blk (snd (idx ! b))))"
    and "ldb_wrapiter_valid (ti_index_iter it) \<longleftrightarrow> b < length idx" "b \<le> length idx"
    and "b < length idx \<Longrightarrow> p \<le> length (blk (snd (idx ! b)))"
proof -
  have i: "cursor.wrap_at TI idx iat (ti_index_iter it) b" using at by (simp add: pos_at_def)
  show "ldb_wrapiter_valid (ti_index_iter it) \<longleftrightarrow> b < length idx" "b \<le> length idx"
    using cursor.wrap_valid [OF two_sourcesD(1) [OF src] i] wrap_some [OF two_sourcesD(1) [OF src] i] by simp_all
  have d: "data_at f blk dat (snd (idx ! b)) (ti_data_iter it) p" if "b < length idx" using at that by (simp add: pos_at_def)
  show "b < length idx \<Longrightarrow> p \<le> length (blk (snd (idx ! b)))"
    using wrap_some [OF two_sourcesD(5) [OF src] d] by simp
  show "wi_iter (ti_data_iter it) = None \<or> \<not> ldb_wrapiter_valid (ti_data_iter it)
      \<longleftrightarrow> \<not> (b < length idx \<and> p < length (blk (snd (idx ! b))))"
    using at wrap_some [OF two_sourcesD(5) [OF src] d] cursor.wrap_valid [OF two_sourcesD(5) [OF src] d]
    by (cases "b < length idx") (auto simp: pos_at_def)
qed

lemma skip_forward_at:
  assumes src: "two_sources TI idx iat f blk dat"
  shows "pos_at TI idx iat f blk dat it b p \<Longrightarrow>
    \<exists>it'. ldb_twoiter_skip_forward it = Some it' \<and> two_at TI idx iat f blk dat it' (block_start idx blk b + p)"
proof (induction "length idx - b" arbitrary: it b p rule: less_induct)
  case less
  note un = pos_unready [OF src less.prems]
  show ?case
  proof (cases "b < length idx \<and> p < length (blk (snd (idx ! b)))")
    case True
    with un(1) pos_two_at [OF less.prems] show ?thesis by (subst ldb_twoiter_skip_forward.simps) auto
  next
    case skip: False
    show ?thesis
    proof (cases "b < length idx")
      case False
      with un(3) less.prems have "b = length idx" "p = 0" by (auto simp: pos_at_def)
      with skip un(1,2) end_two_at [OF src less.prems] show ?thesis by (subst ldb_twoiter_skip_forward.simps) simp
    next
      case True
      then have p: "p = length (blk (snd (idx ! b)))" using skip un(4) by simp
      obtain w where w: "ldb_wrapiter_next (ti_index_iter it) = Some w" "cursor.wrap_at TI idx iat w (b + 1)"
        using cursor.wrap_next [OF two_sourcesD(1) [OF src]] less.prems True by (auto simp: pos_at_def)
      obtain it1 it2 where r: "ldb_twoiter_init_data_block (it\<lparr>ti_index_iter := w\<rparr>) = Some it1"
          "on_data_iter ldb_wrapiter_seek_first it1 = Some it2" "pos_at TI idx iat f blk dat it2 (b + 1) 0"
        using reposition [OF src pos_data_ok [OF src less.prems] w(2), of ldb_wrapiter_seek_first 0]
          cursor.wrap_seek_first [OF two_sourcesD(5) [OF src]] by blast
      from less.hyps [OF _ r(3)] True block_start_Suc [OF True, of blk] p w(1) r(1,2) skip un(1,2) show ?thesis
        by (subst ldb_twoiter_skip_forward.simps) auto
    qed
  qed
qed

lemma skip_backward_end:
  assumes src: "two_sources TI idx iat f blk dat" and at: "pos_at TI idx iat f blk dat it (length idx) p"
  shows "\<exists>it'. ldb_twoiter_skip_backward it = Some it' \<and> two_at TI idx iat f blk dat it' (length (block_entries idx blk))"
  using pos_unready [OF src at] end_two_at [OF src at] by (subst ldb_twoiter_skip_backward.simps) simp

lemma skip_backward_at:
  assumes src: "two_sources TI idx iat f blk dat"
  shows "pos_at TI idx iat f blk dat it b p \<Longrightarrow> b < length idx \<Longrightarrow>
    \<exists>it'. ldb_twoiter_skip_backward it = Some it' \<and> two_at TI idx iat f blk dat it'
      (if p < length (blk (snd (idx ! b))) then block_start idx blk b + p
       else if block_start idx blk b = 0 then length (block_entries idx blk) else block_start idx blk b - 1)"
proof (induction b arbitrary: it p rule: less_induct)
  case (less b)
  note un = pos_unready [OF src less.prems(1)] and cur = two_sourcesD(1) [OF src]
  show ?case
  proof (cases "p < length (blk (snd (idx ! b)))")
    case True
    with un(1) pos_two_at [OF less.prems] less.prems(2) show ?thesis by (subst ldb_twoiter_skip_backward.simps) auto
  next
    case skip: False
    define c where "c = (if b = 0 then length idx else b - 1)"
    define q where "q = (if b = 0 then 0 else length (blk (snd (idx ! c))) - 1)"
    have qc: "c < length idx \<Longrightarrow> q = length (blk (snd (idx ! c))) - 1" "c = length idx \<Longrightarrow> q = 0"
      using less.prems(2) by (auto simp: q_def c_def)
    obtain w where w: "ldb_wrapiter_prev (ti_index_iter it) = Some w" "cursor.wrap_at TI idx iat w c"
      using cursor.wrap_prev [OF cur, of "ti_index_iter it" b] less.prems by (auto simp: pos_at_def c_def)
    obtain it1 it2 where r: "ldb_twoiter_init_data_block (it\<lparr>ti_index_iter := w\<rparr>) = Some it1"
        "on_data_iter ldb_wrapiter_seek_last it1 = Some it2" "pos_at TI idx iat f blk dat it2 c q"
      using reposition [OF src pos_data_ok [OF src less.prems(1)] w(2), of ldb_wrapiter_seek_last q]
        cursor.wrap_seek_last [OF two_sourcesD(5) [OF src]] qc by metis
    have step: "ldb_twoiter_skip_backward it = ldb_twoiter_skip_backward it2"
      using un(1,2) skip less.prems(2) w(1) r(1,2) by (subst ldb_twoiter_skip_backward.simps) simp
    show ?thesis
    proof (cases "b = 0")
      case True
      with skip_backward_end [OF src, of it2 q] r(3) step skip show ?thesis by (simp add: c_def)
    next
      case False
      then have c: "c < b" "c < length idx" "block_start idx blk b = block_start idx blk c + length (blk (snd (idx ! c)))"
        using less.prems(2) block_start_Suc [of "b - 1" idx blk] by (simp_all add: c_def)
      from less.IH [OF c(1) r(3) c(2)] step skip False c(3) show ?thesis
        by (cases "blk (snd (idx ! c)) = []") (auto simp: q_def Suc_leI split: if_splits)
    qed
  qed
qed

lemma two_seek_pos:
  assumes src: "two_sources TI idx iat f blk dat" and t: "ok t"
  defines "b \<equiv> first_ge (compare C) idx t"
  shows "first_ge (compare C) (block_entries idx blk) t
    = block_start idx blk b + (if b < length idx then first_ge (compare C) (blk (snd (idx ! b))) t else 0)"
proof -
  let ?es = "block_entries idx blk"
  have b: "b \<le> length idx" unfolding b_def by (rule first_ge_le)
  have okt: "ok (fst e)" if "e \<in> set ?es" for e using src that by (simp add: two_sources_def)
  have before: "compare C (fst e) t < 0" if e: "e \<in> set (block_entries (take b idx) blk)" for e
  proof -
    from e obtain a where a: "a < b" "a < length idx" "e \<in> set (blk (snd (idx ! a)))"
      by (auto simp: block_entries_def in_set_conv_nth [of _ "take b idx"])
    have "compare C (fst e) (fst (idx ! a)) \<le> 0" using src a by (simp add: two_sources_def)
    moreover have "compare C (fst (idx ! a)) t < 0" using a(1) first_ge_below [of a "compare C" idx t] unfolding b_def by simp
    moreover have "e \<in> set ?es" using e b by (auto simp: block_entries_def dest: in_set_takeD)
    ultimately show ?thesis using cmp_le_less_trans okt kv_ok [OF two_sourcesD(2) [OF src] a(2)] t by blast
  qed
  show ?thesis
  proof (cases "b < length idx")
    case False
    with b have bl: "b = length idx" by simp
    then have "takeWhile (\<lambda>e. compare C (fst e) t < 0) ?es = ?es" using before by (simp add: takeWhile_eq_all_conv)
    then have "first_ge (compare C) ?es t = length ?es" unfolding first_ge_def by (rule arg_cong)
    with bl show ?thesis by simp
  next
    case True
    let ?x = "blk (snd (idx ! b))" and ?g = "first_ge (compare C) (blk (snd (idx ! b))) t"
    note split = block_entries_split [OF True, of blk]
    have later: "\<not> compare C (fst e) t < 0" if e: "e \<in> set (block_entries (drop (Suc b) idx) blk)" for e
    proof -
      from e obtain x where x: "x \<in> set (drop (Suc b) idx)" "e \<in> set (blk (snd x))" by (auto simp: block_entries_def)
      then obtain i where i: "i < length idx - Suc b" "x = idx ! (Suc b + i)" by (auto simp: in_set_conv_nth)
      define c where "c = Suc b + i"
      have c: "b < c" "c < length idx" "e \<in> set (blk (snd (idx ! c)))" using x i by (auto simp: c_def)
      have "compare C (fst (idx ! b)) (fst e) < 0" using src c by (simp add: two_sources_def)
      moreover have "\<not> compare C (fst (idx ! b)) t < 0" using first_ge_at [of "compare C" idx t] True unfolding b_def by simp
      moreover have "ok (fst e)" using okt e split by simp
      ultimately show ?thesis using cmp_less_trans kv_ok [OF two_sourcesD(2) [OF src] True] t by blast
    qed
    have "takeWhile (\<lambda>e. compare C (fst e) t < 0) ?es = block_entries (take b idx) blk @ takeWhile (\<lambda>e. compare C (fst e) t < 0) ?x"
    proof (cases "?g < length ?x")
      case g: True
      then have "takeWhile (\<lambda>e. compare C (fst e) t < 0) (?x @ block_entries (drop (Suc b) idx) blk)
          = takeWhile (\<lambda>e. compare C (fst e) t < 0) ?x"
        using first_ge_at [OF g] nth_mem [OF g] by (intro takeWhile_append1) auto
      with before split show ?thesis by (simp add: takeWhile_append2)
    next
      case False
      then have "?g = length ?x" using first_ge_le [of "compare C" ?x t] by simp
      then have x: "\<forall>e \<in> set ?x. compare C (fst e) t < 0"
        using first_ge_below [of _ "compare C" ?x t] by (metis in_set_conv_nth)
      have "takeWhile (\<lambda>e. compare C (fst e) t < 0) (block_entries (drop (Suc b) idx) blk) = []"
        using later by (cases "block_entries (drop (Suc b) idx) blk") auto
      moreover have all: "takeWhile (\<lambda>e. compare C (fst e) t < 0) ?x = ?x" using x by (simp add: takeWhile_eq_all_conv)
      ultimately show ?thesis unfolding split all using before x by (simp add: takeWhile_append2)
    qed
    with True show ?thesis by (simp add: first_ge_def block_start_def)
  qed
qed

lemma two_cursor:
  assumes src: "two_sources TI idx iat f blk dat"
  shows "cursor ldb_twoiter_table (compare C) (block_entries idx blk) (two_at TI idx iat f blk dat) ok"
proof
  let ?es = "block_entries idx blk" and ?at = "two_at TI idx iat f blk dat"
  fix it i assume at: "?at it i"
  note cur = two_sourcesD(1) [OF src] and tab = ldb_twoiter_table_def and dok = two_data_ok [OF src at]
  obtain b0 where b0: "cursor.wrap_at TI idx iat (ti_index_iter it) b0" using at by (auto simp: two_at_def pos_at_def split: if_splits)
  have pos: "\<exists>b p. b < length idx \<and> p < length (blk (snd (idx ! b))) \<and> pos_at TI idx iat f blk dat it b p \<and> i = block_start idx blk b + p"
    if "i < length ?es" using at that by (auto simp: two_at_def)
  show "i \<le> length ?es" using at by (simp add: two_at_def)
  show "tbl_valid ldb_twoiter_table it = (i < length ?es)"
  proof (cases "i < length ?es")
    case True
    with pos pos_unready(1) [OF src] show ?thesis by (auto simp: tab ldb_twoiter_valid_def)
  next
    case False
    with at show ?thesis by (auto simp: tab ldb_twoiter_valid_def ldb_wrapiter_valid_def two_at_def split: if_splits)
  qed
  note valid = this
  have data: "\<exists>b p. b < length idx \<and> p < length (blk (snd (idx ! b))) \<and> pos_at TI idx iat f blk dat it b p \<and> i = block_start idx blk b + p
      \<and> data_at f blk dat (snd (idx ! b)) (ti_data_iter it) p \<and> ?es ! i = blk (snd (idx ! b)) ! p" if "i < length ?es"
    using pos [OF that] block_entries_nth [of _ idx _ blk] by (fastforce simp: pos_at_def)
  show "i < length ?es \<Longrightarrow> tbl_key ldb_twoiter_table it = Some (fst (?es ! i))"
    and "i < length ?es \<Longrightarrow> tbl_value ldb_twoiter_table it = Some (snd (?es ! i))"
    using valid data cursor.wrap_key [OF two_sourcesD(5) [OF src]] cursor.wrap_value [OF two_sourcesD(5) [OF src]]
    by (auto simp: tab ldb_twoiter_key_def ldb_twoiter_value_def)
  show "tbl_status ldb_twoiter_table it = Some LDB_OK"
    using cursor.wrap_status [OF cur b0] data_ok_status [OF src dok] dok
    by (cases "wi_iter (ti_data_iter it)") (simp_all add: tab ldb_twoiter_status_def data_ok_def)
  show "\<exists>s'. tbl_seek_first ldb_twoiter_table it = Some s' \<and> ?at s' 0"
  proof -
    obtain w where w: "ldb_wrapiter_seek_first (ti_index_iter it) = Some w" "cursor.wrap_at TI idx iat w 0"
      using cursor.wrap_seek_first [OF cur b0] by blast
    from reposition [OF src dok w(2), of ldb_wrapiter_seek_first 0] cursor.wrap_seek_first [OF two_sourcesD(5) [OF src]]
    obtain it1 it2 where "ldb_twoiter_init_data_block (it\<lparr>ti_index_iter := w\<rparr>) = Some it1"
        "on_data_iter ldb_wrapiter_seek_first it1 = Some it2" "pos_at TI idx iat f blk dat it2 0 0" by blast
    with w(1) skip_forward_at [OF src this(3)] show ?thesis by (simp add: tab ldb_twoiter_seek_first_def)
  qed
  show "\<exists>s'. tbl_seek_last ldb_twoiter_table it = Some s' \<and> ?at s' (length ?es - 1)"
  proof -
    let ?b = "length idx - 1"
    let ?q = "if idx = [] then 0 else length (blk (snd (idx ! ?b))) - 1"
    obtain w where w: "ldb_wrapiter_seek_last (ti_index_iter it) = Some w" "cursor.wrap_at TI idx iat w ?b"
      using cursor.wrap_seek_last [OF cur b0] by blast
    have move: "\<exists>x'. ldb_wrapiter_seek_last x = Some x' \<and> data_at f blk dat (snd (idx ! ?b)) x' ?q"
      if "?b < length idx" "data_at f blk dat (snd (idx ! ?b)) x p" for x p
      using cursor.wrap_seek_last [OF two_sourcesD(5) [OF src that(1)] that(2)] that(1) by auto
    have "\<exists>it1 it2. ldb_twoiter_init_data_block (it\<lparr>ti_index_iter := w\<rparr>) = Some it1
        \<and> on_data_iter ldb_wrapiter_seek_last it1 = Some it2 \<and> pos_at TI idx iat f blk dat it2 ?b ?q"
      by (rule reposition [OF src dok w(2)], erule (1) move) (cases idx, auto)
    then obtain it1 it2 where "ldb_twoiter_init_data_block (it\<lparr>ti_index_iter := w\<rparr>) = Some it1"
        "on_data_iter ldb_wrapiter_seek_last it1 = Some it2" and p: "pos_at TI idx iat f blk dat it2 ?b ?q" by blast
    with w(1) have step: "ldb_twoiter_seek_last it = ldb_twoiter_skip_backward it2" by (simp add: ldb_twoiter_seek_last_def)
    show ?thesis
    proof (cases "idx = []")
      case True
      with skip_backward_end [OF src, of it2] p step show ?thesis by (auto simp: tab block_entries_def)
    next
      case False
      then have b: "?b < length idx" by simp
      have "Suc ?b = length idx" using False by simp
      then have len: "length ?es = block_start idx blk ?b + length (blk (snd (idx ! ?b)))"
        using block_start_Suc [OF b, of blk] by (simp only: block_start_all)
      from skip_backward_at [OF src p b] step len False show ?thesis
        by (cases "blk (snd (idx ! ?b)) = []") (auto simp: tab Suc_leI split: if_splits)
    qed
  qed
  show "\<exists>s'. tbl_seek ldb_twoiter_table it t = Some s' \<and> ?at s' (first_ge (compare C) ?es t)" if t: "ok t" for t
  proof -
    let ?b = "first_ge (compare C) idx t"
    let ?q = "if ?b < length idx then first_ge (compare C) (blk (snd (idx ! ?b))) t else 0"
    obtain w where w: "ldb_wrapiter_seek (ti_index_iter it) t = Some w" "cursor.wrap_at TI idx iat w ?b"
      using cursor.wrap_seek [OF cur b0 t] by blast
    have move: "\<exists>x'. ldb_wrapiter_seek x t = Some x' \<and> data_at f blk dat (snd (idx ! ?b)) x' ?q"
      if "?b < length idx" "data_at f blk dat (snd (idx ! ?b)) x p" for x p
      using cursor.wrap_seek [OF two_sourcesD(5) [OF src that(1)] that(2) t] that(1) by auto
    have "\<exists>it1 it2. ldb_twoiter_init_data_block (it\<lparr>ti_index_iter := w\<rparr>) = Some it1
        \<and> on_data_iter (\<lambda>w. ldb_wrapiter_seek w t) it1 = Some it2 \<and> pos_at TI idx iat f blk dat it2 ?b ?q"
      by (rule reposition [OF src dok w(2)], erule (1) move) auto
    then obtain it1 it2 where "ldb_twoiter_init_data_block (it\<lparr>ti_index_iter := w\<rparr>) = Some it1"
        "on_data_iter (\<lambda>w. ldb_wrapiter_seek w t) it1 = Some it2" "pos_at TI idx iat f blk dat it2 ?b ?q" by blast
    with w(1) skip_forward_at [OF src this(3)] two_seek_pos [OF src t] show ?thesis by (simp add: tab ldb_twoiter_seek_def)
  qed
  show "\<exists>s'. tbl_next ldb_twoiter_table it = Some s' \<and> ?at s' (i + 1)" if i: "i < length ?es"
  proof -
    from data [OF i] obtain b p where d: "b < length idx" "p < length (blk (snd (idx ! b)))" "pos_at TI idx iat f blk dat it b p"
      "i = block_start idx blk b + p" "data_at f blk dat (snd (idx ! b)) (ti_data_iter it) p" by blast
    from cursor.wrap_next [OF two_sourcesD(5) [OF src d(1)] d(5,2)] obtain w where
      w: "ldb_wrapiter_next (ti_data_iter it) = Some w" "data_at f blk dat (snd (idx ! b)) w (p + 1)" by blast
    have "pos_at TI idx iat f blk dat (it\<lparr>ti_data_iter := w\<rparr>) b (p + 1)" using d w by (simp add: pos_at_def)
    from skip_forward_at [OF src this] d(4) w(1) valid i show ?thesis by (simp add: tab ldb_twoiter_next_def)
  qed
  show "\<exists>s'. tbl_prev ldb_twoiter_table it = Some s' \<and> ?at s' (if i = 0 then length ?es else i - 1)" if i: "i < length ?es"
  proof -
    from data [OF i] obtain b p where d: "b < length idx" "p < length (blk (snd (idx ! b)))" "pos_at TI idx iat f blk dat it b p"
      "i = block_start idx blk b + p" "data_at f blk dat (snd (idx ! b)) (ti_data_iter it) p" by blast
    define q where "q = (if p = 0 then length (blk (snd (idx ! b))) else p - 1)"
    from cursor.wrap_prev [OF two_sourcesD(5) [OF src d(1)] d(5,2)] obtain w where
      w: "ldb_wrapiter_prev (ti_data_iter it) = Some w" "data_at f blk dat (snd (idx ! b)) w q" by (auto simp: q_def)
    have "pos_at TI idx iat f blk dat (it\<lparr>ti_data_iter := w\<rparr>) b q" using d w by (simp add: pos_at_def)
    from skip_backward_at [OF src this d(1)] d(2,4) w(1) valid i show ?thesis
      by (auto simp: tab ldb_twoiter_prev_def q_def split: if_splits)
  qed
qed

lemma two_create_at:
  assumes "two_sources TI idx iat f blk dat" "iat s b"
  shows "\<exists>it. ldb_twoiter_create (TI, s) f = Some (ldb_twoiter_table, it) \<and> two_at TI idx iat f blk dat it (length (block_entries idx blk))"
  using cursor.wrap_init [OF two_sourcesD(1) [OF assms(1)] assms(2)]
  by (auto simp: ldb_twoiter_create_def ldb_twoiter_init_def ldb_wrapiter_init_def [of None] two_at_def)

end

section \<open>Properties\<close>

text \<open>
  C33. Two levels: over an index whose keys separate the blocks, and iterators over the index and over every
  block that meet the iterator contract, the two-level iterator meets the contract for the concatenation of
  the blocks. Empty blocks are skipped in both directions, and the skipping ends.
\<close>

theorem two_level_iterator_correct:
  fixes C :: comparator and idx :: "kv list"
  assumes "key_order (compare C) ok" "cursor TI (compare C) idx iat ok" "iat s p0"
    and "\<forall>h \<in> snd ` set idx. cursor (fst (f h)) (compare C) (blk h) (dat h) ok \<and> (\<exists>p. dat h (snd (f h)) p)"
    and "sorted_wrt (\<lambda>a b. compare C (fst a) (fst b) < 0) idx" "\<forall>e \<in> set idx. ok (fst e)" "\<forall>e \<in> set (block_entries idx blk). ok (fst e)"
    and "\<forall>b < length idx. \<forall>e \<in> set (blk (snd (idx ! b))). compare C (fst e) (fst (idx ! b)) \<le> 0"
    and "\<forall>c < length idx. \<forall>b < c. \<forall>e \<in> set (blk (snd (idx ! c))). compare C (fst (idx ! b)) (fst e) < 0"
  shows "\<exists>it at. ldb_twoiter_create (TI, s) f = Some (ldb_twoiter_table, it) \<and> at it (length (block_entries idx blk))
    \<and> cursor ldb_twoiter_table (compare C) (block_entries idx blk) at ok"
proof -
  have co: "comparator_order C ok" using assms(1) by (simp add: comparator_order_def)
  have "comparator_order.two_sources C ok TI idx iat f blk dat"
    using assms by (simp add: comparator_order.two_sources_def [OF co] key_order.kv_sorted_def [OF assms(1)])
  note comparator_order.two_cursor [OF co this] comparator_order.two_create_at [OF co this assms(3)]
  then show ?thesis by blast
qed

theorem two_level_iterator_correct_witness:
  "\<exists>ii it1 it2 it at. ldb_blockiter_create (ldb_block_init (built_block [([2], [0]), ([3], [1])]) True) bytewise_comparator = Inr ii
    \<and> ldb_blockiter_create (ldb_block_init (built_block [([1], [7]), ([2], [9])]) True) bytewise_comparator = Inr it1
    \<and> ldb_blockiter_create (ldb_block_init (built_block [([3], [8])]) True) bytewise_comparator = Inr it2
    \<and> ldb_twoiter_create (ldb_blockiter_table, ii) (\<lambda>h. (ldb_blockiter_table, if h = [0] then it1 else it2)) = Some (ldb_twoiter_table, it)
    \<and> at it (Suc (Suc (Suc 0)))
    \<and> cursor ldb_twoiter_table (compare bytewise_comparator) [([1], [7]), ([2], [9]), ([3], [8])] at (\<lambda>_. True)"
proof -
  let ?C = bytewise_comparator
  have len: "length (built_block [([2], [0]), ([3], [1])]) < 100" "length (built_block [([1], [7]), ([2], [9])]) < 100"
    "length (built_block [([3], [8])]) < 100" by code_simp+
  have srt: "sorted_wrt (\<lambda>a b. compare ?C (fst a) (fst b) < 0) [([2], [0] :: bytes), ([3], [1])]"
    "sorted_wrt (\<lambda>a b. compare ?C (fst a) (fst b) < 0) [([1], [7] :: bytes), ([2], [9])]" by code_simp+
  obtain ii iat where ii: "ldb_blockiter_create (ldb_block_init (built_block [([2], [0]), ([3], [1])]) True) ?C = Inr ii"
      "iat ii (Suc (Suc 0))" "cursor ldb_blockiter_table (compare ?C) [([2], [0]), ([3], [1])] iat (\<lambda>_. True)"
    by (rule built_block_cursor [OF bytewise.key_order_axioms srt(1) _ _ refl, of 16 True]) (use len in auto)
  obtain it1 at1 where it1: "ldb_blockiter_create (ldb_block_init (built_block [([1], [7]), ([2], [9])]) True) ?C = Inr it1"
      "at1 it1 (Suc (Suc 0))" "cursor ldb_blockiter_table (compare ?C) [([1], [7]), ([2], [9])] at1 (\<lambda>_. True)"
    by (rule built_block_cursor [OF bytewise.key_order_axioms srt(2) _ _ refl, of 16 True]) (use len in auto)
  obtain it2 at2 where it2: "ldb_blockiter_create (ldb_block_init (built_block [([3], [8])]) True) ?C = Inr it2"
      "at2 it2 (Suc 0)" "cursor ldb_blockiter_table (compare ?C) [([3], [8])] at2 (\<lambda>_. True)"
    by (rule built_block_cursor [OF bytewise.key_order_axioms _ _ _ refl, of "[([3], [8])]" 16 True]) (use len in auto)
  let ?f = "\<lambda>h :: bytes. (ldb_blockiter_table, if h = [0] then it1 else it2)"
  let ?idx = "[([2], [0]), ([3], [1])] :: kv list"
  let ?blk = "\<lambda>h :: bytes. if h = [0] then [([1], [7]), ([2], [9])] else [([3], [8])] :: kv list"
  let ?dat = "\<lambda>h :: bytes. if h = [0] then at1 else at2"
  have each: "\<forall>h \<in> snd ` set ?idx. cursor (fst (?f h)) (compare ?C) (?blk h) (?dat h) (\<lambda>_. True) \<and> (\<exists>p. ?dat h (snd (?f h)) p)"
    using it1(2,3) it2(2,3) by auto
  have es: "block_entries ?idx ?blk = [([1], [7]), ([2], [9]), ([3], [8])]" by (simp add: block_entries_def)
  have cmps: "compare ?C [1] [2] < 0" "compare ?C [2] [2] = 0" "compare ?C [3] [3] = 0" "compare ?C [2] [3] < 0" by code_simp+
  have sep: "\<forall>b < length ?idx. \<forall>e \<in> set (?blk (snd (?idx ! b))). compare ?C (fst e) (fst (?idx ! b)) \<le> 0"
    "\<forall>c < length ?idx. \<forall>b < c. \<forall>e \<in> set (?blk (snd (?idx ! c))). compare ?C (fst (?idx ! b)) (fst e) < 0"
    using cmps by (auto simp: less_Suc_eq)
  from two_level_iterator_correct [OF bytewise.key_order_axioms ii(3,2) each srt(1) _ _ sep]
  obtain it at where "ldb_twoiter_create (ldb_blockiter_table, ii) ?f = Some (ldb_twoiter_table, it)" "at it (Suc (Suc (Suc 0)))"
    "cursor ldb_twoiter_table (compare ?C) [([1], [7]), ([2], [9]), ([3], [8])] at (\<lambda>_. True)" unfolding es by auto
  with ii(1) it1(1) it2(1) show ?thesis
    by (intro exI [of _ ii] exI [of _ it1] exI [of _ it2] exI [of _ it] exI [of _ at] conjI)
qed

end
