(* ===== verification/Cache.thy ===== *)
theory Cache
  imports Hash "HOL-Library.Monad_Syntax" "HOL-Library.Multiset"
begin

text \<open>
  The sharded LRU cache (\<^verbatim>\<open>src/src/util/cache.c\<close>). The handles of a shard are the cells of a heap; the two circular
  lists and the chains of the hash table are the lists of the handles they link. The calls of the deleter are recorded in the shard.
  \<^term>\<open>None\<close> is a failed assertion or the use of a handle that was freed. The mutexes make each operation of a shard
  one step. The counters keep their widths and wrap: the references of a handle and the sizes of the hash table have 32 bits, the charges, the usage and the
  capacity are of type \<^verbatim>\<open>size_t\<close>, with 64 bits.
\<close>

section \<open>Handles\<close>

definition LDB_SHARD_BITS :: nat where
  "LDB_SHARD_BITS = 4"

definition LDB_SHARDS :: nat where
  "LDB_SHARDS = 16"

record 'v lruhandle =
  lh_value :: 'v
  lh_charge :: u64
  lh_key :: bytes
  lh_in_cache :: bool
  lh_refs :: u32
  lh_hash :: u32

type_synonym 'v lruheap = "nat \<rightharpoonup> 'v lruhandle"

definition handle_equal :: "'v lruhandle \<Rightarrow> bytes \<Rightarrow> bool" where
  "handle_equal x y \<longleftrightarrow> lh_key x = y"

section \<open>The hash table\<close>

record lrutable =
  lt_length :: u32
  lt_elems :: u32
  lt_list :: "nat list list"

definition bucket_of :: "u32 \<Rightarrow> u32 \<Rightarrow> nat" where
  "bucket_of len hash = unat (hash AND (len - 1))"

fun find_loop :: "'v lruheap \<Rightarrow> nat list \<Rightarrow> bytes \<Rightarrow> u32 \<Rightarrow> nat option option" where
  "find_loop heap [] key hash = Some None"
| "find_loop heap (p # ps) key hash = do {
     h \<leftarrow> heap p;
     if lh_hash h \<noteq> hash \<or> \<not> handle_equal h key then find_loop heap ps key hash else Some (Some p)
   }"

definition ldb_lrutable_find :: "'v lruheap \<Rightarrow> lrutable \<Rightarrow> bytes \<Rightarrow> u32 \<Rightarrow> nat option option" where
  "ldb_lrutable_find heap tbl key hash = find_loop heap (lt_list tbl ! bucket_of (lt_length tbl) hash) key hash"

partial_function (option) resize_length_loop :: "u32 \<Rightarrow> u32 \<Rightarrow> u32 option" where
  "resize_length_loop elems new_length =
     (if new_length < elems then resize_length_loop elems (new_length * 2) else Some new_length)"

fun move_chain :: "'v lruheap \<Rightarrow> u32 \<Rightarrow> nat list \<Rightarrow> nat list list \<Rightarrow> nat list list option" where
  "move_chain heap new_length [] new_list = Some new_list"
| "move_chain heap new_length (p # ps) new_list = do {
     h \<leftarrow> heap p;
     let i = bucket_of new_length (lh_hash h);
     move_chain heap new_length ps (new_list[i := p # new_list ! i])
   }"

definition ldb_lrutable_resize :: "'v lruheap \<Rightarrow> lrutable \<Rightarrow> lrutable option" where
  "ldb_lrutable_resize heap tbl = do {
     new_length \<leftarrow> resize_length_loop (lt_elems tbl) 4;
     new_list \<leftarrow> move_chain heap new_length (concat (lt_list tbl)) (replicate (unat new_length) []);
     if lt_elems tbl \<noteq> word_of_nat (length (concat (lt_list tbl))) then None
     else Some (tbl\<lparr>lt_list := new_list, lt_length := new_length\<rparr>)
   }"

definition ldb_lrutable_init :: "'v lruheap \<Rightarrow> lrutable option" where
  "ldb_lrutable_init heap = ldb_lrutable_resize heap \<lparr>lt_length = 0, lt_elems = 0, lt_list = []\<rparr>"

definition ldb_lrutable_lookup :: "'v lruheap \<Rightarrow> lrutable \<Rightarrow> bytes \<Rightarrow> u32 \<Rightarrow> nat option option" where
  "ldb_lrutable_lookup heap tbl key hash = ldb_lrutable_find heap tbl key hash"

definition ldb_lrutable_insert :: "'v lruheap \<Rightarrow> lrutable \<Rightarrow> nat \<Rightarrow> (nat option \<times> lrutable) option" where
  "ldb_lrutable_insert heap tbl h = do {
     e \<leftarrow> heap h;
     let i = bucket_of (lt_length tbl) (lh_hash e);
     old \<leftarrow> ldb_lrutable_find heap tbl (lh_key e) (lh_hash e);
     case old of
       Some p \<Rightarrow> Some (old, tbl\<lparr>lt_list := (lt_list tbl)[i := map (\<lambda>x. if x = p then h else x) (lt_list tbl ! i)]\<rparr>)
     | None \<Rightarrow> do {
         let tbl = tbl\<lparr>lt_list := (lt_list tbl)[i := lt_list tbl ! i @ [h]], lt_elems := lt_elems tbl + 1\<rparr>;
         tbl \<leftarrow> (if lt_elems tbl > lt_length tbl then ldb_lrutable_resize heap tbl else Some tbl);
         Some (old, tbl)
       }
   }"

definition ldb_lrutable_remove :: "'v lruheap \<Rightarrow> lrutable \<Rightarrow> bytes \<Rightarrow> u32 \<Rightarrow> (nat option \<times> lrutable) option" where
  "ldb_lrutable_remove heap tbl key hash = do {
     let i = bucket_of (lt_length tbl) hash;
     result \<leftarrow> ldb_lrutable_find heap tbl key hash;
     case result of
       None \<Rightarrow> Some (None, tbl)
     | Some p \<Rightarrow> Some (Some p, tbl\<lparr>lt_list := (lt_list tbl)[i := remove1 p (lt_list tbl ! i)], lt_elems := lt_elems tbl - 1\<rparr>)
   }"

section \<open>Shards\<close>

record 'v shard =
  sh_capacity :: u64
  sh_usage :: u64
  sh_list :: "nat list"
  sh_in_use :: "nat list"
  sh_table :: lrutable
  sh_heap :: "'v lruheap"
  sh_next :: nat
  sh_deleted :: "(bytes \<times> 'v) list"

definition ldb_shard_total_charge :: "'v shard \<Rightarrow> u64" where
  "ldb_shard_total_charge lru = sh_usage lru"

text \<open>Unlinking a handle from the list it is on, and the two appends.\<close>

definition ldb_shard_remove :: "'v shard \<Rightarrow> nat \<Rightarrow> 'v shard" where
  "ldb_shard_remove lru e = lru\<lparr>sh_list := removeAll e (sh_list lru), sh_in_use := removeAll e (sh_in_use lru)\<rparr>"

definition append_list :: "'v shard \<Rightarrow> nat \<Rightarrow> 'v shard" where
  "append_list lru e = lru\<lparr>sh_list := sh_list lru @ [e]\<rparr>"

definition append_in_use :: "'v shard \<Rightarrow> nat \<Rightarrow> 'v shard" where
  "append_in_use lru e = lru\<lparr>sh_in_use := sh_in_use lru @ [e]\<rparr>"

definition set_handle :: "'v shard \<Rightarrow> nat \<Rightarrow> 'v lruhandle \<Rightarrow> 'v shard" where
  "set_handle lru e h = lru\<lparr>sh_heap := (sh_heap lru)(e \<mapsto> h)\<rparr>"

definition ldb_shard_ref :: "'v shard \<Rightarrow> nat \<Rightarrow> 'v shard option" where
  "ldb_shard_ref lru e = do {
     h \<leftarrow> sh_heap lru e;
     let lru = (if lh_refs h = 1 \<and> lh_in_cache h then append_in_use (ldb_shard_remove lru e) e else lru);
     Some (set_handle lru e (h\<lparr>lh_refs := lh_refs h + 1\<rparr>))
   }"

definition ldb_shard_unref :: "'v shard \<Rightarrow> nat \<Rightarrow> 'v shard option" where
  "ldb_shard_unref lru e = do {
     h \<leftarrow> sh_heap lru e;
     if lh_refs h = 0 then None
     else do {
       let h = h\<lparr>lh_refs := lh_refs h - 1\<rparr>;
       if lh_refs h = 0 then
         (if lh_in_cache h then None
          else Some (lru\<lparr>sh_deleted := sh_deleted lru @ [(lh_key h, lh_value h)], sh_heap := (sh_heap lru)(e := None)\<rparr>))
       else if lh_in_cache h \<and> lh_refs h = 1 then
         Some (append_list (ldb_shard_remove (set_handle lru e h) e) e)
       else Some (set_handle lru e h)
     }
   }"

definition ldb_shard_init :: "u64 \<Rightarrow> 'v shard option" where
  "ldb_shard_init capacity =
     map_option (\<lambda>tbl. \<lparr>sh_capacity = capacity, sh_usage = 0, sh_list = [], sh_in_use = [], sh_table = tbl, sh_heap = Map.empty,
                       sh_next = 0, sh_deleted = []\<rparr>) (ldb_lrutable_init (Map.empty :: 'v lruheap))"

fun clear_loop :: "'v shard \<Rightarrow> nat list \<Rightarrow> 'v shard option" where
  "clear_loop lru [] = Some lru"
| "clear_loop lru (e # es) = do {
     h \<leftarrow> sh_heap lru e;
     if \<not> lh_in_cache h then None
     else if lh_refs h \<noteq> 1 then None
     else do {
       lru \<leftarrow> ldb_shard_unref (set_handle lru e (h\<lparr>lh_in_cache := False\<rparr>)) e;
       clear_loop lru es
     }
   }"

definition ldb_shard_clear :: "'v shard \<Rightarrow> 'v shard option" where
  "ldb_shard_clear lru = (if sh_in_use lru \<noteq> [] then None else clear_loop lru (sh_list lru))"

definition ldb_shard_lookup :: "'v shard \<Rightarrow> bytes \<Rightarrow> u32 \<Rightarrow> (nat option \<times> 'v shard) option" where
  "ldb_shard_lookup lru key hash = do {
     e \<leftarrow> ldb_lrutable_lookup (sh_heap lru) (sh_table lru) key hash;
     case e of
       None \<Rightarrow> Some (None, lru)
     | Some p \<Rightarrow> do { lru \<leftarrow> ldb_shard_ref lru p; Some (e, lru) }
   }"

definition ldb_shard_release :: "'v shard \<Rightarrow> nat \<Rightarrow> 'v shard option" where
  "ldb_shard_release lru handle = ldb_shard_unref lru handle"

definition ldb_shard_finish_erase :: "'v shard \<Rightarrow> nat option \<Rightarrow> 'v shard option" where
  "ldb_shard_finish_erase lru e =
     (case e of
        None \<Rightarrow> Some lru
      | Some e \<Rightarrow> do {
          h \<leftarrow> sh_heap lru e;
          if \<not> lh_in_cache h then None
          else do {
            let lru = ldb_shard_remove lru e;
            let lru = set_handle lru e (h\<lparr>lh_in_cache := False\<rparr>);
            let lru = lru\<lparr>sh_usage := sh_usage lru - lh_charge h\<rparr>;
            ldb_shard_unref lru e
          }
        })"

text \<open>\<^verbatim>\<open>ldb_shard_finish_erase(lru, ldb_lrutable_remove(&lru->table, key, hash))\<close>\<close>

definition remove_and_erase :: "'v shard \<Rightarrow> bytes \<Rightarrow> u32 \<Rightarrow> 'v shard option" where
  "remove_and_erase lru key hash = do {
     (e, tbl) \<leftarrow> ldb_lrutable_remove (sh_heap lru) (sh_table lru) key hash;
     ldb_shard_finish_erase (lru\<lparr>sh_table := tbl\<rparr>) e
   }"

definition ldb_shard_erase :: "'v shard \<Rightarrow> bytes \<Rightarrow> u32 \<Rightarrow> 'v shard option" where
  "ldb_shard_erase lru key hash = remove_and_erase lru key hash"

text \<open>One iteration of the loops that evict the oldest handle of the list.\<close>

definition evict_oldest :: "'v shard \<Rightarrow> 'v shard option" where
  "evict_oldest lru = do {
     let old = hd (sh_list lru);
     h \<leftarrow> sh_heap lru old;
     if lh_refs h \<noteq> 1 then None else remove_and_erase lru (lh_key h) (lh_hash h)
   }"

partial_function (option) prune_loop :: "'v shard \<Rightarrow> 'v shard option" where
  "prune_loop lru = (if sh_list lru \<noteq> [] then evict_oldest lru \<bind> prune_loop else Some lru)"

definition ldb_shard_prune :: "'v shard \<Rightarrow> 'v shard option" where
  "ldb_shard_prune lru = prune_loop lru"

partial_function (option) insert_evict_loop :: "'v shard \<Rightarrow> 'v shard option" where
  "insert_evict_loop lru =
     (if sh_usage lru > sh_capacity lru \<and> sh_list lru \<noteq> [] then evict_oldest lru \<bind> insert_evict_loop else Some lru)"

definition ldb_shard_insert :: "'v shard \<Rightarrow> bytes \<Rightarrow> u32 \<Rightarrow> 'v \<Rightarrow> u64 \<Rightarrow> (nat \<times> 'v shard) option" where
  "ldb_shard_insert lru key hash v charge = do {
     let e = sh_next lru;
     let h = \<lparr>lh_value = v, lh_charge = charge, lh_key = key, lh_in_cache = False, lh_refs = 1, lh_hash = hash\<rparr>;
     let lru = (set_handle lru e h)\<lparr>sh_next := e + 1\<rparr>;
     lru \<leftarrow>
       (if sh_capacity lru > 0 then do {
          let lru = set_handle lru e (h\<lparr>lh_refs := lh_refs h + 1, lh_in_cache := True\<rparr>);
          let lru = append_in_use lru e;
          let lru = lru\<lparr>sh_usage := sh_usage lru + charge\<rparr>;
          (old, tbl) \<leftarrow> ldb_lrutable_insert (sh_heap lru) (sh_table lru) e;
          ldb_shard_finish_erase (lru\<lparr>sh_table := tbl\<rparr>) old
        }
        else Some lru);
     lru \<leftarrow> insert_evict_loop lru;
     Some (e, lru)
   }"

section \<open>The cache\<close>

record 'v lru =
  lru_shard :: "'v shard list"
  lru_last_id :: u64

definition ldb_lru_hash :: "bytes \<Rightarrow> u32" where
  "ldb_lru_hash s = ldb_hash s 0"

definition ldb_lru_shard :: "u32 \<Rightarrow> nat" where
  "ldb_lru_shard hash = unat (drop_bit (32 - LDB_SHARD_BITS) hash)"

definition ldb_lru_init :: "u64 \<Rightarrow> 'v lru option" where
  "ldb_lru_init capacity =
     (let per_shard = (capacity + word_of_nat LDB_SHARDS - 1) div word_of_nat LDB_SHARDS
      in map_option (\<lambda>s. \<lparr>lru_shard = replicate LDB_SHARDS s, lru_last_id = 0\<rparr>) (ldb_shard_init per_shard))"

definition on_shard :: "'v lru \<Rightarrow> nat \<Rightarrow> ('v shard \<Rightarrow> ('r \<times> 'v shard) option) \<Rightarrow> ('r \<times> 'v lru) option" where
  "on_shard lru i f = map_option (\<lambda>(r, s). (r, lru\<lparr>lru_shard := (lru_shard lru)[i := s]\<rparr>)) (f (lru_shard lru ! i))"

text \<open>A handle of the cache is a handle of the shard that its hash selects.\<close>

type_synonym cachehandle = "u32 \<times> nat"

definition ldb_lru_insert :: "'v lru \<Rightarrow> bytes \<Rightarrow> 'v \<Rightarrow> u64 \<Rightarrow> (cachehandle \<times> 'v lru) option" where
  "ldb_lru_insert lru key v charge =
     (let hash = ldb_lru_hash key
      in map_option (\<lambda>(e, lru). ((hash, e), lru)) (on_shard lru (ldb_lru_shard hash) (\<lambda>s. ldb_shard_insert s key hash v charge)))"

definition ldb_lru_lookup :: "'v lru \<Rightarrow> bytes \<Rightarrow> (cachehandle option \<times> 'v lru) option" where
  "ldb_lru_lookup lru key =
     (let hash = ldb_lru_hash key
      in map_option (\<lambda>(e, lru). (map_option (Pair hash) e, lru)) (on_shard lru (ldb_lru_shard hash) (\<lambda>s. ldb_shard_lookup s key hash)))"

definition ldb_lru_release :: "'v lru \<Rightarrow> cachehandle \<Rightarrow> 'v lru option" where
  "ldb_lru_release lru handle =
     map_option snd (on_shard lru (ldb_lru_shard (fst handle)) (\<lambda>s. map_option (Pair ()) (ldb_shard_release s (snd handle))))"

definition ldb_lru_erase :: "'v lru \<Rightarrow> bytes \<Rightarrow> 'v lru option" where
  "ldb_lru_erase lru key =
     (let hash = ldb_lru_hash key
      in map_option snd (on_shard lru (ldb_lru_shard hash) (\<lambda>s. map_option (Pair ()) (ldb_shard_erase s key hash))))"

definition ldb_lru_value :: "'v lru \<Rightarrow> cachehandle \<Rightarrow> 'v option" where
  "ldb_lru_value lru handle = map_option lh_value (sh_heap (lru_shard lru ! ldb_lru_shard (fst handle)) (snd handle))"

text \<open>The identifier is a 64-bit counter, but the function returns a 32-bit value.\<close>

definition ldb_lru_newid :: "'v lru \<Rightarrow> u32 \<times> 'v lru" where
  "ldb_lru_newid lru = (let i = lru_last_id lru + 1 in (ucast i, lru\<lparr>lru_last_id := i\<rparr>))"

fun shards_loop :: "('v shard \<Rightarrow> 'v shard option) \<Rightarrow> 'v shard list \<Rightarrow> 'v shard list option" where
  "shards_loop f [] = Some []"
| "shards_loop f (s # ss) = do { s \<leftarrow> f s; ss \<leftarrow> shards_loop f ss; Some (s # ss) }"

definition ldb_lru_clear :: "'v lru \<Rightarrow> 'v lru option" where
  "ldb_lru_clear lru = map_option (\<lambda>ss. lru\<lparr>lru_shard := ss\<rparr>) (shards_loop ldb_shard_clear (lru_shard lru))"

definition ldb_lru_prune :: "'v lru \<Rightarrow> 'v lru option" where
  "ldb_lru_prune lru = map_option (\<lambda>ss. lru\<lparr>lru_shard := ss\<rparr>) (shards_loop ldb_shard_prune (lru_shard lru))"

definition ldb_lru_total_charge :: "'v lru \<Rightarrow> u64" where
  "ldb_lru_total_charge lru = sum_list (map ldb_shard_total_charge (lru_shard lru))"

declare resize_length_loop.simps [code] prune_loop.simps [code] insert_evict_loop.simps [code]

section \<open>The hash table holds a set of handles\<close>

definition cached :: "'v lruheap \<Rightarrow> nat set" where
  "cached heap = {e. \<exists>h. heap e = Some h \<and> lh_in_cache h}"

text \<open>
  The lengths are powers of two below \<^term>\<open>(2 :: nat) ^ 32\<close>. A table of at most \<^term>\<open>(2 :: nat) ^ 31\<close> handles is one that the doubling in
  \<^verbatim>\<open>ldb_lrutable_resize\<close> can make long enough.
\<close>

definition tbl_inv :: "'v lruheap \<Rightarrow> lrutable \<Rightarrow> nat set \<Rightarrow> bool" where
  "tbl_inv heap tbl S \<longleftrightarrow> finite S \<and> card S \<le> 2 ^ 31 \<and> (\<exists>k < 32. lt_length tbl = 2 ^ k) \<and> length (lt_list tbl) = unat (lt_length tbl)
     \<and> mset (concat (lt_list tbl)) = mset_set S \<and> unat (lt_elems tbl) = card S
     \<and> (\<forall>i < unat (lt_length tbl). \<forall>e \<in> set (lt_list tbl ! i). \<exists>h. heap e = Some h \<and> bucket_of (lt_length tbl) (lh_hash h) = i)"

lemma unat_exp_u32: "k < 32 \<Longrightarrow> unat (2 ^ k :: u32) = 2 ^ k"
  using unsigned_of_nat [of "2 ^ k :: nat", where 'b = 32 and 'a = nat] power_strict_increasing [of k 32 "2 :: nat"] by (simp add: take_bit_eq_mod)

lemma bucket_of_less: "k < 32 \<Longrightarrow> bucket_of (2 ^ k) hash < 2 ^ k"
proof -
  assume "k < 32"
  have "bucket_of (2 ^ k) hash = unat (take_bit k hash)" by (simp add: bucket_of_def take_bit_eq_mask and.commute mask_eq_exp_minus_1)
  then show ?thesis by (simp add: unsigned_take_bit_eq)
qed

lemma mset_concat_update: "i < length xs \<Longrightarrow> mset (concat (xs[i := ys])) + mset (xs ! i) = mset (concat xs) + mset ys"
proof (induction xs arbitrary: i)
  case (Cons x xs)
  then show ?case by (cases i) (auto simp: add_ac)
qed simp

lemma find_loop_spec:
  assumes "\<forall>e \<in> set ps. heap e \<noteq> None"
  shows "\<exists>r. find_loop heap ps key hash = Some r
    \<and> (case r of None \<Rightarrow> \<forall>e \<in> set ps. \<forall>h. heap e = Some h \<longrightarrow> lh_hash h \<noteq> hash \<or> lh_key h \<noteq> key
       | Some e \<Rightarrow> e \<in> set ps \<and> (\<exists>h. heap e = Some h \<and> lh_hash h = hash \<and> lh_key h = key))"
  using assms
proof (induction ps)
  case (Cons p ps)
  then obtain h where h: "heap p = Some h" by auto
  from Cons obtain r where "find_loop heap ps key hash = Some r"
    "case r of None \<Rightarrow> \<forall>e \<in> set ps. \<forall>h. heap e = Some h \<longrightarrow> lh_hash h \<noteq> hash \<or> lh_key h \<noteq> key
     | Some e \<Rightarrow> e \<in> set ps \<and> (\<exists>h. heap e = Some h \<and> lh_hash h = hash \<and> lh_key h = key)" by auto
  with h show ?case by (auto simp: handle_equal_def split: option.splits)
qed simp

lemma tbl_inv_set: "tbl_inv heap tbl S \<Longrightarrow> set (concat (lt_list tbl)) = S"
  unfolding tbl_inv_def by (metis finite_set_mset_mset_set set_mset_mset)

lemma tbl_inv_live: "tbl_inv heap tbl S \<Longrightarrow> e \<in> S \<Longrightarrow> \<exists>h. heap e = Some h \<and> e \<in> set (lt_list tbl ! bucket_of (lt_length tbl) (lh_hash h))"
proof -
  assume inv: "tbl_inv heap tbl S" "e \<in> S"
  then obtain ch where "ch \<in> set (lt_list tbl)" "e \<in> set ch" using tbl_inv_set [OF inv(1)] by auto
  then obtain i where "i < length (lt_list tbl)" "e \<in> set (lt_list tbl ! i)" by (metis in_set_conv_nth)
  with inv(1) show ?thesis unfolding tbl_inv_def by metis
qed

lemma tbl_inv_bucket:
  assumes "tbl_inv heap tbl S"
  shows "bucket_of (lt_length tbl) hash < length (lt_list tbl)" "set (lt_list tbl ! bucket_of (lt_length tbl) hash) \<subseteq> S"
proof -
  show i: "bucket_of (lt_length tbl) hash < length (lt_list tbl)" using assms bucket_of_less unfolding tbl_inv_def by (metis unat_exp_u32)
  from nth_mem [OF i] show "set (lt_list tbl ! bucket_of (lt_length tbl) hash) \<subseteq> S" using tbl_inv_set [OF assms] by auto
qed

lemma tbl_inv_cong:
  assumes "tbl_inv heap tbl S" "\<And>e. e \<in> S \<Longrightarrow> map_option lh_hash (heap' e) = map_option lh_hash (heap e)"
  shows "tbl_inv heap' tbl S"
proof -
  have "\<exists>h. heap' e = Some h \<and> bucket_of (lt_length tbl) (lh_hash h) = i"
    if i: "i < unat (lt_length tbl)" "e \<in> set (lt_list tbl ! i)" for i e
  proof -
    have "i < length (lt_list tbl)" using assms(1) i(1) by (simp add: tbl_inv_def)
    then have "e \<in> S" using i(2) tbl_inv_set [OF assms(1)] by (metis UN_I nth_mem set_concat)
    with assms i show ?thesis by (force simp: tbl_inv_def)
  qed
  with assms(1) show ?thesis by (simp add: tbl_inv_def)
qed

lemma lrutable_find_spec:
  assumes "tbl_inv heap tbl S"
  obtains r where "ldb_lrutable_find heap tbl key hash = Some r"
    "r = None \<Longrightarrow> \<forall>e \<in> S. \<forall>h. heap e = Some h \<longrightarrow> lh_hash h \<noteq> hash \<or> lh_key h \<noteq> key"
    "\<And>e. r = Some e \<Longrightarrow> e \<in> S \<and> e \<in> set (lt_list tbl ! bucket_of (lt_length tbl) hash) \<and> (\<exists>h. heap e = Some h \<and> lh_hash h = hash \<and> lh_key h = key)"
proof -
  let ?b = "lt_list tbl ! bucket_of (lt_length tbl) hash"
  have "\<forall>e \<in> set ?b. heap e \<noteq> None" using tbl_inv_bucket(2) [OF assms] tbl_inv_live [OF assms] by blast
  from find_loop_spec [OF this] obtain r where r: "ldb_lrutable_find heap tbl key hash = Some r"
    "case r of None \<Rightarrow> \<forall>e \<in> set ?b. \<forall>h. heap e = Some h \<longrightarrow> lh_hash h \<noteq> hash \<or> lh_key h \<noteq> key
       | Some e \<Rightarrow> e \<in> set ?b \<and> (\<exists>h. heap e = Some h \<and> lh_hash h = hash \<and> lh_key h = key)"
    unfolding ldb_lrutable_find_def by blast
  show ?thesis
  proof (rule that [OF r(1)])
    show "\<forall>e \<in> S. \<forall>h. heap e = Some h \<longrightarrow> lh_hash h \<noteq> hash \<or> lh_key h \<noteq> key" if "r = None"
      using r(2) that tbl_inv_live [OF assms] by fastforce
  qed (use r(2) tbl_inv_bucket(2) [OF assms] in auto)
qed

lemma resize_length_power: "k < 32 \<Longrightarrow> elems \<le> 2 ^ 31 \<Longrightarrow> \<exists>k' < 32. resize_length_loop elems (2 ^ k) = Some (2 ^ k')"
proof (induction "31 - k" arbitrary: k rule: less_induct)
  case less
  show ?case
  proof (cases "(2 :: u32) ^ k < elems")
    case True
    then have "unat ((2 :: u32) ^ k) < unat ((2 :: u32) ^ 31)" using less.prems(2) by (simp add: word_less_nat_alt word_le_nat_alt)
    then have "(2 :: nat) ^ k < 2 ^ 31" using less.prems(1) by (simp add: unat_exp_u32)
    then have k: "k < 31" by (rule power_less_imp_less_exp [rotated]) simp
    have "resize_length_loop elems (2 ^ k) = resize_length_loop elems (2 ^ Suc k)"
      using True by (subst resize_length_loop.simps) (simp add: mult.commute)
    then show ?thesis using less.hyps [of "Suc k"] less.prems(2) k by simp
  next
    case False
    then show ?thesis using less.prems(1) by (subst resize_length_loop.simps) auto
  qed
qed

abbreviation buckets_ok :: "'v lruheap \<Rightarrow> nat \<Rightarrow> nat list list \<Rightarrow> bool" where
  "buckets_ok heap k l \<equiv> \<forall>i < 2 ^ k. \<forall>e \<in> set (l ! i). \<exists>h. heap e = Some h \<and> bucket_of (2 ^ k) (lh_hash h) = i"

lemma move_chain_spec:
  assumes "k < 32" "\<forall>e \<in> set ps. heap e \<noteq> None" "length acc = 2 ^ k" "buckets_ok heap k acc"
  shows "\<exists>new. move_chain heap (2 ^ k) ps acc = Some new \<and> length new = 2 ^ k \<and> mset (concat new) = mset ps + mset (concat acc)
    \<and> buckets_ok heap k new"
  using assms
proof (induction ps arbitrary: acc)
  case (Cons p ps)
  then obtain h where h: "heap p = Some h" by auto
  let ?i = "bucket_of (2 ^ k) (lh_hash h)"
  let ?acc = "acc[?i := p # acc ! ?i]"
  have i: "?i < length acc" using bucket_of_less Cons.prems(1,3) by simp
  have m: "mset (concat ?acc) = add_mset p (mset (concat acc))" using mset_concat_update [OF i, of "p # acc ! ?i"] by simp
  have "buckets_ok heap k ?acc"
  proof (intro allI ballI impI)
    fix j e assume j: "j < 2 ^ k" "e \<in> set (?acc ! j)"
    show "\<exists>h. heap e = Some h \<and> bucket_of (2 ^ k) (lh_hash h) = j"
      using Cons.prems(3,4) i h j by (cases "j = ?i") (auto split: if_splits)
  qed
  with Cons.IH [of ?acc] Cons.prems(1-3) h m show ?case by (auto simp: Let_def)
qed simp

lemma lrutable_resize_spec:
  assumes "finite S" "card S \<le> 2 ^ 31" "mset (concat (lt_list tbl)) = mset_set S" "unat (lt_elems tbl) = card S" "\<forall>e \<in> S. heap e \<noteq> None"
  shows "\<exists>tbl'. ldb_lrutable_resize heap tbl = Some tbl' \<and> tbl_inv heap tbl' S"
proof -
  have "lt_elems tbl \<le> 2 ^ 31" using assms(2,4) by (simp add: word_le_nat_alt)
  then obtain k where k: "k < 32" "resize_length_loop (lt_elems tbl) 4 = Some (2 ^ k)" using resize_length_power [of 2 "lt_elems tbl"] by auto
  have set: "set (concat (lt_list tbl)) = S" using assms(1,3) by (metis finite_set_mset_mset_set set_mset_mset)
  have len: "length (concat (lt_list tbl)) = card S" using assms(3) by (metis size_mset size_mset_set)
  have "buckets_ok heap k (replicate (2 ^ k) [])" by simp
  with move_chain_spec [of k "concat (lt_list tbl)" heap "replicate (2 ^ k) []"] set assms(5) k(1)
  obtain new where "move_chain heap (2 ^ k) (concat (lt_list tbl)) (replicate (2 ^ k) []) = Some new" "length new = 2 ^ k"
    "mset (concat new) = mset (concat (lt_list tbl))" "buckets_ok heap k new" by (auto simp: mset_concat)
  moreover have "lt_elems tbl = word_of_nat (length (concat (lt_list tbl)))" unfolding len assms(4) [symmetric] by simp
  ultimately show ?thesis using k assms by (auto simp: ldb_lrutable_resize_def tbl_inv_def unat_exp_u32)
qed

lemma tbl_inv_distinct: "tbl_inv heap tbl S \<Longrightarrow> distinct (concat (lt_list tbl))"
  using tbl_inv_set [of heap tbl S] by (auto simp: tbl_inv_def intro!: card_distinct dest: arg_cong [where f = size])

lemma mset_replace: "distinct b \<Longrightarrow> p \<in> set b \<Longrightarrow> mset (map (\<lambda>x. if x = p then h else x) b) + {#p#} = mset b + {#h#}"
proof (induction b)
  case (Cons x b)
  show ?case
  proof (cases "x = p")
    case True
    then have "map (\<lambda>x. if x = p then h else x) b = b" using Cons.prems by (intro map_idI) auto
    then show ?thesis by (simp add: True)
  qed (use Cons in auto)
qed simp

lemma tbl_inv_update:
  assumes inv: "tbl_inv heap tbl S" and i: "i = bucket_of (lt_length tbl) hash" and S': "finite S'" "mset_set S' + mset (lt_list tbl ! i) = mset_set S + mset ys"
    and ys: "\<forall>e \<in> set ys. e \<in> set (lt_list tbl ! i) \<or> (\<exists>h. heap e = Some h \<and> lh_hash h = hash)" and n: "unat n = card S'" "card S' \<le> 2 ^ 31"
  shows "tbl_inv heap (tbl\<lparr>lt_list := (lt_list tbl)[i := ys], lt_elems := n\<rparr>) S'"
proof -
  have il: "i < length (lt_list tbl)" using tbl_inv_bucket(1) [OF inv] i by simp
  have "mset (concat ((lt_list tbl)[i := ys])) + mset (lt_list tbl ! i) = mset_set S' + mset (lt_list tbl ! i)"
    using mset_concat_update [OF il, of ys] inv S'(2) by (simp add: tbl_inv_def)
  then have "mset (concat ((lt_list tbl)[i := ys])) = mset_set S'" by simp
  moreover have "\<exists>h. heap e = Some h \<and> bucket_of (lt_length tbl) (lh_hash h) = j"
    if "j < unat (lt_length tbl)" "e \<in> set ((lt_list tbl)[i := ys] ! j)" for j e
    using that inv il ys i by (cases "j = i") (auto simp: tbl_inv_def)
  ultimately show ?thesis using inv S'(1) n by (simp add: tbl_inv_def)
qed

lemma lrutable_insert_spec:
  assumes inv: "tbl_inv heap tbl S" and e: "e \<notin> S" "heap e = Some h" and room: "card S < 2 ^ 31"
  obtains r tbl' where "ldb_lrutable_insert heap tbl e = Some (r, tbl')" "tbl_inv heap tbl' (insert e (S - set_option r))"
    "r = None \<Longrightarrow> \<forall>x \<in> S. \<forall>hx. heap x = Some hx \<longrightarrow> lh_hash hx \<noteq> lh_hash h \<or> lh_key hx \<noteq> lh_key h"
    "\<And>p. r = Some p \<Longrightarrow> p \<in> S \<and> (\<exists>hp. heap p = Some hp \<and> lh_hash hp = lh_hash h \<and> lh_key hp = lh_key h)"
proof -
  let ?i = "bucket_of (lt_length tbl) (lh_hash h)"
  obtain r where r: "ldb_lrutable_find heap tbl (lh_key h) (lh_hash h) = Some r"
    "r = None \<Longrightarrow> \<forall>x \<in> S. \<forall>hx. heap x = Some hx \<longrightarrow> lh_hash hx \<noteq> lh_hash h \<or> lh_key hx \<noteq> lh_key h"
    "\<And>p. r = Some p \<Longrightarrow> p \<in> S \<and> p \<in> set (lt_list tbl ! ?i) \<and> (\<exists>hp. heap p = Some hp \<and> lh_hash hp = lh_hash h \<and> lh_key hp = lh_key h)"
    by (rule lrutable_find_spec [OF inv, of "lh_key h" "lh_hash h"]) blast
  have fin: "finite S" "unat (lt_elems tbl) = card S" using inv by (auto simp: tbl_inv_def)
  have more: "unat (lt_elems tbl + 1) = card S + 1" using fin(2) room by (simp add: unat_word_ariths)
  have live: "\<forall>x \<in> insert e S. heap x \<noteq> None" using tbl_inv_live [OF inv] e(2) by fastforce
  show ?thesis
  proof (cases r)
    case None
    let ?t = "tbl\<lparr>lt_list := (lt_list tbl)[?i := lt_list tbl ! ?i @ [e]], lt_elems := lt_elems tbl + 1\<rparr>"
    have t: "tbl_inv heap ?t (insert e S)"
      by (rule tbl_inv_update [OF inv refl]) (use fin e room more in \<open>auto simp: add_ac\<close>)
    then have "\<exists>t'. ldb_lrutable_resize heap ?t = Some t' \<and> tbl_inv heap t' (insert e S)"
      by (intro lrutable_resize_spec live) (auto simp: tbl_inv_def)
    then obtain t' where t': "(if lt_elems ?t > lt_length ?t then ldb_lrutable_resize heap ?t else Some ?t) = Some t'"
      "tbl_inv heap t' (insert e S)" using t by (cases "lt_elems ?t > lt_length ?t") auto
    have "ldb_lrutable_insert heap tbl e = (if lt_elems ?t > lt_length ?t then ldb_lrutable_resize heap ?t else Some ?t) \<bind> (\<lambda>t. Some (None, t))"
      using r(1) None e(2) by (simp add: ldb_lrutable_insert_def Let_def)
    then have "ldb_lrutable_insert heap tbl e = Some (None, t')" unfolding t'(1) by simp
    then show ?thesis using that [of None t'] t'(2) r None by simp
  next
    case (Some p)
    let ?b = "lt_list tbl ! ?i"
    have p: "p \<in> S" "p \<in> set ?b" using r(3) [OF Some] by auto
    have "distinct ?b" using tbl_inv_distinct [OF inv] tbl_inv_bucket(1) [OF inv] by (auto simp: distinct_concat_iff)
    from mset_replace [OF this p(2), of e] have m: "mset (map (\<lambda>x. if x = p then e else x) ?b) + {#p#} = mset ?b + {#e#}" .
    have S: "mset_set (insert e (S - {p})) + {#p#} = mset_set S + {#e#}" using p(1) e(1) fin(1)
      by (simp add: mset_set.remove [OF fin(1) p(1)])
    have tb: "tbl\<lparr>lt_list := (lt_list tbl)[?i := map (\<lambda>x. if x = p then e else x) ?b], lt_elems := lt_elems tbl\<rparr>
        = tbl\<lparr>lt_list := (lt_list tbl)[?i := map (\<lambda>x. if x = p then e else x) ?b]\<rparr>" by simp
    have "(mset_set (insert e (S - {p})) + {#p#}) + mset ?b = mset_set S + (mset (map (\<lambda>x. if x = p then e else x) ?b) + {#p#})"
      unfolding m S by (simp only: ac_simps)
    then have "mset_set (insert e (S - {p})) + mset ?b = mset_set S + mset (map (\<lambda>x. if x = p then e else x) ?b)"
      by (simp only: add.assoc [symmetric] add.commute [of _ "{#p#}"] add.left_commute [of _ "{#p#}"]) simp
    moreover have c: "unat (lt_elems tbl) = card (insert e (S - {p}))" using fin e(1) p(1) card_Suc_Diff1 [OF fin(1) p(1)] by simp
    ultimately have "tbl_inv heap (tbl\<lparr>lt_list := (lt_list tbl)[?i := map (\<lambda>x. if x = p then e else x) ?b], lt_elems := lt_elems tbl\<rparr>) (insert e (S - {p}))"
      using fin e(2) room by (intro tbl_inv_update [OF inv refl]) auto
    then have "tbl_inv heap (tbl\<lparr>lt_list := (lt_list tbl)[?i := map (\<lambda>x. if x = p then e else x) ?b]\<rparr>) (insert e (S - {p}))" unfolding tb .
    moreover have "ldb_lrutable_insert heap tbl e = Some (Some p, tbl\<lparr>lt_list := (lt_list tbl)[?i := map (\<lambda>x. if x = p then e else x) ?b]\<rparr>)"
      using r(1) e(2) Some by (simp add: ldb_lrutable_insert_def Let_def)
    ultimately show ?thesis using that [of "Some p"] r(3) [OF Some] by simp
  qed
qed

lemma lrutable_remove_spec:
  assumes inv: "tbl_inv heap tbl S"
  obtains r tbl' where "ldb_lrutable_remove heap tbl key hash = Some (r, tbl')" "tbl_inv heap tbl' (S - set_option r)"
    "r = None \<Longrightarrow> \<forall>x \<in> S. \<forall>hx. heap x = Some hx \<longrightarrow> lh_hash hx \<noteq> hash \<or> lh_key hx \<noteq> key"
    "\<And>p. r = Some p \<Longrightarrow> p \<in> S \<and> (\<exists>hp. heap p = Some hp \<and> lh_hash hp = hash \<and> lh_key hp = key)"
proof -
  let ?i = "bucket_of (lt_length tbl) hash"
  let ?b = "lt_list tbl ! ?i"
  obtain r where r: "ldb_lrutable_find heap tbl key hash = Some r"
    "r = None \<Longrightarrow> \<forall>x \<in> S. \<forall>hx. heap x = Some hx \<longrightarrow> lh_hash hx \<noteq> hash \<or> lh_key hx \<noteq> key"
    "\<And>p. r = Some p \<Longrightarrow> p \<in> S \<and> p \<in> set ?b \<and> (\<exists>hp. heap p = Some hp \<and> lh_hash hp = hash \<and> lh_key hp = key)"
    by (rule lrutable_find_spec [OF inv, of key hash]) blast
  have fin: "finite S" "unat (lt_elems tbl) = card S" "card S \<le> 2 ^ 31" using inv by (auto simp: tbl_inv_def)
  show ?thesis
  proof (cases r)
    case None
    then show ?thesis using that [of None tbl] r inv by (simp add: ldb_lrutable_remove_def)
  next
    case (Some p)
    have p: "p \<in> S" "p \<in> set ?b" using r(3) [OF Some] by auto
    have "card S > 0" using p(1) fin(1) by (auto simp: card_gt_0_iff)
    then have less: "unat (lt_elems tbl - 1) = card (S - {p})" using fin p(1) by (subst unat_minus_one) (auto simp: unat_eq_0 [symmetric])
    have "mset_set S = add_mset p (mset_set (S - {p}))" using p(1) fin(1) by (rule mset_set.remove [rotated])
    moreover have "mset ?b = add_mset p (mset (remove1 p ?b))" using p(2) by simp
    ultimately have "tbl_inv heap (tbl\<lparr>lt_list := (lt_list tbl)[?i := remove1 p ?b], lt_elems := lt_elems tbl - 1\<rparr>) (S - {p})"
      by (intro tbl_inv_update [OF inv refl]) (use fin p less in \<open>auto dest: notin_set_remove1\<close>)
    then show ?thesis using that [of r] r Some by (auto simp: ldb_lrutable_remove_def Let_def)
  qed
qed

section \<open>The invariant of a shard\<close>

text \<open>
  \<^term>\<open>R e\<close> is the number of references that clients hold to the handle \<^term>\<open>e\<close>. A handle is live as long as a client or the cache refers to
  it; the list of evictable handles and the list of the handles in use are exactly the cached handles without and with clients.
\<close>

definition handle_ok :: "(nat \<Rightarrow> nat) \<Rightarrow> nat \<Rightarrow> 'v lruhandle \<Rightarrow> bool" where
  "handle_ok R e h \<longleftrightarrow> unat (lh_refs h) = R e + (if lh_in_cache h then 1 else 0) \<and> lh_refs h > 0 \<and> lh_hash h = ldb_lru_hash (lh_key h)"

lemma handle_ok_other [simp]: "x \<noteq> e \<Longrightarrow> handle_ok (R(e := r)) x h = handle_ok R x h"
  by (simp add: handle_ok_def)

definition core :: "'v shard \<Rightarrow> (nat \<Rightarrow> nat) \<Rightarrow> bool" where
  "core sh R \<longleftrightarrow> (\<forall>e \<ge> sh_next sh. sh_heap sh e = None) \<and> (\<forall>e. sh_heap sh e = None \<longrightarrow> R e = 0)
     \<and> (\<forall>e h. sh_heap sh e = Some h \<longrightarrow> handle_ok R e h)
     \<and> distinct (sh_list sh) \<and> set (sh_list sh) = {e \<in> cached (sh_heap sh). R e = 0}
     \<and> distinct (sh_in_use sh) \<and> set (sh_in_use sh) = {e \<in> cached (sh_heap sh). R e > 0}
     \<and> sh_usage sh = (\<Sum>e \<in> cached (sh_heap sh). lh_charge (the (sh_heap sh e)))"

definition unique_keys :: "'v lruheap \<Rightarrow> bool" where
  "unique_keys heap \<longleftrightarrow> (\<forall>e \<in> cached heap. \<forall>e' \<in> cached heap. lh_key (the (heap e)) = lh_key (the (heap e')) \<longrightarrow> e = e')"

definition shard_inv :: "'v shard \<Rightarrow> (nat \<Rightarrow> nat) \<Rightarrow> bool" where
  "shard_inv sh R \<longleftrightarrow> core sh R \<and> tbl_inv (sh_heap sh) (sh_table sh) (cached (sh_heap sh)) \<and> unique_keys (sh_heap sh)"

text \<open>What the shard holds, as a map, and everything that was ever inserted: the values that were handed to the deleter and the live ones.\<close>

definition content :: "'v shard \<Rightarrow> bytes \<rightharpoonup> 'v" where
  "content sh = map_of (map (\<lambda>e. (lh_key (the (sh_heap sh e)), lh_value (the (sh_heap sh e)))) (sh_list sh @ sh_in_use sh))"

definition ledger :: "'v shard \<Rightarrow> (bytes \<times> 'v) multiset" where
  "ledger sh = mset (sh_deleted sh)
     + image_mset (\<lambda>e. (lh_key (the (sh_heap sh e)), lh_value (the (sh_heap sh e)))) (mset_set (dom (sh_heap sh)))"

lemma cached_update [simp]:
  "cached (heap(e \<mapsto> h)) = (if lh_in_cache h then insert e (cached heap) else cached heap - {e})"
  "cached (heap(e := None)) = cached heap - {e}"
  by (auto simp: cached_def)

lemma cachedI: "heap e = Some h \<Longrightarrow> lh_in_cache h \<Longrightarrow> e \<in> cached heap"
  by (simp add: cached_def)

lemma core_finite:
  assumes "core sh R"
  shows "finite (dom (sh_heap sh))" "finite (cached (sh_heap sh))"
proof -
  have "dom (sh_heap sh) \<subseteq> {..<sh_next sh}" using assms by (force simp: core_def not_le)
  then show "finite (dom (sh_heap sh))" by (rule finite_subset) simp
  then show "finite (cached (sh_heap sh))" by (rule rev_finite_subset) (auto simp: cached_def)
qed

lemma content_iff:
  assumes "shard_inv sh R"
  shows "content sh k = Some v \<longleftrightarrow> (\<exists>e h. sh_heap sh e = Some h \<and> lh_in_cache h \<and> lh_key h = k \<and> lh_value h = v)"
proof -
  let ?l = "sh_list sh @ sh_in_use sh" and ?f = "\<lambda>e. (lh_key (the (sh_heap sh e)), lh_value (the (sh_heap sh e)))"
  have set: "set ?l = cached (sh_heap sh)" and d: "distinct ?l" using assms by (auto simp: shard_inv_def core_def)
  have "inj_on (lh_key \<circ> the \<circ> sh_heap sh) (set ?l)" using assms unfolding set by (auto simp: shard_inv_def unique_keys_def inj_on_def)
  then have "distinct (map fst (map ?f ?l))" using d by (simp add: distinct_map comp_def del: map_append)
  then have "content sh k = Some v \<longleftrightarrow> (k, v) \<in> set (map ?f ?l)" unfolding content_def by (rule map_of_eq_Some_iff)
  also have "\<dots> \<longleftrightarrow> (\<exists>e \<in> cached (sh_heap sh). ?f e = (k, v))" unfolding set_map set by force
  finally show ?thesis by (force simp: cached_def)
qed

lemma content_eqI:
  assumes "shard_inv sh R" "shard_inv sh' R'"
    and "\<And>e h k v. (\<exists>h. sh_heap sh' e = Some h \<and> lh_in_cache h \<and> lh_key h = k \<and> lh_value h = v)
      \<longleftrightarrow> (\<exists>h. sh_heap sh e = Some h \<and> lh_in_cache h \<and> lh_key h = k \<and> lh_value h = v)"
  shows "content sh' = content sh"
proof
  fix k show "content sh' k = content sh k"
    using content_iff [OF assms(1), of k] content_iff [OF assms(2), of k] assms(3) by (metis option.exhaust)
qed

lemma ledger_update:
  assumes "finite (dom (sh_heap sh))" "sh_heap sh e = Some h"
  shows "lh_key h' = lh_key h \<Longrightarrow> lh_value h' = lh_value h \<Longrightarrow> ledger (sh\<lparr>sh_heap := (sh_heap sh)(e \<mapsto> h')\<rparr>) = ledger sh"
    and "ledger (sh\<lparr>sh_deleted := sh_deleted sh @ [(lh_key h, lh_value h)], sh_heap := (sh_heap sh)(e := None)\<rparr>) = ledger sh"
proof -
  have d: "mset_set (dom (sh_heap sh)) = add_mset e (mset_set (dom (sh_heap sh) - {e}))"
    using assms by (intro mset_set.remove) auto
  have e: "e \<in> dom (sh_heap sh)" using assms(2) by auto
  show "ledger (sh\<lparr>sh_heap := (sh_heap sh)(e \<mapsto> h')\<rparr>) = ledger sh" if "lh_key h' = lh_key h" "lh_value h' = lh_value h"
    using assms that insert_absorb [OF e] by (auto simp: ledger_def intro!: image_mset_cong)
  have "image_mset (\<lambda>x. (lh_key (the (((sh_heap sh)(e := None)) x)), lh_value (the (((sh_heap sh)(e := None)) x)))) (mset_set (dom (sh_heap sh) - {e}))
      = image_mset (\<lambda>x. (lh_key (the (sh_heap sh x)), lh_value (the (sh_heap sh x)))) (mset_set (dom (sh_heap sh) - {e}))"
    using assms(1) by (intro image_mset_cong) auto
  then show "ledger (sh\<lparr>sh_deleted := sh_deleted sh @ [(lh_key h, lh_value h)], sh_heap := (sh_heap sh)(e := None)\<rparr>) = ledger sh"
    using assms(2) by (simp add: ledger_def d)
qed

lemma ledger_frame [simp]:
  "ledger (sh\<lparr>sh_list := l\<rparr>) = ledger sh" "ledger (sh\<lparr>sh_in_use := l\<rparr>) = ledger sh" "ledger (sh\<lparr>sh_usage := u\<rparr>) = ledger sh"
  "ledger (sh\<lparr>sh_table := t\<rparr>) = ledger sh" "ledger (sh\<lparr>sh_next := n\<rparr>) = ledger sh"
  by (simp_all add: ledger_def)

lemmas shard_defs = ldb_shard_remove_def append_list_def append_in_use_def set_handle_def

section \<open>References\<close>

lemma unique_keys_mono:
  assumes "unique_keys heap" "cached heap' \<subseteq> cached heap" "\<And>e. e \<in> cached heap' \<Longrightarrow> lh_key (the (heap' e)) = lh_key (the (heap e))"
  shows "unique_keys heap'"
  unfolding unique_keys_def using assms by (metis subsetD unique_keys_def)

lemma unique_keys_add:
  assumes u: "unique_keys heap" and sub: "cached heap' \<subseteq> insert e (cached heap)" and e: "heap' e = Some h"
    and other: "\<And>x. x \<in> cached heap' \<Longrightarrow> x \<noteq> e \<Longrightarrow> heap' x = heap x \<and> lh_key (the (heap x)) \<noteq> lh_key h"
  shows "unique_keys heap'"
  unfolding unique_keys_def
proof (intro ballI impI)
  fix x y assume xy: "x \<in> cached heap'" "y \<in> cached heap'" and k: "lh_key (the (heap' x)) = lh_key (the (heap' y))"
  show "x = y"
  proof (cases "x = e \<or> y = e")
    case True
    then show ?thesis using other [OF xy(1)] other [OF xy(2)] k e by (metis option.sel)
  next
    case False
    then show ?thesis using other [OF xy(1)] other [OF xy(2)] k u xy sub unfolding unique_keys_def by (metis insertE subsetD)
  qed
qed

lemma shard_invD:
  assumes "shard_inv sh R"
  shows "core sh R" "tbl_inv (sh_heap sh) (sh_table sh) (cached (sh_heap sh))" "unique_keys (sh_heap sh)"
    and "sh_next sh \<le> e \<Longrightarrow> sh_heap sh e = None" "sh_heap sh e = None \<Longrightarrow> R e = 0" "sh_heap sh e = Some h \<Longrightarrow> handle_ok R e h"
    and "distinct (sh_list sh)" "set (sh_list sh) = {e \<in> cached (sh_heap sh). R e = 0}"
    and "distinct (sh_in_use sh)" "set (sh_in_use sh) = {e \<in> cached (sh_heap sh). R e > 0}"
    and "sh_usage sh = (\<Sum>e \<in> cached (sh_heap sh). lh_charge (the (sh_heap sh e)))"
  using assms unfolding shard_inv_def core_def by blast+

lemma refs_update:
  assumes inv: "shard_inv sh R" and e: "sh_heap sh e = Some h" and n: "unat n = r + (if lh_in_cache h then 1 else 0)" "n > 0"
    and l: "distinct l" "set l = {x \<in> cached (sh_heap sh). (R(e := r)) x = 0}"
    and u: "distinct u" "set u = {x \<in> cached (sh_heap sh). (R(e := r)) x > 0}"
    and sh': "sh' = sh\<lparr>sh_heap := (sh_heap sh)(e \<mapsto> h\<lparr>lh_refs := n\<rparr>), sh_list := l, sh_in_use := u\<rparr>"
  shows "shard_inv sh' (R(e := r)) \<and> content sh' = content sh \<and> ledger sh' = ledger sh"
proof -
  let ?heap = "(sh_heap sh)(e \<mapsto> h\<lparr>lh_refs := n\<rparr>)"
  note I = shard_invD [OF inv]
  have c: "cached ?heap = cached (sh_heap sh)" using e by (auto simp: cached_def)
  have sum: "sh_usage sh = (\<Sum>x \<in> cached (sh_heap sh). lh_charge (the (?heap x)))"
    unfolding I(11) using e by (intro sum.cong) auto
  have heap: "?heap x = None" if "sh_next sh \<le> x" for x using I(4) [OF that] e by auto
  have live: "(R(e := r)) x = 0" if "?heap x = None" for x using that I(5) [of x] by (auto split: if_splits)
  have hok: "handle_ok (R(e := r)) x hx" if "?heap x = Some hx" for x hx
  proof (cases "x = e")
    case True
    with that I(6) [OF e] n show ?thesis by (auto simp: handle_ok_def)
  next
    case False
    with that I(6) [of x hx] show ?thesis by simp
  qed
  have "core sh' (R(e := r))" unfolding core_def sh' using sum heap live hok l u by (simp add: c del: cached_update fun_upd_apply)
  moreover have "tbl_inv ?heap (sh_table sh) (cached (sh_heap sh))" using e by (intro tbl_inv_cong [OF I(2)]) auto
  moreover have "unique_keys ?heap" by (rule unique_keys_mono [OF I(3)]) (use e c in auto)
  ultimately have inv': "shard_inv sh' (R(e := r))" unfolding shard_inv_def sh' by (simp add: c del: cached_update)
  moreover have "content sh' = content sh" by (rule content_eqI [OF inv inv']) (use e in \<open>auto simp: sh'\<close>)
  moreover have "ledger sh' = ledger sh"
    using ledger_update(1) [of sh e h "h\<lparr>lh_refs := n\<rparr>"] e core_finite(1) [OF I(1)] by (simp add: sh' ledger_def)
  ultimately show ?thesis by blast
qed

lemma shard_ref_spec:
  assumes inv: "shard_inv sh R" and e: "sh_heap sh e = Some h" and room: "R e + 2 < 2 ^ 32"
  shows "\<exists>sh'. ldb_shard_ref sh e = Some sh' \<and> shard_inv sh' (R(e := R e + 1)) \<and> content sh' = content sh \<and> ledger sh' = ledger sh
    \<and> sh_capacity sh' = sh_capacity sh \<and> sh_usage sh' = sh_usage sh \<and> map_option lh_value (sh_heap sh' e) = Some (lh_value h)"
proof -
  note I = shard_invD [OF inv]
  have h: "unat (lh_refs h) = R e + (if lh_in_cache h then 1 else 0)" using I(6) [OF e] by (simp add: handle_ok_def)
  have one: "lh_refs h = 1 \<longleftrightarrow> unat (lh_refs h) = 1" by (simp add: word_unat_eq_iff)
  have more: "unat (lh_refs h + 1) = unat (lh_refs h) + 1" using h room by (simp add: unat_word_ariths split: if_splits)
  define l where "l = (if lh_refs h = 1 \<and> lh_in_cache h then removeAll e (sh_list sh) else sh_list sh)"
  define u where "u = (if lh_refs h = 1 \<and> lh_in_cache h then removeAll e (sh_in_use sh) @ [e] else sh_in_use sh)"
  define sh' where "sh' = sh\<lparr>sh_heap := (sh_heap sh)(e \<mapsto> h\<lparr>lh_refs := lh_refs h + 1\<rparr>), sh_list := l, sh_in_use := u\<rparr>"
  have mem: "e \<in> cached (sh_heap sh) \<longleftrightarrow> lh_in_cache h" using e by (auto simp: cached_def)
  have "shard_inv sh' (R(e := R e + 1)) \<and> content sh' = content sh \<and> ledger sh' = ledger sh"
  proof (rule refs_update [OF inv e _ _ _ _ _ _ sh'_def])
    show "distinct l" "distinct u" using I(7,9) by (auto simp: l_def u_def distinct_removeAll)
    show "set l = {x \<in> cached (sh_heap sh). (R(e := R e + 1)) x = 0}"
      using I(8,10) h mem by (auto simp: l_def one)
    show "set u = {x \<in> cached (sh_heap sh). (R(e := R e + 1)) x > 0}"
      using I(8,10) h mem by (auto simp: u_def one)
    show "unat (lh_refs h + 1) = R e + 1 + (if lh_in_cache h then 1 else 0)" "lh_refs h + 1 > 0"
      using more h by (simp_all add: word_less_nat_alt)
  qed
  moreover have "ldb_shard_ref sh e = Some sh'" using e by (simp add: ldb_shard_ref_def shard_defs sh'_def l_def u_def)
  ultimately show ?thesis by (simp add: sh'_def)
qed

text \<open>The last reference of a handle that is not in the cache is the end of the handle.\<close>

lemma shard_free:
  assumes inv: "shard_inv sh R" and e: "sh_heap sh e = Some h" "\<not> lh_in_cache h" "R' = R(e := 0)"
    and sh': "sh' = sh\<lparr>sh_deleted := sh_deleted sh @ [(lh_key h, lh_value h)], sh_heap := (sh_heap sh)(e := None)\<rparr>"
  shows "shard_inv sh' R' \<and> content sh' = content sh \<and> ledger sh' = ledger sh"
proof -
  let ?heap = "(sh_heap sh)(e := None)"
  note I = shard_invD [OF inv]
  have e': "e \<notin> cached (sh_heap sh)" using e by (auto simp: cached_def)
  then have c: "cached ?heap = cached (sh_heap sh)" by simp
  have sum: "sh_usage sh = (\<Sum>x \<in> cached (sh_heap sh). lh_charge (the (?heap x)))"
    unfolding I(11) using e' by (intro sum.cong) auto
  have heap: "?heap x = None" if "sh_next sh \<le> x" for x using I(4) [OF that] by auto
  have live: "R' x = 0" if "?heap x = None" for x using that I(5) [of x] by (auto simp: e(3) split: if_splits)
  have hok: "handle_ok R' x hx" if "?heap x = Some hx" for x hx using that I(6) [of x hx] by (auto simp: e(3) split: if_splits)
  have "set (sh_list sh) = {x \<in> cached (sh_heap sh). R' x = 0}" "set (sh_in_use sh) = {x \<in> cached (sh_heap sh). R' x > 0}"
    using I(8,10) e' by (auto simp: e(3))
  then have "core sh' R'" unfolding core_def sh' using sum heap live hok I(7,9) by (simp add: c del: cached_update fun_upd_apply)
  moreover have "tbl_inv ?heap (sh_table sh) (cached (sh_heap sh))" using e' by (intro tbl_inv_cong [OF I(2)]) auto
  moreover have "unique_keys ?heap" by (rule unique_keys_mono [OF I(3)]) (use e' c in auto)
  ultimately have inv': "shard_inv sh' R'" unfolding shard_inv_def sh' by (simp add: c del: cached_update)
  moreover have "content sh' = content sh" by (rule content_eqI [OF inv inv']) (use e in \<open>auto simp: sh'\<close>)
  moreover have "ledger sh' = ledger sh" using ledger_update(2) [OF core_finite(1) [OF I(1)] e(1)] by (simp add: sh')
  ultimately show ?thesis by blast
qed

lemma shard_unref_spec:
  assumes inv: "shard_inv sh R" and R: "R e > 0"
  shows "\<exists>sh'. ldb_shard_unref sh e = Some sh' \<and> shard_inv sh' (R(e := R e - 1)) \<and> content sh' = content sh \<and> ledger sh' = ledger sh
    \<and> sh_capacity sh' = sh_capacity sh \<and> sh_usage sh' = sh_usage sh"
proof -
  note I = shard_invD [OF inv]
  obtain h where e: "sh_heap sh e = Some h" using I(5) R by (metis less_numeral_extra(3) not_Some_eq)
  have h: "unat (lh_refs h) = R e + (if lh_in_cache h then 1 else 0)" using I(6) [OF e] by (simp add: handle_ok_def)
  have num: "lh_refs h = 1 \<longleftrightarrow> unat (lh_refs h) = 1" "lh_refs h = 2 \<longleftrightarrow> unat (lh_refs h) = 2" "lh_refs h = 0 \<longleftrightarrow> unat (lh_refs h) = 0"
    by (simp_all add: word_unat_eq_iff)
  have dec: "lh_refs h - 1 = 0 \<longleftrightarrow> lh_refs h = 1" "lh_refs h - 1 = 1 \<longleftrightarrow> lh_refs h = 2" by (simp_all add: diff_eq_eq)
  have less: "unat (lh_refs h - 1) = unat (lh_refs h) - 1" using h R by (intro unat_minus_one) (auto simp: num)
  have mem: "e \<in> cached (sh_heap sh) \<longleftrightarrow> lh_in_cache h" using e by (auto simp: cached_def)
  show ?thesis
  proof (cases "lh_refs h = 1")
    case True
    then have f: "\<not> lh_in_cache h" "R(e := R e - 1) = R(e := 0)" using h R by (auto simp: num split: if_splits)
    have "ldb_shard_unref sh e = Some (sh\<lparr>sh_deleted := sh_deleted sh @ [(lh_key h, lh_value h)], sh_heap := (sh_heap sh)(e := None)\<rparr>)"
      using e True f(1) by (simp add: ldb_shard_unref_def)
    with shard_free [OF inv e f(1) refl refl] f(2) show ?thesis by auto
  next
    case False
    define l where "l = (if lh_in_cache h \<and> lh_refs h = 2 then removeAll e (sh_list sh) @ [e] else sh_list sh)"
    define u where "u = (if lh_in_cache h \<and> lh_refs h = 2 then removeAll e (sh_in_use sh) else sh_in_use sh)"
    define sh' where "sh' = sh\<lparr>sh_heap := (sh_heap sh)(e \<mapsto> h\<lparr>lh_refs := lh_refs h - 1\<rparr>), sh_list := l, sh_in_use := u\<rparr>"
    have "shard_inv sh' (R(e := R e - 1)) \<and> content sh' = content sh \<and> ledger sh' = ledger sh"
    proof (rule refs_update [OF inv e _ _ _ _ _ _ sh'_def])
      show "distinct l" "distinct u" using I(7,9) by (auto simp: l_def u_def distinct_removeAll)
      show "set l = {x \<in> cached (sh_heap sh). (R(e := R e - 1)) x = 0}" using I(8,10) h mem R False by (auto simp: l_def num split: if_splits)
      show "set u = {x \<in> cached (sh_heap sh). (R(e := R e - 1)) x > 0}" using I(8,10) h mem R False by (auto simp: u_def num split: if_splits)
      show "unat (lh_refs h - 1) = R e - 1 + (if lh_in_cache h then 1 else 0)" "lh_refs h - 1 > 0"
        using less h R False by (auto simp: word_less_nat_alt num split: if_splits)
    qed
    moreover have "lh_refs h \<noteq> 0" using h R by (auto simp: num)
    then have "ldb_shard_unref sh e = Some sh'" using e False by (simp add: ldb_shard_unref_def shard_defs sh'_def l_def u_def dec Let_def)
    ultimately show ?thesis by (simp add: sh'_def)
  qed
qed

section \<open>Leaving the cache\<close>

lemma finish_erase_spec:
  assumes c: "core sh R" and e: "sh_heap sh e = Some h" "lh_in_cache h"
    and t: "tbl_inv (sh_heap sh) tbl (cached (sh_heap sh) - {e})" and u: "unique_keys ((sh_heap sh)(e := None))"
  shows "\<exists>sh'. ldb_shard_finish_erase (sh\<lparr>sh_table := tbl\<rparr>) (Some e) = Some sh' \<and> shard_inv sh' R \<and> ledger sh' = ledger sh
    \<and> (\<forall>x. x \<noteq> e \<longrightarrow> sh_heap sh' x = sh_heap sh x) \<and> e \<notin> cached (sh_heap sh') \<and> sh_list sh' = removeAll e (sh_list sh)
    \<and> sh_capacity sh' = sh_capacity sh
    \<and> (\<forall>x. R x > 0 \<longrightarrow> map_option lh_value (sh_heap sh' x) = map_option lh_value (sh_heap sh x))"
proof -
  note I = c [unfolded core_def]
  have hok: "handle_ok R x hx" if "sh_heap sh x = Some hx" for x hx using I that by blast
  have fin: "finite (cached (sh_heap sh))" "finite (dom (sh_heap sh))" using core_finite [OF c] by auto
  have ec: "e \<in> cached (sh_heap sh)" using e by (rule cachedI)
  have refs: "unat (lh_refs h) = R e + 1" "lh_refs h \<noteq> 0" using hok [OF e(1)] e(2) by (auto simp: handle_ok_def)
  have dec: "unat (lh_refs h - 1) = R e" using refs by (simp add: unat_minus_one)
  have gone: "lh_refs h = 1 \<longleftrightarrow> R e = 0" using refs(1) by (simp add: word_unat_eq_iff)
  define heap' where "heap' = (sh_heap sh)(e := if R e = 0 then None else Some (h\<lparr>lh_in_cache := False, lh_refs := lh_refs h - 1\<rparr>))"
  define sh' where "sh' = sh\<lparr>sh_table := tbl, sh_list := removeAll e (sh_list sh), sh_in_use := removeAll e (sh_in_use sh),
    sh_usage := sh_usage sh - lh_charge h, sh_heap := heap', sh_deleted := sh_deleted sh @ (if R e = 0 then [(lh_key h, lh_value h)] else [])\<rparr>"
  have other: "heap' x = sh_heap sh x" if "x \<noteq> e" for x using that by (simp add: heap'_def)
  have c': "cached heap' = cached (sh_heap sh) - {e}" by (simp add: heap'_def)
  have run: "ldb_shard_finish_erase (sh\<lparr>sh_table := tbl\<rparr>) (Some e) = Some sh'"
    using e refs(2) gone by (simp add: ldb_shard_finish_erase_def ldb_shard_unref_def shard_defs sh'_def heap'_def)
  have "core sh' R"
  proof -
    have "(\<Sum>x \<in> cached heap'. lh_charge (the (heap' x))) = (\<Sum>x \<in> cached (sh_heap sh) - {e}. lh_charge (the (sh_heap sh x)))"
      unfolding c' using other by (intro sum.cong) auto
    also have "\<dots> = sh_usage sh - lh_charge h" using I e ec fin(1) by (simp add: sum_diff1)
    finally have "sh_usage sh - lh_charge h = (\<Sum>x \<in> cached heap'. lh_charge (the (heap' x)))" by simp
    moreover have "\<forall>x \<ge> sh_next sh. heap' x = None" using I e(1) by (auto simp: heap'_def)
    moreover have "\<forall>x. heap' x = None \<longrightarrow> R x = 0" using I by (simp add: heap'_def)
    moreover have "handle_ok R x hx" if "heap' x = Some hx" for x hx
      using that hok [of x hx] hok [OF e(1)] dec by (cases "x = e") (auto simp: heap'_def handle_ok_def word_less_nat_alt split: if_splits)
    moreover have "set (removeAll e (sh_list sh)) = {x \<in> cached heap'. R x = 0}" "set (removeAll e (sh_in_use sh)) = {x \<in> cached heap'. R x > 0}"
      using I by (auto simp: c')
    ultimately show ?thesis unfolding core_def sh'_def using I by (simp add: distinct_removeAll)
  qed
  moreover have "tbl_inv heap' tbl (cached heap')" unfolding c' by (rule tbl_inv_cong [OF t]) (simp add: heap'_def)
  moreover have "unique_keys heap'" by (rule unique_keys_mono [OF u]) (auto simp: c' other)
  ultimately have "shard_inv sh' R" by (simp add: shard_inv_def sh'_def)
  moreover have "ledger sh' = ledger sh"
    using ledger_update [OF fin(2) e(1)] by (cases "R e = 0") (simp_all add: ledger_def sh'_def heap'_def)
  moreover have "\<forall>x. R x > 0 \<longrightarrow> map_option lh_value (heap' x) = map_option lh_value (sh_heap sh x)" using e(1) by (simp add: heap'_def)
  ultimately show ?thesis using run other c' by (auto simp: sh'_def)
qed

lemma remove_and_erase_spec:
  assumes inv: "shard_inv sh R"
  shows "\<exists>sh'. remove_and_erase sh key (ldb_lru_hash key) = Some sh' \<and> shard_inv sh' R \<and> ledger sh' = ledger sh
    \<and> content sh' = (content sh)(key := None) \<and> sh_capacity sh' = sh_capacity sh
    \<and> (\<forall>e h. sh_heap sh e = Some h \<longrightarrow> lh_in_cache h \<longrightarrow> lh_key h = key \<longrightarrow> sh_list sh' = removeAll e (sh_list sh))
    \<and> (\<forall>x. (\<forall>h. sh_heap sh x = Some h \<longrightarrow> lh_in_cache h \<longrightarrow> lh_key h \<noteq> key) \<longrightarrow> sh_heap sh' x = sh_heap sh x)
    \<and> (\<forall>x. R x > 0 \<longrightarrow> map_option lh_value (sh_heap sh' x) = map_option lh_value (sh_heap sh x))"
proof -
  note I = shard_invD [OF inv]
  obtain r tbl' where r: "ldb_lrutable_remove (sh_heap sh) (sh_table sh) key (ldb_lru_hash key) = Some (r, tbl')"
    "tbl_inv (sh_heap sh) tbl' (cached (sh_heap sh) - set_option r)"
    "r = None \<Longrightarrow> \<forall>x \<in> cached (sh_heap sh). \<forall>hx. sh_heap sh x = Some hx \<longrightarrow> lh_hash hx \<noteq> ldb_lru_hash key \<or> lh_key hx \<noteq> key"
    "\<And>p. r = Some p \<Longrightarrow> p \<in> cached (sh_heap sh) \<and> (\<exists>hp. sh_heap sh p = Some hp \<and> lh_hash hp = ldb_lru_hash key \<and> lh_key hp = key)"
    by (rule lrutable_remove_spec [OF I(2), of key "ldb_lru_hash key"]) blast
  have hash: "lh_hash hx = ldb_lru_hash (lh_key hx)" if "sh_heap sh x = Some hx" for x hx using I(6) [OF that] by (simp add: handle_ok_def)
  show ?thesis
  proof (cases r)
    case None
    have none: "lh_key hx \<noteq> key" if "sh_heap sh x = Some hx" "lh_in_cache hx" for x hx
      using r(3) [OF None] cachedI [of "sh_heap sh", OF that] hash [OF that(1)] that(1) by metis
    have "content sh key = None" using content_iff [OF inv, of key] none by (metis not_Some_eq)
    then have "content sh = (content sh)(key := None)" by (simp add: fun_upd_idem)
    moreover have "content (sh\<lparr>sh_table := tbl'\<rparr>) = content sh" by (simp add: content_def)
    moreover have "shard_inv (sh\<lparr>sh_table := tbl'\<rparr>) R" using r(2) None inv by (simp add: shard_inv_def core_def)
    ultimately show ?thesis using r(1) None none by (auto simp: remove_and_erase_def ldb_shard_finish_erase_def)
  next
    case (Some p)
    obtain hp where p: "sh_heap sh p = Some hp" "lh_in_cache hp" "lh_key hp = key" using r(4) [OF Some] by (auto simp: cached_def)
    have "unique_keys ((sh_heap sh)(p := None))" by (rule unique_keys_mono [OF I(3)]) auto
    from finish_erase_spec [OF I(1) p(1,2) _ this, of tbl'] r(2) Some obtain sh' where
      sh': "ldb_shard_finish_erase (sh\<lparr>sh_table := tbl'\<rparr>) (Some p) = Some sh'" "shard_inv sh' R" "ledger sh' = ledger sh"
      "\<forall>x. x \<noteq> p \<longrightarrow> sh_heap sh' x = sh_heap sh x" "p \<notin> cached (sh_heap sh')" "sh_list sh' = removeAll p (sh_list sh)"
      "sh_capacity sh' = sh_capacity sh"
      "\<forall>x. R x > 0 \<longrightarrow> map_option lh_value (sh_heap sh' x) = map_option lh_value (sh_heap sh x)" by auto
    have only: "x = p" if "sh_heap sh x = Some hx" "lh_in_cache hx" "lh_key hx = key" for x hx
      using I(3) cachedI [of "sh_heap sh", OF that(1,2)] cachedI [of "sh_heap sh", OF p(1,2)] that(1,3) p(1,3) by (auto simp: unique_keys_def)
    have live: "sh_heap sh' x = Some hx \<and> lh_in_cache hx \<longleftrightarrow> sh_heap sh x = Some hx \<and> lh_in_cache hx \<and> x \<noteq> p" for x hx
      using sh'(4,5) by (cases "x = p") (auto simp: cached_def)
    have "content sh' k = ((content sh)(key := None)) k" for k
    proof -
      have "content sh' k = Some v \<longleftrightarrow> content sh k = Some v \<and> k \<noteq> key" for v
      proof
        assume "content sh' k = Some v"
        then obtain x hx where "sh_heap sh' x = Some hx" "lh_in_cache hx" "lh_key hx = k" "lh_value hx = v" unfolding content_iff [OF sh'(2)] by blast
        moreover from this have "sh_heap sh x = Some hx" "x \<noteq> p" using live by blast+
        ultimately show "content sh k = Some v \<and> k \<noteq> key" unfolding content_iff [OF inv] using only by blast
      next
        assume "content sh k = Some v \<and> k \<noteq> key"
        then obtain x hx where x: "sh_heap sh x = Some hx" "lh_in_cache hx" "lh_key hx = k" "lh_value hx = v" "k \<noteq> key"
          unfolding content_iff [OF inv] by blast
        then have "x \<noteq> p" using p by auto
        then have "sh_heap sh' x = Some hx" using live x by blast
        with x show "content sh' k = Some v" unfolding content_iff [OF sh'(2)] by blast
      qed
      then show ?thesis by (metis fun_upd_apply not_Some_eq)
    qed
    then have "content sh' = (content sh)(key := None)" ..
    moreover have "remove_and_erase sh key (ldb_lru_hash key) = Some sh'" using r(1) Some sh'(1) by (simp add: remove_and_erase_def)
    moreover have "\<forall>x. (\<forall>h. sh_heap sh x = Some h \<longrightarrow> lh_in_cache h \<longrightarrow> lh_key h \<noteq> key) \<longrightarrow> sh_heap sh' x = sh_heap sh x" using sh'(4) p by metis
    ultimately show ?thesis using sh'(2,3,6-8) only by (intro exI [of _ sh'] conjI) (assumption | blast)+
  qed
qed

section \<open>Eviction\<close>

text \<open>The handles \<^term>\<open>d\<close> at the front of the list, which were released first, have left the cache.\<close>

definition keys_of :: "'v lruheap \<Rightarrow> nat list \<Rightarrow> bytes set" where
  "keys_of heap d = (\<lambda>e. lh_key (the (heap e))) ` set d"

definition evicts :: "(nat \<Rightarrow> nat) \<Rightarrow> 'v shard \<Rightarrow> nat list \<Rightarrow> 'v shard \<Rightarrow> bool" where
  "evicts R sh d sh' \<longleftrightarrow> shard_inv sh' R \<and> ledger sh' = ledger sh \<and> sh_capacity sh' = sh_capacity sh
     \<and> sh_list sh = d @ sh_list sh' \<and> content sh' = content sh |` (- keys_of (sh_heap sh) d)
     \<and> (\<forall>x. x \<notin> set d \<longrightarrow> sh_heap sh' x = sh_heap sh x)"

lemma evicts_refl: "shard_inv sh R \<Longrightarrow> evicts R sh [] sh"
  by (simp add: evicts_def keys_of_def restrict_map_def)

lemma evicts_trans:
  assumes inv: "shard_inv sh R" and "evicts R sh d sh'" "evicts R sh' d' sh''"
  shows "evicts R sh (d @ d') sh''"
proof -
  have E: "shard_inv sh'' R" "ledger sh' = ledger sh" "ledger sh'' = ledger sh'" "sh_capacity sh' = sh_capacity sh" "sh_capacity sh'' = sh_capacity sh'"
    "sh_list sh = d @ sh_list sh'" "sh_list sh' = d' @ sh_list sh''"
    and c: "content sh' = content sh |` (- keys_of (sh_heap sh) d)" "content sh'' = content sh' |` (- keys_of (sh_heap sh') d')"
    and h: "\<forall>x. x \<notin> set d \<longrightarrow> sh_heap sh' x = sh_heap sh x" "\<forall>x. x \<notin> set d' \<longrightarrow> sh_heap sh'' x = sh_heap sh' x"
    using assms(2,3) by (auto simp: evicts_def)
  have "distinct (d @ d' @ sh_list sh'')" using shard_invD(7) [OF inv] E by simp
  then have "sh_heap sh' x = sh_heap sh x" if "x \<in> set d'" for x using h(1) that by auto
  then have "keys_of (sh_heap sh') d' = keys_of (sh_heap sh) d'" unfolding keys_of_def by (intro image_cong) simp_all
  then have "content sh'' = content sh |` (- keys_of (sh_heap sh) (d @ d'))" unfolding c by (simp add: keys_of_def image_Un)
  with E h show ?thesis unfolding evicts_def by simp
qed

lemma evict_oldest_spec:
  assumes inv: "shard_inv sh R" and l: "sh_list sh = e # l"
  shows "\<exists>sh'. evict_oldest sh = Some sh' \<and> evicts R sh [e] sh'"
proof -
  note I = shard_invD [OF inv]
  have "e \<in> cached (sh_heap sh)" "R e = 0" using I(8) l by auto
  then obtain h where h: "sh_heap sh e = Some h" "lh_in_cache h" "R e = 0" by (auto simp: cached_def)
  then have r: "lh_refs h = 1" "lh_hash h = ldb_lru_hash (lh_key h)" using I(6) [OF h(1)] by (simp_all add: handle_ok_def word_unat_eq_iff)
  obtain sh' where sh': "remove_and_erase sh (lh_key h) (ldb_lru_hash (lh_key h)) = Some sh'" "shard_inv sh' R" "ledger sh' = ledger sh"
    "content sh' = (content sh)(lh_key h := None)" "sh_capacity sh' = sh_capacity sh"
    "sh_list sh' = removeAll e (sh_list sh)"
    "\<forall>x. (\<forall>hx. sh_heap sh x = Some hx \<longrightarrow> lh_in_cache hx \<longrightarrow> lh_key hx \<noteq> lh_key h) \<longrightarrow> sh_heap sh' x = sh_heap sh x"
    using remove_and_erase_spec [OF inv, of "lh_key h"] h by blast
  have "sh_list sh = [e] @ sh_list sh'" using I(7) l sh'(6) by simp
  moreover have "content sh' = content sh |` (- keys_of (sh_heap sh) [e])" using sh'(4) h(1)
    by (auto simp: keys_of_def restrict_map_def fun_eq_iff)
  moreover have "sh_heap sh' x = sh_heap sh x" if "x \<noteq> e" for x
  proof -
    have "lh_key hx \<noteq> lh_key h" if "sh_heap sh x = Some hx" "lh_in_cache hx" for hx
      using I(3) cachedI [of "sh_heap sh", OF that] cachedI [of "sh_heap sh", OF h(1,2)] \<open>x \<noteq> e\<close> that(1) h(1) by (auto simp: unique_keys_def)
    with sh'(7) show ?thesis by blast
  qed
  moreover have "evict_oldest sh = Some sh'" using l h(1) r sh'(1) by (simp add: evict_oldest_def)
  ultimately show ?thesis using sh'(2,3,5) by (simp add: evicts_def)
qed

lemma prune_loop_spec: "shard_inv sh R \<Longrightarrow> \<exists>d sh'. prune_loop sh = Some sh' \<and> evicts R sh d sh' \<and> sh_list sh' = []"
proof (induction "length (sh_list sh)" arbitrary: sh)
  case 0
  then show ?case using evicts_refl by (subst prune_loop.simps) auto
next
  case (Suc n)
  then obtain e l where l: "sh_list sh = e # l" by (metis length_Suc_conv)
  obtain sh1 where sh1: "evict_oldest sh = Some sh1" "evicts R sh [e] sh1" using evict_oldest_spec [OF Suc.prems l] by blast
  then have n: "n = length (sh_list sh1)" "shard_inv sh1 R" using Suc.hyps(2) by (simp_all add: evicts_def)
  from Suc.hyps(1) [OF this] obtain d sh' where d: "prune_loop sh1 = Some sh'" "evicts R sh1 d sh'" "sh_list sh' = []" by blast
  have "prune_loop sh = Some sh'" using l sh1(1) d(1) by (subst prune_loop.simps) simp
  then show ?case using evicts_trans [OF Suc.prems sh1(2) d(2)] d(3) by blast
qed

lemma insert_evict_loop_spec:
  "shard_inv sh R \<Longrightarrow> \<exists>d sh'. insert_evict_loop sh = Some sh' \<and> evicts R sh d sh' \<and> (sh_usage sh' \<le> sh_capacity sh' \<or> sh_list sh' = [])"
proof (induction "length (sh_list sh)" arbitrary: sh)
  case 0
  then show ?case using evicts_refl by (subst insert_evict_loop.simps) auto
next
  case (Suc n)
  then obtain e l where l: "sh_list sh = e # l" by (metis length_Suc_conv)
  show ?case
  proof (cases "sh_usage sh > sh_capacity sh")
    case True
    obtain sh1 where sh1: "evict_oldest sh = Some sh1" "evicts R sh [e] sh1" using evict_oldest_spec [OF Suc.prems l] by blast
    then have n: "n = length (sh_list sh1)" "shard_inv sh1 R" using Suc.hyps(2) by (simp_all add: evicts_def)
    from Suc.hyps(1) [OF this] obtain d sh' where d: "insert_evict_loop sh1 = Some sh'" "evicts R sh1 d sh'"
      "sh_usage sh' \<le> sh_capacity sh' \<or> sh_list sh' = []" by blast
    have "insert_evict_loop sh = Some sh'" using l sh1(1) d(1) True by (subst insert_evict_loop.simps) simp
    then show ?thesis using evicts_trans [OF Suc.prems sh1(2) d(2)] d(3) by blast
  next
    case False
    then have "insert_evict_loop sh = Some sh" by (subst insert_evict_loop.simps) simp
    with evicts_refl [OF Suc.prems] False show ?thesis by fastforce
  qed
qed

section \<open>Looking up and inserting\<close>

lemma shard_lookup_spec:
  assumes inv: "shard_inv sh R" and room: "\<And>e. R e + 2 < 2 ^ 32"
  shows "\<exists>r sh'. ldb_shard_lookup sh key (ldb_lru_hash key) = Some (r, sh') \<and> content sh' = content sh \<and> ledger sh' = ledger sh
    \<and> sh_capacity sh' = sh_capacity sh \<and> sh_usage sh' = sh_usage sh
    \<and> (case r of None \<Rightarrow> content sh key = None \<and> shard_inv sh' R
       | Some e \<Rightarrow> shard_inv sh' (R(e := R e + 1)) \<and> map_option lh_value (sh_heap sh' e) = content sh key \<and> content sh key \<noteq> None)"
proof -
  note I = shard_invD [OF inv]
  obtain r where r: "ldb_lrutable_find (sh_heap sh) (sh_table sh) key (ldb_lru_hash key) = Some r"
    "r = None \<Longrightarrow> \<forall>e \<in> cached (sh_heap sh). \<forall>h. sh_heap sh e = Some h \<longrightarrow> lh_hash h \<noteq> ldb_lru_hash key \<or> lh_key h \<noteq> key"
    "\<And>e. r = Some e \<Longrightarrow> e \<in> cached (sh_heap sh) \<and> (\<exists>h. sh_heap sh e = Some h \<and> lh_hash h = ldb_lru_hash key \<and> lh_key h = key)"
    by (rule lrutable_find_spec [OF I(2), of key "ldb_lru_hash key"]) blast
  show ?thesis
  proof (cases r)
    case None
    have "lh_key h \<noteq> key" if "sh_heap sh e = Some h" "lh_in_cache h" for e h
      using r(2) [OF None] cachedI [of "sh_heap sh", OF that] I(6) [OF that(1)] that(1) by (auto simp: handle_ok_def)
    then have "content sh key = None" using content_iff [OF inv, of key] by (metis not_Some_eq)
    with r(1) None inv show ?thesis by (auto simp: ldb_shard_lookup_def ldb_lrutable_lookup_def)
  next
    case (Some e)
    obtain h where h: "sh_heap sh e = Some h" "lh_in_cache h" "lh_key h = key" using r(3) [OF Some] by (auto simp: cached_def)
    then have c: "content sh key = Some (lh_value h)" using content_iff [OF inv] by blast
    obtain sh' where "ldb_shard_ref sh e = Some sh'" "shard_inv sh' (R(e := R e + 1))" "content sh' = content sh" "ledger sh' = ledger sh"
      "sh_capacity sh' = sh_capacity sh" "sh_usage sh' = sh_usage sh" "map_option lh_value (sh_heap sh' e) = Some (lh_value h)"
      using shard_ref_spec [OF inv h(1) room] by blast
    with r(1) Some c show ?thesis
      by (intro exI [of _ r] exI [of _ sh']) (simp add: ldb_shard_lookup_def ldb_lrutable_lookup_def)
  qed
qed

lemma add_handle:
  assumes inv: "shard_inv sh R" and e: "e = sh_next sh"
    and h: "lh_refs h = (if lh_in_cache h then 2 else 1)" "lh_hash h = ldb_lru_hash (lh_key h)"
    and sh': "sh' = sh\<lparr>sh_heap := (sh_heap sh)(e \<mapsto> h), sh_next := e + 1, sh_in_use := (if lh_in_cache h then sh_in_use sh @ [e] else sh_in_use sh),
      sh_usage := (if lh_in_cache h then sh_usage sh + lh_charge h else sh_usage sh)\<rparr>"
  shows "core sh' (R(e := 1))" "sh_heap sh e = None" "R e = 0" "ledger sh' = add_mset (lh_key h, lh_value h) (ledger sh)"
proof -
  note I = shard_invD [OF inv]
  let ?heap = "(sh_heap sh)(e \<mapsto> h)"
  show none: "sh_heap sh e = None" and "R e = 0" using I(4) [of e] I(5) [of e] e by simp_all
  then have out: "e \<notin> cached (sh_heap sh)" by (simp add: cached_def)
  have fin: "finite (cached (sh_heap sh))" "finite (dom (sh_heap sh))" using core_finite [OF I(1)] by auto
  have sum: "(\<Sum>x \<in> cached (sh_heap sh). lh_charge (the (?heap x))) = sh_usage sh"
    unfolding I(11) using out by (intro sum.cong) auto
  have use: "sh_usage sh' = (\<Sum>x \<in> cached ?heap. lh_charge (the (?heap x)))"
  proof (cases "lh_in_cache h")
    case True
    then have "(\<Sum>x \<in> cached ?heap. lh_charge (the (?heap x))) = lh_charge (the (?heap e)) + (\<Sum>x \<in> cached (sh_heap sh). lh_charge (the (?heap x)))"
      using out fin(1) by (simp del: fun_upd_apply)
    with sum True show ?thesis by (simp add: sh')
  next
    case False
    then have "cached ?heap = cached (sh_heap sh)" using out by simp
    with sum False show ?thesis by (simp add: sh' del: cached_update fun_upd_apply)
  qed
  have "?heap x = None" if "sh_next sh' \<le> x" for x using I(4) [of x] that e by (simp add: sh')
  moreover have "(R(e := 1)) x = 0" if "?heap x = None" for x using that I(5) [of x] by (auto split: if_splits)
  moreover have "handle_ok (R(e := 1)) x hx" if "?heap x = Some hx" for x hx
    using that I(6) [of x hx] h by (cases "x = e") (auto simp: handle_ok_def)
  moreover have "e \<notin> set (sh_list sh)" "e \<notin> set (sh_in_use sh)" using out I(8,10) by auto
  then have "set (sh_list sh) = {x \<in> cached ?heap. (R(e := 1)) x = 0}" "set (sh_in_use sh') = {x \<in> cached ?heap. (R(e := 1)) x > 0}" "distinct (sh_in_use sh')"
    using I(8,9,10) out by (auto simp: sh')
  ultimately show "core sh' (R(e := 1))" using use I(7) unfolding core_def by (simp add: sh' del: fun_upd_apply cached_update)
  have "image_mset (\<lambda>x. (lh_key (the (?heap x)), lh_value (the (?heap x)))) (mset_set (dom (sh_heap sh)))
      = image_mset (\<lambda>x. (lh_key (the (sh_heap sh x)), lh_value (the (sh_heap sh x)))) (mset_set (dom (sh_heap sh)))"
    using none fin(2) by (intro image_mset_cong) (auto simp: domIff)
  moreover have "mset_set (dom ?heap) = add_mset e (mset_set (dom (sh_heap sh)))" using none fin(2) by (simp add: domIff)
  ultimately show "ledger sh' = add_mset (lh_key h, lh_value h) (ledger sh)" by (simp add: ledger_def sh' del: dom_fun_upd)
qed

text \<open>Entering the cache: the new handle takes the place of the one with its key, if there is one.\<close>

lemma enter_cache:
  assumes inv: "shard_inv sh R" and room: "card (cached (sh_heap sh)) < 2 ^ 31" and e: "e = sh_next sh" and h: "lh_refs h = 2" "lh_in_cache h" "lh_hash h = ldb_lru_hash (lh_key h)"
    and sh1: "sh1 = sh\<lparr>sh_heap := (sh_heap sh)(e \<mapsto> h), sh_next := e + 1, sh_in_use := sh_in_use sh @ [e], sh_usage := sh_usage sh + lh_charge h\<rparr>"
  shows "\<exists>old tbl sh'. ldb_lrutable_insert (sh_heap sh1) (sh_table sh1) e = Some (old, tbl) \<and> ldb_shard_finish_erase (sh1\<lparr>sh_table := tbl\<rparr>) old = Some sh'
    \<and> shard_inv sh' (R(e := 1)) \<and> content sh' = (content sh)(lh_key h \<mapsto> lh_value h) \<and> ledger sh' = add_mset (lh_key h, lh_value h) (ledger sh)
    \<and> sh_capacity sh' = sh_capacity sh \<and> sh_heap sh' e = Some h
    \<and> (\<forall>x. R x > 0 \<longrightarrow> map_option lh_value (sh_heap sh' x) = map_option lh_value (sh_heap sh x))"
proof -
  note I = shard_invD [OF inv]
  have sh1': "sh1 = sh\<lparr>sh_heap := (sh_heap sh)(e \<mapsto> h), sh_next := e + 1, sh_in_use := (if lh_in_cache h then sh_in_use sh @ [e] else sh_in_use sh),
      sh_usage := (if lh_in_cache h then sh_usage sh + lh_charge h else sh_usage sh)\<rparr>" using h(2) sh1 by simp
  have refs: "lh_refs h = (if lh_in_cache h then 2 else 1)" using h(1,2) by simp
  note A = add_handle [OF inv e refs h(3) sh1']
  let ?heap = "(sh_heap sh)(e \<mapsto> h)" and ?S = "cached (sh_heap sh)"
  have out: "e \<notin> ?S" using A(2) by (simp add: cached_def)
  have hp: "sh_heap sh1 = ?heap" "sh_table sh1 = sh_table sh" "cached ?heap = insert e ?S" using h(2) by (simp_all add: sh1)
  have "tbl_inv ?heap (sh_table sh) ?S" by (rule tbl_inv_cong [OF I(2)]) (use out in auto)
  then obtain old tbl where t: "ldb_lrutable_insert ?heap (sh_table sh) e = Some (old, tbl)" "tbl_inv ?heap tbl (insert e (?S - set_option old))"
    "old = None \<Longrightarrow> \<forall>x \<in> ?S. \<forall>hx. ?heap x = Some hx \<longrightarrow> lh_hash hx \<noteq> lh_hash h \<or> lh_key hx \<noteq> lh_key h"
    "\<And>p. old = Some p \<Longrightarrow> p \<in> ?S \<and> (\<exists>hp. ?heap p = Some hp \<and> lh_hash hp = lh_hash h \<and> lh_key hp = lh_key h)"
    by (rule lrutable_insert_spec [of ?heap "sh_table sh" ?S e h]) (use out room in auto)
  have hash: "lh_hash hx = ldb_lru_hash (lh_key hx)" if "sh_heap sh x = Some hx" for x hx using I(6) [OF that] by (simp add: handle_ok_def)
  have Re: "x \<noteq> e" if "R x > 0" for x using that A(3) by auto
  have fresh: "content sh' = (content sh)(lh_key h \<mapsto> lh_value h)"
    if i': "shard_inv sh' (R(e := 1))" and c': "sh_heap sh' e = Some h"
      "\<And>x hx. x \<noteq> e \<Longrightarrow> sh_heap sh' x = Some hx \<and> lh_in_cache hx \<longleftrightarrow> sh_heap sh x = Some hx \<and> lh_in_cache hx \<and> lh_key hx \<noteq> lh_key h" for sh'
  proof
    fix k
    have eq: "content sh' k = Some v \<longleftrightarrow> (if k = lh_key h then v = lh_value h else content sh k = Some v)" for v
    proof (cases "k = lh_key h")
      case True
      have "content sh' (lh_key h) = Some (lh_value h)" using content_iff [OF i'] c'(1) h(2) by blast
      with True show ?thesis by auto
    next
      case False
      then have "(\<exists>x hx. sh_heap sh' x = Some hx \<and> lh_in_cache hx \<and> lh_key hx = k \<and> lh_value hx = v)
          \<longleftrightarrow> (\<exists>x hx. sh_heap sh x = Some hx \<and> lh_in_cache hx \<and> lh_key hx = k \<and> lh_value hx = v)"
        using c' A(2) by (metis option.distinct(1) option.inject)
      with False show ?thesis unfolding content_iff [OF i'] content_iff [OF inv] by simp
    qed
    then show "content sh' k = ((content sh)(lh_key h \<mapsto> lh_value h)) k" by (metis (mono_tags, lifting) fun_upd_apply not_Some_eq)
  qed
  show ?thesis
  proof (cases old)
    case None
    have none: "lh_key hx \<noteq> lh_key h" if "sh_heap sh x = Some hx" "lh_in_cache hx" for x hx
      using t(3) [OF None] cachedI [of "sh_heap sh", OF that] hash [OF that(1)] h(3) that(1) A(2) by (metis fun_upd_apply option.distinct(1))
    have "unique_keys ?heap"
      by (rule unique_keys_add [OF I(3), of _ e h]) (use none hp(3) in \<open>auto simp: cached_def\<close>)
    moreover have "core (sh1\<lparr>sh_table := tbl\<rparr>) (R(e := 1))" using A(1) by (simp add: core_def)
    ultimately have i': "shard_inv (sh1\<lparr>sh_table := tbl\<rparr>) (R(e := 1))" using t(2) None hp unfolding shard_inv_def by simp
    have "content (sh1\<lparr>sh_table := tbl\<rparr>) = (content sh)(lh_key h \<mapsto> lh_value h)"
      by (rule fresh [OF i']) (use none A(2) in \<open>auto simp: hp\<close>)
    moreover have "\<forall>x. R x > 0 \<longrightarrow> map_option lh_value (?heap x) = map_option lh_value (sh_heap sh x)" using Re by auto
    ultimately show ?thesis using i' t(1) None A(4) hp by (auto simp: ldb_shard_finish_erase_def sh1)
  next
    case (Some p)
    obtain q where q: "sh_heap sh p = Some q" "lh_in_cache q" "lh_key q = lh_key h" "p \<noteq> e"
      using t(4) [OF Some] out by (auto simp: cached_def split: if_splits)
    have only: "x = p" if "sh_heap sh x = Some hx" "lh_in_cache hx" "lh_key hx = lh_key h" for x hx
      using I(3) cachedI [of "sh_heap sh", OF that(1,2)] cachedI [of "sh_heap sh", OF q(1,2)] that(1,3) q(1,3) by (auto simp: unique_keys_def)
    have "unique_keys (?heap(p := None))"
    proof (rule unique_keys_add [OF I(3), of _ e h])
      fix x assume x: "x \<in> cached (?heap(p := None))" "x \<noteq> e"
      then have "x \<noteq> p" "x \<in> ?S" by (auto split: if_splits)
      then show "(?heap(p := None)) x = sh_heap sh x \<and> lh_key (the (sh_heap sh x)) \<noteq> lh_key h" using x(2) only by (auto simp: cached_def)
    qed (use h(2) q(4) in auto)
    moreover have "insert e (?S - {p}) = cached (sh_heap sh1) - {p}" using q(4) hp by auto
    ultimately obtain sh' where sh': "ldb_shard_finish_erase (sh1\<lparr>sh_table := tbl\<rparr>) (Some p) = Some sh'" "shard_inv sh' (R(e := 1))"
      "ledger sh' = ledger sh1" "\<forall>x. x \<noteq> p \<longrightarrow> sh_heap sh' x = sh_heap sh1 x" "p \<notin> cached (sh_heap sh')" "sh_capacity sh' = sh_capacity sh1"
      "\<forall>x. (R(e := 1)) x > 0 \<longrightarrow> map_option lh_value (sh_heap sh' x) = map_option lh_value (sh_heap sh1 x)"
      using finish_erase_spec [OF A(1), of p q tbl] q t(2) Some hp by (auto simp del: cached_update)
    have "sh_heap sh' e = Some h" using sh'(4) q(4) hp by simp
    moreover have "content sh' = (content sh)(lh_key h \<mapsto> lh_value h)"
    proof (rule fresh [OF sh'(2) \<open>sh_heap sh' e = Some h\<close>])
      fix x hx assume xe: "x \<noteq> e"
      show "sh_heap sh' x = Some hx \<and> lh_in_cache hx \<longleftrightarrow> sh_heap sh x = Some hx \<and> lh_in_cache hx \<and> lh_key hx \<noteq> lh_key h"
      proof (cases "x = p")
        case True
        then have "\<not> (sh_heap sh' x = Some hx \<and> lh_in_cache hx)" using sh'(5) by (auto simp: cached_def)
        with True q(1,3) show ?thesis by auto
      next
        case False
        then have "sh_heap sh' x = sh_heap sh x" using sh'(4) xe hp(1) by simp
        with only [of x hx] False show ?thesis by auto
      qed
    qed
    moreover have "map_option lh_value (sh_heap sh' x) = map_option lh_value (sh_heap sh x)" if "R x > 0" for x
      using sh'(7) Re [OF that] that hp by simp
    moreover have "ledger sh' = add_mset (lh_key h, lh_value h) (ledger sh)" "sh_capacity sh' = sh_capacity sh" using sh'(3,6) A(4) by (simp_all add: sh1)
    ultimately show ?thesis using t(1) [folded hp(1,2)] Some sh'(1,2)
      by (intro exI [of _ old] exI [of _ tbl] exI [of _ sh'] conjI allI impI) simp_all
  qed
qed

lemma shard_insert_spec:
  assumes inv: "shard_inv sh R" and room: "card (cached (sh_heap sh)) < 2 ^ 31"
  shows "\<exists>e sh'. ldb_shard_insert sh key (ldb_lru_hash key) v charge = Some (e, sh') \<and> R e = 0 \<and> shard_inv sh' (R(e := 1))
    \<and> map_option lh_value (sh_heap sh' e) = Some v \<and> ledger sh' = add_mset (key, v) (ledger sh) \<and> sh_capacity sh' = sh_capacity sh
    \<and> content sh' \<subseteq>\<^sub>m (if sh_capacity sh > 0 then (content sh)(key \<mapsto> v) else content sh) \<and> (sh_capacity sh > 0 \<longrightarrow> content sh' key = Some v)
    \<and> (sh_usage sh' \<le> sh_capacity sh' \<or> sh_list sh' = [])
    \<and> (\<forall>x. R x > 0 \<longrightarrow> map_option lh_value (sh_heap sh' x) = map_option lh_value (sh_heap sh x))"
proof -
  define e where "e = sh_next sh"
  define h where "h = \<lparr>lh_value = v, lh_charge = charge, lh_key = key, lh_in_cache = sh_capacity sh > 0,
    lh_refs = (if sh_capacity sh > 0 then 2 else 1), lh_hash = ldb_lru_hash key\<rparr>"
  define sh1 where "sh1 = sh\<lparr>sh_heap := (sh_heap sh)(e \<mapsto> h), sh_next := e + 1, sh_in_use := (if lh_in_cache h then sh_in_use sh @ [e] else sh_in_use sh),
      sh_usage := (if lh_in_cache h then sh_usage sh + lh_charge h else sh_usage sh)\<rparr>"
  have "lh_refs h = (if lh_in_cache h then 2 else 1)" "lh_hash h = ldb_lru_hash (lh_key h)" by (simp_all add: h_def)
  note A = add_handle [OF inv e_def this sh1_def] and I = shard_invD [OF inv]
  have "\<exists>sh2. ldb_shard_insert sh key (ldb_lru_hash key) v charge = map_option (Pair e) (insert_evict_loop sh2) \<and> shard_inv sh2 (R(e := 1))
      \<and> content sh2 = (if sh_capacity sh > 0 then (content sh)(key \<mapsto> v) else content sh) \<and> ledger sh2 = add_mset (key, v) (ledger sh)
      \<and> sh_capacity sh2 = sh_capacity sh \<and> sh_heap sh2 e = Some h
      \<and> (\<forall>x. R x > 0 \<longrightarrow> map_option lh_value (sh_heap sh2 x) = map_option lh_value (sh_heap sh x))"
  proof (cases "sh_capacity sh > 0")
    case True
    have s1: "sh1 = sh\<lparr>sh_heap := (sh_heap sh)(e \<mapsto> h), sh_next := e + 1, sh_in_use := sh_in_use sh @ [e], sh_usage := sh_usage sh + lh_charge h\<rparr>"
      using True by (simp add: sh1_def h_def)
    obtain old tbl sh2 where t: "ldb_lrutable_insert (sh_heap sh1) (sh_table sh1) e = Some (old, tbl)" "ldb_shard_finish_erase (sh1\<lparr>sh_table := tbl\<rparr>) old = Some sh2"
      "shard_inv sh2 (R(e := 1))" "content sh2 = (content sh)(lh_key h \<mapsto> lh_value h)" "ledger sh2 = add_mset (lh_key h, lh_value h) (ledger sh)"
      "sh_capacity sh2 = sh_capacity sh" "sh_heap sh2 e = Some h"
      "\<forall>x. R x > 0 \<longrightarrow> map_option lh_value (sh_heap sh2 x) = map_option lh_value (sh_heap sh x)"
      using enter_cache [OF inv room e_def _ _ _ s1] True by (auto simp: h_def)
    have "h = \<lparr>lh_value = v, lh_charge = charge, lh_key = key, lh_in_cache = True, lh_refs = 2, lh_hash = ldb_lru_hash key\<rparr>" using True by (simp add: h_def)
    then have "ldb_shard_insert sh key (ldb_lru_hash key) v charge = map_option (Pair e) (insert_evict_loop sh2)"
      using t(1,2) True unfolding s1
      by (cases sh; cases "insert_evict_loop sh2") (simp_all add: ldb_shard_insert_def shard_defs e_def Let_def)
    with t True show ?thesis by (auto simp: h_def)
  next
    case False
    have s1: "sh1 = sh\<lparr>sh_heap := (sh_heap sh)(e \<mapsto> h), sh_next := e + 1\<rparr>" using False by (simp add: sh1_def h_def)
    have out: "e \<notin> cached (sh_heap sh)" using A(2) by (simp add: cached_def)
    then have c: "cached ((sh_heap sh)(e \<mapsto> h)) = cached (sh_heap sh)" using False by (simp add: h_def)
    have "tbl_inv ((sh_heap sh)(e \<mapsto> h)) (sh_table sh) (cached (sh_heap sh))" by (rule tbl_inv_cong [OF I(2)]) (use out in auto)
    moreover have "unique_keys ((sh_heap sh)(e \<mapsto> h))" by (rule unique_keys_mono [OF I(3)]) (use c out in auto)
    ultimately have i1: "shard_inv sh1 (R(e := 1))" using A(1) c by (simp add: shard_inv_def s1 del: cached_update)
    have "content sh1 = content sh" by (rule content_eqI [OF inv i1]) (use A(2) False in \<open>auto simp: s1 h_def\<close>)
    moreover have "ldb_shard_insert sh key (ldb_lru_hash key) v charge = map_option (Pair e) (insert_evict_loop sh1)"
      using False unfolding s1 by (simp add: ldb_shard_insert_def shard_defs e_def h_def Let_def) (cases "insert_evict_loop sh1"; simp add: s1 e_def h_def)
    ultimately show ?thesis using i1 A(3,4) False by (intro exI [of _ sh1]) (auto simp: s1 h_def)
  qed
  then obtain sh2 where sh2: "ldb_shard_insert sh key (ldb_lru_hash key) v charge = map_option (Pair e) (insert_evict_loop sh2)" "shard_inv sh2 (R(e := 1))"
    "content sh2 = (if sh_capacity sh > 0 then (content sh)(key \<mapsto> v) else content sh)" "ledger sh2 = add_mset (key, v) (ledger sh)"
    "sh_capacity sh2 = sh_capacity sh" "sh_heap sh2 e = Some h"
    "\<forall>x. R x > 0 \<longrightarrow> map_option lh_value (sh_heap sh2 x) = map_option lh_value (sh_heap sh x)" by blast
  obtain d sh' where d: "insert_evict_loop sh2 = Some sh'" "evicts (R(e := 1)) sh2 d sh'" "sh_usage sh' \<le> sh_capacity sh' \<or> sh_list sh' = []"
    using insert_evict_loop_spec [OF sh2(2)] by blast
  note E = d(2) [unfolded evicts_def]
  have free: "x \<notin> set d" if "(R(e := 1)) x > 0" for x
  proof
    assume "x \<in> set d"
    then have "x \<in> set (sh_list sh2)" using E by simp
    with shard_invD(8) [OF sh2(2)] that show False by (metis (mono_tags, lifting) less_numeral_extra(3) mem_Collect_eq)
  qed
  then have he: "sh_heap sh' e = Some h" using E sh2(6) by simp
  have "content sh' key = Some v" if "sh_capacity sh > 0"
    unfolding content_iff [OF conjunct1 [OF E]] using he that by (intro exI [of _ e] exI [of _ h]) (simp add: h_def)
  moreover have "content sh' \<subseteq>\<^sub>m content sh2" using E by (auto simp: map_le_def restrict_map_def)
  moreover have "\<forall>x. R x > 0 \<longrightarrow> map_option lh_value (sh_heap sh' x) = map_option lh_value (sh_heap sh x)"
    using E sh2(7) free A(3) by (metis fun_upd_apply less_numeral_extra(3))
  moreover have "map_option lh_value (sh_heap sh' e) = Some v" using he by (simp add: h_def)
  ultimately show ?thesis using sh2 d E A(3) by (intro exI [of _ e] exI [of _ sh']) simp
qed

section \<open>The life of a shard\<close>

lemma shard_init_spec: "\<exists>sh. ldb_shard_init capacity = Some sh \<and> shard_inv sh (\<lambda>_. 0) \<and> ledger sh = {#} \<and> content sh = Map.empty \<and> sh_capacity sh = capacity"
proof -
  obtain tbl where tbl: "ldb_lrutable_init (Map.empty :: 'a lruheap) = Some tbl" "tbl_inv (Map.empty :: 'a lruheap) tbl {}"
    using lrutable_resize_spec [of "{}" "\<lparr>lt_length = 0, lt_elems = 0, lt_list = []\<rparr>"] by (auto simp: ldb_lrutable_init_def)
  have "cached (Map.empty :: 'a lruheap) = {}" by (simp add: cached_def)
  with tbl show ?thesis
    by (simp add: ldb_shard_init_def shard_inv_def core_def unique_keys_def ledger_def content_def)
qed

lemma clear_loop_spec:
  assumes "distinct es" "\<forall>e \<in> set es. \<exists>h. sh_heap sh e = Some h \<and> lh_in_cache h \<and> lh_refs h = 1" "finite (dom (sh_heap sh))"
  shows "\<exists>sh'. clear_loop sh es = Some sh' \<and> ledger sh' = ledger sh \<and> dom (sh_heap sh') = dom (sh_heap sh) - set es"
  using assms
proof (induction es arbitrary: sh)
  case (Cons e es)
  then obtain h where h: "sh_heap sh e = Some h" "lh_in_cache h" "lh_refs h = 1" by auto
  define sh1 where "sh1 = sh\<lparr>sh_deleted := sh_deleted sh @ [(lh_key h, lh_value h)], sh_heap := (sh_heap sh)(e := None)\<rparr>"
  have un: "ldb_shard_unref (set_handle sh e (h\<lparr>lh_in_cache := False\<rparr>)) e = Some sh1"
    using h(3) by (cases sh) (simp add: ldb_shard_unref_def set_handle_def sh1_def)
  have "ledger sh1 = ledger sh" unfolding sh1_def by (rule ledger_update(2) [OF Cons.prems(3) h(1)])
  moreover have d: "dom (sh_heap sh1) = dom (sh_heap sh) - {e}" by (auto simp: sh1_def split: if_splits)
  moreover have "\<exists>sh'. clear_loop sh1 es = Some sh' \<and> ledger sh' = ledger sh1 \<and> dom (sh_heap sh') = dom (sh_heap sh1) - set es"
  proof (rule Cons.IH)
    show "finite (dom (sh_heap sh1))" by (simp add: d Cons.prems(3))
    have "sh_heap sh1 x = sh_heap sh x" if "x \<in> set es" for x using that Cons.prems(1) by (auto simp: sh1_def)
    then show "\<forall>e \<in> set es. \<exists>h. sh_heap sh1 e = Some h \<and> lh_in_cache h \<and> lh_refs h = 1" using Cons.prems(2) by simp
  qed (use Cons.prems in simp)
  ultimately obtain sh' where "clear_loop sh1 es = Some sh'" "ledger sh' = ledger sh" "dom (sh_heap sh') = dom (sh_heap sh) - {e} - set es" by metis
  then show ?case using h un by (intro exI [of _ sh']) (simp add: Diff_insert2 [symmetric])
qed simp

lemma shard_clear_spec:
  assumes inv: "shard_inv sh (\<lambda>_. 0)"
  shows "\<exists>sh'. ldb_shard_clear sh = Some sh' \<and> mset (sh_deleted sh') = ledger sh \<and> sh_heap sh' = Map.empty"
proof -
  note I = shard_invD [OF inv]
  have live: "e \<in> cached (sh_heap sh) \<and> lh_in_cache h \<and> lh_refs h = 1" if "sh_heap sh e = Some h" for e h
    using I(6) [OF that] that by (auto simp: handle_ok_def cached_def word_unat_eq_iff word_less_nat_alt split: if_splits)
  then have "\<forall>e \<in> set (sh_list sh). \<exists>h. sh_heap sh e = Some h \<and> lh_in_cache h \<and> lh_refs h = 1" using I(8) by (auto simp: cached_def)
  from clear_loop_spec [OF I(7) this core_finite(1) [OF I(1)]] obtain sh' where
    sh': "clear_loop sh (sh_list sh) = Some sh'" "ledger sh' = ledger sh" "dom (sh_heap sh') = dom (sh_heap sh) - set (sh_list sh)" by blast
  have "dom (sh_heap sh) \<subseteq> set (sh_list sh)" using I(8) live by auto
  then have "sh_heap sh' = Map.empty" using sh'(3) by (simp add: Diff_eq_empty_iff [THEN iffD2])
  moreover have "sh_in_use sh = []" using I(10) by simp
  ultimately show ?thesis using sh' by (simp add: ldb_shard_clear_def ledger_def)
qed

text \<open>The counter of the table is the number of keys that the shard maps.\<close>

lemma shard_elems:
  assumes "shard_inv sh R"
  shows "card (cached (sh_heap sh)) = unat (lt_elems (sh_table sh))" "card (dom (content sh)) = unat (lt_elems (sh_table sh))"
proof -
  note I = shard_invD [OF assms]
  show c: "card (cached (sh_heap sh)) = unat (lt_elems (sh_table sh))" using I(2) by (simp add: tbl_inv_def)
  have "set (sh_list sh @ sh_in_use sh) = cached (sh_heap sh)" using I(8,10) by auto
  then have "dom (content sh) = (\<lambda>e. lh_key (the (sh_heap sh e))) ` cached (sh_heap sh)"
    unfolding content_def dom_map_of_conv_image_fst set_map by (simp only: image_image fst_conv)
  moreover have "inj_on (\<lambda>e. lh_key (the (sh_heap sh e))) (cached (sh_heap sh))" using I(3) by (auto simp: unique_keys_def inj_on_def)
  ultimately show "card (dom (content sh)) = unat (lt_elems (sh_table sh))" using c by (simp add: card_image)
qed

section \<open>The sharded cache\<close>

text \<open>The clients' references, by shard and handle, and the invariant of all shards: a key is cached only in the shard of its hash.\<close>

definition handle_id :: "cachehandle \<Rightarrow> nat \<times> nat" where
  "handle_id h = (ldb_lru_shard (fst h), snd h)"

definition lru_inv :: "'v lru \<Rightarrow> (nat \<times> nat \<Rightarrow> nat) \<Rightarrow> bool" where
  "lru_inv lru R \<longleftrightarrow> length (lru_shard lru) = LDB_SHARDS \<and> (\<forall>i < LDB_SHARDS. shard_inv (lru_shard lru ! i) (\<lambda>e. R (i, e)))
     \<and> (\<forall>i < LDB_SHARDS. \<forall>k \<in> dom (content (lru_shard lru ! i)). ldb_lru_shard (ldb_lru_hash k) = i)"

definition lru_content :: "'v lru \<Rightarrow> bytes \<rightharpoonup> 'v" where
  "lru_content lru k = content (lru_shard lru ! ldb_lru_shard (ldb_lru_hash k)) k"

text \<open>
  The number of entries of the cache, and that the counts of references have room: no handle has so many that one more wraps its counter.
\<close>

definition lru_entries :: "'v lru \<Rightarrow> nat" where
  "lru_entries lru = card (dom (lru_content lru))"

definition refs_room :: "(nat \<times> nat \<Rightarrow> nat) \<Rightarrow> bool" where
  "refs_room R \<longleftrightarrow> (\<forall>i. R i + 2 < 2 ^ 32)"

definition lru_ledger :: "'v lru \<Rightarrow> (bytes \<times> 'v) multiset" where
  "lru_ledger lru = (\<Sum>i < LDB_SHARDS. ledger (lru_shard lru ! i))"

lemma ldb_lru_shard_less: "ldb_lru_shard hash < LDB_SHARDS"
proof -
  have "unat (drop_bit 28 hash) = unat hash div 2 ^ 28" by (simp add: unat_drop_bit_nat)
  moreover have "unat hash < 2 ^ 32" using unsigned_less [of hash, where 'a = nat] by simp
  ultimately show ?thesis by (simp add: ldb_lru_shard_def LDB_SHARD_BITS_def LDB_SHARDS_def less_mult_imp_div_less)
qed

lemma lru_content_dom:
  assumes "lru_inv lru R"
  shows "dom (lru_content lru) = (\<Union>i < LDB_SHARDS. dom (content (lru_shard lru ! i)))" "finite (dom (lru_content lru))"
proof -
  show d: "dom (lru_content lru) = (\<Union>i < LDB_SHARDS. dom (content (lru_shard lru ! i)))"
    using assms ldb_lru_shard_less by (fastforce simp: lru_inv_def lru_content_def dom_def)
  show "finite (dom (lru_content lru))" unfolding d by (auto simp: content_def finite_dom_map_of)
qed

lemma lru_entries_mono: "lru_inv lru R \<Longrightarrow> lru_content lru' \<subseteq>\<^sub>m lru_content lru \<Longrightarrow> lru_entries lru' \<le> lru_entries lru"
  unfolding lru_entries_def by (rule card_mono [OF lru_content_dom(2)]) (auto dest: map_le_implies_dom_le)

lemma shard_entries:
  assumes "lru_inv lru R" "i < LDB_SHARDS"
  shows "card (cached (sh_heap (lru_shard lru ! i))) \<le> lru_entries lru"
proof -
  have "shard_inv (lru_shard lru ! i) (\<lambda>e. R (i, e))" using assms by (simp add: lru_inv_def)
  then have "card (cached (sh_heap (lru_shard lru ! i))) = card (dom (content (lru_shard lru ! i)))" by (simp only: shard_elems)
  also have "\<dots> \<le> lru_entries lru" unfolding lru_entries_def
    by (rule card_mono [OF lru_content_dom(2) [OF assms(1)]]) (use assms(2) in \<open>auto simp: lru_content_dom(1) [OF assms(1)]\<close>)
  finally show ?thesis .
qed

lemma lru_ledger_update:
  assumes "length (lru_shard lru) = LDB_SHARDS" "i < LDB_SHARDS"
  shows "ledger s = ledger (lru_shard lru ! i) + M \<Longrightarrow> lru_ledger (lru\<lparr>lru_shard := (lru_shard lru)[i := s]\<rparr>) = lru_ledger lru + M"
proof -
  assume s: "ledger s = ledger (lru_shard lru ! i) + M"
  have i: "i \<in> {..<LDB_SHARDS}" using assms(2) by simp
  have "(\<Sum>j \<in> {..<LDB_SHARDS} - {i}. ledger ((lru_shard lru)[i := s] ! j)) = (\<Sum>j \<in> {..<LDB_SHARDS} - {i}. ledger (lru_shard lru ! j))"
    by (intro sum.cong) auto
  then show ?thesis using assms s unfolding lru_ledger_def
    by (simp add: sum.remove [OF finite_lessThan i] add_ac)
qed

lemma lru_update_inv:
  assumes inv: "lru_inv lru R" and i: "i < LDB_SHARDS" and s: "shard_inv s (\<lambda>e. R' (i, e))" and R': "\<And>j e. j \<noteq> i \<Longrightarrow> R' (j, e) = R (j, e)"
    and dom: "\<And>k. k \<in> dom (content s) \<Longrightarrow> k \<in> dom (content (lru_shard lru ! i)) \<or> ldb_lru_shard (ldb_lru_hash k) = i"
  shows "lru_inv (lru\<lparr>lru_shard := (lru_shard lru)[i := s]\<rparr>) R'"
proof -
  have "shard_inv ((lru_shard lru)[i := s] ! j) (\<lambda>e. R' (j, e))" if "j < LDB_SHARDS" for j
    using inv i s R' that by (cases "j = i") (simp_all add: lru_inv_def)
  moreover have "ldb_lru_shard (ldb_lru_hash k) = j" if "j < LDB_SHARDS" "k \<in> dom (content ((lru_shard lru)[i := s] ! j))" for j k
    using inv i dom [of k] that by (cases "j = i") (auto simp: lru_inv_def)
  ultimately show ?thesis using inv by (simp add: lru_inv_def)
qed

lemma lru_update_content:
  assumes "lru_inv lru R" "i < LDB_SHARDS"
  shows "lru_content (lru\<lparr>lru_shard := (lru_shard lru)[i := s]\<rparr>) k
    = (if ldb_lru_shard (ldb_lru_hash k) = i then content s k else lru_content lru k)"
  using assms by (auto simp: lru_content_def lru_inv_def nth_list_update)

text \<open>The operations of the cache.\<close>

lemma lru_init_spec:
  "\<exists>lru. ldb_lru_init capacity = Some lru \<and> lru_inv lru (\<lambda>_. 0) \<and> lru_ledger lru = {#} \<and> lru_content lru = Map.empty
    \<and> (\<forall>i < LDB_SHARDS. sh_capacity (lru_shard lru ! i) = (capacity + word_of_nat LDB_SHARDS - 1) div word_of_nat LDB_SHARDS)"
proof -
  obtain sh :: "'a shard" where sh: "ldb_shard_init ((capacity + word_of_nat LDB_SHARDS - 1) div word_of_nat LDB_SHARDS) = Some sh" "shard_inv sh (\<lambda>_. 0)" "ledger sh = {#}"
    "content sh = Map.empty" "sh_capacity sh = (capacity + word_of_nat LDB_SHARDS - 1) div word_of_nat LDB_SHARDS" using shard_init_spec by blast
  then show ?thesis using ldb_lru_shard_less
    by (auto simp: ldb_lru_init_def lru_inv_def lru_ledger_def lru_content_def fun_eq_iff intro!: sum.neutral)
qed

lemma lru_lookup_spec:
  assumes inv: "lru_inv lru R" and room: "refs_room R"
  shows "\<exists>r lru'. ldb_lru_lookup lru key = Some (r, lru') \<and> lru_content lru' = lru_content lru \<and> lru_ledger lru' = lru_ledger lru
    \<and> (case r of None \<Rightarrow> lru_content lru key = None \<and> lru_inv lru' R
       | Some h \<Rightarrow> lru_inv lru' (R(handle_id h := R (handle_id h) + 1)) \<and> ldb_lru_value lru' h = lru_content lru key \<and> lru_content lru key \<noteq> None)"
proof -
  let ?i = "ldb_lru_shard (ldb_lru_hash key)"
  let ?s = "lru_shard lru ! ?i"
  have i: "?i < LDB_SHARDS" "?i < length (lru_shard lru)" "length (lru_shard lru) = LDB_SHARDS"
    using ldb_lru_shard_less inv by (simp_all add: lru_inv_def)
  have si: "shard_inv ?s (\<lambda>e. R (?i, e))" using inv i(1) by (simp add: lru_inv_def)
  have rm: "R (?i, e) + 2 < 2 ^ 32" for e using room by (simp add: refs_room_def)
  obtain r s' where s': "ldb_shard_lookup ?s key (ldb_lru_hash key) = Some (r, s')" "content s' = content ?s" "ledger s' = ledger ?s"
    and r: "case r of None \<Rightarrow> content ?s key = None \<and> shard_inv s' (\<lambda>e. R (?i, e))
       | Some e \<Rightarrow> shard_inv s' ((\<lambda>e. R (?i, e))(e := R (?i, e) + 1)) \<and> map_option lh_value (sh_heap s' e) = content ?s key \<and> content ?s key \<noteq> None"
    using shard_lookup_spec [OF si rm, of key] by (elim exE conjE) (rule that)
  let ?l = "lru\<lparr>lru_shard := (lru_shard lru)[?i := s']\<rparr>"
  have run: "ldb_lru_lookup lru key = Some (map_option (Pair (ldb_lru_hash key)) r, ?l)" using s'(1) by (simp add: ldb_lru_lookup_def on_shard_def Let_def)
  have "lru_content ?l = lru_content lru" using lru_update_content [OF inv i(1)] s'(2) by (auto simp: lru_content_def fun_eq_iff)
  moreover have "lru_ledger ?l = lru_ledger lru" using lru_ledger_update [OF i(3,1), of s' "{#}"] s'(3) by simp
  moreover have "case map_option (Pair (ldb_lru_hash key)) r of None \<Rightarrow> lru_content lru key = None \<and> lru_inv ?l R
       | Some h \<Rightarrow> lru_inv ?l (R(handle_id h := R (handle_id h) + 1)) \<and> ldb_lru_value ?l h = lru_content lru key \<and> lru_content lru key \<noteq> None"
  proof (cases r)
    case None
    then show ?thesis using r s'(2) lru_update_inv [OF inv i(1), of s' R] by (simp add: lru_content_def)
  next
    case (Some e)
    have "(\<lambda>x. (R((?i, e) := R (?i, e) + 1)) (?i, x)) = (\<lambda>x. R (?i, x))(e := R (?i, e) + 1)" by auto
    then have "lru_inv ?l (R((?i, e) := R (?i, e) + 1))" using Some r s'(2) by (intro lru_update_inv [OF inv i(1)]) auto
    with Some r i(2) show ?thesis by (simp add: handle_id_def lru_content_def ldb_lru_value_def)
  qed
  ultimately show ?thesis using run by blast
qed

lemma lru_insert_spec:
  fixes key :: bytes
  assumes inv: "lru_inv lru R" and room: "lru_entries lru < 2 ^ 31"
  defines "i \<equiv> ldb_lru_shard (ldb_lru_hash key)"
  shows "\<exists>h lru'. ldb_lru_insert lru key v charge = Some (h, lru') \<and> lru_inv lru' (R(handle_id h := 1)) \<and> R (handle_id h) = 0
    \<and> ldb_lru_value lru' h = Some v \<and> lru_ledger lru' = add_mset (key, v) (lru_ledger lru)
    \<and> lru_content lru' \<subseteq>\<^sub>m (if sh_capacity (lru_shard lru ! i) > 0 then (lru_content lru)(key \<mapsto> v) else lru_content lru)
    \<and> (sh_capacity (lru_shard lru ! i) > 0 \<longrightarrow> lru_content lru' key = Some v)
    \<and> (let s = lru_shard lru' ! i in sh_usage s \<le> sh_capacity s \<or> sh_list s = [])"
proof -
  let ?s = "lru_shard lru ! i"
  have i: "i < LDB_SHARDS" "i < length (lru_shard lru)" "length (lru_shard lru) = LDB_SHARDS"
    using ldb_lru_shard_less inv by (simp_all add: lru_inv_def i_def)
  have si: "shard_inv ?s (\<lambda>e. R (i, e))" using inv i(1) by (simp add: lru_inv_def)
  have sr: "card (cached (sh_heap ?s)) < 2 ^ 31" using shard_entries [OF inv i(1)] room by simp
  obtain e s' where s': "ldb_shard_insert ?s key (ldb_lru_hash key) v charge = Some (e, s')" "R (i, e) = 0" "shard_inv s' ((\<lambda>e. R (i, e))(e := 1))"
    "map_option lh_value (sh_heap s' e) = Some v" "ledger s' = add_mset (key, v) (ledger ?s)"
    "content s' \<subseteq>\<^sub>m (if sh_capacity ?s > 0 then (content ?s)(key \<mapsto> v) else content ?s)" "sh_capacity ?s > 0 \<longrightarrow> content s' key = Some v"
    "sh_usage s' \<le> sh_capacity s' \<or> sh_list s' = []" using shard_insert_spec [OF si sr, of key v charge] by (elim exE conjE) (rule that)
  let ?l = "lru\<lparr>lru_shard := (lru_shard lru)[i := s']\<rparr>" and ?h = "(ldb_lru_hash key, e)"
  have run: "ldb_lru_insert lru key v charge = Some (?h, ?l)" using s'(1) by (simp add: ldb_lru_insert_def on_shard_def Let_def i_def)
  have hid: "handle_id ?h = (i, e)" by (simp add: handle_id_def i_def)
  have "(\<lambda>x. (R((i, e) := 1)) (i, x)) = (\<lambda>x. R (i, x))(e := 1)" by auto
  moreover have "k \<in> dom (content ?s) \<or> ldb_lru_shard (ldb_lru_hash k) = i" if "k \<in> dom (content s')" for k
    using map_le_implies_dom_le [OF s'(6)] that by (auto simp: i_def split: if_splits)
  ultimately have "lru_inv ?l (R(handle_id ?h := 1))" unfolding hid using s'(3) by (intro lru_update_inv [OF inv i(1)]) auto
  moreover have "ldb_lru_value ?l ?h = Some v" using s'(4) i(2) by (simp add: ldb_lru_value_def flip: i_def)
  moreover have "lru_ledger ?l = add_mset (key, v) (lru_ledger lru)" using lru_ledger_update [OF i(3,1), of s' "{#(key, v)#}"] s'(5) by simp
  moreover have "lru_content ?l \<subseteq>\<^sub>m (if sh_capacity ?s > 0 then (lru_content lru)(key \<mapsto> v) else lru_content lru)"
    unfolding map_le_def
  proof
    fix k assume k: "k \<in> dom (lru_content ?l)"
    show "lru_content ?l k = (if sh_capacity ?s > 0 then (lru_content lru)(key \<mapsto> v) else lru_content lru) k"
    proof (cases "ldb_lru_shard (ldb_lru_hash k) = i")
      case True
      then have c: "lru_content ?l k = content s' k" "lru_content lru k = content ?s k"
        using lru_update_content [OF inv i(1), of s' k] by (simp_all add: lru_content_def)
      then have "k \<in> dom (content s')" using k by (simp add: dom_def)
      with s'(6) have "content s' k = (if sh_capacity ?s > 0 then (content ?s)(key \<mapsto> v) else content ?s) k" unfolding map_le_def by blast
      with c show ?thesis by simp
    next
      case False
      then have "k \<noteq> key" by (auto simp: i_def)
      with False show ?thesis using lru_update_content [OF inv i(1), of s' k] by simp
    qed
  qed
  moreover have "sh_capacity ?s > 0 \<longrightarrow> lru_content ?l key = Some v" using s'(7) lru_update_content [OF inv i(1)] by (simp add: i_def [symmetric])
  moreover have "lru_shard ?l ! i = s'" using i(2) by simp
  ultimately show ?thesis using run s'(2,8) hid by (intro exI [of _ ?h] exI [of _ ?l]) (simp add: Let_def)
qed

lemma lru_release_spec:
  assumes inv: "lru_inv lru R" and h: "R (handle_id h) > 0"
  shows "\<exists>lru'. ldb_lru_release lru h = Some lru' \<and> lru_inv lru' (R(handle_id h := R (handle_id h) - 1)) \<and> lru_content lru' = lru_content lru
    \<and> lru_ledger lru' = lru_ledger lru"
proof -
  let ?i = "ldb_lru_shard (fst h)" and ?e = "snd h"
  let ?s = "lru_shard lru ! ?i"
  have i: "?i < LDB_SHARDS" "?i < length (lru_shard lru)" "length (lru_shard lru) = LDB_SHARDS"
    using ldb_lru_shard_less inv by (simp_all add: lru_inv_def)
  have si: "shard_inv ?s (\<lambda>e. R (?i, e))" using inv i(1) by (simp add: lru_inv_def)
  have "(\<lambda>e. R (?i, e)) ?e > 0" using h by (simp add: handle_id_def)
  from shard_unref_spec [OF si this] obtain s' where s': "ldb_shard_unref ?s ?e = Some s'"
    "shard_inv s' ((\<lambda>e. R (?i, e))(?e := R (?i, ?e) - 1))" "content s' = content ?s" "ledger s' = ledger ?s" by blast
  let ?l = "lru\<lparr>lru_shard := (lru_shard lru)[?i := s']\<rparr>"
  have "ldb_lru_release lru h = Some ?l" using s'(1) by (simp add: ldb_lru_release_def on_shard_def ldb_shard_release_def)
  moreover have "lru_content ?l = lru_content lru" using lru_update_content [OF inv i(1)] s'(3) by (auto simp: lru_content_def fun_eq_iff)
  moreover have "lru_ledger ?l = lru_ledger lru" using lru_ledger_update [OF i(3,1), of s' "{#}"] s'(4) by simp
  moreover have "(\<lambda>x. (R((?i, ?e) := R (?i, ?e) - 1)) (?i, x)) = (\<lambda>x. R (?i, x))(?e := R (?i, ?e) - 1)" by auto
  then have "lru_inv ?l (R((?i, ?e) := R (?i, ?e) - 1))" using s'(2,3) by (intro lru_update_inv [OF inv i(1)]) auto
  ultimately show ?thesis by (simp add: handle_id_def)
qed

lemma lru_erase_spec:
  assumes inv: "lru_inv lru R"
  shows "\<exists>lru'. ldb_lru_erase lru key = Some lru' \<and> lru_inv lru' R \<and> lru_content lru' = (lru_content lru)(key := None) \<and> lru_ledger lru' = lru_ledger lru"
proof -
  let ?i = "ldb_lru_shard (ldb_lru_hash key)"
  let ?s = "lru_shard lru ! ?i"
  have i: "?i < LDB_SHARDS" "?i < length (lru_shard lru)" "length (lru_shard lru) = LDB_SHARDS"
    using ldb_lru_shard_less inv by (simp_all add: lru_inv_def)
  have si: "shard_inv ?s (\<lambda>e. R (?i, e))" using inv i(1) by (simp add: lru_inv_def)
  obtain s' where s': "remove_and_erase ?s key (ldb_lru_hash key) = Some s'" "shard_inv s' (\<lambda>e. R (?i, e))" "ledger s' = ledger ?s"
    "content s' = (content ?s)(key := None)" using remove_and_erase_spec [OF si, of key] by blast
  let ?l = "lru\<lparr>lru_shard := (lru_shard lru)[?i := s']\<rparr>"
  have "ldb_lru_erase lru key = Some ?l" using s'(1) by (simp add: ldb_lru_erase_def on_shard_def ldb_shard_erase_def Let_def)
  moreover have "lru_content ?l = (lru_content lru)(key := None)" using lru_update_content [OF inv i(1)] s'(4) by (auto simp: lru_content_def fun_eq_iff)
  moreover have "lru_ledger ?l = lru_ledger lru" using lru_ledger_update [OF i(3,1), of s' "{#}"] s'(3) by simp
  moreover have "lru_inv ?l R" using s'(2,4) by (intro lru_update_inv [OF inv i(1)]) auto
  ultimately show ?thesis by blast
qed

lemma shards_loop_spec:
  assumes "\<forall>s \<in> set ss. \<exists>s'. f s = Some s' \<and> P s s'"
  shows "\<exists>ss'. shards_loop f ss = Some ss' \<and> list_all2 P ss ss'"
  using assms
proof (induction ss)
  case (Cons s ss)
  then obtain s' where "f s = Some s'" "P s s'" by auto
  with Cons show ?case by auto
qed simp

definition shard_prunes :: "'v shard \<Rightarrow> 'v shard \<Rightarrow> bool" where
  "shard_prunes s s' \<longleftrightarrow> (\<forall>R. shard_inv s R \<longrightarrow> shard_inv s' R) \<and> ledger s' = ledger s \<and> content s' \<subseteq>\<^sub>m content s \<and> sh_list s' = []"

lemma lru_prune_spec:
  assumes inv: "lru_inv lru R"
  shows "\<exists>lru'. ldb_lru_prune lru = Some lru' \<and> lru_inv lru' R \<and> lru_content lru' \<subseteq>\<^sub>m lru_content lru \<and> lru_ledger lru' = lru_ledger lru
    \<and> (\<forall>i < LDB_SHARDS. sh_list (lru_shard lru' ! i) = [])"
proof -
  have each: "\<exists>s'. ldb_shard_prune s = Some s' \<and> shard_prunes s s'" if s: "s \<in> set (lru_shard lru)" for s
  proof -
    obtain i where i: "i < LDB_SHARDS" "s = lru_shard lru ! i" using s inv by (auto simp: in_set_conv_nth lru_inv_def)
    then have inv': "shard_inv s (\<lambda>e. R (i, e))" using inv by (simp add: lru_inv_def)
    from prune_loop_spec [OF inv'] obtain d s' where d: "prune_loop s = Some s'" "evicts (\<lambda>e. R (i, e)) s d s'" "sh_list s' = []" by blast
    have "shard_inv s' R'" if "shard_inv s R'" for R'
      using prune_loop_spec [OF that] d(1) by (auto simp: evicts_def)
    with d show ?thesis by (auto simp: ldb_shard_prune_def shard_prunes_def evicts_def map_le_def restrict_map_def)
  qed
  then obtain ss where ss: "shards_loop ldb_shard_prune (lru_shard lru) = Some ss" "list_all2 shard_prunes (lru_shard lru) ss"
    using shards_loop_spec [of "lru_shard lru" ldb_shard_prune shard_prunes] by blast
  have len: "length ss = LDB_SHARDS" "length (lru_shard lru) = LDB_SHARDS" using ss(2) inv by (auto simp: lru_inv_def list_all2_lengthD)
  have p: "shard_prunes (lru_shard lru ! i) (ss ! i)" if "i < LDB_SHARDS" for i using list_all2_nthD [OF ss(2)] len that by simp
  let ?l = "lru\<lparr>lru_shard := ss\<rparr>"
  have "lru_inv ?l R" using inv p len map_le_implies_dom_le by (fastforce simp: lru_inv_def shard_prunes_def)
  moreover have "lru_content ?l \<subseteq>\<^sub>m lru_content lru"
    using p [OF ldb_lru_shard_less] unfolding map_le_def shard_prunes_def lru_content_def dom_def by auto
  moreover have "lru_ledger ?l = lru_ledger lru" using p by (simp add: lru_ledger_def shard_prunes_def)
  ultimately show ?thesis using ss(1) p by (simp add: ldb_lru_prune_def shard_prunes_def)
qed

text \<open>All the calls of the deleter.\<close>

definition lru_deleted :: "'v lru \<Rightarrow> (bytes \<times> 'v) multiset" where
  "lru_deleted lru = (\<Sum>i < LDB_SHARDS. mset (sh_deleted (lru_shard lru ! i)))"

lemma lru_clear_spec:
  assumes inv: "lru_inv lru R" and none: "\<forall>i. R i = 0"
  shows "\<exists>lru'. ldb_lru_clear lru = Some lru' \<and> lru_deleted lru' = lru_ledger lru"
proof -
  have "\<exists>s'. ldb_shard_clear s = Some s' \<and> mset (sh_deleted s') = ledger s" if s: "s \<in> set (lru_shard lru)" for s
  proof -
    obtain i where i: "i < LDB_SHARDS" "s = lru_shard lru ! i" using s inv by (auto simp: in_set_conv_nth lru_inv_def)
    then have "shard_inv s (\<lambda>_. 0)" using inv none by (simp add: lru_inv_def)
    from shard_clear_spec [OF this] show ?thesis by blast
  qed
  then obtain ss where ss: "shards_loop ldb_shard_clear (lru_shard lru) = Some ss"
    "list_all2 (\<lambda>s s'. mset (sh_deleted s') = ledger s) (lru_shard lru) ss"
    using shards_loop_spec [of "lru_shard lru" ldb_shard_clear "\<lambda>s s'. mset (sh_deleted s') = ledger s"] by blast
  have "length (lru_shard lru) = LDB_SHARDS" using inv by (simp add: lru_inv_def)
  then have "mset (sh_deleted (ss ! i)) = ledger (lru_shard lru ! i)" if "i < LDB_SHARDS" for i
    using list_all2_nthD [OF ss(2)] that by simp
  then show ?thesis using ss(1) by (simp add: ldb_lru_clear_def lru_deleted_def lru_ledger_def)
qed

lemma lru_held:
  assumes "lru_inv lru R" "R (handle_id h) > 0"
  shows "ldb_lru_value lru h \<noteq> None"
proof -
  have "shard_inv (lru_shard lru ! ldb_lru_shard (fst h)) (\<lambda>e. R (ldb_lru_shard (fst h), e))"
    using assms(1) ldb_lru_shard_less by (simp add: lru_inv_def)
  from shard_invD(5) [OF this, of "snd h"] assms(2) show ?thesis by (auto simp: ldb_lru_value_def handle_id_def)
qed

section \<open>Clients of a cache\<close>

text \<open>
  The states that clients reach who release only handles they hold: the cache, the references that are held, and everything that was inserted. The clients
  stay within the counters: after a hit nobody holds so many references to one handle that another one wraps its counter (\<^const>\<open>refs_room\<close>: fewer than
  \<^term>\<open>(2 :: nat) ^ 32 - 2\<close>), and after an insertion the cache holds fewer than \<^term>\<open>(2 :: nat) ^ 30\<close> entries. Far beyond that the source is wrong: the count of
  references wraps to 0, and with more than \<^term>\<open>(2 :: nat) ^ 31\<close> entries the loop of \<^verbatim>\<open>ldb_lrutable_resize\<close> doubles its length to 0
  and does not end.
\<close>

inductive cache_reach :: "u64 \<Rightarrow> 'v lru \<Rightarrow> (nat \<times> nat \<Rightarrow> nat) \<Rightarrow> (bytes \<times> 'v) multiset \<Rightarrow> bool" for capacity :: u64 where
  init: "ldb_lru_init capacity = Some lru \<Longrightarrow> cache_reach capacity lru (\<lambda>_. 0) {#}"
| insert: "cache_reach capacity lru R M \<Longrightarrow> ldb_lru_insert lru key v charge = Some (h, lru') \<Longrightarrow> lru_entries lru' < 2 ^ 30 \<Longrightarrow>
    cache_reach capacity lru' (R(handle_id h := R (handle_id h) + 1)) (add_mset (key, v) M)"
| miss: "cache_reach capacity lru R M \<Longrightarrow> ldb_lru_lookup lru key = Some (None, lru') \<Longrightarrow> cache_reach capacity lru' R M"
| hit: "cache_reach capacity lru R M \<Longrightarrow> ldb_lru_lookup lru key = Some (Some h, lru') \<Longrightarrow> refs_room (R(handle_id h := R (handle_id h) + 1)) \<Longrightarrow>
    cache_reach capacity lru' (R(handle_id h := R (handle_id h) + 1)) M"
| release: "cache_reach capacity lru R M \<Longrightarrow> R (handle_id h) > 0 \<Longrightarrow> ldb_lru_release lru h = Some lru' \<Longrightarrow>
    cache_reach capacity lru' (R(handle_id h := R (handle_id h) - 1)) M"
| erase: "cache_reach capacity lru R M \<Longrightarrow> ldb_lru_erase lru key = Some lru' \<Longrightarrow> cache_reach capacity lru' R M"
| prune: "cache_reach capacity lru R M \<Longrightarrow> ldb_lru_prune lru = Some lru' \<Longrightarrow> cache_reach capacity lru' R M"
| newid: "cache_reach capacity lru R M \<Longrightarrow> ldb_lru_newid lru = (n, lru') \<Longrightarrow> cache_reach capacity lru' R M"

lemma lru_init_inv:
  fixes lru :: "'v lru"
  assumes "ldb_lru_init capacity = Some lru"
  shows "lru_inv lru (\<lambda>_. 0) \<and> lru_ledger lru = {#} \<and> lru_entries lru = 0"
proof -
  obtain lru' :: "'v lru" where "ldb_lru_init capacity = Some lru'" "lru_inv lru' (\<lambda>_. 0)" "lru_ledger lru' = {#}" "lru_content lru' = Map.empty"
    using lru_init_spec by blast
  with assms show ?thesis by (simp add: lru_entries_def)
qed

lemma refs_room_release: "refs_room R \<Longrightarrow> refs_room (R(i := R i - 1))"
  by (auto simp: refs_room_def less_diff_conv2) (metis diff_le_self le_less_trans add_le_mono1)

lemma cache_reach_inv: "cache_reach capacity lru R M \<Longrightarrow> lru_inv lru R \<and> lru_ledger lru = M \<and> lru_entries lru < 2 ^ 30 \<and> refs_room R"
proof (induction rule: cache_reach.induct)
  case (init lru)
  then show ?case using lru_init_inv by (auto simp: refs_room_def)
next
  case (insert lru R M key v charge h lru')
  then have "lru_inv lru' (R(handle_id h := 1))" "R (handle_id h) = 0" "lru_ledger lru' = add_mset (key, v) (lru_ledger lru)"
    using lru_insert_spec [of lru R key v charge] by auto
  moreover have "refs_room (R(handle_id h := 1))" using insert by (simp add: refs_room_def)
  ultimately show ?case using insert by (simp del: fun_upd_apply)
next
  case (miss lru R M key lru')
  then show ?case using lru_lookup_spec [of lru R key] by (auto simp: lru_entries_def)
next
  case (hit lru R M key h lru')
  then show ?case using lru_lookup_spec [of lru R key] by (auto simp: lru_entries_def simp del: fun_upd_apply)
next
  case (release lru R M h lru')
  then show ?case using lru_release_spec [of lru R h] refs_room_release by (auto simp: lru_entries_def simp del: fun_upd_apply)
next
  case (erase lru R M key lru')
  then show ?case using lru_erase_spec [of lru R key] lru_entries_mono [of lru R lru'] by (auto simp: map_le_def)
next
  case (prune lru R M lru')
  then show ?case using lru_prune_spec [of lru R] lru_entries_mono [of lru R lru'] by auto
next
  case (newid lru R M n lru')
  then have "lru_shard lru' = lru_shard lru" by (auto simp: ldb_lru_newid_def Let_def)
  then have "lru_inv lru' R = lru_inv lru R" "lru_ledger lru' = lru_ledger lru" "lru_content lru' = lru_content lru"
    by (simp_all add: lru_inv_def lru_ledger_def lru_content_def fun_eq_iff)
  with newid show ?case by (simp add: lru_entries_def)
qed

text \<open>A small run: a cache of capacity 100 with one entry.\<close>

lemma sample_cache:
  obtains lru0 :: "bool lru" and h lru where "ldb_lru_init 100 = Some lru0" "ldb_lru_insert lru0 [1] True 5 = Some (h, lru)"
    "lru_entries lru < 2 ^ 30" "sh_capacity (lru_shard lru0 ! ldb_lru_shard (ldb_lru_hash [1])) > 0"
proof -
  obtain lru0 :: "bool lru" where i: "ldb_lru_init 100 = Some lru0" "lru_inv lru0 (\<lambda>_. 0)" "lru_content lru0 = Map.empty"
    "\<forall>i < LDB_SHARDS. sh_capacity (lru_shard lru0 ! i) = (100 + word_of_nat LDB_SHARDS - 1) div word_of_nat LDB_SHARDS" using lru_init_spec by blast
  have c: "sh_capacity (lru_shard lru0 ! ldb_lru_shard (ldb_lru_hash [1])) > 0" using i(4) ldb_lru_shard_less by (simp add: LDB_SHARDS_def)
  have "lru_entries lru0 < 2 ^ 31" using i(3) by (simp add: lru_entries_def)
  from lru_insert_spec [OF i(2) this, of "[1]" True 5] c i(3) obtain h lru where
    h: "ldb_lru_insert lru0 [1] True 5 = Some (h, lru)" "lru_content lru \<subseteq>\<^sub>m [[1] \<mapsto> True]" by auto
  have "card (dom (lru_content lru)) \<le> card (dom [[1 :: u8] \<mapsto> True])" using map_le_implies_dom_le [OF h(2)] by (intro card_mono) auto
  then have "lru_entries lru < 2 ^ 30" by (simp add: lru_entries_def)
  with that [OF i(1) h(1)] c show ?thesis by blast
qed

section \<open>Properties\<close>

text \<open>
  C14. The handles of a cache: whatever insertions, lookups, erasures and prunings clients interleave, as long as they release only handles they
  hold and stay within the counters (fewer than \<^term>\<open>(2 :: nat) ^ 32 - 2\<close> references to one handle, fewer than \<^term>\<open>(2 :: nat) ^ 30\<close> entries in the
  cache), no operation fails an assertion, follows a freed handle or runs forever, a handle that is held can be read, and when
  all handles are released the cache can be destroyed. By then the deleter was called exactly once for everything that was ever inserted.
\<close>

theorem cache_handles_safe:
  assumes "cache_reach capacity lru R M"
  shows "ldb_lru_insert lru key v charge \<noteq> None \<and> ldb_lru_lookup lru key \<noteq> None \<and> ldb_lru_erase lru key \<noteq> None \<and> ldb_lru_prune lru \<noteq> None
    \<and> (R (handle_id h) > 0 \<longrightarrow> ldb_lru_value lru h \<noteq> None \<and> ldb_lru_release lru h \<noteq> None)
    \<and> ((\<forall>i. R i = 0) \<longrightarrow> (\<exists>lru'. ldb_lru_clear lru = Some lru' \<and> lru_deleted lru' = M))"
proof -
  have inv: "lru_inv lru R" and M: "lru_ledger lru = M" and room: "lru_entries lru < 2 ^ 31" "refs_room R"
    using cache_reach_inv [OF assms] by auto
  have "ldb_lru_insert lru key v charge \<noteq> None" using lru_insert_spec [OF inv room(1), of key v charge] by auto
  moreover have "ldb_lru_lookup lru key \<noteq> None" using lru_lookup_spec [OF inv room(2), of key] by auto
  moreover have "ldb_lru_erase lru key \<noteq> None" using lru_erase_spec [OF inv, of key] by auto
  moreover have "ldb_lru_prune lru \<noteq> None" using lru_prune_spec [OF inv] by auto
  moreover have "ldb_lru_value lru h \<noteq> None \<and> ldb_lru_release lru h \<noteq> None" if "R (handle_id h) > 0"
    using lru_held [OF inv that] lru_release_spec [OF inv that] by auto
  moreover have "\<exists>lru'. ldb_lru_clear lru = Some lru' \<and> lru_deleted lru' = M" if "\<forall>i. R i = 0"
    using lru_clear_spec [OF inv that] M by simp
  ultimately show ?thesis by blast
qed

theorem cache_handles_safe_witness:
  "\<exists>lru0 h lru lru1 lru2. ldb_lru_init 100 = Some lru0 \<and> ldb_lru_insert lru0 [1] True 5 = Some (h, lru) \<and> ldb_lru_value lru h \<noteq> None
     \<and> ldb_lru_release lru h = Some lru1 \<and> ldb_lru_clear lru1 = Some lru2 \<and> lru_deleted lru2 = {#([1], True)#}"
proof -
  obtain lru0 :: "bool lru" and h lru where s: "ldb_lru_init 100 = Some lru0" "ldb_lru_insert lru0 [1] True 5 = Some (h, lru)" "lru_entries lru < 2 ^ 30"
    by (rule sample_cache)
  note r = cache_reach.insert [OF cache_reach.init [OF s(1)] s(2,3)]
  obtain lru1 where l: "ldb_lru_value lru h \<noteq> None" "ldb_lru_release lru h = Some lru1" using cache_handles_safe [OF r, of "[]" True 0 h] by auto
  from cache_handles_safe [OF cache_reach.release [OF r _ l(2)], of "[]" True 0 h] have "\<exists>lru2. ldb_lru_clear lru1 = Some lru2 \<and> lru_deleted lru2 = {#([1], True)#}"
    by simp
  with s l show ?thesis by blast
qed

text \<open>
  C15. The cache is a map that forgets: a lookup answers what the cache maps the key to and changes nothing, an insertion maps the key to the
  value, an erasure removes the key, and otherwise an insertion and pruning only drop entries. After an insertion the charge of the shard is
  within its capacity, unless every entry of the shard is in use.
\<close>

theorem cache_refines_map:
  assumes "cache_reach capacity lru R M"
  shows "(\<exists>r lru'. ldb_lru_lookup lru key = Some (r, lru') \<and> lru_content lru' = lru_content lru
        \<and> (case r of None \<Rightarrow> lru_content lru key = None | Some h \<Rightarrow> ldb_lru_value lru' h = lru_content lru key \<and> lru_content lru key \<noteq> None))
    \<and> (\<exists>h lru'. ldb_lru_insert lru key v charge = Some (h, lru') \<and> ldb_lru_value lru' h = Some v
        \<and> (let cap = sh_capacity (lru_shard lru ! ldb_lru_shard (ldb_lru_hash key)) in
            lru_content lru' \<subseteq>\<^sub>m (if cap > 0 then (lru_content lru)(key \<mapsto> v) else lru_content lru) \<and> (cap > 0 \<longrightarrow> lru_content lru' key = Some v))
        \<and> (let s = lru_shard lru' ! ldb_lru_shard (ldb_lru_hash key) in ldb_shard_total_charge s \<le> sh_capacity s \<or> sh_list s = []))
    \<and> (\<exists>lru'. ldb_lru_erase lru key = Some lru' \<and> lru_content lru' = (lru_content lru)(key := None))
    \<and> (\<exists>lru'. ldb_lru_prune lru = Some lru' \<and> lru_content lru' \<subseteq>\<^sub>m lru_content lru)"
proof (intro conjI)
  have inv: "lru_inv lru R" and room: "lru_entries lru < 2 ^ 31" "refs_room R"
    using cache_reach_inv [OF assms] by auto
  show "\<exists>r lru'. ldb_lru_lookup lru key = Some (r, lru') \<and> lru_content lru' = lru_content lru
      \<and> (case r of None \<Rightarrow> lru_content lru key = None | Some h \<Rightarrow> ldb_lru_value lru' h = lru_content lru key \<and> lru_content lru key \<noteq> None)"
    using lru_lookup_spec [OF inv room(2), of key] by (fastforce split: option.splits)
  show "\<exists>h lru'. ldb_lru_insert lru key v charge = Some (h, lru') \<and> ldb_lru_value lru' h = Some v
      \<and> (let cap = sh_capacity (lru_shard lru ! ldb_lru_shard (ldb_lru_hash key)) in
          lru_content lru' \<subseteq>\<^sub>m (if cap > 0 then (lru_content lru)(key \<mapsto> v) else lru_content lru) \<and> (cap > 0 \<longrightarrow> lru_content lru' key = Some v))
      \<and> (let s = lru_shard lru' ! ldb_lru_shard (ldb_lru_hash key) in ldb_shard_total_charge s \<le> sh_capacity s \<or> sh_list s = [])"
    using lru_insert_spec [OF inv room(1), of key v charge] unfolding Let_def ldb_shard_total_charge_def by (elim exE conjE) (intro exI conjI; assumption)
  show "\<exists>lru'. ldb_lru_erase lru key = Some lru' \<and> lru_content lru' = (lru_content lru)(key := None)" using lru_erase_spec [OF inv] by blast
  show "\<exists>lru'. ldb_lru_prune lru = Some lru' \<and> lru_content lru' \<subseteq>\<^sub>m lru_content lru" using lru_prune_spec [OF inv] by blast
qed

theorem cache_refines_map_witness:
  "\<exists>lru0 h lru h' lru'. ldb_lru_init 100 = Some lru0 \<and> ldb_lru_insert lru0 [1] True 5 = Some (h, lru)
     \<and> ldb_lru_lookup lru [1] = Some (Some h', lru') \<and> ldb_lru_value lru' h' = Some True"
proof -
  obtain lru0 :: "bool lru" and h lru where s: "ldb_lru_init 100 = Some lru0" "ldb_lru_insert lru0 [1] True 5 = Some (h, lru)" "lru_entries lru < 2 ^ 30"
    "sh_capacity (lru_shard lru0 ! ldb_lru_shard (ldb_lru_hash [1])) > 0" by (rule sample_cache)
  have "lru_content lru [1] = Some True"
    using cache_refines_map [OF cache_reach.init [OF s(1)], of "[1]" True 5] s(2,4) by (simp add: Let_def)
  with cache_refines_map [OF cache_reach.insert [OF cache_reach.init [OF s(1)] s(2,3)], of "[1]" True 5]
  obtain h' lru' where "ldb_lru_lookup lru [1] = Some (Some h', lru')" "ldb_lru_value lru' h' = Some True" by (auto split: option.splits)
  with s show ?thesis by blast
qed

end
