(* ===== verification/Table.thy ===== *)
theory Table
  imports TableBuilder TwoLevel Cache
begin

text \<open>
  Reading a table (\<^verbatim>\<open>src/src/table/table.c\<close>): opening a file, the reader of data blocks with the block cache, the iterator
  over the whole table, point lookups through the filter and approximate offsets. The block cache is passed from call to call;
  \<^term>\<open>None\<close> as a cache is the null pointer.
\<close>

section \<open>Dispatch\<close>

text \<open>
  \<^verbatim>\<open>ldb_blockiter_create\<close> returns an iterator of one of two kinds, and the function table of an iterator selects the operation. The
  state \<^term>\<open>None\<close> stands for an iterator whose creation read outside a buffer: it fails at its first use.
\<close>

definition sum_table :: "'a itertbl \<Rightarrow> 'b itertbl \<Rightarrow> ('a + 'b) itertbl" where
  "sum_table A B =
     \<lparr>tbl_valid = case_sum (tbl_valid A) (tbl_valid B),
      tbl_seek_first = case_sum (map_option Inl \<circ> tbl_seek_first A) (map_option Inr \<circ> tbl_seek_first B),
      tbl_seek_last = case_sum (map_option Inl \<circ> tbl_seek_last A) (map_option Inr \<circ> tbl_seek_last B),
      tbl_seek = case_sum (\<lambda>s t. map_option Inl (tbl_seek A s t)) (\<lambda>s t. map_option Inr (tbl_seek B s t)),
      tbl_next = case_sum (map_option Inl \<circ> tbl_next A) (map_option Inr \<circ> tbl_next B),
      tbl_prev = case_sum (map_option Inl \<circ> tbl_prev A) (map_option Inr \<circ> tbl_prev B),
      tbl_key = case_sum (tbl_key A) (tbl_key B), tbl_value = case_sum (tbl_value A) (tbl_value B),
      tbl_status = case_sum (tbl_status A) (tbl_status B)\<rparr>"

definition strict_table :: "'a itertbl \<Rightarrow> 'a option itertbl" where
  "strict_table A =
     \<lparr>tbl_valid = case_option True (tbl_valid A),
      tbl_seek_first = (\<lambda>s. s \<bind> tbl_seek_first A \<bind> Some \<circ> Some),
      tbl_seek_last = (\<lambda>s. s \<bind> tbl_seek_last A \<bind> Some \<circ> Some),
      tbl_seek = (\<lambda>s t. s \<bind> (\<lambda>s. tbl_seek A s t) \<bind> Some \<circ> Some),
      tbl_next = (\<lambda>s. s \<bind> tbl_next A \<bind> Some \<circ> Some),
      tbl_prev = (\<lambda>s. s \<bind> tbl_prev A \<bind> Some \<circ> Some),
      tbl_key = (\<lambda>s. s \<bind> tbl_key A), tbl_value = (\<lambda>s. s \<bind> tbl_value A), tbl_status = (\<lambda>s. s \<bind> tbl_status A)\<rparr>"

abbreviation block_table :: "(emptyiter + blockiter) itertbl" where
  "block_table \<equiv> sum_table ldb_emptyiter_table ldb_blockiter_table"

section \<open>Tables\<close>

record table =
  tab_options :: dbopt
  tab_file :: rafile
  tab_cache_id :: u64
  tab_filter :: "filterreader option"
  tab_metaindex_handle :: blockhandle
  tab_index_block :: block

definition table_readopt :: "dbopt \<Rightarrow> readopt" where
  "table_readopt options =
     (if opt_paranoid_checks options then ldb_readopt_default\<lparr>ro_verify_checksums := True\<rparr> else ldb_readopt_default)"

definition ldb_block_create :: "blockcontents \<Rightarrow> block" where
  "ldb_block_create contents = ldb_block_init (bc_data contents) (bc_heap_allocated contents)"

definition ldb_table_read_filter :: "table \<Rightarrow> bytes \<Rightarrow> table option" where
  "ldb_table_read_filter table filter_handle_value =
     (case ldb_blockhandle_import filter_handle_value of
        None \<Rightarrow> Some table
      | Some filter_handle \<Rightarrow> do {
          r \<leftarrow> ldb_read_block (tab_file table) (table_readopt (tab_options table)) filter_handle;
          case r of
            Inl rc \<Rightarrow> Some table
          | Inr block \<Rightarrow> do {
              policy \<leftarrow> opt_filter_policy (tab_options table);
              Some (table\<lparr>tab_filter := Some (ldb_filterreader_init policy (bc_data block))\<rparr>)
            }
        })"

definition ldb_table_read_meta :: "table \<Rightarrow> footer \<Rightarrow> table option" where
  "ldb_table_read_meta table footer =
     (case opt_filter_policy (tab_options table) of
        None \<Rightarrow> Some table
      | Some policy \<Rightarrow>
          (case ldb_bloom_name 72 policy of
             None \<Rightarrow> Some table
           | Some name \<Rightarrow> do {
               r \<leftarrow> ldb_read_block (tab_file table) (table_readopt (tab_options table)) (ft_metaindex_handle footer);
               case r of
                 Inl rc \<Rightarrow> Some table
               | Inr contents \<Rightarrow> do {
                   let meta = ldb_block_create contents;
                   let iter = ldb_blockiter_create meta bytewise_comparator;
                   let key = bytes_of_string name;
                   iter \<leftarrow> tbl_seek block_table iter key;
                   if tbl_valid block_table iter then do {
                     iter_key \<leftarrow> tbl_key block_table iter;
                     if ldb_slice_equal iter_key key then do {
                       iter_value \<leftarrow> tbl_value block_table iter;
                       ldb_table_read_filter table iter_value
                     }
                     else Some table
                   }
                   else Some table
                 }
             }))"

definition ldb_table_open ::
  "dbopt \<Rightarrow> block lru option \<Rightarrow> rafile \<Rightarrow> u64 \<Rightarrow> ((status + table) \<times> block lru option) option" where
  "ldb_table_open options block_cache fl sz =
     (if unat sz < LDB_FOOTER_SIZE then Some (Inl LDB_CORRUPTION, block_cache)
      else
        (let (rc, input) = ra_pread fl LDB_FOOTER_SIZE (unat sz - LDB_FOOTER_SIZE)
         in if rc \<noteq> LDB_OK then Some (Inl LDB_CORRUPTION, block_cache)
            else
              (case ldb_footer_import input of
                 None \<Rightarrow> Some (Inl LDB_CORRUPTION, block_cache)
               | Some footer \<Rightarrow> do {
                   r \<leftarrow> ldb_read_block fl (table_readopt options) (ft_index_handle footer);
                   case r of
                     Inl rc \<Rightarrow> Some (Inl rc, block_cache)
                   | Inr contents \<Rightarrow> do {
                       let tbl = \<lparr>tab_options = options, tab_file = fl, tab_cache_id = 0, tab_filter = None,
                                  tab_metaindex_handle = ft_metaindex_handle footer, tab_index_block = ldb_block_create contents\<rparr>;
                       let (tbl, block_cache) =
                         (case block_cache of
                            None \<Rightarrow> (tbl, None)
                          | Some lru \<Rightarrow> (let (i, lru) = ldb_lru_newid lru in (tbl\<lparr>tab_cache_id := ucast i\<rparr>, Some lru)));
                       tbl \<leftarrow> ldb_table_read_meta tbl footer;
                       Some (Inr tbl, block_cache)
                     }
                 })))"

section \<open>Reading a block\<close>

datatype cleanup = delete_block block | release_block cachehandle

definition run_cleanup :: "block lru option \<Rightarrow> cleanup \<Rightarrow> block lru option option" where
  "run_cleanup block_cache func =
     (case func of
        delete_block block \<Rightarrow> Some block_cache
      | release_block h \<Rightarrow> do { lru \<leftarrow> block_cache; lru \<leftarrow> ldb_lru_release lru h; Some (Some lru) })"

definition cache_key :: "table \<Rightarrow> blockhandle \<Rightarrow> bytes" where
  "cache_key table handle = ldb_fixed64_write (tab_cache_id table) @ ldb_fixed64_write (bh_offset handle)"

text \<open>The block at a handle, with the handle of the cache when it is cached; the branches of the function on \<^verbatim>\<open>block_cache\<close>.\<close>

definition fetch_block ::
  "table \<Rightarrow> readopt \<Rightarrow> blockhandle \<Rightarrow> block lru option \<Rightarrow> ((status + block \<times> cachehandle option) \<times> block lru option) option" where
  "fetch_block table options handle block_cache =
     (case block_cache of
        None \<Rightarrow> do {
          r \<leftarrow> ldb_read_block (tab_file table) options handle;
          Some (map_sum id (\<lambda>contents. (ldb_block_create contents, None)) r, None)
        }
      | Some lru \<Rightarrow> do {
          let key = cache_key table handle;
          (cache_handle, lru) \<leftarrow> ldb_lru_lookup lru key;
          case cache_handle of
            Some h \<Rightarrow> do {
              block \<leftarrow> ldb_lru_value lru h;
              Some (Inr (block, Some h), Some lru)
            }
          | None \<Rightarrow> do {
              r \<leftarrow> ldb_read_block (tab_file table) options handle;
              case r of
                Inl rc \<Rightarrow> Some (Inl rc, Some lru)
              | Inr contents \<Rightarrow> do {
                  let block = ldb_block_create contents;
                  if bc_cachable contents \<and> ro_fill_cache options then do {
                    (h, lru) \<leftarrow> ldb_lru_insert lru key block (word_of_nat (bl_size block));
                    Some (Inr (block, Some h), Some lru)
                  }
                  else Some (Inr (block, None), Some lru)
                }
            }
        })"

definition ldb_table_blockreader ::
  "table \<Rightarrow> readopt \<Rightarrow> bytes \<Rightarrow> block lru option \<Rightarrow> ((emptyiter + blockiter, cleanup) ldb_iter \<times> block lru option) option" where
  "ldb_table_blockreader table options index_value block_cache = do {
     (r, block_cache) \<leftarrow>
       (case ldb_blockhandle_import index_value of
          None \<Rightarrow> Some (Inl LDB_CORRUPTION, block_cache)
        | Some handle \<Rightarrow> fetch_block table options handle block_cache);
     case r of
       Inr (block, cache_handle) \<Rightarrow> do {
         let iter = ldb_iter_create (ldb_blockiter_create block (opt_comparator (tab_options table)));
         case cache_handle of
           None \<Rightarrow> Some (ldb_iter_register_cleanup iter (delete_block block), block_cache)
         | Some h \<Rightarrow> Some (ldb_iter_register_cleanup iter (release_block h), block_cache)
       }
     | Inl rc \<Rightarrow> Some (ldb_iter_create (Inl (ldb_emptyiter_create rc)), block_cache)
   }"

text \<open>
  The iterator over the table. The block function of a two-level iterator has no state; it is the reader of a table without a block cache, and
  a cache does not change the blocks that are read.
\<close>

definition block_function :: "table \<Rightarrow> readopt \<Rightarrow> bytes \<Rightarrow> (emptyiter + blockiter) option iter" where
  "block_function table options index_value =
     (strict_table block_table, map_option (it_ptr \<circ> fst) (ldb_table_blockreader table options index_value None))"

definition ldb_tableiter_create ::
  "table \<Rightarrow> readopt \<Rightarrow> (emptyiter + blockiter, (emptyiter + blockiter) option) twoiter iter option" where
  "ldb_tableiter_create table options =
     (let iter = ldb_blockiter_create (tab_index_block table) (opt_comparator (tab_options table))
      in ldb_twoiter_create (block_table, iter) (block_function table options))"

section \<open>Point lookups\<close>

text \<open>The entry that \<^verbatim>\<open>handle_result\<close> is called with, if it is called, and the status.\<close>

definition ldb_table_internal_get ::
  "table \<Rightarrow> readopt \<Rightarrow> bytes \<Rightarrow> block lru option \<Rightarrow> (status \<times> kv option \<times> block lru option) option" where
  "ldb_table_internal_get table options k block_cache = do {
     let index_iter = ldb_blockiter_create (tab_index_block table) (opt_comparator (tab_options table));
     index_iter \<leftarrow> tbl_seek block_table index_iter k;
     (rc, result, block_cache) \<leftarrow>
       (if tbl_valid block_table index_iter then do {
          iter_value \<leftarrow> tbl_value block_table index_iter;
          if (case (tab_filter table, ldb_blockhandle_import iter_value) of
                (Some fr, Some handle) \<Rightarrow> \<not> ldb_filterreader_matches fr (bh_offset handle) k
              | _ \<Rightarrow> False)
          then Some (LDB_OK, None, block_cache)
          else do {
            (it, block_cache) \<leftarrow> ldb_table_blockreader table options iter_value block_cache;
            block_iter \<leftarrow> tbl_seek block_table (it_ptr it) k;
            result \<leftarrow>
              (if tbl_valid block_table block_iter then do {
                 block_iter_key \<leftarrow> tbl_key block_table block_iter;
                 block_iter_value \<leftarrow> tbl_value block_table block_iter;
                 Some (Some (block_iter_key, block_iter_value))
               }
               else Some None);
            rc \<leftarrow> tbl_status block_table block_iter;
            block_cache \<leftarrow> foldl (\<lambda>c func. c \<bind> (\<lambda>c. run_cleanup c func)) (Some block_cache) (ldb_iter_clear it);
            Some (rc, result, block_cache)
          }
        }
        else Some (LDB_OK, None, block_cache));
     rc \<leftarrow> (if rc = LDB_OK then tbl_status block_table index_iter else Some rc);
     Some (rc, result, block_cache)
   }"

definition ldb_table_approximate_offsetof :: "table \<Rightarrow> bytes \<Rightarrow> u64 option" where
  "ldb_table_approximate_offsetof table key = do {
     let index_iter = ldb_blockiter_create (tab_index_block table) (opt_comparator (tab_options table));
     index_iter \<leftarrow> tbl_seek block_table index_iter key;
     if tbl_valid block_table index_iter then do {
       input \<leftarrow> tbl_value block_table index_iter;
       case ldb_blockhandle_import input of
         Some handle \<Rightarrow> Some (bh_offset handle)
       | None \<Rightarrow> Some (bh_offset (tab_metaindex_handle table))
     }
     else Some (bh_offset (tab_metaindex_handle table))
   }"

section \<open>Dispatch keeps the contract\<close>

lemma sum_cursor: "cursor B cmp es at tok \<Longrightarrow> cursor (sum_table A B) cmp es (\<lambda>s i. \<exists>t. s = Inr t \<and> at t i) tok"
  unfolding cursor_def by (fastforce simp: sum_table_def)

lemma strict_cursor: "cursor A cmp es at tok \<Longrightarrow> cursor (strict_table A) cmp es (\<lambda>s i. \<exists>t. s = Some t \<and> at t i) tok"
  unfolding cursor_def by (fastforce simp: strict_table_def)

section \<open>Blocks of a file\<close>

text \<open>A handle determines the bytes of its block, and the image of a block its entries.\<close>

lemma stores_unique:
  assumes "stores F h raw" "stores F h raw'"
  shows "raw = raw'"
  using random_file.read_stored [OF bytes_file.random_file_axioms assms(1), of ldb_readopt_default]
    random_file.read_stored [OF bytes_file.random_file_axioms assms(2), of ldb_readopt_default] by auto

lemma cursor_unique:
  assumes "cursor T cmp es at tok" "cursor T cmp es' at' tok" "at s i" "at' s j"
  shows "es = es'"
proof -
  obtain s1 s2 where s1: "tbl_seek_first T s = Some s1" "at s1 0" and s2: "tbl_seek_first T s = Some s2" "at' s2 0"
    using cursor.seek_first [OF assms(1,3)] cursor.seek_first [OF assms(2,4)] by blast
  let ?n = "length es + length es'"
  have "iter_scan T ?n s1 = Some es" "iter_scan T ?n s2 = Some es'"
    using cursor.scan_at [OF assms(1) s1(2), of ?n] cursor.scan_at [OF assms(2) s2(2), of ?n] by simp_all
  with s1(1) s2(1) show ?thesis by simp
qed

text \<open>A block in memory with the entries \<^term>\<open>es\<close>.\<close>

definition entry_block :: "block \<Rightarrow> kv list \<Rightarrow> bool" where
  "entry_block b es \<longleftrightarrow> (\<exists>sh rs own. image_ok es sh rs \<and> b = ldb_block_init (block_image es sh rs) own)"

context comparator_order
begin

lemma entry_block_cursor:
  assumes "entry_block b es" "kv_sorted es"
  shows "\<exists>it at. ldb_blockiter_create b C = Inr it \<and> cursor block_table (compare C) es at ok \<and> at (Inr it) (length es)"
proof -
  obtain sh rs own where img: "image_ok es sh rs" "b = ldb_block_init (block_image es sh rs) own" using assms(1) by (auto simp: entry_block_def)
  from sum_cursor [OF block_cursor [OF img(1) assms(2)]] block_at_init [of C es sh rs] block_init_image [OF img(1), of own C]
  show ?thesis unfolding img(2) by blast
qed

end

lemma read_entry_block:
  assumes "random_file fl F" "stores_entries F h es"
  shows "\<exists>c. ldb_read_block fl options h = Some (Inr c) \<and> entry_block (ldb_block_create c) es"
proof -
  obtain sh rs where img: "image_ok es sh rs" "stores F h (block_image es sh rs)" using assms(2) by (auto simp: stores_entries_def)
  from random_file.read_stored [OF assms(1) img(2), of options] show ?thesis
    unfolding ldb_block_create_def entry_block_def using img(1) by metis
qed

lemma first_ge_skip: "\<forall>e \<in> set xs. cmp (fst e) t < 0 \<Longrightarrow> first_ge cmp (xs @ ys) t = length xs + first_ge cmp ys t"
  by (induction xs) (simp_all add: first_ge_def)

lemma filterreader_same:
  assumes "\<And>x. fp_match P x a = fp_match P x b"
  shows "ldb_filterreader_matches (ldb_filterreader_init P c) off a = ldb_filterreader_matches (ldb_filterreader_init P c) off b"
proof -
  have "fr_policy (ldb_filterreader_init P c) = P" by (simp add: ldb_filterreader_init_def Let_def)
  with assms show ?thesis by (simp only: ldb_filterreader_matches_def)
qed

section \<open>The block cache\<close>

text \<open>
  The blocks that the cache holds under the keys of the table are the blocks of its file; \<^term>\<open>R\<close> counts the handles in use. The entries of the other
  clients and the blocks of the table together are few enough for the counters of the cache.
\<close>

definition cache_ok :: "table \<Rightarrow> (blockhandle \<times> kv list) list \<Rightarrow> block lru option \<Rightarrow> (nat \<times> nat \<Rightarrow> nat) \<Rightarrow> bool" where
  "cache_ok tab bs cache R \<longleftrightarrow> (case cache of None \<Rightarrow> True
     | Some lru \<Rightarrow> lru_inv lru R \<and> (\<forall>i < length bs. \<forall>b. lru_content lru (cache_key tab (fst (bs ! i))) = Some b \<longrightarrow> entry_block b (snd (bs ! i)))
         \<and> length bs \<le> 2 ^ 30 \<and> (\<exists>D. finite D \<and> card D < 2 ^ 30 \<and> dom (lru_content lru) \<subseteq> D \<union> cache_key tab ` fst ` set bs))"

lemma cache_key_offset:
  assumes "cache_key tab h = cache_key tab h'"
  shows "bh_offset h = bh_offset h'"
proof -
  have "ldb_fixed64_write (bh_offset h) = ldb_fixed64_write (bh_offset h')" using assms unfolding cache_key_def by (simp only: same_append_eq)
  then have "ldb_fixed64_decode (ldb_fixed64_write (bh_offset h) @ []) = ldb_fixed64_decode (ldb_fixed64_write (bh_offset h') @ [])" by (simp only:)
  then show ?thesis unfolding ldb_fixed64_decode_write .
qed

lemma cache_ok_mono:
  assumes "cache_ok tab bs (Some lru) R" "lru_inv lru' R'" "lru_content lru' \<subseteq>\<^sub>m lru_content lru"
  shows "cache_ok tab bs (Some lru') R'"
proof -
  note O = assms(1) [unfolded cache_ok_def option.case]
  obtain D where D: "finite D" "card D < 2 ^ 30" "dom (lru_content lru) \<subseteq> D \<union> cache_key tab ` fst ` set bs" using O by (elim conjE exE)
  have dom: "dom (lru_content lru') \<subseteq> D \<union> cache_key tab ` fst ` set bs" using map_le_implies_dom_le [OF assms(3)] D(3) by (rule subset_trans)
  have same: "lru_content lru k = Some b" if "lru_content lru' k = Some b" for k b using that assms(3) unfolding map_le_def by (metis domI)
  have "\<forall>i < length bs. \<forall>b. lru_content lru' (cache_key tab (fst (bs ! i))) = Some b \<longrightarrow> entry_block b (snd (bs ! i))"
    using O same by simp
  then show ?thesis unfolding cache_ok_def option.case using O assms(2) D(1,2) dom by (intro conjI exI [of _ D]) simp_all
qed

lemma cache_ok_room:
  assumes "cache_ok tab bs (Some lru) R"
  shows "lru_entries lru < 2 ^ 31"
proof -
  obtain D where D: "finite D" "card D < 2 ^ 30" "dom (lru_content lru) \<subseteq> D \<union> cache_key tab ` fst ` set bs" "length bs \<le> 2 ^ 30"
    using assms by (auto simp: cache_ok_def)
  have "lru_entries lru \<le> card (D \<union> cache_key tab ` fst ` set bs)" unfolding lru_entries_def by (rule card_mono) (use D in auto)
  also have "\<dots> \<le> card D + card (cache_key tab ` fst ` set bs)" by (rule card_Un_le)
  also have "card (cache_key tab ` fst ` set bs) \<le> length bs"
    by (metis card_length image_image image_set length_map)
  finally show ?thesis using D by simp
qed

section \<open>Opening a table\<close>

text \<open>The entries of the block with an encoded handle.\<close>

definition block_of :: "(blockhandle \<times> kv list) list \<Rightarrow> bytes \<Rightarrow> kv list" where
  "block_of bs v = the (map_of (map (\<lambda>(h, es). (ldb_blockhandle_write h, es)) bs) v)"

context table_writer
begin

lemma entries_sorted: "entries_ok es \<longleftrightarrow> kv_sorted es"
  by (auto simp: entries_ok_def kv_sorted_def)

definition filter_ok :: "table \<Rightarrow> (blockhandle \<times> kv list) list \<Rightarrow> bool" where
  "filter_ok tab bs \<longleftrightarrow> (case opt_filter_policy opts of None \<Rightarrow> tab_filter tab = None
     | Some P \<Rightarrow> \<exists>off. tab_filter tab = Some (ldb_filterreader_init P (filter_contents P bs off))
         \<and> length (filter_contents P bs off) < 2 ^ 32 \<and> sorted (map (unat \<circ> bh_offset \<circ> fst) bs @ [unat off]))"

definition opened :: "table \<Rightarrow> bytes \<Rightarrow> (blockhandle \<times> kv list) list \<Rightarrow> kv list \<Rightarrow> bool" where
  "opened tab F bs idx \<longleftrightarrow> tab_options tab = opts \<and> random_file (tab_file tab) F \<and> entries_ok (concat (map snd bs))
     \<and> (\<forall>(h, es) \<in> set bs. es \<noteq> [] \<and> stores_entries F h es) \<and> distinct (map (bh_offset \<circ> fst) bs)
     \<and> entry_block (tab_index_block tab) idx \<and> length idx = length bs \<and> idx_ok idx bs [] \<and> filter_ok tab bs"

lemma read_filter_ok:
  assumes "random_file (tab_file tab) F" "stores F fh (filter_contents P bs off)" "tab_options tab = opts" "opt_filter_policy opts = Some P"
  shows "ldb_table_read_filter tab (ldb_blockhandle_write fh)
    = Some (tab\<lparr>tab_filter := Some (ldb_filterreader_init P (filter_contents P bs off))\<rparr>)"
proof -
  obtain c where "ldb_read_block (tab_file tab) (table_readopt opts) fh = Some (Inr c)" "bc_data c = filter_contents P bs off"
    using random_file.read_stored [OF assms(1,2)] by blast
  with assms(3,4) show ?thesis by (simp add: ldb_table_read_filter_def blockhandle_import_write)
qed

lemma read_meta_ok:
  assumes fl: "random_file (tab_file tab) F" and meta: "stores_entries F (ft_metaindex_handle ft) meta" "meta_ok F bs meta"
    and tab: "tab_options tab = opts" "tab_filter tab = None"
  shows "\<exists>tab'. ldb_table_read_meta tab ft = Some tab' \<and> filter_ok tab' bs \<and> (\<exists>f. tab' = tab\<lparr>tab_filter := f\<rparr>)"
proof (cases "opt_filter_policy opts")
  case None
  have "tab = tab\<lparr>tab_filter := None\<rparr>" using tab(2) by (cases tab) simp
  then have "\<exists>f. tab = tab\<lparr>tab_filter := f\<rparr>" by (rule exI)
  with None tab show ?thesis by (simp add: ldb_table_read_meta_def filter_ok_def)
next
  case (Some P)
  let ?name = "''filter.'' @ fp_name P"
  obtain fh off where m: "meta = [(bytes_of_string ?name, ldb_blockhandle_write fh)]" "stores F fh (filter_contents P bs off)"
    "length (filter_contents P bs off) < 2 ^ 32" "sorted (map (unat \<circ> bh_offset \<circ> fst) bs @ [unat off])"
    using meta(2) Some by (auto simp: meta_ok_def)
  have name: "ldb_bloom_name 72 P = Some ?name" using policy_name [OF Some] by (simp add: ldb_bloom_name_def Let_def)
  obtain c where c: "ldb_read_block (tab_file tab) (table_readopt opts) (ft_metaindex_handle ft) = Some (Inr c)"
    "entry_block (ldb_block_create c) meta" using read_entry_block [OF fl meta(1)] by blast
  have "bytewise.kv_sorted meta" by (simp add: m(1) bytewise.kv_sorted_def)
  from bytewise.order.entry_block_cursor [OF c(2) this] obtain it at where
    it: "ldb_blockiter_create (ldb_block_create c) bytewise_comparator = Inr it" "cursor block_table (compare bytewise_comparator) meta at (\<lambda>_. True)"
    "at (Inr it) (length meta)" by blast
  have fge: "first_ge (compare bytewise_comparator) meta (bytes_of_string ?name) = 0" using bytewise.cmp_refl [of "bytes_of_string ?name"] by (simp add: m(1) first_ge_def del: append.simps)
  obtain s' where s': "tbl_seek block_table (Inr it) (bytes_of_string ?name) = Some s'" "at s' 0"
    using cursor.seek [OF it(2,3), of "bytes_of_string ?name"] fge by auto
  have "tbl_valid block_table s'" "tbl_key block_table s' = Some (bytes_of_string ?name)" "tbl_value block_table s' = Some (ldb_blockhandle_write fh)"
    using cursor.at_valid [OF it(2) s'(2)] cursor.at_key [OF it(2) s'(2)] cursor.at_value [OF it(2) s'(2)] by (simp_all add: m(1))
  then have "ldb_table_read_meta tab ft = Some (tab\<lparr>tab_filter := Some (ldb_filterreader_init P (filter_contents P bs off))\<rparr>)"
    using Some name c(1) it(1) s'(1) read_filter_ok [OF fl m(2) tab(1) Some]
    by (simp add: ldb_table_read_meta_def tab(1) Let_def ldb_slice_equal_iff)
  with Some m(3,4) show ?thesis by (auto simp: filter_ok_def)
qed

lemma table_opened:
  assumes fl: "table_file F bs" "random_file fl F" and es: "entries_ok (concat (map snd bs))" and len: "length F < 2 ^ 64"
  shows "\<exists>tab idx cache'. ldb_table_open opts cache fl (word_of_nat (length F)) = Some (Inr tab, cache') \<and> opened tab F bs idx
    \<and> (case cache of None \<Rightarrow> cache' = None | Some lru \<Rightarrow> cache' = Some (snd (ldb_lru_newid lru)) \<and> tab_cache_id tab = ucast (fst (ldb_lru_newid lru)))"
proof -
  obtain pre ft idx meta where F: "F = pre @ ldb_footer_write ft" "stores_entries F (ft_index_handle ft) idx"
    "length idx = length bs" "idx_ok idx bs []" "\<forall>(h, es) \<in> set bs. es \<noteq> [] \<and> stores_entries F h es"
    "stores_entries F (ft_metaindex_handle ft) meta" "meta_ok F bs meta" "distinct (map (bh_offset \<circ> fst) bs)" using fl(1) by (auto simp: table_file_def)
  let ?sz = "word_of_nat (length F) :: u64"
  have sz: "unat ?sz = length F" using len by (simp add: unat_of_nat take_bit_nat_eq_self)
  have big: "length F = length pre + LDB_FOOTER_SIZE" by (simp add: F(1))
  have "ra_pread fl LDB_FOOTER_SIZE (length F - LDB_FOOTER_SIZE) = (LDB_OK, take LDB_FOOTER_SIZE (drop (length pre) F))"
    using random_file.pread_law [OF fl(2), of "length pre" LDB_FOOTER_SIZE] by (simp add: big)
  moreover have "take LDB_FOOTER_SIZE (drop (length pre) F) = ldb_footer_write ft" by (simp add: F(1))
  ultimately have pr: "ra_pread fl LDB_FOOTER_SIZE (length F - LDB_FOOTER_SIZE) = (LDB_OK, ldb_footer_write ft)" by simp
  have imp: "ldb_footer_import (ldb_footer_write ft) = Some ft"
    using footer_read_write [of ft "[]"] by (simp add: ldb_footer_import_def)
  obtain c where c: "ldb_read_block fl (table_readopt opts) (ft_index_handle ft) = Some (Inr c)" "entry_block (ldb_block_create c) idx"
    using read_entry_block [OF fl(2) F(2)] by blast
  define cid :: u64 where "cid = (case cache of None \<Rightarrow> 0 | Some lru \<Rightarrow> ucast (fst (ldb_lru_newid lru)))"
  define t where "t = \<lparr>tab_options = opts, tab_file = fl, tab_cache_id = cid, tab_filter = None,
    tab_metaindex_handle = ft_metaindex_handle ft, tab_index_block = ldb_block_create c\<rparr>"
  obtain f where t': "ldb_table_read_meta t ft = Some (t\<lparr>tab_filter := f\<rparr>)" "filter_ok (t\<lparr>tab_filter := f\<rparr>) bs"
    using read_meta_ok [of t F ft meta bs, OF _ F(6,7)] fl(2) by (auto simp: t_def)
  have "ldb_table_open opts cache fl ?sz
    = Some (Inr (t\<lparr>tab_filter := f\<rparr>), case cache of None \<Rightarrow> None | Some lru \<Rightarrow> Some (snd (ldb_lru_newid lru)))"
    using t'(1) by (cases cache) (simp_all add: ldb_table_open_def sz big [symmetric] pr imp c(1) t_def cid_def Let_def split_beta, simp_all add: big)
  moreover have "opened (t\<lparr>tab_filter := f\<rparr>) F bs idx"
    using F(3-5,8) fl(2) es c(2) t'(2) by (simp add: opened_def t_def)
  ultimately show ?thesis by (intro exI [of _ "t\<lparr>tab_filter := f\<rparr>"] exI conjI) (assumption | simp add: t_def cid_def split: option.splits)+
qed

section \<open>Iterating over a table\<close>

lemma openedD:
  assumes "opened tab F bs idx"
  shows "tab_options tab = opts" "random_file (tab_file tab) F" "kv_sorted (concat (map snd bs))" "entry_block (tab_index_block tab) idx"
    and "length idx = length bs" "filter_ok tab bs"
    and "i < length bs \<Longrightarrow> idx_entry (idx ! i) (bs ! i) (concat (map snd (drop (Suc i) bs)))"
    and "i < length bs \<Longrightarrow> stores_entries F (fst (bs ! i)) (snd (bs ! i))" "i < length bs \<Longrightarrow> snd (bs ! i) \<noteq> []"
    and "i < length bs \<Longrightarrow> kv_sorted (snd (bs ! i))"
proof -
  note O = assms [unfolded opened_def]
  show "tab_options tab = opts" "random_file (tab_file tab) F" "kv_sorted (concat (map snd bs))" "entry_block (tab_index_block tab) idx"
    "length idx = length bs" "filter_ok tab bs" using O by (auto simp: entries_sorted)
  show "idx_entry (idx ! i) (bs ! i) (concat (map snd (drop (Suc i) bs)))" if "i < length bs" using O that by (simp add: idx_ok_def)
  show "stores_entries F (fst (bs ! i)) (snd (bs ! i))" "snd (bs ! i) \<noteq> []" if "i < length bs" using O nth_mem [OF that] by auto
  show "kv_sorted (snd (bs ! i))" if "i < length bs"
  proof -
    have "concat (map snd bs) = concat (map snd (take i bs)) @ snd (bs ! i) @ concat (map snd (drop (Suc i) bs))"
      by (subst id_take_nth_drop [OF that]) simp
    then have "entries_ok (concat (map snd (take i bs)) @ snd (bs ! i) @ concat (map snd (drop (Suc i) bs)))" using O by simp
    then show ?thesis by (simp add: entries_ok_def sorted_wrt_append flip: entries_sorted)
  qed
qed

lemma later_block:
  assumes "i < j" "j < length bs" "e \<in> set (snd (bs ! j))"
  shows "e \<in> set (concat (map snd (drop (Suc i) bs)))"
proof -
  have "drop (Suc i) bs ! (j - Suc i) = bs ! j" "j - Suc i < length (drop (Suc i) bs)" using assms by auto
  then have "bs ! j \<in> set (drop (Suc i) bs)" by (metis nth_mem)
  with assms(3) show ?thesis by auto
qed

lemma idx_entryD:
  assumes "opened tab F bs idx" "i < length bs"
  shows "snd (idx ! i) = ldb_blockhandle_write (fst (bs ! i))" "ok (fst (idx ! i))"
    and "e \<in> set (snd (bs ! i)) \<Longrightarrow> compare C (fst e) (fst (idx ! i)) \<le> 0"
    and "i < j \<Longrightarrow> j < length bs \<Longrightarrow> e \<in> set (snd (bs ! j)) \<Longrightarrow> less (idx ! i) e"
    and "i < j \<Longrightarrow> j < length bs \<Longrightarrow> e \<in> set (snd (bs ! j)) \<Longrightarrow> ok k \<Longrightarrow> same (fst e) k \<Longrightarrow>
      compare C (fst (last (snd (bs ! i)))) k < 0 \<Longrightarrow> compare C (fst (idx ! i)) k < 0"
proof -
  note I = openedD(7) [OF assms, unfolded idx_entry_def]
  show "snd (idx ! i) = ldb_blockhandle_write (fst (bs ! i))" "ok (fst (idx ! i))" using I by blast+
  show "compare C (fst e) (fst (idx ! i)) \<le> 0" if "e \<in> set (snd (bs ! i))" using I that by blast
  show "less (idx ! i) e" if "i < j" "j < length bs" "e \<in> set (snd (bs ! j))"
    using I later_block [OF that] by blast
  show "compare C (fst (idx ! i)) k < 0" if "i < j" "j < length bs" "e \<in> set (snd (bs ! j))" "ok k" "same (fst e) k"
    "compare C (fst (last (snd (bs ! i)))) k < 0"
    using I later_block [OF that(1-3)] that(4-6) by blast
qed

lemma idx_sorted:
  assumes "opened tab F bs idx"
  shows "kv_sorted idx"
proof -
  note O = openedD [OF assms]
  have "less (idx ! i) (idx ! j)" if ij: "i < j" "j < length idx" for i j
  proof -
    have b: "i < length bs" "j < length bs" using ij O(5) by auto
    then obtain e where e: "e \<in> set (snd (bs ! j))" using O(9) by (metis ex_in_conv set_empty)
    have "ok (fst e)" using O(10) [OF b(2)] e by (auto simp: kv_sorted_def)
    moreover have "less (idx ! i) e" "ok (fst (idx ! i))" "ok (fst (idx ! j))" "compare C (fst e) (fst (idx ! j)) \<le> 0"
      using idx_entryD [OF assms b(1)] idx_entryD [OF assms b(2)] ij(1) b(2) e by blast+
    ultimately show ?thesis using cmp_less_le_trans by blast
  qed
  moreover have "ok (fst e)" if "e \<in> set idx" for e
    using that O(5) idx_entryD(2) [OF assms] by (metis in_set_conv_nth)
  ultimately show ?thesis by (auto simp: kv_sorted_def sorted_wrt_iff_nth_less)
qed

lemma handle_unique:
  assumes "opened tab F bs idx" "i < length bs" "j < length bs" "fst (bs ! i) = fst (bs ! j)"
  shows "snd (bs ! i) = snd (bs ! j)"
proof -
  note O = openedD [OF assms(1)]
  obtain ci cj where c: "ldb_read_block (tab_file tab) ldb_readopt_default (fst (bs ! i)) = Some (Inr ci)" "entry_block (ldb_block_create ci) (snd (bs ! i))"
    "ldb_read_block (tab_file tab) ldb_readopt_default (fst (bs ! j)) = Some (Inr cj)" "entry_block (ldb_block_create cj) (snd (bs ! j))"
    using read_entry_block [OF O(2) O(8)] assms(2,3) by metis
  then have "cj = ci" using assms(4) by simp
  with order.entry_block_cursor [OF c(2) O(10) [OF assms(2)]] order.entry_block_cursor [OF c(4) O(10) [OF assms(3)]]
  show ?thesis using cursor_unique by (metis sum.inject(2))
qed

lemma block_of_nth:
  assumes "opened tab F bs idx" "i < length bs"
  shows "block_of bs (snd (idx ! i)) = snd (bs ! i)"
proof -
  let ?m = "map (\<lambda>(h, es). (ldb_blockhandle_write h, es)) bs"
  note v = idx_entryD(1) [OF assms]
  have "?m ! i = (snd (idx ! i), snd (bs ! i))" using assms(2) v by (simp add: split_beta)
  then have "(snd (idx ! i), snd (bs ! i)) \<in> set ?m" using assms(2) by (metis length_map nth_mem)
  then have "snd (idx ! i) \<in> fst ` set ?m" by (metis fst_conv image_eqI)
  then obtain es where es: "map_of ?m (snd (idx ! i)) = Some es" by (meson map_of_eq_None_iff not_None_eq)
  then have "(snd (idx ! i), es) \<in> set ?m" by (rule map_of_SomeD)
  then obtain p where p: "p \<in> set bs" "ldb_blockhandle_write (fst p) = snd (idx ! i)" "snd p = es" by (auto)
  then obtain j where j: "j < length bs" "ldb_blockhandle_write (fst (bs ! j)) = snd (idx ! i)" "snd (bs ! j) = es"
    by (auto simp only: in_set_conv_nth)
  then have "fst (bs ! j) = fst (bs ! i)" using v blockhandle_import_write by (metis option.inject)
  with handle_unique [OF assms(1) j(1) assms(2)] j(3) es show ?thesis by (simp add: block_of_def)
qed

lemma block_of_entries: "opened tab F bs idx \<Longrightarrow> block_entries idx (block_of bs) = concat (map snd bs)"
  unfolding block_entries_def using block_of_nth openedD(5) by (intro arg_cong [where f = concat] nth_equalityI) auto

lemma blockreader_cursor:
  assumes "opened tab F bs idx" "i < length bs"
  shows "\<exists>at. cursor (strict_table block_table) (compare C) (snd (bs ! i)) at ok
    \<and> at (snd (block_function tab options (snd (idx ! i)))) (length (snd (bs ! i)))"
proof -
  note O = openedD [OF assms(1)]
  note v = idx_entryD(1) [OF assms]
  obtain c where c: "ldb_read_block (tab_file tab) options (fst (bs ! i)) = Some (Inr c)" "entry_block (ldb_block_create c) (snd (bs ! i))"
    using read_entry_block [OF O(2) O(8) [OF assms(2)]] by blast
  obtain it at where it: "ldb_blockiter_create (ldb_block_create c) C = Inr it" "cursor block_table (compare C) (snd (bs ! i)) at ok"
    "at (Inr it) (length (snd (bs ! i)))" using order.entry_block_cursor [OF c(2) O(10) [OF assms(2)]] by blast
  have "snd (block_function tab options (snd (idx ! i))) = Some (Inr it)"
    using c(1) it(1) O(1) opt_cmp
    by (simp add: block_function_def ldb_table_blockreader_def v blockhandle_import_write fetch_block_def ldb_iter_register_cleanup_def ldb_iter_create_def)
  with strict_cursor [OF it(2)] it(3) show ?thesis by blast
qed

lemma table_sources:
  assumes "opened tab F bs idx"
  shows "\<exists>s iat dat. ldb_blockiter_create (tab_index_block tab) C = s \<and> iat s (length idx)
    \<and> order.two_sources block_table idx iat (block_function tab options) (block_of bs) dat"
proof -
  note O = openedD [OF assms]
  obtain it iat where it: "ldb_blockiter_create (tab_index_block tab) C = Inr it" "cursor block_table (compare C) idx iat ok" "iat (Inr it) (length idx)"
    using order.entry_block_cursor [OF O(4) idx_sorted [OF assms]] by blast
  have "\<forall>h \<in> snd ` set idx. \<exists>at. cursor (strict_table block_table) (compare C) (block_of bs h) at ok
      \<and> at (snd (block_function tab options h)) (length (block_of bs h))"
  proof
    fix h assume "h \<in> snd ` set idx"
    then obtain i where i: "i < length bs" "h = snd (idx ! i)" using O(5) by (metis (no_types, lifting) imageE in_set_conv_nth)
    from blockreader_cursor [OF assms i(1), of options] show "\<exists>at. cursor (strict_table block_table) (compare C) (block_of bs h) at ok
      \<and> at (snd (block_function tab options h)) (length (block_of bs h))"
      unfolding i(2) block_of_nth [OF assms i(1)] .
  qed
  then obtain dat where dat: "\<forall>h \<in> snd ` set idx. cursor (strict_table block_table) (compare C) (block_of bs h) (dat h) ok
      \<and> dat h (snd (block_function tab options h)) (length (block_of bs h))" by (metis (no_types, lifting))
  have "order.two_sources block_table idx iat (block_function tab options) (block_of bs) dat"
    unfolding order.two_sources_def block_of_entries [OF assms]
  proof (intro conjI)
    show "\<forall>h \<in> snd ` set idx. cursor (fst (block_function tab options h)) (compare C) (block_of bs h) (dat h) ok
        \<and> (\<exists>p. dat h (snd (block_function tab options h)) p)"
      using dat by (auto simp: block_function_def)
    show "\<forall>b < length idx. \<forall>e \<in> set (block_of bs (snd (idx ! b))). compare C (fst e) (fst (idx ! b)) \<le> 0"
      using idx_entryD(3) [OF assms] block_of_nth [OF assms] by (simp add: O(5))
    show "\<forall>c < length idx. \<forall>b < c. \<forall>e \<in> set (block_of bs (snd (idx ! c))). compare C (fst (idx ! b)) (fst e) < 0"
      using idx_entryD(4) [OF assms] block_of_nth [OF assms] by (simp add: O(5))
    show "\<forall>e \<in> set (concat (map snd bs)). ok (fst e)" using O(3) by (simp add: kv_sorted_def)
  qed (use it(2) idx_sorted [OF assms] in auto)
  with it show ?thesis by blast
qed

lemma tableiter_cursor:
  assumes "opened tab F bs idx"
  shows "\<exists>it at. ldb_tableiter_create tab options = Some (ldb_twoiter_table, it) \<and> at it (length (concat (map snd bs)))
    \<and> cursor ldb_twoiter_table (compare C) (concat (map snd bs)) at ok"
proof -
  obtain s iat dat where s: "ldb_blockiter_create (tab_index_block tab) C = s" "iat s (length idx)"
    and src: "order.two_sources block_table idx iat (block_function tab options) (block_of bs) dat" using table_sources [OF assms] by blast
  from order.two_create_at [OF src s(2)] order.two_cursor [OF src] show ?thesis
    unfolding block_of_entries [OF assms] ldb_tableiter_create_def openedD(1) [OF assms] opt_cmp s(1) Let_def by blast
qed

section \<open>Looking up a key\<close>

lemma before_block:
  assumes "opened tab F bs idx" "ok k" "b \<le> length bs" "\<And>j. j < b \<Longrightarrow> compare C (fst (idx ! j)) k < 0" "e \<in> set (concat (map snd (take b bs)))"
  shows "compare C (fst e) k < 0"
proof -
  obtain x where x: "x \<in> set (take b bs)" "e \<in> set (snd x)" using assms(5) by auto
  then obtain j where j: "j < b" "j < length bs" "bs ! j = x" using assms(3) by (auto simp: in_set_conv_nth)
  note I = idx_entryD [OF assms(1) j(2)]
  have "ok (fst e)" using openedD(10) [OF assms(1) j(2)] x(2) j(3) by (auto simp: kv_sorted_def)
  with I(2,3) x(2) j(3) assms(2) assms(4) [OF j(1)] show ?thesis using cmp_le_less_trans by blast
qed

lemma get_past_end:
  assumes "opened tab F bs idx" "ok k" "first_ge (compare C) idx k = length bs"
  shows "first_ge (compare C) (concat (map snd bs)) k = length (concat (map snd bs))"
proof -
  have "compare C (fst e) k < 0" if "e \<in> set (concat (map snd bs))" for e
    using before_block [OF assms(1,2) order.refl, of e] first_ge_below [of _ "compare C" idx k] assms(3) that by simp
  then show ?thesis using first_ge_skip [of "concat (map snd bs)" "compare C" k "[]"] by (simp add: first_ge_def)
qed

lemma get_position:
  assumes op: "opened tab F bs idx" "ok k" and b: "b = first_ge (compare C) idx k" "b < length bs"
  defines "es \<equiv> concat (map snd bs)" and "i \<equiv> first_ge (compare C) (concat (map snd bs)) k" and "p \<equiv> first_ge (compare C) (snd (bs ! b)) k"
  shows "p < length (snd (bs ! b)) \<Longrightarrow> i < length es \<and> es ! i = snd (bs ! b) ! p"
    and "\<not> p < length (snd (bs ! b)) \<Longrightarrow> i < length es \<Longrightarrow> \<not> same (fst (es ! i)) k"
proof -
  let ?pre = "concat (map snd (take b bs))" and ?B = "snd (bs ! b)" and ?post = "concat (map snd (drop (Suc b) bs))"
  have es: "concat (map snd bs) = ?pre @ ?B @ ?post" by (subst id_take_nth_drop [OF b(2)]) simp
  have pre: "compare C (fst e) k < 0" if "e \<in> set ?pre" for e
    using before_block [OF op _ _ that] b first_ge_below [of _ "compare C" idx k] by simp
  then have i: "i = length ?pre + first_ge (compare C) (?B @ ?post) k" unfolding i_def es by (intro first_ge_skip) blast
  show "i < length es \<and> es ! i = ?B ! p" if p: "p < length ?B"
  proof -
    have "first_ge (compare C) (?B @ ?post) k = p"
      using p first_ge_below [of _ "compare C" ?B k] first_ge_at [of "compare C" ?B k] unfolding p_def
      by (intro first_ge_eqI) (auto simp: nth_append)
    with p show ?thesis unfolding es_def es i by (simp add: nth_append)
  qed
  show "\<not> same (fst (es ! i)) k" if p: "\<not> p < length ?B" and len: "i < length es"
  proof
    assume same: "same (fst (es ! i)) k"
    have all: "compare C (fst e) k < 0" if "e \<in> set ?B" for e
      using that p first_ge_below [of _ "compare C" ?B k] unfolding p_def by (metis in_set_conv_nth linorder_less_linear first_ge_le not_less)
    then have "first_ge (compare C) (?B @ ?post) k = length ?B + first_ge (compare C) ?post k"
      by (intro first_ge_skip) blast
    then have "es ! i = ?post ! first_ge (compare C) ?post k" "first_ge (compare C) ?post k < length ?post"
      using len unfolding es_def es i by (simp_all add: nth_append)
    then have "es ! i \<in> set ?post" by (metis nth_mem)
    then obtain x where x: "x \<in> set (drop (Suc b) bs)" "es ! i \<in> set (snd x)" by auto
    then obtain j where j: "b < j" "j < length bs" "bs ! j = x"
      by (auto simp: in_set_conv_nth) (metis add_Suc less_add_Suc1 add.commute less_diff_conv)
    have "last ?B \<in> set ?B" using openedD(9) [OF op(1) b(2)] by simp
    from idx_entryD(5) [OF op(1) b(2) j(1,2) _ op(2) same all [OF this]] x(2) j(3)
    have "compare C (fst (idx ! b)) k < 0" by simp
    moreover have "b < length idx" using b(2) openedD(5) [OF op(1)] by simp
    ultimately show False using first_ge_at [of "compare C" idx k] b(1) by simp
  qed
qed

lemma filter_passes:
  assumes op: "opened tab F bs idx" and b: "b < length bs" "e \<in> set (snd (bs ! b))" "same (fst e) k" and f: "tab_filter tab = Some fr"
  shows "ldb_filterreader_matches fr (bh_offset (fst (bs ! b))) k"
proof -
  obtain P where P: "opt_filter_policy opts = Some P" using openedD(6) [OF op] f by (auto simp: filter_ok_def split: option.splits)
  then obtain off where fr: "fr = ldb_filterreader_init P (filter_contents P bs off)" "length (filter_contents P bs off) < 2 ^ 32"
      "sorted (map (unat \<circ> bh_offset \<circ> fst) bs @ [unat off])"
    using openedD(6) [OF op] f by (auto simp: filter_ok_def)
  let ?bl = "filter_blocks bs @ [(off, [])]"
  have m: "map (block_index \<circ> fst) ?bl = map (\<lambda>n. n div LDB_FILTER_BASE) (map (unat \<circ> bh_offset \<circ> fst) bs @ [unat off])"
    by (simp add: filter_blocks_def block_index_def split_beta comp_def)
  have "sorted (map (block_index \<circ> fst) ?bl)" unfolding m sorted_wrt_map
    by (rule sorted_wrt_mono_rel [OF _ fr(3)]) (simp add: div_le_mono)
  moreover have "(bh_offset (fst (bs ! b)), map fst (snd (bs ! b))) \<in> set ?bl"
    using nth_mem [OF b(1)] by (force simp: filter_blocks_def)
  moreover have "fst e \<in> set (map fst (snd (bs ! b)))" "ok (fst e)"
    using b(2) openedD(10) [OF op b(1)] by (auto simp: kv_sorted_def)
  ultimately have "ldb_filterreader_matches fr (bh_offset (fst (bs ! b))) (fst e)"
    using filter_policy.filter_block_matches [OF policy [OF P]] fr(2) unfolding fr(1) filter_contents_def by blast
  then show ?thesis using filterreader_same [OF policy_same [OF P b(3)]] unfolding fr(1) by blast
qed

lemma fetch_block_ok:
  assumes op: "opened tab F bs idx" and cache: "cache_ok tab bs cache R" and i: "i < length bs" and room: "refs_room R"
  shows "\<exists>b ch cache'. fetch_block tab options (fst (bs ! i)) cache = Some (Inr (b, ch), cache') \<and> entry_block b (snd (bs ! i))
    \<and> (case ch of None \<Rightarrow> cache_ok tab bs cache' R
       | Some h \<Rightarrow> cache' \<noteq> None \<and> cache_ok tab bs cache' (R(handle_id h := R (handle_id h) + 1)))"
proof -
  note O = openedD [OF op]
  let ?h = "fst (bs ! i)"
  obtain c where c: "ldb_read_block (tab_file tab) options ?h = Some (Inr c)" "entry_block (ldb_block_create c) (snd (bs ! i))"
    using read_entry_block [OF O(2) O(8) [OF i]] by blast
  show ?thesis
  proof (cases cache)
    case None
    with c show ?thesis by (simp add: fetch_block_def cache_ok_def)
  next
    case (Some lru)
    let ?key = "cache_key tab ?h"
    have inv: "lru_inv lru R" using cache Some by (simp add: cache_ok_def)
    obtain r lru1 where l: "ldb_lru_lookup lru ?key = Some (r, lru1)" "lru_content lru1 = lru_content lru"
      and r: "case r of None \<Rightarrow> lru_content lru ?key = None \<and> lru_inv lru1 R
       | Some h \<Rightarrow> lru_inv lru1 (R(handle_id h := R (handle_id h) + 1)) \<and> ldb_lru_value lru1 h = lru_content lru ?key \<and> lru_content lru ?key \<noteq> None"
      using lru_lookup_spec [OF inv room, of ?key] by blast
    show ?thesis
    proof (cases r)
      case r1: (Some h)
      then obtain b where b: "ldb_lru_value lru1 h = Some b" "lru_content lru ?key = Some b" using r by auto
      then have "entry_block b (snd (bs ! i))" using cache Some i by (auto simp: cache_ok_def)
      moreover have "cache_ok tab bs (Some lru1) (R(handle_id h := R (handle_id h) + 1))"
        using cache_ok_mono [OF cache [unfolded Some]] r r1 l(2) by simp
      ultimately show ?thesis using Some l(1) r1 b(1) by (simp add: fetch_block_def Let_def)
    next
      case r1: None
      have inv1: "lru_inv lru1 R" using r r1 by simp
      have ok1: "cache_ok tab bs (Some lru1) R" using cache_ok_mono [OF cache [unfolded Some] inv1] l(2) by simp
      show ?thesis
      proof (cases "bc_cachable c \<and> ro_fill_cache options")
        case False
        with Some l(1) r1 c ok1 show ?thesis by (auto simp: fetch_block_def Let_def)
      next
        case True
        let ?b = "ldb_block_create c" and ?cap = "sh_capacity (lru_shard lru1 ! ldb_lru_shard (ldb_lru_hash ?key)) > 0"
        obtain h lru2 where h: "ldb_lru_insert lru1 ?key ?b (word_of_nat (bl_size ?b)) = Some (h, lru2)" "lru_inv lru2 (R(handle_id h := 1))" "R (handle_id h) = 0"
          "lru_content lru2 \<subseteq>\<^sub>m (if ?cap then (lru_content lru1)(?key \<mapsto> ?b) else lru_content lru1)"
          using lru_insert_spec [OF inv1 cache_ok_room [OF ok1], of ?key ?b "word_of_nat (bl_size ?b)"] by blast
        have "entry_block b (snd (bs ! j))" if j: "j < length bs" "lru_content lru2 (cache_key tab (fst (bs ! j))) = Some b" for j b
        proof -
          have new: "(if ?cap then (lru_content lru1)(?key \<mapsto> ?b) else lru_content lru1) (cache_key tab (fst (bs ! j))) = Some b"
            using h(4) j(2) unfolding map_le_def by (metis domI)
          show ?thesis
          proof (cases "cache_key tab (fst (bs ! j)) = ?key")
            case True
            from cache_key_offset [OF True] have "map (bh_offset \<circ> fst) bs ! j = map (bh_offset \<circ> fst) bs ! i" using j(1) i by (simp only: nth_map comp_apply)
            moreover have "distinct (map (bh_offset \<circ> fst) bs)" using op by (simp only: opened_def)
            ultimately have "j = i" using j(1) i by (metis length_map nth_eq_iff_index_eq)
            with new c(2) ok1 i show ?thesis by (auto simp: cache_ok_def split: if_splits)
          next
            case False
            then have "lru_content lru1 (cache_key tab (fst (bs ! j))) = Some b" using new by (simp split: if_splits)
            with ok1 j(1) show ?thesis by (simp add: cache_ok_def)
          qed
        qed
        moreover have "\<exists>D. finite D \<and> card D < 2 ^ 30 \<and> dom (lru_content lru2) \<subseteq> D \<union> cache_key tab ` fst ` set bs"
        proof -
          have "dom (lru_content lru2) \<subseteq> insert ?key (dom (lru_content lru1))" using map_le_implies_dom_le [OF h(4)] by (auto split: if_splits)
          moreover have "?key \<in> cache_key tab ` fst ` set bs" using i by auto
          ultimately show ?thesis using ok1 unfolding cache_ok_def option.case by blast
        qed
        ultimately have "cache_ok tab bs (Some lru2) (R(handle_id h := 1))" using h(2) ok1 by (simp add: cache_ok_def)
        with Some l(1) r1 c True h(1,3) show ?thesis by (simp add: fetch_block_def Let_def)
      qed
    qed
  qed
qed

abbreviation "run_cleanups cache1 it \<equiv> foldl (\<lambda>c func. c \<bind> (\<lambda>c. run_cleanup c func)) (Some cache1) (ldb_iter_clear it)"

text \<open>The reader of blocks, and the cleanup that releases what it took.\<close>

lemma blockreader_ok:
  assumes op: "opened tab F bs idx" and cache: "cache_ok tab bs cache R" and i: "i < length bs" and room: "refs_room R"
  shows "\<exists>it cache1 cache2 at. ldb_table_blockreader tab options (snd (idx ! i)) cache = Some (it, cache1)
    \<and> cursor block_table (compare C) (snd (bs ! i)) at ok \<and> at (it_ptr it) (length (snd (bs ! i)))
    \<and> run_cleanups cache1 it = Some cache2 \<and> cache_ok tab bs cache2 R"
proof -
  note O = openedD [OF op]
  obtain b ch cache1 where f: "fetch_block tab options (fst (bs ! i)) cache = Some (Inr (b, ch), cache1)" "entry_block b (snd (bs ! i))"
    and ch: "case ch of None \<Rightarrow> cache_ok tab bs cache1 R
       | Some h \<Rightarrow> cache1 \<noteq> None \<and> cache_ok tab bs cache1 (R(handle_id h := R (handle_id h) + 1))"
    using fetch_block_ok [OF op cache i room, of options] by blast
  obtain bit at where bit: "ldb_blockiter_create b C = Inr bit" "cursor block_table (compare C) (snd (bs ! i)) at ok" "at (Inr bit) (length (snd (bs ! i)))"
    using order.entry_block_cursor [OF f(2) O(10) [OF i]] by blast
  define func where "func = (case ch of None \<Rightarrow> delete_block b | Some h \<Rightarrow> release_block h)"
  define it where "it = ldb_iter_register_cleanup (ldb_iter_create (Inr bit :: emptyiter + blockiter)) func"
  have run: "ldb_table_blockreader tab options (snd (idx ! i)) cache = Some (it, cache1)"
    using f(1) bit(1) O(1) opt_cmp idx_entryD(1) [OF op i]
    by (cases ch) (simp_all add: ldb_table_blockreader_def blockhandle_import_write it_def func_def Let_def)
  have p: "it_ptr it = Inr bit" "ldb_iter_clear it = [func]"
    by (simp_all add: it_def ldb_iter_register_cleanup_def ldb_iter_create_def ldb_iter_clear_def)
  have "\<exists>cache2. run_cleanup cache1 func = Some cache2 \<and> cache_ok tab bs cache2 R"
  proof (cases ch)
    case None
    with ch show ?thesis by (simp add: func_def run_cleanup_def)
  next
    case (Some h)
    let ?R = "R(handle_id h := R (handle_id h) + 1)"
    obtain lru where lru: "cache1 = Some lru" "cache_ok tab bs (Some lru) ?R" using ch Some by auto
    then have inv: "lru_inv lru ?R" by (simp add: cache_ok_def)
    have "?R(handle_id h := ?R (handle_id h) - 1) = R" by simp
    with lru_release_spec [OF inv, of h] obtain lru2 where "ldb_lru_release lru h = Some lru2" "lru_inv lru2 R" "lru_content lru2 = lru_content lru"
      by (simp del: fun_upd_apply) (auto simp: fun_upd_idem_iff)
    with cache_ok_mono [OF lru(2), of lru2 R] lru(1) Some show ?thesis by (simp add: func_def run_cleanup_def)
  qed
  then obtain cache2 where "run_cleanup cache1 func = Some cache2" "cache_ok tab bs cache2 R" by blast
  with run p bit(2,3) show ?thesis by (intro exI [of _ it] exI [of _ cache1] exI [of _ cache2] exI [of _ at]) simp
qed

text \<open>The answer to a lookup: the first entry at or past the key, which must be found when it is of the class of the key.\<close>

definition get_answer :: "kv list \<Rightarrow> bytes \<Rightarrow> kv option \<Rightarrow> bool" where
  "get_answer es k r \<longleftrightarrow> (let i = first_ge (compare C) es k in
     case r of None \<Rightarrow> i < length es \<longrightarrow> \<not> same (fst (es ! i)) k | Some e \<Rightarrow> i < length es \<and> e = es ! i)"

lemma internal_get_ok:
  assumes op: "opened tab F bs idx" and cache: "cache_ok tab bs cache R" and k: "ok k" and room: "refs_room R"
  shows "\<exists>r cache'. ldb_table_internal_get tab options k cache = Some (LDB_OK, r, cache') \<and> cache_ok tab bs cache' R
    \<and> get_answer (concat (map snd bs)) k r"
proof -
  note O = openedD [OF op]
  let ?es = "concat (map snd bs)" and ?b = "first_ge (compare C) idx k"
  obtain ii iat where ii: "ldb_blockiter_create (tab_index_block tab) C = Inr ii" "cursor block_table (compare C) idx iat ok" "iat (Inr ii) (length idx)"
    using order.entry_block_cursor [OF O(4) idx_sorted [OF op]] by blast
  obtain s where s: "tbl_seek block_table (Inr ii) k = Some s" "iat s ?b" using cursor.seek [OF ii(2,3) k] by blast
  have st: "tbl_status block_table s = Some LDB_OK" "tbl_valid block_table s \<longleftrightarrow> ?b < length bs"
    using cursor.at_status [OF ii(2) s(2)] cursor.at_valid [OF ii(2) s(2)] O(5) by simp_all
  note unf = ldb_table_internal_get_def O(1) opt_cmp ii(1) s(1)
  show ?thesis
  proof (cases "?b < length bs")
    case False
    then have "?b = length bs" using first_ge_le [of "compare C" idx k] O(5) by simp
    from get_past_end [OF op k this] have "get_answer ?es k None" by (simp add: get_answer_def)
    with False st cache show ?thesis by (simp add: unf Let_def)
  next
    case True
    let ?B = "snd (bs ! ?b)" and ?p = "first_ge (compare C) (snd (bs ! ?b)) k"
    note P = get_position [OF op k refl True]
    have v: "tbl_value block_table s = Some (snd (idx ! ?b))" using cursor.at_value [OF ii(2) s(2)] True O(5) by simp
    have imp: "ldb_blockhandle_import (snd (idx ! ?b)) = Some (fst (bs ! ?b))" using idx_entryD(1) [OF op True] by (simp add: blockhandle_import_write)
    show ?thesis
    proof (cases "\<exists>fr. tab_filter tab = Some fr \<and> \<not> ldb_filterreader_matches fr (bh_offset (fst (bs ! ?b))) k")
      case skip: True
      have "\<not> same (fst (?es ! first_ge (compare C) ?es k)) k" if "first_ge (compare C) ?es k < length ?es"
      proof (cases "?p < length ?B")
        case True
        with P(1) have "?es ! first_ge (compare C) ?es k \<in> set ?B" by simp
        with filter_passes [OF op \<open>?b < length bs\<close>] skip show ?thesis by blast
      qed (use P(2) that in blast)
      then have "get_answer ?es k None" by (simp add: get_answer_def Let_def)
      moreover have "(case (tab_filter tab, ldb_blockhandle_import (snd (idx ! ?b))) of
          (Some fr, Some handle) \<Rightarrow> \<not> ldb_filterreader_matches fr (bh_offset handle) k | _ \<Rightarrow> False)" using skip imp by auto
      ultimately show ?thesis using st v cache True by (simp add: unf Let_def)
    next
      case pass: False
      obtain it cache1 cache2 bat where it: "ldb_table_blockreader tab options (snd (idx ! ?b)) cache = Some (it, cache1)"
        "cursor block_table (compare C) ?B bat ok" "bat (it_ptr it) (length ?B)" "run_cleanups cache1 it = Some cache2" "cache_ok tab bs cache2 R"
        using blockreader_ok [OF op cache True room, of options] by blast
      obtain t where t: "tbl_seek block_table (it_ptr it) k = Some t" "bat t ?p" using cursor.seek [OF it(2,3) k] by blast
      define r where "r = (if ?p < length ?B then Some (?B ! ?p) else None)"
      have tt: "tbl_status block_table t = Some LDB_OK" "tbl_valid block_table t \<longleftrightarrow> ?p < length ?B"
        using cursor.at_status [OF it(2) t(2)] cursor.at_valid [OF it(2) t(2)] by simp_all
      have "(if tbl_valid block_table t then do {
                 block_iter_key \<leftarrow> tbl_key block_table t;
                 block_iter_value \<leftarrow> tbl_value block_table t;
                 Some (Some (block_iter_key, block_iter_value)) } else Some None) = Some r"
        using tt(2) cursor.at_key [OF it(2) t(2)] cursor.at_value [OF it(2) t(2)] by (simp add: r_def)
      moreover have "\<not> (case (tab_filter tab, ldb_blockhandle_import (snd (idx ! ?b))) of
          (Some fr, Some handle) \<Rightarrow> \<not> ldb_filterreader_matches fr (bh_offset handle) k | _ \<Rightarrow> False)"
        using pass imp by (auto split: option.splits)
      ultimately have "ldb_table_internal_get tab options k cache = Some (LDB_OK, r, cache2)"
        using st v True it(1,4) t(1) tt(1) by (simp add: unf Let_def)
      moreover have "get_answer ?es k r" using P by (simp add: get_answer_def r_def Let_def)
      ultimately show ?thesis using it(5) by blast
    qed
  qed
qed

end

section \<open>Tables in the memory environment\<close>

text \<open>A file of the memory environment, opened for random access.\<close>

definition mem_rafile :: "memenv \<Rightarrow> rfile \<Rightarrow> rafile" where
  "mem_rafile env fl = \<lparr>ra_pread = ldb_rfile_pread env fl, ra_mapped = False\<rparr>"

lemma mem_random_file:
  assumes "mem_wlive (env, w)" "rf_state fl = wf_state w"
  shows "random_file (mem_rafile env fl) (mem_wcontents (env, w))"
proof
  fix off n assume off: "off \<le> length (mem_wcontents (env, w))"
  obtain H where H: "env_inv env H" "H (wf_state w) > 0" using assms(1) by (auto simp: mem_wlive_def)
  then have "fstate_inv (fstate_at env (wf_state w))" by (auto simp: env_inv_def state_ok_def fstate_at_def)
  from ldb_fstate_pread_eq [OF this, of n off] off
  show "ra_pread (mem_rafile env fl) n off = (LDB_OK, take n (drop off (mem_wcontents (env, w))))"
    by (simp add: mem_rafile_def ldb_rfile_pread_def assms(2) mem_wcontents_def)
qed

text \<open>A table of internal keys, built in a file of the memory environment.\<close>

definition built_table ::
  "(nat \<Rightarrow> nat \<Rightarrow> u8) \<Rightarrow> dbopt \<Rightarrow> memenv \<times> wfile \<Rightarrow> kv list \<Rightarrow> (status \<times> (memenv \<times> wfile) tablebuilder) option" where
  "built_table junk options f es = do {
     tb \<leftarrow> ldb_tablebuilder_init options f;
     tb \<leftarrow> tb_add_all (mem_wapp junk) mem_wflush tb es;
     ldb_tablebuilder_finish (mem_wapp junk) mem_wflush tb
   }"

definition table_size_bound :: "nat option \<Rightarrow> kv list \<Rightarrow> nat" where
  "table_size_bound bits es =
     sum_list (map (\<lambda>e. 2 * length (fst e) + length (snd e) + 120 + (case bits of None \<Rightarrow> 0 | Some b \<Rightarrow> 2 * b)) es) + 1000"


abbreviation ikc :: comparator where
  "ikc \<equiv> ldb_ikc_init bytewise_comparator"

abbreviation table_entries_ok :: "kv list \<Rightarrow> bool" where
  "table_entries_ok es \<equiv> sorted_wrt (\<lambda>a b. compare ikc (fst a) (fst b) < 0) es \<and> (\<forall>e \<in> set es. ikey_ok (fst e))"

lemma internal_table_built:
  assumes "mem_wlive f" "mem_wcontents f = []" "table_entries_ok es" "table_size_bound bits es < 2 ^ 30"
    and opts: "opts = internal_options paranoid block_size interval ctype bits"
  shows "\<exists>tb tab bs idx env w. built_table junk opts f es = Some (LDB_OK, tb) \<and> tb_file tb = (env, w)
    \<and> ldb_table_open opts cache (mem_rafile env \<lparr>rf_state = wf_state w, rf_pos = 0\<rparr>) (word_of_nat (length (mem_wcontents (tb_file tb)))) = Some (Inr tab,
        map_option (\<lambda>lru. snd (ldb_lru_newid lru)) cache)
    \<and> (\<forall>lru. cache = Some lru \<longrightarrow> tab_cache_id tab = ucast (fst (ldb_lru_newid lru)))
    \<and> internal_table.opened paranoid block_size interval ctype bits tab (mem_wcontents (tb_file tb)) bs idx \<and> concat (map snd bs) = es"
proof -
  have e: "internal_table.entries_ok es" using assms(3) by (simp add: internal_table.entries_ok_def)
  have "internal_table.table_weight bits es \<le> table_size_bound bits es"
    unfolding internal_table.table_weight_def table_size_bound_def by (cases bits) (auto intro!: sum_list_mono)
  then have "internal_table.table_weight bits es < 2 ^ 30" using assms(4) by simp
  from internal_table.table_built [OF assms(1,2) e this, where junk = junk and paranoid = paranoid and block_size = block_size and interval = interval
      and ctype = ctype] obtain tb0 tb1 tb bs where b: "ldb_tablebuilder_init opts f = Some tb0" "tb_add_all (mem_wapp junk) mem_wflush tb0 es = Some tb1"
    "ldb_tablebuilder_finish (mem_wapp junk) mem_wflush tb1 = Some (LDB_OK, tb)" "mem_wlive (tb_file tb)"
    "internal_table.table_file paranoid block_size interval ctype bits (mem_wcontents (tb_file tb)) bs" "concat (map snd bs) = es"
    "length (mem_wcontents (tb_file tb)) < 2 ^ 40"
    unfolding opts mem_wfile.tb_open_def by blast
  obtain env w where ew: "tb_file tb = (env, w)" by fastforce
  let ?fl = "mem_rafile env \<lparr>rf_state = wf_state w, rf_pos = 0\<rparr>"
  have rf: "random_file ?fl (mem_wcontents (tb_file tb))" using mem_random_file [of env w] b(4) ew by simp
  have "internal_table.entries_ok (concat (map snd bs))" using e b(6) by simp
  from internal_table.table_opened [OF b(5) rf this, of cache] b(7) obtain tab idx cache' where
    t: "ldb_table_open opts cache ?fl (word_of_nat (length (mem_wcontents (tb_file tb)))) = Some (Inr tab, cache')"
    "internal_table.opened paranoid block_size interval ctype bits tab (mem_wcontents (tb_file tb)) bs idx"
    "case cache of None \<Rightarrow> cache' = None | Some lru \<Rightarrow> cache' = Some (snd (ldb_lru_newid lru)) \<and> tab_cache_id tab = ucast (fst (ldb_lru_newid lru))"
    unfolding opts by auto
  have "cache' = map_option (\<lambda>lru. snd (ldb_lru_newid lru)) cache" "\<forall>lru. cache = Some lru \<longrightarrow> tab_cache_id tab = ucast (fst (ldb_lru_newid lru))"
    using t(3) by (auto split: option.splits)
  moreover have "built_table junk opts f es = Some (LDB_OK, tb)" using b(1-3) by (simp add: built_table_def)
  ultimately show ?thesis using ew t(1,2) b(6) by blast
qed





text \<open>A table with two entries of one key and one of another, in a new file.\<close>

definition sample_entries :: "kv list" where
  "sample_entries = [(ldb_ikey_set [7] 5 LDB_TYPE_VALUE, [1, 2]), (ldb_ikey_set [7] 3 LDB_TYPE_DELETION, []), (ldb_ikey_set [8, 8] 4 LDB_TYPE_VALUE, [9])]"

definition sample_table_file :: "memenv \<times> wfile" where
  "sample_table_file = (sample_written ''table'' [], \<lparr>wf_state = 0\<rparr>)"

lemma sample_table_ok:
  "mem_wlive sample_table_file" "mem_wcontents sample_table_file = []" "table_entries_ok sample_entries" "table_size_bound (Some 10) sample_entries < 2 ^ 30"
proof -
  show "mem_wlive sample_table_file" "mem_wcontents sample_table_file = []"
    using sample_written(2,3) [of "''table''" "[]"] by (simp_all add: sample_table_file_def LDB_PATH_MAX_def)
  show "table_entries_ok sample_entries" by code_simp
  have "table_size_bound (Some 10) sample_entries < 2000" by code_simp
  then show "table_size_bound (Some 10) sample_entries < 2 ^ 30" by simp
qed

section \<open>Properties\<close>

text \<open>
  C10. Tables: for any block size, restart interval and compression, with and without a bloom filter, building a table from entries with
  increasing internal keys (of less than 1 GiB in all) succeeds, the file can be opened, and the iterator over the opened table
  meets the iterator contract for exactly these entries. From \<^verbatim>\<open>seek_first\<close> it reads them all in order, whatever
  blocks they were split into and whether the blocks were compressed.
\<close>

theorem table_roundtrip:
  assumes "mem_wlive f" "mem_wcontents f = []" "table_entries_ok es" "table_size_bound bits es < 2 ^ 30"
    and "opts = internal_options paranoid block_size interval ctype bits"
  shows "\<exists>tb env w tab cache' it it0 at. built_table junk opts f es = Some (LDB_OK, tb) \<and> tb_file tb = (env, w)
    \<and> ldb_table_open opts cache (mem_rafile env \<lparr>rf_state = wf_state w, rf_pos = 0\<rparr>) (word_of_nat (length (mem_wcontents (env, w)))) = Some (Inr tab, cache')
    \<and> ldb_tableiter_create tab options = Some (ldb_twoiter_table, it)
    \<and> cursor ldb_twoiter_table (compare ikc) es at ikey_ok \<and> at it (length es)
    \<and> ldb_twoiter_seek_first it = Some it0 \<and> iter_scan ldb_twoiter_table (length es) it0 = Some es"
proof -
  obtain tb tab bs idx env w where t: "built_table junk opts f es = Some (LDB_OK, tb)" "tb_file tb = (env, w)"
    "ldb_table_open opts cache (mem_rafile env \<lparr>rf_state = wf_state w, rf_pos = 0\<rparr>) (word_of_nat (length (mem_wcontents (tb_file tb))))
      = Some (Inr tab, map_option (\<lambda>lru. snd (ldb_lru_newid lru)) cache)"
    and op: "internal_table.opened paranoid block_size interval ctype bits tab (mem_wcontents (tb_file tb)) bs idx" "concat (map snd bs) = es"
    using internal_table_built [OF assms, of junk cache] by blast
  obtain it at where it: "ldb_tableiter_create tab options = Some (ldb_twoiter_table, it)" "at it (length es)"
    "cursor ldb_twoiter_table (compare ikc) es at ikey_ok" using internal_table.tableiter_cursor [OF op(1), of options] op(2) by auto
  obtain it0 where "ldb_twoiter_seek_first it = Some it0" "iter_scan ldb_twoiter_table (length es) it0 = Some es"
    using cursor.scan_all [OF it(3,2)] by (auto simp: ldb_twoiter_table_def)
  with t it show ?thesis by metis
qed

theorem table_roundtrip_witness:
  "\<exists>tb env w tab cache' it it0. built_table (\<lambda>_ _. 0) (internal_options True 4096 15 LDB_SNAPPY_COMPRESSION (Some 10)) sample_table_file sample_entries
      = Some (LDB_OK, tb) \<and> tb_file tb = (env, w)
    \<and> ldb_table_open (internal_options True 4096 15 LDB_SNAPPY_COMPRESSION (Some 10)) None (mem_rafile env \<lparr>rf_state = wf_state w, rf_pos = 0\<rparr>)
        (word_of_nat (length (mem_wcontents (env, w)))) = Some (Inr tab, cache')
    \<and> ldb_tableiter_create tab ldb_readopt_default = Some (ldb_twoiter_table, it)
    \<and> ldb_twoiter_seek_first it = Some it0 \<and> iter_scan ldb_twoiter_table (length sample_entries) it0 = Some sample_entries"
  using table_roundtrip [OF sample_table_ok refl, where options = ldb_readopt_default and cache = None and paranoid = True and block_size = 4096
      and interval = 15 and ctype = LDB_SNAPPY_COMPRESSION and junk = "\<lambda>_ _. 0"] by blast



end
