(* ===== verification/Vector.thy ===== *)
theory Vector
  imports Comparator "HOL-Library.Monad_Syntax" "HOL-Library.Multiset"
begin

text \<open>
  Vectors of pointers (\<^verbatim>\<open>src/src/util/vector.c\<close>): an array that grows by half, and its quicksort with Hoare's partition scheme.
  The allocated memory is a list of cells, \<^term>\<open>None\<close> where nothing was written yet; an operation is \<^term>\<open>None\<close> when it would
  reach outside the memory or fail an assertion. Indices of the sort are C integers (vectors have fewer than \<open>2^30\<close> elements).
\<close>

section \<open>The array\<close>

record 'a vector =
  vec_items :: "'a option list"
  vec_length :: nat

abbreviation vec_alloc :: "'a vector \<Rightarrow> nat" where
  "vec_alloc z \<equiv> length (vec_items z)"

definition ldb_vector_init :: "'a vector" where
  "ldb_vector_init = \<lparr>vec_items = [], vec_length = 0\<rparr>"

definition ldb_vector_clear :: "'a vector \<Rightarrow> 'a vector" where
  "ldb_vector_clear z = z\<lparr>vec_items := [], vec_length := 0\<rparr>"

definition ldb_vector_reset :: "'a vector \<Rightarrow> 'a vector" where
  "ldb_vector_reset z = z\<lparr>vec_length := 0\<rparr>"

definition ldb_vector_grow :: "'a vector \<Rightarrow> nat \<Rightarrow> 'a vector" where
  "ldb_vector_grow z zn =
     (if zn > vec_alloc z then z\<lparr>vec_items := vec_items z @ replicate (zn - vec_alloc z) None\<rparr> else z)"

definition ldb_vector_push :: "'a vector \<Rightarrow> 'a \<Rightarrow> 'a vector option" where
  "ldb_vector_push z x =
     (let z = (if vec_length z = vec_alloc z
               then ldb_vector_grow z (vec_alloc z * 3 div 2 + (if vec_alloc z \<le> 1 then 1 else 0)) else z)
      in if vec_length z < vec_alloc z
         then Some (z\<lparr>vec_items := (vec_items z)[vec_length z := Some x], vec_length := vec_length z + 1\<rparr>) else None)"

definition ldb_vector_pop :: "'a vector \<Rightarrow> ('a \<times> 'a vector) option" where
  "ldb_vector_pop z =
     (if vec_length z > 0 \<and> vec_length z \<le> vec_alloc z
      then map_option (\<lambda>x. (x, z\<lparr>vec_length := vec_length z - 1\<rparr>)) (vec_items z ! (vec_length z - 1)) else None)"

definition ldb_vector_top :: "'a vector \<Rightarrow> 'a option" where
  "ldb_vector_top z = (if vec_length z > 0 \<and> vec_length z \<le> vec_alloc z then vec_items z ! (vec_length z - 1) else None)"

definition ldb_vector_resize :: "'a vector \<Rightarrow> nat \<Rightarrow> 'a vector" where
  "ldb_vector_resize z zn = (ldb_vector_grow z zn)\<lparr>vec_length := zn\<rparr>"

definition ldb_vector_copy :: "'a vector \<Rightarrow> 'a vector \<Rightarrow> 'a vector" where
  "ldb_vector_copy z x =
     (let z = ldb_vector_resize z (vec_length x)
      in z\<lparr>vec_items := foldl (\<lambda>items i. items[i := vec_items x ! i]) (vec_items z) [0..<vec_length x]\<rparr>)"

definition ldb_vector_swap :: "'a vector \<Rightarrow> 'a vector \<Rightarrow> 'a vector \<times> 'a vector" where
  "ldb_vector_swap x y = (y, x)"

section \<open>Quicksort\<close>

definition item_at :: "'a list \<Rightarrow> int \<Rightarrow> 'a option" where
  "item_at items i = (if 0 \<le> i \<and> i < int (length items) then Some (items ! nat i) else None)"

definition ldb_swap :: "'a list \<Rightarrow> int \<Rightarrow> int \<Rightarrow> 'a list option" where
  "ldb_swap items i j = do {
     item \<leftarrow> item_at items i;
     other \<leftarrow> item_at items j;
     Some (items[nat i := other, nat j := item])
   }"

text \<open>\<^verbatim>\<open>do i++; while (cmp(items[i], pivot) < 0)\<close> and \<^verbatim>\<open>do j--; while (cmp(items[j], pivot) > 0)\<close>\<close>

partial_function (option) scan_up :: "('a \<Rightarrow> 'a \<Rightarrow> int) \<Rightarrow> 'a list \<Rightarrow> 'a \<Rightarrow> int \<Rightarrow> int option" where
  "scan_up cmp items pivot i = do {
     x \<leftarrow> item_at items (i + 1);
     if cmp x pivot < 0 then scan_up cmp items pivot (i + 1) else Some (i + 1)
   }"

partial_function (option) scan_down :: "('a \<Rightarrow> 'a \<Rightarrow> int) \<Rightarrow> 'a list \<Rightarrow> 'a \<Rightarrow> int \<Rightarrow> int option" where
  "scan_down cmp items pivot j = do {
     x \<leftarrow> item_at items (j - 1);
     if cmp x pivot > 0 then scan_down cmp items pivot (j - 1) else Some (j - 1)
   }"

partial_function (option) partition_loop :: "('a \<Rightarrow> 'a \<Rightarrow> int) \<Rightarrow> 'a list \<Rightarrow> 'a \<Rightarrow> int \<Rightarrow> int \<Rightarrow> (int \<times> 'a list) option" where
  "partition_loop cmp items pivot i j = do {
     i \<leftarrow> scan_up cmp items pivot i;
     j \<leftarrow> scan_down cmp items pivot j;
     if i \<ge> j then Some (j, items)
     else do {
       items \<leftarrow> ldb_swap items i j;
       partition_loop cmp items pivot i j
     }
   }"

definition ldb_partition :: "('a \<Rightarrow> 'a \<Rightarrow> int) \<Rightarrow> 'a list \<Rightarrow> int \<Rightarrow> int \<Rightarrow> (int \<times> 'a list) option" where
  "ldb_partition cmp items lo hi = do {
     pivot \<leftarrow> item_at items ((hi + lo) div 2);
     partition_loop cmp items pivot (lo - 1) (hi + 1)
   }"

partial_function (option) ldb_qsort :: "('a \<Rightarrow> 'a \<Rightarrow> int) \<Rightarrow> 'a list \<Rightarrow> int \<Rightarrow> int \<Rightarrow> 'a list option" where
  "ldb_qsort cmp items lo hi =
     (if lo \<ge> 0 \<and> hi \<ge> 0 \<and> lo < hi then do {
        (p, items) \<leftarrow> ldb_partition cmp items lo hi;
        items \<leftarrow> ldb_qsort cmp items lo p;
        ldb_qsort cmp items (p + 1) hi
      }
      else Some items)"

definition ldb_vector_sort :: "('a \<Rightarrow> 'a \<Rightarrow> int) \<Rightarrow> 'a list \<Rightarrow> 'a list option" where
  "ldb_vector_sort cmp z = (if length z > 1 then ldb_qsort cmp z 0 (int (length z) - 1) else Some z)"

section \<open>A vector is a list\<close>

definition vec_inv :: "'a vector \<Rightarrow> bool" where
  "vec_inv z \<longleftrightarrow> vec_length z \<le> vec_alloc z \<and> (\<forall>i < vec_length z. vec_items z ! i \<noteq> None)"

definition vec_list :: "'a vector \<Rightarrow> 'a list" where
  "vec_list z = map the (take (vec_length z) (vec_items z))"

lemma vec_init [simp]: "vec_inv ldb_vector_init" "vec_list ldb_vector_init = []"
  by (simp_all add: ldb_vector_init_def vec_inv_def vec_list_def)

lemma vec_grow:
  assumes "vec_inv z"
  shows "vec_inv (ldb_vector_grow z n)" "vec_list (ldb_vector_grow z n) = vec_list z"
    "vec_alloc (ldb_vector_grow z n) = max n (vec_alloc z)" "vec_length (ldb_vector_grow z n) = vec_length z"
  using assms by (auto simp: ldb_vector_grow_def vec_inv_def vec_list_def nth_append)

lemma vec_push:
  assumes "vec_inv z"
  shows "\<exists>z'. ldb_vector_push z x = Some z' \<and> vec_inv z' \<and> vec_list z' = vec_list z @ [x]"
proof -
  define y where "y = (if vec_length z = vec_alloc z
    then ldb_vector_grow z (vec_alloc z * 3 div 2 + (if vec_alloc z \<le> 1 then 1 else 0)) else z)"
  have y: "vec_inv y" "vec_list y = vec_list z" "vec_length y < vec_alloc y"
    using assms vec_grow [OF assms] by (auto simp: y_def vec_inv_def)
  let ?z = "y\<lparr>vec_items := (vec_items y)[vec_length y := Some x], vec_length := vec_length y + 1\<rparr>"
  have "ldb_vector_push z x = Some ?z" using y(3) by (simp add: ldb_vector_push_def y_def Let_def)
  moreover have "vec_inv ?z" using y(1,3) by (auto simp: vec_inv_def nth_list_update)
  moreover have "vec_list ?z = vec_list y @ [x]" using y(3) by (simp add: vec_list_def take_Suc_conv_app_nth)
  ultimately show ?thesis using y(2) by auto
qed

lemma vec_pop:
  assumes "vec_inv z" "vec_list z \<noteq> []"
  shows "\<exists>z'. ldb_vector_pop z = Some (last (vec_list z), z') \<and> vec_inv z' \<and> vec_list z' = butlast (vec_list z)"
    and "ldb_vector_top z = Some (last (vec_list z))"
proof -
  have n: "vec_length z > 0" "vec_length z \<le> vec_alloc z" using assms by (auto simp: vec_inv_def vec_list_def)
  obtain x where x: "vec_items z ! (vec_length z - 1) = Some x" using assms(1) n by (fastforce simp: vec_inv_def)
  have l: "last (vec_list z) = x" using n x assms(2) by (subst last_conv_nth) (auto simp: vec_list_def)
  with n x show "ldb_vector_top z = Some (last (vec_list z))" by (simp add: ldb_vector_top_def)
  show "\<exists>z'. ldb_vector_pop z = Some (last (vec_list z), z') \<and> vec_inv z' \<and> vec_list z' = butlast (vec_list z)"
    using assms(1) n x l by (auto simp: ldb_vector_pop_def vec_inv_def vec_list_def map_butlast [symmetric] butlast_take)
qed

lemma copy_loop:
  "n \<le> length items \<Longrightarrow> n \<le> length xs \<Longrightarrow>
     foldl (\<lambda>items i. items[i := xs ! i]) items [0..<n] = take n xs @ drop n items"
proof (induction n)
  case (Suc n)
  then show ?case by (simp add: list_update_append take_Suc_conv_app_nth Cons_nth_drop_Suc [symmetric])
qed simp

lemma vec_copy:
  assumes "vec_inv x"
  shows "vec_inv (ldb_vector_copy z x)" "vec_list (ldb_vector_copy z x) = vec_list x"
proof -
  have len: "vec_length x \<le> length (vec_items (ldb_vector_grow z (vec_length x)))" by (auto simp: ldb_vector_grow_def)
  moreover have "vec_length x \<le> vec_alloc x" using assms by (simp add: vec_inv_def)
  ultimately have "vec_items (ldb_vector_copy z x)
      = take (vec_length x) (vec_items x) @ drop (vec_length x) (vec_items (ldb_vector_grow z (vec_length x)))"
    by (simp add: ldb_vector_copy_def ldb_vector_resize_def Let_def copy_loop)
  moreover have "vec_length (ldb_vector_copy z x) = vec_length x" by (simp add: ldb_vector_copy_def ldb_vector_resize_def Let_def)
  ultimately show "vec_inv (ldb_vector_copy z x)" "vec_list (ldb_vector_copy z x) = vec_list x"
    using assms len by (auto simp: vec_inv_def vec_list_def nth_append)
qed

section \<open>Correctness of the sort\<close>

text \<open>\<^term>\<open>ys\<close> is \<^term>\<open>xs\<close> with the elements from \<^term>\<open>lo\<close> to \<^term>\<open>hi\<close> rearranged.\<close>

definition rearranged :: "int \<Rightarrow> int \<Rightarrow> 'a list \<Rightarrow> 'a list \<Rightarrow> bool" where
  "rearranged lo hi xs ys \<longleftrightarrow> mset ys = mset xs \<and> (\<forall>k < length xs. int k < lo \<or> int k > hi \<longrightarrow> ys ! k = xs ! k)"

lemma rearranged_length: "rearranged lo hi xs ys \<Longrightarrow> length ys = length xs"
  by (metis rearranged_def size_mset)

lemma rearranged_refl [simp]: "rearranged lo hi xs xs"
  by (simp add: rearranged_def)

lemma rearranged_trans:
  assumes "rearranged lo hi xs ys" "rearranged lo' hi' ys zs" "lo \<le> lo'" "hi' \<le> hi"
  shows "rearranged lo hi xs zs"
  using assms rearranged_length [OF assms(1)] by (auto simp: rearranged_def)

lemma rearranged_set: "rearranged lo hi xs ys \<Longrightarrow> set ys = set xs"
  by (metis rearranged_def set_mset_mset)

lemma rearranged_segment:
  assumes "rearranged lo hi xs ys" "0 \<le> lo" "k < length xs" "lo \<le> int k" "int k \<le> hi"
  shows "\<exists>k' < length xs. lo \<le> int k' \<and> int k' \<le> hi \<and> ys ! k = xs ! k'"
proof -
  let ?a = "nat lo" and ?b = "Suc (nat hi)"
  have len: "length ys = length xs" by (rule rearranged_length [OF assms(1)])
  have out: "take ?a ys = take ?a xs" "drop ?b ys = drop ?b xs"
    using assms(1,2) len by (auto simp: rearranged_def intro!: nth_equalityI)
  have ab: "?a \<le> ?b" using assms(2,4,5) by linarith
  have split: "zs = take ?a zs @ drop ?a (take ?b zs) @ drop ?b zs" for zs :: "'a list"
    using ab by (metis append.assoc append_take_drop_id min.absorb1 take_take)
  have "mset (drop ?a (take ?b ys)) = mset (drop ?a (take ?b xs))"
  proof -
    have "mset (take ?a ys) + mset (drop ?a (take ?b ys)) + mset (drop ?b ys) = mset (take ?a xs) + mset (drop ?a (take ?b xs)) + mset (drop ?b xs)"
      using assms(1) split [of xs] split [of ys] unfolding rearranged_def by (metis add.assoc mset_append)
    with out show ?thesis by simp
  qed
  then have eq: "set (drop ?a (take ?b ys)) = set (drop ?a (take ?b xs))" by (metis set_mset_mset)
  have k: "?a \<le> k" "k < ?b" "k < length ys" using assms(2-5) len by linarith+
  then have "drop ?a (take ?b ys) ! (k - ?a) = ys ! k" "k - ?a < length (drop ?a (take ?b ys))" by auto
  then have "ys ! k \<in> set (drop ?a (take ?b xs))" using eq nth_mem by metis
  then obtain m where "m < length (drop ?a (take ?b xs))" "ys ! k = drop ?a (take ?b xs) ! m" by (metis in_set_conv_nth)
  moreover from this(1) have m: "?a + m < ?b" "?a + m < length xs" by auto
  moreover have "0 \<le> hi" using assms(2,4,5) by linarith
  ultimately show ?thesis using assms(2) by (intro exI [of _ "?a + m"]) auto
qed

context key_order
begin

definition ordered_on :: "'k list \<Rightarrow> int \<Rightarrow> int \<Rightarrow> bool" where
  "ordered_on xs lo hi \<longleftrightarrow> (\<forall>k l. lo \<le> int k \<and> k < l \<and> int l \<le> hi \<and> l < length xs \<longrightarrow> cmp (xs ! k) (xs ! l) \<le> 0)"

lemma scan_up_spec:
  assumes "0 \<le> i + 1" "i + 1 \<le> int m" "m < length xs" "\<not> cmp (xs ! m) p < 0"
  shows "\<exists>i'. scan_up cmp xs p i = Some i' \<and> i < i' \<and> i' \<le> int m \<and> \<not> cmp (xs ! nat i') p < 0
    \<and> (\<forall>k. i < int k \<and> int k < i' \<longrightarrow> cmp (xs ! k) p < 0)"
  using assms
proof (induction "nat (int m - i)" arbitrary: i rule: less_induct)
  case less
  have at: "item_at xs (i + 1) = Some (xs ! nat (i + 1))" using less.prems by (simp add: item_at_def)
  show ?case
  proof (cases "cmp (xs ! nat (i + 1)) p < 0")
    case False
    with at show ?thesis using less.prems by (subst scan_up.simps) auto
  next
    case True
    with less.prems have ne: "i + 1 \<noteq> int m" by auto
    from less.hyps [of "i + 1"] less.prems ne obtain i' where i': "scan_up cmp xs p (i + 1) = Some i'" "i + 1 < i'" "i' \<le> int m"
      "\<not> cmp (xs ! nat i') p < 0" "\<forall>k. i + 1 < int k \<and> int k < i' \<longrightarrow> cmp (xs ! k) p < 0" by auto
    have "cmp (xs ! k) p < 0" if "i < int k" "int k < i'" for k
      using i'(5) that True nat_int [of k] by (cases "int k = i + 1") auto
    with i' at True show ?thesis by (subst scan_up.simps) auto
  qed
qed

lemma scan_down_spec:
  assumes "int m \<le> j - 1" "j - 1 < int (length xs)" "\<not> cmp (xs ! m) p > 0"
  shows "\<exists>j'. scan_down cmp xs p j = Some j' \<and> j' < j \<and> int m \<le> j' \<and> \<not> cmp (xs ! nat j') p > 0
    \<and> (\<forall>k. j' < int k \<and> int k < j \<longrightarrow> cmp (xs ! k) p > 0)"
  using assms
proof (induction "nat (j - int m)" arbitrary: j rule: less_induct)
  case less
  have at: "item_at xs (j - 1) = Some (xs ! nat (j - 1))" using less.prems by (simp add: item_at_def)
  show ?case
  proof (cases "cmp (xs ! nat (j - 1)) p > 0")
    case False
    with at show ?thesis using less.prems by (subst scan_down.simps) auto
  next
    case True
    with less.prems have ne: "j - 1 \<noteq> int m" by auto
    from less.hyps [of "j - 1"] less.prems ne obtain j' where j': "scan_down cmp xs p (j - 1) = Some j'" "j' < j - 1" "int m \<le> j'"
      "\<not> cmp (xs ! nat j') p > 0" "\<forall>k. j' < int k \<and> int k < j - 1 \<longrightarrow> cmp (xs ! k) p > 0" by auto
    have "cmp (xs ! k) p > 0" if "j' < int k" "int k < j" for k
      using j'(5) that True nat_int [of k] by (cases "int k = j - 1") auto
    with j' at True show ?thesis by (subst scan_down.simps) auto
  qed
qed

text \<open>
  The loop of the partition: everything up to \<^term>\<open>i\<close> is at most the pivot, everything from \<^term>\<open>j\<close> on at least, and
  there is an element on either side where the scans stop. \<^term>\<open>first\<close>: before the first round the pivot itself is between the two.
\<close>

definition part_inv :: "int \<Rightarrow> int \<Rightarrow> 'k \<Rightarrow> 'k list \<Rightarrow> int \<Rightarrow> int \<Rightarrow> nat \<Rightarrow> nat \<Rightarrow> bool" where
  "part_inv lo hi p xs i j m n \<longleftrightarrow> 0 \<le> lo \<and> lo \<le> i + 1 \<and> j \<le> hi + 1 \<and> hi < int (length xs)
     \<and> i < int m \<and> int m \<le> hi \<and> \<not> cmp (xs ! m) p < 0 \<and> lo \<le> int n \<and> int n < j \<and> \<not> cmp (xs ! n) p > 0
     \<and> (\<forall>k. lo \<le> int k \<and> int k \<le> i \<longrightarrow> cmp (xs ! k) p \<le> 0) \<and> (\<forall>k. j \<le> int k \<and> int k \<le> hi \<longrightarrow> cmp (xs ! k) p \<ge> 0)
     \<and> (j = hi + 1 \<longrightarrow> i = lo - 1 \<and> m = n \<and> int n < hi)"

lemma swap_nth:
  assumes "0 \<le> i" "i < j" "j < int (length xs)"
  shows "\<exists>ys. ldb_swap xs i j = Some ys \<and> rearranged i j xs ys \<and> ys ! nat i = xs ! nat j \<and> ys ! nat j = xs ! nat i
    \<and> (\<forall>k. int k \<noteq> i \<and> int k \<noteq> j \<longrightarrow> ys ! k = xs ! k)"
proof -
  let ?ys = "xs[nat i := xs ! nat j, nat j := xs ! nat i]"
  have "ldb_swap xs i j = Some ?ys" using assms by (simp add: ldb_swap_def item_at_def)
  moreover have "mset ?ys = mset xs" using assms by (intro mset_swap) auto
  moreover have "\<forall>k. int k \<noteq> i \<and> int k \<noteq> j \<longrightarrow> ?ys ! k = xs ! k" using assms by (auto simp: nth_list_update)
  moreover have "?ys ! nat i = xs ! nat j" "?ys ! nat j = xs ! nat i" using assms by (auto simp: nth_list_update)
  ultimately show ?thesis using assms(2) by (auto simp: rearranged_def)
qed

lemma partition_loop_spec:
  assumes "part_inv lo hi p xs i j m n"
  shows "\<exists>q ys. partition_loop cmp xs p i j = Some (q, ys) \<and> rearranged lo hi xs ys \<and> lo \<le> q \<and> q < hi
    \<and> (\<forall>k. lo \<le> int k \<and> int k \<le> q \<longrightarrow> cmp (ys ! k) p \<le> 0) \<and> (\<forall>k. q < int k \<and> int k \<le> hi \<longrightarrow> cmp (ys ! k) p \<ge> 0)"
  using assms
proof (induction "nat (j - i)" arbitrary: xs i j m n rule: less_induct)
  case less
  note I = less.prems [unfolded part_inv_def]
  obtain i' where i': "scan_up cmp xs p i = Some i'" "i < i'" "i' \<le> int m" "\<not> cmp (xs ! nat i') p < 0"
    "\<forall>k. i < int k \<and> int k < i' \<longrightarrow> cmp (xs ! k) p < 0" using scan_up_spec [of i m xs p] I by auto
  obtain j' where j': "scan_down cmp xs p j = Some j'" "j' < j" "int n \<le> j'" "\<not> cmp (xs ! nat j') p > 0"
    "\<forall>k. j' < int k \<and> int k < j \<longrightarrow> cmp (xs ! k) p > 0" using scan_down_spec [of n j xs p] I by auto
  have low: "cmp (xs ! k) p \<le> 0" if "lo \<le> int k" "int k < i'" for k
    using I i'(5) that by (cases "int k \<le> i") (auto intro: less_imp_le)
  have high: "cmp (xs ! k) p \<ge> 0" if "j' < int k" "int k \<le> hi" for k
    using I j'(5) that by (cases "j \<le> int k") (auto intro: less_imp_le)
  show ?case
  proof (cases "i' \<ge> j'")
    case True
    have "cmp (xs ! k) p \<le> 0" if "lo \<le> int k" "int k \<le> j'" for k
      using low [OF that(1)] that(2) True j'(4) nat_int [of k] by (cases "int k = j'") auto
    moreover have "lo \<le> j'" "j' < hi" using I j'(2,3) i'(3) True by auto
    ultimately show ?thesis using i'(1) j'(1) True high by (subst partition_loop.simps) auto
  next
    case False
    have b: "lo \<le> i'" "0 \<le> i'" "i' < j'" "j' \<le> hi" "j' < int (length xs)" using I i'(2) j'(2) False by auto
    obtain ys where ys: "ldb_swap xs i' j' = Some ys" "rearranged i' j' xs ys" "ys ! nat i' = xs ! nat j'" "ys ! nat j' = xs ! nat i'"
      "\<forall>k. int k \<noteq> i' \<and> int k \<noteq> j' \<longrightarrow> ys ! k = xs ! k" using swap_nth [OF b(2,3,5)] by blast
    have r: "rearranged lo hi xs ys" using rearranged_trans [OF rearranged_refl ys(2)] b by simp
    have "cmp (ys ! k) p \<le> 0" if "lo \<le> int k" "int k \<le> i'" for k
      using low [OF that(1)] that(2) ys(3,5) j'(4) b(3) nat_int [of k] by (cases "int k = i'") auto
    moreover have "cmp (ys ! k) p \<ge> 0" if "j' \<le> int k" "int k \<le> hi" for k
      using high [OF _ that(2)] that(1) ys(4,5) i'(4) b(3) nat_int [of k] by (cases "int k = j'") auto
    ultimately have "part_inv lo hi p ys i' j' (nat j') (nat i')"
      using I b ys(3,4) i'(4) j'(2,4) rearranged_length [OF r] by (auto simp: part_inv_def)
    from less.hyps [OF _ this] i'(2) j'(2) b(3) obtain q zs where
      q: "partition_loop cmp ys p i' j' = Some (q, zs)" "rearranged lo hi ys zs" "lo \<le> q" "q < hi"
      "\<forall>k. lo \<le> int k \<and> int k \<le> q \<longrightarrow> cmp (zs ! k) p \<le> 0" "\<forall>k. q < int k \<and> int k \<le> hi \<longrightarrow> cmp (zs ! k) p \<ge> 0" by auto
    have "partition_loop cmp xs p i j = Some (q, zs)" using i'(1) j'(1) False ys(1) q(1) by (subst partition_loop.simps) simp
    with rearranged_trans [OF r q(2)] q(3-6) show ?thesis by auto
  qed
qed

lemma partition_spec:
  assumes "0 \<le> lo" "lo < hi" "hi < int (length xs)" "\<forall>x \<in> set xs. ok x"
  shows "\<exists>p q ys. ldb_partition cmp xs lo hi = Some (q, ys) \<and> ok p \<and> rearranged lo hi xs ys \<and> lo \<le> q \<and> q < hi
    \<and> (\<forall>k. lo \<le> int k \<and> int k \<le> q \<longrightarrow> cmp (ys ! k) p \<le> 0) \<and> (\<forall>k. q < int k \<and> int k \<le> hi \<longrightarrow> cmp (ys ! k) p \<ge> 0)"
proof -
  let ?m = "(hi + lo) div 2"
  have m: "lo \<le> ?m" "?m < hi" using assms by linarith+
  then have at: "item_at xs ?m = Some (xs ! nat ?m)" using assms by (simp add: item_at_def)
  have ok: "ok (xs ! nat ?m)" using assms m by auto
  have "part_inv lo hi (xs ! nat ?m) xs (lo - 1) (hi + 1) (nat ?m) (nat ?m)"
    using assms m cmp_refl [OF ok] by (auto simp: part_inv_def)
  from partition_loop_spec [OF this] at ok show ?thesis unfolding ldb_partition_def by auto
qed

lemma qsort_spec:
  assumes "0 \<le> lo" "hi < int (length xs)" "\<forall>x \<in> set xs. ok x"
  shows "\<exists>ys. ldb_qsort cmp xs lo hi = Some ys \<and> rearranged lo hi xs ys \<and> ordered_on ys lo hi"
  using assms
proof (induction "nat (hi - lo)" arbitrary: xs lo hi rule: less_induct)
  case less
  show ?case
  proof (cases "lo < hi")
    case False
    then show ?thesis using less.prems by (subst ldb_qsort.simps) (auto simp: ordered_on_def)
  next
    case True
    obtain p q ys where q: "ldb_partition cmp xs lo hi = Some (q, ys)" "ok p" "rearranged lo hi xs ys" "lo \<le> q" "q < hi"
      "\<forall>k. lo \<le> int k \<and> int k \<le> q \<longrightarrow> cmp (ys ! k) p \<le> 0" "\<forall>k. q < int k \<and> int k \<le> hi \<longrightarrow> cmp (ys ! k) p \<ge> 0"
      using partition_spec [OF less.prems(1) True less.prems(2,3)] by auto
    have ly: "length ys = length xs" "\<forall>x \<in> set ys. ok x" using rearranged_length [OF q(3)] rearranged_set [OF q(3)] less.prems(3) by auto
    from less.hyps [of q lo ys] q(4,5) ly less.prems obtain zs where
      z: "ldb_qsort cmp ys lo q = Some zs" "rearranged lo q ys zs" "ordered_on zs lo q" by auto
    have lz: "length zs = length xs" "\<forall>x \<in> set zs. ok x" using rearranged_length [OF z(2)] rearranged_set [OF z(2)] ly by auto
    from less.hyps [of hi "q + 1" zs] q(4,5) lz less.prems obtain us where
      u: "ldb_qsort cmp zs (q + 1) hi = Some us" "rearranged (q + 1) hi zs us" "ordered_on us (q + 1) hi" by auto
    have lu: "length us = length xs" "\<forall>x \<in> set us. ok x" using rearranged_length [OF u(2)] rearranged_set [OF u(2)] lz by auto
    have low: "us ! k = zs ! k" if "int k \<le> q" "k < length xs" for k using u(2) that lz(1) by (auto simp: rearranged_def)
    have left: "cmp (us ! k) p \<le> 0" if k: "lo \<le> int k" "int k \<le> q" "k < length xs" for k
    proof -
      obtain k' where "k' < length ys" "lo \<le> int k'" "int k' \<le> q" "zs ! k = ys ! k'"
        using rearranged_segment [OF z(2) less.prems(1) _ k(1,2)] k(3) ly(1) by auto
      with q(6) low [OF k(2,3)] show ?thesis by auto
    qed
    have right: "cmp (us ! k) p \<ge> 0" if k: "q < int k" "int k \<le> hi" "k < length xs" for k
    proof -
      obtain k' where k': "k' < length zs" "q + 1 \<le> int k'" "int k' \<le> hi" "us ! k = zs ! k'"
        using rearranged_segment [OF u(2) _ _ _ k(2)] k(1,3) q(4) less.prems(1) lz(1) by auto
      then have "zs ! k' = ys ! k'" using z(2) ly(1) lz(1) by (auto simp: rearranged_def)
      with q(7) k' show ?thesis by auto
    qed
    have "cmp (us ! k) (us ! l) \<le> 0" if kl: "lo \<le> int k" "k < l" "int l \<le> hi" "l < length us" for k l
    proof -
      consider "int l \<le> q" | "q < int k" | "int k \<le> q" "q < int l" by linarith
      then show ?thesis
      proof cases
        case 1
        with z(3) kl lu lz low show ?thesis by (auto simp: ordered_on_def)
      next
        case 2
        with u(3) kl show ?thesis by (auto simp: ordered_on_def)
      next
        case 3
        have "ok (us ! k)" "ok (us ! l)" using lu kl by auto
        moreover have "cmp (us ! k) p \<le> 0" "cmp p (us ! l) \<le> 0"
          using left [OF kl(1) 3(1)] right [OF 3(2) kl(3)] kl lu(1) cmp_ge_swap [OF calculation(2) q(2)] by auto
        ultimately show ?thesis using cmp_le_trans q(2) by blast
      qed
    qed
    then have "ordered_on us lo hi" by (auto simp: ordered_on_def)
    moreover have "rearranged lo hi xs us"
      using rearranged_trans [OF rearranged_trans [OF q(3) z(2)] u(2)] q(4,5) by simp
    moreover have "ldb_qsort cmp xs lo hi = Some us" using True less.prems(1) q(1) z(1) u(1) by (subst ldb_qsort.simps) simp
    ultimately show ?thesis by blast
  qed
qed

lemma vector_sort_ok:
  assumes "\<forall>x \<in> set xs. ok x"
  shows "\<exists>ys. ldb_vector_sort cmp xs = Some ys \<and> mset ys = mset xs \<and> sorted_wrt (\<lambda>x y. cmp x y \<le> 0) ys"
proof (cases "length xs > 1")
  case True
  obtain ys where "ldb_qsort cmp xs 0 (int (length xs) - 1) = Some ys" "rearranged 0 (int (length xs) - 1) xs ys"
    "ordered_on ys 0 (int (length xs) - 1)" using qsort_spec [of 0 "int (length xs) - 1" xs] assms by auto
  moreover from this have "sorted_wrt (\<lambda>x y. cmp x y \<le> 0) ys"
    using rearranged_length by (fastforce simp: ordered_on_def sorted_wrt_iff_nth_less)
  ultimately show ?thesis using True by (auto simp: ldb_vector_sort_def rearranged_def)
next
  case False
  then show ?thesis by (cases xs) (auto simp: ldb_vector_sort_def)
qed

end

text \<open>
  So the sort of a vector ends, never reads or writes outside the array, and rearranges it in the order of the comparison function, for
  every comparison that is a total preorder of the elements; not only where the comparison of elements is that of a comparator object.
\<close>

theorem vector_sort_correct:
  assumes "key_order cmp ok" "\<forall>x \<in> set xs. ok x"
  shows "\<exists>ys. ldb_vector_sort cmp xs = Some ys \<and> mset ys = mset xs \<and> sorted_wrt (\<lambda>x y. cmp x y \<le> 0) ys"
  by (rule key_order.vector_sort_ok [OF assms])

end
