(* ===== verification/Version.thy ===== *)
theory Version
  imports VersionEdit Table Vector DbIter
begin

text \<open>
  Versions (the first half of \<^verbatim>\<open>src/src/version_set.c\<close>): the table files of a database by level, the search for the files that may
  hold a key, reads, the files that overlap a range, and the iterator over the files of a level. A version holds its files as values;
  the pointer to the version set is the user comparator \<^term>\<open>ucmp\<close>, from which the internal key comparator is built, and the options.
  The table cache is the argument \<^verbatim>\<open>tcache_get\<close> of a read, a function on the state of the cache. Vectors are lists; the indices of files, of 32 bits in the code, are natural numbers
  (the invariant of versions bounds the number of files), and sums of file sizes are below \<open>2^63\<close>. \<^term>\<open>None\<close> is a failed assertion, an access outside a vector or a loop that does not end.
\<close>

section \<open>Sizes\<close>

definition target_file_size :: "dbopt \<Rightarrow> nat" where
  "target_file_size options = opt_max_file_size options"

definition max_grandparent_overlap_bytes :: "dbopt \<Rightarrow> int" where
  "max_grandparent_overlap_bytes options = 10 * int (target_file_size options)"

definition expanded_compaction_byte_size_limit :: "dbopt \<Rightarrow> int" where
  "expanded_compaction_byte_size_limit options = 25 * int (target_file_size options)"

definition max_file_size_for_level :: "dbopt \<Rightarrow> nat \<Rightarrow> nat" where
  "max_file_size_for_level options lvl = target_file_size options"

definition total_file_size :: "filemeta list \<Rightarrow> int" where
  "total_file_size files = foldl (\<lambda>sum f. sum + uint (fm_file_size f)) 0 files"

section \<open>Searching files\<close>

function find_file_loop :: "comparator \<Rightarrow> filemeta list \<Rightarrow> bytes \<Rightarrow> nat \<Rightarrow> nat \<Rightarrow> nat" where
  "find_file_loop icmp files key left right =
     (if left < right then
        (let mid = (left + right) div 2; f = files ! mid
         in if compare icmp (fm_largest f) key < 0 then find_file_loop icmp files key (mid + 1) right
            else find_file_loop icmp files key left mid)
      else right)"
  by pat_completeness auto
termination
  by (relation "measure (\<lambda>(icmp, files, key, left, right). right - left)") auto

declare find_file_loop.simps [simp del]

definition find_file :: "comparator \<Rightarrow> filemeta list \<Rightarrow> bytes \<Rightarrow> nat" where
  "find_file icmp files key = find_file_loop icmp files key 0 (length files)"

text \<open>A user key is \<^term>\<open>None\<close> where the code passes a null pointer.\<close>

definition after_file :: "comparator \<Rightarrow> bytes option \<Rightarrow> filemeta \<Rightarrow> bool" where
  "after_file ucmp ukey f =
     (case ukey of None \<Rightarrow> False | Some k \<Rightarrow> compare ucmp k (ldb_ikey_user_key (fm_largest f)) > 0)"

definition before_file :: "comparator \<Rightarrow> bytes option \<Rightarrow> filemeta \<Rightarrow> bool" where
  "before_file ucmp ukey f =
     (case ukey of None \<Rightarrow> False | Some k \<Rightarrow> compare ucmp k (ldb_ikey_user_key (fm_smallest f)) < 0)"

fun overlaps_loop :: "comparator \<Rightarrow> bytes option \<Rightarrow> bytes option \<Rightarrow> filemeta list \<Rightarrow> bool" where
  "overlaps_loop ucmp small large [] = False"
| "overlaps_loop ucmp small large (f # fs) =
     (if after_file ucmp small f \<or> before_file ucmp large f then overlaps_loop ucmp small large fs else True)"

definition some_file_overlaps_range :: "comparator \<Rightarrow> bool \<Rightarrow> filemeta list \<Rightarrow> bytes option \<Rightarrow> bytes option \<Rightarrow> bool" where
  "some_file_overlaps_range ucmp disjoint_sorted_files files smallest_user_key largest_user_key =
     (if \<not> disjoint_sorted_files then overlaps_loop ucmp smallest_user_key largest_user_key files
      else
        (let index = (case smallest_user_key of
                        None \<Rightarrow> 0
                      | Some k \<Rightarrow> find_file (ldb_ikc_init ucmp) files (ldb_ikey_set k LDB_MAX_SEQUENCE LDB_VALTYPE_SEEK))
         in if index \<ge> length files then False else \<not> before_file ucmp largest_user_key (files ! index)))"

section \<open>The iterator over the files of a level\<close>

record numiter =
  ni_icmp :: comparator
  ni_flist :: "filemeta list"
  ni_index :: nat

definition ldb_numiter_init :: "comparator \<Rightarrow> filemeta list \<Rightarrow> numiter" where
  "ldb_numiter_init icmp flist = \<lparr>ni_icmp = icmp, ni_flist = flist, ni_index = length flist\<rparr>"

definition ldb_numiter_valid :: "numiter \<Rightarrow> bool" where
  "ldb_numiter_valid iter \<longleftrightarrow> ni_index iter < length (ni_flist iter)"

definition ldb_numiter_seek :: "numiter \<Rightarrow> bytes \<Rightarrow> numiter option" where
  "ldb_numiter_seek iter target = Some (iter\<lparr>ni_index := find_file (ni_icmp iter) (ni_flist iter) target\<rparr>)"

definition ldb_numiter_seek_first :: "numiter \<Rightarrow> numiter option" where
  "ldb_numiter_seek_first iter = Some (iter\<lparr>ni_index := 0\<rparr>)"

definition ldb_numiter_seek_last :: "numiter \<Rightarrow> numiter option" where
  "ldb_numiter_seek_last iter =
     Some (iter\<lparr>ni_index := (if length (ni_flist iter) = 0 then 0 else length (ni_flist iter) - 1)\<rparr>)"

definition ldb_numiter_next :: "numiter \<Rightarrow> numiter option" where
  "ldb_numiter_next iter = (if ldb_numiter_valid iter then Some (iter\<lparr>ni_index := ni_index iter + 1\<rparr>) else None)"

definition ldb_numiter_prev :: "numiter \<Rightarrow> numiter option" where
  "ldb_numiter_prev iter =
     (if ldb_numiter_valid iter
      then Some (iter\<lparr>ni_index := (if ni_index iter = 0 then length (ni_flist iter) else ni_index iter - 1)\<rparr>) else None)"

definition ldb_numiter_key :: "numiter \<Rightarrow> bytes option" where
  "ldb_numiter_key iter = (if ldb_numiter_valid iter then Some (fm_largest (ni_flist iter ! ni_index iter)) else None)"

definition ldb_numiter_value :: "numiter \<Rightarrow> bytes option" where
  "ldb_numiter_value iter =
     (if ldb_numiter_valid iter
      then (let f = ni_flist iter ! ni_index iter in Some (ldb_fixed64_write (fm_number f) @ ldb_fixed64_write (fm_file_size f)))
      else None)"

definition ldb_numiter_status :: "numiter \<Rightarrow> status option" where
  "ldb_numiter_status iter = Some LDB_OK"

definition ldb_numiter_table :: "numiter itertbl" where
  "ldb_numiter_table =
     \<lparr>tbl_valid = ldb_numiter_valid, tbl_seek_first = ldb_numiter_seek_first, tbl_seek_last = ldb_numiter_seek_last,
      tbl_seek = ldb_numiter_seek, tbl_next = ldb_numiter_next, tbl_prev = ldb_numiter_prev, tbl_key = ldb_numiter_key,
      tbl_value = ldb_numiter_value, tbl_status = ldb_numiter_status\<rparr>"

definition ldb_numiter_create :: "comparator \<Rightarrow> filemeta list \<Rightarrow> numiter iter" where
  "ldb_numiter_create icmp flist = (ldb_numiter_table, ldb_numiter_init icmp flist)"

text \<open>\<^verbatim>\<open>tcache_iterate\<close> opens the iterator over a table file, whose function table is \<^term>\<open>T\<close>.\<close>

definition get_file_iterator :: "'d itertbl \<Rightarrow> (u64 \<Rightarrow> u64 \<Rightarrow> 'd) \<Rightarrow> bytes \<Rightarrow> (emptyiter + 'd) iter" where
  "get_file_iterator T tcache_iterate file_value =
     (sum_table ldb_emptyiter_table T,
      if length file_value \<noteq> 16 then Inl (ldb_emptyiter_create LDB_CORRUPTION)
      else Inr (tcache_iterate (ldb_fixed64_decode (take 8 file_value)) (ldb_fixed64_decode (drop 8 file_value))))"

section \<open>Versions\<close>

record getstats =
  gs_seek_file :: "filemeta option"
  gs_seek_file_level :: int

text \<open>A compaction score, a double in the code, as an exact fraction.\<close>

type_synonym score = "int \<times> int"

record version =
  ver_refs :: int
  ver_files :: "filemeta list list"
  ver_file_to_compact :: "filemeta option"
  ver_file_to_compact_level :: int
  ver_compaction_score :: score
  ver_compaction_level :: int

definition ldb_version_init :: version where
  "ldb_version_init = \<lparr>ver_refs = 0, ver_files = replicate LDB_NUM_LEVELS [], ver_file_to_compact = None,
     ver_file_to_compact_level = 1, ver_compaction_score = (1, 1), ver_compaction_level = 1\<rparr>"

definition ldb_version_num_files :: "version \<Rightarrow> nat \<Rightarrow> nat" where
  "ldb_version_num_files ver lvl = length (ver_files ver ! lvl)"

definition ldb_concatiter_create ::
  "'d itertbl \<Rightarrow> (u64 \<Rightarrow> u64 \<Rightarrow> 'd) \<Rightarrow> comparator \<Rightarrow> version \<Rightarrow> nat \<Rightarrow> (numiter, emptyiter + 'd) twoiter iter option" where
  "ldb_concatiter_create T tcache_iterate ucmp ver lvl =
     ldb_twoiter_create (ldb_numiter_create (ldb_ikc_init ucmp) (ver_files ver ! lvl)) (get_file_iterator T tcache_iterate)"

text \<open>The iterators of a version: over each file of level 0, and over each other level that has files.\<close>

fun level_iterators ::
  "'d itertbl \<Rightarrow> (u64 \<Rightarrow> u64 \<Rightarrow> 'd) \<Rightarrow> comparator \<Rightarrow> version \<Rightarrow> nat list \<Rightarrow> ('d + (numiter, emptyiter + 'd) twoiter) iter list option" where
  "level_iterators T tcache_iterate ucmp ver [] = Some []"
| "level_iterators T tcache_iterate ucmp ver (lvl # lvls) =
     (if length (ver_files ver ! lvl) > 0 then do {
        (T', it) \<leftarrow> ldb_concatiter_create T tcache_iterate ucmp ver lvl;
        iters \<leftarrow> level_iterators T tcache_iterate ucmp ver lvls;
        Some ((sum_table T T', Inr it) # iters)
      }
      else level_iterators T tcache_iterate ucmp ver lvls)"

definition ldb_version_add_iterators ::
  "'d itertbl \<Rightarrow> (u64 \<Rightarrow> u64 \<Rightarrow> 'd) \<Rightarrow> comparator \<Rightarrow> version \<Rightarrow> ('d + (numiter, emptyiter + 'd) twoiter) iter list option" where
  "ldb_version_add_iterators T tcache_iterate ucmp ver = do {
     iters \<leftarrow> level_iterators T tcache_iterate ucmp ver [1..<LDB_NUM_LEVELS];
     Some (map (\<lambda>f. (sum_table T ldb_twoiter_table, Inl (tcache_iterate (fm_number f) (fm_file_size f)))) (ver_files ver ! 0) @ iters)
   }"

section \<open>Reading\<close>

datatype saver_state = S_NOTFOUND | S_FOUND | S_DELETED | S_CORRUPT

record saver =
  sv_state :: saver_state
  sv_ucmp :: comparator
  sv_user_key :: bytes
  sv_value :: "bytes option"

definition save_value :: "saver \<Rightarrow> kv \<Rightarrow> saver" where
  "save_value s e =
     (case ldb_pkey_import (fst e) of
        None \<Rightarrow> s\<lparr>sv_state := S_CORRUPT\<rparr>
      | Some pkey \<Rightarrow>
          if compare (sv_ucmp s) (user_key pkey) (sv_user_key s) = 0 then
            (let s = s\<lparr>sv_state := (if vtype pkey = LDB_TYPE_VALUE then S_FOUND else S_DELETED)\<rparr>
             in if sv_state s = S_FOUND \<and> sv_value s \<noteq> None then s\<lparr>sv_value := Some (snd e)\<rparr> else s)
          else s)"

record 'c getstate =
  gt_saver :: saver
  gt_stats :: getstats
  gt_ikey :: bytes
  gt_last_file_read :: "filemeta option"
  gt_last_file_read_level :: int
  gt_cache :: 'c
  gt_status :: status
  gt_found :: bool

type_synonym 'c tget = "'c \<Rightarrow> u64 \<Rightarrow> u64 \<Rightarrow> bytes \<Rightarrow> (status \<times> kv option \<times> 'c) option"

definition getstate_match :: "'c tget \<Rightarrow> 'c getstate \<Rightarrow> nat \<Rightarrow> filemeta \<Rightarrow> (bool \<times> 'c getstate) option" where
  "getstate_match tcache_get state lvl f = do {
     let state = (if gs_seek_file (gt_stats state) = None \<and> gt_last_file_read state \<noteq> None
                  then state\<lparr>gt_stats := \<lparr>gs_seek_file = gt_last_file_read state, gs_seek_file_level = gt_last_file_read_level state\<rparr>\<rparr>
                  else state);
     let state = state\<lparr>gt_last_file_read := Some f, gt_last_file_read_level := int lvl\<rparr>;
     (rc, result, cache) \<leftarrow> tcache_get (gt_cache state) (fm_number f) (fm_file_size f) (gt_ikey state);
     let state = state\<lparr>gt_status := rc, gt_cache := cache, gt_saver := (case result of None \<Rightarrow> gt_saver state | Some e \<Rightarrow> save_value (gt_saver state) e)\<rparr>;
     if rc \<noteq> LDB_OK then Some (False, state\<lparr>gt_found := True\<rparr>)
     else Some (case sv_state (gt_saver state) of
            S_NOTFOUND \<Rightarrow> (True, state)
          | S_FOUND \<Rightarrow> (False, state\<lparr>gt_found := True\<rparr>)
          | S_DELETED \<Rightarrow> (False, state)
          | S_CORRUPT \<Rightarrow> (False, state\<lparr>gt_status := LDB_CORRUPTION, gt_found := True\<rparr>))
   }"

record samplestate =
  ss_stats :: getstats
  ss_matches :: nat

definition samplestate_match :: "samplestate \<Rightarrow> nat \<Rightarrow> filemeta \<Rightarrow> (bool \<times> samplestate) option" where
  "samplestate_match state lvl f =
     (let state = state\<lparr>ss_matches := ss_matches state + 1\<rparr>;
          state = (if ss_matches state = 1
                   then state\<lparr>ss_stats := \<lparr>gs_seek_file = Some f, gs_seek_file_level = int lvl\<rparr>\<rparr> else state)
      in Some (ss_matches state < 2, state))"

definition newest_first :: "filemeta \<Rightarrow> filemeta \<Rightarrow> int" where
  "newest_first a b = (if fm_number a = fm_number b then 0 else if fm_number a < fm_number b then 1 else -1)"

text \<open>The two loops of \<^verbatim>\<open>ldb_version_for_each_overlapping\<close>; the flag says whether the search goes on.\<close>

fun each_newest_loop :: "('a \<Rightarrow> nat \<Rightarrow> filemeta \<Rightarrow> (bool \<times> 'a) option) \<Rightarrow> 'a \<Rightarrow> filemeta list \<Rightarrow> (bool \<times> 'a) option" where
  "each_newest_loop func arg [] = Some (True, arg)"
| "each_newest_loop func arg (f # fs) = do {
     (more, arg) \<leftarrow> func arg 0 f;
     if \<not> more then Some (False, arg) else each_newest_loop func arg fs
   }"

definition search_level ::
  "comparator \<Rightarrow> filemeta list \<Rightarrow> bytes \<Rightarrow> bytes \<Rightarrow> ('a \<Rightarrow> nat \<Rightarrow> filemeta \<Rightarrow> (bool \<times> 'a) option) \<Rightarrow> 'a \<Rightarrow> nat \<Rightarrow> (bool \<times> 'a) option" where
  "search_level ucmp files ukey ikey func arg lvl =
     (if length files = 0 then Some (True, arg)
      else
        (let index = find_file (ldb_ikc_init ucmp) files ikey
         in if index < length files then
              (let f = files ! index
               in if compare ucmp ukey (ldb_ikey_user_key (fm_smallest f)) < 0 then Some (True, arg) else func arg lvl f)
            else Some (True, arg)))"

fun each_level_loop ::
  "comparator \<Rightarrow> version \<Rightarrow> bytes \<Rightarrow> bytes \<Rightarrow> ('a \<Rightarrow> nat \<Rightarrow> filemeta \<Rightarrow> (bool \<times> 'a) option) \<Rightarrow> 'a \<Rightarrow> nat list \<Rightarrow> 'a option" where
  "each_level_loop ucmp ver ukey ikey func arg [] = Some arg"
| "each_level_loop ucmp ver ukey ikey func arg (lvl # lvls) = do {
     (more, arg) \<leftarrow> search_level ucmp (ver_files ver ! lvl) ukey ikey func arg lvl;
     if \<not> more then Some arg else each_level_loop ucmp ver ukey ikey func arg lvls
   }"

definition ldb_version_for_each_overlapping ::
  "comparator \<Rightarrow> version \<Rightarrow> bytes \<Rightarrow> bytes \<Rightarrow> ('a \<Rightarrow> nat \<Rightarrow> filemeta \<Rightarrow> (bool \<times> 'a) option) \<Rightarrow> 'a \<Rightarrow> 'a option" where
  "ldb_version_for_each_overlapping ucmp ver ukey ikey func arg = do {
     let tmp = filter (\<lambda>f. compare ucmp ukey (ldb_ikey_user_key (fm_smallest f)) \<ge> 0
                         \<and> compare ucmp ukey (ldb_ikey_user_key (fm_largest f)) \<le> 0) (ver_files ver ! 0);
     tmp \<leftarrow> (if length tmp > 0 then ldb_vector_sort newest_first tmp else Some tmp);
     (more, arg) \<leftarrow> each_newest_loop func arg tmp;
     if \<not> more then Some arg
     else each_level_loop ucmp ver ukey ikey func arg [1..<LDB_NUM_LEVELS]
   }"

text \<open>The result is the status, the value buffer, the statistics and the table cache.\<close>

definition ldb_version_get ::
  "'c tget \<Rightarrow> comparator \<Rightarrow> 'c \<Rightarrow> version \<Rightarrow> lkey \<Rightarrow> bytes option \<Rightarrow> (status \<times> bytes option \<times> getstats \<times> 'c) option" where
  "ldb_version_get tcache_get ucmp cache ver k v = do {
     let state = \<lparr>gt_saver = \<lparr>sv_state = S_NOTFOUND, sv_ucmp = ucmp, sv_user_key = ldb_lkey_user_key k, sv_value = v\<rparr>,
                  gt_stats = \<lparr>gs_seek_file = None, gs_seek_file_level = -1\<rparr>, gt_ikey = ldb_lkey_internal_key k,
                  gt_last_file_read = None, gt_last_file_read_level = -1, gt_cache = cache, gt_status = LDB_OK, gt_found = False\<rparr>;
     state \<leftarrow> ldb_version_for_each_overlapping ucmp ver (sv_user_key (gt_saver state)) (gt_ikey state) (getstate_match tcache_get) state;
     Some (if gt_found state then gt_status state else LDB_NOTFOUND, sv_value (gt_saver state), gt_stats state, gt_cache state)
   }"

text \<open>The allowance of seeks is a field of the file object, which the versions that hold the file share; here, of the version at hand.\<close>

definition set_file :: "version \<Rightarrow> filemeta \<Rightarrow> filemeta \<Rightarrow> version" where
  "set_file ver f f' = ver\<lparr>ver_files := map (map (\<lambda>g. if g = f then f' else g)) (ver_files ver)\<rparr>"

definition ldb_version_update_stats :: "version \<Rightarrow> getstats \<Rightarrow> bool \<times> version" where
  "ldb_version_update_stats ver stats =
     (case gs_seek_file stats of
        None \<Rightarrow> (False, ver)
      | Some f \<Rightarrow>
          (let f' = f\<lparr>fm_allowed_seeks := fm_allowed_seeks f - 1\<rparr>; ver = set_file ver f f'
           in if fm_allowed_seeks f' \<le> 0 \<and> ver_file_to_compact ver = None
              then (True, ver\<lparr>ver_file_to_compact := Some f', ver_file_to_compact_level := gs_seek_file_level stats\<rparr>)
              else (False, ver)))"

definition ldb_version_record_read_sample :: "comparator \<Rightarrow> version \<Rightarrow> bytes \<Rightarrow> (bool \<times> version) option" where
  "ldb_version_record_read_sample ucmp ver ikey =
     (case ldb_pkey_import ikey of
        None \<Rightarrow> Some (False, ver)
      | Some pkey \<Rightarrow> do {
          state \<leftarrow> ldb_version_for_each_overlapping ucmp ver (user_key pkey) ikey samplestate_match
                     \<lparr>ss_stats = \<lparr>gs_seek_file = None, gs_seek_file_level = 0\<rparr>, ss_matches = 0\<rparr>;
          Some (if ss_matches state \<ge> 2 then ldb_version_update_stats ver (ss_stats state) else (False, ver))
        })"

section \<open>Files that overlap a range\<close>

definition ldb_version_overlap_in_level :: "comparator \<Rightarrow> version \<Rightarrow> nat \<Rightarrow> bytes option \<Rightarrow> bytes option \<Rightarrow> bool" where
  "ldb_version_overlap_in_level ucmp ver lvl smallest_user_key largest_user_key =
     some_file_overlaps_range ucmp (lvl > 0) (ver_files ver ! lvl) smallest_user_key largest_user_key"

text \<open>
  The loop of \<^verbatim>\<open>ldb_version_get_overlapping_inputs\<close> at file \<^term>\<open>i\<close>, which starts again when a file of level 0 widens the range.
\<close>

partial_function (option) overlapping_loop ::
  "comparator \<Rightarrow> filemeta list \<Rightarrow> bool \<Rightarrow> nat \<Rightarrow> bytes option \<Rightarrow> bytes option \<Rightarrow> filemeta list \<Rightarrow> filemeta list option" where
  "overlapping_loop uc files level0 i user_begin user_end inputs =
     (if i < length files then
        (let f = files ! i;
             file_start = ldb_ikey_user_key (fm_smallest f);
             file_limit = ldb_ikey_user_key (fm_largest f)
         in if (case user_begin of None \<Rightarrow> False | Some b \<Rightarrow> compare uc file_limit b < 0)
            then overlapping_loop uc files level0 (i + 1) user_begin user_end inputs
            else if (case user_end of None \<Rightarrow> False | Some e \<Rightarrow> compare uc file_start e > 0)
            then overlapping_loop uc files level0 (i + 1) user_begin user_end inputs
            else if level0 \<and> (case user_begin of None \<Rightarrow> False | Some b \<Rightarrow> compare uc file_start b < 0)
            then overlapping_loop uc files level0 0 (Some file_start) user_end []
            else if level0 \<and> (case user_end of None \<Rightarrow> False | Some e \<Rightarrow> compare uc file_limit e > 0)
            then overlapping_loop uc files level0 0 user_begin (Some file_limit) []
            else overlapping_loop uc files level0 (i + 1) user_begin user_end (inputs @ [f]))
      else Some inputs)"

definition ldb_version_get_overlapping_inputs ::
  "comparator \<Rightarrow> version \<Rightarrow> nat \<Rightarrow> bytes option \<Rightarrow> bytes option \<Rightarrow> filemeta list option" where
  "ldb_version_get_overlapping_inputs uc ver lvl begin_key end_key =
     (if lvl < LDB_NUM_LEVELS
      then overlapping_loop uc (ver_files ver ! lvl) (lvl = 0) 0
             (map_option ldb_ikey_user_key begin_key) (map_option ldb_ikey_user_key end_key) []
      else None)"

definition LDB_MAX_MEM_COMPACT_LEVEL :: nat where
  "LDB_MAX_MEM_COMPACT_LEVEL = 2"

function pick_level_loop :: "dbopt \<Rightarrow> comparator \<Rightarrow> version \<Rightarrow> bytes \<Rightarrow> bytes \<Rightarrow> nat \<Rightarrow> nat option" where
  "pick_level_loop options ucmp ver small_key large_key lvl =
     (if lvl < LDB_MAX_MEM_COMPACT_LEVEL then
        (if ldb_version_overlap_in_level ucmp ver (lvl + 1) (Some small_key) (Some large_key) then Some lvl
         else if lvl + 2 < LDB_NUM_LEVELS then
           (case ldb_version_get_overlapping_inputs ucmp ver (lvl + 2) (Some (ldb_ikey_set small_key LDB_MAX_SEQUENCE LDB_VALTYPE_SEEK))
                   (Some (ldb_ikey_set large_key 0 LDB_TYPE_DELETION)) of
              None \<Rightarrow> None
            | Some overlaps \<Rightarrow>
                if total_file_size overlaps > max_grandparent_overlap_bytes options then Some lvl
                else pick_level_loop options ucmp ver small_key large_key (lvl + 1))
         else pick_level_loop options ucmp ver small_key large_key (lvl + 1))
      else Some lvl)"
  by pat_completeness auto
termination
  by (relation "measure (\<lambda>(options, ucmp, ver, small_key, large_key, lvl). LDB_MAX_MEM_COMPACT_LEVEL - lvl)") auto

declare pick_level_loop.simps [simp del]

definition ldb_version_pick_level_for_memtable_output :: "dbopt \<Rightarrow> comparator \<Rightarrow> version \<Rightarrow> bytes \<Rightarrow> bytes \<Rightarrow> nat option" where
  "ldb_version_pick_level_for_memtable_output options ucmp ver small_key large_key =
     (if \<not> ldb_version_overlap_in_level ucmp ver 0 (Some small_key) (Some large_key)
      then pick_level_loop options ucmp ver small_key large_key 0 else Some 0)"

section \<open>Searching is exact\<close>

lemma find_file_loop_bounds:
  assumes "left \<le> right" "right \<le> length files" "\<forall>i < left. compare icmp (fm_largest (files ! i)) key < 0"
    "right < length files \<longrightarrow> \<not> compare icmp (fm_largest (files ! right)) key < 0"
    "\<And>i j. i \<le> j \<Longrightarrow> j < length files \<Longrightarrow> compare icmp (fm_largest (files ! j)) key < 0 \<Longrightarrow> compare icmp (fm_largest (files ! i)) key < 0"
  shows "let r = find_file_loop icmp files key left right in r \<le> length files
    \<and> (\<forall>i < r. compare icmp (fm_largest (files ! i)) key < 0) \<and> (r < length files \<longrightarrow> \<not> compare icmp (fm_largest (files ! r)) key < 0)"
  using assms
proof (induction icmp files key left right rule: find_file_loop.induct)
  case (1 icmp files key left right)
  show ?case
  proof (cases "left < right")
    case False
    with "1.prems" show ?thesis by (subst find_file_loop.simps) (auto simp: Let_def)
  next
    case True
    let ?mid = "(left + right) div 2"
    have mid: "left \<le> ?mid" "?mid < right" using True by auto
    show ?thesis
    proof (cases "compare icmp (fm_largest (files ! ?mid)) key < 0")
      case lt: True
      have "\<forall>i < ?mid + 1. compare icmp (fm_largest (files ! i)) key < 0"
        using "1.prems"(5) [of _ ?mid] lt mid "1.prems"(2) by auto
      with "1.IH"(1) [OF True refl refl lt] "1.prems" mid have "let r = find_file_loop icmp files key (?mid + 1) right in r \<le> length files
        \<and> (\<forall>i < r. compare icmp (fm_largest (files ! i)) key < 0) \<and> (r < length files \<longrightarrow> \<not> compare icmp (fm_largest (files ! r)) key < 0)"
        by auto
      then show ?thesis using True lt by (subst find_file_loop.simps) (simp add: Let_def)
    next
      case ge: False
      with "1.IH"(2) [OF True refl refl ge] "1.prems" mid have "let r = find_file_loop icmp files key left ?mid in r \<le> length files
        \<and> (\<forall>i < r. compare icmp (fm_largest (files ! i)) key < 0) \<and> (r < length files \<longrightarrow> \<not> compare icmp (fm_largest (files ! r)) key < 0)"
        by auto
      then show ?thesis using True ge by (subst find_file_loop.simps) (simp add: Let_def)
    qed
  qed
qed

text \<open>The files of a level above 0 are disjoint and in the order of their keys.\<close>

definition files_disjoint :: "comparator \<Rightarrow> filemeta list \<Rightarrow> bool" where
  "files_disjoint C fs \<longleftrightarrow> sorted_wrt (\<lambda>f g. ldb_ikc_compare C (fm_largest f) (fm_smallest g) < 0) fs"

text \<open>Internal keys with a known type and an admissible user key.\<close>

definition valid_ikey :: "(bytes \<Rightarrow> bool) \<Rightarrow> bytes \<Rightarrow> bool" where
  "valid_ikey ok k \<longleftrightarrow> ldb_pkey_import k \<noteq> None \<and> ok (ldb_extract_user_key k)"

definition file_range_ok :: "comparator \<Rightarrow> (bytes \<Rightarrow> bool) \<Rightarrow> filemeta \<Rightarrow> bool" where
  "file_range_ok C ok f \<longleftrightarrow> valid_ikey ok (fm_smallest f) \<and> valid_ikey ok (fm_largest f) \<and> ldb_ikc_compare C (fm_smallest f) (fm_largest f) \<le> 0"

lemma valid_ikeyD:
  assumes "valid_ikey ok k"
  shows "ikey_ok k" "ok (ldb_extract_user_key k)" "ikey_tag k \<le> pack_seqtype LDB_MAX_SEQUENCE LDB_VALTYPE_SEEK"
    "\<exists>x. ldb_pkey_import k = Some x \<and> k = ldb_pkey_write x \<and> ldb_extract_user_key k = user_key x \<and> seq_ok (sequence x)"
proof -
  obtain x where x: "ldb_pkey_import k = Some x" using assms by (auto simp: valid_ikey_def)
  note X = ldb_pkey_import_Some [OF x]
  then show "ikey_ok k" by (auto simp: ldb_pkey_size_def)
  show "ok (ldb_extract_user_key k)" using assms by (simp add: valid_ikey_def)
  show "\<exists>x. ldb_pkey_import k = Some x \<and> k = ldb_pkey_write x \<and> ldb_extract_user_key k = user_key x \<and> seq_ok (sequence x)"
    using x X ldb_extract_user_key_write [of x] by auto
  have "ikey_tag k = pack_seqtype (sequence x) (vtype x)" using X by (auto simp: ldb_pkey_write_def ldb_raw_write_def ldb_pkey_size_def)
  with X show "ikey_tag k \<le> pack_seqtype LDB_MAX_SEQUENCE LDB_VALTYPE_SEEK" by (auto intro: pack_seqtype_le_max)
qed

text \<open>A range of user keys, open at an end that is \<^term>\<open>None\<close>, and the files that touch it.\<close>

definition touches :: "comparator \<Rightarrow> bytes option \<Rightarrow> bytes option \<Rightarrow> filemeta \<Rightarrow> bool" where
  "touches C b e f \<longleftrightarrow> (\<forall>x. b = Some x \<longrightarrow> compare C (ldb_extract_user_key (fm_largest f)) x \<ge> 0)
     \<and> (\<forall>x. e = Some x \<longrightarrow> compare C (ldb_extract_user_key (fm_smallest f)) x \<le> 0)"

definition inside :: "comparator \<Rightarrow> bytes option \<Rightarrow> bytes option \<Rightarrow> filemeta \<Rightarrow> bool" where
  "inside C b e f \<longleftrightarrow> (\<forall>x. b = Some x \<longrightarrow> compare C (ldb_extract_user_key (fm_smallest f)) x \<ge> 0)
     \<and> (\<forall>x. e = Some x \<longrightarrow> compare C (ldb_extract_user_key (fm_largest f)) x \<le> 0)"

definition bound_ok :: "(bytes \<Rightarrow> bool) \<Rightarrow> bytes option \<Rightarrow> bool" where
  "bound_ok ok b \<longleftrightarrow> (\<forall>x. b = Some x \<longrightarrow> ok x)"

text \<open>A set of files closed under overlap, with all the files that touch a range.\<close>

definition overlap_closed :: "comparator \<Rightarrow> filemeta list \<Rightarrow> bytes option \<Rightarrow> bytes option \<Rightarrow> filemeta set \<Rightarrow> bool" where
  "overlap_closed C files b e T \<longleftrightarrow> (\<forall>f \<in> set files. touches C b e f \<longrightarrow> f \<in> T)
     \<and> (\<forall>f \<in> T. \<forall>g \<in> set files.
          touches C (Some (ldb_extract_user_key (fm_smallest f))) (Some (ldb_extract_user_key (fm_largest f))) g \<longrightarrow> g \<in> T)"

definition room :: "comparator \<Rightarrow> filemeta list \<Rightarrow> bytes option \<Rightarrow> bytes option \<Rightarrow> nat" where
  "room C files b e = length (filter (\<lambda>f. \<exists>x. b = Some x \<and> compare C (ldb_extract_user_key (fm_smallest f)) x < 0) files)
     + length (filter (\<lambda>f. \<exists>x. e = Some x \<and> compare C (ldb_extract_user_key (fm_largest f)) x > 0) files)"

context user_order
begin

lemma compare_ikc [simp]: "compare (ldb_ikc_init C) = ldb_ikc_compare C"
  by (simp add: ldb_ikc_init_def)

abbreviation "ikok k \<equiv> ikey_ok k \<and> ok (ldb_extract_user_key k)"

lemmas ikc_trans = ikc.cmp_less_trans [unfolded compare_ikc] ikc.cmp_le_less_trans [unfolded compare_ikc]
  ikc.cmp_less_le_trans [unfolded compare_ikc] ikc.cmp_le_trans [unfolded compare_ikc]

lemma files_largest_less:
  assumes "files_disjoint C fs" "\<forall>f \<in> set fs. file_range_ok C ok f" "i < j" "j < length fs"
  shows "ldb_ikc_compare C (fm_largest (fs ! i)) (fm_smallest (fs ! j)) < 0" "ldb_ikc_compare C (fm_largest (fs ! i)) (fm_largest (fs ! j)) < 0"
proof -
  show s: "ldb_ikc_compare C (fm_largest (fs ! i)) (fm_smallest (fs ! j)) < 0"
    using assms by (simp add: files_disjoint_def sorted_wrt_iff_nth_less)
  have "file_range_ok C ok (fs ! i)" "file_range_ok C ok (fs ! j)" using assms by auto
  with s show "ldb_ikc_compare C (fm_largest (fs ! i)) (fm_largest (fs ! j)) < 0"
    unfolding file_range_ok_def using ikc_trans(3) valid_ikeyD(1,2) by metis
qed

lemma find_file_spec:
  assumes "files_disjoint C fs" "\<forall>f \<in> set fs. file_range_ok C ok f" "ikok key"
  shows "find_file (ldb_ikc_init C) fs key \<le> length fs"
    and "i < find_file (ldb_ikc_init C) fs key \<Longrightarrow> ldb_ikc_compare C (fm_largest (fs ! i)) key < 0"
    and "find_file (ldb_ikc_init C) fs key < length fs \<Longrightarrow> \<not> ldb_ikc_compare C (fm_largest (fs ! find_file (ldb_ikc_init C) fs key)) key < 0"
proof -
  have mono: "ldb_ikc_compare C (fm_largest (fs ! i)) key < 0"
    if "i \<le> j" "j < length fs" "ldb_ikc_compare C (fm_largest (fs ! j)) key < 0" for i j
  proof (cases "i = j")
    case False
    then have "ldb_ikc_compare C (fm_largest (fs ! i)) (fm_largest (fs ! j)) < 0" using files_largest_less(2) [OF assms(1,2)] that by simp
    moreover have "file_range_ok C ok (fs ! i)" "file_range_ok C ok (fs ! j)" using assms(2) that by auto
    ultimately show ?thesis using that(3) assms(3) unfolding file_range_ok_def using ikc_trans(1) valid_ikeyD(1,2) by metis
  qed (use that in simp)
  note B = find_file_loop_bounds [of 0 "length fs" fs "ldb_ikc_init C" key, unfolded compare_ikc, folded find_file_def]
  show "find_file (ldb_ikc_init C) fs key \<le> length fs"
    and "i < find_file (ldb_ikc_init C) fs key \<Longrightarrow> ldb_ikc_compare C (fm_largest (fs ! i)) key < 0"
    and "find_file (ldb_ikc_init C) fs key < length fs \<Longrightarrow> \<not> ldb_ikc_compare C (fm_largest (fs ! find_file (ldb_ikc_init C) fs key)) key < 0"
    using B mono by (auto simp: Let_def)
qed

text \<open>Below the first possible internal key of a user key are exactly the keys of smaller user keys.\<close>

lemma below_first_version:
  assumes "valid_ikey ok x" "ok k"
  shows "ldb_ikc_compare C x (ldb_ikey_set k LDB_MAX_SEQUENCE LDB_VALTYPE_SEEK) < 0 \<longleftrightarrow> compare C (ldb_extract_user_key x) k < 0"
proof -
  note X = valid_ikeyD [OF assms(1)]
  have "ldb_extract_user_key (ldb_ikey_set k LDB_MAX_SEQUENCE LDB_VALTYPE_SEEK) = k"
    "ikey_tag (ldb_ikey_set k LDB_MAX_SEQUENCE LDB_VALTYPE_SEEK) = pack_seqtype LDB_MAX_SEQUENCE LDB_VALTYPE_SEEK"
    by (simp_all add: ldb_ikey_set_eq)
  with X(2,3) assms(2) ikc_less_iff [of x "ldb_ikey_set k LDB_MAX_SEQUENCE LDB_VALTYPE_SEEK"] show ?thesis by auto
qed

lemma ikey_set_ok: "ok k \<Longrightarrow> ikok (ldb_ikey_set k q t)"
  by (simp add: ldb_ikey_set_eq)

abbreviation "ustart f \<equiv> ldb_extract_user_key (fm_smallest f)"
abbreviation "ulimit f \<equiv> ldb_extract_user_key (fm_largest f)"

lemma range_okD:
  assumes "file_range_ok C ok f"
  shows "ok (ustart f)" "ok (ulimit f)" "compare C (ustart f) (ulimit f) \<le> 0" "ikok (fm_smallest f)" "ikok (fm_largest f)"
    "valid_ikey ok (fm_smallest f)" "valid_ikey ok (fm_largest f)"
proof -
  have v: "valid_ikey ok (fm_smallest f)" "valid_ikey ok (fm_largest f)" using assms by (auto simp: file_range_ok_def)
  then show "ok (ustart f)" "ok (ulimit f)" "ikok (fm_smallest f)" "ikok (fm_largest f)" "valid_ikey ok (fm_smallest f)" "valid_ikey ok (fm_largest f)"
    using valid_ikeyD by auto
  then show "compare C (ustart f) (ulimit f) \<le> 0" using assms ikc_le_iff [of "fm_smallest f" "fm_largest f"] by (auto simp: file_range_ok_def)
qed

lemma ikc_le_user: "ikok x \<Longrightarrow> ikok y \<Longrightarrow> ldb_ikc_compare C x y \<le> 0 \<Longrightarrow> compare C (ldb_extract_user_key x) (ldb_extract_user_key y) \<le> 0"
  using ikc_le_iff [of x y] by auto

lemma overlaps_loop_iff: "overlaps_loop C small large fs \<longleftrightarrow> (\<exists>f \<in> set fs. \<not> after_file C small f \<and> \<not> before_file C large f)"
  by (induction fs) auto

lemma overlaps_exact:
  assumes "disjoint \<Longrightarrow> files_disjoint C fs" "\<forall>f \<in> set fs. file_range_ok C ok f" "\<forall>k. small = Some k \<or> large = Some k \<longrightarrow> ok k"
  shows "some_file_overlaps_range C disjoint fs small large \<longleftrightarrow> (\<exists>f \<in> set fs. \<not> after_file C small f \<and> \<not> before_file C large f)"
proof (cases disjoint)
  case False
  then show ?thesis by (simp add: some_file_overlaps_range_def overlaps_loop_iff)
next
  case True
  note dj = assms(1) [OF True]
  define r where "r = (case small of None \<Rightarrow> 0 | Some k \<Rightarrow> find_file (ldb_ikc_init C) fs (ldb_ikey_set k LDB_MAX_SEQUENCE LDB_VALTYPE_SEEK))"
  have R: "r \<le> length fs" "\<And>i. i < r \<Longrightarrow> after_file C small (fs ! i)" "r < length fs \<Longrightarrow> \<not> after_file C small (fs ! r)"
  proof -
    show "r \<le> length fs" "\<And>i. i < r \<Longrightarrow> after_file C small (fs ! i)" "r < length fs \<Longrightarrow> \<not> after_file C small (fs ! r)"
    proof (atomize (full), cases small)
      case None
      then show "r \<le> length fs \<and> (\<forall>i<r. after_file C small (fs ! i)) \<and> (r < length fs \<longrightarrow> \<not> after_file C small (fs ! r))"
        by (simp add: r_def after_file_def)
    next
      case (Some k)
      then have k: "ok k" using assms(3) by simp
      note F = find_file_spec [OF dj assms(2) ikey_set_ok [OF k, of LDB_MAX_SEQUENCE LDB_VALTYPE_SEEK]]
      have "after_file C small f \<longleftrightarrow> ldb_ikc_compare C (fm_largest f) (ldb_ikey_set k LDB_MAX_SEQUENCE LDB_VALTYPE_SEEK) < 0"
        if "f \<in> set fs" for f
        using below_first_version [OF range_okD(7) k, of f] assms(2) that cmp_swap [of "ulimit f" k] range_okD(2) k
        by (auto simp: after_file_def Some ldb_ikey_user_key_def)
      moreover have "r = find_file (ldb_ikc_init C) fs (ldb_ikey_set k LDB_MAX_SEQUENCE LDB_VALTYPE_SEEK)" by (simp add: r_def Some)
      ultimately show "r \<le> length fs \<and> (\<forall>i<r. after_file C small (fs ! i)) \<and> (r < length fs \<longrightarrow> \<not> after_file C small (fs ! r))"
        using F by auto
    qed
  qed
  have later: "before_file C large (fs ! j)" if l: "r < length fs" "before_file C large (fs ! r)" "r \<le> j" "j < length fs" for j
  proof (cases "j = r")
    case False
    obtain k where k: "large = Some k" "ok k" "compare C k (ustart (fs ! r)) < 0"
      using l(2) assms(3) by (auto simp: before_file_def ldb_ikey_user_key_def split: option.splits)
    have f: "file_range_ok C ok (fs ! r)" "file_range_ok C ok (fs ! j)" using assms(2) l by auto
    have "compare C (ulimit (fs ! r)) (ustart (fs ! j)) \<le> 0"
      using files_largest_less(1) [OF dj assms(2), of r j] l False range_okD [OF f(1)] range_okD [OF f(2)] ikc_le_user by simp
    then have "compare C (ustart (fs ! r)) (ustart (fs ! j)) \<le> 0" using range_okD [OF f(1)] range_okD [OF f(2)] cmp_le_trans by blast
    with k range_okD [OF f(1)] range_okD [OF f(2)] cmp_less_le_trans have "compare C k (ustart (fs ! j)) < 0" by blast
    then show ?thesis by (simp add: before_file_def k(1) ldb_ikey_user_key_def)
  qed (use l in simp)
  have "some_file_overlaps_range C disjoint fs small large \<longleftrightarrow> r < length fs \<and> \<not> before_file C large (fs ! r)"
    using True by (simp add: some_file_overlaps_range_def Let_def r_def not_less [symmetric])
  moreover have "\<not> after_file C small (fs ! r) \<and> \<not> before_file C large (fs ! r) \<and> fs ! r \<in> set fs" if "r < length fs" "\<not> before_file C large (fs ! r)"
    using R(3) that by simp
  moreover have "r < length fs \<and> \<not> before_file C large (fs ! r)" if f: "\<not> after_file C small f" "\<not> before_file C large f" "f \<in> set fs" for f
  proof -
    obtain j where j: "j < length fs" "f = fs ! j" using f(3) by (metis in_set_conv_nth)
    then have "r \<le> j" using R(2) f(1) not_le by blast
    with later [of j] f(2) j show ?thesis by auto
  qed
  ultimately show ?thesis by blast
qed

section \<open>The files that overlap a range\<close>

lemma filter_length_less:
  assumes "\<And>x. x \<in> set xs \<Longrightarrow> P x \<Longrightarrow> Q x" "y \<in> set xs" "Q y" "\<not> P y"
  shows "length (filter P xs) < length (filter Q xs)"
proof -
  have "filter P xs = filter P (filter Q xs)" using assms(1) by (auto intro: filter_cong)
  moreover have "length (filter P (filter Q xs)) < length (filter Q xs)" using assms(2-4) by (intro length_filter_less [of y]) auto
  ultimately show ?thesis by simp
qed

lemma room_begin:
  assumes "\<forall>f \<in> set files. file_range_ok C ok f" "f \<in> set files" "ok x" "compare C (ustart f) x < 0"
  shows "room C files (Some (ustart f)) e < room C files (Some x) e"
proof -
  have f: "ok (ustart f)" using assms range_okD by auto
  have "length (filter (\<lambda>g. compare C (ustart g) (ustart f) < 0) files) < length (filter (\<lambda>g. compare C (ustart g) x < 0) files)"
  proof (rule filter_length_less [of _ _ _ f])
    fix g assume "g \<in> set files" "compare C (ustart g) (ustart f) < 0"
    with assms f range_okD(1) show "compare C (ustart g) x < 0" using cmp_less_trans by blast
  qed (use assms f cmp_refl in auto)
  then show ?thesis by (simp add: room_def)
qed

lemma room_end:
  assumes "\<forall>f \<in> set files. file_range_ok C ok f" "f \<in> set files" "ok x" "compare C (ulimit f) x > 0"
  shows "room C files b (Some (ulimit f)) < room C files b (Some x)"
proof -
  have f: "ok (ulimit f)" using assms range_okD by auto
  have "length (filter (\<lambda>g. compare C (ulimit g) (ulimit f) > 0) files) < length (filter (\<lambda>g. compare C (ulimit g) x > 0) files)"
  proof (rule filter_length_less [of _ _ _ f])
    fix g assume g: "g \<in> set files" "compare C (ulimit g) (ulimit f) > 0"
    then have "ok (ulimit g)" using assms(1) range_okD(2) by blast
    with g assms f cmp_swap [of x "ulimit f"] cmp_swap [of "ulimit f" "ulimit g"] cmp_swap [of x "ulimit g"] show "compare C (ulimit g) x > 0"
      using cmp_less_trans [of x "ulimit f" "ulimit g"] by auto
  qed (use assms f cmp_refl in auto)
  then show ?thesis by (simp add: room_def)
qed

text \<open>Widening the range by a file that touches C it adds only files that touch one of the two.\<close>

lemma widen_begin:
  assumes "overlap_closed C files (Some x) e T" "\<forall>f \<in> set files. file_range_ok C ok f" "f \<in> set files" "ok x" "bound_ok ok e"
    "touches C (Some x) e f" "compare C (ustart f) x < 0"
  shows "overlap_closed C files (Some (ustart f)) e T"
proof -
  have f: "f \<in> T" "ok (ustart f)" "ok (ulimit f)" using assms(1-3,6) range_okD by (auto simp: overlap_closed_def)
  have "g \<in> T" if g: "g \<in> set files" "touches C (Some (ustart f)) e g" for g
  proof (cases "compare C (ulimit g) x \<ge> 0")
    case True
    with g have "touches C (Some x) e g" by (simp add: touches_def)
    with assms(1) g(1) show ?thesis by (simp add: overlap_closed_def)
  next
    case False
    have go: "ok (ustart g)" "ok (ulimit g)" "compare C (ustart g) (ulimit g) \<le> 0" using assms(2) g(1) range_okD by auto
    have "compare C x (ulimit f) \<le> 0" using assms(6) cmp_ge_swap [OF f(3) assms(4)] by (simp add: touches_def)
    with False go f assms(4) have "compare C (ustart g) (ulimit f) \<le> 0"
      using cmp_le_trans [of "ustart g" "ulimit g" x] cmp_le_trans [of "ustart g" x "ulimit f"] by auto
    with g(2) have "touches C (Some (ustart f)) (Some (ulimit f)) g" by (simp add: touches_def)
    with assms(1) g(1) f(1) show ?thesis by (auto simp: overlap_closed_def)
  qed
  with assms(1) show ?thesis by (simp add: overlap_closed_def)
qed

lemma widen_end:
  assumes "overlap_closed C files b (Some x) T" "\<forall>f \<in> set files. file_range_ok C ok f" "f \<in> set files" "ok x" "bound_ok ok b"
    "touches C b (Some x) f" "compare C (ulimit f) x > 0"
  shows "overlap_closed C files b (Some (ulimit f)) T"
proof -
  have f: "f \<in> T" "ok (ustart f)" "ok (ulimit f)" using assms(1-3,6) range_okD by (auto simp: overlap_closed_def)
  have "g \<in> T" if g: "g \<in> set files" "touches C b (Some (ulimit f)) g" for g
  proof (cases "compare C (ustart g) x \<le> 0")
    case True
    with g have "touches C b (Some x) g" by (simp add: touches_def)
    with assms(1) g(1) show ?thesis by (simp add: overlap_closed_def)
  next
    case False
    have go: "ok (ustart g)" "ok (ulimit g)" "compare C (ustart g) (ulimit g) \<le> 0" using assms(2) g(1) range_okD by auto
    have "compare C (ustart f) x \<le> 0" "compare C x (ustart g) \<le> 0"
      using assms(6) False cmp_swap [OF assms(4) go(1)] by (auto simp: touches_def)
    with go f assms(4) have "compare C (ustart f) (ulimit g) \<le> 0"
      using cmp_le_trans [of "ustart f" x "ustart g"] cmp_le_trans [of "ustart f" "ustart g" "ulimit g"] by auto
    then have "compare C (ulimit g) (ustart f) \<ge> 0" using cmp_ge_swap [OF go(2) f(2)] by simp
    with g(2) have "touches C (Some (ustart f)) (Some (ulimit f)) g" by (simp add: touches_def)
    with assms(1) g(1) f(1) show ?thesis by (auto simp: overlap_closed_def)
  qed
  with assms(1) show ?thesis by (simp add: overlap_closed_def)
qed

lemma touches_widen:
  assumes "touches C b e f" "file_range_ok C ok f" "bound_ok ok b" "bound_ok ok e" "bound_ok ok b'" "bound_ok ok e'"
    "\<forall>x'. b' = Some x' \<longrightarrow> (\<exists>x. b = Some x \<and> compare C x' x \<le> 0)" "\<forall>x'. e' = Some x' \<longrightarrow> (\<exists>x. e = Some x \<and> compare C x x' \<le> 0)"
  shows "touches C b' e' f"
proof -
  note F = range_okD(1,2) [OF assms(2)]
  have "compare C (ulimit f) x' \<ge> 0" if b': "b' = Some x'" for x'
  proof -
    obtain x where x: "b = Some x" "compare C x' x \<le> 0" using assms(7) b' by auto
    have "ok x" "ok x'" using assms(3,5) x b' by (auto simp: bound_ok_def)
    moreover have "compare C x (ulimit f) \<le> 0" using assms(1) x(1) cmp_ge_swap [OF F(2) calculation(1)] by (simp add: touches_def)
    ultimately show ?thesis using x(2) F cmp_le_trans [of x' x "ulimit f"] cmp_ge_swap [of "ulimit f" x'] by auto
  qed
  moreover have "compare C (ustart f) x' \<le> 0" if e': "e' = Some x'" for x'
  proof -
    obtain x where x: "e = Some x" "compare C x x' \<le> 0" using assms(8) e' by auto
    have "ok x" "ok x'" using assms(4,6) x e' by (auto simp: bound_ok_def)
    moreover have "compare C (ustart f) x \<le> 0" using assms(1) x(1) by (simp add: touches_def)
    ultimately show ?thesis using x(2) F cmp_le_trans [of "ustart f" x x'] by auto
  qed
  ultimately show ?thesis by (simp add: touches_def)
qed

definition overlap_result :: "filemeta list \<Rightarrow> bool \<Rightarrow> bytes option \<Rightarrow> bytes option \<Rightarrow> filemeta list \<Rightarrow> bool" where
  "overlap_result files level0 b e r \<longleftrightarrow> (\<exists>b' e'. r = filter (touches C b' e') files \<and> bound_ok ok b' \<and> bound_ok ok e'
     \<and> (\<not> level0 \<longrightarrow> b' = b \<and> e' = e) \<and> (level0 \<longrightarrow> (\<forall>f \<in> set r. inside C b' e' f))
     \<and> (\<forall>f \<in> set files. touches C b e f \<longrightarrow> touches C b' e' f) \<and> (\<forall>T. overlap_closed C files b e T \<longrightarrow> overlap_closed C files b' e' T))"

lemma overlap_result_widen:
  assumes "overlap_result files level0 b' e' r" "level0" "\<forall>f \<in> set files. touches C b e f \<longrightarrow> touches C b' e' f"
    "\<forall>T. overlap_closed C files b e T \<longrightarrow> overlap_closed C files b' e' T"
  shows "overlap_result files level0 b e r"
  using assms unfolding overlap_result_def by (metis (no_types, lifting))

lemma filter_take_Suc: "i < length xs \<Longrightarrow> filter P (take (Suc i) xs) = filter P (take i xs) @ (if P (xs ! i) then [xs ! i] else [])"
  by (simp add: take_Suc_conv_app_nth)

lemma overlapping_step:
  assumes "i < length files"
  defines "f \<equiv> files ! i"
  shows "overlapping_loop C files level0 i b e inputs =
    (if \<not> touches C b e f then overlapping_loop C files level0 (i + 1) b e inputs
     else if level0 \<and> (\<exists>x. b = Some x \<and> compare C (ustart f) x < 0) then overlapping_loop C files level0 0 (Some (ustart f)) e []
     else if level0 \<and> (\<exists>x. e = Some x \<and> compare C (ulimit f) x > 0) then overlapping_loop C files level0 0 b (Some (ulimit f)) []
     else overlapping_loop C files level0 (i + 1) b e (inputs @ [f]))"
  using assms(1) unfolding f_def
  by (subst overlapping_loop.simps) (cases b; cases e; auto simp: touches_def Let_def ldb_ikey_user_key_def)

lemma room_measure: "a < b \<Longrightarrow> a * Suc n + n < b * Suc n" for a b n :: nat
proof -
  assume "a < b"
  then have "Suc a * Suc n \<le> b * Suc n" by (intro mult_le_mono1) simp
  then show ?thesis by simp
qed

lemma overlapping_loop_spec:
  assumes files: "\<forall>f \<in> set files. file_range_ok C ok f" and b: "bound_ok ok b" "bound_ok ok e"
    and i: "i \<le> length files" "level0 \<longrightarrow> (\<forall>f \<in> set (filter (touches C b e) (take i files)). inside C b e f)"
  shows "\<exists>r. overlapping_loop C files level0 i b e (filter (touches C b e) (take i files)) = Some r \<and> overlap_result files level0 b e r"
  using b i
proof (induction "room C files b e * Suc (length files) + (length files - i)" arbitrary: b e i rule: less_induct)
  case less
  let ?in = "filter (touches C b e) (take i files)"
  show ?case
  proof (cases "i < length files")
    case False
    have "overlap_result files level0 b e (filter (touches C b e) files)"
      unfolding overlap_result_def using less.prems False by (intro exI [of _ b] exI [of _ e]) auto
    with False less.prems(3) show ?thesis by (subst overlapping_loop.simps) simp
  next
    case True
    define f where "f = files ! i"
    have f: "f \<in> set files" "file_range_ok C ok f" using True files by (auto simp: f_def)
    note F = range_okD [OF f(2)]
    note step = overlapping_step [OF True, of level0 b e ?in, folded f_def]
    note take_f = filter_take_Suc [OF True, of "touches C b e", folded f_def]
    have next_i: "\<exists>r. overlapping_loop C files level0 (i + 1) b e (filter (touches C b e) (take (i + 1) files)) = Some r \<and> overlap_result files level0 b e r"
      if "level0 \<longrightarrow> touches C b e f \<longrightarrow> inside C b e f"
    proof (rule less.hyps)
      show "level0 \<longrightarrow> (\<forall>g \<in> set (filter (touches C b e) (take (i + 1) files)). inside C b e g)"
        using less.prems(4) take_f that by (auto split: if_splits)
    qed (use less.prems True in auto)
    have restart: "\<exists>r. overlapping_loop C files level0 0 b' e' [] = Some r \<and> overlap_result files level0 b e r"
      if R: "level0" "room C files b' e' < room C files b e" "bound_ok ok b'" "bound_ok ok e'" "\<forall>T. overlap_closed C files b e T \<longrightarrow> overlap_closed C files b' e' T"
        "\<forall>x'. b' = Some x' \<longrightarrow> (\<exists>x. b = Some x \<and> compare C x' x \<le> 0)" "\<forall>x'. e' = Some x' \<longrightarrow> (\<exists>x. e = Some x \<and> compare C x x' \<le> 0)" for b' e'
    proof -
      have "\<exists>r. overlapping_loop C files level0 0 b' e' (filter (touches C b' e') (take 0 files)) = Some r \<and> overlap_result files level0 b' e' r"
        using room_measure [OF R(2), of "length files"] R by (intro less.hyps) auto
      moreover have "\<forall>f \<in> set files. touches C b e f \<longrightarrow> touches C b' e' f"
        using touches_widen files less.prems(1,2) R by blast
      ultimately show ?thesis using overlap_result_widen [OF _ R(1)] R(5) by auto
    qed
    consider (miss) "\<not> touches C b e f" | (low) x where "touches C b e f" "level0" "b = Some x" "compare C (ustart f) x < 0"
      | (limit) x where "touches C b e f" "level0" "e = Some x" "compare C (ulimit f) x > 0" "\<nexists>x. b = Some x \<and> compare C (ustart f) x < 0"
      | (keep) "touches C b e f" "level0 \<longrightarrow> inside C b e f"
      unfolding inside_def by (meson not_le)
    then show ?thesis
    proof cases
      case miss
      with next_i take_f show ?thesis by (simp add: step)
    next
      case (low x)
      have ox: "ok x" using less.prems(1) low by (simp add: bound_ok_def)
      have r: "\<exists>r. overlapping_loop C files level0 0 (Some (ustart f)) e [] = Some r \<and> overlap_result files level0 b e r"
      proof (rule restart)
        show "room C files (Some (ustart f)) e < room C files b e" unfolding low(3) using room_begin [OF files f(1) ox low(4)] .
        show "\<forall>T. overlap_closed C files b e T \<longrightarrow> overlap_closed C files (Some (ustart f)) e T"
          using widen_begin [OF _ files f(1) ox less.prems(2) _ low(4)] low(1,3) by simp
        show "\<forall>x'. e = Some x' \<longrightarrow> (\<exists>x. e = Some x \<and> compare C x x' \<le> 0)" using less.prems(2) cmp_refl by (auto simp: bound_ok_def)
      qed (use low F less.prems(2) in \<open>auto simp: bound_ok_def\<close>)
      have "overlapping_loop C files level0 i b e ?in = overlapping_loop C files level0 0 (Some (ustart f)) e []"
        using step low by auto
      with r show ?thesis by simp
    next
      case (limit x)
      have ox: "ok x" using less.prems(2) limit by (simp add: bound_ok_def)
      have r: "\<exists>r. overlapping_loop C files level0 0 b (Some (ulimit f)) [] = Some r \<and> overlap_result files level0 b e r"
      proof (rule restart)
        show "room C files b (Some (ulimit f)) < room C files b e" unfolding limit(3) using room_end [OF files f(1) ox limit(4)] .
        show "\<forall>T. overlap_closed C files b e T \<longrightarrow> overlap_closed C files b (Some (ulimit f)) T"
          using widen_end [OF _ files f(1) ox less.prems(1) _ limit(4)] limit(1,3) by simp
        show "\<forall>x'. b = Some x' \<longrightarrow> (\<exists>x. b = Some x \<and> compare C x' x \<le> 0)" using less.prems(1) cmp_refl by (auto simp: bound_ok_def)
        show "\<forall>x'. Some (ulimit f) = Some x' \<longrightarrow> (\<exists>x. e = Some x \<and> compare C x x' \<le> 0)"
          using limit(3,4) ox F(2) cmp_swap [of x "ulimit f"] by auto
      qed (use limit F less.prems(1) in \<open>auto simp: bound_ok_def\<close>)
      have "overlapping_loop C files level0 i b e ?in = overlapping_loop C files level0 0 b (Some (ulimit f)) []"
        using step limit by auto
      with r show ?thesis by simp
    next
      case keep
      then have "overlapping_loop C files level0 i b e ?in = overlapping_loop C files level0 (i + 1) b e (?in @ [f])"
        using step by (auto simp: inside_def)
      with next_i keep take_f show ?thesis by simp
    qed
  qed
qed

text \<open>What the search returns, without the range it ended with.\<close>

lemma overlapping_inputs_spec:
  assumes files: "\<forall>f \<in> set files. file_range_ok C ok f" and b: "bound_ok ok b" "bound_ok ok e"
  shows "\<exists>r. overlapping_loop C files level0 0 b e [] = Some r \<and> subseq r files
    \<and> (\<not> level0 \<longrightarrow> r = filter (touches C b e) files)
    \<and> (level0 \<longrightarrow> overlap_closed C files b e (set r) \<and> (\<forall>T. overlap_closed C files b e T \<longrightarrow> set r \<subseteq> T))"
proof -
  obtain r where r: "overlapping_loop C files level0 0 b e [] = Some r" "overlap_result files level0 b e r"
    using overlapping_loop_spec [OF files b, of 0 level0] by auto
  then obtain b' e' where R: "r = filter (touches C b' e') files" "bound_ok ok b'" "bound_ok ok e'" "\<not> level0 \<longrightarrow> b' = b \<and> e' = e"
    "level0 \<longrightarrow> (\<forall>f \<in> set r. inside C b' e' f)" "\<forall>f \<in> set files. touches C b e f \<longrightarrow> touches C b' e' f"
    "\<forall>T. overlap_closed C files b e T \<longrightarrow> overlap_closed C files b' e' T" unfolding overlap_result_def by (elim exE conjE) (rule that; assumption)
  have "overlap_closed C files b e (set r)" if level0
  proof -
    have "g \<in> set r" if g: "f \<in> set r" "g \<in> set files" "touches C (Some (ustart f)) (Some (ulimit f)) g" for f g
    proof -
      have f: "inside C b' e' f" "file_range_ok C ok f" using R(1,5) \<open>level0\<close> g(1) files by auto
      note F = range_okD(1,2) [OF f(2)]
      have "touches C b' e' g"
      proof (rule touches_widen [OF g(3)])
        show "\<forall>x'. b' = Some x' \<longrightarrow> (\<exists>x. Some (ustart f) = Some x \<and> compare C x' x \<le> 0)"
          using f(1) F(1) R(2) cmp_ge_swap by (auto simp: inside_def bound_ok_def)
        show "\<forall>x'. e' = Some x' \<longrightarrow> (\<exists>x. Some (ulimit f) = Some x \<and> compare C x x' \<le> 0)"
          using f(1) by (auto simp: inside_def)
      qed (use files g(2) F R(2,3) in \<open>auto simp: bound_ok_def\<close>)
      with R(1) g(2) show ?thesis by simp
    qed
    with R(1,6) show ?thesis by (auto simp: overlap_closed_def)
  qed
  moreover have "set r \<subseteq> T" if "overlap_closed C files b e T" for T
  proof -
    have "overlap_closed C files b' e' T" using R(7) that by blast
    with R(1) show ?thesis by (auto simp: overlap_closed_def)
  qed
  ultimately show ?thesis using r(1) R(1,4) by auto
qed

end

section \<open>Reading finds the newest visible entry\<close>

text \<open>The entries of a user key that a snapshot sees, and the first of them in the order of internal keys.\<close>

definition visible_entries :: "comparator \<Rightarrow> bytes \<Rightarrow> u64 \<Rightarrow> kv set \<Rightarrow> kv set" where
  "visible_entries C k s E = {e \<in> E. compare C (user_key (pk e)) k = 0 \<and> sequence (pk e) \<le> s}"

definition newest_entry :: "comparator \<Rightarrow> bytes \<Rightarrow> u64 \<Rightarrow> kv set \<Rightarrow> kv \<Rightarrow> bool" where
  "newest_entry C k s E e \<longleftrightarrow> e \<in> visible_entries C k s E \<and> (\<forall>e' \<in> visible_entries C k s E. ldb_ikc_compare C (fst e) (fst e') \<le> 0)"

definition newer_than :: "comparator \<Rightarrow> kv set \<Rightarrow> kv set \<Rightarrow> bool" where
  "newer_than C E E' \<longleftrightarrow>
     (\<forall>e \<in> E. \<forall>e' \<in> E'. compare C (user_key (pk e)) (user_key (pk e')) = 0 \<longrightarrow> sequence (pk e') < sequence (pk e))"

text \<open>The file of a table with the entries \<^term>\<open>es\<close>; the entries of some files, whose tables are given by their number.\<close>

definition file_holds :: "comparator \<Rightarrow> (bytes \<Rightarrow> bool) \<Rightarrow> filemeta \<Rightarrow> kv list \<Rightarrow> bool" where
  "file_holds C ok f es \<longleftrightarrow> es \<noteq> [] \<and> user_order.internal_entries C ok es \<and> fm_smallest f = fst (hd es) \<and> fm_largest f = fst (last es)"

definition files_entries :: "(u64 \<Rightarrow> kv list) \<Rightarrow> filemeta list \<Rightarrow> kv set" where
  "files_entries tbl fs = (\<Union>f \<in> set fs. set (tbl (fm_number f)))"

definition version_entries :: "(u64 \<Rightarrow> kv list) \<Rightarrow> version \<Rightarrow> kv set" where
  "version_entries tbl ver = files_entries tbl (concat (ver_files ver))"

text \<open>The files of a level as one list of entries.\<close>

definition level_list :: "(u64 \<Rightarrow> kv list) \<Rightarrow> filemeta list \<Rightarrow> kv list" where
  "level_list tbl fs = concat (map (\<lambda>f. tbl (fm_number f)) fs)"

lemma set_level_list: "set (level_list tbl fs) = files_entries tbl fs"
  by (auto simp: level_list_def files_entries_def)

text \<open>
  The invariant of versions: levels above 0 are disjoint and sorted, and for every user key the entries of a level are newer than those of the
  levels below it, as are those of a file of level 0 with a larger number. A level has fewer than \<^term>\<open>(2 :: nat) ^ 30\<close> files, so that the 32-bit indices
  of the binary search and of the sort do not wrap.
\<close>

definition version_ok :: "comparator \<Rightarrow> (bytes \<Rightarrow> bool) \<Rightarrow> (u64 \<Rightarrow> kv list) \<Rightarrow> version \<Rightarrow> bool" where
  "version_ok C ok tbl ver \<longleftrightarrow> length (ver_files ver) = LDB_NUM_LEVELS \<and> (\<forall>fs \<in> set (ver_files ver). length fs < 2 ^ 30)
     \<and> (\<forall>f \<in> set (concat (ver_files ver)). file_holds C ok f (tbl (fm_number f)))
     \<and> (\<forall>l < LDB_NUM_LEVELS. 0 < l \<longrightarrow> files_disjoint C (ver_files ver ! l))
     \<and> distinct (map fm_number (ver_files ver ! 0))
     \<and> (\<forall>f \<in> set (ver_files ver ! 0). \<forall>g \<in> set (ver_files ver ! 0). fm_number g < fm_number f \<longrightarrow>
          newer_than C (set (tbl (fm_number f))) (set (tbl (fm_number g))))
     \<and> (\<forall>j < LDB_NUM_LEVELS. \<forall>i < j. newer_than C (files_entries tbl (ver_files ver ! i)) (files_entries tbl (ver_files ver ! j)))"

text \<open>The answer of a table to a lookup.\<close>

definition table_answers :: "comparator \<Rightarrow> kv list \<Rightarrow> bytes \<Rightarrow> kv option \<Rightarrow> bool" where
  "table_answers C es t r \<longleftrightarrow> (let i = first_ge (ldb_ikc_compare C) es t in
     case r of
       None \<Rightarrow> i < length es \<longrightarrow> compare C (ldb_extract_user_key (fst (es ! i))) (ldb_extract_user_key t) \<noteq> 0
     | Some e \<Rightarrow> i < length es \<and> e = es ! i)"

text \<open>
  What reads rely on: the table cache, in a state that satisfies \<^term>\<open>inv\<close>, finds the table with a file number and size and answers from
  its entries.
\<close>

locale table_reader = user_order C ok for C :: comparator and ok :: "bytes \<Rightarrow> bool" +
  fixes tget :: "'c tget" and inv :: "'c \<Rightarrow> bool" and stored :: "u64 \<Rightarrow> u64 \<Rightarrow> kv list \<Rightarrow> bool"
  assumes get_law: "inv c \<Longrightarrow> stored num sz es \<Longrightarrow> ikey_ok t \<Longrightarrow> ok (ldb_extract_user_key t) \<Longrightarrow>
    \<exists>r c'. tget c num sz t = Some (LDB_OK, r, c') \<and> inv c' \<and> table_answers C es t r"

context user_order
begin

lemma newest_union:
  assumes "newest_entry C k s E e" "newer_than C E E'" "ok k" "\<forall>e \<in> E \<union> E'. valid_ikey ok (fst e)"
  shows "newest_entry C k s (E \<union> E') e"
proof -
  have e: "e \<in> E" "compare C (user_key (pk e)) k = 0" using assms(1) by (auto simp: newest_entry_def visible_entries_def)
  have "ldb_ikc_compare C (fst e) (fst e') \<le> 0" if e': "e' \<in> E'" "compare C (user_key (pk e')) k = 0" for e'
  proof -
    obtain x x' where x: "ldb_pkey_import (fst e) = Some x" "fst e = ldb_pkey_write x" "ldb_extract_user_key (fst e) = user_key x" "seq_ok (sequence x)"
      and x': "ldb_pkey_import (fst e') = Some x'" "fst e' = ldb_pkey_write x'" "ldb_extract_user_key (fst e') = user_key x'" "seq_ok (sequence x')"
      using valid_ikeyD(4) assms(4) e(1) e'(1) by (metis Un_iff)
    have pk: "pk e = x" "pk e' = x'" using x(1) x'(1) by (simp_all add: pk_def)
    have ok: "ok (user_key x)" "ok (user_key x')" using valid_ikeyD(2) assms(4) e(1) e'(1) x(3) x'(3) by (metis Un_iff)+
    have eq: "compare C (user_key x) (user_key x') = 0"
      using e(2) e'(2) pk ok assms(3) cmp_eq_trans [of "user_key x" k "user_key x'"] cmp_eq_swap [of k "user_key x'"] by simp
    then have "sequence x' < sequence x" using assms(2) e(1) e'(1) pk by (auto simp: newer_than_def)
    moreover have "ikey_tag (fst e) = pack_seqtype (sequence x) (vtype x)" "ikey_tag (fst e') = pack_seqtype (sequence x') (vtype x')"
      unfolding x(2) x'(2) by (simp_all add: ldb_pkey_write_def ldb_raw_write_def ldb_pkey_size_def)
    ultimately have "ikey_tag (fst e') < ikey_tag (fst e)" using pack_seqtype_less_iff [of "sequence x'" "sequence x"] x(4) x'(4) by simp
    then show ?thesis using ikc_le_iff [of "fst e" "fst e'"] ok x(3) x'(3) eq by simp
  qed
  with assms(1) show ?thesis by (auto simp: newest_entry_def visible_entries_def)
qed

lemma newest_later: "visible_entries C k s E = {} \<Longrightarrow> newest_entry C k s E' e \<Longrightarrow> newest_entry C k s (E \<union> E') e"
  by (auto simp: newest_entry_def visible_entries_def)

lemma entry_valid: "internal_entries es \<Longrightarrow> e \<in> set es \<Longrightarrow> valid_ikey ok (fst e) \<and> ldb_extract_user_key (fst e) = user_key (pk e) \<and> ok (user_key (pk e))"
  using entry_key [of es] by (metis in_set_conv_nth option.distinct(1) valid_ikey_def)

text \<open>Among the entries of a user key, a snapshot sees those that are not below its lookup key.\<close>

lemma seen_not_below:
  assumes "valid_ikey ok (fst e)" "ok k" "seq_ok s" "compare C (user_key (pk e)) k = 0"
  shows "sequence (pk e) \<le> s \<longleftrightarrow> \<not> ldb_ikc_compare C (fst e) (ldb_ikey_set k s LDB_VALTYPE_SEEK) < 0"
proof -
  obtain x where x: "ldb_pkey_import (fst e) = Some x" "fst e = ldb_pkey_write x" "ldb_extract_user_key (fst e) = user_key x" "seq_ok (sequence x)"
    using valid_ikeyD(4) [OF assms(1)] by blast
  have "ikey_tag (fst e) = pack_seqtype (sequence x) (vtype x)" unfolding x(2) by (simp add: ldb_pkey_write_def ldb_raw_write_def ldb_pkey_size_def)
  moreover have "ldb_extract_user_key (ldb_ikey_set k s LDB_VALTYPE_SEEK) = k" "ikey_tag (ldb_ikey_set k s LDB_VALTYPE_SEEK) = pack_seqtype s LDB_VALTYPE_SEEK"
    by (simp_all add: ldb_ikey_set_eq)
  moreover have "pk e = x" using x(1) by (simp add: pk_def)
  ultimately show ?thesis
    using ikc_less_iff [of "fst e" "ldb_ikey_set k s LDB_VALTYPE_SEEK"] valid_ikeyD(2) [OF assms(1)] assms(2,4) x(3) pack_le_seek [OF x(4) assms(3)]
    by (auto simp: not_less)
qed

lemma file_holds_range: "file_holds C ok f es \<Longrightarrow> file_range_ok C ok f"
proof -
  assume h: "file_holds C ok f es"
  then have es: "internal_entries es" "es \<noteq> []" "fm_smallest f = fst (es ! 0)" "fm_largest f = fst (es ! (length es - 1))"
    by (auto simp: file_holds_def hd_conv_nth last_conv_nth)
  have "ldb_ikc_compare C (fst (es ! 0)) (fst (es ! (length es - 1))) \<le> 0"
  proof (cases "length es = 1")
    case True
    have "ikok (fst (es ! 0))" using entry_valid [OF es(1), of "es ! 0"] es(2) valid_ikeyD(1,2) by (simp add: valid_ikey_def)
    then show ?thesis using True ikc.cmp_refl by simp
  next
    case False
    then have "0 < length es - 1" using es(2) by (cases es) auto
    then show ?thesis using es(1) by (auto simp: internal_entries_def sorted_wrt_iff_nth_less intro!: less_imp_le)
  qed
  with entry_valid [OF es(1)] es show ?thesis by (simp add: file_range_ok_def)
qed

lemma file_entry_range:
  assumes "file_holds C ok f es" "e \<in> set es"
  shows "ldb_ikc_compare C (fst e) (fm_largest f) \<le> 0" "ldb_ikc_compare C (fm_smallest f) (fst e) \<le> 0" "ikok (fst e)"
proof -
  have es: "internal_entries es" "fm_largest f = fst (es ! (length es - 1))" "fm_smallest f = fst (es ! 0)"
    using assms(1) by (auto simp: file_holds_def hd_conv_nth last_conv_nth)
  show ok: "ikok (fst e)" using entry_valid [OF es(1) assms(2)] valid_ikeyD(1,2) by blast
  obtain i where i: "i < length es" "e = es ! i" using assms(2) by (metis in_set_conv_nth)
  show "ldb_ikc_compare C (fst e) (fm_largest f) \<le> 0"
    using es(1,2) i ok ikc.cmp_refl by (cases "i = length es - 1") (auto simp: internal_entries_def sorted_wrt_iff_nth_less intro!: less_imp_le)
  show "ldb_ikc_compare C (fm_smallest f) (fst e) \<le> 0"
    using es(1,3) i ok ikc.cmp_refl by (cases "i = 0") (auto simp: internal_entries_def sorted_wrt_iff_nth_less intro!: less_imp_le)
qed

lemma no_match:
  assumes "internal_entries es" "ok k" "seq_ok s"
  defines "t \<equiv> ldb_ikey_set k s LDB_VALTYPE_SEEK"
  assumes "first_ge (ldb_ikc_compare C) es t < length es \<Longrightarrow> compare C (uk es (first_ge (ldb_ikc_compare C) es t)) k \<noteq> 0"
  shows "visible_entries C k s (set es) = {}"
proof (rule ccontr)
  let ?i = "first_ge (ldb_ikc_compare C) es t"
  assume "visible_entries C k s (set es) \<noteq> {}"
  then obtain j where j: "j < length es" "compare C (uk es j) k = 0" "sequence (pk (es ! j)) \<le> s" by (auto simp: visible_entries_def in_set_conv_nth)
  then have "\<not> ldb_ikc_compare C (fst (es ! j)) t < 0" using seen_not_below [OF _ assms(2,3)] entry_valid [OF assms(1)] by (simp add: t_def)
  then have "?i \<le> j" using first_ge_below [of j "ldb_ikc_compare C" es t] by (meson not_less)
  then have i: "?i \<le> j" "?i < length es" using j(1) by simp_all
  note E = entry_key [OF assms(1) i(2)]
  have "\<not> compare C (uk es ?i) k < 0"
    using first_ge_at [OF i(2)] ikc_less_iff [of "fst (es ! ?i)" t] E assms(2) by (auto simp: t_def ldb_ikey_set_eq)
  moreover have "compare C (uk es ?i) k \<le> 0"
    using uk_mono [OF assms(1) i(1) j(1)] j(2) entry_key(4) [OF assms(1)] i(2) j(1) assms(2) cmp_le_trans [of "uk es ?i" "uk es j" k] by simp
  ultimately show False using assms(5) [OF i(2)] by simp
qed

lemma match_newest:
  assumes "internal_entries es" "ok k" "seq_ok s"
  defines "t \<equiv> ldb_ikey_set k s LDB_VALTYPE_SEEK"
  assumes "first_ge (ldb_ikc_compare C) es t < length es" "compare C (uk es (first_ge (ldb_ikc_compare C) es t)) k = 0"
  shows "newest_entry C k s (set es) (es ! first_ge (ldb_ikc_compare C) es t)"
proof -
  let ?i = "first_ge (ldb_ikc_compare C) es t"
  have "sequence (pk (es ! ?i)) \<le> s"
    using seen_not_below [OF _ assms(2,3), of "es ! ?i"] entry_valid [OF assms(1), of "es ! ?i"] first_ge_at [OF assms(5)] assms(5,6) by (simp add: t_def)
  moreover have "ldb_ikc_compare C (fst (es ! ?i)) (fst e) \<le> 0" if e: "e \<in> visible_entries C k s (set es)" for e
  proof -
    obtain j where j: "j < length es" "e = es ! j" "compare C (uk es j) k = 0" "sequence (pk (es ! j)) \<le> s"
      using e by (auto simp: visible_entries_def in_set_conv_nth)
    then have "\<not> ldb_ikc_compare C (fst (es ! j)) t < 0" using seen_not_below [OF _ assms(2,3)] entry_valid [OF assms(1)] by (simp add: t_def)
    then have "?i \<le> j" using first_ge_below [of j "ldb_ikc_compare C" es t] by (auto simp: not_less [symmetric])
    moreover have "ikok (fst (es ! ?i))" using entry_valid [OF assms(1) nth_mem [OF assms(5)]] valid_ikeyD by blast
    ultimately show ?thesis
      using j(1,2) assms(1) ikc.cmp_refl by (cases "?i = j") (auto simp: internal_entries_def sorted_wrt_iff_nth_less intro!: less_imp_le)
  qed
  ultimately show ?thesis using assms(5,6) by (auto simp: newest_entry_def visible_entries_def)
qed

lemma level_list_entries:
  assumes "\<forall>f \<in> set fs. file_holds C ok f (tbl (fm_number f))" "files_disjoint C fs"
  shows "internal_entries (level_list tbl fs)"
  using assms
proof (induction fs)
  case Nil
  then show ?case by (simp add: level_list_def internal_entries_def)
next
  case (Cons f fs)
  let ?es = "tbl (fm_number f)"
  have f: "internal_entries ?es" "?es \<noteq> []" "fm_largest f = fst (last ?es)" using Cons.prems(1) by (auto simp: file_holds_def)
  have IH: "internal_entries (level_list tbl fs)" using Cons by (auto simp: files_disjoint_def)
  have "ldb_ikc_compare C (fst a) (fst b) < 0" if ab: "a \<in> set ?es" "b \<in> set (level_list tbl fs)" for a b
  proof -
    obtain g where g: "g \<in> set fs" "b \<in> set (tbl (fm_number g))" using ab(2) by (auto simp: level_list_def)
    have h: "file_holds C ok f ?es" "file_holds C ok g (tbl (fm_number g))" using Cons.prems(1) g(1) by auto
    have "ldb_ikc_compare C (fm_largest f) (fm_smallest g) < 0" using Cons.prems(2) g(1) by (simp add: files_disjoint_def)
    with file_entry_range [OF h(1) ab(1)] file_entry_range [OF h(2) g(2)] range_okD(5) [OF file_holds_range [OF h(1)]]
      range_okD(4) [OF file_holds_range [OF h(2)]] show ?thesis using ikc_trans(2,3) by blast
  qed
  with IH f(1) show ?case by (auto simp: internal_entries_def level_list_def sorted_wrt_append)
qed

text \<open>The search in a level comes to the entry that the whole level has at the lookup key, or there is none for the user key.\<close>

lemma level_search:
  assumes fs: "\<forall>f \<in> set fs. file_holds C ok f (tbl (fm_number f))" "files_disjoint C fs" and k: "ok k" "seq_ok s"
  defines "t \<equiv> ldb_ikey_set k s LDB_VALTYPE_SEEK" and "L \<equiv> level_list tbl fs"
  shows "find_file (ldb_ikc_init C) fs t \<ge> length fs \<Longrightarrow> visible_entries C k s (set L) = {}"
    and "find_file (ldb_ikc_init C) fs t < length fs \<Longrightarrow> compare C k (ustart (fs ! find_file (ldb_ikc_init C) fs t)) < 0 \<Longrightarrow> visible_entries C k s (set L) = {}"
    and "find_file (ldb_ikc_init C) fs t < length fs \<Longrightarrow>
      (let es = tbl (fm_number (fs ! find_file (ldb_ikc_init C) fs t)); i = first_ge (ldb_ikc_compare C) es t; j = first_ge (ldb_ikc_compare C) L t in
        i < length es \<and> j < length L \<and> L ! j = es ! i)"
proof -
  let ?r = "find_file (ldb_ikc_init C) fs t"
  have rng: "\<forall>f \<in> set fs. file_range_ok C ok f" using fs(1) file_holds_range by blast
  have t: "ikok t" using ikey_set_ok [OF k(1)] by (simp add: t_def)
  note R = find_file_spec [OF fs(2) rng t]
  have L: "internal_entries L" unfolding L_def by (rule level_list_entries [OF fs])
  have below: "ldb_ikc_compare C (fst e) t < 0" if e: "i < ?r" "i < length fs" "e \<in> set (tbl (fm_number (fs ! i)))" for i e
  proof -
    have h: "file_holds C ok (fs ! i) (tbl (fm_number (fs ! i)))" using fs(1) e(2) by simp
    obtain p where p: "p < length (tbl (fm_number (fs ! i)))" "e = tbl (fm_number (fs ! i)) ! p" using e(3) by (metis in_set_conv_nth)
    have lt: "ldb_ikc_compare C (fst (last (tbl (fm_number (fs ! i))))) t < 0" using R(2) [OF e(1)] h by (simp add: file_holds_def)
    show ?thesis
    proof (cases "p = length (tbl (fm_number (fs ! i))) - 1")
      case True
      with lt p h show ?thesis by (simp add: file_holds_def last_conv_nth)
    next
      case False
      then have "ldb_ikc_compare C (fst e) (fst (last (tbl (fm_number (fs ! i))))) < 0"
        using p h by (auto simp: file_holds_def last_conv_nth internal_entries_def sorted_wrt_iff_nth_less)
      moreover have "ikok (fst e)" "ikok (fst (last (tbl (fm_number (fs ! i)))))"
        using h e(3) entry_valid valid_ikeyD(1,2) last_in_set unfolding file_holds_def by metis+
      ultimately show ?thesis using lt t ikc_trans(1) by blast
    qed
  qed
  have pre: "ldb_ikc_compare C (fst e) t < 0" if e: "e \<in> set (level_list tbl (take ?r fs))" for e
  proof -
    obtain f where "f \<in> set (take ?r fs)" "e \<in> set (tbl (fm_number f))" using e by (auto simp: level_list_def)
    then obtain i where "i < length (take ?r fs)" "e \<in> set (tbl (fm_number (take ?r fs ! i)))" by (metis in_set_conv_nth)
    then show ?thesis using below [of i e] by simp
  qed
  have Ls: "L = level_list tbl (take ?r fs) @ level_list tbl (drop ?r fs)"
    by (metis L_def append_take_drop_id concat_append level_list_def map_append)
  have fg: "first_ge (ldb_ikc_compare C) L t = length (level_list tbl (take ?r fs)) + first_ge (ldb_ikc_compare C) (level_list tbl (drop ?r fs)) t"
    unfolding Ls using pre by (intro first_ge_skip) blast
  show "visible_entries C k s (set L) = {}" if "?r \<ge> length fs"
  proof (rule no_match [OF L k])
    have "first_ge (ldb_ikc_compare C) L t = length L" using fg Ls that by (simp add: first_ge_def level_list_def)
    then show "compare C (uk L (first_ge (ldb_ikc_compare C) L (ldb_ikey_set k s LDB_VALTYPE_SEEK))) k \<noteq> 0"
      if "first_ge (ldb_ikc_compare C) L (ldb_ikey_set k s LDB_VALTYPE_SEEK) < length L" using that by (simp add: t_def)
  qed
  have hit: "i < length es \<and> j < length L \<and> L ! j = es ! i"
    if r: "?r < length fs" and es: "es = tbl (fm_number (fs ! ?r))" "i = first_ge (ldb_ikc_compare C) es t" "j = first_ge (ldb_ikc_compare C) L t" for es i j
  proof -
    have h: "es \<noteq> []" "fm_largest (fs ! ?r) = fst (last es)" using fs(1) r es(1) by (auto simp: file_holds_def)
    have d: "level_list tbl (drop ?r fs) = es @ level_list tbl (drop (Suc ?r) fs)"
      unfolding Cons_nth_drop_Suc [OF r, symmetric] by (simp add: level_list_def es(1))
    have i: "i < length es"
      using R(3) [OF r] h first_ge_below [of "length es - 1" "ldb_ikc_compare C" es t] es(2)
      by (metis last_conv_nth diff_less length_greater_0_conv less_one first_ge_le le_neq_implies_less)
    have "first_ge (ldb_ikc_compare C) (es @ level_list tbl (drop (Suc ?r) fs)) t = i"
      using i first_ge_below [of _ "ldb_ikc_compare C" es t] first_ge_at [of "ldb_ikc_compare C" es t] es(2)
      by (intro first_ge_eqI) (auto simp: nth_append)
    then have "j = length (level_list tbl (take ?r fs)) + i" using fg es(3) d by simp
    with i d Ls show ?thesis by (simp add: nth_append)
  qed
  then show "?r < length fs \<Longrightarrow>
      (let es = tbl (fm_number (fs ! ?r)); i = first_ge (ldb_ikc_compare C) es t; j = first_ge (ldb_ikc_compare C) L t in
        i < length es \<and> j < length L \<and> L ! j = es ! i)" by (simp add: Let_def)
  show "visible_entries C k s (set L) = {}" if r: "?r < length fs" "compare C k (ustart (fs ! ?r)) < 0"
  proof (rule no_match [OF L k])
    let ?es = "tbl (fm_number (fs ! ?r))" and ?i = "first_ge (ldb_ikc_compare C) (tbl (fm_number (fs ! ?r))) t"
    have h: "internal_entries ?es" "?es \<noteq> []" "fm_smallest (fs ! ?r) = fst (?es ! 0)" using fs(1) r(1) by (auto simp: file_holds_def hd_conv_nth)
    have i: "?i < length ?es" "L ! first_ge (ldb_ikc_compare C) L t = ?es ! ?i" using hit [OF r(1)] by auto
    have "ustart (fs ! ?r) = uk ?es 0" using h entry_key(3) [OF h(1), of 0] by simp
    moreover have "compare C (uk ?es 0) (uk ?es ?i) \<le> 0" using uk_mono [OF h(1) _ i(1)] by simp
    ultimately have "compare C k (uk ?es ?i) < 0"
      using r(2) k(1) entry_key(4) [OF h(1)] h(2) i(1) cmp_less_le_trans [of k "uk ?es 0" "uk ?es ?i"] by simp
    then have "compare C (uk ?es ?i) k \<noteq> 0" using cmp_swap [of k "uk ?es ?i"] k(1) entry_key(4) [OF h(1) i(1)] by auto
    then show "compare C (uk L (first_ge (ldb_ikc_compare C) L (ldb_ikey_set k s LDB_VALTYPE_SEEK))) k \<noteq> 0"
      if "first_ge (ldb_ikc_compare C) L (ldb_ikey_set k s LDB_VALTYPE_SEEK) < length L" using i(2) by (simp add: t_def)
  qed
qed

end

interpretation newest_order: key_order newest_first "\<lambda>_. True"
  by unfold_locales (auto simp: newest_first_def split: if_splits)

context user_order
begin

lemma outside_file:
  assumes "file_holds C ok f es" "ok k" "compare C k (ustart f) < 0 \<or> compare C k (ulimit f) > 0"
  shows "visible_entries C k s (set es) = {}"
proof -
  have es: "internal_entries es" "es \<noteq> []" "ustart f = uk es 0" "ulimit f = uk es (length es - 1)"
    using assms(1) entry_key(3) by (auto simp: file_holds_def hd_conv_nth last_conv_nth)
  have "compare C (uk es j) k \<noteq> 0" if j: "j < length es" for j
  proof
    assume eq: "compare C (uk es j) k = 0"
    have o: "ok (uk es j)" "ok (uk es 0)" "ok (uk es (length es - 1))" using entry_key(4) [OF es(1)] es(2) j by simp_all
    have "compare C (uk es 0) (uk es j) \<le> 0" "compare C (uk es j) (uk es (length es - 1)) \<le> 0"
      using uk_mono [OF es(1), of 0 j] uk_mono [OF es(1), of j "length es - 1"] j es(2) by simp_all
    then have "compare C (uk es 0) k \<le> 0" "compare C k (uk es (length es - 1)) \<le> 0"
      using eq cmp_eq_swap [OF o(1) assms(2)] cmp_le_trans [OF o(2,1) assms(2)] cmp_le_trans [OF assms(2) o(1,3)] by simp_all
    with assms(3) es(3,4) cmp_swap [OF assms(2) o(2)] show False by auto
  qed
  then have "compare C (user_key (pk e)) k \<noteq> 0" if "e \<in> set es" for e using that by (metis in_set_conv_nth)
  then show ?thesis unfolding visible_entries_def by blast
qed

lemma version_file:
  assumes "version_ok C ok tbl ver" "l < LDB_NUM_LEVELS" "f \<in> set (ver_files ver ! l)"
  shows "f \<in> set (concat (ver_files ver))" "file_holds C ok f (tbl (fm_number f))" "internal_entries (tbl (fm_number f))"
proof -
  have n: "length (ver_files ver) = LDB_NUM_LEVELS" "\<forall>f \<in> set (concat (ver_files ver)). file_holds C ok f (tbl (fm_number f))"
    using assms(1) unfolding version_ok_def by blast+
  show "f \<in> set (concat (ver_files ver))" using assms(2,3) n(1) by auto
  with n(2) show "file_holds C ok f (tbl (fm_number f))" by blast
  then show "internal_entries (tbl (fm_number f))" by (simp add: file_holds_def)
qed

lemma version_entry_valid:
  assumes "version_ok C ok tbl ver" "e \<in> version_entries tbl ver"
  shows "valid_ikey ok (fst e)"
proof -
  obtain f where f: "f \<in> set (concat (ver_files ver))" "e \<in> set (tbl (fm_number f))"
    using assms(2) unfolding version_entries_def files_entries_def by blast
  then have "internal_entries (tbl (fm_number f))" using assms(1) unfolding version_ok_def file_holds_def by blast
  with f(2) entry_valid show ?thesis by blast
qed

end

context table_reader
begin

definition searching :: "bytes \<Rightarrow> u64 \<Rightarrow> bytes option \<Rightarrow> 'c getstate \<Rightarrow> bool" where
  "searching k s v st \<longleftrightarrow> gt_saver st = \<lparr>sv_state = S_NOTFOUND, sv_ucmp = C, sv_user_key = k, sv_value = v\<rparr>
     \<and> gt_ikey st = ldb_ikey_set k s LDB_VALTYPE_SEEK \<and> inv (gt_cache st) \<and> \<not> gt_found st"

definition outcome :: "bytes option \<Rightarrow> kv \<Rightarrow> 'c getstate \<Rightarrow> bool" where
  "outcome v e st \<longleftrightarrow> inv (gt_cache st)
     \<and> (if vtype (pk e) = LDB_TYPE_VALUE then gt_found st \<and> gt_status st = LDB_OK \<and> sv_value (gt_saver st) = map_option (\<lambda>_. snd e) v
        else \<not> gt_found st \<and> sv_value (gt_saver st) = v)"

text \<open>A search through entries either goes on, having found that the snapshot sees none of them, or has come to the newest.\<close>

definition searched :: "bytes \<Rightarrow> u64 \<Rightarrow> bytes option \<Rightarrow> kv set \<Rightarrow> bool \<Rightarrow> 'c getstate \<Rightarrow> bool" where
  "searched k s v E go st \<longleftrightarrow>
     (if go then searching k s v st \<and> visible_entries C k s E = {} else \<exists>e. newest_entry C k s E e \<and> outcome v e st)"

lemma match_file:
  assumes st: "searching k s v st" "stored (fm_number f) (fm_file_size f) es" "internal_entries es" "ok k"
  defines "i \<equiv> first_ge (ldb_ikc_compare C) es (ldb_ikey_set k s LDB_VALTYPE_SEEK)"
  shows "\<exists>go st'. getstate_match tget st lvl f = Some (go, st')
    \<and> (if i < length es \<and> compare C (uk es i) k = 0 then \<not> go \<and> outcome v (es ! i) st' else go \<and> searching k s v st')"
proof -
  let ?t = "ldb_ikey_set k s LDB_VALTYPE_SEEK"
  note S = st(1) [unfolded searching_def]
  obtain r c' where r: "tget (gt_cache st) (fm_number f) (fm_file_size f) ?t = Some (LDB_OK, r, c')" "inv c'" "table_answers C es ?t r"
    using get_law [OF _ st(2), of "gt_cache st" ?t] S ikey_set_ok [OF st(4)] by auto
  have k: "ldb_extract_user_key ?t = k" by (simp add: ldb_ikey_set_eq)
  show ?thesis
  proof (cases "i < length es \<and> compare C (uk es i) k = 0")
    case True
    note E = entry_key [OF st(3), of i]
    have "r = Some (es ! i)" using r(3) True E k by (auto simp: table_answers_def Let_def i_def split: option.splits)
    with S r(1,2) True E show ?thesis
      by (cases "vtype (pk (es ! i))") (auto simp: getstate_match_def Let_def save_value_def outcome_def)
  next
    case False
    have "save_value (gt_saver st) e = gt_saver st" if "r = Some e" for e
    proof -
      have e: "i < length es" "e = es ! i" using r(3) that by (auto simp: table_answers_def Let_def i_def)
      with False entry_key [OF st(3) e(1)] S show ?thesis by (simp add: save_value_def)
    qed
    then have "(case r of None \<Rightarrow> gt_saver st | Some e \<Rightarrow> save_value (gt_saver st) e) = gt_saver st" by (cases r) auto
    with S r(1,2) False show ?thesis by (auto simp: getstate_match_def Let_def searching_def split: option.splits)
  qed
qed

lemma searched_found: "newest_entry C k s E e \<Longrightarrow> outcome v e st \<Longrightarrow> searched k s v E False st"
  by (auto simp: searched_def simp del: split_paired_Ex)

lemma searched_go: "searched k s v E True st \<Longrightarrow> searched k s v E' go st' \<Longrightarrow> searched k s v (E \<union> E') go st'"
  using newest_later unfolding searched_def by (auto simp: visible_entries_def simp del: split_paired_Ex split: if_splits) blast

lemma searched_stop:
  assumes "searched k s v E False st" "newer_than C E E'" "ok k" "\<forall>e \<in> E \<union> E'. valid_ikey ok (fst e)"
  shows "searched k s v (E \<union> E') False st"
  using assms(1) newest_union [OF _ assms(2-4)] unfolding searched_def if_False by blast

lemma match_searched:
  assumes "searching k s v st" "stored (fm_number f) (fm_file_size f) es" "internal_entries es" "ok k" "seq_ok s"
  shows "\<exists>go st'. getstate_match tget st lvl f = Some (go, st') \<and> searched k s v (set es) go st'"
proof -
  let ?i = "first_ge (ldb_ikc_compare C) es (ldb_ikey_set k s LDB_VALTYPE_SEEK)"
  obtain go st' where m: "getstate_match tget st lvl f = Some (go, st')"
    "if ?i < length es \<and> compare C (uk es ?i) k = 0 then \<not> go \<and> outcome v (es ! ?i) st' else go \<and> searching k s v st'"
    using match_file [OF assms(1-4), of lvl] by blast
  have "searched k s v (set es) go st'"
  proof (cases "?i < length es \<and> compare C (uk es ?i) k = 0")
    case True
    with m(2) match_newest [OF assms(3-5)] show ?thesis by (auto intro: searched_found)
  next
    case False
    with m(2) no_match [OF assms(3-5)] show ?thesis by (auto simp: searched_def)
  qed
  with m(1) show ?thesis by blast
qed

lemma each_newest_searched:
  assumes "searching k s v st" "ok k" "seq_ok s"
    and "\<forall>f \<in> set fs. stored (fm_number f) (fm_file_size f) (tbl (fm_number f)) \<and> internal_entries (tbl (fm_number f))"
    and "sorted_wrt (\<lambda>f g. newer_than C (set (tbl (fm_number f))) (set (tbl (fm_number g)))) fs"
  shows "\<exists>go st'. each_newest_loop (getstate_match tget) st fs = Some (go, st') \<and> searched k s v (files_entries tbl fs) go st'"
  using assms(1,4,5)
proof (induction fs arbitrary: st)
  case Nil
  then show ?case by (auto simp: searched_def files_entries_def visible_entries_def)
next
  case (Cons f fs)
  let ?E = "set (tbl (fm_number f))"
  have es: "stored (fm_number f) (fm_file_size f) (tbl (fm_number f))" "internal_entries (tbl (fm_number f))" using Cons.prems(2) by auto
  obtain go st' where m: "getstate_match tget st 0 f = Some (go, st')" "searched k s v ?E go st'"
    using match_searched [OF Cons.prems(1) es assms(2,3)] by blast
  have U: "files_entries tbl (f # fs) = ?E \<union> files_entries tbl fs" by (simp add: files_entries_def)
  show ?case
  proof (cases go)
    case True
    with m(2) Cons.IH [of st'] Cons.prems obtain go' st'' where
      "each_newest_loop (getstate_match tget) st' fs = Some (go', st'')" "searched k s v (files_entries tbl fs) go' st''" by (auto simp: searched_def)
    moreover from this(2) m(2) True have "searched k s v (files_entries tbl (f # fs)) go' st''"
      unfolding U by (auto intro: searched_go)
    ultimately show ?thesis using m(1) True by simp
  next
    case False
    have "newer_than C ?E (files_entries tbl fs)" using Cons.prems(3) by (auto simp: newer_than_def files_entries_def)
    moreover have "\<forall>e \<in> ?E \<union> files_entries tbl fs. valid_ikey ok (fst e)"
      using Cons.prems(2) entry_valid by (fastforce simp: files_entries_def)
    ultimately have "searched k s v (files_entries tbl (f # fs)) False st'" unfolding U using searched_stop m(2) assms(2) False by simp
    with m(1) False show ?thesis by auto
  qed
qed

lemma search_level_searched:
  assumes "searching k s v st" "ok k" "seq_ok s"
    and fs: "\<forall>f \<in> set fs. file_holds C ok f (tbl (fm_number f)) \<and> stored (fm_number f) (fm_file_size f) (tbl (fm_number f))" "files_disjoint C fs"
  shows "\<exists>go st'. search_level C fs k (ldb_ikey_set k s LDB_VALTYPE_SEEK) (getstate_match tget) st lvl = Some (go, st')
    \<and> searched k s v (files_entries tbl fs) go st'"
proof -
  let ?t = "ldb_ikey_set k s LDB_VALTYPE_SEEK" and ?L = "level_list tbl fs"
  let ?r = "find_file (ldb_ikc_init C) fs ?t"
  have h: "\<forall>f \<in> set fs. file_holds C ok f (tbl (fm_number f))" using fs(1) by blast
  note S = level_search [OF h fs(2) assms(2,3), unfolded set_level_list]
  have none: ?thesis if "visible_entries C k s (files_entries tbl fs) = {}"
    "search_level C fs k ?t (getstate_match tget) st lvl = Some (True, st)"
    using that assms(1) by (auto simp: searched_def)
  show ?thesis
  proof (cases "?r < length fs")
    case False
    then have "search_level C fs k ?t (getstate_match tget) st lvl = Some (True, st)" by (simp add: search_level_def Let_def)
    with none S(1) False show ?thesis by simp
  next
    case True
    let ?f = "fs ! ?r"
    show ?thesis
    proof (cases "compare C k (ustart ?f) < 0")
      case lt: True
      then have "search_level C fs k ?t (getstate_match tget) st lvl = Some (True, st)"
        using True by (auto simp: search_level_def Let_def ldb_ikey_user_key_def)
      with none S(2) [OF True lt] show ?thesis by simp
    next
      case ge: False
      define es where "es = tbl (fm_number ?f)"
      define i where "i = first_ge (ldb_ikc_compare C) es ?t"
      define j where "j = first_ge (ldb_ikc_compare C) ?L ?t"
      have L: "i < length es" "j < length ?L" "?L ! j = es ! i" using S(3) [OF True] by (simp_all add: Let_def es_def i_def j_def)
      have f: "stored (fm_number ?f) (fm_file_size ?f) es" "internal_entries es" using fs(1) True by (auto simp: file_holds_def es_def)
      obtain go st' where m: "getstate_match tget st lvl ?f = Some (go, st')"
        "if i < length es \<and> compare C (uk es i) k = 0 then \<not> go \<and> outcome v (es ! i) st' else go \<and> searching k s v st'"
        using match_file [OF assms(1) f assms(2), of lvl] unfolding i_def by blast
      have "searched k s v (files_entries tbl fs) go st'"
        using m(2) L no_match [OF level_list_entries [OF h fs(2)] assms(2,3)] match_newest [OF level_list_entries [OF h fs(2)] assms(2,3)]
        unfolding set_level_list j_def [symmetric] by (cases "compare C (uk es i) k = 0") (auto simp: searched_def simp del: split_paired_Ex)
      moreover have "search_level C fs k ?t (getstate_match tget) st lvl = getstate_match tget st lvl ?f"
        using True ge by (auto simp: search_level_def Let_def ldb_ikey_user_key_def)
      ultimately show ?thesis using m(1) by auto
    qed
  qed
qed

lemma each_level_searched:
  assumes "searching k s v st" "ok k" "seq_ok s" "version_ok C ok tbl ver"
    and "\<forall>f \<in> set (concat (ver_files ver)). stored (fm_number f) (fm_file_size f) (tbl (fm_number f))"
    and "sorted_wrt (<) ls" "\<forall>l \<in> set ls. 0 < l \<and> l < LDB_NUM_LEVELS"
  shows "\<exists>go st'. each_level_loop C ver k (ldb_ikey_set k s LDB_VALTYPE_SEEK) (getstate_match tget) st ls = Some st'
    \<and> searched k s v (\<Union>l \<in> set ls. files_entries tbl (ver_files ver ! l)) go st'"
  using assms(1,6,7)
proof (induction ls arbitrary: st)
  case Nil
  then show ?case by (auto simp: searched_def visible_entries_def)
next
  case (Cons l ls)
  let ?E = "files_entries tbl (ver_files ver ! l)" and ?E' = "\<Union>l \<in> set ls. files_entries tbl (ver_files ver ! l)"
  have l: "0 < l" "l < length (ver_files ver)" using Cons.prems(3) assms(4) by (auto simp: version_ok_def)
  have fs: "\<forall>f \<in> set (ver_files ver ! l). file_holds C ok f (tbl (fm_number f)) \<and> stored (fm_number f) (fm_file_size f) (tbl (fm_number f))"
    using version_file [OF assms(4)] Cons.prems(3) assms(5) by (metis list.set_intros(1))
  have dj: "files_disjoint C (ver_files ver ! l)" using assms(4) l by (simp add: version_ok_def)
  obtain go st' where m: "search_level C (ver_files ver ! l) k (ldb_ikey_set k s LDB_VALTYPE_SEEK) (getstate_match tget) st l = Some (go, st')"
    "searched k s v ?E go st'" using search_level_searched [OF Cons.prems(1) assms(2,3) fs dj] by blast
  show ?case
  proof (cases go)
    case True
    with m(2) Cons.IH [of st'] Cons.prems(2,3) obtain go' st'' where
      "each_level_loop C ver k (ldb_ikey_set k s LDB_VALTYPE_SEEK) (getstate_match tget) st' ls = Some st''" "searched k s v ?E' go' st''"
      by (auto simp: searched_def)
    moreover from this(2) m(2) True have "searched k s v (?E \<union> ?E') go' st''" by (auto intro: searched_go)
    ultimately show ?thesis using m(1) True by auto
  next
    case False
    have "newer_than C ?E (files_entries tbl (ver_files ver ! j))" if "j \<in> set ls" for j
      using Cons.prems(2,3) assms(4) that by (auto simp: version_ok_def)
    then have "newer_than C ?E ?E'" by (fastforce simp: newer_than_def)
    moreover have "valid_ikey ok (fst e)" if "e \<in> ?E \<union> ?E'" for e
    proof -
      obtain j f where "j \<in> set (l # ls)" "f \<in> set (ver_files ver ! j)" "e \<in> set (tbl (fm_number f))" using \<open>e \<in> ?E \<union> ?E'\<close> by (auto simp: files_entries_def)
      then show ?thesis using version_file(3) [OF assms(4)] Cons.prems(3) entry_valid by blast
    qed
    ultimately have "searched k s v (?E \<union> ?E') False st'" using searched_stop m(2) assms(2) False by simp
    with m(1) False show ?thesis by auto
  qed
qed

lemma level0_order:
  assumes "version_ok C ok tbl ver" "mset ys = mset (filter P (ver_files ver ! 0))" "sorted_wrt (\<lambda>x y. newest_first x y \<le> 0) ys"
  shows "sorted_wrt (\<lambda>f g. newer_than C (set (tbl (fm_number f))) (set (tbl (fm_number g)))) ys"
proof -
  have s: "set ys \<subseteq> set (ver_files ver ! 0)" using assms(2) by (metis filter_is_subset set_mset_mset)
  have "distinct (map fm_number (ver_files ver ! 0))" using assms(1) by (simp add: version_ok_def)
  then have "distinct (map fm_number (filter P (ver_files ver ! 0)))" by (rule distinct_map_filter)
  moreover have "mset (map fm_number ys) = mset (map fm_number (filter P (ver_files ver ! 0)))" using assms(2) by (simp only: mset_map)
  ultimately have "distinct (map fm_number ys)" using mset_eq_imp_distinct_iff by blast
  then have "sorted_wrt (\<lambda>f g. fm_number f \<noteq> fm_number g \<and> newest_first f g \<le> 0) ys"
    using assms(3) by (auto simp: distinct_conv_nth sorted_wrt_iff_nth_less)
  then show ?thesis
  proof (rule sorted_wrt_mono_rel [rotated])
    fix f g assume "f \<in> set ys" "g \<in> set ys" "fm_number f \<noteq> fm_number g \<and> newest_first f g \<le> 0"
    then have "fm_number g < fm_number f" "f \<in> set (ver_files ver ! 0)" "g \<in> set (ver_files ver ! 0)"
      using s by (auto simp: newest_first_def split: if_splits)
    then show "newer_than C (set (tbl (fm_number f))) (set (tbl (fm_number g)))" using assms(1) by (simp add: version_ok_def)
  qed
qed

lemma version_entries_levels:
  assumes "version_ok C ok tbl ver"
  shows "version_entries tbl ver = files_entries tbl (ver_files ver ! 0) \<union> (\<Union>l \<in> set [1..<LDB_NUM_LEVELS]. files_entries tbl (ver_files ver ! l))"
proof -
  have n: "length (ver_files ver) = LDB_NUM_LEVELS" using assms by (simp add: version_ok_def)
  have "version_entries tbl ver = (\<Union>l < LDB_NUM_LEVELS. files_entries tbl (ver_files ver ! l))"
    unfolding n [symmetric] by (fastforce simp: version_entries_def files_entries_def in_set_conv_nth)
  moreover have "{..<LDB_NUM_LEVELS} = insert 0 (set [1..<LDB_NUM_LEVELS])" by (auto simp: LDB_NUM_LEVELS_def)
  ultimately show ?thesis by simp
qed

lemma version_get_searched:
  assumes "inv c" "ok k" "seq_ok s" "version_ok C ok tbl ver"
    and st: "\<forall>f \<in> set (concat (ver_files ver)). stored (fm_number f) (fm_file_size f) (tbl (fm_number f))"
  shows "\<exists>rc v' stats c'. ldb_version_get tget C c ver (ldb_lkey_init k s) v = Some (rc, v', stats, c') \<and> inv c'
    \<and> (visible_entries C k s (version_entries tbl ver) = {} \<and> rc = LDB_NOTFOUND \<and> v' = v
       \<or> (\<exists>e. newest_entry C k s (version_entries tbl ver) e \<and>
            (if vtype (pk e) = LDB_TYPE_VALUE then rc = LDB_OK \<and> v' = map_option (\<lambda>_. snd e) v else rc = LDB_NOTFOUND \<and> v' = v)))"
proof -
  let ?t = "ldb_ikey_set k s LDB_VALTYPE_SEEK" and ?fs = "ver_files ver ! 0"
  let ?P = "\<lambda>f. compare C k (ldb_ikey_user_key (fm_smallest f)) \<ge> 0 \<and> compare C k (ldb_ikey_user_key (fm_largest f)) \<le> 0"
  define st0 where "st0 = \<lparr>gt_saver = \<lparr>sv_state = S_NOTFOUND, sv_ucmp = C, sv_user_key = k, sv_value = v\<rparr>,
                  gt_stats = \<lparr>gs_seek_file = None, gs_seek_file_level = -1\<rparr>, gt_ikey = ?t,
                  gt_last_file_read = None, gt_last_file_read_level = -1, gt_cache = c, gt_status = LDB_OK, gt_found = False\<rparr>"
  have s0: "searching k s v st0" using assms(1) by (simp add: searching_def st0_def)
  obtain ys where ys: "ldb_vector_sort newest_first (filter ?P ?fs) = Some ys" "mset ys = mset (filter ?P ?fs)" "sorted_wrt (\<lambda>x y. newest_first x y \<le> 0) ys"
    using newest_order.vector_sort_ok [of "filter ?P ?fs"] by auto
  have sys: "set ys = {f \<in> set ?fs. ?P f}" using mset_eq_setD [OF ys(2)] by simp
  have srt: "(if length (filter ?P ?fs) > 0 then ldb_vector_sort newest_first (filter ?P ?fs) else Some (filter ?P ?fs)) = Some ys"
    using ys(1) by (cases "filter ?P ?fs") (simp_all add: ldb_vector_sort_def)
  have L: "0 < LDB_NUM_LEVELS" by (simp add: LDB_NUM_LEVELS_def)
  have ok0: "\<forall>f \<in> set ys. stored (fm_number f) (fm_file_size f) (tbl (fm_number f)) \<and> internal_entries (tbl (fm_number f))"
    using version_file [OF assms(4) L] st sys by blast
  obtain go st1 where m: "each_newest_loop (getstate_match tget) st0 ys = Some (go, st1)" "searched k s v (files_entries tbl ys) go st1"
    using each_newest_searched [OF s0 assms(2,3) ok0 level0_order [OF assms(4) ys(2,3)]] by blast
  have skip: "visible_entries C k s (set (tbl (fm_number f))) = {}" if "f \<in> set ?fs" "\<not> ?P f" for f
    using outside_file [OF version_file(2) [OF assms(4) L that(1)] assms(2)] that(2) by (auto simp: ldb_ikey_user_key_def not_le)
  have vis: "visible_entries C k s (files_entries tbl ?fs) = visible_entries C k s (files_entries tbl ys)"
  proof -
    have V: "visible_entries C k s (files_entries tbl xs) = (\<Union>f \<in> set xs. visible_entries C k s (set (tbl (fm_number f))))" for xs
      by (auto simp: visible_entries_def files_entries_def)
    show ?thesis unfolding V sys using skip by blast
  qed
  have m0: "searched k s v (files_entries tbl ?fs) go st1" using m(2) unfolding searched_def newest_entry_def vis .
  let ?E = "\<Union>l \<in> set [1..<LDB_NUM_LEVELS]. files_entries tbl (ver_files ver ! l)"
  note U = version_entries_levels [OF assms(4)]
  have "\<exists>go st2. ldb_version_for_each_overlapping C ver k ?t (getstate_match tget) st0 = Some st2 \<and> searched k s v (version_entries tbl ver) go st2"
  proof (cases go)
    case True
    have s1: "searching k s v st1" using m0 True by (simp add: searched_def)
    have "sorted_wrt (<) [1..<LDB_NUM_LEVELS]" "\<forall>l \<in> set [1..<LDB_NUM_LEVELS]. 0 < l \<and> l < LDB_NUM_LEVELS" by auto
    from each_level_searched [OF s1 assms(2-4) st this] obtain go' st2 where
      "each_level_loop C ver k ?t (getstate_match tget) st1 [1..<LDB_NUM_LEVELS] = Some st2" "searched k s v ?E go' st2" by blast
    moreover from this(2) m0 True have "searched k s v (version_entries tbl ver) go' st2" unfolding U by (auto intro: searched_go)
    moreover have "ldb_version_for_each_overlapping C ver k ?t (getstate_match tget) st0
        = each_level_loop C ver k ?t (getstate_match tget) st1 [1..<LDB_NUM_LEVELS]"
      unfolding ldb_version_for_each_overlapping_def Let_def srt using m(1) True by simp
    ultimately show ?thesis by auto
  next
    case False
    have "newer_than C (files_entries tbl ?fs) ?E" using assms(4) unfolding version_ok_def newer_than_def by fastforce
    moreover have "\<forall>e \<in> files_entries tbl ?fs \<union> ?E. valid_ikey ok (fst e)" using version_entry_valid [OF assms(4)] unfolding U by blast
    ultimately have "searched k s v (version_entries tbl ver) False st1" unfolding U using searched_stop m0 False assms(2) by simp
    moreover have "ldb_version_for_each_overlapping C ver k ?t (getstate_match tget) st0 = Some st1"
      unfolding ldb_version_for_each_overlapping_def Let_def srt using m(1) False by simp
    ultimately show ?thesis by blast
  qed
  then obtain go2 st2 where g: "ldb_version_for_each_overlapping C ver k ?t (getstate_match tget) st0 = Some st2" "searched k s v (version_entries tbl ver) go2 st2"
    by blast
  have "ldb_version_get tget C c ver (ldb_lkey_init k s) v
      = Some (if gt_found st2 then gt_status st2 else LDB_NOTFOUND, sv_value (gt_saver st2), gt_stats st2, gt_cache st2)"
    using g(1) by (simp add: ldb_version_get_def Let_def ldb_lkey_init_keys st0_def)
  moreover have "inv (gt_cache st2)" using g(2) by (auto simp: searched_def searching_def outcome_def split: if_splits)
  moreover have "visible_entries C k s (version_entries tbl ver) = {} \<and> \<not> gt_found st2 \<and> sv_value (gt_saver st2) = v
      \<or> (\<exists>e. newest_entry C k s (version_entries tbl ver) e \<and> outcome v e st2)"
    using g(2) by (cases go2) (auto simp: searched_def searching_def simp del: split_paired_Ex)
  ultimately show ?thesis by (auto simp: outcome_def simp del: split_paired_Ex split: if_splits)
qed

end

section \<open>The iterators of a version\<close>

lemmas numiter_defs = ldb_numiter_table_def ldb_numiter_valid_def ldb_numiter_seek_def ldb_numiter_seek_first_def ldb_numiter_seek_last_def
  ldb_numiter_next_def ldb_numiter_prev_def ldb_numiter_key_def ldb_numiter_value_def ldb_numiter_status_def

definition file_value :: "filemeta \<Rightarrow> bytes" where
  "file_value f = ldb_fixed64_write (fm_number f) @ ldb_fixed64_write (fm_file_size f)"

definition files_index :: "filemeta list \<Rightarrow> kv list" where
  "files_index fs = map (\<lambda>f. (fm_largest f, file_value f)) fs"

lemma file_value_fields:
  "length (file_value f) = 16" "ldb_fixed64_decode (take 8 (file_value f)) = fm_number f" "ldb_fixed64_decode (drop 8 (file_value f)) = fm_file_size f"
  by (simp_all add: file_value_def)

context user_order
begin

lemma numiter_cursor:
  assumes "files_disjoint C fs" "\<forall>f \<in> set fs. file_range_ok C ok f"
  shows "cursor ldb_numiter_table (compare (ldb_ikc_init C)) (files_index fs)
    (\<lambda>s i. ni_icmp s = ldb_ikc_init C \<and> ni_flist s = fs \<and> ni_index s = i \<and> i \<le> length fs) (\<lambda>k. ikok k)"
proof
  fix s :: numiter and i t
  assume at: "ni_icmp s = ldb_ikc_init C \<and> ni_flist s = fs \<and> ni_index s = i \<and> i \<le> length fs" and t: "ikok t"
  let ?r = "find_file (ldb_ikc_init C) fs t"
  have "first_ge (compare (ldb_ikc_init C)) (files_index fs) t = ?r"
    using find_file_spec [OF assms t] by (intro first_ge_eqI) (auto simp: files_index_def)
  moreover have "?r \<le> length fs" by (rule find_file_spec(1) [OF assms t])
  ultimately show "\<exists>s'. tbl_seek ldb_numiter_table s t = Some s' \<and> ni_icmp s' = ldb_ikc_init C \<and> ni_flist s' = fs
      \<and> ni_index s' = first_ge (compare (ldb_ikc_init C)) (files_index fs) t \<and> first_ge (compare (ldb_ikc_init C)) (files_index fs) t \<le> length fs"
    using at by (simp add: numiter_defs)
qed (auto simp: numiter_defs files_index_def file_value_def Let_def)

lemma concat_cursor:
  assumes fs: "\<forall>f \<in> set fs. file_holds C ok f (tbl (fm_number f))" "files_disjoint C fs"
    and it: "\<forall>f \<in> set fs. \<exists>at p. cursor T (ldb_ikc_compare C) (tbl (fm_number f)) at (\<lambda>k. ikok k) \<and> at (open_table (fm_number f) (fm_file_size f)) p"
  shows "\<exists>it at. ldb_twoiter_create (ldb_numiter_create (ldb_ikc_init C) fs) (get_file_iterator T open_table) = Some (ldb_twoiter_table, it)
    \<and> at it (length (level_list tbl fs)) \<and> cursor ldb_twoiter_table (ldb_ikc_compare C) (level_list tbl fs) at (\<lambda>k. ikok k)"
proof -
  let ?idx = "files_index fs" and ?f = "get_file_iterator T open_table"
  let ?blk = "\<lambda>h. tbl (ldb_fixed64_decode (take 8 h))"
  let ?iat = "\<lambda>(s :: numiter) i. ni_icmp s = ldb_ikc_init C \<and> ni_flist s = fs \<and> ni_index s = i \<and> i \<le> length fs"
  have rng: "\<forall>f \<in> set fs. file_range_ok C ok f" using fs(1) file_holds_range by blast
  note num = numiter_cursor [OF fs(2) rng]
  have blk: "?blk (file_value f) = tbl (fm_number f)" for f by (simp add: file_value_fields)
  have es: "block_entries ?idx ?blk = level_list tbl fs" by (simp add: block_entries_def files_index_def level_list_def blk comp_def)
  have nth: "snd (?idx ! b) = file_value (fs ! b)" "fst (?idx ! b) = fm_largest (fs ! b)" if "b < length fs" for b using that by (simp_all add: files_index_def)
  have "\<forall>h \<in> snd ` set ?idx. \<exists>at. cursor (fst (?f h)) (compare (ldb_ikc_init C)) (?blk h) at (\<lambda>k. ikok k) \<and> (\<exists>p. at (snd (?f h)) p)"
  proof
    fix h assume "h \<in> snd ` set ?idx"
    then obtain f where f: "f \<in> set fs" "h = file_value f" by (auto simp: files_index_def)
    obtain at p where c: "cursor T (ldb_ikc_compare C) (tbl (fm_number f)) at (\<lambda>k. ikok k)" "at (open_table (fm_number f) (fm_file_size f)) p" using it f(1) by blast
    have "?f h = (sum_table ldb_emptyiter_table T, Inr (open_table (fm_number f) (fm_file_size f)))"
      by (simp add: get_file_iterator_def f(2) file_value_fields)
    with sum_cursor [OF c(1)] c(2) show "\<exists>at. cursor (fst (?f h)) (compare (ldb_ikc_init C)) (?blk h) at (\<lambda>k. ikok k) \<and> (\<exists>p. at (snd (?f h)) p)"
      by (intro exI [of _ "\<lambda>s i. \<exists>t. s = Inr t \<and> at t i"]) (auto simp: f(2) file_value_fields)
  qed
  from bchoice [OF this]
  obtain dat where dat: "\<forall>h \<in> snd ` set ?idx. cursor (fst (?f h)) (compare (ldb_ikc_init C)) (?blk h) (dat h) (\<lambda>k. ikok k) \<and> (\<exists>p. dat h (snd (?f h)) p)"
    by (elim exE)
  have L: "internal_entries (level_list tbl fs)" by (rule level_list_entries [OF fs])
  have in_file: "ldb_ikc_compare C (fst e) (fm_largest f) \<le> 0" "ldb_ikc_compare C (fm_smallest f) (fst e) \<le> 0" "ikok (fst e)"
    if "f \<in> set fs" "e \<in> set (tbl (fm_number f))" for f e
    using file_entry_range [OF _ that(2)] fs(1) that(1) by blast+
  have "ikc.order.two_sources ldb_numiter_table ?idx ?iat ?f ?blk dat"
    unfolding ikc.order.two_sources_def es
  proof (intro conjI)
    show "cursor ldb_numiter_table (compare (ldb_ikc_init C)) ?idx ?iat (\<lambda>k. ikok k)" by (rule num)
    show "ikc.kv_sorted ?idx"
      unfolding ikc.kv_sorted_def unfolding compare_ikc
    proof
      show "sorted_wrt (\<lambda>a b. ldb_ikc_compare C (fst a) (fst b) < 0) ?idx"
        using files_largest_less(2) [OF fs(2) rng] by (simp add: sorted_wrt_iff_nth_less files_index_def)
      show "\<forall>e \<in> set ?idx. ikok (fst e)" using rng range_okD(5) by (simp add: files_index_def)
    qed
    show "\<forall>h \<in> snd ` set ?idx. cursor (fst (?f h)) (compare (ldb_ikc_init C)) (?blk h) (dat h) (\<lambda>k. ikok k) \<and> (\<exists>p. dat h (snd (?f h)) p)" by (rule dat)
    show "\<forall>e \<in> set (level_list tbl fs). ikok (fst e)" using L entry_valid valid_ikeyD(1,2) by blast
    show "\<forall>b < length ?idx. \<forall>e \<in> set (?blk (snd (?idx ! b))). compare (ldb_ikc_init C) (fst e) (fst (?idx ! b)) \<le> 0"
      using in_file(1) nth by (simp add: files_index_def blk)
    show "\<forall>c < length ?idx. \<forall>b < c. \<forall>e \<in> set (?blk (snd (?idx ! c))). compare (ldb_ikc_init C) (fst (?idx ! b)) (fst e) < 0"
    proof (intro allI impI ballI)
      fix c b e assume c: "c < length ?idx" "b < c" "e \<in> set (?blk (snd (?idx ! c)))"
      then have cb: "c < length fs" "b < length fs" "e \<in> set (tbl (fm_number (fs ! c)))" by (auto simp: files_index_def blk)
      have "ikok (fm_largest (fs ! b))" "ikok (fm_smallest (fs ! c))" using rng range_okD(4,5) cb by auto
      then have "ldb_ikc_compare C (fm_largest (fs ! b)) (fst e) < 0"
        using files_largest_less(1) [OF fs(2) rng c(2) cb(1)] in_file(2,3) [OF nth_mem [OF cb(1)] cb(3)] ikc_trans(3) by blast
      then show "compare (ldb_ikc_init C) (fst (?idx ! b)) (fst e) < 0" by (simp add: nth cb(2))
    qed
  qed
  note src = this
  have "?iat (ldb_numiter_init (ldb_ikc_init C) fs) (length fs)" by (simp add: ldb_numiter_init_def)
  from ikc.order.two_create_at [OF src this] ikc.order.two_cursor [OF src] show ?thesis
    unfolding es ldb_numiter_create_def compare_ikc by blast
qed

end

section \<open>Tables as the files of a version\<close>

text \<open>
  A lookup of the table cache in a table that is open is a lookup in the table; here without a block cache. The tables that the builder writes and
  \<^verbatim>\<open>ldb_table_open\<close> opens meet what reads rely on.
\<close>

definition open_tables_get :: "(u64 \<Rightarrow> table) \<Rightarrow> readopt \<Rightarrow> block lru option tget" where
  "open_tables_get tables options block_cache num sz t = ldb_table_internal_get (tables num) options t block_cache"

definition holds_table :: "(u64 \<Rightarrow> table) \<Rightarrow> u64 \<Rightarrow> u64 \<Rightarrow> kv list \<Rightarrow> bool" where
  "holds_table tables num sz es \<longleftrightarrow> (\<exists>paranoid block_size interval ctype bits F bs idx.
     internal_table.opened paranoid block_size interval ctype bits (tables num) F bs idx \<and> concat (map snd bs) = es)"

lemma map_sum_Inr: "map_sum f g x = Inr y \<longleftrightarrow> (\<exists>z. x = Inr z \<and> y = g z)"
  by (cases x) auto

lemma blockreader_no_cache:
  assumes "ldb_table_blockreader tab options v None = Some (it, cache)"
  shows "cache = None \<and> (\<forall>func \<in> set (ldb_iter_clear it). \<exists>b. func = delete_block b)"
  using assms
  by (auto simp: ldb_table_blockreader_def fetch_block_def ldb_iter_register_cleanup_def ldb_iter_create_def ldb_iter_clear_def Let_def
      map_sum_Inr split: option.splits sum.splits Option.bind_splits prod.splits)

lemma cleanups_no_cache:
  assumes "ldb_table_blockreader tab options v None = Some (it, c)"
    and "foldl (\<lambda>c func. c \<bind> (\<lambda>c. run_cleanup c func)) (Some c) (ldb_iter_clear it) = Some cache"
  shows "cache = None"
proof -
  have "foldl (\<lambda>c func. c \<bind> (\<lambda>c. run_cleanup c func)) (Some None) funcs = Some None" if "\<forall>func \<in> set funcs. \<exists>b. func = delete_block b" for funcs
    using that by (induction funcs) (auto simp: run_cleanup_def)
  with blockreader_no_cache [OF assms(1)] assms(2) show ?thesis by auto
qed

lemma internal_get_no_cache:
  assumes "ldb_table_internal_get tab options k None = Some (rc, r, cache)"
  shows "cache = None"
  using assms by (auto simp: ldb_table_internal_get_def Let_def split: if_splits Option.bind_splits prod.splits dest: cleanups_no_cache)

interpretation open_tables: table_reader bytewise_comparator "\<lambda>_. True" "open_tables_get tables options" "\<lambda>c. c = None" "holds_table tables"
  for tables :: "u64 \<Rightarrow> table" and options :: readopt
proof (rule table_reader.intro [OF bytewise_user.user_order_axioms], unfold_locales)
  fix c :: "block lru option" and num sz :: u64 and es t
  assume c: "c = None" and h: "holds_table tables num sz es" and t: "ikey_ok t"
  obtain paranoid block_size interval ctype bits F bs idx where
    o: "internal_table.opened paranoid block_size interval ctype bits (tables num) F bs idx" "concat (map snd bs) = es"
    using h by (auto simp: holds_table_def)
  have "cache_ok (tables num) bs None (\<lambda>_. 0)" "refs_room (\<lambda>_. 0)" by (simp_all add: cache_ok_def refs_room_def)
  from internal_table.internal_get_ok [OF o(1) this(1) t this(2), of options] obtain r cache where
    r: "ldb_table_internal_get (tables num) options t None = Some (LDB_OK, r, cache)" "internal_table.get_answer es t r" unfolding o(2) by blast
  have "table_answers bytewise_comparator es t r"
    using r(2) unfolding internal_table.get_answer_def table_answers_def by (simp add: ldb_ikc_init_def bytewise_eq_iff Let_def split: option.splits)
  with r(1) internal_get_no_cache [OF r(1)] show "\<exists>r c'. open_tables_get tables options c num sz t = Some (LDB_OK, r, c') \<and> c' = None
      \<and> table_answers bytewise_comparator es t r"
    unfolding open_tables_get_def c by blast
qed

section \<open>A small version\<close>

text \<open>Two files of level 0 and one of level 1, with three versions of one key.\<close>

definition sample_tables :: "u64 \<Rightarrow> kv list" where
  "sample_tables n =
     (if n = 3 then [(ldb_ikey_set [7] 5 LDB_TYPE_DELETION, []), (ldb_ikey_set [9] 4 LDB_TYPE_VALUE, [4])]
      else if n = 2 then [(ldb_ikey_set [7] 3 LDB_TYPE_VALUE, [3])]
      else [(ldb_ikey_set [5] 1 LDB_TYPE_VALUE, [1]), (ldb_ikey_set [7] 2 LDB_TYPE_VALUE, [2])])"

definition sample_file :: "u64 \<Rightarrow> filemeta" where
  "sample_file n = \<lparr>fm_refs = 1, fm_allowed_seeks = 100, fm_number = n, fm_file_size = 200,
     fm_smallest = fst (hd (sample_tables n)), fm_largest = fst (last (sample_tables n))\<rparr>"

definition sample_version :: version where
  "sample_version = ldb_version_init\<lparr>ver_files := [[sample_file 2, sample_file 3], [sample_file 1], [], [], [], [], []]\<rparr>"

definition sample_get :: "unit tget" where
  "sample_get c num sz t =
     (let es = sample_tables num; i = first_ge (ldb_ikc_compare bytewise_comparator) es t
      in Some (LDB_OK, if i < length es then Some (es ! i) else None, c))"

lemma sample_reader: "table_reader bytewise_comparator (\<lambda>_. True) sample_get (\<lambda>_. True) (\<lambda>num sz es. es = sample_tables num)"
  by (rule table_reader.intro [OF bytewise_user.user_order_axioms], unfold_locales)
    (auto simp: sample_get_def table_answers_def Let_def)

lemma sample_entries_ok: "user_order.internal_entries bytewise_comparator (\<lambda>_. True) (sample_tables n)"
proof -
  have "bytewise_user.internal_entries (sample_tables 3)" "bytewise_user.internal_entries (sample_tables 2)"
    "bytewise_user.internal_entries (sample_tables 1)" unfolding bytewise_user.internal_entries_def by code_simp+
  moreover have "sample_tables n \<in> {sample_tables 3, sample_tables 2, sample_tables 1}" by (simp add: sample_tables_def)
  ultimately show ?thesis by auto
qed

lemma sample_version_ok: "version_ok bytewise_comparator (\<lambda>_. True) sample_tables sample_version"
proof -
  have holds: "file_holds bytewise_comparator (\<lambda>_. True) (sample_file n) (sample_tables n)" for n
    using sample_entries_ok by (auto simp: file_holds_def sample_file_def sample_tables_def)
  have num: "fm_number (sample_file n) = n" for n by (simp add: sample_file_def)
  have files: "ver_files sample_version = [[sample_file 2, sample_file 3], [sample_file 1], [], [], [], [], []]" by (simp add: sample_version_def)
  have newer: "newer_than bytewise_comparator (set (sample_tables 3)) (set (sample_tables 2))"
    "newer_than bytewise_comparator (set (sample_tables 3)) (set (sample_tables 1))"
    "newer_than bytewise_comparator (set (sample_tables 2)) (set (sample_tables 1))"
    by (simp_all add: newer_than_def sample_tables_def pk_ikey_set seq_ok_unat ldb_pkey_init_def bytewise_comparator_def slice_compare_def
        ldb_slice_compare_def)
  have lv: "l < LDB_NUM_LEVELS \<longleftrightarrow> l \<in> {0, 1, 2, 3, 4, 5, 6}" for l by (auto simp: LDB_NUM_LEVELS_def)
  show ?thesis
    unfolding version_ok_def
  proof (intro conjI)
    show "\<forall>f \<in> set (concat (ver_files sample_version)). file_holds bytewise_comparator (\<lambda>_. True) f (sample_tables (fm_number f))"
      using holds by (simp add: files num)
    show "\<forall>l < LDB_NUM_LEVELS. 0 < l \<longrightarrow> files_disjoint bytewise_comparator (ver_files sample_version ! l)"
      by (auto simp: lv files files_disjoint_def)
    show "\<forall>f \<in> set (ver_files sample_version ! 0). \<forall>g \<in> set (ver_files sample_version ! 0). fm_number g < fm_number f \<longrightarrow>
          newer_than bytewise_comparator (set (sample_tables (fm_number f))) (set (sample_tables (fm_number g)))"
      using newer(1) by (simp add: files num)
    show "\<forall>j < LDB_NUM_LEVELS. \<forall>i < j. newer_than bytewise_comparator (files_entries sample_tables (ver_files sample_version ! i))
        (files_entries sample_tables (ver_files sample_version ! j))"
    proof (intro allI impI)
      fix i j assume ij: "j < LDB_NUM_LEVELS" "i < j"
      show "newer_than bytewise_comparator (files_entries sample_tables (ver_files sample_version ! i)) (files_entries sample_tables (ver_files sample_version ! j))"
      proof (cases "j = 1")
        case True
        then show ?thesis using ij newer(2,3) by (auto simp: files files_entries_def num newer_than_def)
      next
        case False
        then have "ver_files sample_version ! j = []" using ij lv [of j] by (auto simp: files)
        then show ?thesis by (simp add: files_entries_def newer_than_def)
      qed
    qed
  qed (simp_all add: files num LDB_NUM_LEVELS_def)
qed

section \<open>Properties\<close>

text \<open>
  C7. Reading from a version (its levels disjoint and sorted, newer entries in higher levels and in newer files of level 0): over a table cache whose lookups answer from the entries of the tables, a read at a snapshot looks at the files
  of level 0 from the newest to the oldest and at one file of every other level, and ends with the newest entry of the user key that the snapshot
  sees in any table: its value, or not found when it is a deletion or there is none. It never reports another version or an error. The user
  comparator, which the code takes from the client, is any that meets the contract of \<^verbatim>\<open>comparator.h\<close>.
\<close>

theorem version_get_newest:
  assumes "table_reader C ok tget I stored" "version_ok C ok tbl ver"
    and "\<forall>f \<in> set (concat (ver_files ver)). stored (fm_number f) (fm_file_size f) (tbl (fm_number f))"
    and "I c" "ok k" "s \<le> LDB_MAX_SEQUENCE"
  shows "\<exists>rc v' stats c'. ldb_version_get tget C c ver (ldb_lkey_init k s) v = Some (rc, v', stats, c') \<and> I c'
    \<and> (visible_entries C k s (version_entries tbl ver) = {} \<and> rc = LDB_NOTFOUND \<and> v' = v
       \<or> (\<exists>e. newest_entry C k s (version_entries tbl ver) e \<and>
            (if vtype (pk e) = LDB_TYPE_VALUE then rc = LDB_OK \<and> v' = map_option (\<lambda>_. snd e) v else rc = LDB_NOTFOUND \<and> v' = v)))"
  by (rule table_reader.version_get_searched [OF assms(1,4,5,6,2,3)])

theorem version_get_newest_witness:
  "\<exists>v' stats. ldb_version_get sample_get bytewise_comparator () sample_version (ldb_lkey_init [7] 4) (Some []) = Some (LDB_OK, Some [3], stats, ())
    \<and> newest_entry bytewise_comparator [7] 4 (version_entries sample_tables sample_version) (ldb_ikey_set [7] 3 LDB_TYPE_VALUE, v')"
proof -
  have s: "(4 :: u64) \<le> LDB_MAX_SEQUENCE" by (simp add: seq_ok_unat)
  let ?E = "version_entries sample_tables sample_version"
  have E: "?E = set (sample_tables 2) \<union> set (sample_tables 3) \<union> set (sample_tables 1)"
    by (auto simp: version_entries_def files_entries_def sample_version_def sample_file_def)
  have vis: "visible_entries bytewise_comparator [7] 4 ?E = {(ldb_ikey_set [7] 3 LDB_TYPE_VALUE, [3]), (ldb_ikey_set [7] 2 LDB_TYPE_VALUE, [2])}"
    unfolding E visible_entries_def bytewise_eq_iff
    by (auto simp: sample_tables_def pk_ikey_set seq_ok_unat ldb_pkey_init_def)
  have lt: "ldb_ikc_compare bytewise_comparator (ldb_ikey_set [7] 3 LDB_TYPE_VALUE) (ldb_ikey_set [7] 2 LDB_TYPE_VALUE) < 0"
    "\<not> ldb_ikc_compare bytewise_comparator (ldb_ikey_set [7] 2 LDB_TYPE_VALUE) (ldb_ikey_set [7] 3 LDB_TYPE_VALUE) \<le> 0"
    "ldb_ikc_compare bytewise_comparator (ldb_ikey_set [7] 3 LDB_TYPE_VALUE) (ldb_ikey_set [7] 3 LDB_TYPE_VALUE) = 0" by code_simp+
  have new: "newest_entry bytewise_comparator [7] 4 ?E e \<longleftrightarrow> e = (ldb_ikey_set [7] 3 LDB_TYPE_VALUE, [3])" for e
    unfolding newest_entry_def vis using lt by auto
  from version_get_newest [OF sample_reader sample_version_ok _ TrueI TrueI s, of "()" "[7]" "Some []"] obtain rc v' stats c' where
    "ldb_version_get sample_get bytewise_comparator () sample_version (ldb_lkey_init [7] 4) (Some []) = Some (rc, v', stats, c')"
    "rc = LDB_OK \<and> v' = Some [3]"
    unfolding new vis by (auto simp: pk_ikey_set seq_ok_unat ldb_pkey_init_def)
  then show ?thesis unfolding new by auto
qed

text \<open>
  C35. Files of a range: whether a level has a file that touches a range of user keys is decided exactly, by binary search above level 0. The files to
  compact with a range are those that touch it; in level 0, where files overlap each other, the search widens the range and starts again,
  ends, and returns the least set of files that touch the range or a file of the set.
\<close>

theorem overlapping_inputs_least:
  assumes "user_order C ok" "version_ok C ok tbl ver" "lvl < LDB_NUM_LEVELS" "bound_ok (valid_ikey ok) b" "bound_ok (valid_ikey ok) e"
  defines "b' \<equiv> map_option ldb_extract_user_key b" and "e' \<equiv> map_option ldb_extract_user_key e"
  shows "(ldb_version_overlap_in_level C ver lvl b' e' \<longleftrightarrow> (\<exists>f \<in> set (ver_files ver ! lvl). touches C b' e' f))
    \<and> (\<exists>r. ldb_version_get_overlapping_inputs C ver lvl b e = Some r \<and> subseq r (ver_files ver ! lvl)
        \<and> (0 < lvl \<longrightarrow> r = filter (touches C b' e') (ver_files ver ! lvl))
        \<and> (lvl = 0 \<longrightarrow> overlap_closed C (ver_files ver ! 0) b' e' (set r)
             \<and> (\<forall>T. overlap_closed C (ver_files ver ! 0) b' e' T \<longrightarrow> set r \<subseteq> T)))"
proof -
  let ?fs = "ver_files ver ! lvl"
  have ok: "\<forall>f \<in> set ?fs. file_range_ok C ok f"
    using user_order.version_file(2) [OF assms(1-3)] user_order.file_holds_range [OF assms(1)] by blast
  have dj: "0 < lvl \<Longrightarrow> files_disjoint C ?fs" using assms(2,3) by (simp add: version_ok_def)
  have b: "bound_ok ok b'" "bound_ok ok e'" using assms(4,5) valid_ikeyD(2) by (auto simp: bound_ok_def b'_def e'_def)
  have touch: "\<not> after_file C b' f \<and> \<not> before_file C e' f \<longleftrightarrow> touches C b' e' f" if "f \<in> set ?fs" for f
  proof -
    note F = user_order.range_okD(1,2) [OF assms(1)] ok that
    show ?thesis
      using F b key_order.cmp_swap [OF comparator_contract.axioms(1) [OF user_order.axioms [OF assms(1)]]]
      by (cases b'; cases e') (auto simp: after_file_def before_file_def touches_def ldb_ikey_user_key_def bound_ok_def not_less [symmetric])
  qed
  have "ldb_version_overlap_in_level C ver lvl b' e' \<longleftrightarrow> (\<exists>f \<in> set ?fs. touches C b' e' f)"
    using user_order.overlaps_exact [OF assms(1), of "0 < lvl" ?fs b' e'] dj ok b touch
    by (auto simp: ldb_version_overlap_in_level_def bound_ok_def)
  moreover obtain r where r: "overlapping_loop C ?fs (lvl = 0) 0 b' e' [] = Some r" "subseq r ?fs" "\<not> lvl = 0 \<longrightarrow> r = filter (touches C b' e') ?fs"
    "lvl = 0 \<longrightarrow> overlap_closed C ?fs b' e' (set r) \<and> (\<forall>T. overlap_closed C ?fs b' e' T \<longrightarrow> set r \<subseteq> T)"
    using user_order.overlapping_inputs_spec [OF assms(1) ok b, of "lvl = 0"] by blast
  moreover have "ldb_ikey_user_key = ldb_extract_user_key" by (auto simp: ldb_ikey_user_key_def)
  then have "ldb_version_get_overlapping_inputs C ver lvl b e = Some r" using r(1) assms(3) by (simp add: ldb_version_get_overlapping_inputs_def b'_def e'_def)
  ultimately show ?thesis by auto
qed

theorem overlapping_inputs_least_witness:
  "\<exists>r. ldb_version_get_overlapping_inputs bytewise_comparator sample_version 0 (Some (ldb_ikey_set [9] 4 LDB_TYPE_VALUE)) (Some (ldb_ikey_set [9] 4 LDB_TYPE_VALUE))
      = Some r \<and> set r = {sample_file 2, sample_file 3}"
proof -
  let ?k = "ldb_ikey_set [9] 4 LDB_TYPE_VALUE"
  have files: "ver_files sample_version ! 0 = [sample_file 2, sample_file 3]" by (simp add: sample_version_def)
  have ok: "bound_ok (valid_ikey (\<lambda>_. True)) (Some ?k)" 
    by (simp add: bound_ok_def valid_ikey_def ldb_ikey_set_def ldb_pkey_export_def ldb_pkey_import_write ldb_pkey_init_def seq_ok_unat)
  have touch: "touches bytewise_comparator (Some (ldb_extract_user_key ?k)) (Some (ldb_extract_user_key ?k)) (sample_file 3)"
    "touches bytewise_comparator (Some (ldb_extract_user_key (fm_smallest (sample_file 3)))) (Some (ldb_extract_user_key (fm_largest (sample_file 3)))) (sample_file 2)"
    by (simp_all add: touches_def sample_file_def sample_tables_def bytewise_comparator_def slice_compare_def ldb_slice_compare_def) code_simp+
  obtain r where r: "ldb_version_get_overlapping_inputs bytewise_comparator sample_version 0 (Some ?k) (Some ?k) = Some r"
    "subseq r [sample_file 2, sample_file 3]" "overlap_closed bytewise_comparator [sample_file 2, sample_file 3]
      (Some (ldb_extract_user_key ?k)) (Some (ldb_extract_user_key ?k)) (set r)"
    using overlapping_inputs_least [OF bytewise_user.user_order_axioms sample_version_ok _ ok ok, of 0] by (auto simp: files LDB_NUM_LEVELS_def)
  have "sample_file 3 \<in> set r" using r(3) touch(1) by (simp add: overlap_closed_def)
  moreover from this have "sample_file 2 \<in> set r" using r(3) touch(2) by (auto simp: overlap_closed_def)
  moreover have "set r \<subseteq> {sample_file 2, sample_file 3}" using list_emb_set [OF r(2)] by force
  ultimately show ?thesis using r(1) by blast
qed

end
