(* ===== verification/Spec2Isabelle.thy ===== *)
theory Spec2Isabelle
  imports Log WriteBatch Filename MemIter Version
begin

text \<open>
  A verification library for lcdb, a reimplementation of the LevelDB key/value store in C89.

  \<^bold>\<open>The program.\<close> A database is a directory of files. Writes go to a log (\<^verbatim>\<open>src/src/log_writer.c\<close>) as
  encoded batches (\<^verbatim>\<open>write_batch.c\<close>) and into a memtable (\<^verbatim>\<open>memtable.c\<close>), a skip list (\<^verbatim>\<open>skiplist.c\<close>) of
  internal keys (\<^verbatim>\<open>dbformat.c\<close>): a user key with a sequence number and a type, newest first. After a crash
  the log is read back (\<^verbatim>\<open>log_reader.c\<close>). A full memtable becomes a table file (\<^verbatim>\<open>table/table_builder.c\<close>): data blocks
  (\<^verbatim>\<open>table/block_builder.c\<close>, \<^verbatim>\<open>table/block.c\<close>), compressed (\<^verbatim>\<open>util/snappy.c\<close>) and with a checksum (\<^verbatim>\<open>util/crc32c.c\<close>), a filter block
  (\<^verbatim>\<open>table/filter_block.c\<close>, \<^verbatim>\<open>util/bloom.c\<close>), an index and a footer (\<^verbatim>\<open>table/format.c\<close>). Tables are read (\<^verbatim>\<open>table/table.c\<close>) through
  a cache of blocks (\<^verbatim>\<open>util/cache.c\<close>). The live tables, by level, are a version (\<^verbatim>\<open>version_set.c\<close>); changes of it are version edits
  (\<^verbatim>\<open>version_edit.c\<close>), recorded in a manifest that is itself a log and that the file CURRENT names (\<^verbatim>\<open>filename.c\<close>). Everything is read
  through iterators (\<^verbatim>\<open>table/iterator.h\<close>): of blocks, of two levels (\<^verbatim>\<open>table/two_level_iterator.c\<close>), merged
  (\<^verbatim>\<open>table/merger.c\<close>), and, for the user, of one entry per key (\<^verbatim>\<open>db_iter.c\<close>).

  \<^bold>\<open>The theories.\<close> Each theory opens with a description of what it holds. A definition has the name of the C
  function or type it translates, a loop of a function has a name of its own. Structures are records, machine integers are words
  (\<^verbatim>\<open>size_t\<close> has 64 bits where it may wrap, and is a natural number for the lengths of things in memory), errors are values of the type of
  status codes. \<^term>\<open>None\<close> as the result of an operation is a failed assertion, an access outside an object or a loop that does not
  end; where an assertion is all that can go wrong it is a predicate next to the operation (\<^verbatim>\<open>..._assert\<close>).

  \<^item> \<^verbatim>\<open>Prelude\<close>, \<^verbatim>\<open>Codec\<close>: words, bytes, little-endian lists; the locale of a reader that inverts a writer, with an interpretation for
    every encoding.
  \<^item> \<^verbatim>\<open>Coding\<close> (\<^verbatim>\<open>util/coding.h\<close>), \<^verbatim>\<open>Slice\<close> (\<^verbatim>\<open>util/slice.c\<close>, \<^verbatim>\<open>util/memcmp.h\<close>), \<^verbatim>\<open>Strutil\<close>, \<^verbatim>\<open>Hash\<close>, \<^verbatim>\<open>Rand\<close>,
    \<^verbatim>\<open>Crc32c\<close> (both builds of the checksum), \<^verbatim>\<open>Buffer\<close> (\<^verbatim>\<open>util/buffer.c\<close> on memory blocks), \<^verbatim>\<open>Vector\<close> (\<^verbatim>\<open>util/vector.c\<close> and its
    quicksort), \<^verbatim>\<open>Snappy\<close> (compressor and decompressor).
  \<^item> \<^verbatim>\<open>Comparator\<close>: the comparator object, the bytewise comparator, the contract of \<^verbatim>\<open>comparator.h\<close> as a locale.
    \<^verbatim>\<open>DbFormat\<close>: internal keys and their comparator, an instance of the same contract.
  \<^item> \<^verbatim>\<open>FileState\<close>, \<^verbatim>\<open>EnvMem\<close>, \<^verbatim>\<open>EnvFiles\<close> (\<^verbatim>\<open>util/env_mem_impl.h\<close>): the in-memory environment with its reference
    counts, and the map from names to contents that it implements. \<^verbatim>\<open>Filename\<close>: generated names, their parser
    and the switch of CURRENT.
  \<^item> \<^verbatim>\<open>LogFormat\<close>, \<^verbatim>\<open>LogWriter\<close>, \<^verbatim>\<open>LogReader\<close>, \<^verbatim>\<open>Log\<close>: the log, over any file that appends and any file that reads, and over the files of
    the in-memory environment.
  \<^item> \<^verbatim>\<open>SkipList\<close> (a heap of nodes, insertion as a sequence of pointer stores), \<^verbatim>\<open>MemTable\<close>, \<^verbatim>\<open>WriteBatch\<close>.
  \<^item> \<^verbatim>\<open>OrdSet\<close>, \<^verbatim>\<open>VersionEdit\<close>: version edits. The red-black sets of the source are the sorted lists their
    iteration yields.
  \<^item> \<^verbatim>\<open>Iter\<close>: function tables of iterators, the contract of \<^verbatim>\<open>iterator.h\<close> as the locale \<^verbatim>\<open>cursor\<close>, cleanup
    functions, the empty iterator. \<^verbatim>\<open>IterWrapper\<close> (\<^verbatim>\<open>table/iterator_wrapper.h\<close>), \<^verbatim>\<open>Merger\<close>, \<^verbatim>\<open>TwoLevel\<close>, \<^verbatim>\<open>DbIter\<close>, \<^verbatim>\<open>MemIter\<close>: the
    iterators. Each is proved to meet the contract for a list of entries when its children meet it for theirs, so that they compose.
  \<^item> \<^verbatim>\<open>BlockBuilder\<close>, \<^verbatim>\<open>Block\<close>: blocks and their iterator. \<^verbatim>\<open>Bloom\<close>, \<^verbatim>\<open>FilterBlock\<close>: filters. \<^verbatim>\<open>Format\<close>: handles, the footer, reading a
    stored block. \<^verbatim>\<open>TableBuilder\<close>, \<^verbatim>\<open>Table\<close>: table files, written through a file that appends and read through one that reads at an offset.
  \<^item> \<^verbatim>\<open>Cache\<close>: the sharded LRU cache, its handles as cells of a heap.
  \<^item> \<^verbatim>\<open>Version\<close>: versions, the first third of \<^verbatim>\<open>version_set.c\<close>: reads, samples, overlapping files, iterators.

  \<^bold>\<open>What is shown.\<close>
  \<^item> Formats: records, batches, edits, slices, varints, file names, blocks, filters, compressed data and tables are read back as they were written, from
    the bytes that the code produces; records of the manifest, parsed internal keys, stored blocks and decimal numbers are accepted exactly as their
    grammar says, and everything else is an error. A log that a crash cuts at any byte gives back the whole records before the cut, without a report.
  \<^item> Structures: the skip list is a sorted set, also for a reader between two stores of an insertion; the memtable, the version, the table and the database
    iterator give for a snapshot the newest visible entry of a key; the environment is a map of files; the cache is a map that forgets, never touches
    a freed handle and deletes every value once; the files to compact are the least set closed under overlap.
  \<^item> Optimised code: the strided checksum equals the simple one.
  \<^item> Termination: loops that the source bounds by data are functions with a measure; the others (searches in linked structures, iterators, the log
    reader, resizing, eviction, encoding) are partial functions in the option type, for which the theorems say that there is a result.
  \<^item> Two theorems state defects of the code: sums of sizes from corrupt files that wrap around (theories Block and Format).

  \<^bold>\<open>Bounds.\<close> The theorems on tables ask that the bytes a table can take (\<^verbatim>\<open>table_size_bound\<close>) are below \<open>2^30\<close>, so that offsets in blocks fit their 32
  bits. Clients of the cache keep fewer than \<open>2^32 - 2\<close> references to a handle and \<open>2^30\<close> entries, the sizes at which its 32-bit counters come near
  wrapping; charges may wrap. A level of a version has fewer than \<open>2^30\<close> files. Keys and values are shorter than \<open>2^32\<close> bytes where a length prefix
  stores their size. Sequence numbers are at most the 56-bit maximum, as the code asserts. Products of sizes in buffers and filters do not wrap a
  64-bit \<^verbatim>\<open>size_t\<close>; on a machine with 32 bits they could.

  \<^bold>\<open>Not modelled.\<close> The rest of \<^verbatim>\<open>version_set.c\<close> (the builder of versions, the manifest, recovery, compactions), \<^verbatim>\<open>db_impl.c\<close>, \<^verbatim>\<open>builder.c\<close>,
  \<^verbatim>\<open>repair.c\<close>, \<^verbatim>\<open>dumpfile.c\<close> and \<^verbatim>\<open>table_cache.c\<close>: they compose the parts above under locks and threads; of the table cache the reads of a
  version use one function, whose law is the locale \<^verbatim>\<open>table_reader\<close>, interpreted for tables that are open. The environments of the operating
  systems, threads, atomic operations and logging are system calls. The iterator over a table reads its blocks without the cache (the reader of
  blocks is modelled with it). Memory allocation does not fail. \<^verbatim>\<open>arena.c\<close> and \<^verbatim>\<open>rbt.c\<close> are replaced by what their clients see.
\<close>

end
